(* ===== verification/Prelude.thy ===== *)
theory Prelude
  imports Main "HOL-Library.Word" "HOL-Library.Monad_Syntax"
begin

text \<open>
  Shared vocabulary of the development: the machine integer types of the C code, the
  option monad in which the model runs (the value None stands for an execution that
  ends in a failed \<^verbatim>\<open>assert\<close>, an access outside an object or a null pointer,
  an overflow of a signed integer, or a loop that never returns), generic lemmas on lists, words
  and options, and the two interfaces that several components share: a first-in first-out
  container and an incremental decoder of a byte stream.
\<close>

unbundle bit_operations_syntax

type_synonym u8 = "8 word"
type_synonym u16 = "16 word"
type_synonym u32 = "32 word"
type_synonym u64 = "64 word"

type_synonym ptr = nat

named_theorems wf_intros "introduction rules for the well-formedness of model states"

section \<open>The option monad\<close>

text \<open>The C idiom \<^verbatim>\<open>assert(b)\<close>: the process aborts when the condition fails.\<close>

definition c_assert :: "bool \<Rightarrow> unit option" where
  "c_assert b = (if b then Some () else None)"

lemma c_assert_simps [simp]:
  "c_assert True = Some ()" "c_assert False = None"
  "(c_assert b = Some u) = b" "(c_assert b = None) = (\<not> b)"
  by (simp_all add: c_assert_def)

lemma bind_c_assert [simp]:
  "(c_assert b \<bind> f = Some y) = (b \<and> f () = Some y)"
  by (simp add: c_assert_def)

text \<open>The largest value of the C type \<^verbatim>\<open>int\<close>; a signed overflow is undefined, hence None.\<close>

definition INT_MAX :: nat where
  "INT_MAX = 2147483647"

definition c_nat :: "nat \<Rightarrow> nat option" where
  "c_nat n = (if n \<le> INT_MAX then Some n else None)"

lemma c_nat_simps [simp]:
  "n \<le> INT_MAX \<Longrightarrow> c_nat n = Some n" "(c_nat n = Some m) = (n \<le> INT_MAX \<and> m = n)"
  by (auto simp add: c_nat_def)

text \<open>An array access inside the bounds of the array; outside them it is undefined.\<close>

definition c_index :: "'a list \<Rightarrow> nat \<Rightarrow> 'a option" where
  "c_index xs i = (if i < length xs then Some (xs ! i) else None)"

definition c_update :: "'a list \<Rightarrow> nat \<Rightarrow> 'a \<Rightarrow> 'a list option" where
  "c_update xs i x = (if i < length xs then Some (xs[i := x]) else None)"

lemma c_index_in [simp]: "i < length xs \<Longrightarrow> c_index xs i = Some (xs ! i)"
  by (simp add: c_index_def)

lemma c_index_Some_iff: "c_index xs i = Some x \<longleftrightarrow> i < length xs \<and> x = xs ! i"
  by (auto simp: c_index_def)

lemma c_update_in [simp]: "i < length xs \<Longrightarrow> c_update xs i x = Some (xs[i := x])"
  by (simp add: c_update_def)

lemma c_update_Some_iff: "c_update xs i x = Some ys \<longleftrightarrow> i < length xs \<and> ys = xs[i := x]"
  by (auto simp: c_update_def)

lemmas monad_simps = Option.bind_eq_Some_conv c_index_Some_iff c_update_Some_iff

section \<open>Arithmetic\<close>

text \<open>A run of consecutive numbers as long as the modulus meets every residue.\<close>

lemma consecutive_residues:
  fixes a sz :: nat
  assumes "0 < sz"
  shows "(\<lambda>x. x mod sz) ` {a ..< a + sz} = {..< sz}"
proof -
  have "r \<in> (\<lambda>x. x mod sz) ` {a ..< a + sz}" if "r < sz" for r
  proof -
    let ?d = "(r + (sz - a mod sz)) mod sz"
    have "(a + ?d) mod sz = (a mod sz + (r + (sz - a mod sz))) mod sz"
      by (simp add: mod_simps)
    also have "a mod sz + (r + (sz - a mod sz)) = r + sz"
      using mod_less_divisor [OF assms, of a] by linarith
    finally have "(a + ?d) mod sz = r" using that by simp
    moreover have "a + ?d \<in> {a ..< a + sz}" using assms by simp
    ultimately show ?thesis by (metis image_eqI)
  qed
  with assms show ?thesis by auto
qed

section \<open>First-in first-out containers\<close>

text \<open>
  The contract of a queue: a relation \<^verbatim>\<open>repr\<close> between the representation and the
  list of its elements, oldest first; \<^verbatim>\<open>room\<close> says that the container takes one more
  element. The operations never fault under the contract.
\<close>

locale fifo =
  fixes repr :: "'q \<Rightarrow> 'a list \<Rightarrow> bool"
    and room :: "'q \<Rightarrow> 'a \<Rightarrow> bool"
    and enq :: "'a \<Rightarrow> 'q \<Rightarrow> 'q option"
    and deq :: "'q \<Rightarrow> ('a option \<times> 'q) option"
  assumes enq_repr: "repr q xs \<Longrightarrow> room q a \<Longrightarrow> \<exists>q'. enq a q = Some q' \<and> repr q' (xs @ [a])"
    and deq_Nil: "repr q [] \<Longrightarrow> \<exists>q'. deq q = Some (None, q') \<and> repr q' []"
    and deq_Cons: "repr q (x # xs) \<Longrightarrow> \<exists>q'. deq q = Some (Some x, q') \<and> repr q' xs"

locale bounded_fifo = fifo +
  fixes limit :: nat
  assumes room_limit: "repr q xs \<Longrightarrow> length xs < limit \<Longrightarrow> room q a"

text \<open>The two client loops of the code: push a sequence, pop until the queue is empty.\<close>

fun enq_all :: "('a \<Rightarrow> 'q \<Rightarrow> 'q option) \<Rightarrow> 'a list \<Rightarrow> 'q \<Rightarrow> 'q option" where
  "enq_all enq [] q = Some q"
| "enq_all enq (x # xs) q = enq x q \<bind> enq_all enq xs"

partial_function (option) drain :: "('q \<Rightarrow> ('a option \<times> 'q) option) \<Rightarrow> 'q \<Rightarrow> ('a list \<times> 'q) option" where
  "drain deq q =
     deq q \<bind> (\<lambda>r. case fst r of
        None \<Rightarrow> Some ([], snd r)
      | Some x \<Rightarrow> drain deq (snd r) \<bind> (\<lambda>t. Some (x # fst t, snd t)))"

context fifo
begin

lemma drain_repr: "repr q xs \<Longrightarrow> \<exists>q'. drain deq q = Some (xs, q') \<and> repr q' []"
proof (induction xs arbitrary: q)
  case Nil
  then show ?case using deq_Nil [OF Nil] by (auto simp: drain.simps [of deq q])
next
  case (Cons x xs)
  from Cons.prems obtain q1 where "deq q = Some (Some x, q1)" and "repr q1 xs"
    using deq_Cons by blast
  with Cons.IH show ?case by (fastforce simp: drain.simps [of deq q])
qed

end

context bounded_fifo
begin

lemma enq_all_repr:
  "repr q xs \<Longrightarrow> length xs + length ys \<le> limit \<Longrightarrow>
     \<exists>q'. enq_all enq ys q = Some q' \<and> repr q' (xs @ ys)"
proof (induction ys arbitrary: q xs)
  case Nil
  then show ?case by simp
next
  case (Cons y ys)
  then have "room q y" by (intro room_limit) auto
  with Cons.prems(1) obtain q1 where q1: "enq y q = Some q1" "repr q1 (xs @ [y])"
    using enq_repr by blast
  with Cons.IH [of q1 "xs @ [y]"] Cons.prems(2) show ?case by auto
qed

lemma enq_all_drain:
  assumes "repr q xs" and "length xs + length ys \<le> limit"
  shows "\<exists>q'. (enq_all enq ys q \<bind> drain deq) = Some (xs @ ys, q') \<and> repr q' []"
  using enq_all_repr [OF assms] drain_repr by fastforce

end

section \<open>Incremental decoders of a byte stream\<close>

text \<open>
  A decoder is fed chunk by chunk. Its contract says that feeding two chunks one after the
  other is the same as feeding their concatenation, so that what it emits does not
  depend on how the stream was cut into packets.
\<close>

fun feed_chunks :: "('b list \<Rightarrow> 's \<Rightarrow> ('e list \<times> 's) option) \<Rightarrow> 'b list list \<Rightarrow> 's \<Rightarrow> ('e list \<times> 's) option" where
  "feed_chunks feed [] s = Some ([], s)"
| "feed_chunks feed (c # cs) s =
     do { (es, s1) \<leftarrow> feed c s; (es', s2) \<leftarrow> feed_chunks feed cs s1; Some (es @ es', s2) }"

locale stream_decoder =
  fixes ok :: "'s \<Rightarrow> bool"
    and fits :: "'b list \<Rightarrow> bool"
    and abs :: "'s \<Rightarrow> 'a"
    and feed :: "'b list \<Rightarrow> 's \<Rightarrow> ('e list \<times> 's) option"
    and dec :: "'b list \<Rightarrow> 'a \<Rightarrow> 'e list \<times> 'a"
  assumes feed_dec: "ok s \<Longrightarrow> fits c \<Longrightarrow>
      \<exists>s'. feed c s = Some (fst (dec c (abs s)), s') \<and> ok s' \<and> abs s' = snd (dec c (abs s))"
    and dec_Nil: "ok s \<Longrightarrow> dec [] (abs s) = ([], abs s)"
    and dec_append: "ok s \<Longrightarrow> dec (c @ d) (abs s) =
      (fst (dec c (abs s)) @ fst (dec d (snd (dec c (abs s)))), snd (dec d (snd (dec c (abs s)))))"
begin

lemma feed_chunks_concat:
  "ok s \<Longrightarrow> (\<And>c. c \<in> set cs \<Longrightarrow> fits c) \<Longrightarrow> \<exists>s'. feed_chunks feed cs s = Some (fst (dec (concat cs) (abs s)), s') \<and> ok s' \<and>
      abs s' = snd (dec (concat cs) (abs s))"
proof (induction cs arbitrary: s)
  case Nil
  then show ?case by (simp add: dec_Nil)
next
  case (Cons c cs)
  obtain s1 where s1: "feed c s = Some (fst (dec c (abs s)), s1)" "ok s1"
      "abs s1 = snd (dec c (abs s))"
    using feed_dec [OF Cons.prems(1)] Cons.prems(2) by auto
  from Cons.IH [OF s1(2)] Cons.prems(2) obtain s2 where
      "feed_chunks feed cs s1 = Some (fst (dec (concat cs) (abs s1)), s2)" "ok s2"
      "abs s2 = snd (dec (concat cs) (abs s1))" by auto
  with s1 show ?case by (simp add: dec_append [OF Cons.prems(1)])
qed

text \<open>Two ways of cutting the same stream give the same elements and the same final state.\<close>

lemma chunking_irrelevant:
  assumes "ok s" and "\<And>c. c \<in> set cs \<union> set ds \<Longrightarrow> fits c" and "concat cs = concat ds"
  shows "map_option fst (feed_chunks feed cs s) = map_option fst (feed_chunks feed ds s) \<and>
    map_option (abs \<circ> snd) (feed_chunks feed cs s) = map_option (abs \<circ> snd) (feed_chunks feed ds s)"
  using feed_chunks_concat [OF assms(1), of cs] feed_chunks_concat [OF assms(1), of ds] assms(2,3)
  by auto

end

end
