(* ===== verification/Ring.thy ===== *)
theory Ring
  imports Prelude
begin

text \<open>
  Circular buffers. Three components of the code keep a circular array of slots with a head
  and a tail index: the message queue of a service (\<^verbatim>\<open>skynet_mq.c\<close>), the queue of messages
  that wait for a remote harbor (\<^verbatim>\<open>service_harbor.c\<close>) and the queue of complete packets
  (\<^verbatim>\<open>lua-netpack.c\<close>). Their proofs share the lemmas of this theory. A slot the code has
  not written since the array was allocated is None.
\<close>

definition ring_len :: "nat \<Rightarrow> nat \<Rightarrow> nat \<Rightarrow> nat" where
  "ring_len cap head tail = (if head \<le> tail then tail - head else tail + cap - head)"

definition ring_list :: "'a option list \<Rightarrow> nat \<Rightarrow> nat \<Rightarrow> 'a option list" where
  "ring_list slots head n = map (\<lambda>i. slots ! ((head + i) mod length slots)) [0..<n]"

definition ring_repr :: "'a option list \<Rightarrow> nat \<Rightarrow> nat \<Rightarrow> 'a list \<Rightarrow> bool" where
  "ring_repr slots head tail xs \<longleftrightarrow>
     head < length slots \<and> tail < length slots \<and>
     length xs = ring_len (length slots) head tail \<and>
     ring_list slots head (length xs) = map Some xs"

lemma ring_reprD:
  assumes "ring_repr slots head tail xs"
  shows "head < length slots" "tail < length slots" "length xs < length slots"
    "ring_len (length slots) head tail = length xs"
  using assms by (auto simp: ring_repr_def ring_len_def split: if_splits)

lemma ring_repr_empty_iff: "ring_repr slots head tail xs \<Longrightarrow> head = tail \<longleftrightarrow> xs = []"
  by (auto simp: ring_repr_def ring_len_def split: if_splits)

lemma ring_tail_eq:
  assumes "ring_repr slots head tail xs"
  shows "tail = (head + length xs) mod length slots"
  using assms by (auto simp: ring_repr_def ring_len_def mod_if split: if_splits)

lemma ring_list_Suc:
  "ring_list slots head (Suc n) = ring_list slots head n @ [slots ! ((head + n) mod length slots)]"
  by (simp add: ring_list_def)

lemma ring_list_Cons:
  assumes "slots \<noteq> []"
  shows "ring_list slots head (Suc n) =
    slots ! (head mod length slots) # ring_list slots (Suc head mod length slots) n"
  by (simp add: ring_list_def upt_conv_Cons map_Suc_upt [symmetric] mod_simps del: upt_Suc)

lemma mod_add_neq:
  assumes "i < n" "n < (m::nat)"
  shows "(h + n) mod m \<noteq> (h + i) mod m"
proof
  assume "(h + n) mod m = (h + i) mod m"
  then have "m dvd (h + n) - (h + i)"
    using assms(1) by (metis add_le_cancel_left less_imp_le_nat mod_eq_dvd_iff_nat)
  with assms show False by (auto dest: dvd_imp_le)
qed

lemma ring_list_store:
  assumes "n < length slots"
  shows "ring_list (slots[(head + n) mod length slots := x]) head n = ring_list slots head n"
  unfolding ring_list_def using assms mod_add_neq [of _ n "length slots" head]
  by (auto simp: nth_list_update_neq)

lemma ring_list_snoc_store:
  assumes "n < length slots"
  shows "ring_list (slots[(head + n) mod length slots := x]) head (Suc n) = ring_list slots head n @ [x]"
proof -
  have "(head + n) mod length slots < length slots"
    using assms by (intro mod_less_divisor) linarith
  then show ?thesis using assms by (simp add: ring_list_Suc ring_list_store)
qed

text \<open>Storing at the tail of a ring with at least one slot to spare appends the element.\<close>

lemma ring_store_repr:
  assumes r: "ring_repr slots head tail xs" and room: "Suc (length xs) < length slots"
  shows "ring_repr (slots[tail := Some x]) head (if Suc tail < length slots then Suc tail else 0) (xs @ [x])"
proof -
  have t: "tail = (head + length xs) mod length slots" using r by (rule ring_tail_eq)
  have "ring_list (slots[tail := Some x]) head (Suc (length xs)) = map Some xs @ [Some x]"
    using r room ring_list_snoc_store [of "length xs" slots head "Some x"] by (simp add: t ring_repr_def)
  moreover have "ring_len (length slots) head (if Suc tail < length slots then Suc tail else 0) = Suc (length xs)"
    using r room by (auto simp: ring_repr_def ring_len_def split: if_splits)
  ultimately show ?thesis using r by (auto simp: ring_repr_def)
qed

text \<open>When the store fills the last slot, head and tail meet and every slot is in use.\<close>

lemma ring_store_full:
  assumes r: "ring_repr slots head tail xs" and full: "Suc (length xs) = length slots"
  shows "(if Suc tail < length slots then Suc tail else 0) = head"
    and "ring_list (slots[tail := Some x]) head (length slots) = map Some (xs @ [x])"
proof -
  show "(if Suc tail < length slots then Suc tail else 0) = head"
    using r full by (auto simp: ring_repr_def ring_len_def split: if_splits)
  have t: "tail = (head + length xs) mod length slots" using r by (rule ring_tail_eq)
  have "ring_list (slots[tail := Some x]) head (Suc (length xs)) = map Some xs @ [Some x]"
    using r full ring_list_snoc_store [of "length xs" slots head "Some x"] by (simp add: t ring_repr_def)
  then show "ring_list (slots[tail := Some x]) head (length slots) = map Some (xs @ [x])"
    using full by simp
qed

lemma ring_store_not_full:
  assumes r: "ring_repr slots head tail xs" and room: "Suc (length xs) < length slots"
  shows "(if Suc tail < length slots then Suc tail else 0) \<noteq> head"
  using r room by (auto simp: ring_repr_def ring_len_def split: if_splits)

text \<open>Advancing the head removes the oldest element.\<close>

lemma ring_pop_repr:
  assumes r: "ring_repr slots head tail (x # xs)"
  shows "slots ! head = Some x"
    and "ring_repr slots (if length slots \<le> Suc head then 0 else Suc head) tail xs"
proof -
  have ne: "slots \<noteq> []" and h: "head < length slots" using r by (auto simp: ring_repr_def)
  from r have *: "ring_list slots head (Suc (length xs)) = Some x # map Some xs"
    unfolding ring_repr_def by (metis length_Cons list.simps(9))
  with ne h show "slots ! head = Some x" by (simp add: ring_list_Cons)
  have m: "(if length slots \<le> Suc head then 0 else Suc head) = Suc head mod length slots"
    using h by (cases "Suc head = length slots") auto
  from * ne have "ring_list slots (Suc head mod length slots) (length xs) = map Some xs"
    by (simp add: ring_list_Cons)
  moreover have "ring_len (length slots) (if length slots \<le> Suc head then 0 else Suc head) tail = length xs"
    using r by (auto simp: ring_repr_def ring_len_def split: if_splits)
  ultimately show "ring_repr slots (if length slots \<le> Suc head then 0 else Suc head) tail xs"
    using r mod_less_divisor [of "length slots" "Suc head"] ne by (simp add: ring_repr_def m)
qed

text \<open>Copying the ring to the front of a larger array keeps its contents.\<close>

lemma ring_copy_repr:
  assumes "length ys = n" and "0 < m" and "map Some ys = old"
  shows "ring_repr (old @ replicate m None) 0 n ys"
proof -
  have "ring_list (old @ replicate m None) 0 n = old"
    using assms by (auto simp: ring_list_def nth_append intro!: nth_equalityI)
  then show ?thesis using assms by (auto simp: ring_repr_def ring_len_def)
qed

lemma ring_repr_init: "0 < n \<Longrightarrow> ring_repr (replicate n None) 0 0 []"
  by (simp add: ring_repr_def ring_len_def ring_list_def)

end
