(* ===== verification/MessageQueue.thy ===== *)
theory MessageQueue
  imports Ring
begin

text \<open>
  The message queues of \<^verbatim>\<open>skynet-src/skynet_mq.c\<close>: one circular buffer of messages per service
  and the global run queue, a list of message queues linked through their \<^verbatim>\<open>next\<close> fields.
  A queue is an object at an address; the store \<^verbatim>\<open>queues\<close> maps addresses to queues
  and loses an address when the queue is freed. Every function runs under the spin lock of the
  object it works on, so it is one atomic step of the model. The state is an
  extensible record: the node of \<^verbatim>\<open>Server\<close> adds its own fields to it.
\<close>

section \<open>State\<close>

definition DEFAULT_QUEUE_SIZE :: nat where "DEFAULT_QUEUE_SIZE = 64"
definition MQ_IN_GLOBAL :: nat where "MQ_IN_GLOBAL = 1"
definition MQ_OVERLOAD :: nat where "MQ_OVERLOAD = 1024"

record 'm message_queue =
  mq_handle :: u32
  mq_cap :: nat
  mq_head :: nat
  mq_tail :: nat
  mq_release :: nat
  in_global :: nat
  overload :: nat
  overload_threshold :: nat
  mq_slots :: "'m option list"
  mq_next :: "ptr option"

record 'm mq_state =
  queues :: "ptr \<Rightarrow> 'm message_queue option"
  gq_head :: "ptr option"
  gq_tail :: "ptr option"

section \<open>The global queue\<close>

definition skynet_globalmq_push ::
    "ptr \<Rightarrow> ('m, 'x) mq_state_scheme \<Rightarrow> ('m, 'x) mq_state_scheme option" where
  "skynet_globalmq_push p s = do {
     q \<leftarrow> queues s p;
     c_assert (mq_next q = None);
     case gq_tail s of
       Some t \<Rightarrow> do {
         tq \<leftarrow> queues s t;
         Some (s\<lparr>queues := (queues s)(t \<mapsto> tq\<lparr>mq_next := Some p\<rparr>), gq_tail := Some p\<rparr>)
       }
     | None \<Rightarrow> Some (s\<lparr>gq_head := Some p, gq_tail := Some p\<rparr>)
   }"

definition skynet_globalmq_pop ::
    "('m, 'x) mq_state_scheme \<Rightarrow> (ptr option \<times> ('m, 'x) mq_state_scheme) option" where
  "skynet_globalmq_pop s =
     (case gq_head s of
        None \<Rightarrow> Some (None, s)
      | Some p \<Rightarrow> do {
          q \<leftarrow> queues s p;
          let s1 = s\<lparr>gq_head := mq_next q\<rparr>;
          s2 \<leftarrow> (if gq_head s1 = None then do {
                   c_assert (Some p = gq_tail s1);
                   Some (s1\<lparr>gq_tail := None\<rparr>)
                 } else Some s1);
          Some (Some p, s2\<lparr>queues := (queues s2)(p \<mapsto> q\<lparr>mq_next := None\<rparr>)\<rparr>)
        })"

section \<open>One message queue\<close>

text \<open>\<^verbatim>\<open>skynet_mq_create\<close>; \<^verbatim>\<open>p\<close> is the address the allocator returns.\<close>

definition new_message_queue :: "u32 \<Rightarrow> 'm message_queue" where
  "new_message_queue handle = \<lparr>
     mq_handle = handle, mq_cap = DEFAULT_QUEUE_SIZE, mq_head = 0, mq_tail = 0,
     mq_release = 0, in_global = MQ_IN_GLOBAL, overload = 0,
     overload_threshold = MQ_OVERLOAD,
     mq_slots = replicate DEFAULT_QUEUE_SIZE None, mq_next = None\<rparr>"

definition skynet_mq_create ::
    "ptr \<Rightarrow> u32 \<Rightarrow> ('m, 'x) mq_state_scheme \<Rightarrow> ('m, 'x) mq_state_scheme option" where
  "skynet_mq_create p handle s = do {
     c_assert (queues s p = None);
     Some (s\<lparr>queues := (queues s)(p \<mapsto> new_message_queue handle)\<rparr>)
   }"

text \<open>The static function \<^verbatim>\<open>_release\<close>.\<close>

definition mq_free ::
    "ptr \<Rightarrow> ('m, 'x) mq_state_scheme \<Rightarrow> ('m, 'x) mq_state_scheme option" where
  "mq_free p s = do {
     q \<leftarrow> queues s p;
     c_assert (mq_next q = None);
     Some (s\<lparr>queues := (queues s)(p := None)\<rparr>)
   }"

definition skynet_mq_handle :: "ptr \<Rightarrow> ('m, 'x) mq_state_scheme \<Rightarrow> u32 option" where
  "skynet_mq_handle p s = do { q \<leftarrow> queues s p; Some (mq_handle q) }"

definition mq_length :: "'m message_queue \<Rightarrow> nat" where
  "mq_length q =
     (if mq_head q \<le> mq_tail q then mq_tail q - mq_head q
      else mq_tail q + mq_cap q - mq_head q)"

definition skynet_mq_length :: "ptr \<Rightarrow> ('m, 'x) mq_state_scheme \<Rightarrow> nat option" where
  "skynet_mq_length p s = do { q \<leftarrow> queues s p; Some (mq_length q) }"

definition skynet_mq_overload ::
    "ptr \<Rightarrow> ('m, 'x) mq_state_scheme \<Rightarrow> (nat \<times> ('m, 'x) mq_state_scheme) option" where
  "skynet_mq_overload p s = do {
     q \<leftarrow> queues s p;
     if overload q \<noteq> 0
     then Some (overload q, s\<lparr>queues := (queues s)(p \<mapsto> q\<lparr>overload := 0\<rparr>)\<rparr>)
     else Some (0, s)
   }"

text \<open>
  The loop of \<^verbatim>\<open>skynet_mq_pop\<close> that doubles the threshold while the queue is longer than it.
  With a threshold of 0 the loop would never end, and doubling past the largest \<^verbatim>\<open>int\<close> overflows.
\<close>

function overload_loop :: "nat \<Rightarrow> nat \<Rightarrow> nat \<Rightarrow> (nat \<times> nat) option" where
  "overload_loop len ov th =
     (if len > th then
        (if th = 0 \<or> 2 * th > INT_MAX then None else overload_loop len len (2 * th))
      else Some (ov, th))"
  by pat_completeness auto
termination
  by (relation "measure (\<lambda>(len, ov, th). len - th)") auto

declare overload_loop.simps [simp del]

text \<open>The body of \<^verbatim>\<open>skynet_mq_pop\<close> on the queue itself; the C result 1 is None.\<close>

definition mq_deq :: "'m message_queue \<Rightarrow> ('m option \<times> 'm message_queue) option" where
  "mq_deq q =
     (if mq_head q \<noteq> mq_tail q then do {
        slot \<leftarrow> c_index (mq_slots q) (mq_head q);
        message \<leftarrow> slot;
        let head = (if Suc (mq_head q) \<ge> mq_cap q then 0 else Suc (mq_head q));
        let length = (if mq_tail q < head then mq_tail q + mq_cap q - head else mq_tail q - head);
        (ov, th) \<leftarrow> overload_loop length (overload q) (overload_threshold q);
        Some (Some message, q\<lparr>mq_head := head, overload := ov, overload_threshold := th\<rparr>)
      } else
        Some (None, q\<lparr>overload_threshold := MQ_OVERLOAD, in_global := 0\<rparr>))"

definition skynet_mq_pop ::
    "ptr \<Rightarrow> ('m, 'x) mq_state_scheme \<Rightarrow> ('m option \<times> ('m, 'x) mq_state_scheme) option" where
  "skynet_mq_pop p s = do {
     q \<leftarrow> queues s p;
     (r, q') \<leftarrow> mq_deq q;
     Some (r, s\<lparr>queues := (queues s)(p \<mapsto> q')\<rparr>)
   }"

definition expand_queue :: "'m message_queue \<Rightarrow> 'm message_queue option" where
  "expand_queue q = do {
     cap2 \<leftarrow> c_nat (2 * mq_cap q);
     c_assert (mq_cap q \<le> length (mq_slots q));
     let new_queue = map (\<lambda>i. mq_slots q ! ((mq_head q + i) mod mq_cap q)) [0..<mq_cap q]
                       @ replicate (cap2 - mq_cap q) None;
     Some (q\<lparr>mq_head := 0, mq_tail := mq_cap q, mq_cap := cap2, mq_slots := new_queue\<rparr>)
   }"

text \<open>The part of \<^verbatim>\<open>skynet_mq_push\<close> that stores the message.\<close>

definition mq_enq :: "'m \<Rightarrow> 'm message_queue \<Rightarrow> 'm message_queue option" where
  "mq_enq message q = do {
     slots \<leftarrow> c_update (mq_slots q) (mq_tail q) (Some message);
     let tail = (if Suc (mq_tail q) \<ge> mq_cap q then 0 else Suc (mq_tail q));
     let q1 = q\<lparr>mq_slots := slots, mq_tail := tail\<rparr>;
     if mq_head q1 = mq_tail q1 then expand_queue q1 else Some q1
   }"

definition skynet_mq_push ::
    "ptr \<Rightarrow> 'm \<Rightarrow> ('m, 'x) mq_state_scheme \<Rightarrow> ('m, 'x) mq_state_scheme option" where
  "skynet_mq_push p message s = do {
     q \<leftarrow> queues s p;
     q1 \<leftarrow> mq_enq message q;
     if in_global q1 = 0
     then skynet_globalmq_push p
            (s\<lparr>queues := (queues s)(p \<mapsto> q1\<lparr>in_global := MQ_IN_GLOBAL\<rparr>)\<rparr>)
     else Some (s\<lparr>queues := (queues s)(p \<mapsto> q1)\<rparr>)
   }"

definition skynet_mq_init :: "'m mq_state" where
  "skynet_mq_init = \<lparr>queues = (\<lambda>_. None), gq_head = None, gq_tail = None\<rparr>"

section \<open>Releasing a queue\<close>

definition skynet_mq_mark_release ::
    "ptr \<Rightarrow> ('m, 'x) mq_state_scheme \<Rightarrow> ('m, 'x) mq_state_scheme option" where
  "skynet_mq_mark_release p s = do {
     q \<leftarrow> queues s p;
     c_assert (mq_release q = 0);
     let s1 = s\<lparr>queues := (queues s)(p \<mapsto> q\<lparr>mq_release := 1\<rparr>)\<rparr>;
     if in_global q \<noteq> MQ_IN_GLOBAL then skynet_globalmq_push p s1 else Some s1
   }"

partial_function (option) drop_loop ::
    "ptr \<Rightarrow> ('m \<Rightarrow> ('m, 'x) mq_state_scheme \<Rightarrow> ('m, 'x) mq_state_scheme option) \<Rightarrow>
     ('m, 'x) mq_state_scheme \<Rightarrow> ('m, 'x) mq_state_scheme option" where
  "drop_loop p drop_func s =
     skynet_mq_pop p s \<bind> (\<lambda>r. case fst r of
        None \<Rightarrow> Some (snd r)
      | Some msg \<Rightarrow> drop_func msg (snd r) \<bind> (\<lambda>s'. drop_loop p drop_func s'))"

definition drop_queue ::
    "ptr \<Rightarrow> ('m \<Rightarrow> ('m, 'x) mq_state_scheme \<Rightarrow> ('m, 'x) mq_state_scheme option) \<Rightarrow>
     ('m, 'x) mq_state_scheme \<Rightarrow> ('m, 'x) mq_state_scheme option" where
  "drop_queue p drop_func s = do { s1 \<leftarrow> drop_loop p drop_func s; mq_free p s1 }"

definition skynet_mq_release ::
    "ptr \<Rightarrow> ('m \<Rightarrow> ('m, 'x) mq_state_scheme \<Rightarrow> ('m, 'x) mq_state_scheme option) \<Rightarrow>
     ('m, 'x) mq_state_scheme \<Rightarrow> ('m, 'x) mq_state_scheme option" where
  "skynet_mq_release p drop_func s = do {
     q \<leftarrow> queues s p;
     if mq_release q \<noteq> 0 then drop_queue p drop_func s
     else skynet_globalmq_push p s
   }"

section \<open>Representation\<close>

text \<open>
  A queue represents the list of its messages, oldest first. The capacity is 64 doubled some
  number of times and stays below the point where doubling it overflows \<^verbatim>\<open>int\<close>; the threshold
  is never 0.
\<close>

definition mq_limit :: nat where "mq_limit = 2 ^ 30 - 1"

definition mq_repr :: "'m message_queue \<Rightarrow> 'm list \<Rightarrow> bool" where
  "mq_repr q xs \<longleftrightarrow>
     mq_cap q = length (mq_slots q) \<and> (\<exists>k \<le> 24. mq_cap q = 64 * 2 ^ k) \<and>
     0 < overload_threshold q \<and> ring_repr (mq_slots q) (mq_head q) (mq_tail q) xs"

definition mq_room :: "'m message_queue \<Rightarrow> 'm \<Rightarrow> bool" where
  "mq_room q m \<longleftrightarrow> mq_length q < mq_limit"

lemma mq_length_ring: "mq_length q = ring_len (mq_cap q) (mq_head q) (mq_tail q)"
  by (simp add: mq_length_def ring_len_def)

lemma mq_repr_frame [simp]:
  "mq_repr (q\<lparr>in_global := g\<rparr>) xs = mq_repr q xs"
  "mq_repr (q\<lparr>mq_release := r\<rparr>) xs = mq_repr q xs"
  "mq_repr (q\<lparr>mq_next := n\<rparr>) xs = mq_repr q xs"
  "mq_repr (q\<lparr>overload := v\<rparr>) xs = mq_repr q xs"
  by (simp_all add: mq_repr_def)

lemma mq_repr_length: "mq_repr q xs \<Longrightarrow> mq_length q = length xs"
  by (simp add: mq_repr_def mq_length_ring ring_reprD(4))

lemma mq_repr_cap: "mq_repr q xs \<Longrightarrow> mq_cap q \<le> 2 ^ 30"
proof -
  assume "mq_repr q xs"
  then obtain k where k: "k \<le> 24" "mq_cap q = 64 * 2 ^ k" by (auto simp: mq_repr_def)
  have "(2::nat) ^ k \<le> 2 ^ 24" using k(1) by (rule power_increasing) simp
  with k(2) show ?thesis by simp
qed

lemma overload_loop_total:
  "0 < th \<Longrightarrow> len \<le> 2 ^ 30 \<Longrightarrow> \<exists>ov' th'. overload_loop len ov th = Some (ov', th') \<and> 0 < th' \<and>
     th \<le> th' \<and> len \<le> th' \<and> ov' = (if th < len then len else ov)"
proof (induction len ov th rule: overload_loop.induct)
  case (1 len ov th)
  show ?case
  proof (cases "th < len")
    case True
    with 1 have "th \<noteq> 0" "\<not> INT_MAX < 2 * th" by (auto simp: INT_MAX_def)
    with True 1 show ?thesis by (subst overload_loop.simps) fastforce
  next
    case False
    with 1 show ?thesis by (subst overload_loop.simps) simp
  qed
qed

lemma mq_deq_Nil:
  assumes "mq_repr q []"
  shows "mq_deq q = Some (None, q\<lparr>overload_threshold := MQ_OVERLOAD, in_global := 0\<rparr>)"
    and "mq_repr (q\<lparr>overload_threshold := MQ_OVERLOAD, in_global := 0\<rparr>) []"
  using assms ring_repr_empty_iff [of "mq_slots q" "mq_head q" "mq_tail q" "[]"]
  by (auto simp: mq_deq_def mq_repr_def MQ_OVERLOAD_def)

lemma mq_deq_Cons:
  assumes r: "mq_repr q (x # xs)"
  shows "\<exists>ov th. mq_deq q = Some (Some x, q\<lparr>mq_head := if mq_cap q \<le> Suc (mq_head q) then 0 else Suc (mq_head q),
      overload := ov, overload_threshold := th\<rparr>) \<and> 0 < th \<and>
    overload_loop (length xs) (overload q) (overload_threshold q) = Some (ov, th) \<and>
    mq_repr (q\<lparr>mq_head := if mq_cap q \<le> Suc (mq_head q) then 0 else Suc (mq_head q),
      overload := ov, overload_threshold := th\<rparr>) xs"
proof -
  define h where "h = (if mq_cap q \<le> Suc (mq_head q) then 0 else Suc (mq_head q))"
  define len where "len = (if mq_tail q < h then mq_tail q + mq_cap q - h else mq_tail q - h)"
  from r have rr: "ring_repr (mq_slots q) (mq_head q) (mq_tail q) (x # xs)"
    and cap: "mq_cap q = length (mq_slots q)" and th0: "0 < overload_threshold q"
    by (auto simp: mq_repr_def)
  have pop: "mq_slots q ! mq_head q = Some x" "ring_repr (mq_slots q) h (mq_tail q) xs"
    using ring_pop_repr [OF rr] by (simp_all add: h_def cap)
  have ne: "mq_head q \<noteq> mq_tail q" using ring_repr_empty_iff [OF rr] by simp
  have len: "len = length xs"
    using ring_reprD(4) [OF pop(2)] by (auto simp: len_def ring_len_def cap split: if_splits)
  then have "len \<le> 2 ^ 30"
    using mq_repr_cap [OF r] ring_reprD(3) [OF pop(2)] cap by simp
  then obtain ov th where loop: "overload_loop len (overload q) (overload_threshold q) = Some (ov, th)" "0 < th"
    using overload_loop_total [OF th0] by blast
  have "mq_deq q = Some (Some x, q\<lparr>mq_head := h, overload := ov, overload_threshold := th\<rparr>)"
    unfolding mq_deq_def Let_def h_def [symmetric] len_def [symmetric]
    using ne pop(1) loop(1) ring_reprD(1) [OF rr] by simp
  moreover have "mq_repr (q\<lparr>mq_head := h, overload := ov, overload_threshold := th\<rparr>) xs"
    using r pop(2) loop(2) by (auto simp: mq_repr_def)
  ultimately show ?thesis using loop len unfolding h_def [symmetric] by blast
qed

lemma mq_enq_repr:
  assumes r: "mq_repr q xs" and room: "length xs < mq_limit"
  shows "\<exists>q'. mq_enq m q = Some q' \<and> mq_repr q' (xs @ [m]) \<and>
    mq_handle q' = mq_handle q \<and> in_global q' = in_global q \<and> mq_release q' = mq_release q \<and>
    mq_next q' = mq_next q"
proof -
  let ?t = "if Suc (mq_tail q) < length (mq_slots q) then Suc (mq_tail q) else 0"
  let ?q1 = "q\<lparr>mq_slots := (mq_slots q)[mq_tail q := Some m], mq_tail := ?t\<rparr>"
  from r obtain k where rr: "ring_repr (mq_slots q) (mq_head q) (mq_tail q) xs"
    and cap: "mq_cap q = length (mq_slots q)" and k: "k \<le> 24" "mq_cap q = 64 * 2 ^ k"
    by (auto simp: mq_repr_def)
  have t: "(if Suc (mq_tail q) \<ge> mq_cap q then 0 else Suc (mq_tail q)) = ?t"
    by (simp add: cap)
  note lt = ring_reprD [OF rr]
  have step: "mq_enq m q = (if mq_head ?q1 = mq_tail ?q1 then expand_queue ?q1 else Some ?q1)"
    using lt unfolding mq_enq_def t Let_def by simp
  show ?thesis
  proof (cases "Suc (length xs) = length (mq_slots q)")
    case True
    note full = ring_store_full(1) [OF rr True] ring_store_full(2) [OF rr True, of m]
    have "(64::nat) * 2 ^ k < 2 ^ 30" using True room cap k by (simp add: mq_limit_def)
    then have "(2::nat) ^ k < 2 ^ 24" by simp
    then have "k < 24" by (rule power_less_imp_less_exp [rotated]) simp
    then have k': "Suc k \<le> 24" by simp
    then have "(2::nat) ^ k \<le> 2 ^ 23" by (intro power_increasing) auto
    then have ok: "2 * mq_cap q \<le> INT_MAX" using k by (simp add: INT_MAX_def)
    let ?new = "map (\<lambda>i. mq_slots ?q1 ! ((mq_head q + i) mod mq_cap q)) [0..<mq_cap q]"
    have "?new = ring_list (mq_slots ?q1) (mq_head q) (mq_cap q)"
      by (simp add: ring_list_def cap)
    then have new: "?new = map Some (xs @ [m])"
      using full(2) cap by simp
    have "ring_repr (?new @ replicate (mq_cap q) None) 0 (mq_cap q) (xs @ [m])"
      by (rule ring_copy_repr [OF _ _ new [symmetric]]) (use True cap k in auto)
    moreover have "mq_enq m q = expand_queue ?q1"
      unfolding step by (rule if_P) (use full(1) in simp)
    moreover have "expand_queue ?q1 = Some (q\<lparr>mq_head := 0, mq_tail := mq_cap q, mq_cap := 2 * mq_cap q,
        mq_slots := ?new @ replicate (mq_cap q) None\<rparr>)"
      using ok cap by (simp add: expand_queue_def mult_2)
    ultimately show ?thesis
      using r k' k(2) by (auto simp: mq_repr_def cap intro!: exI [of _ "Suc k"])
  next
    case False
    with lt have less: "Suc (length xs) < length (mq_slots q)" by simp
    have "mq_enq m q = Some ?q1"
      unfolding step by (rule if_not_P) (use ring_store_not_full [OF rr less] in simp)
    moreover have "mq_repr ?q1 (xs @ [m])"
      using ring_store_repr [OF rr less, of m] cap k r by (auto simp: mq_repr_def)
    ultimately show ?thesis by simp
  qed
qed

interpretation mqf: bounded_fifo mq_repr mq_room mq_enq mq_deq mq_limit
proof unfold_locales
  fix q :: "'m message_queue" and xs m
  assume "mq_repr q xs" "mq_room q m"
  then show "\<exists>q'. mq_enq m q = Some q' \<and> mq_repr q' (xs @ [m])"
    using mq_enq_repr [of q xs m] by (auto simp: mq_room_def mq_repr_length)
next
  fix q :: "'m message_queue"
  assume "mq_repr q []"
  then show "\<exists>q'. mq_deq q = Some (None, q') \<and> mq_repr q' []"
    using mq_deq_Nil [of q] by blast
next
  fix q :: "'m message_queue" and x xs
  assume "mq_repr q (x # xs)"
  then show "\<exists>q'. mq_deq q = Some (Some x, q') \<and> mq_repr q' xs"
    using mq_deq_Cons [of q x xs] by blast
next
  fix q :: "'m message_queue" and xs m
  assume "mq_repr q xs" "length xs < mq_limit"
  then show "mq_room q m" by (simp add: mq_room_def mq_repr_length)
qed

lemma new_message_queue_repr [wf_intros]: "mq_repr (new_message_queue h) []"
  by (auto simp: mq_repr_def new_message_queue_def DEFAULT_QUEUE_SIZE_def MQ_OVERLOAD_def
      intro: ring_repr_init exI [of _ 0])

lemma overload_loop_power:
  "overload_loop len ov th = Some (ov', th') \<Longrightarrow> \<exists>k. th' = th * 2 ^ k \<and> (k = 0 \<or> th' < 2 * len)"
proof (induction len ov th rule: overload_loop.induct)
  case (1 len ov th)
  show ?case
  proof (cases "th < len \<and> th \<noteq> 0 \<and> 2 * th \<le> INT_MAX")
    case True
    with 1 obtain k where "th' = 2 * th * 2 ^ k" "k = 0 \<or> th' < 2 * len"
      by (subst (asm) overload_loop.simps) auto
    with True show ?thesis by (intro exI [of _ "Suc k"]) auto
  next
    case False
    with 1 show ?thesis
      by (subst (asm) (2) overload_loop.simps) (auto split: if_splits intro: exI [of _ 0])
  qed
qed

section \<open>Properties\<close>

text \<open>
  (C23) Order of delivery: whatever the state of a message queue, pushing any number of
  messages (up to the size an \<^verbatim>\<open>int\<close> can index, so through every reallocation) and then popping until the queue
  reports that it is empty yields the old messages and then the new ones, each once and in the
  order they were sent, and no operation faults.
\<close>

theorem mq_delivers_in_order:
  assumes "mq_repr q xs" and "length xs + length ys \<le> mq_limit"
  shows "\<exists>q'. (enq_all mq_enq ys q \<bind> drain mq_deq) = Some (xs @ ys, q') \<and> mq_length q' = 0"
  using mqf.enq_all_drain [OF assms] mq_repr_length by fastforce

theorem mq_delivers_in_order_witness:
  "\<exists>q'. (enq_all mq_enq [10, 20, 30 :: nat] (new_message_queue 7) \<bind> drain mq_deq) =
     Some ([10, 20, 30], q') \<and> mq_length q' = 0"
  using mq_delivers_in_order [OF new_message_queue_repr, of "[10, 20, 30 :: nat]" 7]
  by (simp add: mq_limit_def)

text \<open>
  (C38) Overload reports: a pop that leaves more messages than the threshold records their
  number and doubles the threshold just until it covers them; otherwise neither changes. The pop
  that finds the queue empty resets the threshold to 1024.
\<close>

theorem mq_pop_overload:
  assumes r: "mq_repr q xs" and d: "mq_deq q = Some (r, q')"
  shows "case xs of
      [] \<Rightarrow> r = None \<and> overload_threshold q' = 1024 \<and> overload q' = overload q
    | x # rest \<Rightarrow> r = Some x \<and>
        overload q' = (if overload_threshold q < length rest then length rest else overload q) \<and>
        (\<exists>k. overload_threshold q' = overload_threshold q * 2 ^ k \<and> length rest \<le> overload_threshold q' \<and>
          (k = 0 \<or> overload_threshold q' < 2 * length rest))"
proof (cases xs)
  case Nil
  with mq_deq_Nil(1) [of q] r d show ?thesis by (auto simp: MQ_OVERLOAD_def)
next
  case (Cons x rest)
  with r have rc: "mq_repr q (x # rest)" by simp
  from mq_deq_Cons [OF rc] obtain ov th where deq: "mq_deq q = Some (Some x, q\<lparr>mq_head :=
      if mq_cap q \<le> Suc (mq_head q) then 0 else Suc (mq_head q), overload := ov, overload_threshold := th\<rparr>)"
    and loop: "overload_loop (length rest) (overload q) (overload_threshold q) = Some (ov, th)"
    by blast
  have q': "r = Some x" "overload q' = ov" "overload_threshold q' = th" using deq d by auto
  have "ring_repr (mq_slots q) (mq_head q) (mq_tail q) (x # rest)" "mq_cap q = length (mq_slots q)"
    "0 < overload_threshold q" using rc by (simp_all add: mq_repr_def)
  then have "length (x # rest) < mq_cap q" "0 < overload_threshold q"
    using ring_reprD(3) by metis+
  with overload_loop_total [of "overload_threshold q" "length rest" "overload q"] mq_repr_cap [OF rc] loop
  have "length rest \<le> th" "ov = (if overload_threshold q < length rest then length rest else overload q)"
    by auto
  moreover from overload_loop_power [OF loop]
  obtain k where "th = overload_threshold q * 2 ^ k" "k = 0 \<or> th < 2 * length rest" by blast
  ultimately show ?thesis using q' Cons by auto
qed

definition demo_queue :: "nat message_queue" where
  "demo_queue = (new_message_queue 7)\<lparr>overload_threshold := 1, mq_tail := 4,
     mq_slots := map Some [1, 2, 3, 4] @ replicate 60 None\<rparr>"

lemma demo_queue_repr: "mq_repr demo_queue [1, 2, 3, 4]"
  using ring_copy_repr [of "[1, 2, 3, 4 :: nat]" 4 60]
  by (auto simp: mq_repr_def demo_queue_def new_message_queue_def DEFAULT_QUEUE_SIZE_def
      intro!: exI [of _ 0])

theorem mq_pop_overload_witness:
  "\<exists>q'. mq_deq demo_queue = Some (Some 1, q') \<and> overload q' = 3 \<and>
     (\<exists>k. overload_threshold q' = 2 ^ k \<and> 3 \<le> (2::nat) ^ k \<and> (k = 0 \<or> (2::nat) ^ k < 6))"
proof -
  obtain r q' where d: "mq_deq demo_queue = Some (r, q')"
    using mq_deq_Cons [OF demo_queue_repr] by blast
  from mq_pop_overload [OF demo_queue_repr d] d show ?thesis
    by (auto simp: demo_queue_def)
qed

end
