(* ===== verification/GlobalQueue.thy ===== *)
theory GlobalQueue
  imports MessageQueue
begin

text \<open>
  The global run queue of \<^verbatim>\<open>skynet-src/skynet_mq.c\<close> as a linked list, and the effect of the
  operations of \<^verbatim>\<open>MessageQueue\<close> on the whole state: which messages each queue holds and which
  queues wait in the global queue.
\<close>

section \<open>Linked lists through the next fields\<close>

fun linked :: "(ptr \<Rightarrow> 'm message_queue option) \<Rightarrow> ptr option \<Rightarrow> ptr list \<Rightarrow> bool" where
  "linked Q h [] \<longleftrightarrow> h = None"
| "linked Q h (x # xs) \<longleftrightarrow> h = Some x \<and> (\<exists>q. Q x = Some q \<and> linked Q (mq_next q) xs)"

definition gq_repr :: "('m, 'x) mq_state_scheme \<Rightarrow> ptr list \<Rightarrow> bool" where
  "gq_repr s ps \<longleftrightarrow>
     linked (queues s) (gq_head s) ps \<and> distinct ps \<and>
     gq_tail s = (if ps = [] then None else Some (last ps)) \<and>
     (\<forall>p q. queues s p = Some q \<longrightarrow> p \<notin> set ps \<longrightarrow> mq_next q = None)"

definition gq_room :: "('m, 'x) mq_state_scheme \<Rightarrow> ptr \<Rightarrow> bool" where
  "gq_room s p \<longleftrightarrow> queues s p \<noteq> None \<and> (\<exists>ps. gq_repr s ps \<and> p \<notin> set ps)"

text \<open>What is left of a queue when its \<^verbatim>\<open>next\<close> field is ignored.\<close>

definition unlink :: "'m message_queue \<Rightarrow> 'm message_queue" where
  "unlink q = q\<lparr>mq_next := None\<rparr>"

definition qview :: "('m, 'x) mq_state_scheme \<Rightarrow> ptr \<Rightarrow> 'm message_queue option" where
  "qview s p = map_option unlink (queues s p)"

lemma unlink_simps [simp]:
  "mq_handle (unlink q) = mq_handle q" "mq_release (unlink q) = mq_release q"
  "in_global (unlink q) = in_global q" "mq_repr (unlink q) xs = mq_repr q xs"
  "mq_length (unlink q) = mq_length q" "unlink (unlink q) = unlink q"
  "unlink (q\<lparr>mq_next := n\<rparr>) = unlink q" "unlink (q\<lparr>in_global := g\<rparr>) = (unlink q)\<lparr>in_global := g\<rparr>"
  "unlink (q\<lparr>mq_release := r\<rparr>) = (unlink q)\<lparr>mq_release := r\<rparr>"
  by (simp_all add: unlink_def mq_repr_def mq_length_def)

lemma qview_SomeE:
  assumes "qview s p = Some q"
  obtains q0 where "queues s p = Some q0" "q = unlink q0"
  using assms by (auto simp: qview_def)

lemma qview_Some: "queues s p = Some q \<Longrightarrow> qview s p = Some (unlink q)"
  by (simp add: qview_def)

lemma qview_None: "qview s p = None \<longleftrightarrow> queues s p = None"
  by (simp add: qview_def)

lemma qview_upd [simp]:
  "qview (s\<lparr>queues := (queues s)(p \<mapsto> q)\<rparr>) = (qview s)(p \<mapsto> unlink q)"
  by (auto simp: qview_def)

lemma linked_upd_notin:
  "x \<notin> set xs \<Longrightarrow> linked (Q(x := v)) h xs = linked Q h xs"
  by (induction xs arbitrary: h) auto

lemma linked_dom: "linked Q h xs \<Longrightarrow> x \<in> set xs \<Longrightarrow> Q x \<noteq> None"
  by (induction xs arbitrary: h) auto

lemma linked_snoc:
  assumes "linked Q h xs" "xs \<noteq> []" "distinct xs" "p \<notin> set xs"
    and "Q (last xs) = Some t" "Q p = Some q" "mq_next q = None"
  shows "linked (Q(last xs \<mapsto> t\<lparr>mq_next := Some p\<rparr>)) h (xs @ [p])"
  using assms
proof (induction xs arbitrary: h)
  case Nil
  then show ?case by simp
next
  case (Cons x xs)
  show ?case
  proof (cases "xs = []")
    case True
    with Cons.prems show ?thesis by auto
  next
    case False
    with Cons.prems have "last xs \<noteq> x" by (metis distinct.simps(2) last_in_set)
    with False Cons show ?thesis by auto
  qed
qed

section \<open>Operations of the global queue\<close>

lemma globalmq_push_repr:
  assumes g: "gq_repr s ps" and p: "p \<notin> set ps" and q: "qview s p = Some q"
  shows "\<exists>s'. skynet_globalmq_push p s = Some s' \<and> gq_repr s' (ps @ [p]) \<and> qview s' = qview s \<and>
    mq_state.more s' = mq_state.more s"
proof -
  from q obtain q0 where q: "queues s p = Some q0" by (rule qview_SomeE)
  from g p q have next_None: "mq_next q0 = None" by (auto simp: gq_repr_def)
  show ?thesis
  proof (cases "ps = []")
    case True
    with g q next_None show ?thesis
      by (auto simp: skynet_globalmq_push_def gq_repr_def qview_def)
  next
    case False
    with g obtain t where t: "queues s (last ps) = Some t"
      using linked_dom [of "queues s" "gq_head s" ps "last ps"] by (auto simp: gq_repr_def)
    from False p have "last ps \<noteq> p" by (metis last_in_set)
    with g False p q t next_None have
      "linked ((queues s)(last ps \<mapsto> t\<lparr>mq_next := Some p\<rparr>)) (gq_head s) (ps @ [p])"
      by (intro linked_snoc) (auto simp: gq_repr_def)
    with g False p q t next_None show ?thesis
      by (auto simp: skynet_globalmq_push_def gq_repr_def qview_def)
  qed
qed

lemma globalmq_pop_Nil: "gq_repr s [] \<Longrightarrow> skynet_globalmq_pop s = Some (None, s)"
  by (simp add: skynet_globalmq_pop_def gq_repr_def)

lemma globalmq_pop_Cons:
  assumes g: "gq_repr s (p # ps)"
  shows "\<exists>s'. skynet_globalmq_pop s = Some (Some p, s') \<and> gq_repr s' ps \<and> qview s' = qview s \<and>
    mq_state.more s' = mq_state.more s"
proof -
  from g obtain q where q: "queues s p = Some q" and l: "linked (queues s) (mq_next q) ps"
    and h: "gq_head s = Some p" and np: "p \<notin> set ps"
    by (auto simp: gq_repr_def)
  have l': "linked ((queues s)(p := v)) (mq_next q) ps" for v
    using l np by (simp add: linked_upd_notin)
  show ?thesis
  proof (cases "ps = []")
    case True
    with g q l h l' show ?thesis
      by (auto simp: skynet_globalmq_pop_def gq_repr_def qview_def Let_def)
  next
    case False
    with l have "mq_next q \<noteq> None" by (cases ps) auto
    with False g q l h l' show ?thesis
      by (auto simp: skynet_globalmq_pop_def gq_repr_def qview_def Let_def)
  qed
qed

interpretation gqf: fifo gq_repr gq_room skynet_globalmq_push skynet_globalmq_pop
proof unfold_locales
  fix s :: "('a, 'b) mq_state_scheme" and ps p
  assume g: "gq_repr s ps" and "gq_room s p"
  then obtain ps' q where "queues s p = Some q" "gq_repr s ps'" "p \<notin> set ps'"
    by (auto simp: gq_room_def)
  moreover have "linked (queues s) h xs \<Longrightarrow> linked (queues s) h ys \<Longrightarrow> xs = ys" for h xs ys
  proof (induction xs arbitrary: h ys)
    case Nil
    then show ?case by (cases ys) auto
  next
    case (Cons x xs)
    then show ?case by (cases ys) auto
  qed
  ultimately have "p \<notin> set ps" using g by (auto simp: gq_repr_def)
  with g show "\<exists>s'. skynet_globalmq_push p s = Some s' \<and> gq_repr s' (ps @ [p])"
    using globalmq_push_repr [OF g _ qview_Some [OF \<open>queues s p = Some q\<close>]] by blast
next
  fix s :: "('a, 'b) mq_state_scheme"
  assume "gq_repr s []"
  then show "\<exists>s'. skynet_globalmq_pop s = Some (None, s') \<and> gq_repr s' []"
    using globalmq_pop_Nil by blast
next
  fix s :: "('a, 'b) mq_state_scheme" and p ps
  assume "gq_repr s (p # ps)"
  then show "\<exists>s'. skynet_globalmq_pop s = Some (Some p, s') \<and> gq_repr s' ps"
    using globalmq_pop_Cons by blast
qed

section \<open>Queue operations on the whole state\<close>

lemma linked_cong:
  "(\<And>x. x \<in> set xs \<Longrightarrow> map_option mq_next (Q x) = map_option mq_next (Q' x)) \<Longrightarrow>
     linked Q h xs = linked Q' h xs"
proof (induction xs arbitrary: h)
  case Nil
  then show ?case by simp
next
  case (Cons x xs)
  then have "map_option mq_next (Q x) = map_option mq_next (Q' x)" by simp
  moreover have "linked Q h xs = linked Q' h xs" for h using Cons by simp
  ultimately show ?case by (cases "Q x"; cases "Q' x") auto
qed

lemma gq_repr_upd:
  assumes "gq_repr s ps" and "queues s p = Some q" and "mq_next q' = mq_next q"
  shows "gq_repr (s\<lparr>queues := (queues s)(p \<mapsto> q')\<rparr>) ps"
proof -
  have "linked ((queues s)(p \<mapsto> q')) h xs = linked (queues s) h xs" for h xs
    using assms(2,3) by (intro linked_cong) auto
  with assms show ?thesis by (auto simp: gq_repr_def)
qed

lemma mq_pop_Nil_state:
  assumes g: "gq_repr s ps" and q: "qview s p = Some q" and r: "mq_repr q []"
  shows "\<exists>s' q'. skynet_mq_pop p s = Some (None, s') \<and> gq_repr s' ps \<and>
    qview s' = (qview s)(p \<mapsto> q') \<and> mq_repr q' [] \<and> in_global q' = 0 \<and>
    mq_release q' = mq_release q \<and> mq_handle q' = mq_handle q \<and>
    mq_state.more s' = mq_state.more s"
proof -
  from q obtain q0 where q0: "queues s p = Some q0" "q = unlink q0" by (rule qview_SomeE)
  with mq_deq_Nil [of q0] r gq_repr_upd [OF g q0(1)] show ?thesis
    by (auto simp: skynet_mq_pop_def)
qed

lemma mq_pop_Cons_state:
  assumes g: "gq_repr s ps" and q: "qview s p = Some q" and r: "mq_repr q (m # ms)"
  shows "\<exists>s' q'. skynet_mq_pop p s = Some (Some m, s') \<and> gq_repr s' ps \<and>
    qview s' = (qview s)(p \<mapsto> q') \<and> mq_repr q' ms \<and> in_global q' = in_global q \<and>
    mq_release q' = mq_release q \<and> mq_handle q' = mq_handle q \<and>
    mq_state.more s' = mq_state.more s"
proof -
  from q obtain q0 where q0: "queues s p = Some q0" "q = unlink q0" by (rule qview_SomeE)
  with r mq_deq_Cons [of q0] obtain q' where q': "mq_deq q0 = Some (Some m, q')" "mq_repr q' ms"
    "in_global q' = in_global q0" "mq_release q' = mq_release q0" "mq_next q' = mq_next q0"
    "mq_handle q' = mq_handle q0"
    by fastforce
  with gq_repr_upd [OF g q0(1) q'(5)] q0 show ?thesis
    by (auto simp: skynet_mq_pop_def)
qed

text \<open>
  The effect of a push: the message goes to the end of its queue, no other queue changes,
  and a queue that was not in the global queue is appended to it.
\<close>

lemma mq_push_state:
  assumes g: "gq_repr s ps" and q: "qview s p = Some q" and r: "mq_repr q ms"
    and room: "length ms < mq_limit" and out: "in_global q = 0 \<Longrightarrow> p \<notin> set ps"
  shows "\<exists>s' q'. skynet_mq_push p m s = Some s' \<and>
    gq_repr s' (if in_global q = 0 then ps @ [p] else ps) \<and>
    qview s' = (qview s)(p \<mapsto> q') \<and> mq_repr q' (ms @ [m]) \<and>
    in_global q' = (if in_global q = 0 then MQ_IN_GLOBAL else in_global q) \<and>
    mq_release q' = mq_release q \<and> mq_handle q' = mq_handle q \<and>
    mq_state.more s' = mq_state.more s"
proof -
  from q obtain q0 where q0: "queues s p = Some q0" "q = unlink q0" by (rule qview_SomeE)
  with r have "mq_repr q0 ms" by simp
  from mq_enq_repr [OF this room] obtain q1 where q1: "mq_enq m q0 = Some q1" "mq_repr q1 (ms @ [m])"
    "mq_handle q1 = mq_handle q0" "in_global q1 = in_global q0" "mq_release q1 = mq_release q0"
    "mq_next q1 = mq_next q0" by blast
  show ?thesis
  proof (cases "in_global q0 = 0")
    case True
    let ?q2 = "q1\<lparr>in_global := MQ_IN_GLOBAL\<rparr>"
    let ?s1 = "s\<lparr>queues := (queues s)(p \<mapsto> ?q2)\<rparr>"
    have g1: "gq_repr ?s1 ps" using q1 by (intro gq_repr_upd [OF g q0(1)]) simp
    have "qview ?s1 p = Some (unlink ?q2)" by simp
    from globalmq_push_repr [OF g1 _ this] out q0(2) True obtain s' where
      "skynet_globalmq_push p ?s1 = Some s'" "gq_repr s' (ps @ [p])" "qview s' = qview ?s1"
      "mq_state.more s' = mq_state.more ?s1"
      by auto
    with True q0 q1 show ?thesis
      by (intro exI [of _ s'] exI [of _ "unlink ?q2"]) (simp add: skynet_mq_push_def)
  next
    case False
    with q0 q1 gq_repr_upd [OF g q0(1) q1(6)] show ?thesis
      by (auto simp: skynet_mq_push_def)
  qed
qed

lemma mq_mark_release_state:
  assumes g: "gq_repr s ps" and q: "qview s p = Some q" and rel: "mq_release q = 0"
    and out: "in_global q \<noteq> MQ_IN_GLOBAL \<Longrightarrow> p \<notin> set ps"
  shows "\<exists>s'. skynet_mq_mark_release p s = Some s' \<and>
    gq_repr s' (if in_global q \<noteq> MQ_IN_GLOBAL then ps @ [p] else ps) \<and>
    qview s' = (qview s)(p \<mapsto> q\<lparr>mq_release := 1\<rparr>) \<and> mq_state.more s' = mq_state.more s"
proof -
  from q obtain q0 where q0: "queues s p = Some q0" "q = unlink q0" by (rule qview_SomeE)
  let ?q1 = "q0\<lparr>mq_release := 1\<rparr>"
  let ?s1 = "s\<lparr>queues := (queues s)(p \<mapsto> ?q1)\<rparr>"
  have g1: "gq_repr ?s1 ps" by (intro gq_repr_upd [OF g q0(1)]) simp
  show ?thesis
  proof (cases "in_global q0 = MQ_IN_GLOBAL")
    case True
    with g1 q0 rel show ?thesis by (simp add: skynet_mq_mark_release_def)
  next
    case False
    have "qview ?s1 p = Some (unlink ?q1)" by simp
    from globalmq_push_repr [OF g1 _ this] out q0(2) False obtain s' where
      "skynet_globalmq_push p ?s1 = Some s'" "gq_repr s' (ps @ [p])" "qview s' = qview ?s1"
      "mq_state.more s' = mq_state.more ?s1"
      by auto
    with False q0 rel show ?thesis by (simp add: skynet_mq_mark_release_def)
  qed
qed

lemma unlink_new [simp]: "unlink (new_message_queue h) = new_message_queue h"
  by (simp add: unlink_def new_message_queue_def)

lemma mq_create_state:
  assumes g: "gq_repr s ps" and p: "queues s p = None"
  shows "\<exists>s'. skynet_mq_create p h s = Some s' \<and> gq_repr s' ps \<and>
    qview s' = (qview s)(p \<mapsto> new_message_queue h) \<and> mq_state.more s' = mq_state.more s"
proof -
  from g p have np: "p \<notin> set ps" by (auto simp: gq_repr_def dest: linked_dom)
  have nn: "mq_next (new_message_queue h) = None" by (simp add: new_message_queue_def)
  have "gq_repr (s\<lparr>queues := (queues s)(p \<mapsto> new_message_queue h)\<rparr>) ps"
    using g np nn by (auto simp: gq_repr_def linked_upd_notin)
  then show ?thesis using p by (simp add: skynet_mq_create_def)
qed

lemma mq_free_state:
  assumes g: "gq_repr s ps" and q: "qview s p = Some q" and np: "p \<notin> set ps"
  shows "\<exists>s'. mq_free p s = Some s' \<and> gq_repr s' ps \<and> qview s' = (qview s)(p := None) \<and>
    mq_state.more s' = mq_state.more s"
proof -
  from q obtain q0 where q0: "queues s p = Some q0" "q = unlink q0" by (rule qview_SomeE)
  with g np have "mq_next q0 = None" by (auto simp: gq_repr_def)
  moreover have "gq_repr (s\<lparr>queues := (queues s)(p := None)\<rparr>) ps"
    using g np by (auto simp: gq_repr_def linked_upd_notin)
  ultimately show ?thesis using q0 by (auto simp: mq_free_def qview_def)
qed

text \<open>
  Dropping a queue. The drop function may change the state as it likes as long as it
  keeps an invariant \<^verbatim>\<open>I\<close> that leaves the dropped queue alone; it is then called on every
  message of the queue, oldest first, and the queue is empty afterwards.
\<close>

fun drop_all :: "('m \<Rightarrow> 's \<Rightarrow> 's option) \<Rightarrow> 'm list \<Rightarrow> 's \<Rightarrow> 's option" where
  "drop_all f [] s = Some s"
| "drop_all f (m # ms) s = f m s \<bind> drop_all f ms"

lemma drop_loop_frame:
  assumes "gq_repr s ps" and "qview s p = Some q" and "mq_repr q ms"
  shows "\<exists>s' q'. drop_loop p (\<lambda>m t. Some t) s = Some s' \<and> gq_repr s' ps \<and>
    qview s' = (qview s)(p \<mapsto> q') \<and> mq_repr q' [] \<and> mq_release q' = mq_release q \<and>
    mq_state.more s' = mq_state.more s"
  using assms
proof (induction ms arbitrary: s q)
  case Nil
  from mq_pop_Nil_state [OF Nil] show ?case
    by (fastforce simp: drop_loop.simps [of p _ s])
next
  case (Cons m ms)
  from mq_pop_Cons_state [OF Cons.prems] obtain s1 q1 where s1:
    "skynet_mq_pop p s = Some (Some m, s1)" "gq_repr s1 ps" "qview s1 = (qview s)(p \<mapsto> q1)"
    "mq_repr q1 ms" "mq_release q1 = mq_release q" "mq_state.more s1 = mq_state.more s"
    by blast
  then have "qview s1 p = Some q1" by simp
  from Cons.IH [OF s1(2) this s1(4)] obtain s' q' where s':
    "drop_loop p (\<lambda>m t. Some t) s1 = Some s'" "gq_repr s' ps" "qview s' = (qview s1)(p \<mapsto> q')"
    "mq_repr q' []" "mq_release q' = mq_release q1" "mq_state.more s' = mq_state.more s1"
    by blast
  with s1 show ?case
    by (intro exI [of _ s'] exI [of _ q']) (simp add: drop_loop.simps [of p _ s])
qed

lemma mq_release_free_state:
  assumes g: "gq_repr s ps" and q: "qview s p = Some q" and r: "mq_repr q ms"
    and rel: "mq_release q \<noteq> 0" and np: "p \<notin> set ps"
  shows "\<exists>s'. skynet_mq_release p (\<lambda>m t. Some t) s = Some s' \<and> gq_repr s' ps \<and>
    qview s' = (qview s)(p := None) \<and> mq_state.more s' = mq_state.more s"
proof -
  from q obtain q0 where q0: "queues s p = Some q0" "q = unlink q0" by (rule qview_SomeE)
  from drop_loop_frame [OF g q r] obtain s1 q1 where s1:
    "drop_loop p (\<lambda>m t. Some t) s = Some s1" "gq_repr s1 ps" "qview s1 = (qview s)(p \<mapsto> q1)"
    "mq_state.more s1 = mq_state.more s" by blast
  from mq_free_state [OF s1(2) _ np] s1(3) obtain s' where
    "mq_free p s1 = Some s'" "gq_repr s' ps" "qview s' = (qview s1)(p := None)"
    "mq_state.more s' = mq_state.more s1" by auto
  with s1 q0 rel show ?thesis by (simp add: skynet_mq_release_def drop_queue_def)
qed

end
