(* ===== verification/Scheduler.thy ===== *)
theory Scheduler
  imports GlobalQueue
begin

text \<open>
  How the worker threads share the message queues
  (\<^verbatim>\<open>skynet_context_message_dispatch\<close>, \<^verbatim>\<open>skynet_context_new\<close> and \<^verbatim>\<open>delete_context\<close> of
  \<^verbatim>\<open>skynet-src/skynet_server.c\<close> over \<^verbatim>\<open>skynet-src/skynet_mq.c\<close>). Every operation on queues runs under a
  spin lock, so the threads interleave at the granularity of the functions of \<^verbatim>\<open>MessageQueue\<close>: one step
  is one such call of one thread. A thread owns the queues it has popped
  from the global queue, or created, and not yet given back: they are in \<^verbatim>\<open>held\<close>. While it
  dispatches a queue it also keeps a reference to its context, \<^verbatim>\<open>grabbed\<close>; while it drops the messages of a queue that is
  to be freed, the queue is in \<^verbatim>\<open>draining\<close>. A queue is in \<^verbatim>\<open>alive\<close> while its context exists.
\<close>

record 'm sched = "'m mq_state" +
  held :: "nat \<Rightarrow> ptr list"
  grabbed :: "nat \<Rightarrow> ptr option"
  draining :: "nat \<Rightarrow> ptr option"
  alive :: "ptr set"

definition sched_init :: "'m sched" where
  "sched_init = \<lparr>queues = (\<lambda>_. None), gq_head = None, gq_tail = None,
     held = (\<lambda>_. []), grabbed = (\<lambda>_. None), draining = (\<lambda>_. None), alive = {}\<rparr>"

text \<open>
  The calls, with the lines of \<^verbatim>\<open>skynet_server.c\<close> they stand for: \<^verbatim>\<open>Create\<close> 158 (the new queue is
  flagged as global and owned by its creator), \<^verbatim>\<open>Publish\<close> 170 and 350 (hand a
  queue to the global queue), \<^verbatim>\<open>Take\<close> 304 and 315, \<^verbatim>\<open>Grab\<close> 311, \<^verbatim>\<open>Pop\<close> 322,
  \<^verbatim>\<open>Fetch\<close> 346, \<^verbatim>\<open>Ungrab\<close> 323 and 353, \<^verbatim>\<open>Send\<close> 238, \<^verbatim>\<open>Delete\<close> 217, \<^verbatim>\<open>Release\<close> 181 and 314, and \<^verbatim>\<open>Drain\<close> one pass of the loop in
  \<^verbatim>\<open>_drop_queue\<close>. The error that \<^verbatim>\<open>drop_message\<close> sends is a \<^verbatim>\<open>Send\<close> of its own.
\<close>

datatype 'm call = Create nat ptr u32 | Publish nat | Take nat | Grab nat | Pop nat | Fetch nat | Ungrab nat
  | Send ptr 'm | Delete ptr | Release nat | Drain nat

text \<open>
  When the code is at the place of a call: what the thread holds, and what the references to the context say. A context exists for
  who holds a reference to it (\<^verbatim>\<open>Grab\<close>, \<^verbatim>\<open>Send\<close>), and it is deleted once, by who gave back the last one (\<^verbatim>\<open>Delete\<close>).
  Nothing is said of the queue itself, except that a message is not sent to one that cannot be doubled any more.
\<close>

fun ready :: "'m call \<Rightarrow> 'm sched \<Rightarrow> bool" where
  "ready (Create w p h) s \<longleftrightarrow> queues s p = None \<and> draining s w = None"
| "ready (Publish w) s \<longleftrightarrow> held s w \<noteq> [] \<and> draining s w = None"
| "ready (Take w) s \<longleftrightarrow> held s w = []"
| "ready (Grab w) s \<longleftrightarrow> length (held s w) = 1 \<and> draining s w = None \<and> grabbed s w = None \<and> hd (held s w) \<in> alive s"
| "ready (Pop w) s \<longleftrightarrow> length (held s w) = 1 \<and> draining s w = None \<and> grabbed s w = Some (hd (held s w))"
| "ready (Fetch w) s \<longleftrightarrow> length (held s w) = 1 \<and> draining s w = None \<and> grabbed s w = Some (hd (held s w))"
| "ready (Ungrab w) s \<longleftrightarrow> grabbed s w \<noteq> None"
| "ready (Send p m) s \<longleftrightarrow> p \<in> alive s \<and> (\<forall>q. queues s p = Some q \<longrightarrow> mq_length q < mq_limit)"
| "ready (Delete p) s \<longleftrightarrow> p \<in> alive s \<and> (\<forall>w. grabbed s w \<noteq> Some p)"
| "ready (Release w) s \<longleftrightarrow> held s w \<noteq> [] \<and> draining s w = None"
| "ready (Drain w) s \<longleftrightarrow> draining s w \<noteq> None"

text \<open>
  The effect of a call; None when one of its assertions fails or it reads what does not exist. \<^verbatim>\<open>Release\<close> is
  \<^verbatim>\<open>skynet_mq_release\<close>, with the loop of \<^verbatim>\<open>_drop_queue\<close> and \<^verbatim>\<open>_release\<close> left to \<^verbatim>\<open>Drain\<close>.
\<close>

fun run_call :: "'m call \<Rightarrow> 'm sched \<Rightarrow> 'm sched option" where
  "run_call (Create w p h) s = do {
     s1 \<leftarrow> skynet_mq_create p h s;
     Some (s1\<lparr>held := (held s1)(w := p # held s1 w), alive := insert p (alive s1)\<rparr>) }"
| "run_call (Publish w) s = do {
     s1 \<leftarrow> skynet_globalmq_push (hd (held s w)) s;
     Some (s1\<lparr>held := (held s1)(w := tl (held s1 w))\<rparr>) }"
| "run_call (Take w) s = do {
     (r, s1) \<leftarrow> skynet_globalmq_pop s;
     Some (case r of None \<Rightarrow> s1 | Some p \<Rightarrow> s1\<lparr>held := (held s1)(w := [p])\<rparr>) }"
| "run_call (Grab w) s = Some (s\<lparr>grabbed := (grabbed s)(w := Some (hd (held s w)))\<rparr>)"
| "run_call (Pop w) s = do {
     (r, s1) \<leftarrow> skynet_mq_pop (hd (held s w)) s;
     Some (case r of None \<Rightarrow> s1\<lparr>held := (held s1)(w := [])\<rparr> | Some m \<Rightarrow> s1) }"
| "run_call (Fetch w) s = do {
     (r, s1) \<leftarrow> skynet_globalmq_pop s;
     Some (case r of None \<Rightarrow> s1 | Some nq \<Rightarrow> s1\<lparr>held := (held s1)(w := held s1 w @ [nq])\<rparr>) }"
| "run_call (Ungrab w) s = Some (s\<lparr>grabbed := (grabbed s)(w := None)\<rparr>)"
| "run_call (Send p m) s = skynet_mq_push p m s"
| "run_call (Delete p) s = do {
     s1 \<leftarrow> skynet_mq_mark_release p s;
     Some (s1\<lparr>alive := alive s1 - {p}\<rparr>) }"
| "run_call (Release w) s = do {
     q \<leftarrow> queues s (hd (held s w));
     if mq_release q \<noteq> 0 then Some (s\<lparr>draining := (draining s)(w := Some (hd (held s w)))\<rparr>)
     else do {
       s1 \<leftarrow> skynet_globalmq_push (hd (held s w)) s;
       Some (s1\<lparr>held := (held s1)(w := tl (held s1 w))\<rparr>) } }"
| "run_call (Drain w) s = do {
     p \<leftarrow> draining s w;
     (r, s1) \<leftarrow> skynet_mq_pop p s;
     case r of Some m \<Rightarrow> Some s1
     | None \<Rightarrow> do {
         s2 \<leftarrow> mq_free p s1;
         Some (s2\<lparr>held := (held s2)(w := tl (held s2 w)), draining := (draining s2)(w := None)\<rparr>) } }"

inductive sched_step :: "'m sched \<Rightarrow> 'm sched \<Rightarrow> bool" where
  call: "ready c s \<Longrightarrow> run_call c s = Some t \<Longrightarrow> sched_step s t"

inductive reachable :: "'m sched \<Rightarrow> bool" where
  start: "reachable sched_init"
| step: "reachable s \<Longrightarrow> sched_step s t \<Longrightarrow> reachable t"

section \<open>The invariant\<close>

text \<open>
  A queue is in the global queue or in the hands of one thread exactly when its flag
  \<^verbatim>\<open>in_global\<close> is set or its context is dead, and a queue whose flag is clear holds no message.
\<close>

definition queue_ok :: "'m message_queue \<Rightarrow> bool \<Rightarrow> bool \<Rightarrow> bool" where
  "queue_ok q owned alv \<longleftrightarrow> (\<exists>ms. mq_repr q ms \<and> in_global q \<le> 1 \<and>
     (owned \<longleftrightarrow> in_global q \<noteq> 0 \<or> mq_release q \<noteq> 0) \<and> (in_global q = 0 \<longrightarrow> ms = [])) \<and> (alv \<longleftrightarrow> mq_release q = 0)"

definition holders :: "'m sched \<Rightarrow> ptr set" where
  "holders s = (\<Union>w. set (held s w))"

definition held_ok :: "'m sched \<Rightarrow> bool" where
  "held_ok s \<longleftrightarrow> (\<forall>w. distinct (held s w)) \<and>
     (\<forall>w v. w \<noteq> v \<longrightarrow> set (held s w) \<inter> set (held s v) = {}) \<and>
     (\<forall>p \<in> holders s. qview s p \<noteq> None)"

definition alive_ok :: "'m sched \<Rightarrow> bool" where
  "alive_ok s \<longleftrightarrow> (\<forall>p \<in> alive s. qview s p \<noteq> None) \<and> (\<forall>w p. grabbed s w = Some p \<longrightarrow> p \<in> alive s) \<and>
     (\<forall>w p. draining s w = Some p \<longrightarrow> p \<notin> alive s \<and> (\<exists>ps. held s w = p # ps))"

definition sched_inv :: "'m sched \<Rightarrow> ptr list \<Rightarrow> bool" where
  "sched_inv s ps \<longleftrightarrow> gq_repr s ps \<and> held_ok s \<and> alive_ok s \<and> holders s \<inter> set ps = {} \<and>
     (\<forall>p q. qview s p = Some q \<longrightarrow> queue_ok q (p \<in> set ps \<or> p \<in> holders s) (p \<in> alive s))"

lemma sched_inv_init: "sched_inv sched_init []"
  by (simp add: sched_inv_def sched_init_def gq_repr_def held_ok_def alive_ok_def holders_def qview_def)

lemma more_eqD:
  assumes "mq_state.more (s' :: 'm sched) = mq_state.more s"
  shows "held s' = held s" "grabbed s' = grabbed s" "draining s' = draining s" "alive s' = alive s"
  using assms by (cases s; cases s'; simp)+

lemma sched_views [simp]:
  "qview (s\<lparr>held := h\<rparr>) = qview s" "qview (s\<lparr>grabbed := g\<rparr>) = qview s" "qview (s\<lparr>draining := d\<rparr>) = qview s" "qview (s\<lparr>alive := a\<rparr>) = qview s"
  "gq_repr (s\<lparr>held := h\<rparr>) ps = gq_repr s ps" "gq_repr (s\<lparr>grabbed := g\<rparr>) ps = gq_repr s ps"
  "gq_repr (s\<lparr>draining := d\<rparr>) ps = gq_repr s ps" "gq_repr (s\<lparr>alive := a\<rparr>) ps = gq_repr s ps"
  by (simp_all add: qview_def fun_eq_iff gq_repr_def)

lemma gq_repr_dom: "gq_repr s ps \<Longrightarrow> p \<in> set ps \<Longrightarrow> qview s p \<noteq> None"
  by (auto simp: gq_repr_def qview_def dest: linked_dom)

lemma queue_okD:
  assumes "queue_ok q owned alv"
  obtains ms where "mq_repr q ms" "in_global q \<le> 1"
    "owned \<longleftrightarrow> in_global q \<noteq> 0 \<or> mq_release q \<noteq> 0" "in_global q = 0 \<longrightarrow> ms = []" "alv \<longleftrightarrow> mq_release q = 0"
  using assms by (auto simp: queue_ok_def)

lemma sched_invD:
  assumes "sched_inv s ps"
  shows "gq_repr s ps" "holders s \<inter> set ps = {}" "held_ok s" "alive_ok s"
    "qview s p = Some q \<Longrightarrow> queue_ok q (p \<in> set ps \<or> p \<in> holders s) (p \<in> alive s)"
  using assms by (auto simp: sched_inv_def)

lemma holdersI: "p \<in> set (held s w) \<Longrightarrow> p \<in> holders s"
  by (auto simp: holders_def)

text \<open>The queue a thread holds exists, is not in the global queue and satisfies its invariant.\<close>

lemma held_queue:
  assumes "sched_inv s ps" "p \<in> set (held s w)"
  obtains q where "qview s p = Some q" "p \<notin> set ps" "queue_ok q True (p \<in> alive s)" "p \<in> holders s"
proof -
  from assms have "p \<in> holders s" by (rule_tac holdersI)
  moreover from this assms(1) obtain q where "qview s p = Some q"
    by (force simp: sched_inv_def held_ok_def)
  ultimately show thesis
    using that assms(1) by (fastforce simp: sched_inv_def)
qed

text \<open>Removing the first queue a thread holds removes exactly it from the held ones.\<close>

lemma held_ok_drop:
  assumes "held_ok s" "held s w = p # qs"
    and "\<And>r. r \<noteq> p \<Longrightarrow> qview s' r = qview s r" "held s' = (held s)(w := qs)"
  shows "held_ok s'" "holders s' = holders s - {p}"
proof -
  show holders: "holders s' = holders s - {p}"
  proof (rule set_eqI)
    fix r
    have "p \<notin> set (held s v)" if "v \<noteq> w" for v
      using assms that unfolding held_ok_def by (metis disjoint_iff list.set_intros(1))
    moreover have "p \<notin> set qs" using assms unfolding held_ok_def by (metis distinct.simps(2))
    moreover have "r \<in> set (held s' v) \<longleftrightarrow> (if v = w then r \<in> set qs else r \<in> set (held s v))" for v
      by (simp add: assms(4))
    moreover have "r \<in> set (held s w) \<longleftrightarrow> r = p \<or> r \<in> set qs" using assms(2) by simp
    ultimately show "r \<in> holders s' \<longleftrightarrow> r \<in> holders s - {p}"
      unfolding holders_def by (simp only: UN_iff Diff_iff singleton_iff UNIV_I bex_simps) metis
  qed
  have "distinct qs" using assms(1,2) unfolding held_ok_def by (metis distinct.simps(2))
  moreover have "set qs \<subseteq> set (held s w)" using assms(2) by auto
  moreover have "\<forall>r \<in> holders s - {p}. qview s' r \<noteq> None"
    using assms(1,3) by (auto simp: held_ok_def)
  ultimately show "held_ok s'"
    using assms(1) unfolding held_ok_def holders unfolding assms(4)
    by (auto split: if_splits) blast+
qed

lemma held_ok_add:
  assumes "held_ok s" "distinct xs" "set xs = insert p (set (held s w))" "p \<notin> holders s"
    and "\<And>r. r \<noteq> p \<Longrightarrow> qview s' r = qview s r" "qview s' p \<noteq> None" "held s' = (held s)(w := xs)"
  shows "held_ok s'" "holders s' = insert p (holders s)"
proof -
  have notin: "p \<notin> set (held s v)" for v using assms(4) by (auto simp: holders_def)
  show holders: "holders s' = insert p (holders s)"
    unfolding holders_def assms(7) using assms(3) by (auto split: if_splits)
  have "qview s' r \<noteq> None" if "r \<in> insert p (holders s)" for r
    using that assms(1,5,6) by (cases "r = p") (auto simp: held_ok_def)
  moreover have "set xs \<inter> set (held s v) = {}" if "v \<noteq> w" for v
    using assms(1,3) that notin unfolding held_ok_def by (metis Int_insert_left_if0)
  ultimately show "held_ok s'"
    using assms(1,2) unfolding held_ok_def holders by (auto simp: assms(7))
qed

lemma alive_ok_frame:
  assumes "alive_ok s" "alive s' = alive s" "grabbed s' = grabbed s" "draining s' = draining s"
    and "\<And>r. r \<in> alive s \<Longrightarrow> qview s' r \<noteq> None" "\<And>v. draining s v \<noteq> None \<Longrightarrow> held s' v = held s v"
  shows "alive_ok s'"
proof -
  have "p \<notin> alive s \<and> (\<exists>ps. held s' w = p # ps)" if "draining s w = Some p" for w p
    using assms(1,6) that by (simp add: alive_ok_def)
  then show ?thesis using assms(1-5) by (simp add: alive_ok_def)
qed

lemma drainD: "alive_ok s \<Longrightarrow> draining s w = Some p \<Longrightarrow> p \<notin> alive s \<and> (\<exists>ps. held s w = p # ps)"
  by (simp add: alive_ok_def)

text \<open>
  A step that touches one queue \<^verbatim>\<open>p\<close> keeps the invariant when \<^verbatim>\<open>p\<close> satisfies it afterwards
  and every other queue keeps its contents and its owner.
\<close>

lemma sched_inv_frame:
  assumes "sched_inv s ps" "gq_repr s' ps'" "held_ok s'" "alive_ok s'" "holders s' \<inter> set ps' = {}"
    and "\<And>r. r \<noteq> p \<Longrightarrow> qview s' r = qview s r"
    and "\<And>r. r \<noteq> p \<Longrightarrow> (r \<in> set ps' \<or> r \<in> holders s' \<longleftrightarrow> r \<in> set ps \<or> r \<in> holders s) \<and> (r \<in> alive s' \<longleftrightarrow> r \<in> alive s)"
    and "\<And>q. qview s' p = Some q \<Longrightarrow> queue_ok q (p \<in> set ps' \<or> p \<in> holders s') (p \<in> alive s')"
  shows "sched_inv s' ps'"
  unfolding sched_inv_def
proof (intro conjI allI impI)
  fix r q
  assume "qview s' r = Some q"
  with assms(1,6,7,8) show "queue_ok q (r \<in> set ps' \<or> r \<in> holders s') (r \<in> alive s')"
    by (cases "r = p") (auto simp: sched_inv_def)
qed (use assms in auto)

section \<open>No call faults, and every call keeps the invariant\<close>

lemma create_ok:
  assumes inv: "sched_inv s ps" and none: "queues s p = None" and dr: "draining s w = None"
  shows "\<exists>s' ps'. run_call (Create w p h) s = Some s' \<and> sched_inv s' ps'"
proof -
  note D = sched_invD [OF inv]
  from mq_create_state [OF D(1) none, of h] obtain s1 where s1: "skynet_mq_create p h s = Some s1" "gq_repr s1 ps"
    "qview s1 = (qview s)(p \<mapsto> new_message_queue h)" "mq_state.more s1 = mq_state.more s"
    by auto
  note m = more_eqD [OF s1(4)]
  let ?s = "s1\<lparr>held := (held s1)(w := p # held s1 w), alive := insert p (alive s1)\<rparr>"
  have np: "p \<notin> set ps" using gq_repr_dom [OF D(1), of p] none by (auto simp: qview_None)
  have nh: "p \<notin> holders s" and na: "p \<notin> alive s" using D(3,4) none by (auto simp: held_ok_def alive_ok_def qview_def)
  then have dist: "distinct (p # held s w)" using D(3) by (auto simp: held_ok_def holders_def)
  have add: "held_ok ?s" "holders ?s = insert p (holders s)"
    by (rule held_ok_add [OF D(3) dist _ nh]; use s1 m in simp)+
  have "queue_ok (new_message_queue h :: 'a message_queue) True True"
    using new_message_queue_repr by (auto simp: queue_ok_def new_message_queue_def MQ_IN_GLOBAL_def)
  moreover have "draining s v \<noteq> Some p" for v using drainD [OF D(4), of v p] nh holdersI [of p s v] by fastforce
  then have "alive_ok ?s" using D(4) na dr by (auto simp: alive_ok_def s1(3) m)
  ultimately have "sched_inv ?s ps"
    using s1 np nh D(2) add by (intro sched_inv_frame [OF inv, where p = p]) (auto simp: m)
  then show ?thesis using s1(1) by auto
qed

text \<open>A queue goes from the hands of a thread to the end of the global queue.\<close>

lemma give_back_ok:
  assumes inv: "sched_inv s ps" and h: "held s w = p # qs" and dr: "draining s w = None"
  shows "\<exists>s1. skynet_globalmq_push p s = Some s1 \<and> sched_inv (s1\<lparr>held := (held s1)(w := qs)\<rparr>) (ps @ [p])"
proof -
  note D = sched_invD [OF inv]
  from h obtain q where q: "qview s p = Some q" and np: "p \<notin> set ps" and ok: "queue_ok q True (p \<in> alive s)" "p \<in> holders s"
    using held_queue [OF inv, of p w] by auto
  from globalmq_push_repr [OF D(1) np q] obtain s1 where s1: "skynet_globalmq_push p s = Some s1" "gq_repr s1 (ps @ [p])" "qview s1 = qview s"
    "mq_state.more s1 = mq_state.more s" by auto
  note m = more_eqD [OF s1(4)]
  let ?s = "s1\<lparr>held := (held s1)(w := qs)\<rparr>"
  have drop: "held_ok ?s" "holders ?s = holders s - {p}"
    by (rule held_ok_drop [OF D(3) h]; simp add: s1 m)+
  have "alive_ok ?s" by (rule alive_ok_frame [OF D(4)]) (use D(4) dr in \<open>auto simp: alive_ok_def s1 m\<close>)
  then have "sched_inv ?s (ps @ [p])"
    using s1 q ok D(2) drop by (intro sched_inv_frame [OF inv, where p = p]) (auto simp: m)
  with s1(1) show ?thesis by blast
qed

lemma publish_ok:
  assumes inv: "sched_inv s ps" and "held s w \<noteq> []" "draining s w = None"
  shows "\<exists>s' ps'. run_call (Publish w) s = Some s' \<and> sched_inv s' ps'"
proof -
  obtain p qs where h: "held s w = p # qs" using assms(2) by (cases "held s w") auto
  from give_back_ok [OF inv h assms(3)] obtain s1 where s1: "skynet_globalmq_push p s = Some s1" "sched_inv (s1\<lparr>held := (held s1)(w := qs)\<rparr>) (ps @ [p])"
    by blast
  have q: "qview s p \<noteq> None" "p \<notin> set ps" using held_queue [OF inv, of p w] h by auto
  have "held s1 = held s" using s1(1) globalmq_push_repr [OF sched_invD(1) [OF inv] q(2)] q(1) more_eqD(1) by fastforce
  then show ?thesis using s1 h by auto
qed

text \<open>Popping the global queue hands its first element to the thread that popped it.\<close>

lemma pop_global_ok:
  assumes inv: "sched_inv s ps" and dr: "draining s w = None"
  shows "\<exists>r s1. skynet_globalmq_pop s = Some (r, s1) \<and>
    (\<exists>ps'. sched_inv (case r of None \<Rightarrow> s1 | Some p \<Rightarrow> s1\<lparr>held := (held s1)(w := held s1 w @ [p])\<rparr>) ps')"
proof -
  note D = sched_invD [OF inv]
  show ?thesis
  proof (cases ps)
    case Nil
    then show ?thesis using globalmq_pop_Nil [of s] D(1) inv by auto
  next
    case (Cons p ps')
    with globalmq_pop_Cons [of s p ps'] D(1) obtain s1 where s1: "skynet_globalmq_pop s = Some (Some p, s1)" "gq_repr s1 ps'" "qview s1 = qview s"
      "mq_state.more s1 = mq_state.more s" by auto
    note m = more_eqD [OF s1(4)]
    let ?s = "s1\<lparr>held := (held s1)(w := held s1 w @ [p])\<rparr>"
    have nh: "p \<notin> holders s" and np: "p \<notin> set ps'" using D(1,2) Cons by (auto simp: gq_repr_def)
    have q: "qview s p \<noteq> None" using gq_repr_dom [OF D(1), of p] Cons by simp
    have dist: "distinct (held s w @ [p])" using D(3) nh by (auto simp: held_ok_def holders_def)
    have add: "held_ok ?s" "holders ?s = insert p (holders s)"
      by (rule held_ok_add [OF D(3) dist _ nh]; use q s1 m in simp)+
    have "alive_ok ?s" by (rule alive_ok_frame [OF D(4)]) (use D(4) dr in \<open>auto simp: alive_ok_def s1 m\<close>)
    moreover have "queue_ok q True (p \<in> alive s)" if "qview s p = Some q" for q
      using D(5) [OF that] Cons by simp
    ultimately have "sched_inv ?s ps'"
      using s1 nh np D(2) add Cons by (intro sched_inv_frame [OF inv, where p = p]) (auto simp: m)
    then show ?thesis using s1(1) by auto
  qed
qed

text \<open>Steps that change one queue and leave the owners alone.\<close>

lemma queue_step_ok:
  assumes inv: "sched_inv s ps" and g: "gq_repr s' ps'" and v: "qview s' = (qview s)(p \<mapsto> q')"
    and m: "mq_state.more s' = mq_state.more s"
    and sub: "set ps' = set ps \<or> set ps' = insert p (set ps) \<and> p \<notin> holders s"
    and ok: "queue_ok q' (p \<in> set ps' \<or> p \<in> holders s) (p \<in> alive s)"
  shows "sched_inv s' ps'"
proof -
  note D = sched_invD [OF inv]
  note m' = more_eqD [OF m]
  have hold: "holders s' = holders s" by (simp add: holders_def m')
  have "held_ok s'" using D(3) unfolding held_ok_def hold by (auto simp: m' v)
  moreover have "alive_ok s'" by (rule alive_ok_frame [OF D(4)]) (use D(4) in \<open>auto simp: alive_ok_def v m'\<close>)
  ultimately show ?thesis
    using g v sub ok D(2) by (intro sched_inv_frame [OF inv, where p = p]) (auto simp: hold m')
qed

text \<open>Popping a queue that the thread holds: a message, or the flag of the empty queue is cleared.\<close>

lemma pop_held:
  assumes inv: "sched_inv s ps" and h: "p \<in> set (held s w)"
  shows "\<exists>r s1. skynet_mq_pop p s = Some (r, s1) \<and> mq_state.more s1 = mq_state.more s \<and>
    (case r of Some m \<Rightarrow> sched_inv s1 ps
     | None \<Rightarrow> gq_repr s1 ps \<and> (\<exists>q'. qview s1 = (qview s)(p \<mapsto> q') \<and> mq_repr q' [] \<and> in_global q' = 0 \<and> (p \<in> alive s \<longleftrightarrow> mq_release q' = 0)))"
proof -
  note D = sched_invD [OF inv]
  obtain q where q: "qview s p = Some q" and ok: "queue_ok q True (p \<in> alive s)" "p \<in> holders s"
    using held_queue [OF inv h] by auto
  from ok(1) obtain ms where ms: "mq_repr q ms" "in_global q \<le> 1"
    "in_global q \<noteq> 0 \<or> mq_release q \<noteq> 0" "in_global q = 0 \<longrightarrow> ms = []" "p \<in> alive s \<longleftrightarrow> mq_release q = 0" by (rule queue_okD) auto
  show ?thesis
  proof (cases ms)
    case Nil
    with mq_pop_Nil_state [OF D(1) q] ms obtain s1 q' where "skynet_mq_pop p s = Some (None, s1)" "gq_repr s1 ps" "qview s1 = (qview s)(p \<mapsto> q')"
      "mq_repr q' []" "in_global q' = 0" "mq_release q' = mq_release q" "mq_state.more s1 = mq_state.more s" by auto
    with ms(5) show ?thesis by auto
  next
    case (Cons m' ms')
    with mq_pop_Cons_state [OF D(1) q, of m' ms'] ms obtain s1 q' where s1: "skynet_mq_pop p s = Some (Some m', s1)"
      "gq_repr s1 ps" "qview s1 = (qview s)(p \<mapsto> q')" "mq_repr q' ms'" "in_global q' = in_global q"
      "mq_release q' = mq_release q" "mq_state.more s1 = mq_state.more s" by auto
    with ms ok Cons have "sched_inv s1 ps"
      by (intro queue_step_ok [OF inv, of s1 ps p q']) (auto simp: queue_ok_def)
    with s1 show ?thesis by auto
  qed
qed

lemma pop_ok:
  assumes inv: "sched_inv s ps" and h: "held s w = [p]" and dr: "draining s w = None" and gr: "grabbed s w = Some p"
  shows "\<exists>s' ps'. run_call (Pop w) s = Some s' \<and> sched_inv s' ps'"
proof -
  note D = sched_invD [OF inv]
  from pop_held [OF inv, of p w] h obtain r s1 where r: "skynet_mq_pop p s = Some (r, s1)" "mq_state.more s1 = mq_state.more s"
    "case r of Some m \<Rightarrow> sched_inv s1 ps
     | None \<Rightarrow> gq_repr s1 ps \<and> (\<exists>q'. qview s1 = (qview s)(p \<mapsto> q') \<and> mq_repr q' [] \<and> in_global q' = 0 \<and> (p \<in> alive s \<longleftrightarrow> mq_release q' = 0))" by auto
  note m = more_eqD [OF r(2)]
  show ?thesis
  proof (cases r)
    case (Some x)
    then show ?thesis using r h by auto
  next
    case None
    let ?s = "s1\<lparr>held := (held s1)(w := [])\<rparr>"
    obtain q' where q': "gq_repr s1 ps" "qview s1 = (qview s)(p \<mapsto> q')" "mq_repr q' []" "in_global q' = 0" "p \<in> alive s \<longleftrightarrow> mq_release q' = 0"
      using r(3) None by auto
    have np: "p \<notin> set ps" using held_queue [OF inv, of p w] h by auto
    have al: "p \<in> alive s" using D(4) gr by (simp add: alive_ok_def)
    have drop: "held_ok ?s" "holders ?s = holders s - {p}"
      by (rule held_ok_drop [OF D(3) h]; simp add: q' m)+
    have "alive_ok ?s" by (rule alive_ok_frame [OF D(4)]) (use D(4) dr in \<open>auto simp: alive_ok_def q' m\<close>)
    moreover have "queue_ok q' False True" using q' al by (auto simp: queue_ok_def)
    ultimately have "sched_inv ?s ps"
      using q' np al D(2) drop by (intro sched_inv_frame [OF inv, where p = p]) (auto simp: m)
    then show ?thesis using r(1) h None by auto
  qed
qed

lemma drain_ok:
  assumes inv: "sched_inv s ps" and dr: "draining s w = Some p"
  shows "\<exists>s' ps'. run_call (Drain w) s = Some s' \<and> sched_inv s' ps'"
proof -
  note D = sched_invD [OF inv]
  obtain qs where h: "held s w = p # qs" and na: "p \<notin> alive s" using drainD [OF D(4) dr] by blast
  from pop_held [OF inv, of p w] h obtain r s1 where r: "skynet_mq_pop p s = Some (r, s1)" "mq_state.more s1 = mq_state.more s"
    "case r of Some m \<Rightarrow> sched_inv s1 ps
     | None \<Rightarrow> gq_repr s1 ps \<and> (\<exists>q'. qview s1 = (qview s)(p \<mapsto> q') \<and> mq_repr q' [] \<and> in_global q' = 0 \<and> (p \<in> alive s \<longleftrightarrow> mq_release q' = 0))" by auto
  note m = more_eqD [OF r(2)]
  show ?thesis
  proof (cases r)
    case (Some x)
    then show ?thesis using r dr by auto
  next
    case None
    obtain q' where q': "gq_repr s1 ps" "qview s1 = (qview s)(p \<mapsto> q')" using r(3) None by auto
    have np: "p \<notin> set ps" using held_queue [OF inv, of p w] h by auto
    from mq_free_state [OF q'(1) _ np] q'(2) obtain s2 where s2: "mq_free p s1 = Some s2" "gq_repr s2 ps" "qview s2 = (qview s)(p := None)"
      "mq_state.more s2 = mq_state.more s1" by auto
    note m2 = more_eqD [OF s2(4)]
    let ?s = "s2\<lparr>held := (held s2)(w := tl (held s2 w)), draining := (draining s2)(w := None)\<rparr>"
    have drop: "held_ok ?s" "holders ?s = holders s - {p}"
      by (rule held_ok_drop [OF D(3) h]; simp add: s2 m2 m h)+
    have "draining s v = Some p \<Longrightarrow> v = w" for v
    proof (rule ccontr)
      assume "draining s v = Some p" "v \<noteq> w"
      then have "p \<in> set (held s v) \<inter> set (held s w)" using drainD [OF D(4), of v p] h by auto
      with D(3) \<open>v \<noteq> w\<close> show False by (auto simp: held_ok_def)
    qed
    then have "alive_ok ?s" using D(4) na by (auto simp: alive_ok_def s2 m2 m)
    then have "sched_inv ?s ps"
      using s2 np na D(2) drop by (intro sched_inv_frame [OF inv, where p = p]) (auto simp: m m2)
    then show ?thesis using r(1) dr None s2(1) by auto
  qed
qed

lemma release_ok:
  assumes inv: "sched_inv s ps" and "held s w \<noteq> []" "draining s w = None"
  shows "\<exists>s' ps'. run_call (Release w) s = Some s' \<and> sched_inv s' ps'"
proof -
  note D = sched_invD [OF inv]
  obtain p qs where h: "held s w = p # qs" using assms(2) by (cases "held s w") auto
  obtain q where q: "qview s p = Some q" and np: "p \<notin> set ps" and ok: "queue_ok q True (p \<in> alive s)" using held_queue [OF inv, of p w] h by auto
  from q obtain q0 where q0: "queues s p = Some q0" "q = unlink q0" by (rule qview_SomeE)
  show ?thesis
  proof (cases "mq_release q0 = 0")
    case True
    then have "run_call (Release w) s = run_call (Publish w) s" using q0 h by simp
    then show ?thesis using publish_ok [OF assms] by simp
  next
    case False
    let ?s = "s\<lparr>draining := (draining s)(w := Some p)\<rparr>"
    have na: "p \<notin> alive s" using ok q0(2) False by (auto simp: queue_ok_def)
    then have "alive_ok ?s" using D(4) h by (auto simp: alive_ok_def)
    moreover have "held_ok ?s" "holders ?s = holders s" using D(3) by (simp_all add: held_ok_def holders_def)
    ultimately have "sched_inv ?s ps" using inv by (simp add: sched_inv_def)
    then show ?thesis using q0 h False by auto
  qed
qed

lemma send_ok:
  assumes inv: "sched_inv s ps" and al: "p \<in> alive s" and room: "\<forall>q. queues s p = Some q \<longrightarrow> mq_length q < mq_limit"
  shows "\<exists>s' ps'. run_call (Send p m) s = Some s' \<and> sched_inv s' ps'"
proof -
  note D = sched_invD [OF inv]
  obtain q where q: "qview s p = Some q" using D(4) al by (auto simp: alive_ok_def)
  from q obtain q0 where q0: "queues s p = Some q0" "q = unlink q0" by (rule qview_SomeE)
  obtain ms where ms: "mq_repr q ms" "in_global q \<le> 1"
    "p \<in> set ps \<or> p \<in> holders s \<longleftrightarrow> in_global q \<noteq> 0 \<or> mq_release q \<noteq> 0" "p \<in> alive s \<longleftrightarrow> mq_release q = 0"
    using D(5) [OF q] by (rule queue_okD)
  have rel: "mq_release q = 0" using ms(4) al by simp
  have len: "length ms < mq_limit" using room q0 mq_repr_length [OF ms(1)] by simp
  have out: "in_global q = 0 \<Longrightarrow> p \<notin> set ps" using ms(3) rel by auto
  from mq_push_state [OF D(1) q ms(1) len out, of m] obtain s' q' where s':
    "skynet_mq_push p m s = Some s'" "gq_repr s' (if in_global q = 0 then ps @ [p] else ps)"
    "qview s' = (qview s)(p \<mapsto> q')" "mq_repr q' (ms @ [m])"
    "in_global q' = (if in_global q = 0 then MQ_IN_GLOBAL else in_global q)"
    "mq_release q' = mq_release q" "mq_state.more s' = mq_state.more s" by blast
  have "queue_ok q' True (p \<in> alive s)"
    using s' ms(2) rel al by (auto simp: queue_ok_def MQ_IN_GLOBAL_def)
  with s' ms(3) rel have "sched_inv s' (if in_global q = 0 then ps @ [p] else ps)"
    by (intro queue_step_ok [OF inv s'(2,3,7)]) auto
  with s'(1) show ?thesis by auto
qed

lemma delete_ok:
  assumes inv: "sched_inv s ps" and al: "p \<in> alive s" and free: "\<forall>w. grabbed s w \<noteq> Some p"
  shows "\<exists>s' ps'. run_call (Delete p) s = Some s' \<and> sched_inv s' ps'"
proof -
  note D = sched_invD [OF inv]
  obtain q where q: "qview s p = Some q" using D(4) al by (auto simp: alive_ok_def)
  obtain ms where ms: "mq_repr q ms" "in_global q \<le> 1"
    "p \<in> set ps \<or> p \<in> holders s \<longleftrightarrow> in_global q \<noteq> 0 \<or> mq_release q \<noteq> 0"
    "in_global q = 0 \<longrightarrow> ms = []" "p \<in> alive s \<longleftrightarrow> mq_release q = 0"
    using D(5) [OF q] by (rule queue_okD)
  have rel: "mq_release q = 0" using ms(5) al by simp
  have out: "in_global q \<noteq> MQ_IN_GLOBAL \<Longrightarrow> p \<notin> set ps \<and> p \<notin> holders s"
    using ms(2,3) rel by (auto simp: MQ_IN_GLOBAL_def)
  from mq_mark_release_state [OF D(1) q rel] out obtain s1 where s1: "skynet_mq_mark_release p s = Some s1"
    "gq_repr s1 (if in_global q \<noteq> MQ_IN_GLOBAL then ps @ [p] else ps)"
    "qview s1 = (qview s)(p \<mapsto> q\<lparr>mq_release := 1\<rparr>)" "mq_state.more s1 = mq_state.more s" by auto
  note m = more_eqD [OF s1(4)]
  let ?ps = "if in_global q \<noteq> MQ_IN_GLOBAL then ps @ [p] else ps"
  let ?s = "s1\<lparr>alive := alive s1 - {p}\<rparr>"
  have hold: "holders (s1\<lparr>alive := a\<rparr>) = holders s" for a by (simp add: holders_def m)
  have "held_ok ?s" using D(3) unfolding held_ok_def hold by (auto simp: m s1)
  moreover have "alive_ok ?s" using D(4) free by (auto simp: alive_ok_def s1 m)
  moreover have "queue_ok (q\<lparr>mq_release := 1\<rparr>) True False"
    using ms by (auto simp: queue_ok_def)
  ultimately have "sched_inv ?s ?ps"
    using s1 out ms(3) rel D(2) q by (intro sched_inv_frame [OF inv, where p = p]) (auto simp: hold m MQ_IN_GLOBAL_def)
  then show ?thesis using s1(1) by auto
qed

lemma globalmq_pop_held:
  assumes "gq_repr s ps" "skynet_globalmq_pop s = Some (r, s1)"
  shows "held s1 = held (s :: 'm sched)"
  using assms globalmq_pop_Nil [of s] globalmq_pop_Cons [of s] more_eqD(1) [of s1 s] by (cases ps) fastforce+

lemma call_ok:
  assumes inv: "sched_inv s ps" and rdy: "ready c s"
  shows "\<exists>s' ps'. run_call c s = Some s' \<and> sched_inv s' ps'"
proof -
  note D = sched_invD [OF inv]
  have one: "\<exists>p. held s w = [p]" if "length (held s w) = 1" for w using that by (cases "held s w") auto
  show ?thesis
  proof (cases c)
    case (Create w p h)
    then show ?thesis using create_ok [OF inv] rdy by simp
  next
    case (Publish w)
    then show ?thesis using publish_ok [OF inv] rdy by simp
  next
    case (Take w)
    then have e: "held s w = []" using rdy by simp
    have "draining s w = None" using drainD [OF D(4), of w] e by (cases "draining s w") auto
    then obtain r s1 where "skynet_globalmq_pop s = Some (r, s1)" "held s1 w = held s w"
      "\<exists>ps'. sched_inv (case r of None \<Rightarrow> s1 | Some p \<Rightarrow> s1\<lparr>held := (held s1)(w := held s1 w @ [p])\<rparr>) ps'"
      using pop_global_ok [OF inv, of w] globalmq_pop_held [OF D(1)] by metis
    then show ?thesis using Take e by (auto split: option.splits)
  next
    case (Grab w)
    let ?s = "s\<lparr>grabbed := (grabbed s)(w := Some (hd (held s w)))\<rparr>"
    have "alive_ok ?s" using D(4) rdy Grab by (auto simp: alive_ok_def)
    then have "sched_inv ?s ps" using inv by (auto simp: sched_inv_def held_ok_def holders_def)
    then show ?thesis using Grab by auto
  next
    case (Pop w)
    then show ?thesis using pop_ok [OF inv, of w] one [of w] rdy by auto
  next
    case (Fetch w)
    then have "draining s w = None" using rdy by simp
    then show ?thesis using pop_global_ok [OF inv, of w] Fetch by auto
  next
    case (Ungrab w)
    let ?s = "s\<lparr>grabbed := (grabbed s)(w := None)\<rparr>"
    have "alive_ok ?s" using D(4) by (auto simp: alive_ok_def)
    then have "sched_inv ?s ps" using inv by (auto simp: sched_inv_def held_ok_def holders_def)
    then show ?thesis using Ungrab by auto
  next
    case (Send p m)
    then show ?thesis using send_ok [OF inv] rdy by simp
  next
    case (Delete p)
    then show ?thesis using delete_ok [OF inv] rdy by simp
  next
    case (Release w)
    then show ?thesis using release_ok [OF inv] rdy by simp
  next
    case (Drain w)
    then show ?thesis using drain_ok [OF inv, of w] rdy by auto
  qed
qed

lemma reachable_inv: "reachable s \<Longrightarrow> \<exists>ps. sched_inv s ps"
proof (induction rule: reachable.induct)
  case start
  show ?case using sched_inv_init by blast
next
  case (step s t)
  from step.hyps(2) obtain c where "ready c s" "run_call c s = Some t" by (cases rule: sched_step.cases)
  with step.IH call_ok show ?case by fastforce
qed

section \<open>Properties\<close>

text \<open>The facts a reachable state gives about the queue a thread holds.\<close>

lemma gq_repr_unique: "gq_repr s ps \<Longrightarrow> gq_repr s qs \<Longrightarrow> ps = qs"
proof -
  have "linked Q h xs \<Longrightarrow> linked Q h ys \<Longrightarrow> xs = ys" for Q :: "ptr \<Rightarrow> 'a message_queue option" and h xs ys
  proof (induction xs arbitrary: h ys)
    case Nil
    then show ?case by (cases ys) auto
  next
    case (Cons x xs)
    then show ?case by (cases ys) auto
  qed
  then show "gq_repr s ps \<Longrightarrow> gq_repr s qs \<Longrightarrow> ps = qs" unfolding gq_repr_def by blast
qed

text \<open>
  (C20) A service never runs on two threads at once: in every reachable state a message queue
  that one thread has taken is held by no other thread, occurs once in what that thread
  holds, and is not waiting in the global queue, from which a second thread could take it.
\<close>

theorem queue_owned_once:
  assumes "reachable s" and "p \<in> set (held s w)"
  shows "distinct (held s w) \<and> (p \<in> set (held s v) \<longrightarrow> v = w) \<and> (gq_repr s ps \<longrightarrow> p \<notin> set ps)"
proof -
  obtain qs where inv: "sched_inv s qs" using reachable_inv [OF assms(1)] by blast
  then have "held_ok s" "gq_repr s qs" by (auto simp: sched_inv_def)
  moreover have "p \<notin> set qs" using held_queue [OF inv assms(2)] by blast
  ultimately show ?thesis
    using assms(2) gq_repr_unique unfolding held_ok_def by blast
qed

text \<open>
  (C21) No lost wake-up: in every reachable state a message queue that holds a message is in
  the global queue or in the hands of a thread, so some thread will come to it.
\<close>

theorem no_lost_wakeup:
  assumes "reachable s" and "queues s p = Some q" and "0 < mq_length q"
  shows "\<exists>ps. gq_repr s ps \<and> (p \<in> set ps \<or> (\<exists>w. p \<in> set (held s w)))"
proof -
  obtain ps where inv: "sched_inv s ps" using reachable_inv [OF assms(1)] by blast
  from assms(2) have "qview s p = Some (unlink q)" by (simp add: qview_def)
  from sched_invD(5) [OF inv this] obtain ms where ms: "mq_repr q ms"
    "p \<in> set ps \<or> p \<in> holders s \<longleftrightarrow> in_global q \<noteq> 0 \<or> mq_release q \<noteq> 0"
    "in_global q = 0 \<longrightarrow> ms = []" by (rule queue_okD) auto
  from ms assms(3) mq_repr_length [OF ms(1)] have "p \<in> set ps \<or> p \<in> holders s" by auto
  with inv show ?thesis by (auto simp: sched_inv_def holders_def)
qed

text \<open>
  (C22) No assertion of \<^verbatim>\<open>skynet_mq.c\<close> fails, and no queue is used after it was freed, in any interleaving of the threads:
  in every reachable state every call of the worker threads that its thread is ready for succeeds. Among them are the release of
  the queue of a deleted context, one message at a time, and the mark that its deletion leaves, whose assertion says that a queue is marked once.
\<close>

theorem scheduler_never_faults:
  assumes "reachable s" "ready c s"
  shows "run_call c s \<noteq> None"
  using reachable_inv [OF assms(1)] call_ok [OF _ assms(2)] by fastforce

text \<open>A small run: a service is created, and its context deleted or a message sent to it.\<close>

lemma demo_create:
  "reachable (sched_init\<lparr>queues := [1 \<mapsto> new_message_queue 5], held := (\<lambda>_. [])(0 := [1]), alive := {1}\<rparr> :: nat sched)"
proof (rule reachable.step [OF reachable.start sched_step.call [where c = "Create 0 1 5"]])
  show "ready (Create 0 1 5) (sched_init :: nat sched)" by (simp add: sched_init_def)
qed (simp add: sched_init_def skynet_mq_create_def)

lemma demo_run:
  "\<exists>s :: nat sched. reachable s \<and> 1 \<in> set (held s 0) \<and> (\<exists>q. queues s 1 = Some q \<and> mq_length q = 1)"
proof -
  let ?s = "sched_init\<lparr>queues := [1 \<mapsto> new_message_queue 5], held := (\<lambda>_. [])(0 := [1]), alive := {1}\<rparr> :: nat sched"
  obtain ps where inv: "sched_inv ?s ps" using reachable_inv [OF demo_create] by blast
  have q: "qview ?s 1 = Some (new_message_queue 5)" by (simp add: qview_def)
  have new: "mq_repr (new_message_queue 5 :: nat message_queue) []" "in_global (new_message_queue 5 :: nat message_queue) \<noteq> 0"
    by (simp_all add: new_message_queue_repr) (simp_all add: new_message_queue_def MQ_IN_GLOBAL_def)
  have "mq_length (new_message_queue 5 :: nat message_queue) < mq_limit"
    using mq_repr_length [OF new(1)] by (simp add: mq_limit_def)
  then have rdy: "ready (Send 1 42) ?s" by simp
  obtain s3 q3 where s3: "skynet_mq_push 1 42 ?s = Some s3"
    "qview s3 = (qview ?s)(1 \<mapsto> q3)" "mq_repr q3 [42]" "mq_state.more s3 = mq_state.more ?s"
    using mq_push_state [OF sched_invD(1) [OF inv] q new(1), of 42] new(2)
    by (auto simp: mq_limit_def)
  have "reachable s3"
    by (rule reachable.step [OF demo_create sched_step.call [OF rdy]]) (simp only: run_call.simps s3(1))
  moreover have "1 \<in> set (held s3 0)" using more_eqD(1) [OF s3(4)] by simp
  moreover have "qview s3 1 = Some q3" by (simp add: s3(2))
  then have "\<exists>q. queues s3 1 = Some q \<and> mq_length q = 1"
    using mq_repr_length [OF s3(3)] by (auto simp: qview_def)
  ultimately show ?thesis by blast
qed

theorem queue_owned_once_witness:
  "\<exists>s :: nat sched. reachable s \<and> 1 \<in> set (held s 0) \<and> distinct (held s 0) \<and> 1 \<notin> set (held s 3)"
proof -
  obtain s :: "nat sched" where s: "reachable s" "1 \<in> set (held s 0)" using demo_run by blast
  from queue_owned_once [OF s, of 3] s show ?thesis by auto
qed

theorem no_lost_wakeup_witness:
  "\<exists>(s :: nat sched) ps q. reachable s \<and> queues s 1 = Some q \<and> 0 < mq_length q \<and>
     gq_repr s ps \<and> (1 \<in> set ps \<or> (\<exists>w. 1 \<in> set (held s w)))"
proof -
  obtain s :: "nat sched" and q where s: "reachable s" "queues s 1 = Some q" "mq_length q = 1"
    using demo_run by blast
  then have pos: "0 < mq_length q" by simp
  from no_lost_wakeup [OF s(1,2) pos] s(1,2) pos show ?thesis by blast
qed

theorem scheduler_never_faults_witness:
  "\<exists>s :: nat sched. reachable s \<and> ready (Drain 0) s \<and> run_call (Drain 0) s \<noteq> None"
proof -
  let ?q = "new_message_queue 5 :: nat message_queue"
  let ?s = "\<lambda>q d a. sched_init\<lparr>queues := [1 \<mapsto> q], held := (\<lambda>_. [])(0 := [1]), draining := d, alive := a\<rparr> :: nat sched"
  let ?q1 = "?q\<lparr>mq_release := 1\<rparr>"
  have "reachable (?s ?q (\<lambda>_. None) {1})" using demo_create by (simp add: sched_init_def)
  then have "reachable (?s ?q1 (\<lambda>_. None) {})"
    by (rule reachable.step [OF _ sched_step.call [where c = "Delete 1"]])
      (simp_all add: sched_init_def skynet_mq_mark_release_def new_message_queue_def)
  then have r: "reachable (?s ?q1 ((\<lambda>_. None)(0 := Some 1)) {})"
    by (rule reachable.step [OF _ sched_step.call [where c = "Release 0"]]) (simp_all add: sched_init_def)
  have d: "ready (Drain 0) (?s ?q1 ((\<lambda>_. None)(0 := Some 1)) {})" by simp
  from r d scheduler_never_faults [OF r d] show ?thesis by blast
qed

end
