(* ===== verification/Locks.thy ===== *)
theory Locks
  imports Prelude
begin

text \<open>
  The read-write lock of \<^verbatim>\<open>skynet-src/rwlock.h\<close> and the spin lock of \<^verbatim>\<open>skynet-src/spinlock.h\<close>, each
  as a step relation whose steps are the atomic instructions of the code. The model
  takes the memory to be sequentially consistent. Of the built-ins the code uses,
  \<^verbatim>\<open>__sync_synchronize\<close>, \<^verbatim>\<open>__sync_add_and_fetch\<close> and \<^verbatim>\<open>__sync_sub_and_fetch\<close> are full barriers,
  \<^verbatim>\<open>__sync_lock_test_and_set\<close> only acquires and \<^verbatim>\<open>__sync_lock_release\<close> only releases.
\<close>

section \<open>The spin lock\<close>

text \<open>
  \<^verbatim>\<open>SpinTry\<close> is about to execute \<^verbatim>\<open>__sync_lock_test_and_set\<close>, \<^verbatim>\<open>SpinIn\<close> has returned from
  \<^verbatim>\<open>spinlock_lock\<close> (or from a \<^verbatim>\<open>spinlock_trylock\<close> that returned 1).
\<close>

datatype spin_pc = SpinOut | SpinTry | SpinIn

record spin =
  spin_lock :: nat
  spin_pcs :: "nat \<Rightarrow> spin_pc"

definition spinlock_init :: spin where
  "spinlock_init = \<lparr>spin_lock = 0, spin_pcs = (\<lambda>_. SpinOut)\<rparr>"

inductive spin_step :: "spin \<Rightarrow> spin \<Rightarrow> bool" where
  spinlock_enter: "spin_pcs s t = SpinOut \<Longrightarrow>
     spin_step s (s\<lparr>spin_pcs := (spin_pcs s)(t := SpinTry)\<rparr>)"
| spinlock_test_and_set: "spin_pcs s t = SpinTry \<Longrightarrow>
     spin_step s (s\<lparr>spin_lock := 1,
       spin_pcs := (spin_pcs s)(t := if spin_lock s \<noteq> 0 then SpinTry else SpinIn)\<rparr>)"
| spinlock_trylock: "spin_pcs s t = SpinOut \<Longrightarrow>
     spin_step s (s\<lparr>spin_lock := 1,
       spin_pcs := (spin_pcs s)(t := if spin_lock s = 0 then SpinIn else SpinOut)\<rparr>)"
| spinlock_unlock: "spin_pcs s t = SpinIn \<Longrightarrow>
     spin_step s (s\<lparr>spin_lock := 0, spin_pcs := (spin_pcs s)(t := SpinOut)\<rparr>)"

inductive spin_reach :: "spin \<Rightarrow> bool" where
  spin_start: "spin_reach spinlock_init"
| spin_next: "spin_reach s \<Longrightarrow> spin_step s t \<Longrightarrow> spin_reach t"

definition spin_inv :: "spin \<Rightarrow> bool" where
  "spin_inv s \<longleftrightarrow> (\<forall>t. spin_pcs s t = SpinIn \<longrightarrow> spin_lock s \<noteq> 0 \<and> (\<forall>u. spin_pcs s u = SpinIn \<longrightarrow> u = t))"

lemma spin_step_inv: "spin_step s s' \<Longrightarrow> spin_inv s \<Longrightarrow> spin_inv s'"
  by (induction rule: spin_step.induct) (auto simp: spin_inv_def split: if_splits)

lemma spin_reach_inv: "spin_reach s \<Longrightarrow> spin_inv s"
proof (induction rule: spin_reach.induct)
  case spin_start
  show ?case by (simp add: spin_inv_def spinlock_init_def)
next
  case (spin_next s t)
  then show ?case by (blast intro: spin_step_inv)
qed

section \<open>The read-write lock\<close>

text \<open>
  The program counter of a thread: outside; in \<^verbatim>\<open>rwlock_rlock\<close>, polling \<^verbatim>\<open>write\<close>, about to
  add 1 to \<^verbatim>\<open>read\<close>, about to test \<^verbatim>\<open>write\<close> again, about to take the 1 back; reading; in
  \<^verbatim>\<open>rwlock_wlock\<close>, about to set \<^verbatim>\<open>write\<close>, waiting for the readers to leave; writing.
\<close>

datatype rw_pc = RwOut | RPoll | RAdd | RTest | RBack | Reading | WSet | WWait | Writing

record rwlock =
  rw_write :: nat
  rw_read :: int
  rw_pcs :: "nat \<Rightarrow> rw_pc"

definition rwlock_init :: rwlock where
  "rwlock_init = \<lparr>rw_write = 0, rw_read = 0, rw_pcs = (\<lambda>_. RwOut)\<rparr>"

definition goto :: "rwlock \<Rightarrow> nat \<Rightarrow> rw_pc \<Rightarrow> rwlock" where
  "goto s t pc = s\<lparr>rw_pcs := (rw_pcs s)(t := pc)\<rparr>"

inductive rw_step :: "rwlock \<Rightarrow> rwlock \<Rightarrow> bool" where
  rlock_enter: "rw_pcs s t = RwOut \<Longrightarrow> rw_step s (goto s t RPoll)"
| rlock_poll: "rw_pcs s t = RPoll \<Longrightarrow> rw_step s (goto s t (if rw_write s \<noteq> 0 then RPoll else RAdd))"
| rlock_add: "rw_pcs s t = RAdd \<Longrightarrow> rw_step s (goto (s\<lparr>rw_read := rw_read s + 1\<rparr>) t RTest)"
| rlock_test: "rw_pcs s t = RTest \<Longrightarrow> rw_step s (goto s t (if rw_write s \<noteq> 0 then RBack else Reading))"
| rlock_back: "rw_pcs s t = RBack \<Longrightarrow> rw_step s (goto (s\<lparr>rw_read := rw_read s - 1\<rparr>) t RPoll)"
| runlock: "rw_pcs s t = Reading \<Longrightarrow> rw_step s (goto (s\<lparr>rw_read := rw_read s - 1\<rparr>) t RwOut)"
| wlock_enter: "rw_pcs s t = RwOut \<Longrightarrow> rw_step s (goto s t WSet)"
| wlock_set: "rw_pcs s t = WSet \<Longrightarrow>
     rw_step s (goto (s\<lparr>rw_write := 1\<rparr>) t (if rw_write s \<noteq> 0 then WSet else WWait))"
| wlock_wait: "rw_pcs s t = WWait \<Longrightarrow> rw_step s (goto s t (if rw_read s \<noteq> 0 then WWait else Writing))"
| wunlock: "rw_pcs s t = Writing \<Longrightarrow> rw_step s (goto (s\<lparr>rw_write := 0\<rparr>) t RwOut)"

inductive rw_reach :: "rwlock \<Rightarrow> bool" where
  rw_start: "rw_reach rwlock_init"
| rw_next: "rw_reach s \<Longrightarrow> rw_step s t \<Longrightarrow> rw_reach t"

text \<open>
  The threads that have added 1 to \<^verbatim>\<open>read\<close> and not taken it back, and the threads that
  own the \<^verbatim>\<open>write\<close> flag.
\<close>

definition counted :: "rwlock \<Rightarrow> nat set" where
  "counted s = {t. rw_pcs s t \<in> {RTest, RBack, Reading}}"

definition owning :: "rwlock \<Rightarrow> nat set" where
  "owning s = {t. rw_pcs s t \<in> {WWait, Writing}}"

text \<open>
  The count is right; at most one thread owns the write flag and then the flag is set; a
  thread that writes excludes every reader.
\<close>

definition count_inv :: "rwlock \<Rightarrow> bool" where
  "count_inv s \<longleftrightarrow> finite (counted s) \<and> rw_read s = int (card (counted s))"

definition owner_inv :: "rwlock \<Rightarrow> bool" where
  "owner_inv s \<longleftrightarrow> (\<forall>t \<in> owning s. rw_write s \<noteq> 0 \<and> owning s = {t})"

definition excl_inv :: "rwlock \<Rightarrow> bool" where
  "excl_inv s \<longleftrightarrow> (\<forall>t. rw_pcs s t = Writing \<longrightarrow> (\<forall>u. rw_pcs s u \<noteq> Reading))"

lemma counted_goto:
  "counted (goto s t pc) = (if pc \<in> {RTest, RBack, Reading} then insert t (counted s) else counted s - {t})"
  by (auto simp: counted_def goto_def)

lemma owning_goto:
  "owning (goto s t pc) = (if pc \<in> {WWait, Writing} then insert t (owning s) else owning s - {t})"
  by (auto simp: owning_def goto_def)

lemma counted_upd [simp]:
  "counted (s\<lparr>rw_read := r\<rparr>) = counted s" "counted (s\<lparr>rw_write := w\<rparr>) = counted s"
  "owning (s\<lparr>rw_read := r\<rparr>) = owning s" "owning (s\<lparr>rw_write := w\<rparr>) = owning s"
  by (simp_all add: counted_def owning_def)

lemma goto_sel [simp]:
  "rw_read (goto s t pc) = rw_read s" "rw_write (goto s t pc) = rw_write s"
  "rw_pcs (goto s t pc) = (rw_pcs s)(t := pc)"
  by (simp_all add: goto_def)

lemma counted_iff: "t \<in> counted s \<longleftrightarrow> rw_pcs s t \<in> {RTest, RBack, Reading}"
  by (simp add: counted_def)

lemma owning_iff: "t \<in> owning s \<longleftrightarrow> rw_pcs s t \<in> {WWait, Writing}"
  by (simp add: owning_def)

lemma card_counted:
  assumes "count_inv s" "t \<in> counted s"
  shows "int (card (counted s - {t})) = rw_read s - 1"
proof -
  have "Suc (card (counted s - {t})) = card (counted s)"
    using assms by (intro card_Suc_Diff1) (auto simp: count_inv_def)
  with assms show ?thesis by (simp add: count_inv_def)
qed

lemma count_step: "rw_step s s' \<Longrightarrow> count_inv s \<Longrightarrow> count_inv s'"
proof (induction rule: rw_step.induct)
  case (rlock_back s t)
  then show ?case using card_counted [of s t] by (simp add: count_inv_def counted_goto counted_iff)
next
  case (runlock s t)
  then show ?case using card_counted [of s t] by (simp add: count_inv_def counted_goto counted_iff)
qed (simp_all add: count_inv_def counted_goto counted_iff insert_absorb)

lemma owner_step: "rw_step s s' \<Longrightarrow> owner_inv s \<Longrightarrow> owner_inv s'"
proof (induction rule: rw_step.induct)
  case (wlock_set s t)
  show ?case
  proof (cases "rw_write s = 0")
    case True
    with wlock_set have "owning s = {}" by (auto simp: owner_inv_def)
    with True show ?thesis by (simp add: owner_inv_def owning_goto)
  next
    case False
    with wlock_set show ?thesis by (simp add: owner_inv_def owning_goto owning_iff)
  qed
next
  case (wunlock s t)
  then have "t \<in> owning s" by (simp add: owning_iff)
  with wunlock have "owning s = {t}" by (simp add: owner_inv_def)
  then show ?case by (simp add: owner_inv_def owning_goto)
next
  case (wlock_wait s t)
  then have "insert t (owning s) = owning s" by (simp add: owning_iff insert_absorb)
  with wlock_wait show ?case by (simp add: owner_inv_def owning_goto)
qed (simp_all add: owner_inv_def owning_goto owning_iff)

lemma excl_step:
  "rw_step s s' \<Longrightarrow> count_inv s \<Longrightarrow> owner_inv s \<Longrightarrow> excl_inv s \<Longrightarrow> excl_inv s'"
proof (induction rule: rw_step.induct)
  case (rlock_test s t)
  then show ?case by (auto simp: excl_inv_def owner_inv_def owning_iff split: if_splits)
next
  case (wlock_wait s t)
  have "rw_pcs s u \<noteq> Reading" if "rw_read s = 0" for u
  proof -
    from wlock_wait that have "counted s = {}" by (auto simp: count_inv_def)
    then show ?thesis by (auto simp: counted_def)
  qed
  with wlock_wait show ?case by (auto simp: excl_inv_def split: if_splits)
qed (auto simp: excl_inv_def split: if_splits)

lemma rw_reach_inv: "rw_reach s \<Longrightarrow> count_inv s \<and> owner_inv s \<and> excl_inv s"
proof (induction rule: rw_reach.induct)
  case rw_start
  show ?case
    by (simp add: count_inv_def owner_inv_def excl_inv_def rwlock_init_def counted_def owning_def)
next
  case (rw_next s t)
  then show ?case by (blast intro: count_step owner_step excl_step)
qed

section \<open>Properties\<close>

text \<open>
  (C30) The read-write lock excludes: in every interleaving of the instructions of any number of
  threads, while one thread is between the return of \<^verbatim>\<open>rwlock_wlock\<close> and \<^verbatim>\<open>rwlock_wunlock\<close>, no
  other thread writes and no thread reads. The reader count never underflows.
\<close>

theorem rwlock_excludes:
  assumes "rw_reach s" and "rw_pcs s t = Writing"
  shows "rw_pcs s u \<noteq> Reading \<and> (rw_pcs s u = Writing \<longrightarrow> u = t) \<and> 0 \<le> rw_read s"
proof -
  from rw_reach_inv [OF assms(1)] have inv: "count_inv s" "owner_inv s" "excl_inv s" by auto
  from assms(2) have "t \<in> owning s" by (simp add: owning_iff)
  with inv(2) have "owning s = {t}" by (simp add: owner_inv_def)
  then have "rw_pcs s u = Writing \<longrightarrow> u = t" using owning_iff [of u s] by auto
  with inv assms(2) show ?thesis by (auto simp: excl_inv_def count_inv_def)
qed

text \<open>
  The spin lock excludes: at most one thread is between the return of \<^verbatim>\<open>spinlock_lock\<close> (or
  of a successful \<^verbatim>\<open>spinlock_trylock\<close>) and \<^verbatim>\<open>spinlock_unlock\<close>, in every interleaving.
\<close>

theorem spinlock_excludes:
  assumes "spin_reach s" and "spin_pcs s t = SpinIn" and "spin_pcs s u = SpinIn"
  shows "t = u \<and> spin_lock s \<noteq> 0"
  using spin_reach_inv [OF assms(1)] assms(2,3) unfolding spin_inv_def by metis

theorem rwlock_excludes_witness:
  "\<exists>s. rw_reach s \<and> rw_pcs s 0 = Writing \<and> rw_pcs s 1 \<noteq> Reading \<and> 0 \<le> rw_read s"
proof -
  let ?s1 = "goto rwlock_init 0 WSet"
  let ?s2 = "goto (?s1\<lparr>rw_write := 1\<rparr>) 0 (if rw_write ?s1 \<noteq> 0 then WSet else WWait)"
  let ?s3 = "goto ?s2 0 (if rw_read ?s2 \<noteq> 0 then WWait else Writing)"
  have "rw_reach ?s1"
    by (rule rw_next [OF rw_start wlock_enter]) (simp add: rwlock_init_def)
  then have "rw_reach ?s2" by (rule rw_next) (rule wlock_set, simp)
  then have r: "rw_reach ?s3" by (rule rw_next) (rule wlock_wait, simp add: rwlock_init_def)
  have w: "rw_pcs ?s3 0 = Writing" by (simp add: rwlock_init_def goto_def)
  from rwlock_excludes [OF r w, of 1] r w show ?thesis by blast
qed

theorem spinlock_excludes_witness:
  "\<exists>s. spin_reach s \<and> spin_pcs s 2 = SpinIn \<and> spin_lock s \<noteq> 0"
proof -
  let ?s1 = "spinlock_init\<lparr>spin_lock := 1,
       spin_pcs := (spin_pcs spinlock_init)(2 := if spin_lock spinlock_init = 0 then SpinIn else SpinOut)\<rparr>"
  have r: "spin_reach ?s1"
    by (rule spin_next [OF spin_start spinlock_trylock]) (simp add: spinlock_init_def)
  have i: "spin_pcs ?s1 2 = SpinIn" by (simp add: spinlock_init_def)
  from spinlock_excludes [OF r i i] r i show ?thesis by blast
qed

end
