(* ===== verification/Databuffer.thy ===== *)
theory Databuffer
  imports Prelude
begin

text \<open>
  The receive buffer of a connection (\<^verbatim>\<open>service-src/databuffer.h\<close>): a queue of the packets received, an offset
  into the first, the number of unread bytes and the length announced by a frame header that was read
  and whose frame is not complete yet. A queue of nodes is the list of the packets they hold. The nodes come from a pool
  shared by the connections of a gate, of which the model keeps the number of blocks and of free nodes.
\<close>

section \<open>State and operations\<close>

definition MESSAGEPOOL :: nat where "MESSAGEPOOL = 1023"

record databuffer =
  db_header :: int
  db_offset :: nat
  db_size :: nat
  db_msgs :: "u8 list list"

record messagepool =
  mp_pool :: nat
  mp_freelist :: nat

definition databuffer_new :: databuffer where
  "databuffer_new = \<lparr>db_header = 0, db_offset = 0, db_size = 0, db_msgs = []\<rparr>"

definition messagepool_new :: messagepool where
  "messagepool_new = \<lparr>mp_pool = 0, mp_freelist = 0\<rparr>"

definition messagepool_free :: "messagepool \<Rightarrow> messagepool" where
  "messagepool_free mp = mp\<lparr>mp_pool := 0, mp_freelist := 0\<rparr>"

definition return_message :: "databuffer \<Rightarrow> messagepool \<Rightarrow> (databuffer \<times> messagepool) option" where
  "return_message db mp = (case db_msgs db of
       [] \<Rightarrow> None
     | m # ms \<Rightarrow> Some (db\<lparr>db_msgs := ms\<rparr>, mp\<lparr>mp_freelist := mp_freelist mp + 1\<rparr>))"

text \<open>The loop of \<^verbatim>\<open>databuffer_read\<close>, over the packets left: the bytes copied, the buffer and the pool.\<close>

partial_function (option) read_loop ::
    "nat \<Rightarrow> databuffer \<Rightarrow> messagepool \<Rightarrow> (u8 list \<times> databuffer \<times> messagepool) option" where
  "read_loop sz db mp = (case db_msgs db of
       [] \<Rightarrow> None
     | current # ms \<Rightarrow>
        (let bsz = int (length current) - int (db_offset db) in
         if bsz > int sz then
           Some (take sz (drop (db_offset db) current), db\<lparr>db_offset := db_offset db + sz\<rparr>, mp)
         else if bsz = int sz then
           return_message (db\<lparr>db_offset := 0\<rparr>) mp \<bind> (\<lambda>(db', mp').
             Some (take sz (drop (db_offset db) current), db', mp'))
         else if bsz < 0 then None
         else return_message db mp \<bind> (\<lambda>(db', mp').
           read_loop (sz - nat bsz) (db'\<lparr>db_offset := 0\<rparr>) mp' \<bind> (\<lambda>(bytes, r).
             Some (drop (db_offset db) current @ bytes, r)))))"

definition databuffer_read ::
    "nat \<Rightarrow> databuffer \<Rightarrow> messagepool \<Rightarrow> (u8 list \<times> databuffer \<times> messagepool) option" where
  "databuffer_read sz db mp = do {
     c_assert (sz \<le> db_size db);
     read_loop sz (db\<lparr>db_size := db_size db - sz\<rparr>) mp }"

definition databuffer_push :: "u8 list \<Rightarrow> databuffer \<Rightarrow> messagepool \<Rightarrow> (databuffer \<times> messagepool) option" where
  "databuffer_push data db mp = do {
     let mp' = (if 0 < mp_freelist mp then mp\<lparr>mp_freelist := mp_freelist mp - 1\<rparr>
                else mp\<lparr>mp_pool := mp_pool mp + 1, mp_freelist := MESSAGEPOOL - 1\<rparr>);
     sz \<leftarrow> c_nat (db_size db + length data);
     Some (db\<lparr>db_size := sz, db_msgs := db_msgs db @ [data]\<rparr>, mp') }"

text \<open>
  The big-endian length in the bytes of a header. The shift of a byte above 127 by 24 gives a negative
  \<^verbatim>\<open>int\<close> with every compiler the build supports.
\<close>

definition header_value :: "nat \<Rightarrow> u8 list \<Rightarrow> int" where
  "header_value header_size plen = (if header_size = 2
     then int (unat (plen ! 0)) * 2 ^ 8 + int (unat (plen ! 1))
     else sint (of_int (int (unat (plen ! 0)) * 2 ^ 24 + int (unat (plen ! 1)) * 2 ^ 16 +
            int (unat (plen ! 2)) * 2 ^ 8 + int (unat (plen ! 3))) :: u32))"

definition databuffer_readheader ::
    "nat \<Rightarrow> databuffer \<Rightarrow> messagepool \<Rightarrow> (int \<times> databuffer \<times> messagepool) option" where
  "databuffer_readheader header_size db mp =
     (if db_header db = 0 then
        (if db_size db < header_size then Some (-1, db, mp)
         else do {
           (plen, db, mp) \<leftarrow> databuffer_read header_size db mp;
           let db = db\<lparr>db_header := header_value header_size plen\<rparr>;
           Some (if int (db_size db) < db_header db then -1 else db_header db, db, mp) })
      else Some (if int (db_size db) < db_header db then -1 else db_header db, db, mp))"

definition databuffer_reset :: "databuffer \<Rightarrow> databuffer" where
  "databuffer_reset db = db\<lparr>db_header := 0\<rparr>"

partial_function (option) clear_loop :: "databuffer \<Rightarrow> messagepool \<Rightarrow> (databuffer \<times> messagepool) option" where
  "clear_loop db mp =
     (if db_msgs db \<noteq> [] then return_message db mp \<bind> (\<lambda>(db', mp'). clear_loop db' mp')
      else Some (db, mp))"

definition databuffer_clear :: "databuffer \<Rightarrow> messagepool \<Rightarrow> (databuffer \<times> messagepool) option" where
  "databuffer_clear db mp = do {
     (db, mp) \<leftarrow> clear_loop db mp;
     Some (databuffer_new, mp) }"

section \<open>The unread bytes\<close>

definition db_bytes :: "databuffer \<Rightarrow> u8 list" where
  "db_bytes db = drop (db_offset db) (concat (db_msgs db))"

fun off_ok :: "nat \<Rightarrow> 'a list list \<Rightarrow> bool" where
  "off_ok n [] = (n = 0)"
| "off_ok n (m # ms) = (n \<le> length m)"

lemma off_ok_0 [simp]: "off_ok 0 ms" by (cases ms) simp_all

lemma off_ok_snoc: "off_ok n ms \<Longrightarrow> off_ok n (ms @ [m])" by (cases ms) simp_all

lemma off_ok_le: "off_ok n ms \<Longrightarrow> n \<le> length (concat ms)" by (cases ms) simp_all

definition db_wf :: "databuffer \<Rightarrow> bool" where
  "db_wf db \<longleftrightarrow> db_size db = length (db_bytes db) \<and> off_ok (db_offset db) (db_msgs db)"

text \<open>
  The nodes of the pool: those of this buffer, those that other buffers use, and the free ones make up
  the blocks that were allocated.
\<close>

definition pool_ok :: "nat \<Rightarrow> databuffer \<Rightarrow> messagepool \<Rightarrow> bool" where
  "pool_ok others db mp \<longleftrightarrow> mp_freelist mp + length (db_msgs db) + others = MESSAGEPOOL * mp_pool mp"

lemma databuffer_new_wf [simp, wf_intros]: "db_wf databuffer_new" "db_bytes databuffer_new = []"
  by (simp_all add: db_wf_def databuffer_new_def db_bytes_def)

lemma databuffer_push_bytes:
  assumes "db_wf db" "pool_ok k db mp" "db_size db + length data \<le> INT_MAX"
  shows "\<exists>db' mp'. databuffer_push data db mp = Some (db', mp') \<and> db_wf db' \<and> pool_ok k db' mp' \<and>
    db_bytes db' = db_bytes db @ data \<and> db_header db' = db_header db"
proof -
  have "off_ok (db_offset db) (db_msgs db @ [data])" "db_offset db \<le> length (concat (db_msgs db))"
    using assms(1) by (simp_all add: db_wf_def off_ok_snoc off_ok_le)
  with assms show ?thesis
    by (auto simp: databuffer_push_def db_wf_def db_bytes_def pool_ok_def MESSAGEPOOL_def)
qed

text \<open>Reading takes the first bytes, whatever packets they came in.\<close>

lemma read_loop_bytes:
  assumes "db_msgs db \<noteq> []" "off_ok (db_offset db) (db_msgs db)"
    "n \<le> length (db_bytes db)" "pool_ok k db mp"
  shows "\<exists>db' mp'. read_loop n db mp = Some (take n (db_bytes db), db', mp') \<and>
    db_bytes db' = drop n (db_bytes db) \<and> pool_ok k db' mp' \<and> db_size db' = db_size db \<and>
    db_header db' = db_header db \<and> off_ok (db_offset db') (db_msgs db')"
  using assms
proof (induction "db_msgs db" arbitrary: n db mp)
  case (Cons m ms)
  note msgs = Cons.hyps(2) [symmetric]
  let ?o = "db_offset db"
  have o: "?o \<le> length m" using Cons.prems(2) by (simp add: msgs)
  have bytes: "db_bytes db = drop ?o m @ concat ms" using o by (simp add: db_bytes_def msgs)
  consider "n < length m - ?o" | "n = length m - ?o" | "length m - ?o < n" by linarith
  then show ?case
  proof cases
    case 1
    then show ?thesis using o Cons.prems(4)
      by (subst read_loop.simps) (auto simp: msgs bytes db_bytes_def pool_ok_def add.commute Let_def)
  next
    case 2
    then show ?thesis using o Cons.prems(4)
      by (subst read_loop.simps)
        (auto simp: msgs bytes db_bytes_def pool_ok_def return_message_def of_nat_diff Let_def)
  next
    case 3
    let ?db = "db\<lparr>db_msgs := ms, db_offset := 0\<rparr>" and ?mp = "mp\<lparr>mp_freelist := mp_freelist mp + 1\<rparr>"
    let ?n = "n - (length m - ?o)"
    have b: "db_bytes ?db = concat ms" by (simp add: db_bytes_def)
    have "ms \<noteq> []" using 3 Cons.prems(3) by (auto simp: bytes)
    then have "db_msgs ?db \<noteq> []" "off_ok (db_offset ?db) (db_msgs ?db)" by simp_all
    moreover have "?n \<le> length (db_bytes ?db)" using Cons.prems(3) by (simp add: bytes b)
    moreover have "pool_ok k ?db ?mp" using Cons.prems(4) by (simp add: pool_ok_def msgs)
    ultimately obtain db' mp' where IH: "read_loop ?n ?db ?mp = Some (take ?n (db_bytes ?db), db', mp')"
        "db_bytes db' = drop ?n (db_bytes ?db)" "pool_ok k db' mp'" "db_size db' = db_size db"
        "db_header db' = db_header db" "off_ok (db_offset db') (db_msgs db')"
      using Cons.hyps(1) [of ?db ?n ?mp] by auto
    have bsz: "int (length m) - int ?o = int (length m - ?o)" using o by simp
    have "read_loop n db mp = Some (drop ?o m @ take ?n (concat ms), db', mp')"
      using 3 IH(1) b by (subst read_loop.simps) (simp add: msgs bsz return_message_def Let_def)
    with IH 3 show ?thesis by (auto simp: bytes b)
  qed
qed simp

lemma databuffer_read_bytes:
  assumes "db_wf db" "pool_ok k db mp" "0 < n" "n \<le> length (db_bytes db)"
  shows "\<exists>db' mp'. databuffer_read n db mp = Some (take n (db_bytes db), db', mp') \<and> db_wf db' \<and> pool_ok k db' mp' \<and>
    db_bytes db' = drop n (db_bytes db) \<and> db_header db' = db_header db"
proof -
  let ?db = "db\<lparr>db_size := db_size db - n\<rparr>"
  have b: "db_bytes ?db = db_bytes db" by (simp add: db_bytes_def)
  have "db_msgs ?db \<noteq> []" "off_ok (db_offset ?db) (db_msgs ?db)"
    using assms by (auto simp: db_bytes_def db_wf_def)
  moreover have "pool_ok k ?db mp" using assms(2) by (simp add: pool_ok_def)
  ultimately obtain db' mp' where "read_loop n ?db mp = Some (take n (db_bytes db), db', mp')"
      "db_bytes db' = drop n (db_bytes db)" "pool_ok k db' mp'" "db_size db' = db_size db - n"
      "db_header db' = db_header db" "off_ok (db_offset db') (db_msgs db')"
    using read_loop_bytes [of ?db n k mp] assms(4) b by auto
  with assms show ?thesis by (auto simp: databuffer_read_def db_wf_def)
qed

lemma clear_loop_ok:
  "pool_ok k db mp \<Longrightarrow> \<exists>db' mp'. clear_loop db mp = Some (db', mp') \<and> db_msgs db' = [] \<and> pool_ok k db' mp'"
proof (induction "db_msgs db" arbitrary: db mp)
  case Nil
  then show ?case by (subst clear_loop.simps) simp
next
  case (Cons m ms)
  note msgs = Cons.hyps(2) [symmetric]
  let ?db = "db\<lparr>db_msgs := ms\<rparr>" and ?mp = "mp\<lparr>mp_freelist := mp_freelist mp + 1\<rparr>"
  have "pool_ok k ?db ?mp" using Cons.prems by (simp add: pool_ok_def msgs)
  from Cons.hyps(1) [OF _ this] show ?case
    by (subst clear_loop.simps) (simp add: msgs return_message_def)
qed

lemma databuffer_clear_ok:
  "pool_ok k db mp \<Longrightarrow> \<exists>mp'. databuffer_clear db mp = Some (databuffer_new, mp') \<and> pool_ok k databuffer_new mp'"
  using clear_loop_ok [of k db mp] by (auto simp: databuffer_clear_def pool_ok_def databuffer_new_def)

section \<open>The frame header\<close>

text \<open>What \<^verbatim>\<open>databuffer_readheader\<close> does to the header known so far and the unread bytes, and what it returns.\<close>

definition hdr_step :: "nat \<Rightarrow> int \<times> u8 list \<Rightarrow> int \<times> u8 list" where
  "hdr_step hs = (\<lambda>(h, bs). if h = 0 \<and> hs \<le> length bs then (header_value hs (take hs bs), drop hs bs) else (h, bs))"

definition hdr_result :: "nat \<Rightarrow> int \<times> u8 list \<Rightarrow> int" where
  "hdr_result hs s = (if fst s = 0 \<and> length (snd s) < hs then -1
     else if int (length (snd (hdr_step hs s))) < fst (hdr_step hs s) then -1 else fst (hdr_step hs s))"

definition db_view :: "databuffer \<Rightarrow> int \<times> u8 list" where
  "db_view db = (db_header db, db_bytes db)"

lemma db_wf_header [simp]: "db_wf (db\<lparr>db_header := h\<rparr>) = db_wf db" "db_bytes (db\<lparr>db_header := h\<rparr>) = db_bytes db"
    "pool_ok k (db\<lparr>db_header := h\<rparr>) mp = pool_ok k db mp"
  by (simp_all add: db_wf_def db_bytes_def pool_ok_def)

lemma databuffer_readheader_view:
  assumes "db_wf db" "pool_ok k db mp" "0 < hs"
  shows "\<exists>db' mp'. databuffer_readheader hs db mp = Some (hdr_result hs (db_view db), db', mp') \<and>
    db_wf db' \<and> pool_ok k db' mp' \<and> db_view db' = hdr_step hs (db_view db)"
proof (cases "db_header db = 0 \<and> hs \<le> length (db_bytes db)")
  case True
  with databuffer_read_bytes [OF assms(1,2,3)] obtain db1 mp1 where r:
    "databuffer_read hs db mp = Some (take hs (db_bytes db), db1, mp1)" "db_wf db1" "pool_ok k db1 mp1"
    "db_bytes db1 = drop hs (db_bytes db)" "db_header db1 = db_header db" by blast
  have sz: "db_size db = length (db_bytes db)" "db_size db1 = length (db_bytes db1)"
    using assms(1) r(2) by (simp_all add: db_wf_def)
  with True r show ?thesis
    by (simp add: databuffer_readheader_def hdr_result_def hdr_step_def db_view_def Let_def)
next
  case False
  have "db_size db = length (db_bytes db)" using assms(1) by (simp add: db_wf_def)
  with False assms show ?thesis
    by (auto simp: databuffer_readheader_def hdr_result_def hdr_step_def db_view_def not_le)
qed

lemma databuffer_reset_view:
  "db_wf (databuffer_reset db) = db_wf db" "pool_ok k (databuffer_reset db) mp = pool_ok k db mp"
  "db_view (databuffer_reset db) = (0, db_bytes db)"
  by (simp_all add: databuffer_reset_def db_view_def)

lemma header_value_2: "0 \<le> header_value 2 bs \<and> header_value 2 bs < 2 ^ 16"
proof -
  have "int (unat w) \<le> 255" for w :: u8
  proof -
    have "uint w < 2 ^ LENGTH(8)" by (rule unsigned_less)
    then show ?thesis by simp
  qed
  from this [of "bs ! 0"] this [of "bs ! 1"] show ?thesis by (simp add: header_value_def)
qed

end
