(* ===== verification/Hashid.thy ===== *)
theory Hashid
  imports Prelude
begin

text \<open>
  The hash map from socket ids to small indices of \<^verbatim>\<open>service-src/hashid.h\<close>: an array of nodes, one per
  index, chained by their position in the array (the pointers of the code), and an array of heads. Its
  contract is the locale \<^verbatim>\<open>idmap\<close>: a finite injective map with a bounded number of indices.
\<close>

section \<open>State and operations\<close>

record hashid_node =
  node_id :: int
  node_next :: "nat option"

record hashid =
  hashmod :: nat
  hi_cap :: nat
  hi_count :: nat
  hi_id :: "hashid_node list"
  hi_hash :: "nat option list"

function hash_capacity :: "nat \<Rightarrow> nat \<Rightarrow> nat option" where
  "hash_capacity hashcap limit =
     (if hashcap < limit then (if 0 < hashcap \<and> 2 * hashcap \<le> INT_MAX then hash_capacity (hashcap * 2) limit else None)
      else Some hashcap)"
  by pat_completeness auto
termination
  by (relation "measure (\<lambda>(c, m). m - c)") auto

declare hash_capacity.simps [simp del]

definition hashid_init :: "nat \<Rightarrow> hashid option" where
  "hashid_init limit = do {
     hashcap \<leftarrow> hash_capacity 16 limit;
     Some \<lparr>hashmod = hashcap - 1, hi_cap = limit, hi_count = 0,
       hi_id = replicate limit \<lparr>node_id = -1, node_next = None\<rparr>, hi_hash = replicate hashcap None\<rparr> }"

definition hashid_clear :: "hashid \<Rightarrow> hashid" where
  "hashid_clear hi = \<lparr>hashmod = 1, hi_cap = 0, hi_count = 0, hi_id = [], hi_hash = []\<rparr>"

text \<open>\<^verbatim>\<open>id & hashmod\<close>; the result of the \<^verbatim>\<open>int\<close> operation is not negative.\<close>

definition id_hash :: "hashid \<Rightarrow> int \<Rightarrow> nat" where
  "id_hash hi fd = nat (fd AND int (hashmod hi))"

partial_function (option) lookup_chain :: "hashid_node list \<Rightarrow> int \<Rightarrow> nat option \<Rightarrow> int option" where
  "lookup_chain ns fd c = (case c of None \<Rightarrow> Some (-1)
     | Some i \<Rightarrow> c_index ns i \<bind> (\<lambda>n.
         if node_id n = fd then Some (int i) else lookup_chain ns fd (node_next n)))"

definition hashid_lookup :: "hashid \<Rightarrow> int \<Rightarrow> int option" where
  "hashid_lookup hi fd = do {
     c \<leftarrow> c_index (hi_hash hi) (id_hash hi fd);
     lookup_chain (hi_id hi) fd c }"

text \<open>The part of \<^verbatim>\<open>hashid_remove\<close> after the label \<^verbatim>\<open>_clear\<close>.\<close>

definition clear_node :: "nat \<Rightarrow> hashid \<Rightarrow> (int \<times> hashid) option" where
  "clear_node c hi = do {
     ns \<leftarrow> c_update (hi_id hi) c \<lparr>node_id = -1, node_next = None\<rparr>;
     Some (int c, hi\<lparr>hi_id := ns, hi_count := hi_count hi - 1\<rparr>) }"

text \<open>The loop of \<^verbatim>\<open>hashid_remove\<close>: \<^verbatim>\<open>c\<close> is a node whose own id is another one.\<close>

partial_function (option) remove_chain :: "int \<Rightarrow> nat \<Rightarrow> hashid \<Rightarrow> (int \<times> hashid) option" where
  "remove_chain fd c hi =
     c_index (hi_id hi) c \<bind> (\<lambda>n. case node_next n of None \<Rightarrow> Some (-1, hi)
       | Some t \<Rightarrow> c_index (hi_id hi) t \<bind> (\<lambda>temp.
           if node_id temp = fd
           then clear_node t (hi\<lparr>hi_id := (hi_id hi)[c := n\<lparr>node_next := node_next temp\<rparr>]\<rparr>)
           else remove_chain fd t hi))"

definition hashid_remove :: "hashid \<Rightarrow> int \<Rightarrow> (int \<times> hashid) option" where
  "hashid_remove hi fd = do {
     let h = id_hash hi fd;
     c \<leftarrow> c_index (hi_hash hi) h;
     case c of None \<Rightarrow> Some (-1, hi)
     | Some i \<Rightarrow> do {
         n \<leftarrow> c_index (hi_id hi) i;
         if node_id n = fd then clear_node i (hi\<lparr>hi_hash := (hi_hash hi)[h := node_next n]\<rparr>)
         else remove_chain fd i hi } }"

text \<open>The search of \<^verbatim>\<open>hashid_insert\<close> for a free node, from \<^verbatim>\<open>id % cap\<close> on. A negative id would give
  a negative index, and a sum above \<^verbatim>\<open>INT_MAX\<close> overflows.\<close>

fun find_free :: "hashid_node list \<Rightarrow> nat \<Rightarrow> nat \<Rightarrow> nat \<Rightarrow> nat option" where
  "find_free ns cap fd 0 = None"
| "find_free ns cap fd (Suc k) =
     (let index = (cap - Suc k + fd) mod cap in
      if INT_MAX < cap - Suc k + fd then None
      else if index < length ns \<and> node_id (ns ! index) = -1 then Some index else find_free ns cap fd k)"

definition hashid_insert :: "hashid \<Rightarrow> int \<Rightarrow> (int \<times> hashid) option" where
  "hashid_insert hi fd = do {
     c_assert (0 \<le> fd);
     c \<leftarrow> find_free (hi_id hi) (hi_cap hi) (nat fd) (hi_cap hi);
     n \<leftarrow> c_index (hi_id hi) c;
     c_assert (node_next n = None);
     let h = id_hash hi fd;
     head \<leftarrow> c_index (hi_hash hi) h;
     Some (int c, hi\<lparr>hi_count := hi_count hi + 1, hi_id := (hi_id hi)[c := \<lparr>node_id = fd, node_next = head\<rparr>],
       hi_hash := (hi_hash hi)[h := Some c]\<rparr>) }"

definition hashid_full :: "hashid \<Rightarrow> bool" where
  "hashid_full hi \<longleftrightarrow> hi_count hi = hi_cap hi"

section \<open>Chains\<close>

fun chain :: "hashid_node list \<Rightarrow> nat option \<Rightarrow> nat list \<Rightarrow> bool" where
  "chain ns c [] = (c = None)"
| "chain ns c (i # is) = (c = Some i \<and> i < length ns \<and> chain ns (node_next (ns ! i)) is)"

lemma chain_cong:
  "chain ns c is \<Longrightarrow> length ms = length ns \<Longrightarrow> (\<And>i. i \<in> set is \<Longrightarrow> node_next (ms ! i) = node_next (ns ! i)) \<Longrightarrow> chain ms c is"
  by (induction "is" arbitrary: c) auto

lemma chain_bound: "chain ns c is \<Longrightarrow> i \<in> set is \<Longrightarrow> i < length ns"
  by (induction "is" arbitrary: c) auto

lemma lookup_chain_find:
  "chain ns c is \<Longrightarrow> lookup_chain ns fd c = Some (case find (\<lambda>i. node_id (ns ! i) = fd) is of None \<Rightarrow> -1 | Some i \<Rightarrow> int i)"
proof (induction "is" arbitrary: c)
  case Nil
  then show ?case by (subst lookup_chain.simps) simp
next
  case (Cons i "is")
  then show ?case by (subst lookup_chain.simps) simp
qed

text \<open>Removal from a chain behind its first node.\<close>

definition cleared :: "hashid_node list \<Rightarrow> hashid_node list \<Rightarrow> nat \<Rightarrow> nat list \<Rightarrow> bool" where
  "cleared ns ns' t is \<longleftrightarrow> length ns' = length ns \<and> ns' ! t = \<lparr>node_id = -1, node_next = None\<rparr> \<and>
     (\<forall>j. j \<noteq> t \<longrightarrow> node_id (ns' ! j) = node_id (ns ! j)) \<and> (\<forall>j. j \<notin> set is \<longrightarrow> ns' ! j = ns ! j)"

lemma remove_chain_hit:
  assumes ch: "chain (hi_id hi) (Some c) (c # t # is)" and d: "distinct (c # t # is)"
    and hit: "node_id (hi_id hi ! t) = fd"
  shows "\<exists>ns'. remove_chain fd c hi = Some (int t, hi\<lparr>hi_id := ns', hi_count := hi_count hi - 1\<rparr>) \<and>
    cleared (hi_id hi) ns' t (c # t # is) \<and> chain ns' (Some c) (c # is)"
proof -
  let ?ns = "hi_id hi"
  have nx: "node_next (?ns ! c) = Some t" "c < length ?ns" "t < length ?ns" "chain ?ns (node_next (?ns ! t)) is"
    using ch by auto
  have ct: "c \<noteq> t" using d by simp
  define ns1 where "ns1 = ?ns[c := (?ns ! c)\<lparr>node_next := node_next (?ns ! t)\<rparr>]"
  define ns' where "ns' = ns1[t := \<lparr>node_id = -1, node_next = None\<rparr>]"
  have r: "remove_chain fd c hi = Some (int t, hi\<lparr>hi_id := ns', hi_count := hi_count hi - 1\<rparr>)"
    using nx hit by (subst remove_chain.simps) (simp add: clear_node_def ns1_def ns'_def)
  have len: "length ns' = length ?ns" by (simp add: ns'_def ns1_def)
  have at: "ns' ! j = (if j = t then \<lparr>node_id = -1, node_next = None\<rparr>
      else if j = c then (?ns ! c)\<lparr>node_next := node_next (?ns ! t)\<rparr> else ?ns ! j)" for j
    using nx ct by (simp add: ns'_def ns1_def nth_list_update)
  have "cleared ?ns ns' t (c # t # is)" using len at by (simp add: cleared_def)
  moreover have "chain ns' (node_next (?ns ! t)) is"
    using d by (intro chain_cong [OF nx(4) len]) (auto simp: at)
  then have "chain ns' (Some c) (c # is)" using nx ct len by (simp add: at)
  ultimately show ?thesis using r by blast
qed

lemma remove_chain_find:
  assumes "chain (hi_id hi) (Some c) (c # is)" "distinct (c # is)"
  shows "find (\<lambda>i. node_id (hi_id hi ! i) = fd) is = None \<Longrightarrow> remove_chain fd c hi = Some (-1, hi)"
    and "find (\<lambda>i. node_id (hi_id hi ! i) = fd) is = Some t \<Longrightarrow>
      \<exists>ns'. remove_chain fd c hi = Some (int t, hi\<lparr>hi_id := ns', hi_count := hi_count hi - 1\<rparr>) \<and>
        cleared (hi_id hi) ns' t (c # is) \<and> chain ns' (Some c) (c # remove1 t is)"
  using assms
proof (induction "is" arbitrary: c)
  case Nil
  case 1
  then show ?case by (subst remove_chain.simps) simp
next
  case Nil
  case 2
  then show ?case by simp
next
  case (Cons u "is")
  case 1
  then have nx: "node_next (hi_id hi ! c) = Some u" "c < length (hi_id hi)" "u < length (hi_id hi)"
      "chain (hi_id hi) (Some u) (u # is)" "distinct (u # is)" by auto
  with 1 have "remove_chain fd c hi = remove_chain fd u hi"
    by (subst remove_chain.simps) (simp split: if_splits)
  with Cons(1) [OF _ nx(4,5)] 1(1) show ?case by (simp split: if_splits)
next
  case (Cons u "is")
  case 2
  then have nx: "node_next (hi_id hi ! c) = Some u" "c < length (hi_id hi)" "u < length (hi_id hi)"
      "chain (hi_id hi) (Some u) (u # is)" "distinct (u # is)" by auto
  show ?case
  proof (cases "node_id (hi_id hi ! u) = fd")
    case True
    with 2(1) have "t = u" by simp
    with remove_chain_hit [OF 2(2,3) True] show ?thesis by simp
  next
    case False
    with 2(1) have f: "find (\<lambda>i. node_id (hi_id hi ! i) = fd) is = Some t" by simp
    then have t: "t \<in> set is" by (auto simp: find_Some_iff)
    have step: "remove_chain fd c hi = remove_chain fd u hi"
      using nx False by (subst remove_chain.simps) simp
    from Cons(2) [OF f nx(4,5)] obtain ns' where
      ns': "remove_chain fd u hi = Some (int t, hi\<lparr>hi_id := ns', hi_count := hi_count hi - 1\<rparr>)"
        "cleared (hi_id hi) ns' t (u # is)" "chain ns' (Some u) (u # remove1 t is)" by blast
    have "cleared (hi_id hi) ns' t (c # u # is)" using ns'(2) by (simp add: cleared_def)
    moreover have "ns' ! c = hi_id hi ! c" "length ns' = length (hi_id hi)"
      using ns'(2) 2(3) by (simp_all add: cleared_def)
    then have "chain ns' (Some c) (c # u # remove1 t is)" using ns'(3) nx by simp
    moreover have "remove1 t (u # is) = u # remove1 t is" using t 2(3) by auto
    ultimately show ?thesis unfolding step using ns'(1) by metis
  qed
qed

section \<open>The invariant\<close>

text \<open>The index of an id, and the invariant: \<^verbatim>\<open>B\<close> names the nodes in each chain.\<close>

definition hid_map :: "hashid \<Rightarrow> int \<Rightarrow> nat option" where
  "hid_map hi fd = (if fd = -1 then None else find (\<lambda>i. node_id (hi_id hi ! i) = fd) [0..<hi_cap hi])"

definition in_use :: "hashid \<Rightarrow> nat set" where
  "in_use hi = {i. i < hi_cap hi \<and> node_id (hi_id hi ! i) \<noteq> -1}"

definition hi_shape :: "hashid \<Rightarrow> bool" where
  "hi_shape hi \<longleftrightarrow> length (hi_hash hi) = hashmod hi + 1 \<and> length (hi_id hi) = hi_cap hi \<and> hi_count hi = card (in_use hi)"

definition hi_nodes :: "hashid \<Rightarrow> bool" where
  "hi_nodes hi \<longleftrightarrow> (\<forall>i < hi_cap hi. node_id (hi_id hi ! i) = -1 \<longrightarrow> node_next (hi_id hi ! i) = None) \<and>
     (\<forall>i \<in> in_use hi. \<forall>j \<in> in_use hi. node_id (hi_id hi ! i) = node_id (hi_id hi ! j) \<longrightarrow> i = j)"

definition hi_chains :: "hashid \<Rightarrow> (nat \<Rightarrow> nat list) \<Rightarrow> bool" where
  "hi_chains hi B \<longleftrightarrow> (\<forall>h \<le> hashmod hi. chain (hi_id hi) (hi_hash hi ! h) (B h) \<and> distinct (B h) \<and>
     set (B h) = {i \<in> in_use hi. id_hash hi (node_id (hi_id hi ! i)) = h})"

definition hi_wf :: "hashid \<Rightarrow> bool" where
  "hi_wf hi \<longleftrightarrow> hi_shape hi \<and> hi_nodes hi \<and> (\<exists>B. hi_chains hi B)"

lemma id_hash_bound: "id_hash hi fd \<le> hashmod hi"
  by (simp add: id_hash_def AND_upper2 nat_le_iff)

lemma id_hash_cong: "hashmod hi' = hashmod hi \<Longrightarrow> id_hash hi' fd = id_hash hi fd"
  by (simp add: id_hash_def)

lemma finite_in_use [simp]: "finite (in_use hi)"
  by (simp add: in_use_def)

lemma hid_map_iff:
  assumes "hi_nodes hi"
  shows "hid_map hi fd = Some i \<longleftrightarrow> i \<in> in_use hi \<and> node_id (hi_id hi ! i) = fd"
proof
  assume "hid_map hi fd = Some i"
  then show "i \<in> in_use hi \<and> node_id (hi_id hi ! i) = fd"
    by (auto simp: hid_map_def in_use_def find_Some_iff split: if_splits)
next
  assume a: "i \<in> in_use hi \<and> node_id (hi_id hi ! i) = fd"
  then have n: "hid_map hi fd \<noteq> None" by (auto simp: hid_map_def in_use_def find_None_iff)
  then obtain j where j: "hid_map hi fd = Some j" by blast
  then have "j \<in> in_use hi" "node_id (hi_id hi ! j) = fd"
    by (auto simp: hid_map_def in_use_def find_Some_iff split: if_splits)
  with a assms j show "hid_map hi fd = Some i" by (auto simp: hi_nodes_def)
qed

lemma hid_map_None: "hi_nodes hi \<Longrightarrow> hid_map hi fd = None \<longleftrightarrow> (\<forall>i \<in> in_use hi. node_id (hi_id hi ! i) \<noteq> fd)"
  using hid_map_iff [of hi fd] by (metis not_Some_eq)

text \<open>The chain of an id holds its index when it has one.\<close>

lemma chain_find:
  assumes "hi_nodes hi" "hi_chains hi B"
  shows "find (\<lambda>i. node_id (hi_id hi ! i) = fd) (B (id_hash hi fd)) = hid_map hi fd"
proof (cases "hid_map hi fd")
  case None
  then have "\<forall>i \<in> in_use hi. node_id (hi_id hi ! i) \<noteq> fd" using hid_map_None [OF assms(1)] by simp
  moreover have "set (B (id_hash hi fd)) \<subseteq> in_use hi"
    using assms(2) id_hash_bound unfolding hi_chains_def by blast
  ultimately show ?thesis using None by (auto simp: find_None_iff)
next
  case (Some i)
  then have i: "i \<in> in_use hi" "node_id (hi_id hi ! i) = fd" using hid_map_iff [OF assms(1)] by auto
  then have "i \<in> set (B (id_hash hi fd))" using assms(2) id_hash_bound [of hi fd] by (simp add: hi_chains_def)
  then have "find (\<lambda>i. node_id (hi_id hi ! i) = fd) (B (id_hash hi fd)) \<noteq> None" using i by (auto simp: find_None_iff)
  then obtain j where j: "find (\<lambda>i. node_id (hi_id hi ! i) = fd) (B (id_hash hi fd)) = Some j" by blast
  then have "j \<in> set (B (id_hash hi fd))" "node_id (hi_id hi ! j) = fd" by (auto simp: find_Some_iff)
  then have "hid_map hi fd = Some j"
    using assms id_hash_bound [of hi fd] hid_map_iff [OF assms(1)] by (simp add: hi_chains_def)
  with j Some show ?thesis by simp
qed

lemma hashid_lookup_map:
  assumes "hi_wf hi"
  shows "hashid_lookup hi fd = Some (case hid_map hi fd of None \<Rightarrow> -1 | Some i \<Rightarrow> int i)"
proof -
  from assms obtain B where B: "hi_shape hi" "hi_nodes hi" "hi_chains hi B" by (auto simp: hi_wf_def)
  have b: "id_hash hi fd < length (hi_hash hi)" using B(1) id_hash_bound [of hi fd] by (simp add: hi_shape_def)
  have "chain (hi_id hi) (hi_hash hi ! id_hash hi fd) (B (id_hash hi fd))"
    using B(3) id_hash_bound by (simp add: hi_chains_def)
  from lookup_chain_find [OF this, of fd] b show ?thesis
    by (simp add: hashid_lookup_def chain_find [OF B(2,3)])
qed

section \<open>Insertion and removal\<close>

lemma find_free_ok:
  assumes "length ns = cap" "fd + cap \<le> INT_MAX" "k \<le> cap"
    and "\<exists>x. cap - k + fd \<le> x \<and> x < cap + fd \<and> node_id (ns ! (x mod cap)) = -1"
  shows "\<exists>i. find_free ns cap fd k = Some i \<and> i < cap \<and> node_id (ns ! i) = -1"
  using assms(3,4)
proof (induction k)
  case (Suc k)
  let ?i = "(cap - Suc k + fd) mod cap"
  have "0 < cap" using Suc.prems by simp
  then have i: "?i < cap" by simp
  have nb: "\<not> INT_MAX < cap - Suc k + fd" using assms(2) by linarith
  show ?case
  proof (cases "node_id (ns ! ?i) = -1")
    case True
    with i nb assms(1) show ?thesis by (simp add: Let_def)
  next
    case False
    obtain x where x: "cap - Suc k + fd \<le> x" "x < cap + fd" "node_id (ns ! (x mod cap)) = -1" using Suc.prems(2) by blast
    then have "x \<noteq> cap - Suc k + fd" using False by auto
    with x have "cap - k + fd \<le> x" using Suc.prems(1) by linarith
    with Suc.IH x(2,3) Suc.prems(1) have "\<exists>i. find_free ns cap fd k = Some i \<and> i < cap \<and> node_id (ns ! i) = -1" by auto
    with False i nb assms(1) show ?thesis by (simp add: Let_def)
  qed
qed auto

lemma free_index:
  assumes "hi_shape hi" "\<not> hashid_full hi" "fd + hi_cap hi \<le> INT_MAX"
  shows "\<exists>i. find_free (hi_id hi) (hi_cap hi) fd (hi_cap hi) = Some i \<and> i < hi_cap hi \<and> i \<notin> in_use hi"
proof -
  let ?c = "hi_cap hi"
  have "\<exists>i < ?c. i \<notin> in_use hi"
  proof (rule ccontr)
    assume "\<not> ?thesis"
    then have "in_use hi = {..<?c}" by (auto simp: in_use_def)
    then show False using assms(1,2) by (simp add: hi_shape_def hashid_full_def)
  qed
  then obtain i where i: "i < ?c" "i \<notin> in_use hi" by blast
  then have "i \<in> (\<lambda>x. x mod ?c) ` {fd ..< fd + ?c}" using consecutive_residues [of ?c fd] by simp
  then obtain x where x: "fd \<le> x" "x < ?c + fd" "x mod ?c = i" by auto
  then have "node_id (hi_id hi ! (x mod ?c)) = -1" using i by (simp add: in_use_def)
  with x(1,2) have e: "\<exists>x. ?c - ?c + fd \<le> x \<and> x < ?c + fd \<and> node_id (hi_id hi ! (x mod ?c)) = -1" by auto
  have l: "length (hi_id hi) = ?c" using assms(1) by (simp add: hi_shape_def)
  from find_free_ok [OF l assms(3) order_refl e] show ?thesis by (auto simp: in_use_def)
qed

lemma hi_wf_chainsE:
  assumes "hi_wf hi"
  obtains B where "hi_shape hi" "hi_nodes hi" "hi_chains hi B"
  using assms by (auto simp: hi_wf_def)

lemma hi_chainsD:
  assumes "hi_chains hi B" "h \<le> hashmod hi"
  shows "chain (hi_id hi) (hi_hash hi ! h) (B h)" "distinct (B h)"
    "set (B h) = {i \<in> in_use hi. id_hash hi (node_id (hi_id hi ! i)) = h}"
  using assms by (auto simp: hi_chains_def)

lemma insert_wf:
  assumes wf: "hi_shape hi" "hi_nodes hi" "hi_chains hi B" and fd: "fd \<noteq> -1" "hid_map hi fd = None"
    and i: "i < hi_cap hi" "i \<notin> in_use hi"
  defines "h \<equiv> id_hash hi fd"
  defines "hi' \<equiv> hi\<lparr>hi_count := hi_count hi + 1,
    hi_id := (hi_id hi)[i := \<lparr>node_id = fd, node_next = hi_hash hi ! h\<rparr>], hi_hash := (hi_hash hi)[h := Some i]\<rparr>"
  shows "hi_wf hi'" and "hid_map hi' = (hid_map hi)(fd \<mapsto> i)" and "in_use hi' = insert i (in_use hi)"
proof -
  have len: "length (hi_id hi) = hi_cap hi" "length (hi_hash hi) = hashmod hi + 1"
    and cnt: "hi_count hi = card (in_use hi)" using wf(1) by (auto simp: hi_shape_def)
  have at: "hi_id hi' ! j = (if j = i then \<lparr>node_id = fd, node_next = hi_hash hi ! h\<rparr> else hi_id hi ! j)" for j
    using i len by (simp add: hi'_def nth_list_update)
  have len': "length (hi_id hi') = length (hi_id hi)" by (simp add: hi'_def)
  have hash: "id_hash hi' x = id_hash hi x" for x by (simp add: id_hash_def hi'_def)
  show use: "in_use hi' = insert i (in_use hi)"
    using i fd(1) at by (auto simp: in_use_def hi'_def)
  have new: "\<forall>j \<in> in_use hi. node_id (hi_id hi ! j) \<noteq> fd" using hid_map_None [OF wf(2)] fd(2) by simp
  have shape': "hi_shape hi'" using len cnt i(2) unfolding hi_shape_def use by (simp add: hi'_def)
  have "node_id (hi_id hi' ! j) = -1 \<longrightarrow> node_next (hi_id hi' ! j) = None" if "j < hi_cap hi'" for j
    using that wf(2) fd(1) at unfolding hi_nodes_def by (auto simp: hi'_def)
  then have nodes': "hi_nodes hi'"
    using wf(2) new unfolding hi_nodes_def use at by (auto simp: i(2))
  let ?B = "B(h := i # B h)"
  have "chain (hi_id hi') (hi_hash hi' ! k) (?B k) \<and> distinct (?B k) \<and>
      set (?B k) = {j \<in> in_use hi'. id_hash hi' (node_id (hi_id hi' ! j)) = k}" if k: "k \<le> hashmod hi" for k
  proof -
    note ck = hi_chainsD [OF wf(3) k]
    have notin: "i \<notin> set (B k)" using ck(3) i(2) by simp
    have c: "chain (hi_id hi') (hi_hash hi ! k) (B k)"
      using notin by (intro chain_cong [OF ck(1) len']) (auto simp: at)
    have hk: "hi_hash hi' ! k = (if k = h then Some i else hi_hash hi ! k)"
      using k len by (simp add: hi'_def nth_list_update)
    have "set (?B k) = {j \<in> in_use hi'. id_hash hi' (node_id (hi_id hi' ! j)) = k}"
      unfolding use hash using ck(3) i(2) by (auto simp: at h_def split: if_splits)
    with c hk notin ck(2) i(1) len at show ?thesis by (auto simp: hi'_def)
  qed
  then have "hi_chains hi' ?B" unfolding hi_chains_def by (simp add: hi'_def)
  with shape' nodes' show "hi_wf hi'" by (auto simp: hi_wf_def)
  show "hid_map hi' = (hid_map hi)(fd \<mapsto> i)"
  proof
    fix x
    have "hid_map hi' x = Some j \<longleftrightarrow> ((hid_map hi)(fd \<mapsto> i)) x = Some j" for j
      using new i(2) hid_map_iff [OF nodes', of x j] hid_map_iff [OF wf(2), of x j] unfolding use at by auto
    then show "hid_map hi' x = ((hid_map hi)(fd \<mapsto> i)) x" by (metis not_Some_eq)
  qed
qed

lemma hashid_insert_map:
  assumes "hi_wf hi" "\<not> hashid_full hi" "0 \<le> fd" "nat fd + hi_cap hi \<le> INT_MAX" "hid_map hi fd = None"
  shows "\<exists>i hi'. hashid_insert hi fd = Some (int i, hi') \<and> hi_wf hi' \<and> hid_map hi' = (hid_map hi)(fd \<mapsto> i) \<and>
    i < hi_cap hi \<and> i \<notin> ran (hid_map hi) \<and> hi_cap hi' = hi_cap hi"
proof -
  from assms(1) obtain B where B: "hi_shape hi" "hi_nodes hi" "hi_chains hi B" by (rule hi_wf_chainsE)
  from free_index [OF B(1) assms(2,4)] obtain i where
    i: "find_free (hi_id hi) (hi_cap hi) (nat fd) (hi_cap hi) = Some i" "i < hi_cap hi" "i \<notin> in_use hi" by blast
  have fd: "fd \<noteq> -1" using assms(3) by simp
  have "node_next (hi_id hi ! i) = None" using B(2) i(2,3) by (auto simp: hi_nodes_def in_use_def)
  moreover have "id_hash hi fd < length (hi_hash hi)" "i < length (hi_id hi)"
    using B(1) id_hash_bound [of hi fd] i(2) by (simp_all add: hi_shape_def)
  ultimately have "hashid_insert hi fd = Some (int i, hi\<lparr>hi_count := hi_count hi + 1,
      hi_id := (hi_id hi)[i := \<lparr>node_id = fd, node_next = hi_hash hi ! id_hash hi fd\<rparr>],
      hi_hash := (hi_hash hi)[id_hash hi fd := Some i]\<rparr>)"
    using assms(3) i(1) by (simp add: hashid_insert_def Let_def)
  moreover have "i \<notin> ran (hid_map hi)" using i(3) by (auto simp: ran_def hid_map_iff [OF B(2)])
  ultimately show ?thesis using insert_wf(1,2) [OF B fd assms(5) i(2,3)] i(2) by auto
qed

text \<open>Removing node \<^verbatim>\<open>t\<close> from the chain of its id.\<close>

lemma remove_wf:
  assumes wf: "hi_shape hi" "hi_nodes hi" "hi_chains hi B" and fd: "hid_map hi fd = Some t"
    and ns': "cleared (hi_id hi) ns' t (B h)" and h: "h = id_hash hi fd" and hd': "length hs' = length (hi_hash hi)"
      "\<forall>k. k \<noteq> h \<longrightarrow> hs' ! k = hi_hash hi ! k" "chain ns' (hs' ! h) (remove1 t (B h))"
  defines "hi' \<equiv> hi\<lparr>hi_id := ns', hi_count := hi_count hi - 1, hi_hash := hs'\<rparr>"
  shows "hi_wf hi'" and "hid_map hi' = (hid_map hi)(fd := None)"
proof -
  have t: "t \<in> in_use hi" "node_id (hi_id hi ! t) = fd" using fd hid_map_iff [OF wf(2)] by auto
  have len: "length (hi_id hi) = hi_cap hi" "length (hi_hash hi) = hashmod hi + 1" "length ns' = length (hi_id hi)"
    and cnt: "hi_count hi = card (in_use hi)" using wf(1) ns' by (auto simp: hi_shape_def cleared_def)
  have ids: "node_id (ns' ! j) = (if j = t then -1 else node_id (hi_id hi ! j))" for j
    using ns' by (simp add: cleared_def)
  have hash: "id_hash hi' x = id_hash hi x" for x by (simp add: id_hash_def hi'_def)
  have use: "in_use hi' = in_use hi - {t}" using ids by (auto simp: in_use_def hi'_def)
  have "hi_shape hi'" using len cnt t(1) hd'(1) unfolding hi_shape_def use by (simp add: hi'_def card_Diff_singleton)
  moreover have nodes': "hi_nodes hi'"
  proof -
    have "node_next (ns' ! j) = None" if "j < hi_cap hi" "node_id (ns' ! j) = -1" for j
    proof (cases "j = t")
      case True
      then show ?thesis using ns' by (simp add: cleared_def)
    next
      case False
      then have "node_id (hi_id hi ! j) = -1" using that(2) ids by simp
      moreover from this have "j \<notin> set (B h)"
        using hi_chainsD(3) [OF wf(3), of h] id_hash_bound h by (auto simp: in_use_def)
      ultimately show ?thesis using wf(2) that(1) ns' by (simp add: hi_nodes_def cleared_def)
    qed
    then show ?thesis using wf(2) unfolding hi_nodes_def use by (auto simp: hi'_def ids)
  qed
  moreover have "hi_chains hi' (B(h := remove1 t (B h)))"
    unfolding hi_chains_def
  proof (intro allI impI)
    fix k assume "k \<le> hashmod hi'"
    then have k: "k \<le> hashmod hi" by (simp add: hi'_def)
    note ck = hi_chainsD [OF wf(3) k]
    have hk: "t \<notin> set (B k)" if "k \<noteq> h" using that t h unfolding ck(3) by blast
    have sel: "hi_id hi' = ns'" "hi_hash hi' = hs'" by (simp_all add: hi'_def)
    have s: "set ((B(h := remove1 t (B h))) k) = {j \<in> in_use hi'. id_hash hi' (node_id (hi_id hi' ! j)) = k}"
    proof -
      have "set ((B(h := remove1 t (B h))) k) = set (B k) - {t}"
        using ck(2) hk by (cases "k = h") auto
      also have "\<dots> = {j \<in> in_use hi - {t}. id_hash hi (node_id (hi_id hi ! j)) = k}"
        unfolding ck(3) by blast
      also have "\<dots> = {j \<in> in_use hi'. id_hash hi' (node_id (hi_id hi' ! j)) = k}"
        unfolding use hash sel by (rule Collect_cong) (simp add: ids cong: conj_cong)
      finally show ?thesis .
    qed
    have "chain ns' (hs' ! k) ((B(h := remove1 t (B h))) k)"
    proof (cases "k = h")
      case True
      then show ?thesis using hd'(3) by simp
    next
      case False
      have "j \<notin> set (B h)" if "j \<in> set (B k)" for j
        using that False hi_chainsD(3) [OF wf(3), of h] id_hash_bound [of hi fd] unfolding ck(3) h by blast
      then have "chain ns' (hi_hash hi ! k) (B k)"
        using ns' by (intro chain_cong [OF ck(1)]) (auto simp: cleared_def)
      with False hd'(2) show ?thesis by simp
    qed
    then show "chain (hi_id hi') (hi_hash hi' ! k) ((B(h := remove1 t (B h))) k) \<and>
        distinct ((B(h := remove1 t (B h))) k) \<and>
        set ((B(h := remove1 t (B h))) k) = {j \<in> in_use hi'. id_hash hi' (node_id (hi_id hi' ! j)) = k}"
      using s ck(2) unfolding sel by (cases "k = h") (simp_all add: distinct_remove1)
  qed
  ultimately show "hi_wf hi'" by (auto simp: hi_wf_def)
  show "hid_map hi' = (hid_map hi)(fd := None)"
  proof
    fix x
    have "hid_map hi' x = Some j \<longleftrightarrow> ((hid_map hi)(fd := None)) x = Some j" for j
    proof -
      have "hid_map hi' x = Some j \<longleftrightarrow> j \<in> in_use hi \<and> j \<noteq> t \<and> node_id (hi_id hi ! j) = x"
        unfolding hid_map_iff [OF nodes'] use by (simp add: hi'_def ids conj_assoc cong: conj_cong)
      also have "\<dots> \<longleftrightarrow> hid_map hi x = Some j \<and> j \<noteq> t" unfolding hid_map_iff [OF wf(2)] by blast
      also have "\<dots> \<longleftrightarrow> hid_map hi x = Some j \<and> x \<noteq> fd"
      proof (cases "x = fd")
        case True
        then show ?thesis using fd by auto
      next
        case False
        then have "hid_map hi x \<noteq> Some t" using t(2) unfolding hid_map_iff [OF wf(2)] by simp
        with False show ?thesis by auto
      qed
      finally show ?thesis by simp
    qed
    then show "hid_map hi' x = ((hid_map hi)(fd := None)) x" by (metis not_Some_eq)
  qed
qed

lemma hashid_remove_map:
  assumes "hi_wf hi"
  shows "case hid_map hi fd of None \<Rightarrow> hashid_remove hi fd = Some (-1, hi)
    | Some t \<Rightarrow> \<exists>hi'. hashid_remove hi fd = Some (int t, hi') \<and> hi_wf hi' \<and>
        hid_map hi' = (hid_map hi)(fd := None) \<and> hi_cap hi' = hi_cap hi"
proof -
  from assms obtain B where B: "hi_shape hi" "hi_nodes hi" "hi_chains hi B" by (rule hi_wf_chainsE)
  define h where "h = id_hash hi fd"
  have hb: "h \<le> hashmod hi" by (simp add: h_def id_hash_bound)
  note ch = hi_chainsD [OF B(3) hb]
  have bound: "h < length (hi_hash hi)" using B(1) hb by (simp add: hi_shape_def)
  note cf = chain_find [OF B(2,3), of fd, folded h_def]
  show ?thesis
  proof (cases "B h")
    case Nil
    then have "hid_map hi fd = None" using cf by simp
    moreover have "hi_hash hi ! h = None" using ch(1) Nil by simp
    ultimately show ?thesis using bound by (simp add: hashid_remove_def Let_def flip: h_def)
  next
    case (Cons i "is")
    then have i: "hi_hash hi ! h = Some i" "i < length (hi_id hi)" "chain (hi_id hi) (node_next (hi_id hi ! i)) is"
      using ch(1) by auto
    note unf = hashid_remove_def Let_def h_def [symmetric]
    show ?thesis
    proof (cases "node_id (hi_id hi ! i) = fd")
      case True
      then have m: "hid_map hi fd = Some i" using cf Cons by simp
      let ?ns = "(hi_id hi)[i := \<lparr>node_id = -1, node_next = None\<rparr>]"
      let ?hs = "(hi_hash hi)[h := node_next (hi_id hi ! i)]"
      have c: "cleared (hi_id hi) ?ns i (B h)" using i(2) Cons by (auto simp: cleared_def nth_list_update)
      have "i \<notin> set is" using ch(2) Cons by simp
      then have "?ns ! j = hi_id hi ! j" if "j \<in> set is" for j using that by (metis nth_list_update_neq)
      then have "chain ?ns (node_next (hi_id hi ! i)) is" by (intro chain_cong [OF i(3)]) simp_all
      then have hd: "chain ?ns (?hs ! h) (remove1 i (B h))" using bound Cons by simp
      from remove_wf [OF B m c h_def _ _ hd]
      have "hi_wf (hi\<lparr>hi_id := ?ns, hi_count := hi_count hi - 1, hi_hash := ?hs\<rparr>)"
        "hid_map (hi\<lparr>hi_id := ?ns, hi_count := hi_count hi - 1, hi_hash := ?hs\<rparr>) = (hid_map hi)(fd := None)"
        by simp_all
      moreover have "hi\<lparr>hi_id := ?ns, hi_count := hi_count hi - 1, hi_hash := ?hs\<rparr> =
          hi\<lparr>hi_hash := ?hs, hi_id := ?ns, hi_count := hi_count hi - 1\<rparr>" by simp
      ultimately show ?thesis using m True i bound by (simp only: unf clear_node_def) simp
    next
      case False
      note rm = remove_chain_find [of hi i "is" fd]
      have chi: "chain (hi_id hi) (Some i) (i # is)" "distinct (i # is)" using ch(1,2) Cons i(1) by simp_all
      have f: "find (\<lambda>j. node_id (hi_id hi ! j) = fd) is = hid_map hi fd" using cf Cons False by simp
      have step: "hashid_remove hi fd = remove_chain fd i hi" using i bound False by (simp add: unf)
      show ?thesis
      proof (cases "hid_map hi fd")
        case None
        then show ?thesis using rm(1) [OF chi] f step by simp
      next
        case (Some t)
        with rm(2) [OF chi] f obtain ns' where ns': "remove_chain fd i hi = Some (int t, hi\<lparr>hi_id := ns', hi_count := hi_count hi - 1\<rparr>)"
            "cleared (hi_id hi) ns' t (B h)" "chain ns' (Some i) (i # remove1 t is)" unfolding Cons by metis
        have "t \<in> set is" using f Some by (auto simp: find_Some_iff)
        then have "remove1 t (B h) = i # remove1 t is" using chi(2) Cons by auto
        then have hd: "chain ns' (hi_hash hi ! h) (remove1 t (B h))" using ns'(3) i(1) by simp
        from remove_wf [OF B Some ns'(2) h_def refl _ hd]
        show ?thesis using Some step ns'(1) by simp
      qed
    qed
  qed
qed

section \<open>The contract\<close>

text \<open>
  A bounded map from ids to distinct indices below the capacity, with the client's view of its operations: looking up an id, adding
  one that is new while there is room, removing one.
\<close>

locale idmap =
  fixes inv :: "'s \<Rightarrow> bool"
    and tab :: "'s \<Rightarrow> int \<Rightarrow> nat option"
    and cap :: "'s \<Rightarrow> nat"
    and full :: "'s \<Rightarrow> bool"
    and lookup :: "'s \<Rightarrow> int \<Rightarrow> int option"
    and insert :: "'s \<Rightarrow> int \<Rightarrow> (int \<times> 's) option"
    and remove :: "'s \<Rightarrow> int \<Rightarrow> (int \<times> 's) option"
  assumes lookup_tab: "inv s \<Longrightarrow> lookup s k = Some (case tab s k of None \<Rightarrow> -1 | Some i \<Rightarrow> int i)"
    and insert_tab: "inv s \<Longrightarrow> \<not> full s \<Longrightarrow> 0 \<le> k \<Longrightarrow> nat k + cap s \<le> INT_MAX \<Longrightarrow> tab s k = None \<Longrightarrow>
      \<exists>i s'. insert s k = Some (int i, s') \<and> inv s' \<and> tab s' = (tab s)(k \<mapsto> i) \<and> i < cap s \<and> i \<notin> ran (tab s) \<and> cap s' = cap s"
    and remove_tab: "inv s \<Longrightarrow> case tab s k of None \<Rightarrow> remove s k = Some (-1, s)
      | Some i \<Rightarrow> \<exists>s'. remove s k = Some (int i, s') \<and> inv s' \<and> tab s' = (tab s)(k := None) \<and> cap s' = cap s"
    and full_iff: "inv s \<Longrightarrow> full s \<longleftrightarrow> card (dom (tab s)) = cap s"
    and tab_range: "inv s \<Longrightarrow> tab s k = Some i \<Longrightarrow> i < cap s"
    and tab_inj: "inv s \<Longrightarrow> tab s k = Some i \<Longrightarrow> tab s l = Some i \<Longrightarrow> k = l"
begin

lemma insert_lookup:
  assumes "inv s" "\<not> full s" "0 \<le> k" "nat k + cap s \<le> INT_MAX" "lookup s k = Some (-1)"
  shows "\<exists>i s'. insert s k = Some (int i, s') \<and> inv s' \<and> i < cap s \<and> lookup s' k = Some (int i) \<and>
    (\<forall>l. l \<noteq> k \<longrightarrow> lookup s' l = lookup s l \<and> lookup s l \<noteq> Some (int i))"
proof -
  have "tab s k = None" using assms(1,5) by (simp add: lookup_tab split: option.splits)
  from insert_tab [OF assms(1-4) this] obtain i s' where s': "insert s k = Some (int i, s')" "inv s'"
    "tab s' = (tab s)(k \<mapsto> i)" "i < cap s" "i \<notin> ran (tab s)" by blast
  have "lookup s l \<noteq> Some (int i)" for l
    using s'(5) assms(1) by (auto simp: lookup_tab ran_def split: option.splits)
  with s' assms(1) show ?thesis by (intro exI [of _ i] exI [of _ s']) (simp add: lookup_tab)
qed

lemma remove_lookup:
  assumes "inv s"
  shows "\<exists>r s'. lookup s k = Some r \<and> remove s k = Some (r, s') \<and> inv s' \<and> lookup s' k = Some (-1) \<and>
    (\<forall>l. l \<noteq> k \<longrightarrow> lookup s' l = lookup s l)"
proof (cases "tab s k")
  case None
  with remove_tab [OF assms, of k] assms show ?thesis by (auto simp: lookup_tab)
next
  case (Some i)
  with remove_tab [OF assms, of k] assms show ?thesis by (auto simp: lookup_tab)
qed

end

lemma card_dom_map:
  assumes "hi_nodes hi"
  shows "card (dom (hid_map hi)) = card (in_use hi)"
proof -
  have "dom (hid_map hi) = (\<lambda>i. node_id (hi_id hi ! i)) ` in_use hi"
    by (auto simp: dom_def hid_map_iff [OF assms])
  moreover have "inj_on (\<lambda>i. node_id (hi_id hi ! i)) (in_use hi)"
    using assms by (auto simp: hi_nodes_def inj_on_def)
  ultimately show ?thesis by (simp add: card_image)
qed

interpretation hm: idmap hi_wf hid_map hi_cap hashid_full hashid_lookup hashid_insert hashid_remove
proof
  fix s :: hashid and k l :: int and i :: nat
  assume wf: "hi_wf s"
  then have nodes: "hi_nodes s" by (simp add: hi_wf_def)
  show "hashid_lookup s k = Some (case hid_map s k of None \<Rightarrow> -1 | Some i \<Rightarrow> int i)"
    by (rule hashid_lookup_map [OF wf])
  show "\<not> hashid_full s \<Longrightarrow> 0 \<le> k \<Longrightarrow> nat k + hi_cap s \<le> INT_MAX \<Longrightarrow> hid_map s k = None \<Longrightarrow>
      \<exists>i s'. hashid_insert s k = Some (int i, s') \<and> hi_wf s' \<and> hid_map s' = (hid_map s)(k \<mapsto> i) \<and> i < hi_cap s \<and>
        i \<notin> ran (hid_map s) \<and> hi_cap s' = hi_cap s"
    by (rule hashid_insert_map [OF wf])
  show "case hid_map s k of None \<Rightarrow> hashid_remove s k = Some (-1, s)
      | Some i \<Rightarrow> \<exists>s'. hashid_remove s k = Some (int i, s') \<and> hi_wf s' \<and> hid_map s' = (hid_map s)(k := None) \<and>
          hi_cap s' = hi_cap s"
    by (rule hashid_remove_map [OF wf])
  show "hashid_full s \<longleftrightarrow> card (dom (hid_map s)) = hi_cap s"
    using wf card_dom_map [OF nodes] by (simp add: hi_wf_def hi_shape_def hashid_full_def)
  show "hid_map s k = Some i \<Longrightarrow> i < hi_cap s" using hid_map_iff [OF nodes] by (simp add: in_use_def)
  show "hid_map s k = Some i \<Longrightarrow> hid_map s l = Some i \<Longrightarrow> k = l" using hid_map_iff [OF nodes] by simp
qed

lemma hash_capacity_ok:
  assumes "limit \<le> 2 ^ 30" "0 < c"
  shows "\<exists>r. hash_capacity c limit = Some r \<and> limit \<le> r \<and> 0 < r"
  using assms
proof (induction c limit rule: hash_capacity.induct)
  case (1 c limit)
  then show ?case by (subst (1) hash_capacity.simps) (auto simp: INT_MAX_def)
qed

lemma hashid_init_wf:
  assumes "limit \<le> 2 ^ 30"
  shows "\<exists>hi. hashid_init limit = Some hi \<and> hi_wf hi \<and> hid_map hi = (\<lambda>_. None) \<and> hi_cap hi = limit"
proof -
  from hash_capacity_ok [OF assms, of 16] obtain r where r: "hash_capacity 16 limit = Some r" "0 < r" by auto
  define hi where "hi = \<lparr>hashmod = r - 1, hi_cap = limit, hi_count = 0,
       hi_id = replicate limit \<lparr>node_id = -1, node_next = None\<rparr>, hi_hash = replicate r None\<rparr>"
  have "in_use hi = {}" by (auto simp: in_use_def hi_def)
  then have "hi_wf hi" using r(2)
    by (auto simp: hi_wf_def hi_shape_def hi_nodes_def hi_chains_def hi_def intro!: exI [of _ "\<lambda>_. []"])
  moreover have "hid_map hi fd = None" for fd by (auto simp: hid_map_def find_None_iff hi_def)
  ultimately show ?thesis using r(1) by (auto simp: hashid_init_def hi_def)
qed

section \<open>Runs\<close>

text \<open>Any sequence of additions and removals, with the results of the operations.\<close>

datatype id_op = Insert int | Remove int

definition run_id :: "id_op \<Rightarrow> hashid \<Rightarrow> (int \<times> hashid) option" where
  "run_id op hi = (case op of Insert fd \<Rightarrow> hashid_insert hi fd | Remove fd \<Rightarrow> hashid_remove hi fd)"

fun run_ids :: "id_op list \<Rightarrow> hashid \<Rightarrow> (int list \<times> hashid) option" where
  "run_ids [] hi = Some ([], hi)"
| "run_ids (op # ops) hi = do { (r, hi) \<leftarrow> run_id op hi; (rs, hi) \<leftarrow> run_ids ops hi; Some (r # rs, hi) }"

text \<open>
  What a client relies on: a map from ids to indices. An addition may give any index below the capacity that no id has; a
  removal gives the index of the id, or -1. Only new ids are added, and only while there is room.
\<close>

definition map_op :: "id_op \<Rightarrow> int \<Rightarrow> (int \<Rightarrow> nat option) \<Rightarrow> int \<Rightarrow> nat option" where
  "map_op op r M = (case op of Insert fd \<Rightarrow> M(fd \<mapsto> nat r) | Remove fd \<Rightarrow> M(fd := None))"

definition result_ok :: "nat \<Rightarrow> id_op \<Rightarrow> int \<Rightarrow> (int \<Rightarrow> nat option) \<Rightarrow> bool" where
  "result_ok cap op r M = (case op of
       Insert fd \<Rightarrow> 0 \<le> r \<and> nat r < cap \<and> nat r \<notin> ran M
     | Remove fd \<Rightarrow> r = (case M fd of None \<Rightarrow> -1 | Some i \<Rightarrow> int i))"

fun results_ok :: "nat \<Rightarrow> id_op list \<Rightarrow> int list \<Rightarrow> (int \<Rightarrow> nat option) \<Rightarrow> bool" where
  "results_ok cap [] rs M = (rs = [])"
| "results_ok cap (op # ops) rs M = (case rs of [] \<Rightarrow> False
     | r # rs \<Rightarrow> result_ok cap op r M \<and> results_ok cap ops rs (map_op op r M))"

fun map_ops :: "id_op list \<Rightarrow> int list \<Rightarrow> (int \<Rightarrow> nat option) \<Rightarrow> int \<Rightarrow> nat option" where
  "map_ops (op # ops) (r # rs) M = map_ops ops rs (map_op op r M)"
| "map_ops _ _ M = M"

text \<open>The ids of a sequence: \<^verbatim>\<open>D\<close> are the ids in the table before it.\<close>

fun ids_ok :: "nat \<Rightarrow> id_op list \<Rightarrow> int set \<Rightarrow> bool" where
  "ids_ok cap [] D = True"
| "ids_ok cap (Insert fd # ops) D = (fd \<notin> D \<and> card D < cap \<and> 0 \<le> fd \<and> nat fd + cap \<le> INT_MAX \<and> ids_ok cap ops (insert fd D))"
| "ids_ok cap (Remove fd # ops) D = ids_ok cap ops (D - {fd})"

lemma run_id_ok:
  assumes "hi_wf hi" "ids_ok (hi_cap hi) (op # ops) (dom (hid_map hi))"
  shows "\<exists>r hi'. run_id op hi = Some (r, hi') \<and> result_ok (hi_cap hi) op r (hid_map hi) \<and> hi_wf hi' \<and>
    hid_map hi' = map_op op r (hid_map hi) \<and> hi_cap hi' = hi_cap hi \<and> ids_ok (hi_cap hi) ops (dom (hid_map hi'))"
proof (cases op)
  case (Insert fd)
  with assms(2) have c: "fd \<notin> dom (hid_map hi)" "card (dom (hid_map hi)) < hi_cap hi" "0 \<le> fd" "nat fd + hi_cap hi \<le> INT_MAX"
    "ids_ok (hi_cap hi) ops (insert fd (dom (hid_map hi)))" by simp_all
  have "\<not> hashid_full hi" using c(2) by (simp add: hm.full_iff [OF assms(1)])
  from hm.insert_tab [OF assms(1) this c(3,4)] c(1) obtain i hi' where "hashid_insert hi fd = Some (int i, hi')" "hi_wf hi'"
    "hid_map hi' = (hid_map hi)(fd \<mapsto> i)" "i < hi_cap hi" "i \<notin> ran (hid_map hi)" "hi_cap hi' = hi_cap hi" by blast
  with c(5) show ?thesis
    by (intro exI [of _ "int i"] exI [of _ hi']) (simp add: Insert run_id_def result_ok_def map_op_def)
next
  case (Remove fd)
  with assms(2) have c: "ids_ok (hi_cap hi) ops (dom (hid_map hi) - {fd})" by simp
  show ?thesis
  proof (cases "hid_map hi fd")
    case None
    then have "dom (hid_map hi) - {fd} = dom (hid_map hi)" "(hid_map hi)(fd := None) = hid_map hi" by (auto simp: fun_eq_iff)
    with hm.remove_tab [OF assms(1), of fd] c assms(1) None show ?thesis
      by (intro exI [of _ "-1"] exI [of _ hi]) (simp add: Remove run_id_def result_ok_def map_op_def)
  next
    case (Some i)
    with hm.remove_tab [OF assms(1), of fd] obtain hi' where "hashid_remove hi fd = Some (int i, hi')" "hi_wf hi'"
      "hid_map hi' = (hid_map hi)(fd := None)" "hi_cap hi' = hi_cap hi" by auto
    with c Some show ?thesis
      by (intro exI [of _ "int i"] exI [of _ hi']) (simp add: Remove run_id_def result_ok_def map_op_def)
  qed
qed

lemma run_ids_ok:
  assumes "hi_wf hi" "ids_ok (hi_cap hi) ops (dom (hid_map hi))"
  shows "\<exists>rs hi'. run_ids ops hi = Some (rs, hi') \<and> results_ok (hi_cap hi) ops rs (hid_map hi) \<and> hi_wf hi' \<and>
    hid_map hi' = map_ops ops rs (hid_map hi) \<and> hi_cap hi' = hi_cap hi"
  using assms
proof (induction ops arbitrary: hi)
  case Nil
  then show ?case by simp
next
  case (Cons op ops)
  from run_id_ok [OF Cons(2,3)] obtain r h1 where h1: "run_id op hi = Some (r, h1)" "result_ok (hi_cap hi) op r (hid_map hi)" "hi_wf h1"
    "hid_map h1 = map_op op r (hid_map hi)" "hi_cap h1 = hi_cap hi" "ids_ok (hi_cap h1) ops (dom (hid_map h1))" by auto
  from Cons(1) [OF h1(3,6)] obtain rs h2 where h2: "run_ids ops h1 = Some (rs, h2)" "results_ok (hi_cap h1) ops rs (hid_map h1)" "hi_wf h2"
    "hid_map h2 = map_ops ops rs (hid_map h1)" "hi_cap h2 = hi_cap h1" by blast
  then show ?case using h1 by (intro exI [of _ "r # rs"] exI [of _ h2]) simp
qed

text \<open>
  (C28) Any sequence of additions of new ids while there is room and of removals, on a new table: no operation faults and every
  search along a chain ends; an addition gives an index below the capacity that no other id has, a removal gives the index that its id
  got, or -1; and at the end every id finds its index in the map of the ids added and not removed, every other id finds nothing, and the
  table is full exactly when the map has as many ids as the capacity.
\<close>

theorem hashid_refines_map:
  assumes "cap \<le> 2 ^ 30" and "ids_ok cap ops {}"
  shows "\<exists>rs hi. (hashid_init cap \<bind> run_ids ops) = Some (rs, hi) \<and> results_ok cap ops rs Map.empty \<and>
    (\<forall>fd. hashid_lookup hi fd = Some (case map_ops ops rs Map.empty fd of None \<Rightarrow> -1 | Some i \<Rightarrow> int i)) \<and>
    (hashid_full hi \<longleftrightarrow> card (dom (map_ops ops rs Map.empty)) = cap)"
proof -
  obtain h0 where h0: "hashid_init cap = Some h0" "hi_wf h0" "hid_map h0 = Map.empty" "hi_cap h0 = cap"
    using hashid_init_wf [OF assms(1)] by blast
  from run_ids_ok [OF h0(2), of ops] assms(2) obtain rs hi where hi: "run_ids ops h0 = Some (rs, hi)"
    "results_ok cap ops rs Map.empty" "hi_wf hi" "hid_map hi = map_ops ops rs Map.empty" "hi_cap hi = cap"
    unfolding h0(3,4) by auto
  with h0(1) hm.lookup_tab [OF hi(3)] hm.full_iff [OF hi(3)] show ?thesis by (intro exI [of _ rs] exI [of _ hi]) simp
qed

text \<open>Three ids in one chain, the one in the middle removed.\<close>

abbreviation three_table :: "hashid_node list \<Rightarrow> nat \<Rightarrow> nat option \<Rightarrow> hashid" where
  "three_table ns n c \<equiv> \<lparr>hashmod = 15, hi_cap = 4, hi_count = n, hi_id = ns,
     hi_hash = [None, None, None, c, None, None, None, None, None, None, None, None, None, None, None, None]\<rparr>"

abbreviation free_node :: hashid_node where
  "free_node \<equiv> \<lparr>node_id = -1, node_next = None\<rparr>"

lemma find_free_numeral:
  "find_free ns cap fd (numeral k) =
     (let index = (cap - numeral k + fd) mod cap in
      if INT_MAX < cap - numeral k + fd then None
      else if index < length ns \<and> node_id (ns ! index) = -1 then Some index else find_free ns cap fd (pred_numeral k))"
  by (simp add: numeral_eq_Suc)

lemmas id_eval = run_id_def hashid_insert_def hashid_remove_def id_hash_def c_index_def c_assert_def c_update_def
  INT_MAX_def Let_def find_free_numeral clear_node_def

lemma three_inserts:
  "hashid_init 4 = Some (three_table [free_node, free_node, free_node, free_node] 0 None)"
  "run_id (Insert 3) (three_table [free_node, free_node, free_node, free_node] 0 None) =
     Some (3, three_table [free_node, free_node, free_node, \<lparr>node_id = 3, node_next = None\<rparr>] 1 (Some 3))"
  "run_id (Insert 19) (three_table [free_node, free_node, free_node, \<lparr>node_id = 3, node_next = None\<rparr>] 1 (Some 3)) =
     Some (0, three_table [\<lparr>node_id = 19, node_next = Some 3\<rparr>, free_node, free_node, \<lparr>node_id = 3, node_next = None\<rparr>] 2 (Some 0))"
  "run_id (Insert 35) (three_table [\<lparr>node_id = 19, node_next = Some 3\<rparr>, free_node, free_node, \<lparr>node_id = 3, node_next = None\<rparr>] 2 (Some 0)) =
     Some (1, three_table [\<lparr>node_id = 19, node_next = Some 3\<rparr>, \<lparr>node_id = 35, node_next = Some 0\<rparr>, free_node,
       \<lparr>node_id = 3, node_next = None\<rparr>] 3 (Some 1))"
  subgoal by (simp add: hashid_init_def hash_capacity.simps) (simp add: numeral_eq_Suc)
  subgoal by (simp add: id_eval)
  subgoal by (simp add: id_eval)
  subgoal by (simp add: id_eval)
  done

lemma three_removes:
  "run_id (Remove 19) (three_table [\<lparr>node_id = 19, node_next = Some 3\<rparr>, \<lparr>node_id = 35, node_next = Some 0\<rparr>, free_node,
       \<lparr>node_id = 3, node_next = None\<rparr>] 3 (Some 1)) =
     Some (0, three_table [free_node, \<lparr>node_id = 35, node_next = Some 3\<rparr>, free_node, \<lparr>node_id = 3, node_next = None\<rparr>] 2 (Some 1))"
  "run_id (Remove 5) (three_table [free_node, \<lparr>node_id = 35, node_next = Some 3\<rparr>, free_node, \<lparr>node_id = 3, node_next = None\<rparr>] 2 (Some 1)) =
     Some (-1, three_table [free_node, \<lparr>node_id = 35, node_next = Some 3\<rparr>, free_node, \<lparr>node_id = 3, node_next = None\<rparr>] 2 (Some 1))"
  subgoal by (simp add: id_eval, subst remove_chain.simps) (simp add: id_eval)
  subgoal by (simp add: id_eval)
  done

lemma hashid_refines_map_witness:
  "\<exists>hi. (hashid_init 4 \<bind> run_ids [Insert 3, Insert 19, Insert 35, Remove 19, Remove 5]) = Some ([3, 0, 1, 0, -1], hi) \<and>
     hashid_lookup hi 3 = Some 3 \<and> hashid_lookup hi 19 = Some (-1) \<and> hashid_lookup hi 35 = Some 1 \<and> \<not> hashid_full hi"
proof -
  let ?ops = "[Insert 3, Insert 19, Insert 35, Remove 19, Remove 5]"
  have e: "map_option fst (hashid_init 4 \<bind> run_ids ?ops) = Some [3, 0, 1, 0, -1]"
    by (simp add: three_inserts three_removes del: One_nat_def)
  have "ids_ok 4 ?ops {}" by (simp add: INT_MAX_def)
  then obtain rs hi where r: "(hashid_init 4 \<bind> run_ids ?ops) = Some (rs, hi)" "results_ok 4 ?ops rs Map.empty"
    "\<forall>fd. hashid_lookup hi fd = Some (case map_ops ?ops rs Map.empty fd of None \<Rightarrow> -1 | Some i \<Rightarrow> int i)"
    "hashid_full hi \<longleftrightarrow> card (dom (map_ops ?ops rs Map.empty)) = 4"
    using hashid_refines_map [of 4 ?ops] by auto
  with e have rs: "rs = [3, 0, 1, 0, -1]" by simp
  have d: "map_ops ?ops rs Map.empty = [3 \<mapsto> 3, 35 \<mapsto> 1]" by (auto simp: rs map_op_def fun_eq_iff)
  have "\<not> hashid_full hi" unfolding r(4) d by (simp add: card_insert_if)
  with r(1,3) show ?thesis unfolding d by (simp add: rs)
qed

end
