(* ===== verification/Cstring.thy ===== *)
theory Cstring
  imports Prelude "HOL-Library.Char_ord"
begin

text \<open>
  What the code uses of the C library on strings: decimal and hexadecimal printing, \<^verbatim>\<open>strtol\<close>, \<^verbatim>\<open>strtoul\<close>,
  \<^verbatim>\<open>strsep\<close>, \<^verbatim>\<open>memcmp\<close> against a literal. A buffer of characters may hold the character 0, which ends the C string in it.
\<close>

definition NUL :: char where "NUL = CHR 0x00"

definition c_str :: "string \<Rightarrow> string" where
  "c_str s = takeWhile (\<lambda>c. c \<noteq> NUL) s"

definition bytes_of :: "string \<Rightarrow> u8 list" where
  "bytes_of s = map (\<lambda>c. of_nat (of_char c)) s"

definition string_of :: "u8 list \<Rightarrow> string" where
  "string_of bs = map (\<lambda>b. char_of (unat b)) bs"

lemma length_bytes_of [simp]: "length (bytes_of s) = length s"
  by (simp add: bytes_of_def)

lemma string_of_bytes_of [simp]: "string_of (bytes_of s) = s"
proof -
  have "unat (of_nat (of_char c) :: u8) = of_char c" for c :: char
  proof -
    have "(of_char c :: nat) < 256" by simp
    then show ?thesis by (simp add: unat_of_nat)
  qed
  then show ?thesis by (simp add: string_of_def bytes_of_def comp_def)
qed

section \<open>Printing and reading numbers\<close>

definition digit_char :: "nat \<Rightarrow> char" where
  "digit_char d = char_of (if d < 10 then 48 + d else 87 + d)"

fun print_base :: "nat \<Rightarrow> nat \<Rightarrow> string" where
  "print_base b n = (if b < 2 \<or> n < b then [digit_char n] else print_base b (n div b) @ [digit_char (n mod b)])"

declare print_base.simps [simp del]

text \<open>The conversions \<^verbatim>\<open>%d\<close> and \<^verbatim>\<open>%x\<close>.\<close>

definition show_int :: "int \<Rightarrow> string" where
  "show_int n = (if n < 0 then CHR ''-'' # print_base 10 (nat (- n)) else print_base 10 (nat n))"

definition show_hex :: "nat \<Rightarrow> string" where
  "show_hex n = print_base 16 n"

definition digit_val :: "char \<Rightarrow> nat option" where
  "digit_val c = (let n = of_char c :: nat in
     if 48 \<le> n \<and> n \<le> 57 then Some (n - 48)
     else if 97 \<le> n \<and> n \<le> 122 then Some (n - 87)
     else if 65 \<le> n \<and> n \<le> 90 then Some (n - 55) else None)"

definition is_digit :: "nat \<Rightarrow> char \<Rightarrow> bool" where
  "is_digit b c = (case digit_val c of None \<Rightarrow> False | Some d \<Rightarrow> d < b)"

definition isspace :: "char \<Rightarrow> bool" where
  "isspace c = (let n = of_char c :: nat in n = 32 \<or> (9 \<le> n \<and> n \<le> 13))"

definition read_digits :: "nat \<Rightarrow> string \<Rightarrow> nat" where
  "read_digits b s = foldl (\<lambda>a c. a * b + the (digit_val c)) 0 (takeWhile (is_digit b) s)"

text \<open>The optional prefix \<^verbatim>\<open>0x\<close> of base 16 counts only before a digit.\<close>

definition skip_0x :: "nat \<Rightarrow> string \<Rightarrow> string" where
  "skip_0x b s = (case s of
     z # x # d # r \<Rightarrow> if b = 16 \<and> z = CHR ''0'' \<and> (x = CHR ''x'' \<or> x = CHR ''X'') \<and> is_digit 16 d then d # r else s
   | _ \<Rightarrow> s)"

definition read_number :: "nat \<Rightarrow> string \<Rightarrow> bool \<times> nat" where
  "read_number b s = (let t = dropWhile isspace (c_str s) in case t of
     [] \<Rightarrow> (False, 0)
   | c # r \<Rightarrow> if c = CHR ''-'' then (True, read_digits b (skip_0x b r))
      else if c = CHR ''+'' then (False, read_digits b (skip_0x b r))
      else (False, read_digits b (skip_0x b t)))"

definition strtol :: "string \<Rightarrow> nat \<Rightarrow> int" where
  "strtol s b = (let (neg, n) = read_number b s; v = (if neg then - int n else int n) in
     max (- (2 ^ 63)) (min (2 ^ 63 - 1) v))"

definition strtoul :: "string \<Rightarrow> nat \<Rightarrow> u64" where
  "strtoul s b = (let (neg, n) = read_number b s in
     if 2 ^ 64 \<le> n then -1 else if neg then - of_nat n else of_nat n)"

text \<open>The conversion of a \<^verbatim>\<open>long\<close> to an \<^verbatim>\<open>int\<close>.\<close>

definition c_int :: "int \<Rightarrow> int" where
  "c_int v = sint (of_int v :: u32)"

lemma c_int_small: "- (2 ^ 31) \<le> v \<Longrightarrow> v < 2 ^ 31 \<Longrightarrow> c_int v = v"
  by (simp add: c_int_def signed_of_int signed_take_bit_int_eq_self)

section \<open>Pieces of strings\<close>

text \<open>\<^verbatim>\<open>strsep\<close> with one delimiter: the token, and the rest unless the delimiter was missing.\<close>

definition strsep :: "char \<Rightarrow> string \<Rightarrow> string \<times> string option" where
  "strsep d s = (let t = takeWhile (\<lambda>c. c \<noteq> d) (c_str s) in
     (t, if length t < length (c_str s) then Some (drop (length t + 1) (c_str s)) else None))"

text \<open>
  \<^verbatim>\<open>memcmp(s, lit, n) == 0\<close> where \<^verbatim>\<open>lit\<close> is a string literal: None when equal bytes lead past its
  terminating 0.
\<close>

definition memcmp_lit :: "string \<Rightarrow> string \<Rightarrow> nat \<Rightarrow> bool option" where
  "memcmp_lit s lit n = (let l = lit @ [NUL] in
     if take (min n (length l)) s \<noteq> take (min n (length l)) l then Some False
     else if n \<le> length l then Some True else None)"

text \<open>The conversion \<^verbatim>\<open>%s\<close> of \<^verbatim>\<open>sscanf\<close>.\<close>

definition scan_word :: "string \<Rightarrow> (string \<times> string) option" where
  "scan_word s = (let t = dropWhile isspace s; w = takeWhile (\<lambda>c. \<not> isspace c) t in
     if w = [] then None else Some (w, drop (length w) t))"

text \<open>The conversion \<^verbatim>\<open>%d\<close> of \<^verbatim>\<open>sscanf\<close>.\<close>

definition scan_int :: "string \<Rightarrow> (int \<times> string) option" where
  "scan_int s = (let t = dropWhile isspace s;
       sgn = (case t of c # r \<Rightarrow> if c = CHR ''-'' \<or> c = CHR ''+'' then 1 else 0 | [] \<Rightarrow> 0);
       d = takeWhile (is_digit 10) (drop sgn t) in
     if d = [] then None else Some (c_int (strtol (take (sgn + length d) t) 10), drop (sgn + length d) t))"

text \<open>\<^verbatim>\<open>strsep\<close> with a set of delimiters.\<close>

definition strsep_any :: "char list \<Rightarrow> string \<Rightarrow> string \<times> string option" where
  "strsep_any ds s = (let t = takeWhile (\<lambda>c. c \<notin> set ds) (c_str s) in
     (t, if length t < length (c_str s) then Some (drop (length t + 1) (c_str s)) else None))"

text \<open>\<^verbatim>\<open>strtol\<close> with base 0, which reads the base off the prefix.\<close>

definition auto_base :: "string \<Rightarrow> nat" where
  "auto_base s = (let t = dropWhile isspace (c_str s); u = (case t of c # r \<Rightarrow> if c = CHR ''-'' \<or> c = CHR ''+'' then r else t | [] \<Rightarrow> t) in
     case u of z # x # d # r \<Rightarrow> if z = CHR ''0'' then (if (x = CHR ''x'' \<or> x = CHR ''X'') \<and> is_digit 16 d then 16 else 8) else 10
     | z # r \<Rightarrow> if z = CHR ''0'' then 8 else 10
     | [] \<Rightarrow> 10)"

text \<open>A number padded on the left, as by \<^verbatim>\<open>%08x\<close> and \<^verbatim>\<open>%*s\<close>.\<close>

definition pad_left :: "char \<Rightarrow> nat \<Rightarrow> string \<Rightarrow> string" where
  "pad_left c w s = replicate (w - length s) c @ s"

section \<open>Reading what was printed\<close>

lemma digit_val_char: "d < 36 \<Longrightarrow> digit_val (digit_char d) = Some d"
  by (auto simp: digit_val_def digit_char_def Let_def)

lemma read_digits_snoc:
  assumes "\<forall>c \<in> set s. is_digit b c" "is_digit b c"
  shows "read_digits b (s @ [c]) = read_digits b s * b + the (digit_val c)"
  using assms by (simp add: read_digits_def takeWhile_append takeWhile_eq_all_conv [THEN iffD2])

lemma print_base_read:
  assumes "2 \<le> b" "b \<le> 36"
  shows "(\<forall>c \<in> set (print_base b n). is_digit b c) \<and> read_digits b (print_base b n) = n \<and> print_base b n \<noteq> []"
  using assms
proof (induction b n rule: print_base.induct)
  case (1 b n)
  show ?case
  proof (cases "n < b")
    case True
    then have "digit_val (digit_char n) = Some n" using "1.prems" by (intro digit_val_char) simp
    with True "1.prems" show ?thesis
      by (subst (1 2 3) print_base.simps) (simp add: is_digit_def read_digits_def)
  next
    case False
    have m: "n mod b < b" using "1.prems" by simp
    then have d: "digit_val (digit_char (n mod b)) = Some (n mod b)" using "1.prems" by (intro digit_val_char) linarith
    have p: "print_base b n = print_base b (n div b) @ [digit_char (n mod b)]"
      using False "1.prems" by (subst print_base.simps) simp
    have "is_digit b (digit_char (n mod b))" using d m by (simp add: is_digit_def)
    moreover have "\<forall>c \<in> set (print_base b (n div b)). is_digit b c" "read_digits b (print_base b (n div b)) = n div b"
      using "1.IH" False "1.prems" by auto
    ultimately show ?thesis unfolding p using d by (simp add: read_digits_snoc)
  qed
qed

lemma dropWhile_hd: "s \<noteq> [] \<Longrightarrow> \<not> P (hd s) \<Longrightarrow> dropWhile P s = s"
  by (cases s) simp_all

lemma print_digit_props:
  assumes "c \<in> set (print_base b n)" "2 \<le> b" "b \<le> 10"
  shows "48 \<le> (of_char c :: nat) \<and> (of_char c :: nat) \<le> 57"
proof -
  have "is_digit b c" using print_base_read [of b n] assms by auto
  then show ?thesis using assms(3) by (auto simp: is_digit_def digit_val_def Let_def split: if_splits)
qed

lemma not_digit_chars: "48 \<le> (of_char c :: nat) \<Longrightarrow> c \<noteq> NUL \<and> \<not> isspace c \<and> c \<noteq> CHR ''-'' \<and> c \<noteq> CHR ''+'' \<and> c \<noteq> CHR '' ''"
  by (auto simp: NUL_def isspace_def)

text \<open>A printed decimal number followed by the end of the string or a character that is no digit.\<close>

lemma read_digits_prefix:
  assumes "\<forall>c \<in> set s. is_digit b c" "r = [] \<or> \<not> is_digit b (hd r)"
  shows "read_digits b (s @ r) = read_digits b s"
  using assms by (cases r) (simp_all add: read_digits_def takeWhile_append takeWhile_eq_all_conv [THEN iffD2])

lemma strtol_show_nat:
  assumes "r = [] \<or> \<not> is_digit 10 (hd r)" "n < 2 ^ 63"
  shows "strtol (print_base 10 n @ r) 10 = int n"
proof -
  let ?s = "print_base 10 n"
  have pr: "\<forall>c \<in> set ?s. is_digit 10 c" "read_digits 10 ?s = n" "?s \<noteq> []" using print_base_read [of 10 n] by auto
  have ch: "c \<noteq> NUL" "\<not> isspace c" "c \<noteq> CHR ''-''" "c \<noteq> CHR ''+''" if "c \<in> set ?s" for c
    using print_digit_props [OF that] not_digit_chars [of c] by auto
  have cs: "c_str (?s @ r) = ?s @ c_str r" using ch(1) by (simp add: c_str_def takeWhile_append)
  obtain c t where ct: "?s = c # t" using pr(3) by (cases ?s) auto
  have "dropWhile isspace (c_str (?s @ r)) = ?s @ c_str r"
    unfolding cs using ch(2) ct by simp
  moreover have "skip_0x 10 x = x" for x by (simp add: skip_0x_def split: list.splits)
  moreover have "c_str r = [] \<or> \<not> is_digit 10 (hd (c_str r))" using assms(1) by (cases r) (auto simp: c_str_def)
  ultimately have "read_number 10 (?s @ r) = (False, n)"
    using ch(3,4) ct pr read_digits_prefix [OF pr(1), of "c_str r"] by (simp add: read_number_def Let_def)
  then show ?thesis using assms(2) by (simp add: strtol_def)
qed


text \<open>Hexadecimal numbers.\<close>

lemma hex_digit_chars: "is_digit 16 c \<Longrightarrow>
    c \<noteq> NUL \<and> \<not> isspace c \<and> c \<noteq> CHR ''-'' \<and> c \<noteq> CHR ''+'' \<and> c \<noteq> CHR ''x'' \<and> c \<noteq> CHR ''X''"
  by (auto simp: is_digit_def digit_val_def Let_def isspace_def NUL_def split: if_splits)

lemma skip_0x_hex: "\<forall>c \<in> set s. is_digit 16 c \<Longrightarrow> skip_0x b s = s"
  using hex_digit_chars by (auto simp: skip_0x_def split: list.splits)

lemma strtoul_digits:
  assumes s: "\<forall>c \<in> set s. is_digit 16 c" "s \<noteq> []" and v: "read_digits 16 s < 2 ^ 64"
  shows "strtoul s 16 = of_nat (read_digits 16 s)"
proof -
  have c: "c_str s = s" using s(1) hex_digit_chars by (auto simp: c_str_def takeWhile_eq_all_conv)
  obtain h t where ht: "s = h # t" using s(2) by (cases s) auto
  have h: "\<not> isspace h" "h \<noteq> CHR ''-''" "h \<noteq> CHR ''+''" using hex_digit_chars [of h] s(1) ht by simp_all
  have dw: "dropWhile isspace (c_str s) = s" unfolding c using h(1) by (simp add: ht)
  have "read_number 16 s = (False, read_digits 16 s)"
    unfolding read_number_def dw Let_def using skip_0x_hex [OF s(1), of 16] h by (simp add: ht)
  then show ?thesis using v by (simp add: strtoul_def)
qed

lemma strtoul_show_hex: "n < 2 ^ 64 \<Longrightarrow> strtoul (show_hex n) 16 = of_nat n"
  using print_base_read [of 16 n] strtoul_digits [of "show_hex n"] by (simp add: show_hex_def)

end
