(* ===== verification/Message.thy ===== *)
theory Message
  imports Prelude
begin

text \<open>
  The message that services exchange (\<^verbatim>\<open>skynet-src/skynet_mq.h\<close>) and the message types of
  \<^verbatim>\<open>skynet-src/skynet.h\<close>. The type of a message sits in the top 8 bits of its field \<^verbatim>\<open>sz\<close>. A payload is
  a value of type \<^verbatim>\<open>'d\<close>, None for the null pointer. Sessions are C integers, within 32 bits.
\<close>

definition MESSAGE_TYPE_SHIFT :: nat where "MESSAGE_TYPE_SHIFT = 56"
definition MESSAGE_TYPE_MASK :: u64 where "MESSAGE_TYPE_MASK = drop_bit 8 0xffffffffffffffff"

record 'd skynet_message =
  msg_source :: u32
  msg_session :: int
  msg_data :: "'d option"
  msg_sz :: u64

definition PTYPE_TEXT :: nat where "PTYPE_TEXT = 0"
definition PTYPE_RESPONSE :: nat where "PTYPE_RESPONSE = 1"
definition PTYPE_CLIENT :: nat where "PTYPE_CLIENT = 3"
definition PTYPE_SYSTEM :: nat where "PTYPE_SYSTEM = 4"
definition PTYPE_HARBOR :: nat where "PTYPE_HARBOR = 5"
definition PTYPE_SOCKET :: nat where "PTYPE_SOCKET = 6"
definition PTYPE_ERROR :: nat where "PTYPE_ERROR = 7"
definition PTYPE_TAG_DONTCOPY :: nat where "PTYPE_TAG_DONTCOPY = 0x10000"
definition PTYPE_TAG_ALLOCSESSION :: nat where "PTYPE_TAG_ALLOCSESSION = 0x20000"

text \<open>Packing a type and a size into \<^verbatim>\<open>sz\<close>, and reading them back (\<^verbatim>\<open>dispatch_message\<close>, \<^verbatim>\<open>_filter_args\<close>).\<close>

definition pack_sz :: "u64 \<Rightarrow> nat \<Rightarrow> u64" where
  "pack_sz sz type = sz OR push_bit MESSAGE_TYPE_SHIFT (of_nat type)"

definition msg_type :: "u64 \<Rightarrow> nat" where
  "msg_type sz = unat (drop_bit MESSAGE_TYPE_SHIFT sz)"

definition msg_size :: "u64 \<Rightarrow> u64" where
  "msg_size sz = sz AND MESSAGE_TYPE_MASK"

lemma MESSAGE_TYPE_MASK_mask: "MESSAGE_TYPE_MASK = mask 56"
  by (simp add: MESSAGE_TYPE_MASK_def mask_eq_exp_minus_1)

lemma msg_size_take_bit: "msg_size sz = take_bit 56 sz"
  by (simp add: msg_size_def MESSAGE_TYPE_MASK_mask take_bit_eq_mask)

lemma pack_sz_unpack:
  assumes "sz AND MESSAGE_TYPE_MASK = sz" "type < 256"
  shows "msg_type (pack_sz sz type) = type" and "msg_size (pack_sz sz type) = sz"
proof -
  have sz: "take_bit 56 sz = sz" using assms(1) by (simp add: MESSAGE_TYPE_MASK_mask take_bit_eq_mask)
  have "take_bit 56 (push_bit 56 (of_nat type :: u64)) = 0" by (simp add: take_bit_push_bit)
  then show "msg_size (pack_sz sz type) = sz"
    using sz by (simp add: msg_size_take_bit pack_sz_def MESSAGE_TYPE_SHIFT_def take_bit_or)
  have "drop_bit 56 (take_bit 56 sz) = 0" by (simp add: drop_bit_take_bit)
  then have "drop_bit 56 sz = 0" using sz by simp
  moreover have "take_bit 8 type = type" using assms(2) by (simp add: take_bit_nat_eq_self)
  then have "bit type n \<Longrightarrow> n < 8" for n by (metis bit_take_bit_iff)
  then have "drop_bit 56 (push_bit 56 (of_nat type :: u64)) = of_nat type"
    by (intro bit_word_eqI) (auto simp: bit_simps)
  ultimately show "msg_type (pack_sz sz type) = type"
    using assms(2) by (simp add: msg_type_def pack_sz_def MESSAGE_TYPE_SHIFT_def drop_bit_or unat_of_nat)
qed

end
