(* ===== verification/Gate.thy ===== *)
theory Gate
  imports Databuffer Hashid Cstring Message
begin

text \<open>
  The gate service (\<^verbatim>\<open>service-src/service_gate.c\<close>): it accepts connections, cuts the bytes of each into frames with
  a length header of 2 or 4 bytes, and sends every frame to the broker, the agent of the connection or the
  watchdog. What it asks of the node is a list of actions, in order; the answers it needs back (the handle of a
  name, the id of a listening socket) are arguments.
\<close>

section \<open>State\<close>

record connection =
  conn_id :: int
  conn_agent :: u32
  conn_client :: u32
  remote_name :: string
  conn_buffer :: databuffer

record gate =
  listen_id :: int
  watchdog :: u32
  broker :: u32
  client_tag :: nat
  header_size :: nat
  max_connection :: nat
  gate_hash :: hashid
  gate_conn :: "connection list"
  gate_mp :: messagepool

text \<open>
  The calls of the gate: \<^verbatim>\<open>skynet_send\<close> (source, destination, type with its flags, session, payload), the socket
  operations, and \<^verbatim>\<open>skynet_error\<close> with the formatted text.
\<close>

datatype gate_act = SendMsg u32 u32 nat int "u8 list"
  | SocketSend int "u8 list" | SocketClose int | SocketStart int | LogError string
  | SetCallback

definition empty_hashid :: hashid where
  "empty_hashid = \<lparr>hashmod = 0, hi_cap = 0, hi_count = 0, hi_id = [], hi_hash = []\<rparr>"

definition gate_create :: gate where
  "gate_create = \<lparr>listen_id = -1, watchdog = 0, broker = 0, client_tag = 0, header_size = 0,
     max_connection = 0, gate_hash = empty_hashid, gate_conn = [], gate_mp = messagepool_new\<rparr>"

definition zero_connection :: "int \<Rightarrow> connection" where
  "zero_connection fd = \<lparr>conn_id = fd, conn_agent = 0, conn_client = 0, remote_name = [], conn_buffer = databuffer_new\<rparr>"

definition gate_release :: "gate \<Rightarrow> gate_act list \<times> gate" where
  "gate_release g =
     (map (\<lambda>c. SocketClose (conn_id c)) (filter (\<lambda>c. conn_id c \<ge> 0) (take (max_connection g) (gate_conn g))) @
        (if listen_id g \<ge> 0 then [SocketClose (listen_id g)] else []),
      g\<lparr>gate_mp := messagepool_free (gate_mp g), gate_hash := hashid_clear (gate_hash g), gate_conn := []\<rparr>)"

section \<open>Control messages\<close>

text \<open>\<^verbatim>\<open>_parm\<close>: drops the command and the spaces behind it.\<close>

definition gate_parm :: "string \<Rightarrow> nat \<Rightarrow> string" where
  "gate_parm msg command_sz = dropWhile (\<lambda>c. c = CHR '' '') (drop command_sz msg)"

definition forward_agent :: "gate \<Rightarrow> int \<Rightarrow> u32 \<Rightarrow> u32 \<Rightarrow> gate option" where
  "forward_agent g fd agentaddr clientaddr = do {
     i \<leftarrow> hashid_lookup (gate_hash g) fd;
     if i \<ge> 0 then do {
       c \<leftarrow> c_index (gate_conn g) (nat i);
       Some (g\<lparr>gate_conn := (gate_conn g)[nat i := c\<lparr>conn_agent := agentaddr, conn_client := clientaddr\<rparr>]\<rparr>)
     } else Some g }"

text \<open>
  The branch \<^verbatim>\<open>forward\<close>: id, agent and client, the last two with one character before the hexadecimal digits. Behind an
  empty agent comes the client; behind an empty client the code reads stale bytes of its copy, which the model refuses.
\<close>

definition ctrl_forward :: "gate \<Rightarrow> string \<Rightarrow> (gate_act list \<times> gate) option" where
  "ctrl_forward g parm = (let (idstr, client) = strsep (CHR '' '') parm in
     case client of None \<Rightarrow> Some ([], g)
     | Some s \<Rightarrow> let (agent, client) = strsep (CHR '' '') s in
       (case client of None \<Rightarrow> Some ([], g)
        | Some cl \<Rightarrow> do {
            c_assert (cl \<noteq> []);
            let agent_handle = ucast (strtoul (if agent = [] then cl else tl agent) 16);
            g' \<leftarrow> forward_agent g (c_int (strtol idstr 10)) agent_handle (ucast (strtoul (tl cl) 16));
            Some ([], g') }))"

text \<open>The branches \<^verbatim>\<open>kick\<close> and \<^verbatim>\<open>start\<close>: an action on a connection of the gate.\<close>

definition ctrl_socket :: "(int \<Rightarrow> gate_act) \<Rightarrow> gate \<Rightarrow> string \<Rightarrow> (gate_act list \<times> gate) option" where
  "ctrl_socket act g parm = do {
     let uid = c_int (strtol parm 10);
     i \<leftarrow> hashid_lookup (gate_hash g) uid;
     Some (if i \<ge> 0 then [act uid] else [], g) }"

definition gate_ctrl :: "(string \<Rightarrow> u32) \<Rightarrow> gate \<Rightarrow> string \<Rightarrow> (gate_act list \<times> gate) option" where
  "gate_ctrl queryname g msg =
     (if msg = [] then Some ([], g)
      else let i = length (takeWhile (\<lambda>c. c \<noteq> CHR '' '') msg); parm = gate_parm msg i in do {
        kick \<leftarrow> memcmp_lit msg ''kick'' i;
        if kick then ctrl_socket SocketClose g parm
        else do {
          forward \<leftarrow> memcmp_lit msg ''forward'' i;
          if forward then ctrl_forward g parm
          else do {
            brok \<leftarrow> memcmp_lit msg ''broker'' i;
            if brok then Some ([], g\<lparr>broker := queryname (c_str parm)\<rparr>)
            else do {
              start \<leftarrow> memcmp_lit msg ''start'' i;
              if start then ctrl_socket SocketStart g parm
              else do {
                close \<leftarrow> memcmp_lit msg ''close'' i;
                if close then Some (if listen_id g \<ge> 0 then ([SocketClose (listen_id g)], g\<lparr>listen_id := -1\<rparr>) else ([], g))
                else Some ([LogError (''[gate] Unkown command : '' @ c_str msg)], g)
              } } } } })"

section \<open>Frames\<close>

text \<open>\<^verbatim>\<open>_report\<close> with the formatted text (its buffer holds 1023 characters, more than any text of the gate).\<close>

definition gate_report :: "gate \<Rightarrow> string \<Rightarrow> gate_act list" where
  "gate_report g text = (if watchdog g = 0 then [] else [SendMsg 0 (watchdog g) PTYPE_TEXT 0 (bytes_of text)])"

definition gate_forward :: "gate \<Rightarrow> connection \<Rightarrow> nat \<Rightarrow> messagepool \<Rightarrow> (gate_act list \<times> connection \<times> messagepool) option" where
  "gate_forward g c sz mp = (let fd = conn_id c in
     if fd \<le> 0 then Some ([], c, mp)
     else if broker g \<noteq> 0 then do {
       (temp, db, mp) \<leftarrow> databuffer_read sz (conn_buffer c) mp;
       Some ([SendMsg 0 (broker g) (client_tag g OR PTYPE_TAG_DONTCOPY) fd temp], c\<lparr>conn_buffer := db\<rparr>, mp) }
     else if conn_agent c \<noteq> 0 then do {
       (temp, db, mp) \<leftarrow> databuffer_read sz (conn_buffer c) mp;
       Some ([SendMsg (conn_client c) (conn_agent c) (client_tag g OR PTYPE_TAG_DONTCOPY) fd temp], c\<lparr>conn_buffer := db\<rparr>, mp) }
     else if watchdog g \<noteq> 0 then do {
       (temp, db, mp) \<leftarrow> databuffer_read sz (conn_buffer c) mp;
       Some ([SendMsg 0 (watchdog g) (PTYPE_TEXT OR PTYPE_TAG_DONTCOPY) fd (bytes_of (show_int fd @ '' data '') @ temp)],
         c\<lparr>conn_buffer := db\<rparr>, mp) }
     else Some ([], c, mp))"

definition MAX_FRAME :: int where "MAX_FRAME = 0x1000000"

text \<open>The loop of \<^verbatim>\<open>dispatch_message\<close>.\<close>

partial_function (option) dispatch_loop ::
    "gate \<Rightarrow> int \<Rightarrow> connection \<Rightarrow> messagepool \<Rightarrow> (gate_act list \<times> connection \<times> messagepool) option" where
  "dispatch_loop g sock c mp =
     databuffer_readheader (header_size g) (conn_buffer c) mp \<bind> (\<lambda>(sz, db, mp).
       let c = c\<lparr>conn_buffer := db\<rparr> in
       if sz < 0 then Some ([], c, mp)
       else if 0 < sz then
         (if MAX_FRAME \<le> sz then
            databuffer_clear db mp \<bind> (\<lambda>(db, mp).
              Some ([SocketClose sock, LogError ''Recv socket message > 16M''], c\<lparr>conn_buffer := db\<rparr>, mp))
          else gate_forward g c (nat sz) mp \<bind> (\<lambda>(acts, c, mp).
            dispatch_loop g sock (c\<lparr>conn_buffer := databuffer_reset (conn_buffer c)\<rparr>) mp \<bind> (\<lambda>(acts', r).
              Some (acts @ acts', r))))
       else dispatch_loop g sock c mp)"

definition gate_dispatch_message ::
    "gate \<Rightarrow> int \<Rightarrow> u8 list \<Rightarrow> connection \<Rightarrow> messagepool \<Rightarrow> (gate_act list \<times> connection \<times> messagepool) option" where
  "gate_dispatch_message g sock data c mp = do {
     (db, mp) \<leftarrow> databuffer_push data (conn_buffer c) mp;
     dispatch_loop g sock (c\<lparr>conn_buffer := db\<rparr>) mp }"

section \<open>Socket messages\<close>

text \<open>
  The messages of the socket thread that the gate handles (\<^verbatim>\<open>struct skynet_socket_message\<close>, by its type): data with the
  bytes received, and the bytes behind the message for an accept, which are the remote address.
\<close>

datatype socket_message = SockData int "u8 list" | SockConnect int | SockClose int | SockError int
  | SockAccept int int string | SockWarning int int | SockOther

text \<open>The cases \<^verbatim>\<open>DATA\<close>, \<^verbatim>\<open>CLOSE\<close>/\<^verbatim>\<open>ERROR\<close> and \<^verbatim>\<open>ACCEPT\<close> of \<^verbatim>\<open>dispatch_socket_message\<close>.\<close>

definition gate_data :: "gate \<Rightarrow> int \<Rightarrow> u8 list \<Rightarrow> (gate_act list \<times> gate) option" where
  "gate_data g fd data = do {
     i \<leftarrow> hashid_lookup (gate_hash g) fd;
     if i \<ge> 0 then do {
       c \<leftarrow> c_index (gate_conn g) (nat i);
       (acts, c, mp) \<leftarrow> gate_dispatch_message g fd data c (gate_mp g);
       Some (acts, g\<lparr>gate_conn := (gate_conn g)[nat i := c], gate_mp := mp\<rparr>)
     } else Some ([LogError (''Drop unknown connection '' @ show_int fd @ '' message''), SocketClose fd], g) }"

definition gate_close :: "gate \<Rightarrow> int \<Rightarrow> (gate_act list \<times> gate) option" where
  "gate_close g fd = do {
     (i, h) \<leftarrow> hashid_remove (gate_hash g) fd;
     let g = g\<lparr>gate_hash := h\<rparr>;
     if i \<ge> 0 then do {
       c \<leftarrow> c_index (gate_conn g) (nat i);
       (db, mp) \<leftarrow> databuffer_clear (conn_buffer c) (gate_mp g);
       let g = g\<lparr>gate_conn := (gate_conn g)[nat i := zero_connection (-1)], gate_mp := mp\<rparr>;
       Some (gate_report g (show_int fd @ '' close''), g)
     } else Some ([], g) }"

definition gate_accept :: "gate \<Rightarrow> int \<Rightarrow> int \<Rightarrow> string \<Rightarrow> (gate_act list \<times> gate) option" where
  "gate_accept g fd newfd name = do {
     c_assert (listen_id g = fd);
     if hashid_full (gate_hash g) then Some ([SocketClose newfd], g)
     else do {
       (i, h) \<leftarrow> hashid_insert (gate_hash g) newfd;
       c \<leftarrow> c_index (gate_conn g) (nat i);
       let c = c\<lparr>conn_id := newfd, remote_name := c_str (take 31 name)\<rparr>;
       Some (gate_report g (show_int newfd @ '' open '' @ show_int newfd @ '' '' @ remote_name c @ '':0'') @
           [LogError (''socket open: '' @ show_hex (nat (newfd mod 2 ^ 32)))],
         g\<lparr>gate_hash := h, gate_conn := (gate_conn g)[nat i := c]\<rparr>)
     } }"

definition gate_socket :: "gate \<Rightarrow> socket_message \<Rightarrow> (gate_act list \<times> gate) option" where
  "gate_socket g m = (case m of
       SockData fd data \<Rightarrow> gate_data g fd data
     | SockConnect fd \<Rightarrow>
        (if fd = listen_id g then Some ([], g)
         else do {
           i \<leftarrow> hashid_lookup (gate_hash g) fd;
           Some (if i < 0 then [LogError (''Close unknown connection '' @ show_int fd), SocketClose fd] else [], g) })
     | SockClose fd \<Rightarrow> gate_close g fd
     | SockError fd \<Rightarrow> gate_close g fd
     | SockAccept fd newfd name \<Rightarrow> gate_accept g fd newfd name
     | SockWarning fd kb \<Rightarrow> Some ([LogError (''fd ('' @ show_int fd @ '') send buffer ('' @ show_int kb @ '')K'')], g)
     | SockOther \<Rightarrow> Some ([], g))"

text \<open>
  The callback. A message of type \<^verbatim>\<open>PTYPE_CLIENT\<close> ends with the id of the socket to write it to, little-endian; the
  first component is 1 when the socket keeps the memory of the message.
\<close>

datatype gate_msg = GateText string | GateClient "u8 list" | GateSocket socket_message | GateOther

definition client_uid :: "u8 list \<Rightarrow> int" where
  "client_uid idbuf = c_int (int (unat (idbuf ! 0)) + int (unat (idbuf ! 1)) * 2 ^ 8 +
     int (unat (idbuf ! 2)) * 2 ^ 16 + int (unat (idbuf ! 3)) * 2 ^ 24)"

definition gate_client :: "gate \<Rightarrow> u32 \<Rightarrow> u8 list \<Rightarrow> (nat \<times> gate_act list \<times> gate) option" where
  "gate_client g source msg =
     (if length msg \<le> 4 then Some (0, [LogError (''Invalid client message from '' @ show_hex (unat source))], g)
      else do {
        let uid = client_uid (drop (length msg - 4) msg);
        i \<leftarrow> hashid_lookup (gate_hash g) uid;
        Some (if i \<ge> 0 then (1, [SocketSend uid (take (length msg - 4) msg)], g)
          else (0, [LogError (''Invalid client id '' @ show_int uid @ '' from '' @ show_hex (unat source))], g)) })"

definition gate_cb :: "(string \<Rightarrow> u32) \<Rightarrow> gate \<Rightarrow> u32 \<Rightarrow> gate_msg \<Rightarrow> (nat \<times> gate_act list \<times> gate) option" where
  "gate_cb queryname g source m = (case m of
       GateText msg \<Rightarrow> map_option (Pair 0) (gate_ctrl queryname g msg)
     | GateClient msg \<Rightarrow> gate_client g source msg
     | GateSocket sm \<Rightarrow> map_option (Pair 0) (gate_socket g sm)
     | GateOther \<Rightarrow> Some (0, [], g))"

section \<open>Start\<close>

text \<open>
  \<^verbatim>\<open>start_listen\<close>: the port behind the last colon, the host before it. The function \<^verbatim>\<open>listen\<close> stands for
  \<^verbatim>\<open>skynet_socket_listen\<close>. The first component is the C result, 1 for a failure.
\<close>

definition split_address :: "string \<Rightarrow> string \<times> string" where
  "split_address addr = (if CHR '':'' \<in> set addr
     then (rev (tl (dropWhile (\<lambda>c. c \<noteq> CHR '':'') (rev addr))), rev (takeWhile (\<lambda>c. c \<noteq> CHR '':'') (rev addr)))
     else ([], addr))"

definition start_listen :: "(string \<Rightarrow> int \<Rightarrow> int) \<Rightarrow> gate \<Rightarrow> string \<Rightarrow> nat \<times> gate_act list \<times> gate" where
  "start_listen listen g listen_addr =
     (let (host, portstr) = split_address listen_addr; port = c_int (strtol portstr 10) in
      if port \<le> 0 then (1, [LogError (''Invalid gate address '' @ listen_addr)], g)
      else let g = g\<lparr>listen_id := listen host port\<rparr> in
        if listen_id g < 0 then (1, [], g) else (0, [SocketStart (listen_id g)], g))"

text \<open>The conversions of \<^verbatim>\<open>sscanf\<close> in \<^verbatim>\<open>gate_init\<close>: a character, two words and two numbers.\<close>

definition scan_params :: "string \<Rightarrow> nat \<times> char \<times> string \<times> string \<times> int \<times> int" where
  "scan_params parm = (case parm of [] \<Rightarrow> (0, NUL, [], [], 0, 0)
     | h # s \<Rightarrow> (case scan_word s of None \<Rightarrow> (1, h, [], [], 0, 0)
        | Some (w, s) \<Rightarrow> (case scan_word s of None \<Rightarrow> (2, h, w, [], 0, 0)
           | Some (b, s) \<Rightarrow> (case scan_int s of None \<Rightarrow> (3, h, w, b, 0, 0)
              | Some (tag, s) \<Rightarrow> (case scan_int s of None \<Rightarrow> (4, h, w, b, tag, 0)
                 | Some (mx, s) \<Rightarrow> (5, h, w, b, tag, mx))))))"

definition gate_init :: "(string \<Rightarrow> u32) \<Rightarrow> (string \<Rightarrow> int \<Rightarrow> int) \<Rightarrow> gate \<Rightarrow> string option \<Rightarrow> (nat \<times> gate_act list \<times> gate) option" where
  "gate_init queryname listen g parm = (case parm of None \<Rightarrow> Some (1, [], g)
     | Some parm \<Rightarrow>
        (let (n, header, wdog, binding, tag, mx) = scan_params parm in
         if n < 4 then Some (1, [LogError (''Invalid gate parm '' @ parm)], g)
         else if mx \<le> 0 then Some (1, [LogError ''Need max connection''], g)
         else if header \<noteq> CHR ''S'' \<and> header \<noteq> CHR ''L'' then Some (1, [LogError ''Invalid data header style''], g)
         else
           let g = g\<lparr>watchdog := (if hd wdog = CHR ''!'' then 0 else queryname wdog)\<rparr> in
           if hd wdog \<noteq> CHR ''!'' \<and> watchdog g = 0 then Some (1, [LogError (''Invalid watchdog '' @ wdog)], g)
           else do {
             h \<leftarrow> hashid_init (nat mx);
             let (r, acts, g) = start_listen listen (g\<lparr>gate_hash := h, gate_conn := replicate (nat mx) (zero_connection (-1)),
               max_connection := nat mx, client_tag := (if tag = 0 then PTYPE_CLIENT else nat (tag mod 2 ^ 32)),
               header_size := (if header = CHR ''S'' then 2 else 4)\<rparr>) binding;
             Some (r, SetCallback # acts, g)
           }))"

end
