(* ===== verification/GateFrames.thy ===== *)
theory GateFrames
  imports Gate
begin

text \<open>
  The framing of the gate: what the loop of \<^verbatim>\<open>dispatch_message\<close> sends is the decoding of the byte stream, however it
  was cut into packets, and the loop always ends.
\<close>

section \<open>The decoding of a stream\<close>

text \<open>Whether a frame of a connection has a receiver, and the message that carries it.\<close>

definition receiver :: "gate \<Rightarrow> connection \<Rightarrow> bool" where
  "receiver g c \<longleftrightarrow> 0 < conn_id c \<and> (broker g \<noteq> 0 \<or> conn_agent c \<noteq> 0 \<or> watchdog g \<noteq> 0)"

definition route :: "gate \<Rightarrow> int \<Rightarrow> u32 \<Rightarrow> u32 \<Rightarrow> u8 list \<Rightarrow> gate_act" where
  "route g fd agent client frame =
     (if broker g \<noteq> 0 then SendMsg 0 (broker g) (client_tag g OR PTYPE_TAG_DONTCOPY) fd frame
      else if agent \<noteq> 0 then SendMsg client agent (client_tag g OR PTYPE_TAG_DONTCOPY) fd frame
      else SendMsg 0 (watchdog g) (PTYPE_TEXT OR PTYPE_TAG_DONTCOPY) fd (bytes_of (show_int fd @ '' data '') @ frame))"

definition route_of :: "gate \<Rightarrow> connection \<Rightarrow> u8 list \<Rightarrow> gate_act" where
  "route_of g c = route g (conn_id c) (conn_agent c) (conn_client c)"

text \<open>
  The specification: the frames in a stream that starts with the length \<^verbatim>\<open>h\<close> known (0: none), whether a frame was
  too long, and what is left.
\<close>

function decode :: "nat \<Rightarrow> int \<Rightarrow> u8 list \<Rightarrow> u8 list list \<times> bool \<times> int \<times> u8 list" where
  "decode hs h bs =
     (if hs = 0 then ([], False, h, bs)
      else let (h', bs') = hdr_step hs (h, bs) in
        if hdr_result hs (h, bs) < 0 then ([], False, h', bs')
        else if h' = 0 then decode hs 0 bs'
        else if MAX_FRAME \<le> h' then ([], True, 0, [])
        else (case decode hs 0 (drop (nat h') bs') of (fs, r) \<Rightarrow> (take (nat h') bs' # fs, r)))"
  by pat_completeness auto
termination
proof (relation "measure (\<lambda>(hs, h, bs). length bs)", goal_cases)
  case (2 hs h bs x h' bs')
  then have "bs' = drop hs bs" "hs \<le> length bs" by (auto simp: hdr_step_def hdr_result_def split: if_splits)
  with 2(1) show ?case by (cases bs) auto
next
  case (3 hs h bs x h' bs')
  then have "0 < h'" "int (length bs') \<ge> h'" "length bs' \<le> length bs"
    by (auto simp: hdr_step_def hdr_result_def split: if_splits)
  then show ?case by (cases bs') auto
qed simp

declare decode.simps [simp del]

lemma gate_forward_view:
  assumes "db_wf (conn_buffer c)" "pool_ok k (conn_buffer c) mp" "0 < n" "n \<le> length (db_bytes (conn_buffer c))"
  shows "\<exists>acts db' mp'. gate_forward g c n mp = Some (acts, c\<lparr>conn_buffer := db'\<rparr>, mp') \<and> db_wf db' \<and> pool_ok k db' mp' \<and>
    (if receiver g c then acts = [route_of g c (take n (db_bytes (conn_buffer c)))] \<and> db_bytes db' = drop n (db_bytes (conn_buffer c))
     else acts = [] \<and> db' = conn_buffer c)"
proof -
  obtain db' mp' where r: "databuffer_read n (conn_buffer c) mp = Some (take n (db_bytes (conn_buffer c)), db', mp')"
      "db_wf db'" "pool_ok k db' mp'" "db_bytes db' = drop n (db_bytes (conn_buffer c))"
    using databuffer_read_bytes [OF assms] by blast
  show ?thesis
  proof (cases "receiver g c")
    case True
    with r show ?thesis
      by (intro exI [of _ "[route_of g c (take n (db_bytes (conn_buffer c)))]"] exI [of _ db'] exI [of _ mp'])
        (auto simp: gate_forward_def receiver_def route_of_def route_def Let_def)
  next
    case False
    then have "gate_forward g c n mp = Some ([], c, mp)"
      by (auto simp: gate_forward_def receiver_def Let_def)
    with False assms(1,2) show ?thesis by (intro exI [of _ "[]"] exI [of _ "conn_buffer c"] exI [of _ mp]) simp
  qed
qed

text \<open>The loop ends for every stream and every header size, with or without a receiver.\<close>

lemma dispatch_loop_total:
  assumes "db_wf (conn_buffer c)" "pool_ok k (conn_buffer c) mp" "0 < header_size g"
  shows "\<exists>acts db' mp'. dispatch_loop g sock c mp = Some (acts, c\<lparr>conn_buffer := db'\<rparr>, mp') \<and> db_wf db' \<and> pool_ok k db' mp'"
  using assms
proof (induction "2 * length (db_bytes (conn_buffer c)) + (if db_header (conn_buffer c) \<noteq> 0 then 1 else 0)"
    arbitrary: c mp rule: less_induct)
  case less
  let ?hs = "header_size g"
  obtain h bs where v: "db_view (conn_buffer c) = (h, bs)" by (cases "db_view (conn_buffer c)")
  then have hb: "db_header (conn_buffer c) = h" "db_bytes (conn_buffer c) = bs" by (simp_all add: db_view_def)
  obtain db1 mp1 where rh: "databuffer_readheader ?hs (conn_buffer c) mp = Some (hdr_result ?hs (h, bs), db1, mp1)"
      "db_wf db1" "pool_ok k db1 mp1" "db_view db1 = hdr_step ?hs (h, bs)"
    using databuffer_readheader_view [OF less.prems] v by auto
  obtain h1 bs1 where s1: "hdr_step ?hs (h, bs) = (h1, bs1)" by (cases "hdr_step ?hs (h, bs)")
  with rh(4) have v1: "db_header db1 = h1" "db_bytes db1 = bs1" by (simp_all add: db_view_def)
  let ?c1 = "c\<lparr>conn_buffer := db1\<rparr>" and ?r = "hdr_result ?hs (h, bs)"
  consider (wait) "?r < 0" | (zero) "?r = 0" | (big) "0 < ?r" "MAX_FRAME \<le> ?r" | (frame) "0 < ?r" "?r < MAX_FRAME" by linarith
  then show ?case
  proof cases
    case wait
    then have "dispatch_loop g sock c mp = Some ([], c\<lparr>conn_buffer := db1\<rparr>, mp1)"
      using rh(1) by (subst dispatch_loop.simps) (simp add: Let_def)
    with rh(2,3) show ?thesis by blast
  next
    case zero
    then have "h = 0" "?hs \<le> length bs" "h1 = 0" "bs1 = drop ?hs bs"
      using s1 by (auto simp: hdr_result_def hdr_step_def split: if_splits)
    then have "2 * length bs1 + (if h1 \<noteq> 0 then 1 else 0) < 2 * length bs + (if h \<noteq> 0 then 1 else 0)"
      using less.prems(3) by (cases bs) auto
    with less.hyps [of ?c1 mp1] rh(2,3) less.prems(3) v1 hb
    obtain acts db' mp' where "dispatch_loop g sock ?c1 mp1 = Some (acts, c\<lparr>conn_buffer := db'\<rparr>, mp')" "db_wf db'" "pool_ok k db' mp'"
      by auto
    moreover have "dispatch_loop g sock c mp = dispatch_loop g sock ?c1 mp1"
      using zero rh(1) by (subst dispatch_loop.simps) (simp add: Let_def)
    ultimately show ?thesis by auto
  next
    case big
    from databuffer_clear_ok [OF rh(3)] obtain mp' where
      cl: "databuffer_clear db1 mp1 = Some (databuffer_new, mp')" "pool_ok k databuffer_new mp'" by blast
    have "dispatch_loop g sock c mp = Some ([SocketClose sock, LogError ''Recv socket message > 16M''],
        c\<lparr>conn_buffer := databuffer_new\<rparr>, mp')"
      using big rh(1) cl(1) by (subst dispatch_loop.simps) (simp add: Let_def)
    with cl(2) show ?thesis using databuffer_new_wf(1) by blast
  next
    case frame
    let ?n = "nat ?r"
    have n: "0 < ?n" "?n \<le> length (db_bytes (conn_buffer ?c1))"
      using frame s1 v1 by (auto simp: hdr_result_def split: if_splits)
    have wf1: "db_wf (conn_buffer ?c1)" "pool_ok k (conn_buffer ?c1) mp1" using rh(2,3) by simp_all
    from gate_forward_view [OF wf1 n, of g] obtain acts db2 mp2 where
      f: "gate_forward g ?c1 ?n mp1 = Some (acts, c\<lparr>conn_buffer := db2\<rparr>, mp2)" "db_wf db2" "pool_ok k db2 mp2"
        "if receiver g ?c1 then db_bytes db2 = drop ?n bs1 else db2 = db1" using v1 by auto
    let ?c2 = "c\<lparr>conn_buffer := databuffer_reset db2\<rparr>"
    have m: "2 * length (db_bytes (databuffer_reset db2)) < 2 * length bs + (if h \<noteq> 0 then 1 else 0)"
    proof -
      have l: "length (db_bytes db2) \<le> length bs1" using f(4) v1 by (auto split: if_splits)
      have "h \<noteq> 0 \<or> length bs1 < length bs"
        using frame s1 less.prems(3) by (auto simp: hdr_step_def hdr_result_def split: if_splits)
      moreover have "length bs1 \<le> length bs" using s1 by (auto simp: hdr_step_def split: if_splits)
      ultimately show ?thesis using l by (auto simp: databuffer_reset_def)
    qed
    have "db_wf (conn_buffer ?c2)" "pool_ok k (conn_buffer ?c2) mp2" "db_header (conn_buffer ?c2) = 0"
      using f(2,3) by (simp_all add: databuffer_reset_def)
    with less.hyps [of ?c2 mp2] m less.prems(3) hb obtain acts' db' mp' where
      rec: "dispatch_loop g sock ?c2 mp2 = Some (acts', c\<lparr>conn_buffer := db'\<rparr>, mp')" "db_wf db'" "pool_ok k db' mp'" by auto
    have "dispatch_loop g sock c mp = Some (acts @ acts', c\<lparr>conn_buffer := db'\<rparr>, mp')"
      using frame rh(1) f(1) rec(1) by (subst dispatch_loop.simps) (simp add: Let_def)
    with rec(2,3) show ?thesis by blast
  qed
qed

text \<open>With a receiver the loop sends exactly the frames of the specification, and the two actions of a frame that is too long.\<close>

definition closing :: "int \<Rightarrow> bool \<Rightarrow> gate_act list" where
  "closing sock closed = (if closed then [SocketClose sock, LogError ''Recv socket message > 16M''] else [])"

lemma dispatch_loop_decode:
  assumes "db_wf (conn_buffer c)" "pool_ok k (conn_buffer c) mp" "0 < header_size g" "receiver g c"
    and "decode (header_size g) (db_header (conn_buffer c)) (db_bytes (conn_buffer c)) = (fs, closed, h', bs')"
  shows "\<exists>db' mp'. dispatch_loop g sock c mp = Some (map (route_of g c) fs @ closing sock closed, c\<lparr>conn_buffer := db'\<rparr>, mp') \<and>
    db_wf db' \<and> pool_ok k db' mp' \<and> db_view db' = (h', bs')"
  using assms
proof (induction "length (db_bytes (conn_buffer c))" arbitrary: c mp fs rule: less_induct)
  case less
  let ?hs = "header_size g"
  obtain h bs where v: "db_view (conn_buffer c) = (h, bs)" by (cases "db_view (conn_buffer c)")
  then have hb: "db_header (conn_buffer c) = h" "db_bytes (conn_buffer c) = bs" by (simp_all add: db_view_def)
  obtain db1 mp1 where rh: "databuffer_readheader ?hs (conn_buffer c) mp = Some (hdr_result ?hs (h, bs), db1, mp1)"
      "db_wf db1" "pool_ok k db1 mp1" "db_view db1 = hdr_step ?hs (h, bs)"
    using databuffer_readheader_view [OF less.prems(1-3)] v by auto
  obtain h1 bs1 where s1: "hdr_step ?hs (h, bs) = (h1, bs1)" by (cases "hdr_step ?hs (h, bs)")
  with rh(4) have v1: "db_header db1 = h1" "db_bytes db1 = bs1" by (simp_all add: db_view_def)
  let ?c1 = "c\<lparr>conn_buffer := db1\<rparr>" and ?r = "hdr_result ?hs (h, bs)"
  have rt: "route_of g (c\<lparr>conn_buffer := db\<rparr>) = route_of g c" "receiver g (c\<lparr>conn_buffer := db\<rparr>) = receiver g c" for db
    by (simp_all add: route_of_def receiver_def)
  have dec: "decode ?hs h bs = (if ?r < 0 then ([], False, h1, bs1)
      else if h1 = 0 then decode ?hs 0 bs1 else if MAX_FRAME \<le> h1 then ([], True, 0, [])
      else (case decode ?hs 0 (drop (nat h1) bs1) of (fs, r) \<Rightarrow> (take (nat h1) bs1 # fs, r)))"
    using less.prems(3) s1 by (subst decode.simps) simp
  have rh1: "?r = h1" if "0 \<le> ?r" using that s1 by (auto simp: hdr_result_def split: if_splits)
  consider (wait) "?r < 0" | (zero) "?r = 0" | (big) "0 < ?r" "MAX_FRAME \<le> ?r" | (frame) "0 < ?r" "?r < MAX_FRAME" by linarith
  then show ?case
  proof cases
    case wait
    have "dispatch_loop g sock c mp = Some ([], ?c1, mp1)"
      using rh(1) wait by (subst dispatch_loop.simps) (simp add: Let_def)
    with wait rh less.prems(5) s1 show ?thesis unfolding hb dec by (auto simp: closing_def)
  next
    case zero
    then have z: "h = 0" "?hs \<le> length bs" "h1 = 0" "bs1 = drop ?hs bs"
      using s1 by (auto simp: hdr_result_def hdr_step_def split: if_splits)
    then have "length bs1 < length bs" using less.prems(3) by (cases bs) auto
    with less.hyps [of ?c1 mp1 fs] rh(2,3) less.prems(3,4,5) v1 zero z(3)
    obtain db' mp' where "dispatch_loop g sock ?c1 mp1 = Some (map (route_of g c) fs @ closing sock closed, c\<lparr>conn_buffer := db'\<rparr>, mp')"
        "db_wf db'" "pool_ok k db' mp'" "db_view db' = (h', bs')"
      unfolding hb dec by (auto simp: rt)
    moreover have "dispatch_loop g sock c mp = dispatch_loop g sock ?c1 mp1"
      using zero rh(1) by (subst dispatch_loop.simps) (simp add: Let_def)
    ultimately show ?thesis by auto
  next
    case big
    from databuffer_clear_ok [OF rh(3)] obtain mp' where
      cl: "databuffer_clear db1 mp1 = Some (databuffer_new, mp')" "pool_ok k databuffer_new mp'" by blast
    have "dispatch_loop g sock c mp = Some (closing sock True, c\<lparr>conn_buffer := databuffer_new\<rparr>, mp')"
      using big rh(1) cl(1) by (subst dispatch_loop.simps) (simp add: Let_def closing_def)
    moreover have "fs = []" "closed" "h' = 0" "bs' = []"
      using less.prems(5) big rh1 unfolding hb dec by auto
    ultimately show ?thesis using cl(2) by (auto simp: db_view_def databuffer_new_def db_wf_def db_bytes_def)
  next
    case frame
    let ?n = "nat ?r"
    have n: "0 < ?n" "?n \<le> length (db_bytes (conn_buffer ?c1))"
      using frame s1 v1 by (auto simp: hdr_result_def split: if_splits)
    have wf1: "db_wf (conn_buffer ?c1)" "pool_ok k (conn_buffer ?c1) mp1" using rh(2,3) by simp_all
    from gate_forward_view [OF wf1 n, of g] less.prems(4) obtain db2 mp2 where
      f: "gate_forward g ?c1 ?n mp1 = Some ([route_of g c (take ?n bs1)], c\<lparr>conn_buffer := db2\<rparr>, mp2)" "db_wf db2" "pool_ok k db2 mp2"
        "db_bytes db2 = drop ?n bs1" using v1 by (auto simp: rt)
    let ?c2 = "c\<lparr>conn_buffer := databuffer_reset db2\<rparr>"
    have m: "length (db_bytes (conn_buffer ?c2)) < length (db_bytes (conn_buffer c))"
    proof -
      have "length bs1 \<le> length bs" using s1 by (auto simp: hdr_step_def split: if_splits)
      moreover have "db_bytes (conn_buffer ?c2) = drop ?n bs1" using f(4) by (simp add: databuffer_reset_def)
      ultimately show ?thesis using n v1(2) hb(2) by simp
    qed
    obtain fs2 r2 where d2: "decode ?hs 0 (drop ?n bs1) = (fs2, r2)" by (cases "decode ?hs 0 (drop ?n bs1)")
    have fs: "fs = take ?n bs1 # fs2" "r2 = (closed, h', bs')"
      using less.prems(5) frame rh1 d2 unfolding hb dec by auto
    have "db_wf (conn_buffer ?c2)" "pool_ok k (conn_buffer ?c2) mp2" "db_header (conn_buffer ?c2) = 0"
        "db_bytes (conn_buffer ?c2) = drop ?n bs1"
      using f by (simp_all add: databuffer_reset_def)
    with less.hyps [of ?c2 mp2 fs2] m less.prems(3,4) d2 fs(2) obtain db' mp' where
      rec: "dispatch_loop g sock ?c2 mp2 = Some (map (route_of g c) fs2 @ closing sock closed, c\<lparr>conn_buffer := db'\<rparr>, mp')"
        "db_wf db'" "pool_ok k db' mp'" "db_view db' = (h', bs')" by (auto simp: rt)
    have "dispatch_loop g sock c mp = Some (map (route_of g c) fs @ closing sock closed, c\<lparr>conn_buffer := db'\<rparr>, mp')"
      using frame rh(1) f(1) rec(1) by (subst dispatch_loop.simps) (simp add: Let_def fs(1))
    with rec(2-4) show ?thesis by blast
  qed
qed

section \<open>Packets do not matter\<close>

text \<open>With the header of 2 bytes no frame is too long, and a stream that ended is decoded on from where it stopped.\<close>

lemma hdr_step_2: "0 \<le> h \<Longrightarrow> h < 2 ^ 16 \<Longrightarrow> hdr_step 2 (h, bs) = (h', bs') \<Longrightarrow> 0 \<le> h' \<and> h' < 2 ^ 16"
  using header_value_2 [of "take 2 bs"] by (auto simp: hdr_step_def split: if_splits)

lemma decode_2:
  "0 \<le> h \<Longrightarrow> h < 2 ^ 16 \<Longrightarrow> hs = 2 \<Longrightarrow> decode hs h bs = (fs, closed, h', bs') \<Longrightarrow>
     \<not> closed \<and> 0 \<le> h' \<and> h' < 2 ^ 16 \<and> hdr_result 2 (h', bs') < 0 \<and> hdr_step 2 (h', bs') = (h', bs')"
proof (induction hs h bs arbitrary: fs rule: decode.induct)
  case (1 hs h bs)
  obtain h1 bs1 where s1: "hdr_step hs (h, bs) = (h1, bs1)" by (cases "hdr_step hs (h, bs)")
  have h1: "0 \<le> h1" "h1 < 2 ^ 16" using hdr_step_2 [of h bs h1 bs1] "1.prems" s1 by auto
  have hs0: "hs \<noteq> 0" using "1.prems"(3) by simp
  consider (wait) "hdr_result hs (h, bs) < 0" | (zero) "\<not> hdr_result hs (h, bs) < 0" "h1 = 0"
    | (frame) "\<not> hdr_result hs (h, bs) < 0" "h1 \<noteq> 0" by blast
  then show ?case
  proof cases
    case wait
    then have r: "closed = False" "h' = h1" "bs' = bs1" using "1.prems"(3,4) s1 by (subst (asm) decode.simps, simp)+
    have "hdr_result 2 (h1, bs1) < 0 \<and> hdr_step 2 (h1, bs1) = (h1, bs1)"
      using wait s1 "1.prems"(1,3) h1(1) by (auto simp: hdr_result_def hdr_step_def split: if_splits)
    then show ?thesis using r h1 by simp
  next
    case zero
    have "decode hs 0 bs1 = (fs, closed, h', bs')"
      using "1.prems"(4) zero s1 hs0 by (subst (asm) decode.simps) simp
    then show ?thesis using "1.IH"(1) [OF hs0 refl s1 [symmetric] zero] "1.prems"(3) by simp
  next
    case frame
    have nb: "\<not> MAX_FRAME \<le> h1" using h1 by (simp add: MAX_FRAME_def)
    obtain fs2 where "decode hs 0 (drop (nat h1) bs1) = (fs2, closed, h', bs')"
      using "1.prems"(4) frame nb s1 hs0 by (subst (asm) decode.simps) (auto split: prod.splits)
    then show ?thesis using "1.IH"(2) [OF hs0 refl s1 [symmetric] frame nb] "1.prems"(3) by simp
  qed
qed

lemma decode_append:
  "0 \<le> h \<Longrightarrow> h < 2 ^ 16 \<Longrightarrow> hs = 2 \<Longrightarrow> decode hs h bs = (fs, closed, h', bs') \<Longrightarrow>
     decode hs h (bs @ cs) = (fs @ fst (decode hs h' (bs' @ cs)), snd (decode hs h' (bs' @ cs)))"
proof (induction hs h bs arbitrary: fs rule: decode.induct)
  case (1 hs h bs)
  obtain h1 bs1 where s1: "hdr_step hs (h, bs) = (h1, bs1)" by (cases "hdr_step hs (h, bs)")
  have h1: "0 \<le> h1" "h1 < 2 ^ 16" using hdr_step_2 [of h bs h1 bs1] "1.prems" s1 by auto
  have hs0: "hs \<noteq> 0" using "1.prems"(3) by simp
  have nb: "\<not> MAX_FRAME \<le> h1" using h1 by (simp add: MAX_FRAME_def)
  show ?case
  proof (cases "hdr_result hs (h, bs) < 0")
    case True
    then have r: "fs = []" "h' = h1" "bs' = bs1" using "1.prems"(3,4) s1 by (subst (asm) decode.simps, simp)+
    have "decode hs h (bs @ cs) = decode hs h1 (bs1 @ cs)"
    proof (cases "h = 0 \<and> 2 \<le> length bs")
      case True
      then have "h1 \<noteq> 0" "hdr_step hs (h, bs @ cs) = (h1, bs1 @ cs)" "hdr_step hs (h1, bs1 @ cs) = (h1, bs1 @ cs)"
          "hdr_result hs (h, bs @ cs) = hdr_result hs (h1, bs1 @ cs)"
        using s1 \<open>hdr_result hs (h, bs) < 0\<close> "1.prems"(3) h1(1) by (auto simp: hdr_step_def hdr_result_def split: if_splits)
      then show ?thesis using hs0 by (subst (1 2) decode.simps) simp
    next
      case False
      then show ?thesis using s1 "1.prems"(3) by (simp add: hdr_step_def split: if_splits)
    qed
    then show ?thesis using r by simp
  next
    case False
    then have a: "hdr_step hs (h, bs @ cs) = (h1, bs1 @ cs)" "hdr_result hs (h, bs @ cs) = h1" "nat h1 \<le> length bs1"
      using s1 "1.prems"(3) by (auto simp: hdr_step_def hdr_result_def split: if_splits)
    show ?thesis
    proof (cases "h1 = 0")
      case True
      have "decode hs 0 bs1 = (fs, closed, h', bs')"
        using "1.prems"(4) False True s1 hs0 by (subst (asm) decode.simps) simp
      then have "decode hs 0 (bs1 @ cs) = (fs @ fst (decode hs h' (bs' @ cs)), snd (decode hs h' (bs' @ cs)))"
        using "1.IH"(1) [OF hs0 refl s1 [symmetric] False True] "1.prems"(3) by simp
      moreover have "decode hs h (bs @ cs) = decode hs 0 (bs1 @ cs)"
        using a hs0 True by (subst decode.simps) simp
      ultimately show ?thesis by simp
    next
      case nz: False
      obtain fs2 where fs2: "decode hs 0 (drop (nat h1) bs1) = (fs2, closed, h', bs')" "fs = take (nat h1) bs1 # fs2"
        using "1.prems"(4) False nz nb s1 hs0 by (subst (asm) decode.simps) (auto split: prod.splits)
      then have "decode hs 0 (drop (nat h1) bs1 @ cs) = (fs2 @ fst (decode hs h' (bs' @ cs)), snd (decode hs h' (bs' @ cs)))"
        using "1.IH"(2) [OF hs0 refl s1 [symmetric] False nz nb] "1.prems"(3) by simp
      then show ?thesis
        using a hs0 nz nb h1(1) fs2(2) by (subst decode.simps) simp
    qed
  qed
qed

text \<open>
  The gate with a header of 2 bytes is a decoder of the stream of a connection: the contract fixes the owner of the
  connection, everything of it but the buffer.
\<close>

definition stream_ok :: "gate \<Rightarrow> connection \<Rightarrow> nat \<Rightarrow> connection \<times> messagepool \<Rightarrow> bool" where
  "stream_ok g own k = (\<lambda>(c, mp). header_size g = 2 \<and> receiver g own \<and> c = own\<lparr>conn_buffer := conn_buffer c\<rparr> \<and>
     db_wf (conn_buffer c) \<and> pool_ok k (conn_buffer c) mp \<and>
     0 \<le> db_header (conn_buffer c) \<and> db_header (conn_buffer c) < 2 ^ 16 \<and>
     hdr_result 2 (db_view (conn_buffer c)) < 0 \<and> hdr_step 2 (db_view (conn_buffer c)) = db_view (conn_buffer c))"

definition packet_ok :: "u8 list \<Rightarrow> bool" where
  "packet_ok data \<longleftrightarrow> length data + 2 ^ 16 \<le> INT_MAX"

definition stream_dec :: "gate \<Rightarrow> connection \<Rightarrow> u8 list \<Rightarrow> int \<times> u8 list \<Rightarrow> gate_act list \<times> int \<times> u8 list" where
  "stream_dec g own data = (\<lambda>(h, bs). case decode 2 h (bs @ data) of (fs, closed, r) \<Rightarrow> (map (route_of g own) fs, r))"

definition stream_feed :: "gate \<Rightarrow> int \<Rightarrow> u8 list \<Rightarrow> connection \<times> messagepool \<Rightarrow> (gate_act list \<times> connection \<times> messagepool) option" where
  "stream_feed g sock data = (\<lambda>(c, mp). gate_dispatch_message g sock data c mp)"

lemma stable_length:
  "hdr_result 2 (h, bs) < 0 \<Longrightarrow> 0 \<le> h \<Longrightarrow> h < 2 ^ 16 \<Longrightarrow> hdr_step 2 (h, bs) = (h, bs) \<Longrightarrow> length bs < 2 ^ 16"
  by (auto simp: hdr_result_def split: if_splits)

lemma stream_feed_dec:
  assumes "stream_ok g own k s" "packet_ok data"
  shows "\<exists>s'. stream_feed g sock data s = Some (fst (stream_dec g own data (db_view (conn_buffer (fst s)))), s') \<and> stream_ok g own k s' \<and>
    db_view (conn_buffer (fst s')) = snd (stream_dec g own data (db_view (conn_buffer (fst s))))"
proof -
  obtain c mp where s: "s = (c, mp)" by (cases s)
  obtain h bs where v: "db_view (conn_buffer c) = (h, bs)" by (cases "db_view (conn_buffer c)")
  have ok: "header_size g = 2" "receiver g own" "c = own\<lparr>conn_buffer := conn_buffer c\<rparr>"
      "db_wf (conn_buffer c)" "pool_ok k (conn_buffer c) mp" "0 \<le> h" "h < 2 ^ 16" "length bs < 2 ^ 16"
      "db_header (conn_buffer c) = h" "db_bytes (conn_buffer c) = bs"
    using assms(1) v stable_length [of h bs] by (auto simp: stream_ok_def s db_view_def)
  have "db_size (conn_buffer c) + length data \<le> INT_MAX"
    using assms(2) ok(4,8,10) by (simp add: packet_ok_def db_wf_def)
  from databuffer_push_bytes [OF ok(4,5) this] obtain db mp1 where p:
    "databuffer_push data (conn_buffer c) mp = Some (db, mp1)" "db_wf db" "pool_ok k db mp1"
    "db_bytes db = bs @ data" "db_header db = h" using ok(9,10) by auto
  let ?c = "own\<lparr>conn_buffer := db\<rparr>"
  have c1: "c\<lparr>conn_buffer := db\<rparr> = ?c" by (subst ok(3)) simp
  obtain fs closed h' bs' where d: "decode 2 h (bs @ data) = (fs, closed, h', bs')" by (cases "decode 2 h (bs @ data)") auto
  from decode_2 [OF ok(6,7) refl d] have d2: "\<not> closed" "0 \<le> h'" "h' < 2 ^ 16" "hdr_result 2 (h', bs') < 0"
      "hdr_step 2 (h', bs') = (h', bs')" by auto
  have rt: "route_of g ?c = route_of g own" "receiver g ?c = receiver g own"
    by (simp_all add: route_of_def receiver_def)
  have "decode (header_size g) (db_header (conn_buffer ?c)) (db_bytes (conn_buffer ?c)) = (fs, closed, h', bs')"
    using d ok(1) p by simp
  with dispatch_loop_decode [of ?c k mp1 g fs closed h' bs' sock] p(2,3) ok(1,2) rt
  obtain db' mp' where "dispatch_loop g sock ?c mp1 = Some (map (route_of g own) fs, own\<lparr>conn_buffer := db'\<rparr>, mp')"
      "db_wf db'" "pool_ok k db' mp'" "db_view db' = (h', bs')" using d2(1) by (auto simp: closing_def)
  with p(1) c1 v d d2 ok(1,2) show ?thesis
    by (auto simp: s stream_feed_def gate_dispatch_message_def stream_dec_def stream_ok_def db_view_def)
qed

lemma stream_dec_append:
  assumes "stream_ok g own k s"
  shows "stream_dec g own (a @ b) (db_view (conn_buffer (fst s))) =
    (fst (stream_dec g own a (db_view (conn_buffer (fst s)))) @ fst (stream_dec g own b (snd (stream_dec g own a (db_view (conn_buffer (fst s)))))),
     snd (stream_dec g own b (snd (stream_dec g own a (db_view (conn_buffer (fst s)))))))"
proof -
  obtain h bs where v: "db_view (conn_buffer (fst s)) = (h, bs)" by (cases "db_view (conn_buffer (fst s))")
  then have h: "0 \<le> h" "h < 2 ^ 16" using assms by (auto simp: stream_ok_def db_view_def)
  obtain fs closed h' bs' where d: "decode 2 h (bs @ a) = (fs, closed, h', bs')" by (cases "decode 2 h (bs @ a)") auto
  from decode_append [OF h refl d, of b] show ?thesis
    by (simp add: v stream_dec_def d split: prod.splits)
qed

lemma stream_dec_Nil:
  assumes "stream_ok g own k s"
  shows "stream_dec g own [] (db_view (conn_buffer (fst s))) = ([], db_view (conn_buffer (fst s)))"
proof -
  obtain h bs where v: "db_view (conn_buffer (fst s)) = (h, bs)" by (cases "db_view (conn_buffer (fst s))")
  then show ?thesis using assms
    by (auto simp: stream_ok_def stream_dec_def case_prod_beta) (subst decode.simps, simp)+
qed

interpretation gd: stream_decoder "stream_ok g own k" packet_ok "\<lambda>s. db_view (conn_buffer (fst s))" "stream_feed g sock" "stream_dec g own"
  for g own k sock
  by unfold_locales (rule stream_feed_dec stream_dec_Nil stream_dec_append; assumption)+


section \<open>Frames come back\<close>

text \<open>What a client writes for one frame.\<close>

definition frame2 :: "u8 list \<Rightarrow> u8 list" where
  "frame2 f = [of_nat (length f div 256), of_nat (length f mod 256)] @ f"

lemma header_frame2: "length f < 2 ^ 16 \<Longrightarrow> header_value 2 (take 2 (frame2 f @ bs)) = int (length f)"
proof -
  assume l: "length f < 2 ^ 16"
  then have "length f div 256 < 256" by (simp add: less_mult_imp_div_less)
  then have "unat (of_nat (length f div 256) :: u8) = length f div 256" "unat (of_nat (length f mod 256) :: u8) = length f mod 256"
    by (simp_all add: unsigned_of_nat take_bit_nat_eq_self)
  moreover have "int (length f div 256) * 256 + int (length f mod 256) = int (length f)"
    by (metis div_mult_mod_eq of_nat_add of_nat_mult of_nat_numeral)
  ultimately show ?thesis by (simp add: header_value_def frame2_def)
qed

lemma decode_frame2: "length f < 2 ^ 16 \<Longrightarrow> decode 2 0 (frame2 f @ bs) =
    (if f = [] then decode 2 0 bs else (f # fst (decode 2 0 bs), snd (decode 2 0 bs)))"
proof -
  assume l: "length f < 2 ^ 16"
  have "hdr_step 2 (0, frame2 f @ bs) = (int (length f), f @ bs)"
    using header_frame2 [OF l, of bs] by (simp add: hdr_step_def frame2_def)
  moreover from this have "hdr_result 2 (0, frame2 f @ bs) = int (length f)"
    by (simp add: hdr_result_def frame2_def)
  moreover have "\<not> MAX_FRAME \<le> int (length f)" using l by (simp add: MAX_FRAME_def)
  ultimately show ?thesis
    by (subst decode.simps) (auto split: prod.splits)
qed

lemma decode_frames2: "(\<And>f. f \<in> set fs \<Longrightarrow> length f < 2 ^ 16) \<Longrightarrow>
    decode 2 0 (concat (map frame2 fs)) = (filter (\<lambda>f. f \<noteq> []) fs, False, 0, [])"
proof (induction fs)
  case Nil
  show ?case by (subst decode.simps) (simp add: hdr_result_def hdr_step_def)
next
  case (Cons f fs)
  from Cons.IH Cons.prems have "decode 2 0 (concat (map frame2 fs)) = (filter (\<lambda>f. f \<noteq> []) fs, False, 0, [])" by simp
  with decode_frame2 [of f "concat (map frame2 fs)"] Cons.prems show ?case by simp
qed

lemma stream_ok_fresh:
  assumes "header_size g = 2" "receiver g c" "conn_buffer c = databuffer_new" "pool_ok k databuffer_new mp"
  shows "stream_ok g c k (c, mp)"
proof -
  have "c = c\<lparr>conn_buffer := databuffer_new\<rparr>" by (simp add: assms(3) [symmetric])
  with assms show ?thesis
    by (simp add: stream_ok_def db_view_def hdr_step_def hdr_result_def) (simp add: databuffer_new_def)
qed

text \<open>
  (C3) A client that writes frames of less than 64K, each behind its length in two bytes, gets every frame that is
  not empty delivered once, in order, to the owner of its connection, whatever the packets in which the bytes
  arrive; nothing is left in the buffer at the end.
\<close>

theorem gate_delivers_frames:
  assumes "header_size g = 2" "receiver g c" "conn_buffer c = databuffer_new" "pool_ok k databuffer_new mp"
    and "\<And>f. f \<in> set fs \<Longrightarrow> length f < 2 ^ 16"
    and "concat packets = concat (map frame2 fs)" "\<And>p. p \<in> set packets \<Longrightarrow> length p + 2 ^ 16 \<le> INT_MAX"
  shows "\<exists>db mp'. feed_chunks (\<lambda>data (c, mp). gate_dispatch_message g sock data c mp) packets (c, mp) =
      Some (map (route_of g c) (filter (\<lambda>f. f \<noteq> []) fs), c\<lparr>conn_buffer := db\<rparr>, mp') \<and>
    pool_ok k db mp' \<and> db_header db = 0 \<and> db_bytes db = []"
proof -
  have ok: "stream_ok g c k (c, mp)" by (rule stream_ok_fresh [OF assms(1-4)])
  have "db_view (conn_buffer c) = (0, [])"
    using assms(3) by (simp add: db_view_def) (simp add: databuffer_new_def)
  then have d: "stream_dec g c (concat packets) (db_view (conn_buffer (fst (c, mp)))) =
      (map (route_of g c) (filter (\<lambda>f. f \<noteq> []) fs), 0, [])"
    using decode_frames2 [OF assms(5)] assms(6) by (simp add: stream_dec_def)
  have pk: "\<And>p. p \<in> set packets \<Longrightarrow> packet_ok p" using assms(7) by (simp add: packet_ok_def)
  obtain c' mp' where r: "feed_chunks (stream_feed g sock) packets (c, mp) = Some (map (route_of g c) (filter (\<lambda>f. f \<noteq> []) fs), c', mp')"
      "stream_ok g c k (c', mp')" "db_view (conn_buffer c') = (0, [])"
    using gd.feed_chunks_concat [OF ok pk, of packets, where sock = sock] unfolding d by auto
  have "stream_feed g sock = (\<lambda>data (c, mp). gate_dispatch_message g sock data c mp)"
    by (simp add: fun_eq_iff stream_feed_def)
  with r show ?thesis
    by (intro exI [of _ "conn_buffer c'"] exI [of _ mp']) (auto simp: stream_ok_def db_view_def)
qed

lemma gate_delivers_frames_witness: "\<exists>db mp'. feed_chunks (\<lambda>data (c, mp). gate_dispatch_message
      (gate_create\<lparr>header_size := 2, watchdog := 1\<rparr>) 5 data c mp) [[0], [2, 7], [8, 0, 0]] (zero_connection 5, messagepool_new) =
    Some ([SendMsg 0 1 (PTYPE_TEXT OR PTYPE_TAG_DONTCOPY) 5 (bytes_of (show_int 5 @ '' data '') @ [7, 8])],
      (zero_connection 5)\<lparr>conn_buffer := db\<rparr>, mp') \<and> pool_ok 0 db mp' \<and> db_header db = 0 \<and> db_bytes db = []"
proof -
  let ?g = "gate_create\<lparr>header_size := 2, watchdog := 1\<rparr>" and ?c = "zero_connection 5"
  have g: "header_size ?g = 2" "broker ?g = 0" "watchdog ?g = 1" "client_tag ?g = 0" by (simp_all add: gate_create_def)
  have c: "conn_id ?c = 5" "conn_agent ?c = 0" "conn_buffer ?c = databuffer_new" by (simp_all add: zero_connection_def)
  have r: "receiver ?g ?c" by (simp add: receiver_def g c)
  have p: "pool_ok 0 databuffer_new messagepool_new" by (simp add: pool_ok_def databuffer_new_def messagepool_new_def)
  have l: "\<And>f. f \<in> set [[7, 8], []] \<Longrightarrow> length f < 2 ^ 16" by auto
  have s: "concat [[0], [2, 7], [8, 0, 0]] = concat (map frame2 [[7, 8], []])" by (simp add: frame2_def)
  have m: "\<And>q. q \<in> set [[0], [2, 7], [8, 0, 0]] \<Longrightarrow> length q + 2 ^ 16 \<le> INT_MAX" by (auto simp: INT_MAX_def)
  have "map (route_of ?g ?c) (filter (\<lambda>f. f \<noteq> []) [[7, 8], []]) =
      [SendMsg 0 1 (PTYPE_TEXT OR PTYPE_TAG_DONTCOPY) 5 (bytes_of (show_int 5 @ '' data '') @ [7, 8])]"
    by (simp add: route_of_def route_def g c)
  with gate_delivers_frames [OF g(1) r c(3) p l s m, of 5] show ?thesis by (simp only:)
qed

text \<open>
  (C12) A gate with the header of 2 bytes, and a new connection that has a receiver: two ways of cutting the bytes of the connection into
  packets give the same messages and leave the same unread bytes and header, also when the last frame is not complete. (With the header of 4 bytes
  this does not hold: a frame of 16 MB or more clears the buffer, with what has arrived behind its header.)
\<close>

theorem gate_packets_irrelevant:
  assumes "header_size g = 2" "receiver g c" "conn_buffer c = databuffer_new" "pool_ok k databuffer_new mp"
    and "concat ps = concat qs" "\<And>p. p \<in> set ps \<union> set qs \<Longrightarrow> length p + 2 ^ 16 \<le> INT_MAX"
  shows "\<exists>acts cp mpp cq mpq.
    feed_chunks (\<lambda>data (c, mp). gate_dispatch_message g sock data c mp) ps (c, mp) = Some (acts, cp, mpp) \<and>
    feed_chunks (\<lambda>data (c, mp). gate_dispatch_message g sock data c mp) qs (c, mp) = Some (acts, cq, mpq) \<and>
    db_view (conn_buffer cp) = db_view (conn_buffer cq)"
proof -
  have ok: "stream_ok g c k (c, mp)" by (rule stream_ok_fresh [OF assms(1-4)])
  have e: "stream_feed g sock = (\<lambda>data (c, mp). gate_dispatch_message g sock data c mp)"
    by (simp add: fun_eq_iff stream_feed_def)
  have pk: "\<And>p. p \<in> set ps \<Longrightarrow> packet_ok p" "\<And>p. p \<in> set qs \<Longrightarrow> packet_ok p" using assms(6) by (auto simp: packet_ok_def)
  from gd.feed_chunks_concat [OF ok pk(1), where sock = sock] gd.feed_chunks_concat [OF ok pk(2), where sock = sock] assms(5)
  show ?thesis unfolding e by fastforce
qed

lemma gate_packets_irrelevant_witness: "\<exists>acts cp mpp cq mpq.
    feed_chunks (\<lambda>data (c, mp). gate_dispatch_message (gate_create\<lparr>header_size := 2, watchdog := 1\<rparr>) 5 data c mp)
      [[0], [2, 7], [8, 0]] (zero_connection 5, messagepool_new) = Some (acts, cp, mpp) \<and>
    feed_chunks (\<lambda>data (c, mp). gate_dispatch_message (gate_create\<lparr>header_size := 2, watchdog := 1\<rparr>) 5 data c mp)
      [[0, 2, 7, 8, 0]] (zero_connection 5, messagepool_new) = Some (acts, cq, mpq) \<and>
    db_view (conn_buffer cp) = db_view (conn_buffer cq)"
  by (rule gate_packets_irrelevant [of "gate_create\<lparr>header_size := 2, watchdog := 1\<rparr>" "zero_connection 5" 0])
    (auto simp: INT_MAX_def receiver_def gate_create_def zero_connection_def pool_ok_def databuffer_new_def messagepool_new_def)

text \<open>
  (C29) The loop that cuts the frames of a packet returns for every packet, every header size, with and without a
  receiver: it faults only when the buffer would hold more bytes than an int counts.
\<close>

theorem gate_dispatch_terminates:
  assumes "db_wf (conn_buffer c)" "pool_ok k (conn_buffer c) mp" "0 < header_size g"
    and "db_size (conn_buffer c) + length data \<le> INT_MAX"
  shows "\<exists>acts db mp'. gate_dispatch_message g sock data c mp = Some (acts, c\<lparr>conn_buffer := db\<rparr>, mp') \<and> db_wf db \<and> pool_ok k db mp'"
proof -
  obtain db mp1 where p: "databuffer_push data (conn_buffer c) mp = Some (db, mp1)" "db_wf db" "pool_ok k db mp1"
    using databuffer_push_bytes [OF assms(1,2,4)] by blast
  with dispatch_loop_total [of "c\<lparr>conn_buffer := db\<rparr>" k mp1 g sock] assms(3) show ?thesis
    by (auto simp: gate_dispatch_message_def)
qed

lemma gate_dispatch_terminates_witness: "\<exists>acts db mp'. gate_dispatch_message
      (gate_create\<lparr>header_size := 4\<rparr>) 5 [0, 0, 0, 1, 9] (zero_connection 5) messagepool_new =
    Some (acts, (zero_connection 5)\<lparr>conn_buffer := db\<rparr>, mp') \<and> db_wf db \<and> pool_ok 0 db mp'"
  by (rule gate_dispatch_terminates)
    (simp_all add: zero_connection_def pool_ok_def databuffer_new_def messagepool_new_def INT_MAX_def db_wf_def db_bytes_def)

text \<open>The buffer of a connection with the header of 4 bytes, \<^verbatim>\<open>bs\<close> received, whose length has its first bit set.\<close>

definition stuck :: "nat \<Rightarrow> u8 list \<Rightarrow> databuffer \<Rightarrow> messagepool \<Rightarrow> bool" where
  "stuck k bs db mp \<longleftrightarrow> db_wf db \<and> pool_ok k db mp \<and>
     (if length bs < 4 then db_header db = 0 \<and> db_bytes db = bs else db_header db < 0 \<and> db_bytes db = drop 4 bs)"

lemma header_value_4:
  assumes "0x80 \<le> plen ! 0"
  shows "header_value 4 plen < 0"
proof -
  have b: "0 \<le> uint w \<and> uint w < 256" for w :: u8 using unsigned_less [of w] by simp
  define v where "v = uint (plen ! 0) * 2 ^ 24 + uint (plen ! 1) * 2 ^ 16 + uint (plen ! 2) * 2 ^ 8 + uint (plen ! 3)"
  have "128 \<le> uint (plen ! 0)" using assms by (simp add: word_le_def)
  moreover have "2 ^ 31 \<le> x * 2 ^ 24 + y * 2 ^ 16 + z * 2 ^ 8 + u \<and> x * 2 ^ 24 + y * 2 ^ 16 + z * 2 ^ 8 + u < 2 ^ 32"
    if "128 \<le> x" "x < 256" "0 \<le> y \<and> y < 256" "0 \<le> z \<and> z < 256" "0 \<le> u \<and> u < 256" for x y z u :: int using that by simp
  ultimately have v: "2 ^ 31 \<le> v" "v < 2 ^ 32" unfolding v_def using b by blast+
  have "(of_int v :: u32) = of_int (v - 2 ^ 32)" by simp
  then have "sint (of_int v :: u32) = signed_take_bit 31 (v - 2 ^ 32)" by (simp only: signed_of_int) simp
  also have "\<dots> = v - 2 ^ 32" using v by (intro signed_take_bit_int_eq_self) simp_all
  finally show ?thesis using v(2) by (simp add: header_value_def v_def)
qed

lemma stuck_step:
  assumes s: "stuck k bs (conn_buffer c) mp" and hs: "header_size g = 4" and len: "length (bs @ data) \<le> INT_MAX"
    and neg: "4 \<le> length (bs @ data) \<Longrightarrow> 0x80 \<le> (bs @ data) ! 0"
  shows "\<exists>db mp'. gate_dispatch_message g sock data c mp = Some ([], c\<lparr>conn_buffer := db\<rparr>, mp') \<and> stuck k (bs @ data) db mp'"
proof -
  let ?db0 = "conn_buffer c"
  have w: "db_wf ?db0" "pool_ok k ?db0 mp" using s by (simp_all add: stuck_def)
  have "db_size ?db0 + length data \<le> INT_MAX" using s len by (auto simp: stuck_def db_wf_def split: if_splits)
  from databuffer_push_bytes [OF w this] obtain db mp1 where p: "databuffer_push data ?db0 mp = Some (db, mp1)" "db_wf db" "pool_ok k db mp1"
      "db_bytes db = db_bytes ?db0 @ data" "db_header db = db_header ?db0" by blast
  obtain db2 mp2 where rh: "databuffer_readheader 4 db mp1 = Some (hdr_result 4 (db_view db), db2, mp2)" "db_wf db2" "pool_ok k db2 mp2"
      "db_view db2 = hdr_step 4 (db_view db)"
    using databuffer_readheader_view [OF p(2,3), of 4] by auto
  have r: "hdr_result 4 (db_view db) < 0 \<and> stuck k (bs @ data) db2 mp2"
  proof (cases "length bs < 4")
    case True
    then have v: "db_view db = (0, bs @ data)" using s p(4,5) by (simp add: stuck_def db_view_def)
    show ?thesis
    proof (cases "length (bs @ data) < 4")
      case True
      then show ?thesis using rh v by (simp add: hdr_result_def hdr_step_def stuck_def db_view_def)
    next
      case False
      then have "header_value 4 (take 4 (bs @ data)) < 0" using neg by (intro header_value_4) (subst nth_take; simp)
      then show ?thesis using False rh v by (simp add: hdr_result_def hdr_step_def stuck_def db_view_def)
    qed
  next
    case False
    then have "db_view db = (db_header ?db0, drop 4 bs @ data)" "db_header ?db0 < 0" using s p(4,5) by (simp_all add: stuck_def db_view_def)
    then show ?thesis using False rh by (simp add: hdr_result_def hdr_step_def stuck_def db_view_def)
  qed
  then have "dispatch_loop g sock (c\<lparr>conn_buffer := db\<rparr>) mp1 = Some ([], c\<lparr>conn_buffer := db2\<rparr>, mp2)"
    using rh(1) hs by (subst dispatch_loop.simps) (simp add: Let_def)
  then show ?thesis using p(1) r by (auto simp: gate_dispatch_message_def)
qed

lemma stuck_run:
  assumes "stuck k bs (conn_buffer c) mp" "header_size g = 4" "length (bs @ concat packets) \<le> INT_MAX"
    and "4 \<le> length (bs @ concat packets) \<Longrightarrow> 0x80 \<le> (bs @ concat packets) ! 0"
  shows "\<exists>db mp'. feed_chunks (\<lambda>data (c, mp). gate_dispatch_message g sock data c mp) packets (c, mp) = Some ([], c\<lparr>conn_buffer := db\<rparr>, mp') \<and>
    stuck k (bs @ concat packets) db mp'"
  using assms
proof (induction packets arbitrary: bs c mp)
  case Nil
  have "c\<lparr>conn_buffer := conn_buffer c\<rparr> = c" by simp
  with Nil show ?case by (intro exI [of _ "conn_buffer c"] exI [of _ mp]) simp
next
  case (Cons data packets)
  have "4 \<le> length (bs @ data) \<Longrightarrow> 0x80 \<le> (bs @ data) ! 0" using Cons.prems(4) by (auto simp: nth_append split: if_splits)
  with stuck_step [OF Cons.prems(1,2), of data sock] Cons.prems(3) obtain db mp1 where
    d: "gate_dispatch_message g sock data c mp = Some ([], c\<lparr>conn_buffer := db\<rparr>, mp1)" "stuck k (bs @ data) db mp1" by auto
  have "stuck k (bs @ data) (conn_buffer (c\<lparr>conn_buffer := db\<rparr>)) mp1" using d(2) by simp
  from Cons.IH [OF this Cons.prems(2)] Cons.prems(3,4) obtain db' mp2 where
    "feed_chunks (\<lambda>data (c, mp). gate_dispatch_message g sock data c mp) packets (c\<lparr>conn_buffer := db\<rparr>, mp1) = Some ([], c\<lparr>conn_buffer := db'\<rparr>, mp2)"
    "stuck k ((bs @ data) @ concat packets) db' mp2" by auto
  then show ?case using d(1) by auto
qed

text \<open>
  (C32) With the header of 4 bytes, a new connection whose first byte is \<^verbatim>\<open>0x80\<close> or more, which announces a frame of 2 GB or more: the length is read
  as a negative number, which the check against 16 MB lets pass. Whatever follows, in whatever packets, the connection delivers nothing, is
  not closed, and keeps every byte it receives.
\<close>

theorem gate_negative_header_stuck:
  assumes "header_size g = 4" "conn_buffer c = databuffer_new" "pool_ok k databuffer_new mp"
    and "concat packets = plen @ rest" "length plen = 4" "0x80 \<le> hd plen" "length (concat packets) \<le> INT_MAX"
  shows "\<exists>db mp'. feed_chunks (\<lambda>data (c, mp). gate_dispatch_message g sock data c mp) packets (c, mp) = Some ([], c\<lparr>conn_buffer := db\<rparr>, mp') \<and>
    db_bytes db = rest"
proof -
  have "stuck k [] (conn_buffer c) mp"
    using assms(2,3) by (simp add: stuck_def) (simp add: databuffer_new_def db_wf_def db_bytes_def)
  moreover have "0x80 \<le> concat packets ! 0" using assms(4-6) by (cases plen) auto
  ultimately obtain db mp' where "feed_chunks (\<lambda>data (c, mp). gate_dispatch_message g sock data c mp) packets (c, mp) = Some ([], c\<lparr>conn_buffer := db\<rparr>, mp')"
    "stuck k (concat packets) db mp'"
    using stuck_run [of k "[]" c mp g packets sock] assms(1,7) by auto
  moreover from this(2) have "db_bytes db = rest" using assms(4,5) by (simp add: stuck_def)
  ultimately show ?thesis by blast
qed

lemma gate_negative_header_stuck_witness: "\<exists>db mp'. feed_chunks (\<lambda>data (c, mp). gate_dispatch_message (gate_create\<lparr>header_size := 4\<rparr>) 5 data c mp)
      [[0x80, 0], [0, 1], [7, 8, 9]] (zero_connection 5, messagepool_new) = Some ([], (zero_connection 5)\<lparr>conn_buffer := db\<rparr>, mp') \<and> db_bytes db = [7, 8, 9]"
proof -
  have c: "header_size (gate_create\<lparr>header_size := 4\<rparr>) = 4" "conn_buffer (zero_connection 5) = databuffer_new"
    "pool_ok 0 databuffer_new messagepool_new"
    by (simp_all add: zero_connection_def pool_ok_def databuffer_new_def messagepool_new_def)
  show ?thesis by (rule gate_negative_header_stuck [OF c, where plen = "[0x80, 0, 0, 1]"]) (simp_all add: INT_MAX_def)
qed

end
