(* ===== verification/GateTable.thy ===== *)
theory GateTable
  imports GateFrames
begin

text \<open>
  The connections of the gate: the table of slots with the index of ids in front of it is a finite map from the id of a
  socket to its connection. The invariant says that the two agree, that a slot without a socket is as empty as
  a new one, and that every node of the message pool is in exactly one buffer or free.
\<close>

lemma ran_upd_None:
  assumes "m k = Some v" "\<And>l. m l = Some v \<Longrightarrow> l = k"
  shows "ran (m(k := None)) = ran m - {v}"
proof -
  have "w \<in> ran (m(k := None)) \<longleftrightarrow> w \<in> ran m \<and> w \<noteq> v" for w
  proof
    assume "w \<in> ran (m(k := None))"
    then obtain l where "l \<noteq> k" "m l = Some w" by (auto simp: ran_def split: if_splits)
    with assms(2) show "w \<in> ran m \<and> w \<noteq> v" by (auto simp: ran_def)
  next
    assume "w \<in> ran m \<and> w \<noteq> v"
    then obtain l where "m l = Some w" by (auto simp: ran_def)
    moreover from this have "l \<noteq> k" using assms(1) \<open>w \<in> ran m \<and> w \<noteq> v\<close> by auto
    ultimately show "w \<in> ran (m(k := None))" by (auto simp: ran_def)
  qed
  then show ?thesis by auto
qed

section \<open>The invariant\<close>

definition used_nodes :: "connection list \<Rightarrow> nat" where
  "used_nodes cs = sum_list (map (\<lambda>c. length (db_msgs (conn_buffer c))) cs)"

definition slot_ok :: "hashid \<Rightarrow> nat \<Rightarrow> connection \<Rightarrow> bool" where
  "slot_ok h i c \<longleftrightarrow> db_wf (conn_buffer c) \<and>
     (if i \<in> ran (hid_map h) then 0 \<le> conn_id c \<and> hid_map h (conn_id c) = Some i else c = zero_connection (-1))"

definition gate_wf :: "gate \<Rightarrow> bool" where
  "gate_wf g \<longleftrightarrow> hi_wf (gate_hash g) \<and> hi_cap (gate_hash g) = length (gate_conn g) \<and> 0 < header_size g \<and>
     (\<forall>i < length (gate_conn g). slot_ok (gate_hash g) i (gate_conn g ! i)) \<and>
     mp_freelist (gate_mp g) + used_nodes (gate_conn g) = MESSAGEPOOL * mp_pool (gate_mp g)"

definition conn_of :: "gate \<Rightarrow> int \<Rightarrow> connection option" where
  "conn_of g fd = map_option (\<lambda>i. gate_conn g ! i) (hid_map (gate_hash g) fd)"

lemma gate_wfD:
  assumes "gate_wf g"
  shows "hi_wf (gate_hash g)" "hi_cap (gate_hash g) = length (gate_conn g)" "0 < header_size g"
    "i < length (gate_conn g) \<Longrightarrow> slot_ok (gate_hash g) i (gate_conn g ! i)"
    "mp_freelist (gate_mp g) + used_nodes (gate_conn g) = MESSAGEPOOL * mp_pool (gate_mp g)"
  using assms by (simp_all add: gate_wf_def)

lemma gate_wf_slot:
  assumes "gate_wf g" "hid_map (gate_hash g) fd = Some i"
  shows "i < length (gate_conn g)" "slot_ok (gate_hash g) i (gate_conn g ! i)" "conn_of g fd = Some (gate_conn g ! i)"
    "conn_id (gate_conn g ! i) = fd" "0 \<le> fd" "db_wf (conn_buffer (gate_conn g ! i))"
proof -
  show i: "i < length (gate_conn g)"
    using hm.tab_range [OF gate_wfD(1) [OF assms(1)] assms(2)] gate_wfD(2) [OF assms(1)] by simp
  then show s: "slot_ok (gate_hash g) i (gate_conn g ! i)" using gate_wfD(4) [OF assms(1)] by simp
  show "conn_of g fd = Some (gate_conn g ! i)" using assms(2) by (simp add: conn_of_def)
  have "i \<in> ran (hid_map (gate_hash g))" using assms(2) by (auto simp: ran_def)
  with s have c: "0 \<le> conn_id (gate_conn g ! i)" "hid_map (gate_hash g) (conn_id (gate_conn g ! i)) = Some i"
    by (simp_all add: slot_ok_def)
  then show "conn_id (gate_conn g ! i) = fd" using hm.tab_inj [OF gate_wfD(1) [OF assms(1)] c(2) assms(2)] by simp
  then show "0 \<le> fd" using c(1) by simp
  show "db_wf (conn_buffer (gate_conn g ! i))" using s by (simp add: slot_ok_def)
qed

lemma used_nodes_update:
  assumes "i < length cs"
  shows "used_nodes (cs[i := c]) + length (db_msgs (conn_buffer (cs ! i))) = used_nodes cs + length (db_msgs (conn_buffer c))"
  using assms
proof (induction cs arbitrary: i)
  case (Cons x xs)
  then show ?case by (cases i) (auto simp: used_nodes_def)
qed simp

text \<open>The nodes that the buffer of one slot sees as used by others.\<close>

lemma pool_of_slot:
  assumes "gate_wf g" "i < length (gate_conn g)"
  obtains k where "pool_ok k (conn_buffer (gate_conn g ! i)) (gate_mp g)"
    "\<And>c mp. pool_ok k (conn_buffer c) mp \<Longrightarrow> mp_freelist mp + used_nodes ((gate_conn g)[i := c]) = MESSAGEPOOL * mp_pool mp"
proof -
  let ?k = "used_nodes (gate_conn g) - length (db_msgs (conn_buffer (gate_conn g ! i)))"
  have le: "length (db_msgs (conn_buffer (gate_conn g ! i))) \<le> used_nodes (gate_conn g)"
    using assms(2) by (auto simp: used_nodes_def intro!: member_le_sum_list)
  show thesis
  proof (rule that [of ?k])
    show "pool_ok ?k (conn_buffer (gate_conn g ! i)) (gate_mp g)"
      using gate_wfD(5) [OF assms(1)] le by (simp add: pool_ok_def)
    fix c :: connection and mp
    assume "pool_ok ?k (conn_buffer c) mp"
    then show "mp_freelist mp + used_nodes ((gate_conn g)[i := c]) = MESSAGEPOOL * mp_pool mp"
      using used_nodes_update [OF assms(2), of c] le by (simp add: pool_ok_def)
  qed
qed

section \<open>Socket messages\<close>

text \<open>Data: only the buffer of the connection changes.\<close>

lemma gate_data_conn:
  assumes wf: "gate_wf g" and c: "conn_of g fd = Some c" and sz: "db_size (conn_buffer c) + length data \<le> INT_MAX"
  shows "\<exists>acts db mp g'. gate_data g fd data = Some (acts, g') \<and> gate_wf g' \<and> conn_of g' = (conn_of g)(fd \<mapsto> c\<lparr>conn_buffer := db\<rparr>) \<and>
    gate_dispatch_message g fd data c (gate_mp g) = Some (acts, c\<lparr>conn_buffer := db\<rparr>, mp) \<and> gate_hash g' = gate_hash g"
proof -
  from c obtain i where i: "hid_map (gate_hash g) fd = Some i" and ci: "c = gate_conn g ! i"
    by (auto simp: conn_of_def)
  note slot = gate_wf_slot [OF wf i]
  from pool_of_slot [OF wf slot(1)] obtain k where k: "pool_ok k (conn_buffer c) (gate_mp g)"
    "\<And>c mp. pool_ok k (conn_buffer c) mp \<Longrightarrow> mp_freelist mp + used_nodes ((gate_conn g)[i := c]) = MESSAGEPOOL * mp_pool mp"
    unfolding ci by blast
  obtain db1 mp1 where p: "databuffer_push data (conn_buffer c) (gate_mp g) = Some (db1, mp1)" "db_wf db1" "pool_ok k db1 mp1"
    using databuffer_push_bytes [OF _ k(1) sz] slot(6) ci by blast
  obtain acts db mp where d: "gate_dispatch_message g fd data c (gate_mp g) = Some (acts, c\<lparr>conn_buffer := db\<rparr>, mp)"
      "db_wf db" "pool_ok k db mp"
    using dispatch_loop_total [of "c\<lparr>conn_buffer := db1\<rparr>" k mp1 g fd] p gate_wfD(3) [OF wf]
    by (auto simp: gate_dispatch_message_def)
  let ?g = "g\<lparr>gate_conn := (gate_conn g)[i := c\<lparr>conn_buffer := db\<rparr>], gate_mp := mp\<rparr>"
  have run: "gate_data g fd data = Some (acts, ?g)"
    using d(1) i ci slot(1) hm.lookup_tab [OF gate_wfD(1) [OF wf], of fd] by (simp add: gate_data_def)
  have "i \<in> ran (hid_map (gate_hash g))" using i by (auto simp: ran_def)
  then have "slot_ok (gate_hash g) i (c\<lparr>conn_buffer := db\<rparr>)"
    using slot(2) d(2) ci by (simp add: slot_ok_def)
  then have "gate_wf ?g"
    using wf k(2) [of "c\<lparr>conn_buffer := db\<rparr>" mp] d(3) slot(1) by (auto simp: gate_wf_def nth_list_update)
  moreover have "conn_of ?g = (conn_of g)(fd \<mapsto> c\<lparr>conn_buffer := db\<rparr>)"
  proof
    fix l
    have "hid_map (gate_hash g) l = Some j \<Longrightarrow> l \<noteq> fd \<Longrightarrow> j \<noteq> i" for j
      using hm.tab_inj [OF gate_wfD(1) [OF wf] i] by auto
    then show "conn_of ?g l = ((conn_of g)(fd \<mapsto> c\<lparr>conn_buffer := db\<rparr>)) l"
      using i slot(1) by (cases "hid_map (gate_hash g) l") (auto simp: conn_of_def)
  qed
  ultimately show ?thesis using run d(1) by auto
qed

text \<open>Close and error: the slot becomes as empty as a new one, and its nodes go back to the pool.\<close>

lemma gate_close_conn:
  assumes wf: "gate_wf g" and c: "conn_of g fd = Some c"
  shows "\<exists>g'. gate_close g fd = Some (gate_report g (show_int fd @ '' close''), g') \<and> gate_wf g' \<and> conn_of g' = (conn_of g)(fd := None)"
proof -
  from c obtain i where i: "hid_map (gate_hash g) fd = Some i" and ci: "c = gate_conn g ! i"
    by (auto simp: conn_of_def)
  note slot = gate_wf_slot [OF wf i]
  from pool_of_slot [OF wf slot(1)] obtain k where k: "pool_ok k (conn_buffer c) (gate_mp g)"
    "\<And>c mp. pool_ok k (conn_buffer c) mp \<Longrightarrow> mp_freelist mp + used_nodes ((gate_conn g)[i := c]) = MESSAGEPOOL * mp_pool mp"
    unfolding ci by blast
  from databuffer_clear_ok [OF k(1)] obtain mp where cl:
    "databuffer_clear (conn_buffer c) (gate_mp g) = Some (databuffer_new, mp)" "pool_ok k databuffer_new mp" by blast
  from hm.remove_tab [OF gate_wfD(1) [OF wf], of fd] i obtain h where h:
    "hashid_remove (gate_hash g) fd = Some (int i, h)" "hi_wf h" "hid_map h = (hid_map (gate_hash g))(fd := None)"
    "hi_cap h = hi_cap (gate_hash g)" by auto
  let ?g = "g\<lparr>gate_hash := h, gate_conn := (gate_conn g)[i := zero_connection (-1)], gate_mp := mp\<rparr>"
  have run: "gate_close g fd = Some (gate_report g (show_int fd @ '' close''), ?g)"
    using h(1) cl(1) ci slot(1) by (simp add: gate_close_def gate_report_def Let_def)
  have other: "hid_map (gate_hash g) l = Some i \<Longrightarrow> l = fd" for l
    using hm.tab_inj [OF gate_wfD(1) [OF wf] _ i] by blast
  have ran: "ran (hid_map h) = ran (hid_map (gate_hash g)) - {i}"
    unfolding h(3) by (rule ran_upd_None, rule i, rule other, assumption)
  have "slot_ok h j ((gate_conn g)[i := zero_connection (-1)] ! j)" if j: "j < length (gate_conn g)" for j
  proof (cases "j = i")
    case True
    with ran slot(1) show ?thesis by (simp add: slot_ok_def zero_connection_def)
  next
    case False
    have s: "slot_ok (gate_hash g) j (gate_conn g ! j)" using gate_wfD(4) [OF wf j] .
    then have "hid_map h (conn_id (gate_conn g ! j)) = Some j" if "j \<in> ran (hid_map (gate_hash g))"
      using that False i by (auto simp: slot_ok_def h(3))
    with s False ran show ?thesis by (auto simp: slot_ok_def)
  qed
  moreover have "mp_freelist mp + used_nodes ((gate_conn g)[i := zero_connection (-1)]) = MESSAGEPOOL * mp_pool mp"
    using k(2) [of "zero_connection (-1)" mp] cl(2) by (simp add: zero_connection_def)
  ultimately have "gate_wf ?g" using wf h(2,4) by (simp add: gate_wf_def)
  moreover have "conn_of ?g = (conn_of g)(fd := None)"
  proof
    fix l
    have "hid_map (gate_hash g) l = Some j \<Longrightarrow> l \<noteq> fd \<Longrightarrow> i \<noteq> j" for j using other [of l] by auto
    then show "conn_of ?g l = ((conn_of g)(fd := None)) l"
      by (cases "hid_map (gate_hash g) l") (auto simp: conn_of_def h(3))
  qed
  ultimately show ?thesis using run by auto
qed

text \<open>Accept: the new connection starts with no agent, no client and an empty buffer.\<close>

definition new_connection :: "int \<Rightarrow> string \<Rightarrow> connection" where
  "new_connection fd name = (zero_connection fd)\<lparr>remote_name := c_str (take 31 name)\<rparr>"

lemma gate_accept_conn:
  assumes wf: "gate_wf g" and "listen_id g = lid" "\<not> hashid_full (gate_hash g)" "conn_of g fd = None"
    and fd: "0 \<le> fd" "nat fd + length (gate_conn g) \<le> INT_MAX"
  shows "\<exists>acts g'. gate_accept g lid fd name = Some (acts, g') \<and> gate_wf g' \<and> conn_of g' = (conn_of g)(fd \<mapsto> new_connection fd name)"
proof -
  have "hid_map (gate_hash g) fd = None" using assms(4) by (simp add: conn_of_def)
  with hm.insert_tab [OF gate_wfD(1) [OF wf] assms(3) fd(1)] fd(2) gate_wfD(2) [OF wf] obtain i h where h:
    "hashid_insert (gate_hash g) fd = Some (int i, h)" "hi_wf h" "hid_map h = (hid_map (gate_hash g))(fd \<mapsto> i)"
    "i < length (gate_conn g)" "i \<notin> ran (hid_map (gate_hash g))" "hi_cap h = length (gate_conn g)" by auto
  have z: "gate_conn g ! i = zero_connection (-1)" using gate_wfD(4) [OF wf h(4)] h(5) by (simp add: slot_ok_def)
  let ?c = "new_connection fd name"
  let ?g = "g\<lparr>gate_hash := h, gate_conn := (gate_conn g)[i := ?c]\<rparr>"
  have "\<exists>acts. gate_accept g lid fd name = Some (acts, ?g)"
    using h(1,4) assms(2,3) z by (simp add: gate_accept_def Let_def new_connection_def zero_connection_def)
  moreover have ran: "ran (hid_map h) = insert i (ran (hid_map (gate_hash g)))"
    unfolding h(3) using \<open>hid_map (gate_hash g) fd = None\<close> by simp
  moreover have "slot_ok h j ((gate_conn g)[i := ?c] ! j)" if j: "j < length (gate_conn g)" for j
  proof (cases "j = i")
    case True
    then show ?thesis using ran h(3,4) fd(1) by (simp add: slot_ok_def new_connection_def zero_connection_def)
  next
    case False
    have s: "slot_ok (gate_hash g) j (gate_conn g ! j)" using gate_wfD(4) [OF wf j] .
    then have "hid_map h (conn_id (gate_conn g ! j)) = Some j" if "j \<in> ran (hid_map (gate_hash g))"
      using that \<open>hid_map (gate_hash g) fd = None\<close> by (auto simp: slot_ok_def h(3))
    with s False ran show ?thesis by (auto simp: slot_ok_def)
  qed
  moreover have "used_nodes ((gate_conn g)[i := ?c]) = used_nodes (gate_conn g)"
    using used_nodes_update [OF h(4), of ?c] z by (simp add: new_connection_def zero_connection_def)
  ultimately have "\<exists>acts. gate_accept g lid fd name = Some (acts, ?g)" "gate_wf ?g"
    using wf h(2,6) by (simp_all add: gate_wf_def)
  moreover have "conn_of ?g = (conn_of g)(fd \<mapsto> ?c)"
  proof
    fix l
    have "hid_map (gate_hash g) l = Some j \<Longrightarrow> j \<noteq> i" for j using h(5) by (auto simp: ran_def)
    then show "conn_of ?g l = ((conn_of g)(fd \<mapsto> ?c)) l"
      using h(4) by (cases "hid_map (gate_hash g) l") (auto simp: conn_of_def h(3))
  qed
  ultimately show ?thesis by auto
qed


section \<open>Events\<close>

text \<open>
  What the gate relies on: the node never runs a buffer over the size of an int, and the socket thread gives a new
  connection an id that is not in use and leaves room for the search of a slot.
\<close>

definition event_ok :: "gate \<Rightarrow> socket_message \<Rightarrow> bool" where
  "event_ok g m = (case m of
       SockData fd data \<Rightarrow> (case conn_of g fd of None \<Rightarrow> True | Some c \<Rightarrow> db_size (conn_buffer c) + length data \<le> INT_MAX)
     | SockAccept lid fd name \<Rightarrow> lid = listen_id g \<and>
         (hashid_full (gate_hash g) \<or> conn_of g fd = None \<and> 0 \<le> fd \<and> nat fd + length (gate_conn g) \<le> INT_MAX)
     | _ \<Rightarrow> True)"

text \<open>The specification of the table: a map from ids to the parts of a connection that the framing does not touch.\<close>

definition owner :: "connection \<Rightarrow> connection" where
  "owner c = c\<lparr>conn_buffer := databuffer_new\<rparr>"

definition owners :: "gate \<Rightarrow> int \<Rightarrow> connection option" where
  "owners g fd = map_option owner (conn_of g fd)"

definition table_step :: "bool \<Rightarrow> socket_message \<Rightarrow> (int \<Rightarrow> connection option) \<Rightarrow> (int \<Rightarrow> connection option)" where
  "table_step full m t = (case m of
       SockAccept lid fd name \<Rightarrow> if full then t else t(fd \<mapsto> new_connection fd name)
     | SockClose fd \<Rightarrow> t(fd := None) | SockError fd \<Rightarrow> t(fd := None) | _ \<Rightarrow> t)"

lemma owner_new [simp]: "owner (new_connection fd name) = new_connection fd name"
  by (simp add: owner_def new_connection_def zero_connection_def)

lemma gate_close_owners:
  assumes "gate_wf g"
  shows "\<exists>acts g'. gate_close g fd = Some (acts, g') \<and> gate_wf g' \<and> owners g' = (owners g)(fd := None) \<and>
    (\<forall>l. l \<noteq> fd \<longrightarrow> conn_of g' l = conn_of g l)"
proof (cases "conn_of g fd")
  case None
  then have "hid_map (gate_hash g) fd = None" by (simp add: conn_of_def)
  with hm.remove_tab [OF gate_wfD(1) [OF assms], of fd] have "gate_close g fd = Some ([], g)"
    by (simp add: gate_close_def)
  with None assms show ?thesis by (auto simp: owners_def fun_eq_iff)
next
  case (Some c)
  from gate_close_conn [OF assms this] show ?thesis by (fastforce simp: owners_def fun_eq_iff)
qed

lemma gate_data_owners:
  assumes "gate_wf g" "event_ok g (SockData fd data)"
  shows "\<exists>acts g'. gate_data g fd data = Some (acts, g') \<and> gate_wf g' \<and> owners g' = owners g \<and>
    (\<forall>l. l \<noteq> fd \<longrightarrow> conn_of g' l = conn_of g l)"
proof (cases "conn_of g fd")
  case None
  then have "hashid_lookup (gate_hash g) fd = Some (-1)"
    using hm.lookup_tab [OF gate_wfD(1) [OF assms(1)], of fd] by (simp add: conn_of_def)
  then show ?thesis using assms(1) by (simp add: gate_data_def)
next
  case (Some c)
  with assms(2) have "db_size (conn_buffer c) + length data \<le> INT_MAX" by (simp add: event_ok_def)
  from gate_data_conn [OF assms(1) Some this] show ?thesis
    using Some by (fastforce simp: owners_def fun_eq_iff owner_def)
qed

lemma gate_accept_owners:
  assumes "gate_wf g" "event_ok g (SockAccept lid fd name)"
  shows "\<exists>acts g'. gate_accept g lid fd name = Some (acts, g') \<and> gate_wf g' \<and>
    owners g' = (if hashid_full (gate_hash g) then owners g else (owners g)(fd \<mapsto> new_connection fd name)) \<and>
    (\<forall>l. l \<noteq> fd \<longrightarrow> conn_of g' l = conn_of g l)"
proof (cases "hashid_full (gate_hash g)")
  case True
  then show ?thesis using assms by (simp add: gate_accept_def event_ok_def)
next
  case False
  then have "listen_id g = lid" "conn_of g fd = None" "0 \<le> fd" "nat fd + length (gate_conn g) \<le> INT_MAX"
    using assms(2) by (simp_all add: event_ok_def)
  from gate_accept_conn [OF assms(1) this(1) False this(2-4), of name] show ?thesis
    using False by (fastforce simp: owners_def fun_eq_iff)
qed

lemma gate_fresh:
  assumes "hi_wf h" "hid_map h = (\<lambda>_. None)" "hi_cap h = n" "0 < header_size g" "gate_mp g = messagepool_new"
    and "gate_hash g = h" "gate_conn g = replicate n (zero_connection (-1))"
  shows "gate_wf g" "conn_of g = (\<lambda>_. None)"
proof -
  have "used_nodes (replicate n (zero_connection (-1))) = 0"
    by (simp add: used_nodes_def zero_connection_def databuffer_new_def sum_list_replicate)
  moreover have "slot_ok h i (zero_connection (-1))" for i
    using assms(2) by (simp add: slot_ok_def zero_connection_def)
  ultimately show "gate_wf g" using assms by (simp add: gate_wf_def messagepool_new_def)
  show "conn_of g = (\<lambda>_. None)" using assms(2,6) by (simp add: conn_of_def fun_eq_iff)
qed

text \<open>A gate with two slots on which the properties can be observed, with the socket 3 connected.\<close>

definition small_gate :: gate where
  "small_gate = gate_create\<lparr>listen_id := 9, header_size := 2, watchdog := 1, max_connection := 2,
     gate_hash := the (hashid_init 2), gate_conn := replicate 2 (zero_connection (-1))\<rparr>"

definition served_gate :: gate where
  "served_gate = snd (the (gate_accept small_gate 9 3 ''10.0.0.1:80''))"

lemma small_gate_wf: "gate_wf small_gate" "conn_of small_gate = (\<lambda>_. None)" "\<not> hashid_full (gate_hash small_gate)"
proof -
  obtain h where h: "hashid_init 2 = Some h" "hi_wf h" "hid_map h = (\<lambda>_. None)" "hi_cap h = 2"
    using hashid_init_wf [of 2] by auto
  then show "gate_wf small_gate" "conn_of small_gate = (\<lambda>_. None)"
    by (auto simp: small_gate_def gate_create_def intro!: gate_fresh [of h 2])
  show "\<not> hashid_full (gate_hash small_gate)"
    using h hm.full_iff [OF h(2)] by (simp add: small_gate_def)
qed

lemma served_gate_full: "gate_wf served_gate" "conn_of served_gate = [3 \<mapsto> new_connection 3 ''10.0.0.1:80'']"
proof -
  have "listen_id small_gate = 9" "length (gate_conn small_gate) = 2" by (simp_all add: small_gate_def)
  then obtain acts g where "gate_accept small_gate 9 3 ''10.0.0.1:80'' = Some (acts, g)" "gate_wf g"
      "conn_of g = (conn_of small_gate)(3 \<mapsto> new_connection 3 ''10.0.0.1:80'')"
    using gate_accept_conn [OF small_gate_wf(1) _ small_gate_wf(3), of 9 3 "''10.0.0.1:80''"] small_gate_wf(2)
    by (auto simp: INT_MAX_def)
  then show "gate_wf served_gate" "conn_of served_gate = [3 \<mapsto> new_connection 3 ''10.0.0.1:80'']"
    using small_gate_wf(2) by (simp_all add: served_gate_def)
qed

lemma served_gate_wf: "gate_wf served_gate" "conn_of served_gate 3 = Some (new_connection 3 ''10.0.0.1:80'')"
    and served_gate_only: "conn_of served_gate 4 = None"
  by (simp_all add: served_gate_full)

text \<open>
  (C13) Every message of the socket thread keeps the connection table a finite map from socket ids to connections: an
  accept that finds room adds a connection with no agent, no client and an empty buffer, a close or an error removes
  exactly its connection, and no message touches the connection of another socket. No step faults.
\<close>

theorem gate_table_refines_map:
  assumes "gate_wf g" "event_ok g m"
  shows "\<exists>acts g'. gate_socket g m = Some (acts, g') \<and> gate_wf g' \<and>
    owners g' = table_step (hashid_full (gate_hash g)) m (owners g)"
proof (cases m)
  case (SockConnect fd)
  have "\<exists>acts. gate_socket g m = Some (acts, g)"
    using hm.lookup_tab [OF gate_wfD(1) [OF assms(1)], of fd] by (simp add: gate_socket_def SockConnect)
  with assms(1) show ?thesis by (auto simp: table_step_def SockConnect)
next
  case (SockData fd data)
  with assms gate_data_owners [of g fd data] show ?thesis by (auto simp: gate_socket_def table_step_def)
next
  case (SockAccept lid fd name)
  with assms gate_accept_owners [of g lid fd name] show ?thesis by (auto simp: gate_socket_def table_step_def)
next
  case (SockClose fd)
  with assms gate_close_owners [of g fd] show ?thesis by (auto simp: gate_socket_def table_step_def)
next
  case (SockError fd)
  with assms gate_close_owners [of g fd] show ?thesis by (auto simp: gate_socket_def table_step_def)
qed (use assms in \<open>auto simp: gate_socket_def table_step_def\<close>)

lemma gate_table_refines_map_witness: "\<exists>acts g'. gate_socket served_gate (SockClose 3) = Some (acts, g') \<and> gate_wf g' \<and>
    owners g' = table_step (hashid_full (gate_hash served_gate)) (SockClose 3) (owners served_gate)"
  by (rule gate_table_refines_map [OF served_gate_wf(1)]) (simp add: event_ok_def)

text \<open>
  (C33) The buffers are separate too: a message about one socket leaves every other connection, with its half-received
  frame, as it was.
\<close>

theorem gate_connections_separate:
  assumes "gate_wf g" "event_ok g m" and "gate_socket g m = Some (acts, g')"
    and "l \<notin> (case m of SockData fd _ \<Rightarrow> {fd} | SockClose fd \<Rightarrow> {fd} | SockError fd \<Rightarrow> {fd} | SockAccept _ fd _ \<Rightarrow> {fd} | _ \<Rightarrow> {})"
  shows "conn_of g' l = conn_of g l"
proof (cases m)
  case (SockData fd data)
  with assms gate_data_owners [of g fd data] show ?thesis by (auto simp: gate_socket_def)
next
  case (SockAccept lid fd name)
  with assms gate_accept_owners [of g lid fd name] show ?thesis by (auto simp: gate_socket_def)
next
  case (SockClose fd)
  with assms gate_close_owners [of g fd] show ?thesis by (auto simp: gate_socket_def)
next
  case (SockError fd)
  with assms gate_close_owners [of g fd] show ?thesis by (auto simp: gate_socket_def)
qed (use assms in \<open>auto simp: gate_socket_def Option.bind_eq_Some_conv split: if_splits\<close>)

lemma gate_connections_separate_witness: "\<exists>acts g'. gate_socket served_gate (SockData 4 [0, 1]) = Some (acts, g') \<and>
    conn_of g' 3 = conn_of served_gate 3"
proof -
  have ok: "event_ok served_gate (SockData 4 [0, 1])"
    using served_gate_only by (simp add: event_ok_def)
  obtain acts g' where "gate_socket served_gate (SockData 4 [0, 1]) = Some (acts, g')"
    using gate_data_owners [OF served_gate_wf(1) ok] by (auto simp: gate_socket_def)
  with gate_connections_separate [OF served_gate_wf(1) ok this, of 3] show ?thesis by simp
qed


section \<open>Start and control\<close>

text \<open>
  \<^verbatim>\<open>gate_init\<close> never faults up to 2 ^ 30 connections; it accepts exactly the parameters that name a
  header style, a watchdog that is found (or none), a positive number of connections and an address on which
  \<^verbatim>\<open>listen\<close> succeeds, and then the callback is set, the listening socket started, and the gate has an empty
  table that satisfies the invariant.
\<close>

lemma start_listen_cases:
  assumes "split_address addr = (host, portstr)"
  shows "start_listen listen g addr = (if c_int (strtol portstr 10) \<le> 0 then (1, [LogError (''Invalid gate address '' @ addr)], g)
     else if listen host (c_int (strtol portstr 10)) < 0 then (1, [], g\<lparr>listen_id := listen host (c_int (strtol portstr 10))\<rparr>)
     else (0, [SocketStart (listen host (c_int (strtol portstr 10)))], g\<lparr>listen_id := listen host (c_int (strtol portstr 10))\<rparr>))"
  using assms by (simp add: start_listen_def Let_def)

theorem gate_init_starts:
  assumes sp: "scan_params p = (n, header, wdog, addr, tag, mx)" and mx: "mx \<le> 2 ^ 30"
    and sa: "split_address addr = (host, portstr)"
  defines "port \<equiv> c_int (strtol portstr 10)"
  shows "\<exists>r acts g. gate_init queryname listen gate_create (Some p) = Some (r, acts, g) \<and>
    (r = 0 \<longleftrightarrow> 4 \<le> n \<and> 0 < mx \<and> header \<in> {CHR ''S'', CHR ''L''} \<and> (hd wdog = CHR ''!'' \<or> queryname wdog \<noteq> 0) \<and>
      0 < port \<and> 0 \<le> listen host port) \<and>
    (r = 0 \<longrightarrow> acts = [SetCallback, SocketStart (listen host port)] \<and> listen_id g = listen host port \<and>
      gate_wf g \<and> conn_of g = (\<lambda>_. None) \<and> max_connection g = nat mx \<and>
      header_size g = (if header = CHR ''S'' then 2 else 4))"
proof -
  let ?w = "if hd wdog = CHR ''!'' then 0 else queryname wdog"
  define G where "G h = gate_create\<lparr>watchdog := ?w, gate_hash := h, gate_conn := replicate (nat mx) (zero_connection (-1)),
      max_connection := nat mx, client_tag := (if tag = 0 then PTYPE_CLIENT else nat (tag mod 2 ^ 32)),
      header_size := (if header = CHR ''S'' then 2 else 4)\<rparr>" for h
  have "nat mx \<le> 2 ^ 30" using mx by simp
  from hashid_init_wf [OF this] obtain h where h: "hashid_init (nat mx) = Some h" "hi_wf h" "hid_map h = (\<lambda>_. None)"
    "hi_cap h = nat mx" by blast
  have G: "gate_wf (G h\<lparr>listen_id := l\<rparr>)" "conn_of (G h\<lparr>listen_id := l\<rparr>) = (\<lambda>_. None)" for l
    using h by (auto simp: G_def gate_create_def intro!: gate_fresh [OF h(2-4)])
  have sel: "max_connection (G h) = nat mx" "header_size (G h) = (if header = CHR ''S'' then 2 else 4)"
    by (simp_all add: G_def)
  have "gate_init queryname listen gate_create (Some p) =
     (if n < 4 then Some (1, [LogError (''Invalid gate parm '' @ p)], gate_create)
      else if mx \<le> 0 then Some (1, [LogError ''Need max connection''], gate_create)
      else if header \<noteq> CHR ''S'' \<and> header \<noteq> CHR ''L'' then Some (1, [LogError ''Invalid data header style''], gate_create)
      else if hd wdog \<noteq> CHR ''!'' \<and> ?w = 0 then Some (1, [LogError (''Invalid watchdog '' @ wdog)], gate_create\<lparr>watchdog := ?w\<rparr>)
      else let (r, acts, g) = start_listen listen (G h) addr in Some (r, SetCallback # acts, g))"
    unfolding gate_init_def option.case sp Let_def case_prod_conv h(1) Option.bind.bind_lunit G_def by simp
  then show ?thesis
    unfolding start_listen_cases [OF sa] using G sel by (simp add: not_le not_less flip: port_def)
qed

text \<open>
  The command \<^verbatim>\<open>kick\<close> with the decimal number of a connected socket closes exactly that socket; so does every
  prefix of the word, the empty one included, because the code compares only the letters it was given.
\<close>

theorem gate_kick_prefixes:
  assumes "gate_wf g" "conn_of g fd = Some c" "fd < 2 ^ 31" "n \<le> 4"
  shows "gate_ctrl queryname g (take n ''kick'' @ '' '' @ show_int fd) = Some ([SocketClose fd], g)"
proof -
  from assms(2) obtain i where i: "hid_map (gate_hash g) fd = Some i" by (auto simp: conn_of_def)
  have fd: "0 \<le> fd" using gate_wf_slot(5) [OF assms(1) i] .
  have s: "show_int fd = print_base 10 (nat fd)" using fd by (simp add: show_int_def)
  have pb: "\<forall>c \<in> set (print_base 10 (nat fd)). is_digit 10 c" "print_base 10 (nat fd) \<noteq> []"
    using print_base_read [of 10 "nat fd"] by auto
  have sp: "dropWhile (\<lambda>c. c = CHR '' '') (print_base 10 (nat fd)) = print_base 10 (nat fd)"
    using pb by (cases "print_base 10 (nat fd)") (auto simp: is_digit_def digit_val_def)
  have n: "n = 0 \<or> n = 1 \<or> n = 2 \<or> n = 3 \<or> n = 4" using assms(4) by arith
  have "strtol (print_base 10 (nat fd)) 10 = fd"
    using strtol_show_nat [of "[]" "nat fd"] assms(3) fd by simp
  then have "ctrl_socket SocketClose g (print_base 10 (nat fd)) = Some ([SocketClose fd], g)"
    using hm.lookup_tab [OF gate_wfD(1) [OF assms(1)], of fd] i fd assms(3)
    by (simp add: ctrl_socket_def c_int_small)
  with n show ?thesis
    unfolding s by (elim disjE) (simp_all add: gate_ctrl_def gate_parm_def memcmp_lit_def sp)
qed

lemma gate_kick_prefixes_witness:
  "gate_ctrl (\<lambda>_. 0) served_gate ''k 3'' = Some ([SocketClose 3], served_gate)"
proof -
  have "show_int 3 = ''3''" by (simp add: show_int_def print_base.simps digit_char_def char_of_def bit_0)
  then show ?thesis using gate_kick_prefixes [OF served_gate_wf, of 1 "\<lambda>_. 0"] by simp
qed

text \<open>The four bytes of an id, little-endian.\<close>

definition uid_bytes :: "int \<Rightarrow> u8 list" where
  "uid_bytes fd = map (\<lambda>k. of_int (fd div 2 ^ (8 * k))) [0, 1, 2, 3]"

lemma client_uid_bytes:
  assumes "0 \<le> fd" "fd < 2 ^ 31"
  shows "client_uid (uid_bytes fd) = fd"
proof -
  have b: "uint (of_int v :: u8) = v mod 256" for v
    by (simp add: uint_word_of_int take_bit_eq_mod)
  define q where "q = fd div 256"
  define r where "r = q div 256"
  define s where "s = r div 256"
  have e: "fd div 65536 = r" "fd div 16777216 = s"
    unfolding q_def r_def s_def by (simp_all flip: zdiv_zmult2_eq)
  have "s mod 256 = s" using assms e(2) by (intro mod_pos_pos_trivial) (simp_all flip: e(2) add: pos_imp_zdiv_nonneg_iff)
  moreover have "fd = 256 * q + fd mod 256" "q = 256 * r + q mod 256" "r = 256 * s + r mod 256"
    unfolding s_def r_def q_def by simp_all
  ultimately have "fd mod 256 + q mod 256 * 256 + r mod 256 * 65536 + s mod 256 * 16777216 = fd" by linarith
  then show ?thesis using assms by (simp add: client_uid_def uid_bytes_def b e c_int_small flip: q_def)
qed

text \<open>A message of type client reaches the socket whose id is written behind it, without the id.\<close>

theorem gate_client_reaches_socket:
  assumes "gate_wf g" "conn_of g fd = Some c" "fd < 2 ^ 31" "payload \<noteq> []"
  shows "gate_client g source (payload @ uid_bytes fd) = Some (1, [SocketSend fd payload], g)"
proof -
  from assms(2) obtain i where i: "hid_map (gate_hash g) fd = Some i" by (auto simp: conn_of_def)
  have "length (uid_bytes fd) = 4" by (simp add: uid_bytes_def)
  then show ?thesis
    using client_uid_bytes [OF gate_wf_slot(5) [OF assms(1) i] assms(3)] assms(4)
      hm.lookup_tab [OF gate_wfD(1) [OF assms(1)], of fd] i
    by (simp add: gate_client_def)
qed

lemma gate_client_reaches_socket_witness:
  "gate_client served_gate 8 [1, 2, 3, 0, 0, 0] = Some (1, [SocketSend 3 [1, 2]], served_gate)"
  using gate_client_reaches_socket [OF served_gate_wf, of "[1, 2]" 8] by (simp add: uid_bytes_def)

end
