(* ===== verification/Handle.thy ===== *)
theory Handle
  imports Prelude "HOL-Library.Char_ord" "HOL-Library.List_Lexorder"
begin

text \<open>
  The handle storage of \<^verbatim>\<open>skynet-src/skynet_handle.c\<close>: an open hash table that maps the 32-bit handle of
  a service to its context, and a sorted array of local names. A context is an address; the function
  \<^verbatim>\<open>ch\<close> stands for \<^verbatim>\<open>skynet_context_handle\<close> and gives the \<^verbatim>\<open>handle\<close> field of a live context (None for an
  address that holds no context, which the code must not dereference). Every function runs under
  the lock of the storage.
\<close>

section \<open>State\<close>

definition HANDLE_MASK :: u32 where "HANDLE_MASK = 0xffffff"
definition HANDLE_REMOTE_SHIFT :: nat where "HANDLE_REMOTE_SHIFT = 24"
definition DEFAULT_SLOT_SIZE :: nat where "DEFAULT_SLOT_SIZE = 4"
definition MAX_SLOT_SIZE :: nat where "MAX_SLOT_SIZE = 0x40000000"

record handle_storage =
  hs_harbor :: u32
  handle_index :: u32
  slot_size :: nat
  hs_slot :: "ptr option list"
  name_cap :: nat
  hs_name :: "(string \<times> u32) list"

text \<open>\<^verbatim>\<open>skynet_handle_init\<close>; the array of names is given by its live prefix.\<close>

definition skynet_handle_init :: "u32 \<Rightarrow> handle_storage" where
  "skynet_handle_init harbor = \<lparr>
     hs_harbor = push_bit HANDLE_REMOTE_SHIFT (harbor AND 0xff), handle_index = 1,
     slot_size = DEFAULT_SLOT_SIZE, hs_slot = replicate DEFAULT_SLOT_SIZE None,
     name_cap = 2, hs_name = []\<rparr>"

section \<open>Registration\<close>

text \<open>The slot of a handle, \<^verbatim>\<open>handle & (slot_size - 1)\<close>.\<close>

definition handle_hash :: "u32 \<Rightarrow> nat \<Rightarrow> nat" where
  "handle_hash handle sz = unat (handle AND (of_nat sz - 1))"

text \<open>
  The inner loop of \<^verbatim>\<open>skynet_handle_register\<close>: try \<^verbatim>\<open>n\<close> handles in a row, starting again at 1 after
  \<^verbatim>\<open>HANDLE_MASK\<close>. The result is None inside Some when every slot visited is taken.
\<close>

fun register_scan :: "ptr option list \<Rightarrow> nat \<Rightarrow> nat \<Rightarrow> u32 \<Rightarrow> u32 option option" where
  "register_scan slot sz 0 handle = Some None"
| "register_scan slot sz (Suc n) handle =
     (let h = (if handle > HANDLE_MASK then 1 else handle) in do {
        e \<leftarrow> c_index slot (handle_hash h sz);
        if e = None then Some (Some h) else register_scan slot sz n (h + 1)
      })"

text \<open>The loop that moves every context to the table of twice the size.\<close>

fun rehash :: "(ptr \<Rightarrow> u32 option) \<Rightarrow> nat \<Rightarrow> ptr option list \<Rightarrow> ptr option list \<Rightarrow> ptr option list option" where
  "rehash ch sz2 [] new_slot = Some new_slot"
| "rehash ch sz2 (e # es) new_slot = do {
     ctx \<leftarrow> e;
     h \<leftarrow> ch ctx;
     old \<leftarrow> c_index new_slot (handle_hash h sz2);
     c_assert (old = None);
     new_slot' \<leftarrow> c_update new_slot (handle_hash h sz2) (Some ctx);
     rehash ch sz2 es new_slot'
   }"

definition grow_slots :: "(ptr \<Rightarrow> u32 option) \<Rightarrow> handle_storage \<Rightarrow> handle_storage option" where
  "grow_slots ch s = do {
     c_assert (slot_size s * 2 - 1 \<le> unat HANDLE_MASK);
     new_slot \<leftarrow> rehash ch (slot_size s * 2) (take (slot_size s) (hs_slot s)) (replicate (slot_size s * 2) None);
     Some (s\<lparr>hs_slot := new_slot, slot_size := slot_size s * 2\<rparr>)
   }"

partial_function (option) skynet_handle_register ::
    "(ptr \<Rightarrow> u32 option) \<Rightarrow> ptr \<Rightarrow> handle_storage \<Rightarrow> (u32 \<times> handle_storage) option" where
  "skynet_handle_register ch ctx s =
     register_scan (hs_slot s) (slot_size s) (slot_size s) (handle_index s) \<bind> (\<lambda>r. case r of
        Some h \<Rightarrow> Some (h OR hs_harbor s,
          s\<lparr>hs_slot := (hs_slot s)[handle_hash h (slot_size s) := Some ctx], handle_index := h + 1\<rparr>)
      | None \<Rightarrow> grow_slots ch s \<bind> (\<lambda>s'. skynet_handle_register ch ctx s'))"

text \<open>
  \<^verbatim>\<open>skynet_handle_retire\<close> up to the release of the lock: the context to release afterwards (None when the
  handle is not registered, which is the C result 0) and the storage.
\<close>

definition skynet_handle_retire ::
    "(ptr \<Rightarrow> u32 option) \<Rightarrow> u32 \<Rightarrow> handle_storage \<Rightarrow> (ptr option \<times> handle_storage) option" where
  "skynet_handle_retire ch handle s = do {
     let hash = handle_hash handle (slot_size s);
     e \<leftarrow> c_index (hs_slot s) hash;
     case e of
       None \<Rightarrow> Some (None, s)
     | Some ctx \<Rightarrow> do {
         h \<leftarrow> ch ctx;
         if h = handle
         then Some (Some ctx, s\<lparr>hs_slot := (hs_slot s)[hash := None],
                             hs_name := filter (\<lambda>n. snd n \<noteq> handle) (hs_name s)\<rparr>)
         else Some (None, s)
       }
   }"

text \<open>\<^verbatim>\<open>skynet_handle_grab\<close> up to the increment of the reference count, which \<^verbatim>\<open>Server\<close> adds.\<close>

definition handle_lookup ::
    "(ptr \<Rightarrow> u32 option) \<Rightarrow> u32 \<Rightarrow> handle_storage \<Rightarrow> ptr option option" where
  "handle_lookup ch handle s = do {
     e \<leftarrow> c_index (hs_slot s) (handle_hash handle (slot_size s));
     case e of
       None \<Rightarrow> Some None
     | Some ctx \<Rightarrow> do { h \<leftarrow> ch ctx; Some (if h = handle then Some ctx else None) }
   }"

section \<open>Names\<close>

fun strcmp :: "string \<Rightarrow> string \<Rightarrow> int" where
  "strcmp [] [] = 0"
| "strcmp [] (y # ys) = -1"
| "strcmp (x # xs) [] = 1"
| "strcmp (x # xs) (y # ys) =
     (if x = y then strcmp xs ys else if (of_char x :: nat) < of_char y then -1 else 1)"

text \<open>
  The binary search of \<^verbatim>\<open>skynet_handle_findname\<close> and \<^verbatim>\<open>_insert_name\<close>: Inl gives the index of the name,
  Inr the value of \<^verbatim>\<open>begin\<close> when the name is absent.
\<close>

function name_search :: "(string \<times> u32) list \<Rightarrow> string \<Rightarrow> int \<Rightarrow> int \<Rightarrow> (nat + nat) option" where
  "name_search ns name begin' end' =
     (if begin' \<le> end' then
        (let mid = (begin' + end') div 2 in
         c_index ns (nat mid) \<bind> (\<lambda>n.
           (let c = strcmp (fst n) name in
            if c = 0 then Some (Inl (nat mid))
            else if c < 0 then name_search ns name (mid + 1) end'
            else name_search ns name begin' (mid - 1))))
      else Some (Inr (nat begin')))"
  by pat_completeness auto
termination
  by (relation "measure (\<lambda>(ns, name, b, e). nat (e - b + 1))") auto

declare name_search.simps [simp del]

definition skynet_handle_findname :: "string \<Rightarrow> handle_storage \<Rightarrow> u32 option" where
  "skynet_handle_findname name s = do {
     r \<leftarrow> name_search (hs_name s) name 0 (int (length (hs_name s)) - 1);
     Some (case r of Inl i \<Rightarrow> snd (hs_name s ! i) | Inr _ \<Rightarrow> 0)
   }"

text \<open>\<^verbatim>\<open>_insert_name_before\<close>.\<close>

definition insert_name_before :: "string \<Rightarrow> u32 \<Rightarrow> nat \<Rightarrow> handle_storage \<Rightarrow> handle_storage option" where
  "insert_name_before name handle before s = do {
     cap \<leftarrow> (if length (hs_name s) \<ge> name_cap s then do {
               c_assert (name_cap s * 2 \<le> MAX_SLOT_SIZE);
               Some (name_cap s * 2)
             } else Some (name_cap s));
     c_assert (length (hs_name s) < cap);
     Some (s\<lparr>name_cap := cap,
       hs_name := take before (hs_name s) @ (name, handle) # drop before (hs_name s)\<rparr>)
   }"

text \<open>\<^verbatim>\<open>_insert_name\<close> and \<^verbatim>\<open>skynet_handle_namehandle\<close>; None inside Some is the C result NULL.\<close>

definition skynet_handle_namehandle ::
    "u32 \<Rightarrow> string \<Rightarrow> handle_storage \<Rightarrow> (string option \<times> handle_storage) option" where
  "skynet_handle_namehandle handle name s = do {
     r \<leftarrow> name_search (hs_name s) name 0 (int (length (hs_name s)) - 1);
     case r of
       Inl _ \<Rightarrow> Some (None, s)
     | Inr begin' \<Rightarrow> do { s' \<leftarrow> insert_name_before name handle begin' s; Some (Some name, s') }
   }"

section \<open>The name table\<close>

lemma strcmp_order: "(strcmp a b = 0 \<longleftrightarrow> a = b) \<and> (strcmp a b < 0 \<longleftrightarrow> a < b) \<and> (0 < strcmp a b \<longleftrightarrow> b < a)"
proof (induction a b rule: strcmp.induct)
  case (4 x xs y ys)
  consider "x = y" | "x \<noteq> y" "(of_char x :: nat) < of_char y" | "x \<noteq> y" "(of_char y :: nat) < of_char x"
    by (metis linorder_less_linear of_char_eq_iff)
  then show ?case using 4 by cases (auto simp: less_char_def)
qed simp_all

definition names_sorted :: "handle_storage \<Rightarrow> bool" where
  "names_sorted s \<longleftrightarrow> sorted_wrt (<) (map fst (hs_name s))"

lemma sorted_nth_less:
  "sorted_wrt (<) (map fst ns) \<Longrightarrow> i < j \<Longrightarrow> j < length ns \<Longrightarrow> fst (ns ! i) < fst (ns ! j)"
  using sorted_wrt_nth_less [of "(<)" "map fst ns" i j] by simp

text \<open>The search finds the name or the place that keeps the array sorted, and never leaves the array.\<close>

lemma name_search_correct:
  fixes name :: string
  assumes "sorted_wrt (<) (map fst ns)" "0 \<le> b" "e < int (length ns)" "b \<le> e + 1"
    and "\<And>i. int i < b \<Longrightarrow> fst (ns ! i) < name"
    and "\<And>i. e < int i \<Longrightarrow> i < length ns \<Longrightarrow> name < fst (ns ! i)"
  shows "\<exists>r. name_search ns name b e = Some r \<and> (case r of
      Inl i \<Rightarrow> i < length ns \<and> fst (ns ! i) = name
    | Inr i \<Rightarrow> i \<le> length ns \<and> (\<forall>j < i. fst (ns ! j) < name) \<and>
        (\<forall>j. i \<le> j \<longrightarrow> j < length ns \<longrightarrow> name < fst (ns ! j)))"
  using assms
proof (induction ns name b e rule: name_search.induct)
  case (1 ns name b e)
  show ?case
  proof (cases "b \<le> e")
    case False
    with "1.prems" have "e = b - 1" by simp
    with "1.prems" False show ?thesis
      by (subst name_search.simps) (auto simp: le_nat_iff)
  next
    case True
    let ?mid = "(b + e) div 2"
    have mid: "b \<le> ?mid" "?mid \<le> e" using True by auto
    then have in_range: "nat ?mid < length ns" and pos: "0 \<le> ?mid" using "1.prems"(2,3) by auto
    let ?n = "ns ! nat ?mid"
    have c: "c_index ns (nat ?mid) = Some ?n" using in_range by simp
    have *: "name_search ns name b e =
      (if strcmp (fst ?n) name = 0 then Some (Inl (nat ?mid))
       else if strcmp (fst ?n) name < 0 then name_search ns name (?mid + 1) e
       else name_search ns name b (?mid - 1))"
      using True in_range by (subst name_search.simps) (simp add: Let_def)
    consider "fst ?n = name" | "fst ?n < name" | "name < fst ?n" by (metis linorder_less_linear)
    then show ?thesis
    proof cases
      case 1
      then show ?thesis using in_range strcmp_order [of "fst ?n" name] by (simp add: *)
    next
      case 2
      have low: "fst (ns ! i) < name" if "int i < ?mid + 1" for i
      proof (cases "i = nat ?mid")
        case False
        with that pos have "i < nat ?mid" by auto
        with sorted_nth_less [OF "1.prems"(1) this in_range] 2 show ?thesis by order
      qed (use 2 in simp)
      have sc: "strcmp (fst ?n) name \<noteq> 0" "strcmp (fst ?n) name < 0"
        using 2 strcmp_order [of "fst ?n" name] by auto
      show ?thesis unfolding * using sc
        by (simp, intro "1.IH"(1) [OF True refl c refl])
          (use "1.prems" low mid pos in auto)
    next
      case 3
      have high: "name < fst (ns ! i)" if "?mid - 1 < int i" "i < length ns" for i
      proof (cases "i = nat ?mid")
        case False
        with that pos have "nat ?mid < i" by auto
        with sorted_nth_less [OF "1.prems"(1) this that(2)] 3 show ?thesis by order
      qed (use 3 in simp)
      have sc: "strcmp (fst ?n) name \<noteq> 0" "\<not> strcmp (fst ?n) name < 0"
        using 3 strcmp_order [of "fst ?n" name] by auto
      show ?thesis unfolding * using sc
        by (simp, intro "1.IH"(2) [OF True refl c refl])
          (use "1.prems" high mid pos in auto)
    qed
  qed
qed

text \<open>
  The contract of a table of names: a finite map from names to handles; finding gives the
  handle or 0, binding adds a new name and refuses one that is there.
\<close>

locale name_table =
  fixes inv :: "'s \<Rightarrow> bool"
    and tab :: "'s \<Rightarrow> string \<Rightarrow> u32 option"
    and room :: "'s \<Rightarrow> bool"
    and find :: "string \<Rightarrow> 's \<Rightarrow> u32 option"
    and bindn :: "u32 \<Rightarrow> string \<Rightarrow> 's \<Rightarrow> (string option \<times> 's) option"
  assumes find_tab: "inv s \<Longrightarrow> find name s = Some (case tab s name of None \<Rightarrow> 0 | Some h \<Rightarrow> h)"
    and bind_new: "inv s \<Longrightarrow> room s \<Longrightarrow> tab s name = None \<Longrightarrow>
      \<exists>s'. bindn h name s = Some (Some name, s') \<and> inv s' \<and> tab s' = (tab s)(name \<mapsto> h)"
    and bind_old: "inv s \<Longrightarrow> tab s name \<noteq> None \<Longrightarrow> bindn h name s = Some (None, s)"
begin

lemma bind_find:
  assumes "inv s" "room s"
  shows "\<exists>r s'. bindn h name s = Some (r, s') \<and> inv s' \<and>
    (r = None \<longleftrightarrow> tab s name \<noteq> None) \<and>
    find name s' = Some (case tab s name of None \<Rightarrow> h | Some old \<Rightarrow> old) \<and>
    (\<forall>other. other \<noteq> name \<longrightarrow> find other s' = find other s)"
proof (cases "tab s name")
  case None
  with bind_new [OF assms] obtain s' where
    "bindn h name s = Some (Some name, s')" "inv s'" "tab s' = (tab s)(name \<mapsto> h)" by blast
  with assms None show ?thesis by (auto simp: find_tab)
next
  case (Some old)
  with bind_old [OF assms(1)] assms show ?thesis by (auto simp: find_tab)
qed

end

definition names_wf :: "handle_storage \<Rightarrow> bool" where
  "names_wf s \<longleftrightarrow> names_sorted s \<and> 0 < name_cap s \<and> length (hs_name s) \<le> name_cap s"

definition name_room :: "handle_storage \<Rightarrow> bool" where
  "name_room s \<longleftrightarrow> 2 * length (hs_name s) < MAX_SLOT_SIZE"

lemma sorted_wrt_distinct: "sorted_wrt (<) (xs :: string list) \<Longrightarrow> distinct xs"
  by (simp add: strict_sorted_iff)

lemma map_of_name_search:
  assumes "names_wf s"
  shows "\<exists>r. name_search (hs_name s) name 0 (int (length (hs_name s)) - 1) = Some r \<and> (case r of
      Inl i \<Rightarrow> i < length (hs_name s) \<and> fst (hs_name s ! i) = name \<and> map_of (hs_name s) name = Some (snd (hs_name s ! i))
    | Inr i \<Rightarrow> i \<le> length (hs_name s) \<and> (\<forall>j < i. fst (hs_name s ! j) < name) \<and>
        (\<forall>j. i \<le> j \<longrightarrow> j < length (hs_name s) \<longrightarrow> name < fst (hs_name s ! j)) \<and> map_of (hs_name s) name = None)"
proof -
  let ?ns = "hs_name s"
  have srt: "sorted_wrt (<) (map fst ?ns)" using assms by (simp add: names_wf_def names_sorted_def)
  from name_search_correct [OF srt, of 0 "int (length ?ns) - 1" name] obtain r where
    r: "name_search ?ns name 0 (int (length ?ns) - 1) = Some r" and
    c: "case r of Inl i \<Rightarrow> i < length ?ns \<and> fst (?ns ! i) = name
      | Inr i \<Rightarrow> i \<le> length ?ns \<and> (\<forall>j < i. fst (?ns ! j) < name) \<and>
        (\<forall>j. i \<le> j \<longrightarrow> j < length ?ns \<longrightarrow> name < fst (?ns ! j))"
    by auto
  show ?thesis
  proof (cases r)
    case (Inl i)
    with c have "(name, snd (?ns ! i)) \<in> set ?ns" by (auto simp: in_set_conv_nth prod_eq_iff)
    then have "map_of ?ns name = Some (snd (?ns ! i))"
      using sorted_wrt_distinct [OF srt] by (intro map_of_is_SomeI) auto
    with r c Inl show ?thesis by auto
  next
    case (Inr i)
    have "fst (?ns ! j) \<noteq> name" if "j < length ?ns" for j
    proof (cases "j < i")
      case True
      with c Inr have "fst (?ns ! j) < name" by simp
      then show ?thesis by simp
    next
      case False
      with c Inr that have "name < fst (?ns ! j)" by simp
      then show ?thesis by (metis less_irrefl)
    qed
    then have "\<forall>n \<in> set ?ns. fst n \<noteq> name" by (metis in_set_conv_nth)
    then have "map_of ?ns name = None" by (auto simp: map_of_eq_None_iff)
    with r c Inr show ?thesis by auto
  qed
qed

lemma findname_map:
  assumes "names_wf s"
  shows "skynet_handle_findname name s = Some (case map_of (hs_name s) name of None \<Rightarrow> 0 | Some h \<Rightarrow> h)"
  using map_of_name_search [OF assms, of name]
proof (elim exE conjE, goal_cases)
  case (1 r)
  then show ?case by (cases r) (simp_all add: skynet_handle_findname_def)
qed

lemma namehandle_old:
  assumes "names_wf s" "map_of (hs_name s) name \<noteq> None"
  shows "skynet_handle_namehandle h name s = Some (None, s)"
  using map_of_name_search [OF assms(1), of name]
proof (elim exE conjE, goal_cases)
  case (1 r)
  with assms(2) show ?case by (cases r) (simp_all add: skynet_handle_namehandle_def)
qed

lemma sorted_insert_at:
  assumes "sorted_wrt (<) (map fst ns)" "i \<le> length ns" "\<forall>j < i. fst (ns ! j) < (name :: string)"
    "\<forall>j. i \<le> j \<longrightarrow> j < length ns \<longrightarrow> name < fst (ns ! j)"
  shows "sorted_wrt (<) (map fst (take i ns @ (name, h) # drop i ns))"
    and "map_of (take i ns @ (name, h) # drop i ns) = (map_of ns)(name \<mapsto> h)"
proof -
  have l: "\<forall>x \<in> set (take i ns). fst x < name"
  proof
    fix x assume "x \<in> set (take i ns)"
    then obtain k where "k < i" "x = ns ! k" using assms(2) by (auto simp: in_set_conv_nth)
    with assms(3) show "fst x < name" by simp
  qed
  have r: "\<forall>x \<in> set (drop i ns). name < fst x"
  proof
    fix x assume "x \<in> set (drop i ns)"
    then obtain k where "k < length ns - i" "x = ns ! (i + k)" by (auto simp: in_set_conv_nth)
    with assms(4) show "name < fst x" by auto
  qed
  have "sorted_wrt (<) (map fst (take i ns) @ map fst (drop i ns))"
    using assms(1) by (simp flip: map_append)
  with l r show "sorted_wrt (<) (map fst (take i ns @ (name, h) # drop i ns))"
    by (auto simp: sorted_wrt_append)
  have "map_of (take i ns) name = None" using l by (auto simp: map_of_eq_None_iff)
  moreover have "map_of ns = map_of (drop i ns) ++ map_of (take i ns)"
    by (simp flip: map_of_append)
  ultimately show "map_of (take i ns @ (name, h) # drop i ns) = (map_of ns)(name \<mapsto> h)"
    by (auto simp: fun_eq_iff map_add_def split: option.splits)
qed

lemma insert_name_before_ok:
  assumes "names_wf s" "name_room s"
  shows "\<exists>s'. insert_name_before name h i s = Some s' \<and>
    s' = s\<lparr>name_cap := name_cap s', hs_name := hs_name s'\<rparr> \<and>
    hs_name s' = take i (hs_name s) @ (name, h) # drop i (hs_name s) \<and> length (hs_name s) < name_cap s'"
  using assms by (cases "length (hs_name s) \<ge> name_cap s")
    (auto simp: insert_name_before_def names_wf_def name_room_def)

lemma namehandle_new:
  assumes wf: "names_wf s" and room: "name_room s" and new: "map_of (hs_name s) name = None"
  shows "\<exists>s'. skynet_handle_namehandle h name s = Some (Some name, s') \<and> names_wf s' \<and>
    map_of (hs_name s') = (map_of (hs_name s))(name \<mapsto> h) \<and>
    s' = s\<lparr>name_cap := name_cap s', hs_name := hs_name s'\<rparr>"
proof -
  from map_of_name_search [OF wf, of name] new obtain i where
    r: "name_search (hs_name s) name 0 (int (length (hs_name s)) - 1) = Some (Inr i)" and
    i: "i \<le> length (hs_name s)" "\<forall>j < i. fst (hs_name s ! j) < name"
      "\<forall>j. i \<le> j \<longrightarrow> j < length (hs_name s) \<longrightarrow> name < fst (hs_name s ! j)"
  proof (elim exE conjE, goal_cases)
    case (1 r)
    then show ?case using new by (cases r) simp_all
  qed
  have srt: "sorted_wrt (<) (map fst (hs_name s))" using wf by (simp add: names_wf_def names_sorted_def)
  note ins = sorted_insert_at [OF srt i, of h]
  obtain s' where s': "insert_name_before name h i s = Some s'"
      "s' = s\<lparr>name_cap := name_cap s', hs_name := hs_name s'\<rparr>"
      "hs_name s' = take i (hs_name s) @ (name, h) # drop i (hs_name s)" "length (hs_name s) < name_cap s'"
    using insert_name_before_ok [OF wf room] by blast
  with ins have "names_wf s'" by (simp add: names_wf_def names_sorted_def)
  with s' ins(2) show ?thesis
    by (intro exI [of _ s']) (simp add: skynet_handle_namehandle_def r)
qed

interpretation nt: name_table names_wf "\<lambda>s. map_of (hs_name s)" name_room
    skynet_handle_findname skynet_handle_namehandle
  using findname_map namehandle_old namehandle_new by unfold_locales blast+

lemma sorted_map_filter: "sorted_wrt P (map f xs) \<Longrightarrow> sorted_wrt P (map f (filter Q xs))"
  by (simp add: sorted_wrt_map sorted_wrt_filter)

lemma names_wf_filter: "names_wf s \<Longrightarrow> names_wf (s\<lparr>hs_name := filter P (hs_name s)\<rparr>)"
  unfolding names_wf_def names_sorted_def
  by (auto intro: sorted_map_filter order_trans [OF length_filter_le])

end
