(* ===== verification/Timer.thy ===== *)
theory Timer
  imports Message
begin

text \<open>
  The timing wheel of \<^verbatim>\<open>skynet-src/skynet_timer.c\<close>: 256 slots for the near future and four levels
  of 64 slots each. A linked list of nodes is the list of its nodes, oldest first. A dispatched node is a message
  to push, so an update returns the pushes it makes, in order. The lock is released while a
  list is dispatched; the lemma \<^verbatim>\<open>add_not_current\<close> says why an addition in that window does not matter.
\<close>

section \<open>State\<close>

definition TIME_NEAR_SHIFT :: nat where "TIME_NEAR_SHIFT = 8"
definition TIME_NEAR :: nat where "TIME_NEAR = 256"
definition TIME_LEVEL_SHIFT :: nat where "TIME_LEVEL_SHIFT = 6"
definition TIME_LEVEL :: nat where "TIME_LEVEL = 64"
definition TIME_NEAR_MASK :: u32 where "TIME_NEAR_MASK = 255"
definition TIME_LEVEL_MASK :: u32 where "TIME_LEVEL_MASK = 63"

record timer_event =
  te_handle :: u32
  te_session :: int

record timer_node =
  expire :: u32
  node_event :: timer_event

record timer =
  near :: "timer_node list list"
  tv :: "timer_node list list list"
  t_time :: u32
  starttime :: u32
  t_current :: u64
  current_point :: u64

section \<open>Operations\<close>

text \<open>\<^verbatim>\<open>link\<close> at the end of a slot of the near array, or of a level.\<close>

definition link_near :: "nat \<Rightarrow> timer_node \<Rightarrow> timer \<Rightarrow> timer option" where
  "link_near j node T = do {
     l \<leftarrow> c_index (near T) j;
     near' \<leftarrow> c_update (near T) j (l @ [node]);
     Some (T\<lparr>near := near'\<rparr>) }"

definition set_level :: "nat \<Rightarrow> nat \<Rightarrow> timer_node list \<Rightarrow> timer \<Rightarrow> timer option" where
  "set_level i j l T = do {
     lv \<leftarrow> c_index (tv T) i;
     lv' \<leftarrow> c_update lv j l;
     tv' \<leftarrow> c_update (tv T) i lv';
     Some (T\<lparr>tv := tv'\<rparr>) }"

definition get_level :: "nat \<Rightarrow> nat \<Rightarrow> timer \<Rightarrow> timer_node list option" where
  "get_level i j T = do { lv \<leftarrow> c_index (tv T) i; c_index lv j }"

text \<open>The loop of \<^verbatim>\<open>add_node\<close> that finds the level: at most three tests, with growing masks.\<close>

fun find_level :: "u32 \<Rightarrow> u32 \<Rightarrow> nat \<Rightarrow> nat \<Rightarrow> u32 \<Rightarrow> nat" where
  "find_level time cur i 0 msk = i"
| "find_level time cur i (Suc n) msk =
     (if time OR (msk - 1) = cur OR (msk - 1) then i
      else find_level time cur (i + 1) n (push_bit TIME_LEVEL_SHIFT msk))"

definition add_node :: "timer_node \<Rightarrow> timer \<Rightarrow> timer option" where
  "add_node node T =
     (let time = expire node; cur = t_time T in
      if time OR TIME_NEAR_MASK = cur OR TIME_NEAR_MASK
      then link_near (unat (time AND TIME_NEAR_MASK)) node T
      else do {
        let i = find_level time cur 0 3 (push_bit TIME_LEVEL_SHIFT (of_nat TIME_NEAR));
        let j = unat (drop_bit (TIME_NEAR_SHIFT + i * TIME_LEVEL_SHIFT) time AND TIME_LEVEL_MASK);
        l \<leftarrow> get_level i j T;
        set_level i j (l @ [node]) T
      })"

definition timer_add :: "timer_event \<Rightarrow> int \<Rightarrow> timer \<Rightarrow> timer option" where
  "timer_add arg time T = add_node \<lparr>expire = of_int time + t_time T, node_event = arg\<rparr> T"

fun add_nodes :: "timer_node list \<Rightarrow> timer \<Rightarrow> timer option" where
  "add_nodes [] T = Some T"
| "add_nodes (n # ns) T = add_node n T \<bind> add_nodes ns"

definition move_list :: "nat \<Rightarrow> nat \<Rightarrow> timer \<Rightarrow> timer option" where
  "move_list level idx T = do {
     current \<leftarrow> get_level level idx T;
     T \<leftarrow> set_level level idx [] T;
     add_nodes current T }"

text \<open>
  The loop of \<^verbatim>\<open>timer_shift\<close>. The mask is an \<^verbatim>\<open>int\<close>: with \<^verbatim>\<open>i = 4\<close> its shift would have overflowed.
\<close>

function shift_loop :: "u32 \<Rightarrow> nat \<Rightarrow> u32 \<Rightarrow> u32 \<Rightarrow> timer \<Rightarrow> timer option" where
  "shift_loop ct i msk time T =
     (if 4 \<le> i then None
      else if ct AND (msk - 1) = 0 then
        (let idx = unat (time AND TIME_LEVEL_MASK) in
         if idx \<noteq> 0 then move_list i idx T
         else shift_loop ct (i + 1) (push_bit TIME_LEVEL_SHIFT msk) (drop_bit TIME_LEVEL_SHIFT time) T)
      else Some T)"
  by pat_completeness auto
termination
  by (relation "measure (\<lambda>(ct, i, msk, time, T). 4 - i)") auto

declare shift_loop.simps [simp del]

definition timer_shift :: "timer \<Rightarrow> timer option" where
  "timer_shift T =
     (let T = T\<lparr>t_time := t_time T + 1\<rparr>; ct = t_time T in
      if ct = 0 then move_list 3 0 T
      else shift_loop ct 0 (of_nat TIME_NEAR) (drop_bit TIME_NEAR_SHIFT ct) T)"

text \<open>The message of \<^verbatim>\<open>dispatch_list\<close> and \<^verbatim>\<open>skynet_timeout\<close>, with the handle it goes to.\<close>

definition timeout_message :: "timer_event \<Rightarrow> u32 \<times> 'd skynet_message" where
  "timeout_message event = (te_handle event,
     \<lparr>msg_source = 0, msg_session = te_session event, msg_data = None, msg_sz = pack_sz 0 PTYPE_RESPONSE\<rparr>)"

fun dispatch_list :: "timer_node list \<Rightarrow> (u32 \<times> 'd skynet_message) list" where
  "dispatch_list [] = []"
| "dispatch_list (n # ns) = timeout_message (node_event n) # dispatch_list ns"

text \<open>\<^verbatim>\<open>timer_execute\<close>: the messages pushed (their number is the result of the C function) and the timer.\<close>

partial_function (option) timer_execute ::
    "timer \<Rightarrow> ((u32 \<times> 'd skynet_message) list \<times> timer) option" where
  "timer_execute T =
     (let idx = unat (t_time T AND TIME_NEAR_MASK) in
      c_index (near T) idx \<bind> (\<lambda>l.
        if l \<noteq> [] then
          c_update (near T) idx [] \<bind> (\<lambda>near'.
            timer_execute (T\<lparr>near := near'\<rparr>) \<bind> (\<lambda>(out, T'). Some (dispatch_list l @ out, T')))
        else Some ([], T)))"

definition timer_update :: "timer \<Rightarrow> (nat \<times> (u32 \<times> 'd skynet_message) list \<times> timer) option" where
  "timer_update T = do {
     (out1, T) \<leftarrow> timer_execute T;
     T \<leftarrow> timer_shift T;
     (out2, T) \<leftarrow> timer_execute T;
     count \<leftarrow> c_nat (length out1 + length out2);
     Some (count, out1 @ out2, T) }"

definition timer_create_timer :: timer where
  "timer_create_timer = \<lparr>near = replicate TIME_NEAR [], tv = replicate 4 (replicate TIME_LEVEL []),
     t_time = 0, starttime = 0, t_current = 0, current_point = 0\<rparr>"

text \<open>
  \<^verbatim>\<open>skynet_timeout\<close>: a delay of 0 or less answers at once. The function \<^verbatim>\<open>push\<close> is \<^verbatim>\<open>skynet_context_push\<close>,
  True when it fails; \<^verbatim>\<open>get\<close> and \<^verbatim>\<open>put\<close> reach the timer in the state of the node.
\<close>

definition skynet_timeout ::
    "(u32 \<Rightarrow> 'd skynet_message \<Rightarrow> 's \<Rightarrow> (bool \<times> 's) option) \<Rightarrow> ('s \<Rightarrow> timer) \<Rightarrow> (timer \<Rightarrow> 's \<Rightarrow> 's) \<Rightarrow>
     u32 \<Rightarrow> int \<Rightarrow> int \<Rightarrow> 's \<Rightarrow> (int \<times> 's) option" where
  "skynet_timeout push get put handle time session s =
     (let event = \<lparr>te_handle = handle, te_session = session\<rparr> in
      if time \<le> 0 then do {
        (failed, s) \<leftarrow> push handle (snd (timeout_message event)) s;
        Some (if failed then -1 else session, s)
      } else do {
        T \<leftarrow> timer_add event time (get s);
        Some (session, put T s)
      })"

text \<open>
  \<^verbatim>\<open>skynet_updatetime\<close> with the reading of the clock: one update for each millisecond since the last call. The first
  component is True when the clock went backwards, which the code reports as an error. The counter of the loop is an \<^verbatim>\<open>int\<close>.
\<close>

fun update_times :: "nat \<Rightarrow> timer \<Rightarrow> (nat \<times> (u32 \<times> 'd skynet_message) list \<times> timer) option" where
  "update_times 0 T = Some (0, [], T)"
| "update_times (Suc n) T = do {
     (c, out, T) \<leftarrow> timer_update T;
     (cs, outs, T) \<leftarrow> update_times n T;
     count \<leftarrow> c_nat (c + cs);
     Some (count, out @ outs, T) }"

definition skynet_updatetime ::
    "u64 \<Rightarrow> timer \<Rightarrow> (bool \<times> nat \<times> (u32 \<times> 'd skynet_message) list \<times> timer) option" where
  "skynet_updatetime cp T =
     (if cp < current_point T then Some (True, 0, [], T\<lparr>current_point := cp\<rparr>)
      else if cp \<noteq> current_point T then do {
        let diff = (ucast (cp - current_point T) :: u32);
        let T = T\<lparr>current_point := cp, t_current := t_current T + ucast diff\<rparr>;
        c_assert (unat diff \<le> INT_MAX);
        (count, out, T) \<leftarrow> update_times (unat diff) T;
        Some (False, count, out, T)
      } else Some (False, 0, [], T))"

definition skynet_starttime :: "timer \<Rightarrow> u32" where "skynet_starttime T = starttime T"
definition skynet_now :: "timer \<Rightarrow> u64" where "skynet_now T = t_current T"

text \<open>\<^verbatim>\<open>systime\<close> and \<^verbatim>\<open>gettime\<close> over the two clocks read (seconds and nanoseconds), and \<^verbatim>\<open>skynet_timer_init\<close>.\<close>

definition systime :: "nat \<Rightarrow> nat \<Rightarrow> u32 \<times> u32" where
  "systime sec nsec = (of_nat sec, of_nat (nsec div 1000000))"

definition gettime :: "nat \<Rightarrow> nat \<Rightarrow> u64" where
  "gettime sec nsec = of_nat sec * 1000 + of_nat (nsec div 1000000)"

definition skynet_timer_init :: "nat \<times> nat \<Rightarrow> nat \<times> nat \<Rightarrow> timer" where
  "skynet_timer_init real monotonic =
     (let (start, current) = systime (fst real) (snd real) in
      timer_create_timer\<lparr>starttime := start, t_current := ucast current, current_point := gettime (fst monotonic) (snd monotonic)\<rparr>)"

section \<open>Buckets\<close>

text \<open>The specification of the wheel: the slot of a node depends only on its expiry and the current time.\<close>

datatype bucket = Near nat | Level nat nat

definition level_shift :: "nat \<Rightarrow> nat" where
  "level_shift i = 8 + i * 6"

definition digit :: "nat \<Rightarrow> u32 \<Rightarrow> nat" where
  "digit i e = unat (drop_bit (level_shift i) e AND TIME_LEVEL_MASK)"

definition level_of :: "u32 \<Rightarrow> u32 \<Rightarrow> nat" where
  "level_of cur e = (if drop_bit 14 e = drop_bit 14 cur then 0 else if drop_bit 20 e = drop_bit 20 cur then 1
     else if drop_bit 26 e = drop_bit 26 cur then 2 else 3)"

definition bucket_of :: "u32 \<Rightarrow> u32 \<Rightarrow> bucket" where
  "bucket_of cur e = (if drop_bit 8 e = drop_bit 8 cur then Near (unat (e AND TIME_NEAR_MASK))
     else Level (level_of cur e) (digit (level_of cur e) e))"

lemma or_mask_eq_iff: "(x OR mask n = y OR mask n) = (drop_bit n x = drop_bit n (y :: u32))"
proof
  assume a: "x OR mask n = y OR mask n"
  have "bit x (n + i) = bit y (n + i)" for i
    using arg_cong [OF a, of "\<lambda>w. bit w (n + i)"] by (simp add: bit_simps)
  then show "drop_bit n x = drop_bit n y" by (intro bit_word_eqI) (simp add: bit_simps)
next
  assume a: "drop_bit n x = drop_bit n y"
  have "bit x i = bit y i" if "n \<le> i" for i
    using arg_cong [OF a, of "\<lambda>w. bit w (i - n)"] that by (simp add: bit_simps)
  then show "x OR mask n = y OR mask n" by (intro bit_word_eqI) (auto simp: bit_simps)
qed

lemma find_level_level_of:
  "find_level e cur 0 3 (push_bit TIME_LEVEL_SHIFT (of_nat TIME_NEAR)) = level_of cur e"
  using or_mask_eq_iff [of e 14 cur] or_mask_eq_iff [of e 20 cur] or_mask_eq_iff [of e 26 cur]
  by (simp add: level_of_def numeral_3_eq_3 TIME_LEVEL_SHIFT_def TIME_NEAR_def push_bit_eq_mult mask_eq_exp_minus_1)

fun valid_bucket :: "bucket \<Rightarrow> bool" where
  "valid_bucket (Near j) = (j < 256)"
| "valid_bucket (Level i j) = (i < 4 \<and> j < 64)"

fun bk :: "timer \<Rightarrow> bucket \<Rightarrow> timer_node list" where
  "bk T (Near j) = near T ! j"
| "bk T (Level i j) = tv T ! i ! j"

fun put_bk :: "bucket \<Rightarrow> timer_node list \<Rightarrow> timer \<Rightarrow> timer" where
  "put_bk (Near j) l T = T\<lparr>near := (near T)[j := l]\<rparr>"
| "put_bk (Level i j) l T = T\<lparr>tv := (tv T)[i := (tv T ! i)[j := l]]\<rparr>"

definition shape :: "timer \<Rightarrow> bool" where
  "shape T \<longleftrightarrow> length (near T) = 256 \<and> length (tv T) = 4 \<and> (\<forall>i < 4. length (tv T ! i) = 64)"

lemma valid_bucket_of [simp]: "valid_bucket (bucket_of cur e)"
proof -
  have m: "unat (x AND 255) < 256" "unat (x AND 63) < 64" for x :: u32
    using word_and_le1 [of x 255] word_and_le1 [of x 63] by (simp_all add: word_le_nat_alt)
  then show ?thesis
    by (auto simp: bucket_of_def level_of_def digit_def TIME_NEAR_MASK_def TIME_LEVEL_MASK_def)
qed

lemma put_bk_shape: "shape T \<Longrightarrow> valid_bucket b \<Longrightarrow> shape (put_bk b l T)"
  by (cases b) (auto simp: shape_def nth_list_update)

lemma bk_put_bk:
  "shape T \<Longrightarrow> valid_bucket b \<Longrightarrow> valid_bucket b' \<Longrightarrow> bk (put_bk b l T) b' = (if b = b' then l else bk T b')"
  by (cases b; cases b') (auto simp: shape_def nth_list_update)

lemma put_bk_time [simp]: "t_time (put_bk b l T) = t_time T"
  by (cases b) simp_all

lemma put_bk_frame: "T' = T\<lparr>near := near T', tv := tv T'\<rparr> \<Longrightarrow>
    put_bk b l T' = T\<lparr>near := near (put_bk b l T'), tv := tv (put_bk b l T')\<rparr>"
  by (cases b; cases T; cases T') simp_all

lemma level_ops:
  assumes "shape T" "i < 4" "j < 64"
  shows "get_level i j T = Some (bk T (Level i j))" and "set_level i j l T = Some (put_bk (Level i j) l T)"
  using assms by (simp_all add: get_level_def set_level_def shape_def)

lemma add_node_bucket:
  assumes "shape T"
  shows "add_node n T = Some (let b = bucket_of (t_time T) (expire n) in put_bk b (bk T b @ [n]) T)"
proof (cases "drop_bit 8 (expire n) = drop_bit 8 (t_time T)")
  case True
  then have "expire n OR TIME_NEAR_MASK = t_time T OR TIME_NEAR_MASK"
    using or_mask_eq_iff [of "expire n" 8 "t_time T"] by (simp add: TIME_NEAR_MASK_def mask_eq_exp_minus_1)
  moreover have "valid_bucket (Near (unat (expire n AND TIME_NEAR_MASK)))"
    using True valid_bucket_of [of "t_time T" "expire n"] by (simp add: bucket_of_def)
  ultimately show ?thesis
    using True assms by (simp add: add_node_def bucket_of_def link_near_def shape_def Let_def)
next
  case False
  then have "expire n OR TIME_NEAR_MASK \<noteq> t_time T OR TIME_NEAR_MASK"
    using or_mask_eq_iff [of "expire n" 8 "t_time T"] by (simp add: TIME_NEAR_MASK_def mask_eq_exp_minus_1)
  moreover have "level_of (t_time T) (expire n) < 4" "digit (level_of (t_time T) (expire n)) (expire n) < 64"
    using False valid_bucket_of [of "t_time T" "expire n"] by (simp_all add: bucket_of_def)
  ultimately show ?thesis
    using False level_ops [OF assms] unfolding add_node_def find_level_level_of Let_def
    by (simp add: bucket_of_def digit_def level_shift_def TIME_NEAR_SHIFT_def TIME_LEVEL_SHIFT_def)
qed

lemma add_nodes_buckets:
  assumes "shape T"
  shows "\<exists>T'. add_nodes ns T = Some T' \<and> shape T' \<and> T' = T\<lparr>near := near T', tv := tv T'\<rparr> \<and>
    (\<forall>b. valid_bucket b \<longrightarrow> bk T' b = bk T b @ filter (\<lambda>n. bucket_of (t_time T) (expire n) = b) ns)"
  using assms
proof (induction ns arbitrary: T)
  case (Cons n ns)
  let ?b = "bucket_of (t_time T) (expire n)"
  let ?T1 = "put_bk ?b (bk T ?b @ [n]) T"
  have "shape ?T1" using Cons.prems by (simp add: put_bk_shape)
  from Cons.IH [OF this] obtain T' where T': "add_nodes ns ?T1 = Some T'" "shape T'"
      "T' = ?T1\<lparr>near := near T', tv := tv T'\<rparr>"
      "\<forall>b. valid_bucket b \<longrightarrow> bk T' b = bk ?T1 b @ filter (\<lambda>n. bucket_of (t_time T) (expire n) = b) ns"
    by auto
  have "T' = T\<lparr>near := near T', tv := tv T'\<rparr>" by (subst T'(3), cases ?b) simp_all
  with T' Cons.prems show ?case
    by (intro exI [of _ T']) (simp add: add_node_bucket Let_def bk_put_bk)
qed simp

lemma move_list_buckets:
  assumes "shape T" "i < 4" "j < 64"
  shows "\<exists>T'. move_list i j T = Some T' \<and> shape T' \<and> T' = T\<lparr>near := near T', tv := tv T'\<rparr> \<and>
    (\<forall>b. valid_bucket b \<longrightarrow> bk T' b = (if b = Level i j then [] else bk T b) @
       filter (\<lambda>n. bucket_of (t_time T) (expire n) = b) (bk T (Level i j)))"
proof -
  let ?T1 = "put_bk (Level i j) [] T"
  have "shape ?T1" using assms by (intro put_bk_shape) simp_all
  from add_nodes_buckets [OF this, of "bk T (Level i j)"] obtain T' where T':
    "add_nodes (bk T (Level i j)) ?T1 = Some T'" "shape T'" "T' = ?T1\<lparr>near := near T', tv := tv T'\<rparr>"
    "\<forall>b. valid_bucket b \<longrightarrow> bk T' b = bk ?T1 b @ filter (\<lambda>n. bucket_of (t_time T) (expire n) = b) (bk T (Level i j))"
    by auto
  have "T' = T\<lparr>near := near T', tv := tv T'\<rparr>" by (subst T'(3)) simp
  with T' assms show ?thesis
    by (intro exI [of _ T']) (auto simp: move_list_def level_ops bk_put_bk simp del: bk.simps put_bk.simps)
qed

section \<open>One tick of the clock\<close>

text \<open>
  The digits of a time: \<^verbatim>\<open>upper j\<close> drops the bits below level \<^verbatim>\<open>j\<close>. Two times are in the same slot of a level when
  they agree above it and differ in it.
\<close>

definition upper :: "nat \<Rightarrow> u32 \<Rightarrow> nat" where
  "upper j e = unat e div 2 ^ level_shift j"

lemma unat_drop_bit_upper: "unat (drop_bit (level_shift j) e) = upper j e"
  unfolding upper_def unat_drop_bit_eq by (rule drop_bit_eq_div)

lemma drop_bit_eq_upper: "drop_bit (level_shift j) x = drop_bit (level_shift j) y \<longleftrightarrow> upper j x = upper j y"
  unfolding unat_drop_bit_upper [symmetric] by (simp only: word_eq_iff_unsigned [where ?'a = nat])

lemma digit_upper: "digit j e = upper j e mod 64"
proof -
  have "(63 :: u32) = mask 6" by (simp add: mask_eq_exp_minus_1)
  then have "digit j e = unat (take_bit 6 (drop_bit (level_shift j) e))"
    by (simp only: digit_def TIME_LEVEL_MASK_def take_bit_eq_mask)
  also have "\<dots> = take_bit 6 (unat (drop_bit (level_shift j) e))" by (simp only: unsigned_take_bit_eq)
  finally show ?thesis unfolding unat_drop_bit_upper by (simp only: take_bit_eq_mod) simp
qed

lemma upper_Suc: "upper (Suc j) e = upper j e div 64"
proof -
  have "(2 :: nat) ^ level_shift (Suc j) = 2 ^ level_shift j * 64" by (simp add: level_shift_def power_add)
  then show ?thesis unfolding upper_def by (simp only: div_mult2_eq)
qed

lemma upper_split: "upper j e = 64 * upper (Suc j) e + digit j e"
  by (simp add: upper_Suc digit_upper)

lemma upper_mono: "upper j x = upper j y \<Longrightarrow> j \<le> k \<Longrightarrow> upper k x = upper k y"
  by (induction k) (auto simp: le_Suc_eq upper_Suc)

lemma unat_less_32: "unat (e :: u32) < 2 ^ 32"
proof -
  have "unat e < 2 ^ LENGTH(32)" by (rule unsigned_less)
  then show ?thesis by simp
qed

lemma upper_4: "upper 4 e = 0"
  using unat_less_32 [of e] by (simp add: upper_def level_shift_def)

lemma level_of_upper:
  "level_of cur e = (if upper 1 e = upper 1 cur then 0 else if upper 2 e = upper 2 cur then 1
     else if upper 3 e = upper 3 cur then 2 else 3)"
  unfolding level_of_def drop_bit_eq_upper [symmetric] by (simp add: level_shift_def)

lemma level_of_iff:
  assumes "upper 0 e \<noteq> upper 0 cur"
  shows "level_of cur e = j \<longleftrightarrow> j < 4 \<and> upper (Suc j) e = upper (Suc j) cur \<and> upper j e \<noteq> upper j cur"
proof -
  have u: "upper (Suc (level_of cur e)) e = upper (Suc (level_of cur e)) cur"
      "upper (level_of cur e) e \<noteq> upper (level_of cur e) cur" "level_of cur e < 4"
    using assms upper_4 [of e] upper_4 [of cur] by (auto simp: level_of_upper numeral_2_eq_2 numeral_3_eq_3 numeral_eq_Suc)
  have "i = j" if "upper (Suc i) e = upper (Suc i) cur" "upper j e \<noteq> upper j cur"
      "upper (Suc j) e = upper (Suc j) cur" "upper i e \<noteq> upper i cur" for i j
    using that upper_mono [of "Suc i" e cur j] upper_mono [of "Suc j" e cur i] by (meson not_less_eq_eq le_antisym)
  with u show ?thesis by blast
qed

lemma bucket_of_upper:
  "bucket_of cur e = (if upper 0 e = upper 0 cur then Near (unat (e AND TIME_NEAR_MASK))
     else Level (level_of cur e) (digit (level_of cur e) e))"
  using drop_bit_eq_upper [of 0 e cur] by (simp add: bucket_of_def level_shift_def)

text \<open>The level whose slot a tick to \<^verbatim>\<open>ct\<close> empties, if any.\<close>

definition carry :: "u32 \<Rightarrow> nat option" where
  "carry ct = (if take_bit 8 ct \<noteq> 0 then None else if digit 0 ct \<noteq> 0 then Some 0
     else if digit 1 ct \<noteq> 0 then Some 1 else if digit 2 ct \<noteq> 0 then Some 2 else Some 3)"

lemma upper_succ:
  assumes "take_bit (level_shift i) ct \<noteq> 0" "i \<le> j"
  shows "upper j ct = upper j (ct - 1)"
proof -
  let ?k = "2 ^ level_shift i :: nat"
  have nz: "unat ct mod ?k \<noteq> 0"
    using assms(1) by (metis unsigned_take_bit_eq take_bit_eq_mod unsigned_eq_0_iff)
  then have pos: "0 < unat ct" by (metis gr0I mod_0)
  then have "ct \<noteq> 0" by auto
  then have c: "unat (ct - 1) = unat ct - 1" by (simp add: unat_minus_one)
  have "(unat ct - 1) div ?k = unat ct div ?k"
  proof (rule div_nat_eqI)
    have "?k * (unat ct div ?k) + unat ct mod ?k = unat ct" by (rule mult_div_mod_eq)
    with nz show "?k * (unat ct div ?k) \<le> unat ct - 1" by linarith
    show "unat ct - 1 < ?k * Suc (unat ct div ?k)"
      using dividend_less_times_div [of ?k "unat ct"] by simp
  qed
  then have "upper i ct = upper i (ct - 1)" by (simp add: upper_def c)
  then show ?thesis by (rule upper_mono) (rule assms(2))
qed

lemma low_Suc: "unat ct mod 2 ^ level_shift (Suc i) = 2 ^ level_shift i * digit i ct + unat ct mod 2 ^ level_shift i"
proof -
  have "(2 :: nat) ^ level_shift (Suc i) = 2 ^ level_shift i * 64" by (simp add: level_shift_def power_add)
  then show ?thesis by (simp only: mod_mult2_eq digit_upper upper_def)
qed

lemma take_bit_zero_iff: "take_bit n ct = 0 \<longleftrightarrow> unat (ct :: u32) mod 2 ^ n = 0"
  by (metis unsigned_take_bit_eq take_bit_eq_mod unsigned_eq_0_iff)

lemma carry_low:
  assumes "carry ct = Some i"
  shows "i < 4 \<and> take_bit (level_shift i) ct = 0 \<and> (i = 3 \<or> take_bit (level_shift (Suc i)) ct \<noteq> 0)"
proof -
  have "level_shift 0 = 8" by (simp add: level_shift_def)
  then have "take_bit (level_shift 0) ct = 0" using assms by (simp add: carry_def split: if_splits)
  then show ?thesis
    using assms low_Suc [of ct 0] low_Suc [of ct 1] low_Suc [of ct 2] low_Suc [of ct 3] unfolding take_bit_zero_iff
    by (auto simp: carry_def numeral_2_eq_2 numeral_3_eq_3 split: if_splits)
qed

text \<open>A tick that carries into level \<^verbatim>\<open>i\<close> starts a new group there: the old time was the last of the group before.\<close>

lemma carry_upper:
  assumes c: "carry ct = Some i"
  shows "upper (Suc i) ct = upper (Suc i) (ct - 1)" and "upper i ct \<noteq> upper i (ct - 1)"
    and "upper i e = upper i (ct - 1) \<Longrightarrow> unat e \<le> unat (ct - 1)"
proof -
  from carry_low [OF c] have i: "i < 4" and low: "unat ct mod 2 ^ level_shift i = 0" and
    nx: "i = 3 \<or> take_bit (level_shift (Suc i)) ct \<noteq> 0" by (auto simp: take_bit_zero_iff)
  show "upper (Suc i) ct = upper (Suc i) (ct - 1)"
    using nx upper_4 upper_succ [of "Suc i" ct "Suc i"] by (auto simp: numeral_eq_Suc)
  let ?k = "2 ^ level_shift i :: nat"
  have top: "unat (ct - 1) + 1 = ?k * (upper i (ct - 1) + 1) \<and> upper i ct \<noteq> upper i (ct - 1)"
  proof (cases "ct = 0")
    case True
    with nx have "i = 3" by (simp add: take_bit_zero_iff)
    moreover have "unat (- 1 :: u32) = 2 ^ 32 - 1" by (simp add: unsigned_minus_1_eq_mask mask_eq_exp_minus_1)
    ultimately show ?thesis using True by (simp add: upper_def level_shift_def)
  next
    case False
    then have c: "unat (ct - 1) = unat ct - 1" by (simp add: unat_minus_one)
    obtain q where q: "unat ct = ?k * q" using low by (metis mod_0_imp_dvd dvdE)
    moreover have "unat ct \<noteq> 0" using False by (simp add: unsigned_eq_0_iff)
    ultimately obtain q' where q': "q = Suc q'" by (cases q) auto
    have e: "unat (ct - 1) = ?k * q' + (?k - 1)" "(0 :: nat) < ?k" using c q q' by simp_all
    have "unat (ct - 1) div ?k = q'"
    proof (rule div_nat_eqI)
      show "?k * q' \<le> unat (ct - 1)" using e by linarith
      show "unat (ct - 1) < ?k * Suc q'" unfolding mult_Suc_right using e by linarith
    qed
    moreover have "unat ct div ?k = q" using q by simp
    ultimately show ?thesis using c q q' False by (simp add: upper_def unat_gt_0)
  qed
  then show "upper i ct \<noteq> upper i (ct - 1)" by simp
  assume "upper i e = upper i (ct - 1)"
  then have "unat e < ?k * (upper i (ct - 1) + 1)"
    using dividend_less_times_div [of ?k "unat e"] by (simp add: upper_def)
  with top show "unat e \<le> unat (ct - 1)" by linarith
qed

lemma level_shift_le: "i < 4 \<Longrightarrow> (2 :: nat) ^ level_shift i \<le> 2 ^ 26"
  by (rule power_increasing) (auto simp: level_shift_def)

text \<open>A time that is at most the current one and in its group lies in the past.\<close>

lemma past_diff:
  assumes "upper i e = upper i T" "i < 4" "unat e \<le> unat T" "e \<noteq> T"
  shows "2 ^ 31 \<le> unat (e - T)"
proof -
  have lt: "unat e < unat T" using assms(3,4) by (metis le_neq_implies_less unsigned_word_eqI)
  have "unat T < 2 ^ level_shift i * (upper i T + 1)"
    using dividend_less_times_div [of "2 ^ level_shift i" "unat T"] by (simp add: upper_def)
  moreover have "2 ^ level_shift i * upper i T \<le> unat e" unfolding assms(1) [symmetric] by (simp add: upper_def)
  ultimately have d: "unat T - unat e < 2 ^ level_shift i" using lt unfolding distrib_left by linarith
  have "unat (e - T) = unat e + 2 ^ 32 - unat T" using lt unat_sub_if' [of e T] by simp
  then show ?thesis using d level_shift_le [OF assms(2)] lt by simp
qed

text \<open>What a tick does to the slot of a node that is not due and not in the past.\<close>

lemma bucket_of_tick:
  assumes live: "unat (e - T) < 2 ^ 31" "e \<noteq> T"
  shows "carry (T + 1) = None \<Longrightarrow> bucket_of (T + 1) e = bucket_of T e"
    and "carry (T + 1) = Some i \<Longrightarrow> upper i e = upper i (T + 1) \<Longrightarrow>
      bucket_of T e = Level i (digit i (T + 1)) \<and> (\<forall>j k. bucket_of (T + 1) e = Level j k \<longrightarrow> j < i)"
    and "carry (T + 1) = Some i \<Longrightarrow> upper i e \<noteq> upper i (T + 1) \<Longrightarrow>
      bucket_of (T + 1) e = bucket_of T e \<and> bucket_of T e \<noteq> Level i (digit i (T + 1)) \<and>
      (\<exists>j k. bucket_of T e = Level j k \<and> i \<le> j)"
proof -
  let ?ct = "T + 1"
  have T: "?ct - 1 = T" by simp
  show "carry ?ct = None \<Longrightarrow> bucket_of ?ct e = bucket_of T e"
  proof -
    assume "carry ?ct = None"
    then have "take_bit (level_shift 0) ?ct \<noteq> 0" by (auto simp: carry_def level_shift_def split: if_splits)
    then have "upper j ?ct = upper j T" for j using upper_succ [of 0 ?ct j] T by simp
    then show "bucket_of ?ct e = bucket_of T e" by (simp add: bucket_of_upper level_of_upper)
  qed
  assume c: "carry ?ct = Some i"
  note cu = carry_upper [OF c, unfolded T]
  from carry_low [OF c] have i: "i < 4" by simp
  have above: "upper j ?ct = upper j T" if "i < j" for j
    using cu(1) that by (rule upper_mono [OF _ Suc_leI])
  have notT: "upper i e \<noteq> upper i T" using past_diff [of i e T] cu(3) i live by fastforce
  then have n0: "upper 0 e \<noteq> upper 0 T" using upper_mono by blast
  show "bucket_of T e = Level i (digit i ?ct) \<and> (\<forall>j k. bucket_of ?ct e = Level j k \<longrightarrow> j < i)"
    if eq: "upper i e = upper i ?ct"
  proof -
    have "upper (Suc i) e = upper (Suc i) T" using eq above [of "Suc i"] by (simp add: upper_Suc)
    then have "level_of T e = i" using level_of_iff [OF n0, of i] i notT by simp
    moreover have "digit i e = digit i ?ct" using eq by (simp add: digit_upper)
    moreover have "level_of ?ct e < i" if "upper 0 e \<noteq> upper 0 ?ct"
      using level_of_iff [OF that, of "level_of ?ct e"] eq upper_mono [of i e ?ct "level_of ?ct e"]
      by (meson not_le)
    ultimately show ?thesis using n0 by (auto simp: bucket_of_upper)
  qed
  show "bucket_of ?ct e = bucket_of T e \<and> bucket_of T e \<noteq> Level i (digit i ?ct) \<and>
      (\<exists>j k. bucket_of T e = Level j k \<and> i \<le> j)" if ne: "upper i e \<noteq> upper i ?ct"
  proof -
    let ?j = "level_of T e"
    have n1: "upper 0 e \<noteq> upper 0 ?ct" using ne upper_mono by blast
    have j: "?j < 4" "upper (Suc ?j) e = upper (Suc ?j) T" "upper ?j e \<noteq> upper ?j T"
      using level_of_iff [OF n0, of ?j] by auto
    have ij: "i \<le> ?j" using notT upper_mono [OF j(2), of i] by (meson not_less_eq_eq)
    have j1: "upper (Suc ?j) e = upper (Suc ?j) ?ct" using j(2) above [of "Suc ?j"] ij by simp
    moreover have "upper ?j e \<noteq> upper ?j ?ct" using ne j(3) above [of ?j] ij by (cases "?j = i") auto
    ultimately have "level_of ?ct e = ?j" using level_of_iff [OF n1, of ?j] j(1) by simp
    moreover have "?j = i \<Longrightarrow> digit i e \<noteq> digit i ?ct"
      using ne j1 upper_split [of i e] upper_split [of i ?ct] by auto
    ultimately show ?thesis using n0 n1 ij by (auto simp: bucket_of_upper)
  qed
qed

section \<open>The wheel holds the pending nodes\<close>

text \<open>
  The invariant: every slot holds, in the order in which they were added, exactly the pending nodes that belong
  to it at the current time, and no pending node is more than \<^verbatim>\<open>2^31 - 1\<close> ticks ahead.
\<close>

definition wheel :: "timer \<Rightarrow> timer_node list \<Rightarrow> bool" where
  "wheel T pend \<longleftrightarrow> shape T \<and>
     (\<forall>b. valid_bucket b \<longrightarrow> bk T b = filter (\<lambda>n. bucket_of (t_time T) (expire n) = b) pend) \<and>
     (\<forall>n \<in> set pend. unat (expire n - t_time T) < 2 ^ 31)"

lemma wheel_init: "wheel timer_create_timer []"
proof -
  have "bk timer_create_timer b = []" if "valid_bucket b" for b
    using that by (cases b) (simp_all add: timer_create_timer_def TIME_NEAR_def TIME_LEVEL_def)
  then show ?thesis
    by (simp add: wheel_def shape_def timer_create_timer_def TIME_NEAR_def TIME_LEVEL_def)
qed

lemma wheel_add:
  assumes "wheel T pend" "unat (expire n - t_time T) < 2 ^ 31"
  shows "\<exists>T'. add_node n T = Some T' \<and> wheel T' (pend @ [n]) \<and> T' = T\<lparr>near := near T', tv := tv T'\<rparr>"
proof -
  let ?b = "bucket_of (t_time T) (expire n)"
  let ?T' = "put_bk ?b (bk T ?b @ [n]) T"
  have s: "shape T" using assms(1) by (simp add: wheel_def)
  have "wheel ?T' (pend @ [n])"
    using assms s unfolding wheel_def by (auto simp: put_bk_shape bk_put_bk)
  moreover have "?T' = T\<lparr>near := near ?T', tv := tv ?T'\<rparr>" by (rule put_bk_frame) simp
  ultimately show ?thesis using add_node_bucket [OF s, of n] by (auto simp: Let_def)
qed

lemma bucket_now: "bucket_of cur e = Near (unat (cur AND TIME_NEAR_MASK)) \<longleftrightarrow> e = cur"
proof
  assume a: "bucket_of cur e = Near (unat (cur AND TIME_NEAR_MASK))"
  have m: "TIME_NEAR_MASK = mask 8" by (simp add: TIME_NEAR_MASK_def mask_eq_exp_minus_1)
  from a have "drop_bit 8 e = drop_bit 8 cur" "take_bit 8 e = take_bit 8 cur"
    by (auto simp: bucket_of_def m take_bit_eq_mask intro: unsigned_word_eqI split: if_splits)
  then show "e = cur" by (metis bits_ident)
qed (simp add: bucket_of_def)

lemma wheel_remove_now:
  assumes "wheel T pend"
  shows "wheel (put_bk (Near (unat (t_time T AND TIME_NEAR_MASK))) [] T) (filter (\<lambda>n. expire n \<noteq> t_time T) pend)"
proof -
  let ?b = "Near (unat (t_time T AND TIME_NEAR_MASK))"
  have v: "valid_bucket ?b" using valid_bucket_of [of "t_time T" "t_time T"] by (simp add: bucket_of_def)
  have "filter (\<lambda>n. bucket_of (t_time T) (expire n) = b \<and> expire n \<noteq> t_time T) pend =
      (if b = ?b then [] else filter (\<lambda>n. bucket_of (t_time T) (expire n) = b) pend)" for b
    using bucket_now [of "t_time T"] by (auto simp: filter_empty_conv intro!: filter_cong)
  then show ?thesis
    using assms v unfolding wheel_def by (simp add: put_bk_shape bk_put_bk conj_commute del: put_bk.simps)
qed

lemma timer_execute_wheel:
  assumes "wheel T pend"
  shows "\<exists>T'. (timer_execute T :: ((u32 \<times> 'd skynet_message) list \<times> timer) option) =
      Some (dispatch_list (filter (\<lambda>n. expire n = t_time T) pend), T') \<and>
    wheel T' (filter (\<lambda>n. expire n \<noteq> t_time T) pend) \<and> T' = T\<lparr>near := near T', tv := tv T'\<rparr>"
proof -
  let ?i = "unat (t_time T AND TIME_NEAR_MASK)"
  let ?T' = "put_bk (Near ?i) [] T"
  have v: "valid_bucket (Near ?i)" using valid_bucket_of [of "t_time T" "t_time T"] by (simp add: bucket_of_def)
  have "bk T (Near ?i) = filter (\<lambda>n. bucket_of (t_time T) (expire n) = Near ?i) pend"
    using assms v unfolding wheel_def by blast
  then have l: "near T ! ?i = filter (\<lambda>n. expire n = t_time T) pend" unfolding bucket_now by simp
  have len: "?i < length (near T)" using assms v by (simp add: wheel_def shape_def)
  show ?thesis
  proof (cases "near T ! ?i = []")
    case True
    then have "filter (\<lambda>n. expire n \<noteq> t_time T) pend = pend"
      unfolding l by (auto simp: filter_empty_conv intro!: filter_True)
    moreover have "timer_execute T = Some ([] :: (u32 \<times> 'd skynet_message) list, T)"
      by (subst timer_execute.simps) (use len True in \<open>simp add: Let_def\<close>)
    ultimately show ?thesis using assms l True by (intro exI [of _ T]) simp
  next
    case False
    have "timer_execute ?T' = Some ([] :: (u32 \<times> 'd skynet_message) list, ?T')"
      by (subst timer_execute.simps) (use len in \<open>simp add: Let_def\<close>)
    then have "timer_execute T = Some (dispatch_list (near T ! ?i) :: (u32 \<times> 'd skynet_message) list, ?T')"
      by (subst timer_execute.simps) (use len False in \<open>simp add: Let_def\<close>)
    with wheel_remove_now [OF assms] l show ?thesis by (intro exI [of _ ?T']) simp
  qed
qed

lemma and_low_mask: "(ct :: u32) AND (2 ^ n - 1) = take_bit n ct"
  by (simp add: take_bit_eq_mask mask_eq_exp_minus_1)

lemma shift_loop_step:
  assumes "i < 4" "take_bit (level_shift i) ct = 0" "msk = 2 ^ level_shift i" "time = drop_bit (level_shift i) ct"
  shows "shift_loop ct i msk time T = (if digit i ct \<noteq> 0 then move_list i (digit i ct) T
    else shift_loop ct (i + 1) (2 ^ level_shift (Suc i)) (drop_bit (level_shift (Suc i)) ct) T)"
proof -
  have p: "push_bit TIME_LEVEL_SHIFT msk = 2 ^ level_shift (Suc i)"
    by (simp add: assms(3) push_bit_eq_mult level_shift_def TIME_LEVEL_SHIFT_def power_add)
  have d: "drop_bit TIME_LEVEL_SHIFT time = drop_bit (level_shift (Suc i)) ct"
    by (simp add: assms(4) level_shift_def TIME_LEVEL_SHIFT_def add.commute)
  have z: "ct AND (msk - 1) = 0" unfolding assms(3) and_low_mask by (rule assms(2))
  show ?thesis
    by (subst shift_loop.simps) (use assms(1) z p d in \<open>simp add: Let_def digit_def assms(4)\<close>)
qed

lemma carry_top:
  assumes "ct \<noteq> 0" "carry ct = Some 3"
  shows "digit 3 ct \<noteq> 0"
proof
  assume "digit 3 ct = 0"
  with carry_low [OF assms(2)] low_Suc [of ct 3] unat_less_32 [of ct] have "unat ct = 0"
    by (auto simp: take_bit_zero_iff level_shift_def)
  with assms(1) show False by (metis unsigned_word_eqI unsigned_0)
qed

text \<open>\<^verbatim>\<open>timer_shift\<close> in closed form.\<close>

lemma timer_shift_carry:
  "timer_shift T = (let ct = t_time T + 1; T1 = T\<lparr>t_time := ct\<rparr> in
     case carry ct of None \<Rightarrow> Some T1 | Some i \<Rightarrow> move_list i (digit i ct) T1)"
proof -
  define ct where "ct = t_time T + 1"
  let ?T1 = "T\<lparr>t_time := ct\<rparr>"
  have start: "timer_shift T = (if ct = 0 then move_list 3 0 ?T1
      else shift_loop ct 0 (2 ^ level_shift 0) (drop_bit (level_shift 0) ct) ?T1)"
    by (simp add: timer_shift_def Let_def ct_def TIME_NEAR_def TIME_NEAR_SHIFT_def level_shift_def)
  have c0: "carry 0 = Some 3" "digit 3 0 = 0" by (simp_all add: carry_def digit_def)
  show ?thesis
  proof (cases "ct = 0")
    case True
    then show ?thesis using start c0 by (simp add: Let_def flip: ct_def)
  next
    case nz: False
    show ?thesis
    proof (cases "carry ct")
      case None
      then have "take_bit (level_shift 0) ct \<noteq> 0" by (auto simp: carry_def level_shift_def split: if_splits)
      then have "shift_loop ct 0 (2 ^ level_shift 0) (drop_bit (level_shift 0) ct) ?T1 = Some ?T1"
        by (subst shift_loop.simps) (simp add: and_low_mask)
      then show ?thesis using start nz None by (simp add: Let_def flip: ct_def)
    next
      case (Some i)
      have low: "take_bit (level_shift j) ct = 0" if "j \<le> i" for j
      proof -
        have "level_shift j \<le> level_shift i" using that by (simp add: level_shift_def)
        then have "take_bit (level_shift j) ct = take_bit (level_shift j) (take_bit (level_shift i) ct)"
          by (simp add: min_absorb1)
        then show ?thesis using carry_low [OF Some] by simp
      qed
      note step = shift_loop_step [OF _ low refl refl]
      have "i = 0 \<and> digit 0 ct \<noteq> 0 \<or> i = 1 \<and> digit 0 ct = 0 \<and> digit 1 ct \<noteq> 0 \<or>
          i = 2 \<and> digit 0 ct = 0 \<and> digit 1 ct = 0 \<and> digit 2 ct \<noteq> 0 \<or>
          i = 3 \<and> digit 0 ct = 0 \<and> digit 1 ct = 0 \<and> digit 2 ct = 0 \<and> digit 3 ct \<noteq> 0"
        using Some carry_top [OF nz] by (auto simp: carry_def split: if_splits)
      then have "shift_loop ct 0 (2 ^ level_shift 0) (drop_bit (level_shift 0) ct) ?T1 = move_list i (digit i ct) ?T1"
        by (elim disjE conjE) (simp_all add: step numeral_2_eq_2 numeral_3_eq_3)
      then show ?thesis using start nz Some by (simp add: Let_def flip: ct_def)
    qed
  qed
qed

lemma live_next:
  assumes "unat (e - T) < 2 ^ 31" "e \<noteq> (T :: u32)"
  shows "unat (e - (T + 1)) = unat (e - T) - 1"
proof -
  have "e - T \<noteq> 0" using assms(2) by simp
  then have "unat ((e - T) - 1) = unat (e - T) - 1" by (rule unat_minus_one)
  then show ?thesis by (simp add: diff_diff_eq)
qed

lemma timer_shift_wheel:
  assumes w: "wheel T pend" and due: "\<forall>n \<in> set pend. expire n \<noteq> t_time T"
  shows "\<exists>T'. timer_shift T = Some T' \<and> wheel T' pend \<and>
    T' = T\<lparr>near := near T', tv := tv T', t_time := t_time T + 1\<rparr>"
proof -
  define ct where "ct = t_time T + 1"
  let ?T1 = "T\<lparr>t_time := ct\<rparr>"
  have sh: "shape T" and bks: "\<And>b. valid_bucket b \<Longrightarrow> bk T b = filter (\<lambda>n. bucket_of (t_time T) (expire n) = b) pend"
    using w by (auto simp: wheel_def)
  have live: "unat (expire n - t_time T) < 2 ^ 31" "expire n \<noteq> t_time T" if "n \<in> set pend" for n
    using w due that by (auto simp: wheel_def)
  have live': "\<forall>n \<in> set pend. unat (expire n - ct) < 2 ^ 31"
    using live live_next unfolding ct_def by fastforce
  have sh1: "shape ?T1" using sh by (simp add: shape_def)
  have bk1: "bk ?T1 b = bk T b" for b by (cases b) simp_all
  note tick = bucket_of_tick [OF live, folded ct_def]
  show ?thesis
  proof (cases "carry ct")
    case None
    have "wheel ?T1 pend"
      using sh1 bk1 bks live' tick(1) [OF _ _ None] unfolding wheel_def by (auto intro!: filter_cong)
    with None show ?thesis by (intro exI [of _ ?T1]) (simp add: timer_shift_carry Let_def flip: ct_def)
  next
    case (Some i)
    let ?m = "Level i (digit i ct)"
    have v: "valid_bucket ?m" using carry_low [OF Some] by (simp add: digit_upper)
    then obtain T' where T': "move_list i (digit i ct) ?T1 = Some T'" "shape T'"
        "T' = ?T1\<lparr>near := near T', tv := tv T'\<rparr>"
        "\<And>b. valid_bucket b \<Longrightarrow> bk T' b = (if b = ?m then [] else bk T b) @
           filter (\<lambda>n. bucket_of ct (expire n) = b) (bk T ?m)"
      using move_list_buckets [OF sh1, of i "digit i ct"] bk1 by (auto simp del: bk.simps)
    have "bk T' b = filter (\<lambda>n. bucket_of ct (expire n) = b) pend" if b: "valid_bucket b" for b
    proof (cases "\<exists>j k. b = Level j k \<and> i \<le> j")
      case True
      have "bucket_of ct (expire n) = b \<longleftrightarrow> b \<noteq> ?m \<and> bucket_of (t_time T) (expire n) = b" if "n \<in> set pend" for n
        using True tick(2,3) [OF that that Some] by (cases "upper i (expire n) = upper i ct") (auto simp: not_less)
      moreover have "\<not> (bucket_of (t_time T) (expire n) = ?m \<and> bucket_of ct (expire n) = b)" if "n \<in> set pend" for n
        using True tick(2,3) [OF that that Some] by (cases "upper i (expire n) = upper i ct") (auto simp: not_less)
      ultimately show ?thesis
        unfolding T'(4) [OF b] bks [OF b] bks [OF v] by (auto simp: filter_empty_conv intro!: filter_cong)
    next
      case False
      have "\<not> bucket_of (t_time T) (expire n) = b" if "n \<in> set pend" for n
        using False tick(2,3) [OF that that Some] by (cases "upper i (expire n) = upper i ct") auto
      moreover have "bucket_of ct (expire n) = b \<Longrightarrow> bucket_of (t_time T) (expire n) = ?m" if "n \<in> set pend" for n
        using False tick(2,3) [OF that that Some] by (cases "upper i (expire n) = upper i ct") auto
      ultimately show ?thesis
        unfolding T'(4) [OF b] bks [OF b] bks [OF v] by (auto simp: filter_empty_conv intro!: filter_cong)
    qed
    moreover have "t_time T' = ct" by (subst T'(3)) simp
    ultimately have "wheel T' pend" using T'(2) live' unfolding wheel_def by simp
    moreover have "T' = T\<lparr>near := near T', tv := tv T', t_time := ct\<rparr>" by (subst T'(3)) simp
    ultimately show ?thesis using T'(1) Some by (intro exI [of _ T']) (simp add: timer_shift_carry Let_def flip: ct_def)
  qed
qed

text \<open>An update fires the nodes that are due and those due at the next tick, in order, and nothing else.\<close>

definition due :: "u32 \<Rightarrow> timer_node list \<Rightarrow> timer_node list" where
  "due time pend = filter (\<lambda>n. expire n = time) pend @ filter (\<lambda>n. expire n = time + 1) pend"

definition later :: "u32 \<Rightarrow> timer_node list \<Rightarrow> timer_node list" where
  "later time pend = filter (\<lambda>n. expire n \<noteq> time \<and> expire n \<noteq> time + 1) pend"

lemma dispatch_list_map: "dispatch_list ns = map (timeout_message \<circ> node_event) ns"
  by (induction ns) simp_all

lemma due_later_length: "length (due time pend) + length (later time pend) = length pend"
proof (induction pend)
  case (Cons n pend)
  have "time \<noteq> time + 1" by simp
  with Cons show ?case by (auto simp: due_def later_def)
qed (simp add: due_def later_def)

lemma timer_update_wheel:
  assumes w: "wheel T pend" and len: "length pend \<le> INT_MAX"
  shows "\<exists>T'. (timer_update T :: (nat \<times> (u32 \<times> 'd skynet_message) list \<times> timer) option) =
      Some (length (due (t_time T) pend), dispatch_list (due (t_time T) pend), T') \<and>
    wheel T' (later (t_time T) pend) \<and> T' = T\<lparr>near := near T', tv := tv T', t_time := t_time T + 1\<rparr>"
proof -
  let ?p1 = "filter (\<lambda>n. expire n \<noteq> t_time T) pend"
  obtain T1 where T1: "timer_execute T = Some (dispatch_list (filter (\<lambda>n. expire n = t_time T) pend) :: (u32 \<times> 'd skynet_message) list, T1)"
      "wheel T1 ?p1" "T1 = T\<lparr>near := near T1, tv := tv T1\<rparr>" using timer_execute_wheel [OF w] by blast
  have t1: "t_time T1 = t_time T" by (subst T1(3)) simp
  have "\<forall>n \<in> set ?p1. expire n \<noteq> t_time T1" using t1 by simp
  from timer_shift_wheel [OF T1(2) this] obtain T2 where T2: "timer_shift T1 = Some T2" "wheel T2 ?p1"
      "T2 = T1\<lparr>near := near T2, tv := tv T2, t_time := t_time T1 + 1\<rparr>" by blast
  have t2: "t_time T2 = t_time T + 1" by (subst T2(3)) (simp add: t1)
  obtain T3 where T3: "timer_execute T2 = Some (dispatch_list (filter (\<lambda>n. expire n = t_time T2) ?p1) :: (u32 \<times> 'd skynet_message) list, T3)"
      "wheel T3 (filter (\<lambda>n. expire n \<noteq> t_time T2) ?p1)" "T3 = T2\<lparr>near := near T3, tv := tv T3\<rparr>"
    using timer_execute_wheel [OF T2(2)] by blast
  have e: "filter (\<lambda>n. expire n = t_time T2) ?p1 = filter (\<lambda>n. expire n = t_time T + 1) pend"
    "filter (\<lambda>n. expire n \<noteq> t_time T2) ?p1 = later (t_time T) pend"
    by (auto simp: t2 later_def intro!: filter_cong)
  have d: "length (due (t_time T) pend) \<le> INT_MAX" using due_later_length [of "t_time T" pend] len by linarith
  have "T3 = T\<lparr>near := near T3, tv := tv T3, t_time := t_time T + 1\<rparr>"
    using T1(3) T2(3) T3(3) t1 by (cases T; cases T1; cases T2; cases T3) simp
  moreover have "(timer_update T :: (nat \<times> (u32 \<times> 'd skynet_message) list \<times> timer) option) =
      Some (length (due (t_time T) pend), dispatch_list (due (t_time T) pend), T3)"
    using T1(1) T2(1) T3(1) d unfolding e timer_update_def by (simp add: due_def dispatch_list_map)
  ultimately show ?thesis using T3(2) e(2) by auto
qed

section \<open>The timer counts down\<close>

text \<open>
  The abstract timer: a list of events with the number of updates each has still to wait. An update sends the
  messages of the events that wait for one update and takes 1 from the others.
\<close>

datatype timer_op = Add timer_event int | Update

fun countdown_run :: "timer_op list \<Rightarrow> (timer_event \<times> nat) list \<Rightarrow> (u32 \<times> 'd skynet_message) list list" where
  "countdown_run [] p = []"
| "countdown_run (Add e d # ops) p = countdown_run ops (p @ [(e, nat d)])"
| "countdown_run (Update # ops) p =
     map (timeout_message \<circ> fst) (filter (\<lambda>x. snd x = 1) p) #
     countdown_run ops (map (\<lambda>x. (fst x, snd x - 1)) (filter (\<lambda>x. snd x \<noteq> 1) p))"

text \<open>The same operations on the wheel: what each update pushes, and the timer at the end.\<close>

fun timer_run :: "timer_op list \<Rightarrow> timer \<Rightarrow> ((u32 \<times> 'd skynet_message) list list \<times> timer) option" where
  "timer_run [] T = Some ([], T)"
| "timer_run (Add e d # ops) T = timer_add e d T \<bind> timer_run ops"
| "timer_run (Update # ops) T = do {
     (_, out, T) \<leftarrow> timer_update T;
     (outs, T) \<leftarrow> timer_run ops T;
     Some (out # outs, T) }"

fun valid_op :: "timer_op \<Rightarrow> bool" where
  "valid_op (Add e d) = (0 < d \<and> d < 2 ^ 31)"
| "valid_op Update = True"

fun added :: "timer_op list \<Rightarrow> timer_event list" where
  "added [] = []"
| "added (Add e d # ops) = e # added ops"
| "added (Update # ops) = added ops"

definition remaining :: "timer \<Rightarrow> timer_node list \<Rightarrow> (timer_event \<times> nat) list" where
  "remaining T pend = map (\<lambda>n. (node_event n, unat (expire n - t_time T))) pend"

definition waiting :: "timer \<Rightarrow> timer_node list \<Rightarrow> bool" where
  "waiting T pend \<longleftrightarrow> wheel T pend \<and> (\<forall>n \<in> set pend. expire n \<noteq> t_time T)"

lemma expire_next: "unat (e - T) = 1 \<longleftrightarrow> e = T + (1 :: u32)"
proof
  assume "unat (e - T) = 1"
  then have "e - T = 1" by (metis unsigned_word_eqI unsigned_1)
  then show "e = T + 1" by (simp add: diff_eq_eq add.commute)
qed simp

lemma waiting_update:
  assumes w: "waiting T pend" and len: "length pend \<le> INT_MAX"
  shows "\<exists>T'. (timer_update T :: (nat \<times> (u32 \<times> 'd skynet_message) list \<times> timer) option) =
      Some (length (filter (\<lambda>x. snd x = 1) (remaining T pend)),
        map (timeout_message \<circ> fst) (filter (\<lambda>x. snd x = 1) (remaining T pend)), T') \<and>
    waiting T' (later (t_time T) pend) \<and> T' = T\<lparr>near := near T', tv := tv T', t_time := t_time T + 1\<rparr> \<and>
    remaining T' (later (t_time T) pend) =
      map (\<lambda>x. (fst x, snd x - 1)) (filter (\<lambda>x. snd x \<noteq> 1) (remaining T pend))"
proof -
  have wh: "wheel T pend" and nz: "\<And>n. n \<in> set pend \<Longrightarrow> expire n \<noteq> t_time T"
    and lv: "\<And>n. n \<in> set pend \<Longrightarrow> unat (expire n - t_time T) < 2 ^ 31" using w by (auto simp: waiting_def wheel_def)
  obtain T' where T': "timer_update T =
      Some (length (due (t_time T) pend), dispatch_list (due (t_time T) pend) :: (u32 \<times> 'd skynet_message) list, T')"
      "wheel T' (later (t_time T) pend)" "T' = T\<lparr>near := near T', tv := tv T', t_time := t_time T + 1\<rparr>"
    using timer_update_wheel [OF wh len] by blast
  have t: "t_time T' = t_time T + 1" by (subst T'(3)) simp
  have d: "due (t_time T) pend = filter (\<lambda>n. unat (expire n - t_time T) = 1) pend"
    unfolding due_def expire_next using nz by (simp add: filter_empty_conv)
  have l: "later (t_time T) pend = filter (\<lambda>n. unat (expire n - t_time T) \<noteq> 1) pend"
    unfolding later_def expire_next using nz by (auto intro!: filter_cong)
  have "remaining T' (later (t_time T) pend) =
      map (\<lambda>x. (fst x, snd x - 1)) (filter (\<lambda>x. snd x \<noteq> 1) (remaining T pend))"
    unfolding remaining_def l t using live_next nz lv by (auto simp: filter_map comp_def)
  moreover have "waiting T' (later (t_time T) pend)"
    using T'(2) by (simp add: waiting_def t later_def)
  ultimately show ?thesis using T'(1,3) unfolding d
    by (auto simp: dispatch_list_map remaining_def filter_map comp_def)
qed

lemma waiting_add:
  assumes w: "waiting T pend" and d: "0 < d" "d < 2 ^ 31"
  shows "\<exists>T' n. timer_add e d T = Some T' \<and> waiting T' (pend @ [n]) \<and>
    remaining T' (pend @ [n]) = remaining T pend @ [(e, nat d)] \<and> T' = T\<lparr>near := near T', tv := tv T'\<rparr>"
proof -
  let ?n = "\<lparr>expire = of_int d + t_time T, node_event = e\<rparr>"
  have u: "unat (of_int d :: u32) = nat d" using d by (simp add: unsigned_of_int take_bit_int_eq_self)
  then have diff: "unat (expire ?n - t_time T) = nat d" by simp
  with d have "unat (expire ?n - t_time T) < 2 ^ 31" by simp
  with w obtain T' where T': "add_node ?n T = Some T'" "wheel T' (pend @ [?n])" "T' = T\<lparr>near := near T', tv := tv T'\<rparr>"
    using wheel_add [of T pend ?n] by (auto simp: waiting_def)
  have t: "t_time T' = t_time T" by (subst T'(3)) simp
  have "expire ?n \<noteq> t_time T" using diff d by auto
  then have "waiting T' (pend @ [?n])" using T'(2) w t by (simp add: waiting_def)
  moreover have "remaining T' (pend @ [?n]) = remaining T pend @ [(e, nat d)]"
    using diff by (simp add: remaining_def t)
  ultimately show ?thesis using T'(1,3) by (auto simp: timer_add_def)
qed

lemma timer_run_countdown:
  assumes "waiting T pend" "\<forall>x \<in> set ops. valid_op x" "length pend + length (added ops) \<le> INT_MAX"
  shows "\<exists>T' pend'. (timer_run ops T :: ((u32 \<times> 'd skynet_message) list list \<times> timer) option) =
    Some (countdown_run ops (remaining T pend), T') \<and> waiting T' pend'"
  using assms
proof (induction ops arbitrary: T pend)
  case (Cons x ops)
  show ?case
  proof (cases x)
    case (Add e d)
    with Cons.prems(2) have "0 < d" "d < 2 ^ 31" by auto
    from waiting_add [OF Cons.prems(1) this, of e] obtain T1 n where
      "timer_add e d T = Some T1" "waiting T1 (pend @ [n])" "remaining T1 (pend @ [n]) = remaining T pend @ [(e, nat d)]"
      by blast
    with Cons.IH [of T1 "pend @ [n]"] Cons.prems Add show ?thesis by auto
  next
    case Update
    with Cons.prems have len: "length pend \<le> INT_MAX" by simp
    obtain T1 where "timer_update T = Some (length (filter (\<lambda>x. snd x = 1) (remaining T pend)),
        map (timeout_message \<circ> fst) (filter (\<lambda>x. snd x = 1) (remaining T pend)) :: (u32 \<times> 'd skynet_message) list, T1)"
      "waiting T1 (later (t_time T) pend)" "remaining T1 (later (t_time T) pend) =
        map (\<lambda>x. (fst x, snd x - 1)) (filter (\<lambda>x. snd x \<noteq> 1) (remaining T pend))"
      using waiting_update [OF Cons.prems(1) len] by blast
    moreover have "length (later (t_time T) pend) + length (added ops) \<le> INT_MAX"
      using Cons.prems(3) Update due_later_length [of "t_time T" pend] by simp
    ultimately show ?thesis using Cons.IH [of T1 "later (t_time T) pend"] Cons.prems(2) Update by auto
  qed
qed auto

lemma timeout_message_inj: "timeout_message e = timeout_message f \<longleftrightarrow> e = f"
  by (cases e; cases f) (auto simp: timeout_message_def)

text \<open>In the abstract timer an event is sent at the update its delay names, and at no other.\<close>

fun updates :: "timer_op list \<Rightarrow> nat" where
  "updates [] = 0"
| "updates (Add e d # ops) = updates ops"
| "updates (Update # ops) = Suc (updates ops)"

lemma countdown_length: "length (countdown_run ops p) = updates ops"
  by (induction ops p rule: countdown_run.induct) simp_all

lemma countdown_absent:
  "e \<notin> fst ` set p \<Longrightarrow> e \<notin> set (added ops) \<Longrightarrow> i < updates ops \<Longrightarrow> timeout_message e \<notin> set (countdown_run ops p ! i)"
proof (induction ops p arbitrary: i rule: countdown_run.induct)
  case (3 ops p)
  have new: "(e, n) \<notin> set p" for n using 3(2) by force
  show ?case
  proof (cases i)
    case 0
    with new show ?thesis by (auto simp: timeout_message_inj)
  next
    case (Suc j)
    have "e \<notin> fst ` set (map (\<lambda>x. (fst x, snd x - 1)) (filter (\<lambda>x. snd x \<noteq> 1) p))" using 3(2) by force
    from 3(1) [OF this] 3(3,4) Suc show ?thesis by simp
  qed
qed auto

lemma countdown_present:
  "filter (\<lambda>x. fst x = e) p = [(e, d)] \<Longrightarrow> 0 < d \<Longrightarrow> e \<notin> set (added ops) \<Longrightarrow> i < updates ops \<Longrightarrow>
     timeout_message e \<in> set (countdown_run ops p ! i) \<longleftrightarrow> Suc i = d"
proof (induction ops p arbitrary: i d rule: countdown_run.induct)
  case (3 ops p)
  let ?p = "map (\<lambda>x. (fst x, snd x - 1)) (filter (\<lambda>x. snd x \<noteq> 1) p)"
  have mem: "(e, n) \<in> set p \<longleftrightarrow> n = d" for n
  proof -
    have "(e, n) \<in> set p \<longleftrightarrow> (e, n) \<in> set (filter (\<lambda>x. fst x = e) p)" by simp
    then show ?thesis unfolding 3(2) by simp
  qed
  have next': "filter (\<lambda>x. fst x = e) ?p = map (\<lambda>x. (fst x, snd x - 1)) (filter (\<lambda>x. snd x \<noteq> 1) (filter (\<lambda>x. fst x = e) p))"
    by (simp add: filter_map comp_def conj_commute)
  show ?case
  proof (cases i)
    case 0
    have "timeout_message e \<in> set (countdown_run (Update # ops) p ! 0) \<longleftrightarrow> (e, 1) \<in> set p"
      by (force simp: timeout_message_inj)
    with mem 0 show ?thesis by auto
  next
    case (Suc j)
    show ?thesis
    proof (cases "d = 1")
      case True
      then have "e \<notin> fst ` set ?p" using mem by force
      from countdown_absent [OF this, of ops j] True Suc 3(4,5) show ?thesis by simp
    next
      case False
      then have "filter (\<lambda>x. fst x = e) ?p = [(e, d - 1)]" unfolding next' 3(2) by simp
      from 3(1) [OF this, of j] False Suc 3(3-5) show ?thesis by auto
    qed
  qed
qed auto

lemma countdown_added:
  "e \<notin> fst ` set p \<Longrightarrow> e \<notin> set (added pre) \<Longrightarrow> e \<notin> set (added post) \<Longrightarrow> 0 < d \<Longrightarrow>
     i < updates pre + updates post \<Longrightarrow>
     timeout_message e \<in> set (countdown_run (pre @ Add e d # post) p ! i) \<longleftrightarrow> Suc i = updates pre + nat d"
proof (induction pre p arbitrary: i rule: countdown_run.induct)
  case (1 p)
  have "filter (\<lambda>x. fst x = e) (p @ [(e, nat d)]) = [(e, nat d)]"
    using 1(1) by (force simp: filter_empty_conv)
  from countdown_present [OF this, of post i] 1 show ?case by simp
next
  case (3 ops p)
  let ?p = "map (\<lambda>x. (fst x, snd x - 1)) (filter (\<lambda>x. snd x \<noteq> 1) p)"
  have "e \<notin> fst ` set ?p" "(e, n) \<notin> set p" for n using 3(2) by force+
  with 3 show ?case by (cases i) (auto simp: timeout_message_inj)
qed auto

section \<open>Properties\<close>

lemma waiting_init: "waiting timer_create_timer []" "remaining timer_create_timer [] = []"
  using wheel_init by (simp_all add: waiting_def remaining_def)

lemma timer_run_init:
  assumes "\<forall>x \<in> set ops. valid_op x" and "length (added ops) \<le> INT_MAX"
  shows "map_option fst (timer_run ops timer_create_timer) = Some (countdown_run ops [])"
proof -
  have "length [] + length (added ops) \<le> INT_MAX" using assms(2) by simp
  from timer_run_countdown [OF waiting_init(1) assms(1) this] show ?thesis
    by (auto simp: waiting_init(2))
qed

text \<open>
  (C1) The timing wheel implements the countdown: for every sequence of timeouts and clock ticks, the wheel of
  five arrays pushes, at every tick, exactly the messages of the timeouts whose delay ends there, in the order in which they
  were set; no access is out of bounds, and the 32-bit clock may wrap any number of times.
\<close>

theorem timer_refines_countdown:
  assumes "\<forall>x \<in> set ops. valid_op x" and "length (added ops) \<le> INT_MAX"
  shows "map_option fst (timer_run ops timer_create_timer) = Some (countdown_run ops [])"
  using assms by (rule timer_run_init)

text \<open>
  (C2) A timeout fires once, on time: whatever was set before and is set after it, a timeout of delay \<^verbatim>\<open>d\<close> is pushed by the
  \<^verbatim>\<open>d\<close>-th tick after it was set and by no other.
\<close>

theorem timeout_fires_on_time:
  assumes "\<forall>x \<in> set (pre @ Add e d # post). valid_op x" and "length (added (pre @ Add e d # post)) \<le> INT_MAX"
    and "e \<notin> set (added pre)" and "e \<notin> set (added post)"
    and "map_option fst (timer_run (pre @ Add e d # post) timer_create_timer) = Some outs"
    and "i < length outs"
  shows "timeout_message e \<in> set (outs ! i) \<longleftrightarrow> i + 1 = updates pre + nat d"
proof -
  let ?ops = "pre @ Add e d # post"
  have o: "outs = countdown_run ?ops []"
    using assms(5) unfolding timer_run_init [OF assms(1,2)] by simp
  have "updates (xs @ ys) = updates xs + updates ys" for xs ys by (induction xs rule: updates.induct) simp_all
  then have "i < updates pre + updates post" using assms(6) unfolding o countdown_length by simp
  with countdown_added [of e "[]" pre post d i] assms(1,3,4) show ?thesis unfolding o by simp
qed

text \<open>
  A run with two timeouts in the first 256 ticks, evaluated.
\<close>

definition demo_event :: "int \<Rightarrow> timer_event" where
  "demo_event session = \<lparr>te_handle = 9, te_session = session\<rparr>"

definition demo_ops :: "timer_op list" where
  "demo_ops = [Add (demo_event 1) 2, Update, Add (demo_event 2) 300, Update]"

theorem timer_refines_countdown_witness:
  "map_option fst (timer_run demo_ops timer_create_timer) =
     Some [[], [timeout_message (demo_event 1) :: u32 \<times> unit skynet_message]]"
  using timer_refines_countdown [of demo_ops]
  by (simp add: demo_ops_def demo_event_def INT_MAX_def)

theorem timeout_fires_on_time_witness:
  "timeout_message (demo_event 1) \<in> set ([[], [timeout_message (demo_event 1) :: u32 \<times> unit skynet_message]] ! 1)"
proof -
  have r: "map_option fst (timer_run ([] @ Add (demo_event 1) 2 # [Update, Add (demo_event 2) 300, Update]) timer_create_timer) =
      Some [[], [timeout_message (demo_event 1) :: u32 \<times> unit skynet_message]]"
    using timer_run_init [of demo_ops] by (simp add: demo_ops_def demo_event_def INT_MAX_def)
  show ?thesis
    using timeout_fires_on_time [OF _ _ _ _ r, of 1] by (simp add: demo_event_def INT_MAX_def)
qed

lemma timer_run_updates:
  assumes "waiting T pend" "length pend \<le> INT_MAX"
  shows "\<exists>T' pend'. (update_times n T :: (nat \<times> (u32 \<times> 'd skynet_message) list \<times> timer) option) =
      Some (length (concat (countdown_run (replicate n Update) (remaining T pend)) :: (u32 \<times> 'd skynet_message) list),
        concat (countdown_run (replicate n Update) (remaining T pend)), T') \<and> waiting T' pend' \<and>
    length pend = length (concat (countdown_run (replicate n Update) (remaining T pend)) :: (u32 \<times> 'd skynet_message) list) + length pend' \<and>
    T' = T\<lparr>near := near T', tv := tv T', t_time := t_time T + of_nat n\<rparr>"
  using assms
proof (induction n arbitrary: T pend)
  case (Suc n)
  let ?r = "remaining T pend" and ?p = "later (t_time T) pend"
  let ?fired = "map (timeout_message \<circ> fst) (filter (\<lambda>x. snd x = 1) ?r) :: (u32 \<times> 'd skynet_message) list"
  obtain T1 where T1: "timer_update T = Some (length (filter (\<lambda>x. snd x = 1) ?r), ?fired, T1)"
      "waiting T1 ?p" "T1 = T\<lparr>near := near T1, tv := tv T1, t_time := t_time T + 1\<rparr>"
      "remaining T1 ?p = map (\<lambda>x. (fst x, snd x - 1)) (filter (\<lambda>x. snd x \<noteq> 1) ?r)"
    using waiting_update [OF Suc.prems] by blast
  have len: "length pend = length ?fired + length ?p"
  proof -
    have "length ?p = length (remaining T1 ?p)" by (simp add: remaining_def)
    also have "\<dots> + length ?fired = length ?r" unfolding T1(4)
      using sum_length_filter_compl [of "\<lambda>x. snd x = 1" ?r] by simp
    finally show ?thesis by (simp add: remaining_def)
  qed
  then have "length ?p \<le> INT_MAX" using Suc.prems(2) by linarith
  from Suc.IH [OF T1(2) this] obtain T' pend' where T': "(update_times n T1 :: (nat \<times> (u32 \<times> 'd skynet_message) list \<times> timer) option) =
      Some (length (concat (countdown_run (replicate n Update) (remaining T1 ?p)) :: (u32 \<times> 'd skynet_message) list),
        concat (countdown_run (replicate n Update) (remaining T1 ?p)), T')" "waiting T' pend'"
      "length ?p = length (concat (countdown_run (replicate n Update) (remaining T1 ?p)) :: (u32 \<times> 'd skynet_message) list) + length pend'"
      "T' = T1\<lparr>near := near T', tv := tv T', t_time := t_time T1 + of_nat n\<rparr>" by blast
  have "T' = T\<lparr>near := near T', tv := tv T', t_time := t_time T + of_nat (Suc n)\<rparr>"
    using T1(3) T'(4) by (cases T; cases T1; cases T') (simp add: add.assoc add.commute)
  with T1(1,4) T' len Suc.prems(2) show ?case
    by (intro exI [of _ T'] exI [of _ pend']) simp
qed (auto intro: exI)

text \<open>
  (C31) The clock thread catches up: when the monotonic clock has advanced by \<^verbatim>\<open>n\<close> milliseconds, \<^verbatim>\<open>skynet_updatetime\<close>
  pushes the messages of exactly the timeouts that end within \<^verbatim>\<open>n\<close> ticks, tick by tick, returns their number, adds \<^verbatim>\<open>n\<close> to the
  time of the node and remembers the reading; a clock that went backwards, by any amount, only resets the reading. A step
  forward of more than \<^verbatim>\<open>INT_MAX\<close> milliseconds, 24 days, is left aside: the loop counts in an \<^verbatim>\<open>int\<close>.
\<close>

theorem updatetime_catches_up:
  assumes "waiting T pend" and "length pend \<le> INT_MAX"
    and "current_point T \<le> cp \<longrightarrow> unat (cp - current_point T) \<le> INT_MAX"
  shows "\<exists>T' pend'. (skynet_updatetime cp T :: (bool \<times> nat \<times> (u32 \<times> 'd skynet_message) list \<times> timer) option) =
      (if cp < current_point T then Some (True, 0, [], T\<lparr>current_point := cp\<rparr>)
       else Some (False, length (concat (countdown_run (replicate (unat (cp - current_point T)) Update) (remaining T pend)) :: (u32 \<times> 'd skynet_message) list),
         concat (countdown_run (replicate (unat (cp - current_point T)) Update) (remaining T pend)), T')) \<and>
    (current_point T \<le> cp \<longrightarrow> waiting T' pend' \<and> current_point T' = cp \<and>
       skynet_now T' = skynet_now T + (cp - current_point T))"
proof (cases "current_point T \<le> cp")
  case False
  then show ?thesis by (auto simp: skynet_updatetime_def)
next
  case True
  define d where "d = cp - current_point T"
  define diff where "diff = (ucast d :: u32)"
  have lt: "unat d < 2 ^ 31" using assms(3) True by (simp add: INT_MAX_def d_def)
  then have u: "unat diff = unat d" by (simp add: diff_def unsigned_ucast_eq take_bit_nat_eq_self)
  have "unat (ucast diff :: u64) = unat d" using u lt by (simp add: unsigned_ucast_eq take_bit_nat_eq_self)
  then have wide: "ucast diff = d" by (rule unsigned_word_eqI)
  let ?T = "T\<lparr>current_point := cp, t_current := t_current T + ucast diff\<rparr>"
  have w: "waiting ?T pend" "remaining ?T pend = remaining T pend"
  proof -
    have "bk ?T b = bk T b" for b by (cases b) simp_all
    then show "waiting ?T pend" using assms(1) by (simp add: waiting_def wheel_def shape_def)
  qed (simp add: remaining_def)
  from timer_run_updates [OF w(1) assms(2), of "unat diff"] obtain T' pend' where
    T': "(update_times (unat diff) ?T :: (nat \<times> (u32 \<times> 'd skynet_message) list \<times> timer) option) =
        Some (length (concat (countdown_run (replicate (unat diff) Update) (remaining T pend)) :: (u32 \<times> 'd skynet_message) list),
          concat (countdown_run (replicate (unat diff) Update) (remaining T pend)), T')"
      "waiting T' pend'" "T' = ?T\<lparr>near := near T', tv := tv T', t_time := t_time ?T + of_nat (unat diff)\<rparr>"
    unfolding w(2) by blast
  have c: "current_point T' = cp" "t_current T' = t_current T + d" using wide by (subst T'(3), simp)+
  show ?thesis
  proof (cases "cp = current_point T")
    case True
    then have "d = 0" by (simp add: d_def)
    with True assms(1) show ?thesis
      by (intro exI [of _ T] exI [of _ pend]) (simp add: skynet_updatetime_def skynet_now_def)
  next
    case False
    have "unat diff \<le> INT_MAX" using u assms(3) True by (simp add: d_def)
    with False T' c u show ?thesis
      by (intro exI [of _ T'] exI [of _ pend'])
        (simp add: skynet_updatetime_def skynet_now_def Let_def flip: d_def diff_def)
  qed
qed

text \<open>A timeout of 2 ms is pushed when the clock has advanced by 5 ms; a clock that went backwards pushes nothing.\<close>

lemma updatetime_catches_up_witness:
  "\<exists>T T'. timer_add \<lparr>te_handle = 7, te_session = 3\<rparr> 2 timer_create_timer = Some T \<and>
     skynet_updatetime 5 T = Some (False, 1, [timeout_message \<lparr>te_handle = 7, te_session = 3\<rparr> :: u32 \<times> unit skynet_message], T') \<and>
     skynet_now T' = 5 \<and>
     (\<exists>T''. (skynet_updatetime 5 (T\<lparr>current_point := 9\<rparr>) :: (bool \<times> nat \<times> (u32 \<times> unit skynet_message) list \<times> timer) option) =
        Some (True, 0, [], T''))"
proof -
  let ?e = "\<lparr>te_handle = 7, te_session = 3\<rparr>"
  obtain T n where T: "timer_add ?e 2 timer_create_timer = Some T" "waiting T [n]" "remaining T [n] = [(?e, 2)]"
      "T = timer_create_timer\<lparr>near := near T, tv := tv T\<rparr>"
    using waiting_add [OF waiting_init(1), of 2 ?e] by (auto simp: waiting_init(2))
  have c: "current_point T = 0" "skynet_now T = 0" by (subst T(4), simp add: timer_create_timer_def skynet_now_def)+
  have run: "concat (countdown_run (replicate 5 Update) [(?e, 2)]) = [timeout_message ?e :: u32 \<times> unit skynet_message]"
    by (simp add: numeral_eq_Suc)
  have l: "length [n] \<le> INT_MAX" by (simp add: INT_MAX_def)
  obtain T' where T': "skynet_updatetime 5 T = Some (False, 1, [timeout_message ?e :: u32 \<times> unit skynet_message], T')" "skynet_now T' = 5"
    using updatetime_catches_up [OF T(2) l, of 5, where ?'d = unit] unfolding T(3) c by (auto simp: run INT_MAX_def)
  have "waiting (T\<lparr>current_point := 9\<rparr>) [n]"
  proof -
    have "bk (T\<lparr>current_point := 9\<rparr>) b = bk T b" for b by (cases b) simp_all
    then show ?thesis using T(2) by (simp add: waiting_def wheel_def shape_def)
  qed
  from updatetime_catches_up [OF this l, of 5, where ?'d = unit]
  have "\<exists>T''. (skynet_updatetime 5 (T\<lparr>current_point := 9\<rparr>) :: (bool \<times> nat \<times> (u32 \<times> unit skynet_message) list \<times> timer) option) =
      Some (True, 0, [], T'')" by auto
  with T(1) T' show ?thesis by blast
qed

text \<open>
  An addition in the window in which \<^verbatim>\<open>timer_execute\<close> has released the lock goes to another slot than the one that
  is being emptied.
\<close>

lemma add_not_current:
  assumes "shape T" "0 < d" "d < 2 ^ 31" "timer_add e d T = Some T'"
  shows "near T' ! unat (t_time T AND TIME_NEAR_MASK) = near T ! unat (t_time T AND TIME_NEAR_MASK)"
proof -
  let ?n = "\<lparr>expire = of_int d + t_time T, node_event = e\<rparr>"
  let ?b = "Near (unat (t_time T AND TIME_NEAR_MASK))"
  have u: "unat (of_int d :: u32) = nat d" using assms(2,3) by (simp add: unsigned_of_int take_bit_int_eq_self)
  then have "(of_int d :: u32) \<noteq> 0" using assms(2) by (metis nat_0_iff not_le unsigned_0)
  then have ne: "bucket_of (t_time T) (expire ?n) \<noteq> ?b" using bucket_now [of "t_time T" "expire ?n"] by simp
  have v: "valid_bucket ?b" using valid_bucket_of [of "t_time T" "t_time T"] by (simp add: bucket_of_def)
  have "bk T' ?b = bk T ?b"
    using assms(1,4) ne v add_node_bucket [OF assms(1), of ?n]
    by (auto simp: timer_add_def Let_def bk_put_bk simp del: bk.simps put_bk.simps)
  then show ?thesis by simp
qed

end
