(* ===== verification/Node.thy ===== *)
theory Node
  imports MessageQueue Handle Timer Cstring
begin

text \<open>
  The state of a node (\<^verbatim>\<open>struct skynet_node\<close> and the static variables of the other files), its memory, the loaded
  modules (\<^verbatim>\<open>skynet_module.c\<close>), the environment (\<^verbatim>\<open>skynet_env.c\<close>, a Lua state used as a map of strings), the
  monitor of a worker thread (\<^verbatim>\<open>skynet_monitor.c\<close>) and the number of the harbor (\<^verbatim>\<open>skynet_harbor.c\<close>). Each operation runs
  alone here; the interleavings are those of \<^verbatim>\<open>Scheduler\<close> and \<^verbatim>\<open>Locks\<close>.
\<close>

section \<open>Modules\<close>

definition MAX_MODULE_TYPE :: nat where "MAX_MODULE_TYPE = 32"

text \<open>A module: its name, the library, and the addresses of its four functions.\<close>

record skynet_module =
  mod_name :: string
  mod_module :: nat
  mod_create :: "nat option"
  mod_init :: "nat option"
  mod_release :: "nat option"
  mod_signal :: "nat option"

record modules =
  m_path :: string
  m_list :: "skynet_module list"

definition skynet_module_init :: "string \<Rightarrow> modules" where
  "skynet_module_init path = \<lparr>m_path = path, m_list = []\<rparr>"

text \<open>
  \<^verbatim>\<open>_try_open\<close>: the parts of the path between semicolons with the name in the place of the first question mark, until one can be
  opened. The result None is the \<^verbatim>\<open>exit\<close> on a part without a question mark. The buffer \<^verbatim>\<open>tmp\<close> has \<^verbatim>\<open>sz\<close> bytes.
\<close>

definition candidate :: "nat \<Rightarrow> string \<Rightarrow> string \<Rightarrow> string option" where
  "candidate sz part name = (let i = length (takeWhile (\<lambda>c. c \<noteq> CHR ''?'') part) in
     if i < length part then do {
       let tmp = take i part @ name @ drop (i + 1) part;
       c_assert (length tmp < sz);
       Some tmp }
     else None)"

function try_parts :: "(string \<Rightarrow> nat option) \<Rightarrow> nat \<Rightarrow> string \<Rightarrow> string \<Rightarrow> nat option option" where
  "try_parts dlopen sz path name = (let path = dropWhile (\<lambda>c. c = CHR '';'') path in
     if path = [] then Some None
     else do {
       let part = takeWhile (\<lambda>c. c \<noteq> CHR '';'') path;
       tmp \<leftarrow> candidate sz part name;
       case dlopen tmp of Some dl \<Rightarrow> Some (Some dl)
       | None \<Rightarrow> try_parts dlopen sz (drop (length part) path) name })"
  by pat_completeness auto
termination
proof (relation "measure (\<lambda>(dlopen, sz, path, name). length path)", goal_cases)
  case (2 dlopen sz path name x xa xb)
  have x: "length x \<le> length path" unfolding 2(1) by (rule length_dropWhile_le)
  have xa: "length xa \<le> length x" unfolding 2(3) by (rule length_takeWhile_le)
  have "0 < length xa" using 2(4) by (cases xa) (auto simp: candidate_def)
  with x xa have "length (drop (length xa) x) < length path" unfolding length_drop by linarith
  then show ?case by simp
qed simp

declare try_parts.simps [simp del]

definition try_open :: "(string \<Rightarrow> nat option) \<Rightarrow> modules \<Rightarrow> string \<Rightarrow> nat option option" where
  "try_open dlopen m name = try_parts dlopen (length (m_path m) + length name) (m_path m) name"

text \<open>\<^verbatim>\<open>_query\<close>.\<close>

definition query_module :: "modules \<Rightarrow> string \<Rightarrow> skynet_module option" where
  "query_module m name = find (\<lambda>x. strcmp (mod_name x) name = 0) (m_list m)"

text \<open>\<^verbatim>\<open>get_api\<close>: the symbol behind the last dot of the name.\<close>

definition get_api :: "(nat \<Rightarrow> string \<Rightarrow> nat option) \<Rightarrow> skynet_module \<Rightarrow> string \<Rightarrow> nat option" where
  "get_api dlsym md api_name = (let tmp = mod_name md @ api_name in
     dlsym (mod_module md) (rev (takeWhile (\<lambda>c. c \<noteq> CHR ''.'') (rev tmp))))"

text \<open>\<^verbatim>\<open>open_sym\<close>: True when the library has no init function.\<close>

definition open_sym :: "(nat \<Rightarrow> string \<Rightarrow> nat option) \<Rightarrow> skynet_module \<Rightarrow> bool \<times> skynet_module" where
  "open_sym dlsym md = (let md = md\<lparr>mod_create := get_api dlsym md ''_create'', mod_init := get_api dlsym md ''_init'',
       mod_release := get_api dlsym md ''_release'', mod_signal := get_api dlsym md ''_signal''\<rparr> in
     (mod_init md = None, md))"

definition skynet_module_query ::
    "(string \<Rightarrow> nat option) \<Rightarrow> (nat \<Rightarrow> string \<Rightarrow> nat option) \<Rightarrow> string \<Rightarrow> modules \<Rightarrow> (skynet_module option \<times> modules) option" where
  "skynet_module_query dlopen dlsym name m = (case query_module m name of
       Some md \<Rightarrow> Some (Some md, m)
     | None \<Rightarrow>
        if length (m_list m) < MAX_MODULE_TYPE then do {
          dl \<leftarrow> try_open dlopen m name;
          case dl of None \<Rightarrow> Some (None, m)
          | Some lib \<Rightarrow>
             (let (failed, md) = open_sym dlsym \<lparr>mod_name = name, mod_module = lib, mod_create = None, mod_init = None,
                  mod_release = None, mod_signal = None\<rparr> in
              if failed then Some (None, m) else Some (Some md, m\<lparr>m_list := m_list m @ [md]\<rparr>))
        } else Some (None, m))"

definition skynet_module_insert :: "skynet_module \<Rightarrow> modules \<Rightarrow> modules option" where
  "skynet_module_insert md m = do {
     c_assert (query_module m (mod_name md) = None \<and> length (m_list m) < MAX_MODULE_TYPE);
     Some (m\<lparr>m_list := m_list m @ [md]\<rparr>) }"

section \<open>Environment\<close>

text \<open>The globals of the Lua state, of which the code reads and writes only strings.\<close>

definition skynet_getenv :: "string \<Rightarrow> (string \<Rightarrow> string option) \<Rightarrow> string option" where
  "skynet_getenv key E = E key"

definition skynet_setenv :: "string \<Rightarrow> string \<Rightarrow> (string \<Rightarrow> string option) \<Rightarrow> (string \<Rightarrow> string option) option" where
  "skynet_setenv key val E = do { c_assert (E key = None); Some (E(key \<mapsto> val)) }"

section \<open>Monitor\<close>

text \<open>The counters are 32-bit and only compared for equality; the atomic increment wraps.\<close>

record skynet_monitor =
  version :: u32
  check_version :: u32
  mon_source :: u32
  mon_destination :: u32

definition skynet_monitor_new :: skynet_monitor where
  "skynet_monitor_new = \<lparr>version = 0, check_version = 0, mon_source = 0, mon_destination = 0\<rparr>"

definition skynet_monitor_trigger :: "u32 \<Rightarrow> u32 \<Rightarrow> skynet_monitor \<Rightarrow> skynet_monitor" where
  "skynet_monitor_trigger src dst sm = sm\<lparr>mon_source := src, mon_destination := dst, version := version sm + 1\<rparr>"

section \<open>Harbor\<close>

definition GLOBALNAME_LENGTH :: nat where "GLOBALNAME_LENGTH = 16"
definition REMOTE_MAX :: nat where "REMOTE_MAX = 256"

record remote_message =
  rm_name :: string
  rm_handle :: u32
  rm_message :: "ptr option"
  rm_sz :: u64
  rm_type :: nat

definition skynet_harbor_init :: "int \<Rightarrow> u32" where
  "skynet_harbor_init harbor = push_bit HANDLE_REMOTE_SHIFT (of_int harbor)"

definition skynet_harbor_message_isremote :: "u32 \<Rightarrow> u32 \<Rightarrow> bool option" where
  "skynet_harbor_message_isremote HARBOR handle = do {
     c_assert (HARBOR \<noteq> - 1);
     let h = handle AND NOT HANDLE_MASK;
     Some (h \<noteq> HARBOR \<and> h \<noteq> 0) }"

section \<open>The node\<close>

text \<open>
  An object in memory: bytes, the remote message of \<^verbatim>\<open>skynet_harbor.h\<close>, which a message of type
  \<^verbatim>\<open>PTYPE_SYSTEM\<close> carries to the harbor service of the node, or a message of the socket thread (type, id, \<^verbatim>\<open>ud\<close>, buffer
  and the bytes behind the structure).
\<close>

datatype block = Bytes "u8 list" | Remote remote_message | Socket int int int "ptr option" "u8 list"

text \<open>
  A context. The callback is the address of its function, with its user data. Times in microseconds are 64-bit.
\<close>

record skynet_context =
  ctx_instance :: nat
  ctx_mod :: skynet_module
  ctx_cb :: "(nat \<times> nat) option"
  ctx_queue :: ptr
  ctx_logfile :: "nat option"
  cpu_cost :: u64
  cpu_start :: u64
  ctx_handle :: u32
  session_id :: int
  ctx_ref :: nat
  message_count :: nat
  ctx_init :: bool
  endless :: bool
  ctx_profile :: bool

record node = "ptr skynet_message mq_state" +
  contexts :: "ptr \<Rightarrow> skynet_context option"
  storage :: handle_storage
  heap :: "ptr \<Rightarrow> block option"
  brk :: ptr
  total :: int
  monitor_exit :: u32
  node_profile :: bool
  current_handle :: u32
  logger :: u32
  REMOTE :: "ptr option"
  HARBOR :: u32
  env :: "string \<Rightarrow> string option"
  mods :: modules
  wheel_timer :: timer
  log_lines :: "(nat \<times> string) list"

text \<open>\<^verbatim>\<open>skynet_malloc\<close> gives an address that was never used; \<^verbatim>\<open>skynet_free\<close> takes one that is allocated, or null.\<close>

definition alloc :: "block \<Rightarrow> node \<Rightarrow> ptr \<times> node" where
  "alloc b n = (brk n, n\<lparr>heap := (heap n)(brk n \<mapsto> b), brk := Suc (brk n)\<rparr>)"

definition skynet_free :: "ptr option \<Rightarrow> node \<Rightarrow> node option" where
  "skynet_free p n = (case p of None \<Rightarrow> Some n
     | Some a \<Rightarrow> do { b \<leftarrow> heap n a; Some (n\<lparr>heap := (heap n)(a := None)\<rparr>) })"

definition load_bytes :: "ptr \<Rightarrow> nat \<Rightarrow> node \<Rightarrow> u8 list option" where
  "load_bytes a sz n = do {
     b \<leftarrow> heap n a;
     case b of Bytes bs \<Rightarrow> if sz \<le> length bs then Some (take sz bs) else None | _ \<Rightarrow> None }"

definition field :: "ptr \<Rightarrow> (skynet_context \<Rightarrow> 'a) \<Rightarrow> node \<Rightarrow> 'a option" where
  "field p f n = map_option f (contexts n p)"

definition set_context :: "ptr \<Rightarrow> (skynet_context \<Rightarrow> skynet_context) \<Rightarrow> node \<Rightarrow> node option" where
  "set_context p f n = do { c \<leftarrow> contexts n p; Some (n\<lparr>contexts := (contexts n)(p \<mapsto> f c)\<rparr>) }"

end
