(* ===== verification/Server.thy ===== *)
theory Server
  imports Node
begin

text \<open>
  The operations of \<^verbatim>\<open>skynet-src/skynet_server.c\<close> on the node, with \<^verbatim>\<open>skynet_error.c\<close>, \<^verbatim>\<open>skynet_log.c\<close> and the senders of
  \<^verbatim>\<open>skynet_harbor.c\<close>: contexts and their reference counts, sending, dispatching, and launching services. What a service
  does is the argument \<^verbatim>\<open>sv\<close>: the functions of its library, as functions on the node, and the system calls.
\<close>

section \<open>The services and the system\<close>

record services =
  sv_create :: "nat \<Rightarrow> nat option"
  sv_init :: "nat \<Rightarrow> nat \<Rightarrow> ptr \<Rightarrow> string option \<Rightarrow> node \<Rightarrow> (int \<times> node) option"
  sv_release :: "nat \<Rightarrow> nat \<Rightarrow> node \<Rightarrow> node option"
  sv_signal :: "nat \<Rightarrow> nat \<Rightarrow> int \<Rightarrow> node \<Rightarrow> node option"
  sv_call :: "nat \<times> nat \<Rightarrow> ptr \<Rightarrow> nat \<Rightarrow> int \<Rightarrow> u32 \<Rightarrow> ptr option \<Rightarrow> u64 \<Rightarrow> node \<Rightarrow> (bool \<times> node) option"
  sv_dlopen :: "string \<Rightarrow> nat option"
  sv_dlsym :: "nat \<Rightarrow> string \<Rightarrow> nat option"
  sv_fopen :: "string \<Rightarrow> nat option"
  sv_thread_time :: "node \<Rightarrow> u64"
  sv_ctime :: "u64 \<Rightarrow> string"
  sv_seconds :: "u64 \<Rightarrow> string"

definition skynet_module_instance_create :: "services \<Rightarrow> skynet_module \<Rightarrow> nat option" where
  "skynet_module_instance_create sv md = (case mod_create md of Some f \<Rightarrow> sv_create sv f | None \<Rightarrow> Some (2 ^ 64 - 1))"

definition skynet_module_instance_init ::
    "services \<Rightarrow> skynet_module \<Rightarrow> nat \<Rightarrow> ptr \<Rightarrow> string option \<Rightarrow> node \<Rightarrow> (int \<times> node) option" where
  "skynet_module_instance_init sv md inst p parm n = do { f \<leftarrow> mod_init md; sv_init sv f inst p parm n }"

definition skynet_module_instance_release :: "services \<Rightarrow> skynet_module \<Rightarrow> nat \<Rightarrow> node \<Rightarrow> node option" where
  "skynet_module_instance_release sv md inst n = (case mod_release md of Some f \<Rightarrow> sv_release sv f inst n | None \<Rightarrow> Some n)"

definition skynet_module_instance_signal :: "services \<Rightarrow> skynet_module \<Rightarrow> nat \<Rightarrow> int \<Rightarrow> node \<Rightarrow> node option" where
  "skynet_module_instance_signal sv md inst sig n = (case mod_signal md of Some f \<Rightarrow> sv_signal sv f inst sig n | None \<Rightarrow> Some n)"

section \<open>Contexts\<close>

definition skynet_context_total :: "node \<Rightarrow> int" where "skynet_context_total n = total n"

definition context_inc :: "node \<Rightarrow> node" where "context_inc n = n\<lparr>total := total n + 1\<rparr>"
definition context_dec :: "node \<Rightarrow> node" where "context_dec n = n\<lparr>total := total n - 1\<rparr>"

definition skynet_context_handle :: "ptr \<Rightarrow> node \<Rightarrow> u32 option" where
  "skynet_context_handle p n = field p ctx_handle n"

definition skynet_context_grab :: "ptr \<Rightarrow> node \<Rightarrow> node option" where
  "skynet_context_grab p n = set_context p (\<lambda>c. c\<lparr>ctx_ref := ctx_ref c + 1\<rparr>) n"

definition skynet_context_reserve :: "ptr \<Rightarrow> node \<Rightarrow> node option" where
  "skynet_context_reserve p n = do { n \<leftarrow> skynet_context_grab p n; Some (context_dec n) }"

definition delete_context :: "services \<Rightarrow> ptr \<Rightarrow> node \<Rightarrow> node option" where
  "delete_context sv p n = do {
     c \<leftarrow> contexts n p;
     n \<leftarrow> skynet_module_instance_release sv (ctx_mod c) (ctx_instance c) n;
     n \<leftarrow> skynet_mq_mark_release (ctx_queue c) n;
     c_assert (contexts n p \<noteq> None);
     Some (context_dec (n\<lparr>contexts := (contexts n)(p := None)\<rparr>)) }"

text \<open>\<^verbatim>\<open>skynet_context_release\<close>: the result is True when the context is still there.\<close>

definition skynet_context_release :: "services \<Rightarrow> ptr \<Rightarrow> node \<Rightarrow> (bool \<times> node) option" where
  "skynet_context_release sv p n = do {
     r \<leftarrow> field p ctx_ref n;
     c_assert (0 < r);
     n \<leftarrow> set_context p (\<lambda>c. c\<lparr>ctx_ref := ctx_ref c - 1\<rparr>) n;
     if r = 1 then do { n \<leftarrow> delete_context sv p n; Some (False, n) }
     else Some (True, n) }"

definition skynet_handle_grab :: "u32 \<Rightarrow> node \<Rightarrow> (ptr option \<times> node) option" where
  "skynet_handle_grab handle n = do {
     r \<leftarrow> handle_lookup (\<lambda>p. skynet_context_handle p n) handle (storage n);
     case r of None \<Rightarrow> Some (None, n)
     | Some p \<Rightarrow> do { n \<leftarrow> skynet_context_grab p n; Some (Some p, n) } }"

text \<open>\<^verbatim>\<open>skynet_handle_retire\<close> with the release behind the lock; the result is True when a context was retired.\<close>

definition handle_retire :: "services \<Rightarrow> u32 \<Rightarrow> node \<Rightarrow> (bool \<times> node) option" where
  "handle_retire sv handle n = do {
     (r, st) \<leftarrow> skynet_handle_retire (\<lambda>p. skynet_context_handle p n) handle (storage n);
     let n = n\<lparr>storage := st\<rparr>;
     case r of None \<Rightarrow> Some (False, n)
     | Some p \<Rightarrow> do { (_, n) \<leftarrow> skynet_context_release sv p n; Some (True, n) } }"

text \<open>
  \<^verbatim>\<open>skynet_context_newsession\<close>: the increment of the largest int is undefined, so that the reset behind it is never
  reached from a session the function has given out.
\<close>

definition next_session :: "int \<Rightarrow> int option" where
  "next_session s = do {
     session \<leftarrow> (if s < int INT_MAX then Some (s + 1) else None);
     Some (if session \<le> 0 then 1 else session) }"

definition skynet_context_newsession :: "ptr \<Rightarrow> node \<Rightarrow> (int \<times> node) option" where
  "skynet_context_newsession p n = do {
     s \<leftarrow> field p session_id n;
     session \<leftarrow> next_session s;
     n \<leftarrow> set_context p (\<lambda>c. c\<lparr>session_id := session\<rparr>) n;
     Some (session, n) }"

section \<open>Messages to a context\<close>

text \<open>The C result 0 of \<^verbatim>\<open>skynet_context_push\<close> is False here.\<close>

definition skynet_context_push :: "services \<Rightarrow> u32 \<Rightarrow> ptr skynet_message \<Rightarrow> node \<Rightarrow> (bool \<times> node) option" where
  "skynet_context_push sv handle message n = do {
     (r, n) \<leftarrow> skynet_handle_grab handle n;
     case r of None \<Rightarrow> Some (True, n)
     | Some p \<Rightarrow> do {
         q \<leftarrow> field p ctx_queue n;
         n \<leftarrow> skynet_mq_push q message n;
         (_, n) \<leftarrow> skynet_context_release sv p n;
         Some (False, n) } }"

definition skynet_context_send ::
    "ptr \<Rightarrow> ptr option \<Rightarrow> u64 \<Rightarrow> u32 \<Rightarrow> nat \<Rightarrow> int \<Rightarrow> node \<Rightarrow> node option" where
  "skynet_context_send p msg sz source type session n = do {
     q \<leftarrow> field p ctx_queue n;
     skynet_mq_push q \<lparr>msg_source = source, msg_session = session, msg_data = msg, msg_sz = pack_sz sz type\<rparr> n }"

definition skynet_context_endless :: "services \<Rightarrow> u32 \<Rightarrow> node \<Rightarrow> node option" where
  "skynet_context_endless sv handle n = do {
     (r, n) \<leftarrow> skynet_handle_grab handle n;
     case r of None \<Rightarrow> Some n
     | Some p \<Rightarrow> do {
         n \<leftarrow> set_context p (\<lambda>c. c\<lparr>endless := True\<rparr>) n;
         (_, n) \<leftarrow> skynet_context_release sv p n;
         Some n } }"

text \<open>
  \<^verbatim>\<open>skynet_error\<close> with the formatted text: a message of type text to the service called logger, whose handle
  is looked up until it is found. A text of 256 characters or more sits in a larger block; the bytes
  behind its end are never written.
\<close>

definition skynet_error :: "services \<Rightarrow> ptr option \<Rightarrow> string \<Rightarrow> node \<Rightarrow> node option" where
  "skynet_error sv context text n = do {
     lg \<leftarrow> (if logger n = 0 then skynet_handle_findname ''logger'' (storage n) else Some (logger n));
     let n = n\<lparr>logger := lg\<rparr>;
     if lg = 0 then Some n
     else do {
       len \<leftarrow> c_nat (length text);
       let (data, n) = alloc (Bytes (bytes_of text @ [0])) n;
       source \<leftarrow> (case context of None \<Rightarrow> Some 0 | Some p \<Rightarrow> skynet_context_handle p n);
       (_, n) \<leftarrow> skynet_context_push sv lg \<lparr>msg_source = source, msg_session = 0, msg_data = Some data,
         msg_sz = pack_sz (of_nat len) PTYPE_TEXT\<rparr> n;
       Some n } }"

section \<open>Sending\<close>

definition isremote :: "u32 \<Rightarrow> node \<Rightarrow> bool option" where
  "isremote handle n = skynet_harbor_message_isremote (HARBOR n) handle"

definition skynet_isremote :: "u32 \<Rightarrow> node \<Rightarrow> (bool \<times> nat) option" where
  "skynet_isremote handle n = do { r \<leftarrow> isremote handle n; Some (r, unat (drop_bit HANDLE_REMOTE_SHIFT handle)) }"

text \<open>\<^verbatim>\<open>sizeof(struct remote_message)\<close> where pointers have 8 bytes.\<close>

definition sizeof_remote_message :: u64 where "sizeof_remote_message = 48"

definition skynet_harbor_send :: "ptr \<Rightarrow> u32 \<Rightarrow> int \<Rightarrow> node \<Rightarrow> node option" where
  "skynet_harbor_send rmsg source session n = do {
     b \<leftarrow> heap n rmsg;
     case b of
       Remote rm \<Rightarrow> do {
         c_assert (rm_type rm \<noteq> PTYPE_SYSTEM \<and> rm_type rm \<noteq> PTYPE_HARBOR);
         remote \<leftarrow> REMOTE n;
         skynet_context_send remote (Some rmsg) sizeof_remote_message source PTYPE_SYSTEM session n }
     | _ \<Rightarrow> None }"

definition skynet_harbor_start :: "ptr \<Rightarrow> node \<Rightarrow> node option" where
  "skynet_harbor_start ctx n = do { n \<leftarrow> skynet_context_reserve ctx n; Some (n\<lparr>REMOTE := Some ctx\<rparr>) }"

definition skynet_harbor_exit :: "services \<Rightarrow> node \<Rightarrow> node option" where
  "skynet_harbor_exit sv n = (let n' = n\<lparr>REMOTE := None\<rparr> in
     case REMOTE n of None \<Rightarrow> Some n'
     | Some ctx \<Rightarrow> do { (_, n') \<leftarrow> skynet_context_release sv ctx n'; Some n' })"

text \<open>
  \<^verbatim>\<open>_filter_args\<close>: allocates the session when the type asks for it, copies the payload behind which a zero byte goes,
  and packs the type into the size.
\<close>

definition filter_args ::
    "ptr option \<Rightarrow> nat \<Rightarrow> int \<Rightarrow> ptr option \<Rightarrow> u64 \<Rightarrow> node \<Rightarrow> (int \<times> ptr option \<times> u64 \<times> node) option" where
  "filter_args context type session data sz n = do {
     (session, n) \<leftarrow>
       (if type AND PTYPE_TAG_ALLOCSESSION \<noteq> 0
        then do { c_assert (session = 0); p \<leftarrow> context; skynet_context_newsession p n }
        else Some (session, n));
     (data, n) \<leftarrow>
       (if type AND PTYPE_TAG_DONTCOPY = 0 then
          (case data of None \<Rightarrow> Some (None, n)
           | Some a \<Rightarrow> do { bs \<leftarrow> load_bytes a (unat sz) n; let (msg, n) = alloc (Bytes (bs @ [0])) n; Some (Some msg, n) })
        else Some (data, n));
     Some (session, data, pack_sz sz (type AND 0xff), n) }"

definition default_source :: "ptr option \<Rightarrow> u32 \<Rightarrow> node \<Rightarrow> u32 option" where
  "default_source context source n =
     (if source = 0 then do { p \<leftarrow> context; skynet_context_handle p n } else Some source)"

definition too_large :: "services \<Rightarrow> ptr option \<Rightarrow> string \<Rightarrow> nat \<Rightarrow> ptr option \<Rightarrow> node \<Rightarrow> (int \<times> node) option" where
  "too_large sv context dest type data n = do {
     n \<leftarrow> skynet_error sv context (''The message to '' @ dest @ '' is too large'') n;
     n \<leftarrow> (if type AND PTYPE_TAG_DONTCOPY \<noteq> 0 then skynet_free data n else Some n);
     Some (-2, n) }"

definition skynet_send ::
    "services \<Rightarrow> ptr option \<Rightarrow> u32 \<Rightarrow> u32 \<Rightarrow> nat \<Rightarrow> int \<Rightarrow> ptr option \<Rightarrow> u64 \<Rightarrow> node \<Rightarrow> (int \<times> node) option" where
  "skynet_send sv context source destination type session data sz n =
     (if sz AND MESSAGE_TYPE_MASK \<noteq> sz then too_large sv context (show_hex (unat destination)) type data n
      else do {
        (session, data, sz, n) \<leftarrow> filter_args context type session data sz n;
        source \<leftarrow> default_source context source n;
        if destination = 0 then
          (if data \<noteq> None then do {
             n \<leftarrow> skynet_error sv context ''Destination address can't be 0'' n;
             n \<leftarrow> skynet_free data n;
             Some (-1, n) }
           else Some (session, n))
        else do {
          remote \<leftarrow> isremote destination n;
          if remote then do {
            let (rmsg, n) = alloc (Remote \<lparr>rm_name = [], rm_handle = destination, rm_message = data,
              rm_sz = msg_size sz, rm_type = msg_type sz\<rparr>) n;
            n \<leftarrow> skynet_harbor_send rmsg source session n;
            Some (session, n) }
          else do {
            (failed, n) \<leftarrow> skynet_context_push sv destination
              \<lparr>msg_source = source, msg_session = session, msg_data = data, msg_sz = sz\<rparr> n;
            if failed then do { n \<leftarrow> skynet_free data n; Some (-1, n) }
            else Some (session, n) } } })"

text \<open>\<^verbatim>\<open>copy_name\<close> keeps at most 16 characters; the padding with zeros is left out of the string.\<close>

definition copy_name :: "string \<Rightarrow> string" where
  "copy_name addr = take GLOBALNAME_LENGTH (c_str addr)"

definition skynet_sendname ::
    "services \<Rightarrow> ptr option \<Rightarrow> u32 \<Rightarrow> string \<Rightarrow> nat \<Rightarrow> int \<Rightarrow> ptr option \<Rightarrow> u64 \<Rightarrow> node \<Rightarrow> (int \<times> node) option" where
  "skynet_sendname sv context source addr type session data sz n = do {
     source \<leftarrow> default_source context source n;
     case addr of
       CHR '':'' # hex \<Rightarrow> skynet_send sv context source (ucast (strtoul hex 16)) type session data sz n
     | CHR ''.'' # name \<Rightarrow> do {
         des \<leftarrow> skynet_handle_findname (c_str name) (storage n);
         if des = 0 then do {
           n \<leftarrow> (if type AND PTYPE_TAG_DONTCOPY \<noteq> 0 then skynet_free data n else Some n);
           Some (-1, n) }
         else skynet_send sv context source des type session data sz n }
     | _ \<Rightarrow>
        if sz AND MESSAGE_TYPE_MASK \<noteq> sz then too_large sv context (c_str addr) type data n
        else do {
          (session, data, sz, n) \<leftarrow> filter_args context type session data sz n;
          let (rmsg, n) = alloc (Remote \<lparr>rm_name = copy_name addr, rm_handle = 0, rm_message = data,
            rm_sz = msg_size sz, rm_type = msg_type sz\<rparr>) n;
          n \<leftarrow> skynet_harbor_send rmsg source session n;
          Some (session, n) } }"

end
