(* ===== verification/Dispatch.thy ===== *)
theory Dispatch
  imports Server
begin

text \<open>
  Services in motion: the log of a service (\<^verbatim>\<open>skynet_log.c\<close>), launching and failing to launch, and the loop with which a
  worker thread serves a queue (\<^verbatim>\<open>skynet_context_new\<close>, \<^verbatim>\<open>dispatch_message\<close>,
  \<^verbatim>\<open>skynet_context_message_dispatch\<close> of \<^verbatim>\<open>skynet_server.c\<close>).
\<close>

section \<open>The log of a service\<close>

text \<open>What is written to a file is appended to \<^verbatim>\<open>log_lines\<close>.\<close>

definition fprintf :: "nat \<Rightarrow> string \<Rightarrow> node \<Rightarrow> node" where
  "fprintf f text n = n\<lparr>log_lines := log_lines n @ [(f, text)]\<rparr>"

definition clock32 :: "node \<Rightarrow> nat" where
  "clock32 n = unat (ucast (skynet_now (wheel_timer n)) :: u32)"

definition skynet_log_open :: "services \<Rightarrow> ptr option \<Rightarrow> u32 \<Rightarrow> node \<Rightarrow> (nat option \<times> node) option" where
  "skynet_log_open sv context handle n = (case skynet_getenv ''logpath'' (env n) of
       None \<Rightarrow> Some (None, n)
     | Some logpath \<Rightarrow>
        (let tmp = logpath @ ''/'' @ pad_left CHR ''0'' 8 (show_hex (unat handle)) @ ''.log'' in
         case sv_fopen sv tmp of
           Some f \<Rightarrow> do {
             let ti = ucast (skynet_starttime (wheel_timer n)) + skynet_now (wheel_timer n) div 1000;
             n \<leftarrow> skynet_error sv context (''Open log file '' @ tmp) n;
             Some (Some f, fprintf f (''open time: '' @ show_int (int (clock32 n)) @ '' '' @ sv_ctime sv ti) n) }
         | None \<Rightarrow> do {
             n \<leftarrow> skynet_error sv context (''Open log file '' @ tmp @ '' fail'') n;
             Some (None, n) }))"

definition skynet_log_close :: "services \<Rightarrow> ptr option \<Rightarrow> nat \<Rightarrow> u32 \<Rightarrow> node \<Rightarrow> node option" where
  "skynet_log_close sv context f handle n = do {
     n \<leftarrow> skynet_error sv context (''Close log file :'' @ pad_left CHR ''0'' 8 (show_hex (unat handle))) n;
     Some (fprintf f (''close time: '' @ show_int (int (clock32 n)) @ [CHR 0x0A]) n) }"

definition log_blob :: "u8 list \<Rightarrow> string" where
  "log_blob buf = concat (map (\<lambda>b. pad_left CHR ''0'' 2 (show_hex (unat b))) buf)"

text \<open>
  \<^verbatim>\<open>log_socket\<close>. The conversion \<^verbatim>\<open>%*s\<close> takes the size as a width, so it prints the string up to its zero byte, padded; without a
  zero byte in the message it reads beyond it, which is None.
\<close>

definition log_socket :: "block \<Rightarrow> node \<Rightarrow> string option" where
  "log_socket message n = (case message of
       Socket type sid ud buffer behind \<Rightarrow> do {
         let hdr = ''[socket] '' @ show_int type @ '' '' @ show_int sid @ '' '' @ show_int ud @ '' '';
         body \<leftarrow> (case buffer of
             None \<Rightarrow> do {
               c_assert (0 \<in> set behind);
               let text = takeWhile (\<lambda>b. b \<noteq> 0) behind;
               Some (''['' @ pad_left CHR '' '' (length text) (string_of text) @ '']'') }
           | Some a \<Rightarrow> do { c_assert (0 \<le> ud); bs \<leftarrow> load_bytes a (nat ud) n; Some (log_blob bs) });
         Some (hdr @ body @ [CHR 0x0A]) }
     | _ \<Rightarrow> None)"

definition skynet_log_output :: "nat \<Rightarrow> u32 \<Rightarrow> nat \<Rightarrow> int \<Rightarrow> ptr option \<Rightarrow> u64 \<Rightarrow> node \<Rightarrow> node option" where
  "skynet_log_output f source type session buffer sz n =
     (if type = PTYPE_SOCKET then do {
        a \<leftarrow> buffer; b \<leftarrow> heap n a; line \<leftarrow> log_socket b n; Some (fprintf f line n) }
      else do {
        bs \<leftarrow> (if sz = 0 then Some [] else do { a \<leftarrow> buffer; load_bytes a (unat sz) n });
        Some (fprintf f ('':'' @ pad_left CHR ''0'' 8 (show_hex (unat source)) @ '' '' @ show_int (int type) @ '' '' @
          show_int session @ '' '' @ show_int (int (clock32 n)) @ '' '' @ log_blob bs @ [CHR 0x0A]) n) })"

section \<open>Launching\<close>

definition drop_message :: "services \<Rightarrow> u32 \<Rightarrow> ptr skynet_message \<Rightarrow> node \<Rightarrow> node option" where
  "drop_message sv handle msg n = do {
     n \<leftarrow> skynet_free (msg_data msg) n;
     c_assert (handle \<noteq> 0);
     (_, n) \<leftarrow> skynet_send sv None handle (msg_source msg) PTYPE_ERROR 0 None 0 n;
     Some n }"

definition new_context :: "skynet_module \<Rightarrow> nat \<Rightarrow> bool \<Rightarrow> skynet_context" where
  "new_context md inst prof = \<lparr>ctx_instance = inst, ctx_mod = md, ctx_cb = None, ctx_queue = 0, ctx_logfile = None,
     cpu_cost = 0, cpu_start = 0, ctx_handle = 0, session_id = 0, ctx_ref = 2, message_count = 0,
     ctx_init = False, endless = False, ctx_profile = prof\<rparr>"

text \<open>An address for an object that is not a memory block of the messages.\<close>

definition fresh :: "node \<Rightarrow> ptr \<times> node" where
  "fresh n = (brk n, n\<lparr>brk := Suc (brk n)\<rparr>)"

text \<open>\<^verbatim>\<open>skynet_context_new\<close> up to the call of the init function, and behind it, where \<^verbatim>\<open>r\<close> is its result.\<close>

definition context_setup :: "skynet_module \<Rightarrow> nat \<Rightarrow> node \<Rightarrow> (ptr \<times> ptr \<times> node) option" where
  "context_setup md inst n = do {
     let (p, n) = fresh n;
     let n = n\<lparr>contexts := (contexts n)(p \<mapsto> new_context md inst (node_profile n))\<rparr>;
     (handle, st) \<leftarrow> skynet_handle_register (\<lambda>p. skynet_context_handle p n) p (storage n);
     n \<leftarrow> set_context p (\<lambda>c. c\<lparr>ctx_handle := handle\<rparr>) (n\<lparr>storage := st\<rparr>);
     let (q, n) = fresh n;
     n \<leftarrow> skynet_mq_create q handle n;
     n \<leftarrow> set_context p (\<lambda>c. c\<lparr>ctx_queue := q\<rparr>) n;
     Some (p, q, context_inc n) }"

definition context_launched :: "services \<Rightarrow> string \<Rightarrow> string option \<Rightarrow> ptr \<Rightarrow> ptr \<Rightarrow> node \<Rightarrow> (ptr option \<times> node) option" where
  "context_launched sv name param p q n = do {
     (alive, n) \<leftarrow> skynet_context_release sv p n;
     n \<leftarrow> (if alive then set_context p (\<lambda>c. c\<lparr>ctx_init := True\<rparr>) n else Some n);
     n \<leftarrow> skynet_globalmq_push q n;
     n \<leftarrow> (if alive then skynet_error sv (Some p) (''LAUNCH '' @ name @ '' '' @ (case param of None \<Rightarrow> [] | Some s \<Rightarrow> s)) n
           else Some n);
     Some (if alive then Some p else None, n) }"

definition context_failed :: "services \<Rightarrow> string \<Rightarrow> ptr \<Rightarrow> ptr \<Rightarrow> node \<Rightarrow> (ptr option \<times> node) option" where
  "context_failed sv name p q n = do {
     n \<leftarrow> skynet_error sv (Some p) (''FAILED launch '' @ name) n;
     handle \<leftarrow> skynet_context_handle p n;
     (_, n) \<leftarrow> skynet_context_release sv p n;
     (_, n) \<leftarrow> handle_retire sv handle n;
     n \<leftarrow> skynet_mq_release q (drop_message sv handle) n;
     Some (None, n) }"

definition skynet_context_new :: "services \<Rightarrow> string \<Rightarrow> string option \<Rightarrow> node \<Rightarrow> (ptr option \<times> node) option" where
  "skynet_context_new sv name param n = do {
     (md, m) \<leftarrow> skynet_module_query (sv_dlopen sv) (sv_dlsym sv) name (mods n);
     let n = n\<lparr>mods := m\<rparr>;
     case md of None \<Rightarrow> Some (None, n)
     | Some md \<Rightarrow> (case skynet_module_instance_create sv md of None \<Rightarrow> Some (None, n)
        | Some inst \<Rightarrow> do {
            (p, q, n) \<leftarrow> context_setup md inst n;
            (r, n) \<leftarrow> skynet_module_instance_init sv md inst p param n;
            if r = 0 then context_launched sv name param p q n else context_failed sv name p q n }) }"

section \<open>Dispatching\<close>

text \<open>\<^verbatim>\<open>dispatch_message\<close>: the log, the count, the callback with its time, and the payload unless the callback keeps it.\<close>

definition call_service :: "services \<Rightarrow> ptr \<Rightarrow> ptr skynet_message \<Rightarrow> node \<Rightarrow> (bool \<times> node) option" where
  "call_service sv p msg n = do {
     c \<leftarrow> contexts n p;
     cb \<leftarrow> ctx_cb c;
     sv_call sv cb p (msg_type (msg_sz msg)) (msg_session msg) (msg_source msg) (msg_data msg) (msg_size (msg_sz msg)) n }"

definition dispatch_message :: "services \<Rightarrow> ptr \<Rightarrow> ptr skynet_message \<Rightarrow> node \<Rightarrow> node option" where
  "dispatch_message sv p msg n = do {
     c \<leftarrow> contexts n p;
     c_assert (ctx_init c);
     let n = n\<lparr>current_handle := ctx_handle c\<rparr>;
     n \<leftarrow> (case ctx_logfile c of None \<Rightarrow> Some n
           | Some f \<Rightarrow> skynet_log_output f (msg_source msg) (msg_type (msg_sz msg)) (msg_session msg) (msg_data msg) (msg_size (msg_sz msg)) n);
     n \<leftarrow> set_context p (\<lambda>c. c\<lparr>message_count := message_count c + 1\<rparr>) n;
     (reserve_msg, n) \<leftarrow>
       (if ctx_profile c then do {
          n \<leftarrow> set_context p (\<lambda>c. c\<lparr>cpu_start := sv_thread_time sv n\<rparr>) n;
          (r, n) \<leftarrow> call_service sv p msg n;
          n \<leftarrow> set_context p (\<lambda>c. c\<lparr>cpu_cost := cpu_cost c + (sv_thread_time sv n - cpu_start c)\<rparr>) n;
          Some (r, n) }
        else call_service sv p msg n);
     if reserve_msg then Some n else skynet_free (msg_data msg) n }"

partial_function (option) skynet_context_dispatchall :: "services \<Rightarrow> ptr \<Rightarrow> node \<Rightarrow> node option" where
  "skynet_context_dispatchall sv p n =
     field p ctx_queue n \<bind> (\<lambda>q. skynet_mq_pop q n \<bind> (\<lambda>(r, n).
       case r of None \<Rightarrow> Some n
       | Some msg \<Rightarrow> dispatch_message sv p msg n \<bind> skynet_context_dispatchall sv p))"

text \<open>One round of the loop of \<^verbatim>\<open>skynet_context_message_dispatch\<close>, behind the pop.\<close>

definition serve :: "services \<Rightarrow> ptr \<Rightarrow> ptr \<Rightarrow> u32 \<Rightarrow> ptr skynet_message \<Rightarrow> skynet_monitor \<Rightarrow> node \<Rightarrow> (skynet_monitor \<times> node) option" where
  "serve sv p q handle msg sm n = do {
     (ovl, n) \<leftarrow> skynet_mq_overload q n;
     n \<leftarrow> (if ovl \<noteq> 0 then skynet_error sv (Some p) (''May overload, message queue length = '' @ show_int (int ovl)) n else Some n);
     let sm = skynet_monitor_trigger (msg_source msg) handle sm;
     c \<leftarrow> contexts n p;
     n \<leftarrow> (if ctx_cb c = None then skynet_free (msg_data msg) n else dispatch_message sv p msg n);
     Some (skynet_monitor_trigger 0 0 sm, n) }"

text \<open>The rounds after the first: the flag is True when the queue was found empty.\<close>

fun serve_more :: "services \<Rightarrow> ptr \<Rightarrow> ptr \<Rightarrow> u32 \<Rightarrow> nat \<Rightarrow> skynet_monitor \<Rightarrow> node \<Rightarrow> (bool \<times> skynet_monitor \<times> node) option" where
  "serve_more sv p q handle 0 sm n = Some (False, sm, n)"
| "serve_more sv p q handle (Suc k) sm n = do {
     (r, n) \<leftarrow> skynet_mq_pop q n;
     case r of None \<Rightarrow> Some (True, sm, n)
     | Some msg \<Rightarrow> do { (sm, n) \<leftarrow> serve sv p q handle msg sm n; serve_more sv p q handle k sm n } }"

definition serve_queue :: "services \<Rightarrow> ptr \<Rightarrow> ptr \<Rightarrow> u32 \<Rightarrow> int \<Rightarrow> skynet_monitor \<Rightarrow> node \<Rightarrow> (bool \<times> skynet_monitor \<times> node) option" where
  "serve_queue sv p q handle weight sm n = do {
     (r, n) \<leftarrow> skynet_mq_pop q n;
     case r of None \<Rightarrow> Some (True, sm, n)
     | Some msg \<Rightarrow> do {
         len \<leftarrow> skynet_mq_length q n;
         let rounds = (if 0 \<le> weight then drop_bit (nat weight) len else 1);
         (sm, n) \<leftarrow> serve sv p q handle msg sm n;
         serve_more sv p q handle (rounds - 1) sm n } }"

text \<open>The queue to serve next, as the C result.\<close>

definition dispatch_queue :: "services \<Rightarrow> ptr \<Rightarrow> int \<Rightarrow> skynet_monitor \<Rightarrow> node \<Rightarrow> (ptr option \<times> skynet_monitor \<times> node) option" where
  "dispatch_queue sv q weight sm n = do {
     handle \<leftarrow> skynet_mq_handle q n;
     (r, n) \<leftarrow> skynet_handle_grab handle n;
     case r of
       None \<Rightarrow> do {
         n \<leftarrow> skynet_mq_release q (drop_message sv handle) n;
         (nq, n) \<leftarrow> skynet_globalmq_pop n;
         Some (nq, sm, n) }
     | Some p \<Rightarrow> do {
         (empty, sm, n) \<leftarrow> serve_queue sv p q handle weight sm n;
         if empty then do {
           (_, n) \<leftarrow> skynet_context_release sv p n;
           (nq, n) \<leftarrow> skynet_globalmq_pop n;
           Some (nq, sm, n) }
         else do {
           cq \<leftarrow> field p ctx_queue n;
           c_assert (q = cq);
           (nq, n) \<leftarrow> skynet_globalmq_pop n;
           n \<leftarrow> (if nq = None then Some n else skynet_globalmq_push q n);
           (_, n) \<leftarrow> skynet_context_release sv p n;
           Some (if nq = None then Some q else nq, sm, n) } } }"

definition skynet_context_message_dispatch ::
    "services \<Rightarrow> ptr option \<Rightarrow> int \<Rightarrow> skynet_monitor \<Rightarrow> node \<Rightarrow> (ptr option \<times> skynet_monitor \<times> node) option" where
  "skynet_context_message_dispatch sv q weight sm n = (case q of
       Some q \<Rightarrow> dispatch_queue sv q weight sm n
     | None \<Rightarrow> do {
         (q, n) \<leftarrow> skynet_globalmq_pop n;
         case q of None \<Rightarrow> Some (None, sm, n) | Some q \<Rightarrow> dispatch_queue sv q weight sm n })"

text \<open>
  \<^verbatim>\<open>skynet_monitor_check\<close>, run by the monitor thread: a version that did not move between two checks while a message is in
  the hands of a service marks the service and logs it.
\<close>

definition skynet_monitor_check :: "services \<Rightarrow> skynet_monitor \<Rightarrow> node \<Rightarrow> (skynet_monitor \<times> node) option" where
  "skynet_monitor_check sv sm n =
     (if version sm = check_version sm then
        (if mon_destination sm \<noteq> 0 then do {
           n \<leftarrow> skynet_context_endless sv (mon_destination sm) n;
           n \<leftarrow> skynet_error sv None (''A message from [ :'' @ pad_left CHR ''0'' 8 (show_hex (unat (mon_source sm))) @ '' ] to [ :'' @
             pad_left CHR ''0'' 8 (show_hex (unat (mon_destination sm))) @ '' ] maybe in an endless loop (version = '' @
             show_int (sint (version sm)) @ '')'') n;
           Some (sm, n) }
         else Some (sm, n))
      else Some (sm\<lparr>check_version := version sm\<rparr>, n))"

end
