(* ===== verification/Command.thy ===== *)
theory Command
  imports Dispatch
begin

text \<open>
  The text commands of a service (\<^verbatim>\<open>skynet_command\<close> of \<^verbatim>\<open>skynet_server.c\<close>) and the end of services. The result
  is the string that the C function returns, None for the null pointer; the parameter is None for the null pointer too,
  and a command that does not test for it faults there.
\<close>

type_synonym command_result = "(string option \<times> node) option"

section \<open>Addresses\<close>

text \<open>\<^verbatim>\<open>id_to_hex\<close>: a colon and eight digits.\<close>

definition hex_char :: "nat \<Rightarrow> char" where
  "hex_char d = ''0123456789ABCDEF'' ! d"

definition id_to_hex :: "u32 \<Rightarrow> string" where
  "id_to_hex i = CHR '':'' # map (\<lambda>k. hex_char (unat (drop_bit ((7 - k) * 4) i AND 0xf))) [0, 1, 2, 3, 4, 5, 6, 7]"

text \<open>The conversion \<^verbatim>\<open>:%x\<close> with which the commands write an address.\<close>

definition show_address :: "u32 \<Rightarrow> string" where
  "show_address h = CHR '':'' # show_hex (unat h)"

definition skynet_queryname :: "services \<Rightarrow> ptr option \<Rightarrow> string \<Rightarrow> node \<Rightarrow> (u32 \<times> node) option" where
  "skynet_queryname sv context name n = (case c_str name of
       CHR '':'' # hex \<Rightarrow> Some (ucast (strtoul hex 16), n)
     | CHR ''.'' # s \<Rightarrow> do { h \<leftarrow> skynet_handle_findname s (storage n); Some (h, n) }
     | s \<Rightarrow> do { n \<leftarrow> skynet_error sv context (''Don't support query global name '' @ s) n; Some (0, n) })"

definition tohandle :: "services \<Rightarrow> ptr \<Rightarrow> string \<Rightarrow> node \<Rightarrow> (u32 \<times> node) option" where
  "tohandle sv p param n = (case c_str param of
       CHR '':'' # hex \<Rightarrow> Some (ucast (strtoul hex 16), n)
     | CHR ''.'' # s \<Rightarrow> do { h \<leftarrow> skynet_handle_findname s (storage n); Some (h, n) }
     | s \<Rightarrow> do { n \<leftarrow> skynet_error sv (Some p) (''Can't convert '' @ s @ '' to handle'') n; Some (0, n) })"

section \<open>The end of services\<close>

definition skynet_handle_exit :: "services \<Rightarrow> ptr option \<Rightarrow> u32 \<Rightarrow> node \<Rightarrow> (bool \<times> node) option" where
  "skynet_handle_exit sv context handle n = (case context of
       None \<Rightarrow> handle_retire sv handle n
     | Some p \<Rightarrow> do {
         own \<leftarrow> skynet_context_handle p n;
         let h = (if handle = 0 then own else handle);
         n \<leftarrow> skynet_error sv context (if handle = 0 then ''KILL self'' else ''KILL :'' @ show_hex (unat h)) n;
         n \<leftarrow> (if monitor_exit n \<noteq> 0 then do {
                 (_, n) \<leftarrow> skynet_send sv context h (monitor_exit n) PTYPE_CLIENT 0 None 0 n; Some n }
               else Some n);
         handle_retire sv h n })"

text \<open>
  \<^verbatim>\<open>skynet_handle_retireall\<close>: passes over the slots until one pass retires nothing. The table may grow in a pass, so the
  bound is read again at every step.
\<close>

partial_function (option) retire_pass :: "services \<Rightarrow> nat \<Rightarrow> nat \<Rightarrow> node \<Rightarrow> (nat \<times> node) option" where
  "retire_pass sv i cnt n =
     (if slot_size (storage n) \<le> i then Some (cnt, n)
      else c_index (hs_slot (storage n)) i \<bind> (\<lambda>ctx. case ctx of
          None \<Rightarrow> retire_pass sv (i + 1) cnt n
        | Some p \<Rightarrow> skynet_context_handle p n \<bind> (\<lambda>handle.
            if handle \<noteq> 0 then skynet_handle_exit sv (Some p) handle n \<bind> (\<lambda>(r, n).
              retire_pass sv (i + 1) (if r then cnt + 1 else cnt) n)
            else retire_pass sv (i + 1) cnt n)))"

partial_function (option) skynet_handle_retireall :: "services \<Rightarrow> node \<Rightarrow> node option" where
  "skynet_handle_retireall sv n =
     retire_pass sv 0 0 n \<bind> (\<lambda>(cnt, n). if cnt = 0 then Some n else skynet_handle_retireall sv n)"

section \<open>Commands\<close>

definition cmd_timeout :: "services \<Rightarrow> ptr \<Rightarrow> string option \<Rightarrow> node \<Rightarrow> command_result" where
  "cmd_timeout sv p param n = do {
     s \<leftarrow> param;
     let ti = c_int (strtol s 10);
     (session, n) \<leftarrow> skynet_context_newsession p n;
     handle \<leftarrow> skynet_context_handle p n;
     (_, n) \<leftarrow> skynet_timeout (skynet_context_push sv) wheel_timer (\<lambda>T n. n\<lparr>wheel_timer := T\<rparr>) handle ti session n;
     Some (Some (show_int session), n) }"

definition name_own :: "services \<Rightarrow> ptr \<Rightarrow> string \<Rightarrow> node \<Rightarrow> command_result" where
  "name_own sv p name n = do {
     handle \<leftarrow> skynet_context_handle p n;
     (r, st) \<leftarrow> skynet_handle_namehandle handle name (storage n);
     Some (r, n\<lparr>storage := st\<rparr>) }"

definition cmd_reg :: "services \<Rightarrow> ptr \<Rightarrow> string option \<Rightarrow> node \<Rightarrow> command_result" where
  "cmd_reg sv p param n = (case map_option c_str param of
       None \<Rightarrow> do { handle \<leftarrow> skynet_context_handle p n; Some (Some (show_address handle), n) }
     | Some [] \<Rightarrow> do { handle \<leftarrow> skynet_context_handle p n; Some (Some (show_address handle), n) }
     | Some (CHR ''.'' # name) \<Rightarrow> name_own sv p name n
     | Some s \<Rightarrow> do { n \<leftarrow> skynet_error sv (Some p) (''Can't register global name '' @ s @ '' in C'') n; Some (None, n) })"

definition cmd_query :: "services \<Rightarrow> ptr \<Rightarrow> string option \<Rightarrow> node \<Rightarrow> command_result" where
  "cmd_query sv p param n = do {
     s \<leftarrow> param;
     case c_str s of
       CHR ''.'' # name \<Rightarrow> do {
         handle \<leftarrow> skynet_handle_findname name (storage n);
         Some (if handle \<noteq> 0 then Some (show_address handle) else None, n) }
     | _ \<Rightarrow> Some (None, n) }"

text \<open>\<^verbatim>\<open>cmd_name\<close>: when the parameter has fewer than two words the code reads an array that was never written.\<close>

definition cmd_name :: "services \<Rightarrow> ptr \<Rightarrow> string option \<Rightarrow> node \<Rightarrow> command_result" where
  "cmd_name sv p param n = do {
     s \<leftarrow> param;
     (name, rest) \<leftarrow> scan_word (c_str s);
     (handle, _) \<leftarrow> scan_word rest;
     case handle of
       CHR '':'' # hex \<Rightarrow>
         (let handle_id = (ucast (strtoul hex 16) :: u32) in
          if handle_id = 0 then Some (None, n)
          else (case name of
              CHR ''.'' # nm \<Rightarrow> do {
                (r, st) \<leftarrow> skynet_handle_namehandle handle_id nm (storage n);
                Some (r, n\<lparr>storage := st\<rparr>) }
            | _ \<Rightarrow> do { n \<leftarrow> skynet_error sv (Some p) (''Can't set global name '' @ name @ '' in C'') n; Some (None, n) }))
     | _ \<Rightarrow> Some (None, n) }"

definition cmd_exit :: "services \<Rightarrow> ptr \<Rightarrow> string option \<Rightarrow> node \<Rightarrow> command_result" where
  "cmd_exit sv p param n = do { (_, n) \<leftarrow> skynet_handle_exit sv (Some p) 0 n; Some (None, n) }"

definition cmd_kill :: "services \<Rightarrow> ptr \<Rightarrow> string option \<Rightarrow> node \<Rightarrow> command_result" where
  "cmd_kill sv p param n = do {
     s \<leftarrow> param;
     (handle, n) \<leftarrow> tohandle sv p s n;
     n \<leftarrow> (if handle \<noteq> 0 then do { (_, n) \<leftarrow> skynet_handle_exit sv (Some p) handle n; Some n } else Some n);
     Some (None, n) }"

text \<open>
  \<^verbatim>\<open>cmd_launch\<close>: the module up to the first blank, then the arguments up to the end of the line; they are the null pointer when
  nothing follows the module.
\<close>

definition split_launch :: "string \<Rightarrow> string \<times> string option" where
  "split_launch param = (let (md, args) = strsep_any [CHR '' '', CHR 0x09, CHR 0x0D, CHR 0x0A] param in
     (md, map_option (\<lambda>a. fst (strsep_any [CHR 0x0D, CHR 0x0A] a)) args))"

definition cmd_launch :: "services \<Rightarrow> ptr \<Rightarrow> string option \<Rightarrow> node \<Rightarrow> command_result" where
  "cmd_launch sv p param n = do {
     s \<leftarrow> param;
     let (md, args) = split_launch s;
     (inst, n) \<leftarrow> skynet_context_new sv md args n;
     case inst of None \<Rightarrow> Some (None, n)
     | Some i \<Rightarrow> do { handle \<leftarrow> skynet_context_handle i n; Some (Some (id_to_hex handle), n) } }"

definition cmd_getenv :: "services \<Rightarrow> ptr \<Rightarrow> string option \<Rightarrow> node \<Rightarrow> command_result" where
  "cmd_getenv sv p param n = do { s \<leftarrow> param; Some (skynet_getenv (c_str s) (env n), n) }"

definition cmd_setenv :: "services \<Rightarrow> ptr \<Rightarrow> string option \<Rightarrow> node \<Rightarrow> command_result" where
  "cmd_setenv sv p param n = do {
     s \<leftarrow> param;
     let key = takeWhile (\<lambda>c. c \<noteq> CHR '' '') (c_str s);
     if length key = length (c_str s) then Some (None, n)
     else do {
       E \<leftarrow> skynet_setenv key (drop (length key + 1) (c_str s)) (env n);
       Some (None, n\<lparr>env := E\<rparr>) } }"

definition cmd_starttime :: "services \<Rightarrow> ptr \<Rightarrow> string option \<Rightarrow> node \<Rightarrow> command_result" where
  "cmd_starttime sv p param n = Some (Some (show_int (int (unat (skynet_starttime (wheel_timer n))))), n)"

definition cmd_abort :: "services \<Rightarrow> ptr \<Rightarrow> string option \<Rightarrow> node \<Rightarrow> command_result" where
  "cmd_abort sv p param n = do { n \<leftarrow> skynet_handle_retireall sv n; Some (None, n) }"

definition cmd_monitor :: "services \<Rightarrow> ptr \<Rightarrow> string option \<Rightarrow> node \<Rightarrow> command_result" where
  "cmd_monitor sv p param n =
     (if param = None \<or> map_option c_str param = Some []
      then Some (if monitor_exit n \<noteq> 0 then Some (show_address (monitor_exit n)) else None, n)
      else do {
        s \<leftarrow> param;
        (handle, n) \<leftarrow> tohandle sv p s n;
        Some (None, n\<lparr>monitor_exit := handle\<rparr>) })"

definition cmd_stat :: "services \<Rightarrow> ptr \<Rightarrow> string option \<Rightarrow> node \<Rightarrow> command_result" where
  "cmd_stat sv p param n = do {
     s \<leftarrow> param;
     c \<leftarrow> contexts n p;
     if c_str s = ''mqlen'' then do { len \<leftarrow> skynet_mq_length (ctx_queue c) n; Some (Some (show_int (int len)), n) }
     else if c_str s = ''endless'' then
       (if endless c then do { n \<leftarrow> set_context p (\<lambda>c. c\<lparr>endless := False\<rparr>) n; Some (Some ''1'', n) }
        else Some (Some ''0'', n))
     else if c_str s = ''cpu'' then Some (Some (sv_seconds sv (cpu_cost c)), n)
     else if c_str s = ''time'' then
       Some (Some (if ctx_profile c then sv_seconds sv (sv_thread_time sv n - cpu_start c) else ''0''), n)
     else if c_str s = ''message'' then Some (Some (show_int (int (message_count c))), n)
     else Some (Some [], n) }"

text \<open>The commands on the context of another service, which is held while they run.\<close>

definition on_service ::
    "services \<Rightarrow> ptr \<Rightarrow> string \<Rightarrow> (u32 \<Rightarrow> ptr \<Rightarrow> node \<Rightarrow> node option) \<Rightarrow> node \<Rightarrow> command_result" where
  "on_service sv p param act n = do {
     (handle, n) \<leftarrow> tohandle sv p param n;
     if handle = 0 then Some (None, n)
     else do {
       (r, n) \<leftarrow> skynet_handle_grab handle n;
       case r of None \<Rightarrow> Some (None, n)
       | Some ctx \<Rightarrow> do {
           n \<leftarrow> act handle ctx n;
           (_, n) \<leftarrow> skynet_context_release sv ctx n;
           Some (None, n) } } }"

definition cmd_logon :: "services \<Rightarrow> ptr \<Rightarrow> string option \<Rightarrow> node \<Rightarrow> command_result" where
  "cmd_logon sv p param n = do {
     s \<leftarrow> param;
     on_service sv p s (\<lambda>handle ctx n. do {
       lastf \<leftarrow> field ctx ctx_logfile n;
       if lastf = None then do {
         (f, n) \<leftarrow> skynet_log_open sv (Some p) handle n;
         case f of None \<Rightarrow> Some n | Some f \<Rightarrow> set_context ctx (\<lambda>c. c\<lparr>ctx_logfile := Some f\<rparr>) n }
       else Some n }) n }"

definition cmd_logoff :: "services \<Rightarrow> ptr \<Rightarrow> string option \<Rightarrow> node \<Rightarrow> command_result" where
  "cmd_logoff sv p param n = do {
     s \<leftarrow> param;
     on_service sv p s (\<lambda>handle ctx n. do {
       f \<leftarrow> field ctx ctx_logfile n;
       case f of None \<Rightarrow> Some n
       | Some f \<Rightarrow> do {
           n \<leftarrow> set_context ctx (\<lambda>c. c\<lparr>ctx_logfile := None\<rparr>) n;
           skynet_log_close sv (Some p) f handle n } }) n }"

definition cmd_signal :: "services \<Rightarrow> ptr \<Rightarrow> string option \<Rightarrow> node \<Rightarrow> command_result" where
  "cmd_signal sv p param n = do {
     s \<leftarrow> param;
     on_service sv p s (\<lambda>handle ctx n. do {
       c \<leftarrow> contexts n ctx;
       let arg = dropWhile (\<lambda>c. c \<noteq> CHR '' '') (c_str s);
       skynet_module_instance_signal sv (ctx_mod c) (ctx_instance c)
         (if arg = [] then 0 else c_int (strtol arg (auto_base arg))) n }) n }"

definition cmd_funcs :: "services \<Rightarrow> (string \<times> (ptr \<Rightarrow> string option \<Rightarrow> node \<Rightarrow> command_result)) list" where
  "cmd_funcs sv = [(''TIMEOUT'', cmd_timeout sv), (''REG'', cmd_reg sv), (''QUERY'', cmd_query sv), (''NAME'', cmd_name sv),
     (''EXIT'', cmd_exit sv), (''KILL'', cmd_kill sv), (''LAUNCH'', cmd_launch sv), (''GETENV'', cmd_getenv sv),
     (''SETENV'', cmd_setenv sv), (''STARTTIME'', cmd_starttime sv), (''ABORT'', cmd_abort sv), (''MONITOR'', cmd_monitor sv),
     (''STAT'', cmd_stat sv), (''LOGON'', cmd_logon sv), (''LOGOFF'', cmd_logoff sv), (''SIGNAL'', cmd_signal sv)]"

definition skynet_command :: "services \<Rightarrow> ptr \<Rightarrow> string \<Rightarrow> string option \<Rightarrow> node \<Rightarrow> command_result" where
  "skynet_command sv p cmd param n = (case find (\<lambda>e. strcmp cmd (fst e) = 0) (cmd_funcs sv) of
       None \<Rightarrow> Some (None, n)
     | Some (_, func) \<Rightarrow> func p param n)"

section \<open>Start\<close>

definition skynet_callback :: "ptr \<Rightarrow> (nat \<times> nat) option \<Rightarrow> node \<Rightarrow> node option" where
  "skynet_callback p cb n = set_context p (\<lambda>c. c\<lparr>ctx_cb := cb\<rparr>) n"

text \<open>\<^verbatim>\<open>skynet_initthread\<close>: the number that stands for a thread outside the services.\<close>

definition skynet_initthread :: "int \<Rightarrow> node \<Rightarrow> node" where
  "skynet_initthread m n = n\<lparr>current_handle := of_int (- m)\<rparr>"

definition THREAD_MAIN :: int where "THREAD_MAIN = 1"

definition skynet_globalinit :: "node \<Rightarrow> node" where
  "skynet_globalinit n = skynet_initthread THREAD_MAIN (n\<lparr>total := 0, monitor_exit := 0\<rparr>)"

definition skynet_profile_enable :: "bool \<Rightarrow> node \<Rightarrow> node" where
  "skynet_profile_enable enable n = n\<lparr>node_profile := enable\<rparr>"

end
