(* ===== verification/Registry.thy ===== *)
theory Registry
  imports Handle
begin

text \<open>
  Correctness of the table of handles of \<^verbatim>\<open>skynet-src/skynet_handle.c\<close>. Registration visits the slots in the
  order of the handles from \<^verbatim>\<open>handle_index\<close> on, wraps after \<^verbatim>\<open>HANDLE_MASK\<close> to 1, and doubles the table when every
  slot visited is taken. Under the invariant \<^verbatim>\<open>slots_wf\<close> the table is a finite
  map from handles to contexts (\<^verbatim>\<open>reg\<close>), and \<^verbatim>\<open>reg_room\<close> says exactly when registration returns.
\<close>

section \<open>Handles and slots\<close>

lemma HANDLE_MASK_unat [simp]: "unat HANDLE_MASK = 2 ^ 24 - 1"
  by (simp add: HANDLE_MASK_def)

lemma handle_hash_mod: "k \<le> 32 \<Longrightarrow> handle_hash h (2 ^ k) = unat h mod 2 ^ k"
proof -
  have "(of_nat (2 ^ k) :: u32) - 1 = mask k" by (simp add: mask_eq_exp_minus_1)
  then show ?thesis
    by (simp add: handle_hash_def unsigned_take_bit_eq take_bit_eq_mod [of k "unat h"] flip: take_bit_eq_mask)
qed

lemma handle_hash_take_bit: "k \<le> 32 \<Longrightarrow> handle_hash h (2 ^ k) = unat (take_bit k h)"
  by (simp add: handle_hash_mod unsigned_take_bit_eq take_bit_eq_mod [of k "unat h"])

text \<open>The handles that one run of the scan visits, in order.\<close>

fun scan_handles :: "nat \<Rightarrow> u32 \<Rightarrow> u32 list" where
  "scan_handles 0 h = []"
| "scan_handles (Suc n) h = (let h' = (if h > HANDLE_MASK then 1 else h) in h' # scan_handles n (h' + 1))"

lemma register_scan_find:
  assumes "\<forall>h. handle_hash h sz < length slot"
  shows "register_scan slot sz n h = Some (find (\<lambda>h. slot ! handle_hash h sz = None) (scan_handles n h))"
  by (induction n arbitrary: h) (use assms in \<open>simp_all add: Let_def\<close>)

lemma unat_succ24: "unat (h :: u32) < 2 ^ 24 \<Longrightarrow> unat (h + 1) = unat h + 1"
  by (subst unat_word_ariths) simp

lemma gt_HANDLE_MASK: "h > HANDLE_MASK \<longleftrightarrow> 2 ^ 24 \<le> unat h"
  by (simp add: word_less_nat_alt) linarith

lemma scan_handles_below:
  "unat h + n \<le> 2 ^ 24 \<Longrightarrow> map unat (scan_handles n h) = [unat h ..< unat h + n]"
proof (induction n arbitrary: h)
  case (Suc n)
  then have "unat h < 2 ^ 24" by simp
  with Suc show ?case by (simp add: Let_def gt_HANDLE_MASK unat_succ24 upt_rec)
qed simp

lemma scan_handles_wrap: "2 ^ 24 \<le> unat h \<Longrightarrow> scan_handles n h = scan_handles n 1"
  by (cases n) (simp_all add: Let_def gt_HANDLE_MASK)

lemma scan_handles_add:
  "unat h + m \<le> 2 ^ 24 \<Longrightarrow> \<exists>h'. unat h' = unat h + m \<and> scan_handles (m + n) h = scan_handles m h @ scan_handles n h'"
proof (induction m arbitrary: h)
  case (Suc m)
  then have b: "unat h < 2 ^ 24" by simp
  with Suc.IH [of "h + 1"] Suc.prems show ?case by (simp add: Let_def gt_HANDLE_MASK unat_succ24)
qed auto

text \<open>
  A scan that stays below \<^verbatim>\<open>HANDLE_MASK\<close> visits a whole interval; one that wraps visits the interval up to
  \<^verbatim>\<open>HANDLE_MASK\<close> and the rest from 1.
\<close>

lemma scan_handles_set:
  assumes "1 \<le> unat h" "unat h < 2 ^ 24" "n \<le> 2 ^ 24"
  shows "unat ` set (scan_handles n h) =
    (if unat h + n \<le> 2 ^ 24 then {unat h ..< unat h + n}
     else {unat h ..< 2 ^ 24} \<union> {1 ..< 1 + (n - (2 ^ 24 - unat h))})"
proof (cases "unat h + n \<le> 2 ^ 24")
  case True
  from arg_cong [OF scan_handles_below [OF this], of set] show ?thesis using True by simp
next
  case False
  define m where "m = 2 ^ 24 - unat h"
  have n: "n = m + (n - m)" and mh: "unat h + m = 2 ^ 24" using False assms by (auto simp: m_def)
  from scan_handles_add [of h m "n - m"] mh obtain h' where h': "unat h' = 2 ^ 24"
      "scan_handles (m + (n - m)) h = scan_handles m h @ scan_handles (n - m) h'" by auto
  have b1: "map unat (scan_handles (n - m) h') = [1 ..< 1 + (n - m)]"
    using scan_handles_below [of 1 "n - m"] assms by (simp add: scan_handles_wrap h' m_def del: upt_Suc)
  have b2: "map unat (scan_handles m h) = [unat h ..< 2 ^ 24]"
    using scan_handles_below [of h m] mh by simp
  have "unat ` set (scan_handles n h) = set (map unat (scan_handles m h)) \<union> set (map unat (scan_handles (n - m) h'))"
    using n h'(2) by (metis image_Un list.set_map set_append)
  with b1 b2 False show ?thesis by (simp add: m_def del: upt_Suc)
qed

lemma scan_handles_top:
  "n < 2 ^ 24 \<Longrightarrow> unat h = 2 ^ 24 \<Longrightarrow> unat ` set (scan_handles n h) = {1 ..< 1 + n}"
  using arg_cong [OF scan_handles_below [of 1 n], of set] by (simp add: scan_handles_wrap del: upt_Suc)

section \<open>Which slots a scan visits\<close>

text \<open>
  In a table of a power of two of slots, a run of consecutive numbers as long as the table meets every residue;
  one that wraps from \<^verbatim>\<open>N\<close> to 1 meets every residue but 0.
\<close>

lemma wrapped_residues:
  fixes a k sz :: nat
  defines "sz \<equiv> 2 ^ k"
  assumes "k \<le> 24" "a < 2 ^ 24" "2 ^ 24 < a + sz"
  shows "(\<lambda>x. x mod sz) ` ({a ..< 2 ^ 24} \<union> {1 ..< 1 + (sz - (2 ^ 24 - a))}) = {1 ..< sz}"
proof -
  obtain q where q: "(2 ^ 24 :: nat) = q * sz" "0 < q"
  proof
    show "(2 ^ 24 :: nat) = 2 ^ (24 - k) * sz" using assms(2) by (simp add: sz_def flip: power_add)
  qed simp
  then obtain q' where q': "q = Suc q'" by (cases q) auto
  let ?base = "q' * sz"
  have N: "(2 ^ 24 :: nat) = ?base + sz" using q q' by simp
  have base: "?base < a" using assms(4) N by linarith
  have high: "x mod sz = x - ?base" if "x \<in> {a ..< 2 ^ 24}" for x
  proof -
    from that base N have "?base \<le> x" "x - ?base < sz" by auto
    then show ?thesis using mod_mult_self1 [of "x - ?base" q' sz] by (simp add: mult.commute)
  qed
  have low: "x mod sz = x" if "x \<in> {1 ..< 1 + (sz - (2 ^ 24 - a))}" for x
    using that assms(3) by auto
  have "(\<lambda>x. x mod sz) ` ({a ..< 2 ^ 24} \<union> {1 ..< 1 + (sz - (2 ^ 24 - a))}) =
      (\<lambda>x. x - ?base) ` {a ..< 2 ^ 24} \<union> {1 ..< 1 + (sz - (2 ^ 24 - a))}"
    unfolding image_Un using high low by simp
  also have "(\<lambda>x. x - ?base) ` {a ..< 2 ^ 24} = {a - ?base ..< sz}"
  proof -
    have "y \<in> (\<lambda>x. x - ?base) ` {a ..< 2 ^ 24}" if "y \<in> {a - ?base ..< sz}" for y
      using that N by (intro image_eqI [of _ _ "y + ?base"]) auto
    with N base show ?thesis by auto
  qed
  also have "\<dots> \<union> {1 ..< 1 + (sz - (2 ^ 24 - a))} = {1 ..< sz}"
    using N base assms(3) by auto
  finally show ?thesis .
qed

lemma top_residues:
  fixes sz :: nat
  shows "(\<lambda>x. x mod sz) ` {1 ..< 1 + sz} = (if sz = 0 then {} else {..< sz})"
  using consecutive_residues [of sz 1] by (simp add: add.commute)

definition scan_wraps :: "nat \<Rightarrow> u32 \<Rightarrow> bool" where
  "scan_wraps sz h \<longleftrightarrow> 2 ^ 24 < unat h + sz \<and> (unat h < 2 ^ 24 \<or> sz = 2 ^ 24)"

lemma scan_residues:
  assumes k: "2 \<le> k" "k \<le> 24" and h: "1 \<le> unat h" "unat h \<le> 2 ^ 24"
  shows "(\<lambda>h. handle_hash h (2 ^ k)) ` set (scan_handles (2 ^ k) h) =
    (if scan_wraps (2 ^ k) h then {1 ..< 2 ^ k} else {..< 2 ^ k})"
proof -
  have le: "(2 :: nat) ^ k \<le> 2 ^ 24" using k by (intro power_increasing) auto
  have "(\<lambda>h. handle_hash h (2 ^ k)) ` set (scan_handles (2 ^ k) h) =
      (\<lambda>x. x mod 2 ^ k) ` (unat ` set (scan_handles (2 ^ k) h))"
    using k by (simp add: image_image handle_hash_mod)
  also have "\<dots> = (if scan_wraps (2 ^ k) h then {1 ..< 2 ^ k} else {..< 2 ^ k})"
  proof (cases "unat h = 2 ^ 24")
    case True
    show ?thesis
    proof (cases "(2 :: nat) ^ k = 2 ^ 24")
      case full: True
      have "scan_handles (2 ^ k) h = scan_handles (2 ^ k) 1" using True by (intro scan_handles_wrap) simp
      then show ?thesis
        using True full wrapped_residues [of k 1] k scan_handles_set [of 1 "2 ^ k"]
        by (simp add: scan_wraps_def)
    next
      case False
      with le have "(2 :: nat) ^ k < 2 ^ 24" by simp
      from scan_handles_top [OF this True] top_residues [of "2 ^ k"] show ?thesis
        using True False by (simp add: scan_wraps_def)
    qed
  next
    case False
    with h have h2: "unat h < 2 ^ 24" by simp
    show ?thesis
      using scan_handles_set [OF h(1) h2 le] consecutive_residues [of "2 ^ k" "unat h"]
        wrapped_residues [of k "unat h"] k h2
      by (simp add: scan_wraps_def)
  qed
  finally show ?thesis .
qed

lemma scan_handles_range:
  "1 \<le> unat h \<Longrightarrow> x \<in> set (scan_handles n h) \<Longrightarrow> 1 \<le> unat x \<and> unat x < 2 ^ 24"
proof (induction n arbitrary: h)
  case (Suc n)
  let ?h = "if h > HANDLE_MASK then 1 else h"
  have b: "1 \<le> unat ?h" "unat ?h < 2 ^ 24" using Suc.prems(1) by (auto simp: gt_HANDLE_MASK)
  then have "1 \<le> unat (?h + 1)" by (subst unat_succ24) auto
  from Suc.IH [OF this] Suc.prems(2) b show ?case by (auto simp: Let_def split: if_splits)
qed simp

section \<open>The invariant\<close>

definition low24 :: "u32 \<Rightarrow> u32" where
  "low24 h = take_bit 24 h"

text \<open>
  A context that sits in slot \<^verbatim>\<open>i\<close> has a handle that hashes to \<^verbatim>\<open>i\<close>, carries the harbor id of the node in its top byte
  and is not 0 in the rest.
\<close>

definition slot_wf :: "(ptr \<Rightarrow> u32 option) \<Rightarrow> handle_storage \<Rightarrow> nat \<Rightarrow> bool" where
  "slot_wf ch s i = (case hs_slot s ! i of None \<Rightarrow> True
     | Some ctx \<Rightarrow> (case ch ctx of None \<Rightarrow> False
        | Some h \<Rightarrow> handle_hash h (slot_size s) = i \<and> low24 h \<noteq> 0 \<and> h = low24 h OR hs_harbor s))"

definition slots_wf :: "(ptr \<Rightarrow> u32 option) \<Rightarrow> handle_storage \<Rightarrow> bool" where
  "slots_wf ch s \<longleftrightarrow> slot_size s \<in> (\<lambda>k. 2 ^ k) ` {2..24} \<and> length (hs_slot s) = slot_size s \<and>
     1 \<le> unat (handle_index s) \<and> unat (handle_index s) \<le> 2 ^ 24 \<and> low24 (hs_harbor s) = 0 \<and>
     (\<forall>i < slot_size s. slot_wf ch s i)"

text \<open>The context registered under a handle.\<close>

definition reg :: "(ptr \<Rightarrow> u32 option) \<Rightarrow> handle_storage \<Rightarrow> u32 \<Rightarrow> ptr option" where
  "reg ch s h = (case hs_slot s ! handle_hash h (slot_size s) of None \<Rightarrow> None
     | Some ctx \<Rightarrow> if ch ctx = Some h then Some ctx else None)"

text \<open>The condition under which registration returns.\<close>

definition reg_room :: "handle_storage \<Rightarrow> bool" where
  "reg_room s \<longleftrightarrow> (\<exists>i < slot_size s. 0 < i \<and> hs_slot s ! i = None) \<or>
     (hs_slot s ! 0 = None \<and> \<not> scan_wraps (slot_size s) (handle_index s)) \<or>
     ((\<forall>i < slot_size s. hs_slot s ! i \<noteq> None) \<and> slot_size s \<le> 2 ^ 23)"

lemma slots_wfE:
  assumes "slots_wf ch s"
  obtains k where "2 \<le> k" "k \<le> 24" "slot_size s = 2 ^ k" "length (hs_slot s) = 2 ^ k"
    "1 \<le> unat (handle_index s)" "unat (handle_index s) \<le> 2 ^ 24" "low24 (hs_harbor s) = 0"
    "\<forall>i < 2 ^ k. \<forall>ctx. hs_slot s ! i = Some ctx \<longrightarrow>
       (\<exists>h. ch ctx = Some h \<and> handle_hash h (2 ^ k) = i \<and> low24 h \<noteq> 0 \<and> h = low24 h OR hs_harbor s)"
  using assms unfolding slots_wf_def slot_wf_def
  by (elim conjE imageE) (fastforce split: option.splits)

lemma reg_iff:
  assumes "slots_wf ch s"
  shows "reg ch s h = Some ctx \<longleftrightarrow> Some ctx \<in> set (hs_slot s) \<and> ch ctx = Some h"
  using assms
proof (rule slots_wfE)
  fix k assume k: "k \<le> 24" "slot_size s = 2 ^ k" "length (hs_slot s) = 2 ^ k" and
    wf: "\<forall>i < 2 ^ k. \<forall>ctx. hs_slot s ! i = Some ctx \<longrightarrow>
       (\<exists>h. ch ctx = Some h \<and> handle_hash h (2 ^ k) = i \<and> low24 h \<noteq> 0 \<and> h = low24 h OR hs_harbor s)"
  have "handle_hash h (2 ^ k) < 2 ^ k" using k by (simp add: handle_hash_mod)
  then have "reg ch s h = Some ctx \<Longrightarrow> Some ctx \<in> set (hs_slot s) \<and> ch ctx = Some h"
    using k by (simp add: reg_def split: option.splits if_splits) (metis nth_mem)
  moreover have "reg ch s h = Some ctx" if mem: "Some ctx \<in> set (hs_slot s)" and h: "ch ctx = Some h"
  proof -
    from mem obtain i where i: "i < 2 ^ k" "hs_slot s ! i = Some ctx" using k by (metis in_set_conv_nth)
    with wf h have "handle_hash h (2 ^ k) = i" by fastforce
    with i h k show ?thesis by (simp add: reg_def)
  qed
  ultimately show ?thesis by blast
qed

section \<open>Lookup and retirement\<close>

lemma handle_hash_bound: "slots_wf ch s \<Longrightarrow> handle_hash h (slot_size s) < length (hs_slot s)"
  by (erule slots_wfE) (simp add: handle_hash_mod)

lemma lookup_reg:
  assumes "slots_wf ch s"
  shows "handle_lookup ch h s = Some (reg ch s h)"
proof (cases "hs_slot s ! handle_hash h (slot_size s)")
  case None
  then show ?thesis using handle_hash_bound [OF assms] by (simp add: handle_lookup_def reg_def)
next
  case (Some ctx)
  then have "Some ctx \<in> set (hs_slot s)" using handle_hash_bound [OF assms] by (metis nth_mem)
  with assms obtain g where "ch ctx = Some g"
    by (elim slots_wfE) (metis in_set_conv_nth)
  with Some show ?thesis using handle_hash_bound [OF assms] by (simp add: handle_lookup_def reg_def)
qed

lemma reg_inj: "slots_wf ch s \<Longrightarrow> reg ch s h = Some ctx \<Longrightarrow> reg ch s g = Some ctx \<Longrightarrow> h = g"
  by (simp add: reg_iff)

lemma retire_reg:
  assumes wf: "slots_wf ch s"
  shows "\<exists>s'. skynet_handle_retire ch h s = Some (reg ch s h, s') \<and> slots_wf ch s' \<and>
    reg ch s' = (reg ch s)(h := None) \<and>
    hs_name s' = (if reg ch s h = None then hs_name s else filter (\<lambda>n. snd n \<noteq> h) (hs_name s)) \<and>
    name_cap s' = name_cap s"
proof (cases "reg ch s h")
  case None
  then have "skynet_handle_retire ch h s = Some (None, s)"
    using lookup_reg [OF wf, of h]
    by (auto simp: skynet_handle_retire_def handle_lookup_def monad_simps split: option.splits if_splits)
  with None wf show ?thesis by (simp add: fun_upd_idem)
next
  case (Some ctx)
  let ?i = "handle_hash h (slot_size s)"
  let ?s = "s\<lparr>hs_slot := (hs_slot s)[?i := None], hs_name := filter (\<lambda>n. snd n \<noteq> h) (hs_name s)\<rparr>"
  from Some have slot: "hs_slot s ! ?i = Some ctx" and h: "ch ctx = Some h"
    by (auto simp: reg_def split: option.splits if_splits)
  then have "skynet_handle_retire ch h s = Some (Some ctx, ?s)"
    using handle_hash_bound [OF wf] by (simp add: skynet_handle_retire_def)
  moreover have "slot_wf ch ?s i" if "slot_wf ch s i" "i < length (hs_slot s)" for i
    using that by (cases "i = ?i") (auto simp: slot_wf_def split: option.splits)
  then have "slots_wf ch ?s" using wf unfolding slots_wf_def by auto
  moreover have "reg ch ?s g = ((reg ch s)(h := None)) g" for g
    using slot h handle_hash_bound [OF wf] by (auto simp: reg_def nth_list_update)
  ultimately show ?thesis using Some by (intro exI [of _ ?s]) auto
qed

section \<open>Growing the table\<close>

definition slot_hash :: "(ptr \<Rightarrow> u32 option) \<Rightarrow> nat \<Rightarrow> ptr option \<Rightarrow> nat" where
  "slot_hash ch sz e = handle_hash (the (ch (the e))) sz"

lemma rehash_ok:
  assumes "\<forall>h. handle_hash h sz < length acc" "distinct (map (slot_hash ch sz) es)"
    "\<forall>e \<in> set es. \<exists>ctx h. e = Some ctx \<and> ch ctx = Some h" "\<forall>e \<in> set es. acc ! slot_hash ch sz e = None"
  shows "\<exists>acc'. rehash ch sz es acc = Some acc' \<and> length acc' = length acc \<and>
    (\<forall>e \<in> set es. acc' ! slot_hash ch sz e = e) \<and> (\<forall>j. j \<notin> slot_hash ch sz ` set es \<longrightarrow> acc' ! j = acc ! j)"
  using assms
proof (induction es arbitrary: acc)
  case (Cons e es)
  from Cons.prems(3) obtain ctx h where e: "e = Some ctx" "ch ctx = Some h" by auto
  then have j: "slot_hash ch sz e = handle_hash h sz" by (simp add: slot_hash_def)
  let ?acc = "acc[slot_hash ch sz e := e]"
  have apart: "\<forall>e' \<in> set es. slot_hash ch sz e \<noteq> slot_hash ch sz e'"
    using Cons.prems(2) by (metis distinct.simps(2) image_eqI list.set_map list.simps(9))
  from Cons.prems have "\<exists>acc'. rehash ch sz es ?acc = Some acc' \<and> length acc' = length ?acc \<and>
      (\<forall>e \<in> set es. acc' ! slot_hash ch sz e = e) \<and> (\<forall>j. j \<notin> slot_hash ch sz ` set es \<longrightarrow> acc' ! j = ?acc ! j)"
    using apart by (intro Cons.IH) simp_all
  then obtain acc' where acc': "rehash ch sz es ?acc = Some acc'" "length acc' = length acc"
      "\<forall>e \<in> set es. acc' ! slot_hash ch sz e = e"
      "\<And>j. j \<notin> slot_hash ch sz ` set es \<Longrightarrow> acc' ! j = ?acc ! j" by auto
  have "rehash ch sz (e # es) acc = Some acc'"
    using acc'(1) e j Cons.prems(1,4) by simp
  moreover have "acc' ! slot_hash ch sz e = e"
    using acc'(4) [of "slot_hash ch sz e"] Cons.prems(1,2) j by simp
  ultimately show ?case using acc' by (intro exI [of _ acc']) auto
qed simp

text \<open>The handle of every entry of a full table, and where the entry goes in the table of twice the size.\<close>

definition full_slots :: "(ptr \<Rightarrow> u32 option) \<Rightarrow> nat \<Rightarrow> ptr option list \<Rightarrow> bool" where
  "full_slots ch k slot \<longleftrightarrow> length slot = 2 ^ k \<and>
     (\<forall>i < 2 ^ k. \<exists>ctx h. slot ! i = Some ctx \<and> ch ctx = Some h \<and> handle_hash h (2 ^ k) = i)"

lemma full_slots_entry:
  assumes "full_slots ch k slot" "k < 24" "i < 2 ^ k"
  shows "slot_hash ch (2 ^ Suc k) (slot ! i) < 2 ^ Suc k" "slot_hash ch (2 ^ Suc k) (slot ! i) mod 2 ^ k = i"
proof -
  from assms obtain ctx h where e: "slot ! i = Some ctx" "ch ctx = Some h" "handle_hash h (2 ^ k) = i"
    unfolding full_slots_def by blast
  then have j: "slot_hash ch (2 ^ Suc k) (slot ! i) = unat h mod 2 ^ Suc k"
    using assms(2) handle_hash_mod [of "Suc k" h] by (simp add: slot_hash_def)
  show "slot_hash ch (2 ^ Suc k) (slot ! i) < 2 ^ Suc k" unfolding j by simp
  have "unat h mod 2 ^ Suc k mod 2 ^ k = unat h mod 2 ^ k" by (rule mod_mod_cancel) simp
  then show "slot_hash ch (2 ^ Suc k) (slot ! i) mod 2 ^ k = i"
    unfolding j using e(3) assms(2) handle_hash_mod [of k h] by simp
qed

lemma rehash_full:
  assumes full: "full_slots ch k slot" and k: "k < 24"
  shows "\<exists>t. rehash ch (2 ^ Suc k) slot (replicate (2 ^ Suc k) None) = Some t \<and> length t = 2 ^ Suc k \<and>
    (\<forall>i < 2 ^ k. t ! slot_hash ch (2 ^ Suc k) (slot ! i) = slot ! i) \<and>
    (\<forall>j < 2 ^ Suc k. t ! j \<noteq> None \<longrightarrow> (\<exists>i < 2 ^ k. j = slot_hash ch (2 ^ Suc k) (slot ! i)))"
proof -
  define n :: nat where "n = 2 ^ Suc k"
  have len: "length slot = 2 ^ k" using full by (simp add: full_slots_def)
  note ent = full_slots_entry [OF full k]
  have d: "distinct (map (slot_hash ch n) slot)"
    unfolding distinct_conv_nth length_map len n_def using ent(2) len by (metis nth_map)
  have b: "\<forall>h. handle_hash h n < length (replicate n (None :: ptr option))"
    using k handle_hash_mod [of "Suc k"] unfolding n_def by simp
  have all: "\<forall>e \<in> set slot. \<exists>ctx h. e = Some ctx \<and> ch ctx = Some h"
    using full unfolding full_slots_def by (metis in_set_conv_nth)
  have none: "\<forall>e \<in> set slot. replicate n None ! slot_hash ch n e = (None :: ptr option)"
    using b by (simp add: slot_hash_def)
  from rehash_ok [OF b d all none] obtain t where t: "rehash ch n slot (replicate n None) = Some t"
      "length t = n" "\<forall>e \<in> set slot. t ! slot_hash ch n e = e"
      "\<forall>j. j \<notin> slot_hash ch n ` set slot \<longrightarrow> t ! j = replicate n None ! j"
    unfolding length_replicate by blast
  have "\<forall>i < 2 ^ k. t ! slot_hash ch n (slot ! i) = slot ! i" using t(3) len by simp
  moreover have "\<exists>i < 2 ^ k. j = slot_hash ch n (slot ! i)" if j: "j < n" "t ! j \<noteq> None" for j
  proof -
    have "j \<in> slot_hash ch n ` set slot" using t(4) j by (metis nth_replicate)
    then show ?thesis using len by (metis imageE in_set_conv_nth)
  qed
  ultimately show ?thesis using t(1,2) unfolding n_def by blast
qed

text \<open>Doubling a full table keeps its entries and leaves a slot other than slot 0 free.\<close>

lemma rehash_full_set:
  assumes full: "full_slots ch k slot" and k: "1 \<le> k" "k < 24"
    and t: "length t = 2 ^ Suc k" "\<forall>i < 2 ^ k. t ! slot_hash ch (2 ^ Suc k) (slot ! i) = slot ! i"
      "\<forall>j < 2 ^ Suc k. t ! j \<noteq> None \<longrightarrow> (\<exists>i < 2 ^ k. j = slot_hash ch (2 ^ Suc k) (slot ! i))"
  shows "\<exists>i < 2 ^ Suc k. 0 < i \<and> t ! i = None" and "set t = insert None (set slot)"
proof -
  note ent = full_slots_entry [OF full k(2)]
  have len: "length slot = 2 ^ k" using full by (simp add: full_slots_def)
  have one: "(1 :: nat) < 2 ^ k" using k(1) by (intro one_less_power) auto
  have "t ! 1 = None \<or> t ! (1 + 2 ^ k) = None"
  proof (rule ccontr)
    assume c: "\<not> ?thesis"
    have "1 < (2 :: nat) ^ Suc k" "1 + 2 ^ k < (2 :: nat) ^ Suc k" using one by auto
    with c t(3) obtain i i' where i: "i < 2 ^ k" "1 = slot_hash ch (2 ^ Suc k) (slot ! i)"
        "i' < 2 ^ k" "1 + 2 ^ k = slot_hash ch (2 ^ Suc k) (slot ! i')"
      by metis
    have "i = 1 mod 2 ^ k" "i' = (1 + 2 ^ k) mod 2 ^ k" using ent(2) i by metis+
    then have "i = i'" by (metis mod_add_self2)
    with i(2,4) show False by simp
  qed
  then show free: "\<exists>i < 2 ^ Suc k. 0 < i \<and> t ! i = None"
    using one by (elim disjE) (rule exI [of _ 1] exI [of _ "1 + 2 ^ k"], simp)+
  show "set t = insert None (set slot)"
  proof (intro equalityI subsetI)
    fix e assume "e \<in> set t"
    then obtain j where j: "j < 2 ^ Suc k" "e = t ! j" using t(1) by (metis in_set_conv_nth)
    with t(2,3) len show "e \<in> insert None (set slot)" by (metis insertCI nth_mem)
  next
    fix e assume "e \<in> insert None (set slot)"
    moreover have "None \<in> set t" using free t(1) by (metis nth_mem)
    moreover have "slot ! i \<in> set t" if "i < 2 ^ k" for i
      using t(1,2) ent(1) [OF that] that by (metis nth_mem)
    ultimately show "e \<in> set t" using len by (metis in_set_conv_nth insertE)
  qed
qed

lemma slots_wf_full:
  assumes "slots_wf ch s" "\<forall>i < slot_size s. hs_slot s ! i \<noteq> None" "slot_size s = 2 ^ k"
  shows "full_slots ch k (hs_slot s)"
  unfolding full_slots_def
proof (intro conjI allI impI)
  show "length (hs_slot s) = 2 ^ k" using assms by (simp add: slots_wf_def)
  fix i :: nat assume i: "i < 2 ^ k"
  with assms(2,3) obtain ctx where "hs_slot s ! i = Some ctx" by auto
  moreover have "slot_wf ch s i" using assms(1,3) i by (simp add: slots_wf_def)
  ultimately show "\<exists>ctx h. hs_slot s ! i = Some ctx \<and> ch ctx = Some h \<and> handle_hash h (2 ^ k) = i"
    using assms(3) by (auto simp: slot_wf_def split: option.splits)
qed

lemma reg_cong_set:
  assumes "slots_wf ch s" "slots_wf ch s'" "set (hs_slot s') = insert None (set (hs_slot s))"
  shows "reg ch s' = reg ch s"
proof
  fix h
  have "reg ch s' h = Some c \<longleftrightarrow> reg ch s h = Some c" for c using assms by (simp add: reg_iff)
  then show "reg ch s' h = reg ch s h" by (metis not_Some_eq)
qed

lemma grow_slots_ok:
  assumes wf: "slots_wf ch s" and full: "\<forall>i < slot_size s. hs_slot s ! i \<noteq> None" and sz: "slot_size s \<le> 2 ^ 23"
  shows "\<exists>s'. grow_slots ch s = Some s' \<and> slots_wf ch s' \<and> reg ch s' = reg ch s \<and>
    set (hs_slot s') = insert None (set (hs_slot s)) \<and>
    s' = s\<lparr>hs_slot := hs_slot s', slot_size := slot_size s'\<rparr> \<and> (\<exists>i < slot_size s'. 0 < i \<and> hs_slot s' ! i = None)"
proof -
  from wf obtain k where k: "2 \<le> k" "slot_size s = 2 ^ k" "length (hs_slot s) = 2 ^ k" by (rule slots_wfE)
  have "(2 :: nat) ^ k < 2 ^ 24" using sz k by simp
  then have k24: "k < 24" by (rule power_less_imp_less_exp [rotated]) simp
  note fs = slots_wf_full [OF wf full k(2)]
  from rehash_full [OF fs k24] obtain t where
    t: "rehash ch (2 ^ Suc k) (hs_slot s) (replicate (2 ^ Suc k) None) = Some t" "length t = 2 ^ Suc k"
      "\<forall>i < 2 ^ k. t ! slot_hash ch (2 ^ Suc k) (hs_slot s ! i) = hs_slot s ! i"
      "\<forall>j < 2 ^ Suc k. t ! j \<noteq> None \<longrightarrow> (\<exists>i < 2 ^ k. j = slot_hash ch (2 ^ Suc k) (hs_slot s ! i))"
    by blast
  have "1 \<le> k" using k(1) by simp
  note free = rehash_full_set(1) [OF fs this k24 t(2,3,4)] and same = rehash_full_set(2) [OF fs this k24 t(2,3,4)]
  define s' where "s' = s\<lparr>hs_slot := t, slot_size := 2 ^ Suc k\<rparr>"
  have grow: "grow_slots ch s = Some s'"
    using sz k t(1) by (simp add: grow_slots_def s'_def mult.commute)
  have "slot_wf ch s' j" if j: "j < 2 ^ Suc k" for j
  proof (cases "t ! j")
    case (Some ctx)
    with t(4) j obtain i where i: "i < 2 ^ k" "j = slot_hash ch (2 ^ Suc k) (hs_slot s ! i)" by blast
    with t(3) Some have e: "hs_slot s ! i = Some ctx" by simp
    moreover have "slot_wf ch s i" using wf i(1) k(2) by (simp add: slots_wf_def)
    ultimately obtain h where "ch ctx = Some h" "low24 h \<noteq> 0" "h = low24 h OR hs_harbor s"
      by (auto simp: slot_wf_def split: option.splits)
    with i(2) e Some show ?thesis by (simp add: slot_wf_def slot_hash_def s'_def)
  qed (simp add: slot_wf_def s'_def)
  moreover have "(2 :: nat) ^ Suc k \<in> (\<lambda>k. 2 ^ k) ` {2..24}" using k(1) k24 by (intro imageI) auto
  ultimately have wf': "slots_wf ch s'" using wf t(2) by (simp add: slots_wf_def s'_def)
  from reg_cong_set [OF wf wf'] same have "reg ch s' = reg ch s" by (simp add: s'_def)
  with grow wf' free same show ?thesis by (intro exI [of _ s']) (simp add: s'_def)
qed

section \<open>Registration\<close>

lemma handle_or_harbor:
  assumes "low24 hb = 0" "unat x < 2 ^ 24" "k \<le> 24"
  shows "handle_hash (x OR hb) (2 ^ k) = handle_hash x (2 ^ k)" and "low24 (x OR hb) = x"
proof -
  have "take_bit k (take_bit 24 hb) = take_bit k hb" using assms(3) by (simp add: min_absorb1)
  then have hb: "take_bit k hb = 0" using assms(1) by (metis low24_def take_bit_of_0)
  then show "handle_hash (x OR hb) (2 ^ k) = handle_hash x (2 ^ k)"
    using assms(3) by (simp add: handle_hash_take_bit take_bit_or)
  have "unat (take_bit 24 x) = unat x"
    using assms(2) by (simp add: unsigned_take_bit_eq take_bit_nat_eq_self)
  then have "take_bit 24 x = x" by (rule unsigned_word_eqI)
  then show "low24 (x OR hb) = x" using assms(1) by (simp add: low24_def take_bit_or)
qed

text \<open>One run of the scan over a well-formed table.\<close>

lemma scan_found_or_not:
  assumes "slots_wf ch s"
  obtains (found) x where "register_scan (hs_slot s) (slot_size s) (slot_size s) (handle_index s) = Some (Some x)"
      "1 \<le> unat x" "unat x < 2 ^ 24" "hs_slot s ! handle_hash x (slot_size s) = None"
  | (taken) "register_scan (hs_slot s) (slot_size s) (slot_size s) (handle_index s) = Some None"
      "\<forall>i < slot_size s. 0 < i \<longrightarrow> hs_slot s ! i \<noteq> None"
      "hs_slot s ! 0 \<noteq> None \<or> scan_wraps (slot_size s) (handle_index s)"
proof -
  from assms obtain k where k: "2 \<le> k" "k \<le> 24" "slot_size s = 2 ^ k" "length (hs_slot s) = 2 ^ k"
    "1 \<le> unat (handle_index s)" "unat (handle_index s) \<le> 2 ^ 24" by (rule slots_wfE)
  let ?xs = "scan_handles (slot_size s) (handle_index s)"
  have scan: "register_scan (hs_slot s) (slot_size s) (slot_size s) (handle_index s) =
      Some (find (\<lambda>h. hs_slot s ! handle_hash h (slot_size s) = None) ?xs)"
    using handle_hash_bound [OF assms] by (intro register_scan_find) simp
  show ?thesis
  proof (cases "find (\<lambda>h. hs_slot s ! handle_hash h (slot_size s) = None) ?xs")
    case None
    then have "\<forall>h \<in> set ?xs. hs_slot s ! handle_hash h (slot_size s) \<noteq> None" by (simp add: find_None_iff)
    then have "\<forall>i \<in> (\<lambda>h. handle_hash h (slot_size s)) ` set ?xs. hs_slot s ! i \<noteq> None" by simp
    with scan_residues [OF k(1,2,5,6)] k(3) scan None show ?thesis
      by (intro taken) (auto split: if_splits)
  next
    case (Some x)
    then have "x \<in> set ?xs" "hs_slot s ! handle_hash x (slot_size s) = None" by (auto simp: find_Some_iff)
    with scan_handles_range [OF k(5), of x] scan Some show ?thesis by (intro found) auto
  qed
qed

text \<open>The state after handle \<^verbatim>\<open>x\<close> went to the free slot found for it.\<close>

definition put_slot :: "ptr \<Rightarrow> u32 \<Rightarrow> handle_storage \<Rightarrow> handle_storage" where
  "put_slot ctx x s = s\<lparr>hs_slot := (hs_slot s)[handle_hash x (slot_size s) := Some ctx], handle_index := x + 1\<rparr>"

lemma put_slot_reg:
  assumes wf: "slots_wf ch s" and x: "1 \<le> unat x" "unat x < 2 ^ 24" and fresh: "Some ctx \<notin> set (hs_slot s)"
    and free: "hs_slot s ! handle_hash x (slot_size s) = None"
  shows "slots_wf (ch(ctx \<mapsto> x OR hs_harbor s)) (put_slot ctx x s)"
    and "reg (ch(ctx \<mapsto> x OR hs_harbor s)) (put_slot ctx x s) = (reg ch s)(x OR hs_harbor s \<mapsto> ctx)"
    and "reg ch s (x OR hs_harbor s) = None" and "x OR hs_harbor s \<noteq> 0"
proof -
  from wf obtain k where k: "k \<le> 24" "slot_size s = 2 ^ k" "length (hs_slot s) = 2 ^ k" and
    hb: "low24 (hs_harbor s) = 0" by (rule slots_wfE)
  let ?h = "x OR hs_harbor s" and ?i = "handle_hash x (slot_size s)"
  let ?ch = "ch(ctx \<mapsto> ?h)" and ?s = "put_slot ctx x s"
  have i: "?i < length (hs_slot s)" by (rule handle_hash_bound [OF wf])
  note hash = handle_or_harbor [OF hb x(2) k(1)]
  have hx: "handle_hash ?h (slot_size s) = ?i" using hash(1) k(2) by simp
  have x0: "x \<noteq> 0" using x(1) by auto
  have other: "hs_slot s ! j \<noteq> Some ctx" if "j < length (hs_slot s)" for j
    using fresh that by (metis nth_mem)
  have "slot_wf ?ch ?s j" if j: "j < slot_size s" for j
  proof (cases "j = ?i")
    case True
    then show ?thesis using i hx hash(2) x0 by (simp add: slot_wf_def put_slot_def)
  next
    case False
    have "slot_wf ch s j" using wf j by (simp add: slots_wf_def)
    with False other [of j] j k show ?thesis
      by (auto simp: slot_wf_def put_slot_def split: option.splits)
  qed
  then show wf': "slots_wf ?ch ?s"
    using wf x unfolding slots_wf_def by (simp add: put_slot_def unat_succ24)
  show none: "reg ch s ?h = None" using free hx by (simp add: reg_def)
  show "?h \<noteq> 0" using hash(2) x0 by (metis low24_def take_bit_of_0)
  show "reg ?ch ?s = (reg ch s)(?h \<mapsto> ctx)"
  proof
    fix g
    have mem: "Some c \<in> set (hs_slot ?s) \<longleftrightarrow> c = ctx \<or> Some c \<in> set (hs_slot s)" for c
      using i free by (auto simp: put_slot_def in_set_conv_nth nth_list_update) (metis option.distinct(1))
    have "\<not> (Some c \<in> set (hs_slot s) \<and> ch c = Some ?h)" for c
      using none reg_iff [OF wf, of ?h c] by simp
    then have "reg ?ch ?s g = Some c \<longleftrightarrow> ((reg ch s)(?h \<mapsto> ctx)) g = Some c" for c
      using fresh by (auto simp: reg_iff [OF wf'] reg_iff [OF wf] mem)
    then show "reg ?ch ?s g = ((reg ch s)(?h \<mapsto> ctx)) g" by (metis not_Some_eq)
  qed
qed

text \<open>The calls of \<^verbatim>\<open>skynet_context_new\<close> that give a new context its handle.\<close>

definition register_context ::
    "ptr \<Rightarrow> (ptr \<Rightarrow> u32 option) \<times> handle_storage \<Rightarrow> (u32 \<times> (ptr \<Rightarrow> u32 option) \<times> handle_storage) option" where
  "register_context ctx = (\<lambda>(ch, s). do {
     let ch = ch(ctx \<mapsto> 0);
     (h, s') \<leftarrow> skynet_handle_register ch ctx s;
     Some (h, ch(ctx \<mapsto> h), s')
   })"

lemma register_found:
  assumes "register_scan (hs_slot s) (slot_size s) (slot_size s) (handle_index s) = Some (Some x)"
  shows "skynet_handle_register ch ctx s = Some (x OR hs_harbor s, put_slot ctx x s)"
  by (subst skynet_handle_register.simps) (simp add: assms put_slot_def)

lemma slots_wf_upd:
  assumes wf: "slots_wf ch s" and fresh: "Some ctx \<notin> set (hs_slot s)"
  shows "slots_wf (ch(ctx := v)) s"
proof -
  have "slot_wf (ch(ctx := v)) s i" if i: "i < slot_size s" for i
  proof -
    have "hs_slot s ! i \<noteq> Some ctx" using wf fresh i unfolding slots_wf_def by (metis nth_mem)
    moreover have "slot_wf ch s i" using wf i by (simp add: slots_wf_def)
    ultimately show ?thesis by (auto simp: slot_wf_def split: option.splits)
  qed
  with wf show ?thesis by (simp add: slots_wf_def)
qed

lemma reg_upd:
  assumes "slots_wf ch s" "Some ctx \<notin> set (hs_slot s)"
  shows "reg (ch(ctx := v)) s = reg ch s"
  using assms handle_hash_bound [OF assms(1)] by (auto simp: reg_def fun_eq_iff split: option.splits) (metis nth_mem)+

text \<open>Registration returns exactly when \<^verbatim>\<open>reg_room\<close> holds, and then adds one fresh handle to the map.\<close>

lemma register_reg:
  assumes wf: "slots_wf ch s" and fresh: "Some ctx \<notin> set (hs_slot s)" and room: "reg_room s"
  shows "\<exists>h s'. skynet_handle_register ch ctx s = Some (h, s') \<and> slots_wf (ch(ctx \<mapsto> h)) s' \<and> h \<noteq> 0 \<and>
    reg ch s h = None \<and> reg (ch(ctx \<mapsto> h)) s' = (reg ch s)(h \<mapsto> ctx) \<and>
    hs_name s' = hs_name s \<and> name_cap s' = name_cap s"
  using wf
proof (cases rule: scan_found_or_not)
  case (found x)
  note p = put_slot_reg [OF wf found(2,3) fresh found(4)]
  from p register_found [OF found(1), of ch ctx] show ?thesis
    by (intro exI [of _ "x OR hs_harbor s"] exI [of _ "put_slot ctx x s"]) (simp add: put_slot_def)
next
  case taken
  with room have full: "\<forall>i < slot_size s. hs_slot s ! i \<noteq> None" and sz: "slot_size s \<le> 2 ^ 23"
    by (auto simp: reg_room_def)
  from grow_slots_ok [OF wf full sz] obtain s' where s': "grow_slots ch s = Some s'" "slots_wf ch s'"
      "reg ch s' = reg ch s" "set (hs_slot s') = insert None (set (hs_slot s))"
      "s' = s\<lparr>hs_slot := hs_slot s', slot_size := slot_size s'\<rparr>" "\<exists>i < slot_size s'. 0 < i \<and> hs_slot s' ! i = None"
    by blast
  have fresh': "Some ctx \<notin> set (hs_slot s')" using fresh s'(4) by simp
  have same: "hs_name s' = hs_name s" "name_cap s' = name_cap s" by (subst s'(5), simp)+
  have step: "skynet_handle_register ch ctx s = skynet_handle_register ch ctx s'"
    by (subst skynet_handle_register.simps) (simp add: taken(1) s'(1))
  show ?thesis using s'(2)
  proof (cases rule: scan_found_or_not)
    case (found x)
    note p = put_slot_reg [OF s'(2) found(2,3) fresh' found(4)]
    from p register_found [OF found(1), of ch ctx] s'(3) same show ?thesis unfolding step
      by (intro exI [of _ "x OR hs_harbor s'"] exI [of _ "put_slot ctx x s'"]) (simp add: put_slot_def)
  next
    case taken
    with s'(6) show ?thesis by blast
  qed
qed

lemma register_stuck:
  assumes wf: "slots_wf ch s" and room: "\<not> reg_room s"
  shows "skynet_handle_register ch ctx s = None"
  using wf
proof (cases rule: scan_found_or_not)
  case (found x)
  have "handle_hash x (slot_size s) < slot_size s" using handle_hash_bound [OF wf] wf by (simp add: slots_wf_def)
  with found room have z: "handle_hash x (slot_size s) = 0" "hs_slot s ! 0 = None" "scan_wraps (slot_size s) (handle_index s)"
    unfolding reg_room_def by (metis gr0I)+
  from wf obtain k where k: "2 \<le> k" "k \<le> 24" "slot_size s = 2 ^ k" "length (hs_slot s) = 2 ^ k"
    "1 \<le> unat (handle_index s)" "unat (handle_index s) \<le> 2 ^ 24" by (rule slots_wfE)
  have "x \<in> set (scan_handles (slot_size s) (handle_index s))"
    using found(1) register_scan_find [of "slot_size s" "hs_slot s"] handle_hash_bound [OF wf]
    by (auto simp: find_Some_iff)
  with z(1) have "0 \<in> (\<lambda>h. handle_hash h (2 ^ k)) ` set (scan_handles (2 ^ k) (handle_index s))"
    using k(3) by (metis image_iff)
  with scan_residues [OF k(1,2,5,6)] z(3) k(3) show ?thesis by simp
next
  case taken
  show ?thesis
  proof (cases "hs_slot s ! 0 = None")
    case True
    with wf have "take (slot_size s) (hs_slot s) = None # tl (hs_slot s)"
      by (cases "hs_slot s") (auto simp: slots_wf_def)
    then have "grow_slots ch s = None" by (simp add: grow_slots_def)
    then show ?thesis by (subst skynet_handle_register.simps) (simp add: taken(1))
  next
    case False
    with taken(2) room have "2 ^ 23 < slot_size s" by (fastforce simp: reg_room_def)
    then have "\<not> slot_size s * 2 - 1 \<le> unat HANDLE_MASK" by simp
    then have "grow_slots ch s = None" by (simp only: grow_slots_def c_assert_def) simp
    then show ?thesis by (subst skynet_handle_register.simps) (simp add: taken(1))
  qed
qed

section \<open>The contract of the registry\<close>

text \<open>
  What the rest of the node relies on: a finite injective map from handles to contexts. Registering a
  context that is not in the map chooses an unused handle that is not 0, looking up reads the map, retiring removes
  one handle and returns the context it had.
\<close>

locale registry =
  fixes inv :: "'s \<Rightarrow> bool"
    and tab :: "'s \<Rightarrow> u32 \<Rightarrow> ptr option"
    and room :: "'s \<Rightarrow> bool"
    and fresh :: "'s \<Rightarrow> ptr \<Rightarrow> bool"
    and register :: "ptr \<Rightarrow> 's \<Rightarrow> (u32 \<times> 's) option"
    and retire :: "u32 \<Rightarrow> 's \<Rightarrow> (ptr option \<times> 's) option"
    and lookup :: "u32 \<Rightarrow> 's \<Rightarrow> ptr option option"
  assumes register_ok: "inv s \<Longrightarrow> room s \<Longrightarrow> fresh s c \<Longrightarrow>
      \<exists>h s'. register c s = Some (h, s') \<and> inv s' \<and> h \<noteq> 0 \<and> tab s h = None \<and> tab s' = (tab s)(h \<mapsto> c)"
    and register_only: "inv s \<Longrightarrow> fresh s c \<Longrightarrow> register c s \<noteq> None \<Longrightarrow> room s"
    and retire_ok: "inv s \<Longrightarrow> \<exists>s'. retire h s = Some (tab s h, s') \<and> inv s' \<and> tab s' = (tab s)(h := None)"
    and lookup_ok: "inv s \<Longrightarrow> lookup h s = Some (tab s h)"
    and tab_inj: "inv s \<Longrightarrow> tab s g = Some c \<Longrightarrow> tab s h = Some c \<Longrightarrow> g = h"
    and fresh_iff: "inv s \<Longrightarrow> fresh s c \<longleftrightarrow> c \<notin> ran (tab s)"
begin

lemma register_lookup:
  assumes "inv s" "fresh s c" "register c s = Some (h, s')"
  shows "inv s' \<and> h \<noteq> 0 \<and> lookup h s = Some None \<and> lookup h s' = Some (Some c) \<and>
    (\<forall>g. g \<noteq> h \<longrightarrow> lookup g s' = lookup g s)"
proof -
  have "room s" using register_only [OF assms(1,2)] assms(3) by simp
  with register_ok [OF assms(1) _ assms(2)] assms(3) have "inv s'" "h \<noteq> 0" "tab s h = None"
    "tab s' = (tab s)(h \<mapsto> c)" by auto
  with assms(1) show ?thesis by (simp add: lookup_ok)
qed

lemma register_fails_iff: "inv s \<Longrightarrow> fresh s c \<Longrightarrow> register c s = None \<longleftrightarrow> \<not> room s"
  using register_ok register_only by (metis option.distinct(1))

lemma retire_lookup:
  assumes "inv s"
  shows "\<exists>s'. retire h s = Some (tab s h, s') \<and> inv s' \<and> lookup h s' = Some None \<and>
    (\<forall>g. g \<noteq> h \<longrightarrow> lookup g s' = lookup g s) \<and> (\<forall>c. tab s h = Some c \<longrightarrow> fresh s' c)"
proof -
  from retire_ok [OF assms] obtain s' where s': "retire h s = Some (tab s h, s')" "inv s'"
    "tab s' = (tab s)(h := None)" by blast
  moreover have "fresh s' c" if "tab s h = Some c" for c
    using s'(2,3) that tab_inj [OF assms] by (auto simp: fresh_iff ran_def)
  ultimately show ?thesis using assms by (auto simp: lookup_ok)
qed

end

type_synonym handles = "(ptr \<Rightarrow> u32 option) \<times> handle_storage"

definition registry_wf :: "handles \<Rightarrow> bool" where
  "registry_wf hs = slots_wf (fst hs) (snd hs)"

definition ctx_fresh :: "handles \<Rightarrow> ptr \<Rightarrow> bool" where
  "ctx_fresh hs ctx \<longleftrightarrow> Some ctx \<notin> set (hs_slot (snd hs))"

definition registry_tab :: "handles \<Rightarrow> u32 \<Rightarrow> ptr option" where
  "registry_tab hs = reg (fst hs) (snd hs)"

definition registry_retire :: "u32 \<Rightarrow> handles \<Rightarrow> (ptr option \<times> handles) option" where
  "registry_retire h hs = map_option (map_prod id (Pair (fst hs))) (skynet_handle_retire (fst hs) h (snd hs))"

definition registry_lookup :: "u32 \<Rightarrow> handles \<Rightarrow> ptr option option" where
  "registry_lookup h hs = handle_lookup (fst hs) h (snd hs)"

lemma register_context_ok:
  assumes "registry_wf hs" "reg_room (snd hs)" "ctx_fresh hs c"
  shows "\<exists>h hs'. register_context c hs = Some (h, hs') \<and> registry_wf hs' \<and> h \<noteq> 0 \<and>
    registry_tab hs h = None \<and> registry_tab hs' = (registry_tab hs)(h \<mapsto> c)"
proof -
  obtain ch s where hs: "hs = (ch, s)" by (cases hs)
  from assms have wf: "slots_wf ch s" and fresh: "Some c \<notin> set (hs_slot s)" and room: "reg_room s"
    by (simp_all add: hs registry_wf_def ctx_fresh_def)
  let ?ch = "ch(c \<mapsto> 0)"
  have wf0: "slots_wf ?ch s" by (rule slots_wf_upd [OF wf fresh])
  from register_reg [OF wf0 fresh room] obtain h s' where
    "skynet_handle_register ?ch c s = Some (h, s')" "slots_wf (ch(c \<mapsto> h)) s'" "h \<noteq> 0"
    "reg ?ch s h = None" "reg (ch(c \<mapsto> h)) s' = (reg ?ch s)(h \<mapsto> c)" by auto
  then show ?thesis
    using reg_upd [OF wf fresh, of "Some 0"]
    by (auto simp: hs register_context_def registry_wf_def registry_tab_def)
qed

lemma ctx_fresh_iff:
  assumes "slots_wf (fst hs) (snd hs)"
  shows "ctx_fresh hs c \<longleftrightarrow> c \<notin> ran (registry_tab hs)"
proof -
  have "\<exists>h. fst hs c = Some h" if "Some c \<in> set (hs_slot (snd hs))"
    using assms that by (elim slots_wfE) (metis in_set_conv_nth)
  then show ?thesis
    by (auto simp: ctx_fresh_def registry_tab_def ran_def reg_iff [OF assms])
qed

interpretation rg: registry registry_wf registry_tab "\<lambda>hs. reg_room (snd hs)" ctx_fresh
    register_context registry_retire registry_lookup
proof
  fix s :: handles and c h g
  assume wf: "registry_wf s"
  show "reg_room (snd s) \<Longrightarrow> ctx_fresh s c \<Longrightarrow> \<exists>h s'. register_context c s = Some (h, s') \<and> registry_wf s' \<and>
      h \<noteq> 0 \<and> registry_tab s h = None \<and> registry_tab s' = (registry_tab s)(h \<mapsto> c)"
    by (rule register_context_ok [OF wf])
  show "reg_room (snd s)" if "ctx_fresh s c" "register_context c s \<noteq> None"
  proof (rule ccontr)
    assume "\<not> reg_room (snd s)"
    with register_stuck slots_wf_upd wf that(1)
    have "skynet_handle_register ((fst s)(c \<mapsto> 0)) c (snd s) = None"
      unfolding registry_wf_def ctx_fresh_def by metis
    with that(2) show False by (cases s) (simp add: register_context_def)
  qed
  show "\<exists>s'. registry_retire h s = Some (registry_tab s h, s') \<and> registry_wf s' \<and>
      registry_tab s' = (registry_tab s)(h := None)"
    using retire_reg [of "fst s" "snd s" h] wf by (auto simp: registry_wf_def registry_retire_def registry_tab_def)
  show "registry_lookup h s = Some (registry_tab s h)"
    using wf by (simp add: registry_wf_def registry_lookup_def registry_tab_def lookup_reg)
  show "registry_tab s g = Some c \<Longrightarrow> registry_tab s h = Some c \<Longrightarrow> g = h"
    using wf by (auto simp: registry_wf_def registry_tab_def dest: reg_inj)
  show "ctx_fresh s c = (c \<notin> ran (registry_tab s))"
    using wf ctx_fresh_iff by (simp add: registry_wf_def)
qed

lemma four_power: "(4 :: nat) \<in> (\<lambda>k. 2 ^ k) ` {2..24}"
  by (rule image_eqI [of _ _ 2]) simp_all

lemma less_four: "i < (4 :: nat) \<longleftrightarrow> i = 0 \<or> i = 1 \<or> i = 2 \<or> i = 3"
  by auto

lemma init_wf: "registry_wf (ch, skynet_handle_init harbor)"
proof -
  have "low24 (hs_harbor (skynet_handle_init harbor)) = 0"
    by (simp add: skynet_handle_init_def low24_def HANDLE_REMOTE_SHIFT_def take_bit_push_bit)
  then show ?thesis
    using four_power by (simp add: registry_wf_def slots_wf_def slot_wf_def skynet_handle_init_def DEFAULT_SLOT_SIZE_def)
qed

lemma map_of_filter_snd:
  "distinct (map fst ns) \<Longrightarrow> map_of (filter (\<lambda>n. snd n \<noteq> h) ns) name =
     (case map_of ns name of None \<Rightarrow> None | Some g \<Rightarrow> if g = h then None else Some g)"
proof (induction ns)
  case (Cons n ns)
  have "map_of ns (fst n) = None" using Cons.prems by (simp add: map_of_eq_None_iff)
  with Cons show ?case by (auto split: option.splits)
qed simp

section \<open>Properties\<close>

text \<open>A table with contexts 1, 2 and 3 in slots 1, 2 and 3, about to wrap: slot 0 is free but the scan skips it.\<close>

definition wrap_table :: handle_storage where
  "wrap_table = \<lparr>hs_harbor = 0, handle_index = 0xfffffe, slot_size = 4,
     hs_slot = [None, Some 1, Some 2, Some 3], name_cap = 2, hs_name = []\<rparr>"

definition wrap_handles :: handles where
  "wrap_handles = ([1 \<mapsto> 1, 2 \<mapsto> 2, 3 \<mapsto> 3], wrap_table)"

lemma wrap_wf: "registry_wf wrap_handles" "ctx_fresh wrap_handles 9" "\<not> reg_room wrap_table"
proof -
  have "slot_wf (fst wrap_handles) wrap_table i" if "i < 4" for i
    using that unfolding less_four
    by (elim disjE) (simp_all add: slot_wf_def wrap_table_def wrap_handles_def handle_hash_def low24_def)
  then show "registry_wf wrap_handles"
    using four_power by (simp add: registry_wf_def slots_wf_def wrap_handles_def wrap_table_def low24_def)
  show "ctx_fresh wrap_handles 9" by (simp add: ctx_fresh_def wrap_handles_def wrap_table_def)
  have "hs_slot wrap_table ! i \<noteq> None" if "i < 4" "0 < i" for i
    using that unfolding less_four by (auto simp: wrap_table_def)
  moreover have "slot_size wrap_table = 4" "scan_wraps 4 (handle_index wrap_table)" "hs_slot wrap_table ! 0 = None"
    by (simp_all add: wrap_table_def scan_wraps_def)
  ultimately show "\<not> reg_room wrap_table"
    unfolding reg_room_def by (metis zero_less_numeral)
qed

text \<open>
  (C25) Registering a context fails (a null pointer is read, or the capacity assert fires) exactly when the table has no room for
  it: no slot but slot 0 is free, and slot 0 is either taken in a full table of more than
  \<^verbatim>\<open>2^23\<close> slots or free but skipped because the scan wraps past \<^verbatim>\<open>HANDLE_MASK\<close>. Otherwise it returns.
\<close>

theorem register_fails_exactly:
  assumes "registry_wf hs" and "ctx_fresh hs ctx"
  shows "register_context ctx hs = None \<longleftrightarrow> \<not> reg_room (snd hs)"
  using assms by (rule rg.register_fails_iff)

theorem register_fails_exactly_witness:
  "register_context 9 wrap_handles = None \<and> hs_slot (snd wrap_handles) ! 0 = None"
  using register_fails_exactly [OF wrap_wf(1,2)] wrap_wf(3) by (simp add: wrap_handles_def wrap_table_def)

text \<open>
  (C24) A registration that returns gives the context a handle that is not 0 and was not in use; afterwards the
  handle finds this context, every other handle finds what it found before, and the invariant is kept.
\<close>

theorem register_gives_fresh_handle:
  assumes "registry_wf hs" and "ctx_fresh hs ctx" and "register_context ctx hs = Some (h, hs')"
  shows "registry_wf hs' \<and> h \<noteq> 0 \<and> registry_lookup h hs = Some None \<and> registry_lookup h hs' = Some (Some ctx) \<and>
    (\<forall>g. g \<noteq> h \<longrightarrow> registry_lookup g hs' = registry_lookup g hs)"
  using assms by (rule rg.register_lookup)

lemmas register_eval = register_context_def skynet_handle_register.simps grow_slots_def handle_hash_def
  HANDLE_MASK_def DEFAULT_SLOT_SIZE_def HANDLE_REMOTE_SHIFT_def c_index_def c_update_def c_assert_def

lemma register_scan_numeral:
  "register_scan slot sz (numeral k) handle =
     (let h = (if handle > HANDLE_MASK then 1 else handle) in do {
        e \<leftarrow> c_index slot (handle_hash h sz);
        if e = None then Some (Some h) else register_scan slot sz (pred_numeral k) (h + 1)
      })"
  by (simp add: numeral_eq_Suc del: register_scan.simps(1))

lemma first_service_eval: "register_context 1 (\<lambda>_. None, skynet_handle_init 1) = Some (0x1000001, [1 \<mapsto> 0x1000001],
    (skynet_handle_init 1)\<lparr>hs_slot := [None, Some 1, None, None], handle_index := 2\<rparr>)"
  by (simp add: register_eval skynet_handle_init_def register_scan_numeral) (simp add: numeral_eq_Suc)

theorem register_gives_fresh_handle_witness:
  "registry_lookup 0x1000001 ([1 \<mapsto> 0x1000001],
    (skynet_handle_init 1)\<lparr>hs_slot := [None, Some 1, None, None], handle_index := 2\<rparr>) = Some (Some 1)"
  using register_gives_fresh_handle [OF init_wf _ first_service_eval]
  by (simp add: ctx_fresh_def skynet_handle_init_def DEFAULT_SLOT_SIZE_def)

text \<open>
  (C27) Retiring a handle returns the context registered under it (none when it is not registered), keeps the invariant, makes
  the handle unknown and leaves every other handle with its context; a retired context may be registered again.
\<close>

theorem retire_removes_only_handle:
  assumes "registry_wf hs"
  shows "\<exists>hs'. registry_retire h hs = Some (registry_tab hs h, hs') \<and> registry_wf hs' \<and>
    registry_lookup h hs = Some (registry_tab hs h) \<and> registry_lookup h hs' = Some None \<and>
    (\<forall>g. g \<noteq> h \<longrightarrow> registry_lookup g hs' = registry_lookup g hs) \<and>
    (\<forall>c. registry_tab hs h = Some c \<longrightarrow> ctx_fresh hs' c)"
  using rg.retire_lookup [OF assms, of h] rg.lookup_ok [OF assms, of h] by auto

theorem retire_removes_only_handle_witness:
  "\<exists>hs'. registry_retire 2 wrap_handles = Some (Some 2, hs') \<and> registry_lookup 2 hs' = Some None"
  using retire_removes_only_handle [OF wrap_wf(1), of 2]
  by (auto simp: registry_tab_def reg_def wrap_handles_def wrap_table_def handle_hash_def)

text \<open>
  (C39) Binding a name adds it with its handle when it is new and changes nothing when it is taken; the binary search finds every
  bound name and gives 0 for any other; the array stays sorted and inside its capacity.
\<close>

theorem namehandle_findname:
  assumes "names_wf s" and "name_room s"
  shows "\<exists>r s'. skynet_handle_namehandle h name s = Some (r, s') \<and> names_wf s' \<and>
    (r = None \<longleftrightarrow> map_of (hs_name s) name \<noteq> None) \<and>
    skynet_handle_findname name s' = Some (case map_of (hs_name s) name of None \<Rightarrow> h | Some old \<Rightarrow> old) \<and>
    (\<forall>other. other \<noteq> name \<longrightarrow> skynet_handle_findname other s' = skynet_handle_findname other s)"
  by (rule nt.bind_find [OF assms])

lemma init_names: "names_wf (skynet_handle_init harbor)" "name_room (skynet_handle_init harbor)"
  by (simp_all add: names_wf_def names_sorted_def name_room_def skynet_handle_init_def MAX_SLOT_SIZE_def)

theorem namehandle_findname_witness:
  "\<exists>r s'. skynet_handle_namehandle 7 ''launcher'' (skynet_handle_init 1) = Some (r, s') \<and>
     skynet_handle_findname ''launcher'' s' = Some 7"
  using namehandle_findname [OF init_names, of 7 "''launcher''" 1]
  by (auto simp: skynet_handle_init_def)

text \<open>
  Retiring a registered handle removes exactly the names bound to it: each of them is unknown afterwards,
  and a name of another handle keeps it.
\<close>

theorem retire_drops_names:
  assumes "slots_wf ch s" and "names_wf s" and "reg ch s h = Some ctx"
  shows "\<exists>s'. skynet_handle_retire ch h s = Some (Some ctx, s') \<and> slots_wf ch s' \<and> names_wf s' \<and>
    (\<forall>name. skynet_handle_findname name s' =
       (if map_of (hs_name s) name = Some h then Some 0 else skynet_handle_findname name s))"
proof -
  from retire_reg [OF assms(1), of h] assms(3) obtain s' where
    s': "skynet_handle_retire ch h s = Some (Some ctx, s')" "slots_wf ch s'"
      "hs_name s' = filter (\<lambda>n. snd n \<noteq> h) (hs_name s)" "name_cap s' = name_cap s" by auto
  from names_wf_filter [OF assms(2)] s'(3,4) have wf': "names_wf s'"
    by (simp add: names_wf_def names_sorted_def)
  have d: "distinct (map fst (hs_name s))"
    using assms(2) sorted_wrt_distinct by (simp add: names_wf_def names_sorted_def)
  have "map_of (hs_name s') name = (case map_of (hs_name s) name of None \<Rightarrow> None | Some g \<Rightarrow> if g = h then None else Some g)" for name
    using map_of_filter_snd [OF d] unfolding s'(3) .
  then show ?thesis
    using s' wf' assms(2) by (intro exI [of _ s']) (auto simp: findname_map split: option.splits)
qed

theorem retire_drops_names_witness:
  "\<exists>s'. skynet_handle_retire (fst wrap_handles) 2 (wrap_table\<lparr>hs_name := [(''a'', 2), (''b'', 3)]\<rparr>) = Some (Some 2, s') \<and>
     skynet_handle_findname ''a'' s' = Some 0 \<and> skynet_handle_findname ''b'' s' = Some 3"
proof -
  let ?s = "wrap_table\<lparr>hs_name := [(''a'', 2), (''b'', 3)]\<rparr>"
  have wf: "slots_wf (fst wrap_handles) ?s"
    using wrap_wf(1) by (auto simp: registry_wf_def slots_wf_def slot_wf_def wrap_handles_def cong: option.case_cong)
  have names: "names_wf ?s"
    by (simp add: names_wf_def names_sorted_def wrap_table_def less_char_def)
  have r: "reg (fst wrap_handles) ?s 2 = Some 2"
    by (simp add: reg_def wrap_handles_def wrap_table_def handle_hash_def)
  have b: "skynet_handle_findname ''b'' ?s = Some 3" using findname_map [OF names, of "''b''"] by simp
  obtain s' where s': "skynet_handle_retire (fst wrap_handles) 2 ?s = Some (Some 2, s')"
      "\<And>name. skynet_handle_findname name s' =
         (if map_of (hs_name ?s) name = Some 2 then Some 0 else skynet_handle_findname name ?s)"
    using retire_drops_names [OF wf names r] by blast
  show ?thesis using s'(1) s'(2) [of "''a''"] s'(2) [of "''b''"] b by simp
qed

end
