(* ===== verification/Sending.thy ===== *)
theory Sending
  imports Command GlobalQueue Registry
begin

text \<open>
  What sending promises: the message arrives at the end of the queue of the service that has the handle, with the type, the
  size and the bytes of the sender, and no payload is lost or freed twice, delivered or not. Then the sessions, the
  written form of addresses, the search for a library, and the share of a queue that a worker serves.
\<close>

section \<open>A registered service\<close>

text \<open>The handle \<^verbatim>\<open>h\<close> leads to the context \<^verbatim>\<open>c\<close> at \<^verbatim>\<open>p\<close>, whose queue holds the messages \<^verbatim>\<open>ms\<close>.\<close>

definition found :: "u32 \<Rightarrow> node \<Rightarrow> ptr option option" where
  "found h n = handle_lookup (\<lambda>p. skynet_context_handle p n) h (storage n)"

definition queue_holds :: "node \<Rightarrow> ptr \<Rightarrow> ptr skynet_message list \<Rightarrow> bool" where
  "queue_holds n q ms \<longleftrightarrow> (\<exists>ps mq. gq_repr n ps \<and> qview n q = Some mq \<and> mq_repr mq ms \<and> (in_global mq = 0 \<longrightarrow> q \<notin> set ps))"

definition serves :: "node \<Rightarrow> u32 \<Rightarrow> ptr \<Rightarrow> skynet_context \<Rightarrow> ptr skynet_message list \<Rightarrow> bool" where
  "serves n h p c ms \<longleftrightarrow> found h n = Some (Some p) \<and> contexts n p = Some c \<and> 0 < ctx_ref c \<and> queue_holds n (ctx_queue c) ms"

lemma more_fields:
  assumes "mq_state.more n' = mq_state.more (n :: node)"
  shows "contexts n' = contexts n" "storage n' = storage n" "heap n' = heap n" "brk n' = brk n" "total n' = total n"
    "HARBOR n' = HARBOR n" "logger n' = logger n" "monitor_exit n' = monitor_exit n" "REMOTE n' = REMOTE n"
    "current_handle n' = current_handle n" "log_lines n' = log_lines n" "wheel_timer n' = wheel_timer n"
  using assms by (cases n; cases n'; simp)+

lemma found_cong: "storage n' = storage n \<Longrightarrow> map_option ctx_handle \<circ> contexts n' = map_option ctx_handle \<circ> contexts n \<Longrightarrow>
    found h n' = found h n"
  by (simp add: found_def skynet_context_handle_def field_def comp_def fun_eq_iff)

lemma gq_repr_more [simp]: "gq_repr (n\<lparr>contexts := x\<rparr>) ps = gq_repr n ps" "gq_repr (n\<lparr>heap := y\<rparr>) ps = gq_repr n ps"
    "gq_repr (n\<lparr>brk := b\<rparr>) ps = gq_repr n ps" "gq_repr (n\<lparr>storage := t\<rparr>) ps = gq_repr n ps"
    "gq_repr (n\<lparr>logger := l\<rparr>) ps = gq_repr n ps" "gq_repr (n\<lparr>current_handle := u\<rparr>) ps = gq_repr n ps"
  by (simp_all add: gq_repr_def)

lemma qview_more [simp]: "qview (n\<lparr>contexts := x\<rparr>) = qview n" "qview (n\<lparr>heap := y\<rparr>) = qview n"
    "qview (n\<lparr>brk := b\<rparr>) = qview n" "qview (n\<lparr>storage := t\<rparr>) = qview n"
    "qview (n\<lparr>logger := l\<rparr>) = qview n" "qview (n\<lparr>current_handle := u\<rparr>) = qview n"
  by (simp_all add: qview_def fun_eq_iff)

lemma queue_holds_more [simp]: "queue_holds (n\<lparr>contexts := x\<rparr>) = queue_holds n" "queue_holds (n\<lparr>heap := y\<rparr>) = queue_holds n"
    "queue_holds (n\<lparr>brk := b\<rparr>) = queue_holds n" "queue_holds (n\<lparr>current_handle := u\<rparr>) = queue_holds n"
  by (simp_all add: queue_holds_def fun_eq_iff)

lemma found_heap [simp]: "found h (n\<lparr>heap := y\<rparr>) = found h n" "found h (n\<lparr>brk := b\<rparr>) = found h n"
  by (simp_all add: found_def skynet_context_handle_def field_def)

lemma serves_heap [simp]: "serves (n\<lparr>heap := y\<rparr>) h p c ms = serves n h p c ms" "serves (n\<lparr>brk := b\<rparr>) h p c ms = serves n h p c ms"
  by (simp_all add: serves_def)

text \<open>\<^verbatim>\<open>skynet_context_push\<close>: the message goes behind the others, the count of references is as before.\<close>

lemma queue_push:
  assumes "queue_holds n q ms" "length ms < mq_limit"
  shows "\<exists>n'. skynet_mq_push q m n = Some n' \<and> queue_holds n' q (ms @ [m]) \<and> mq_state.more n' = mq_state.more n"
proof -
  from assms(1) obtain ps mq where a: "gq_repr n ps" "qview n q = Some mq" "mq_repr mq ms" "in_global mq = 0 \<Longrightarrow> q \<notin> set ps"
    by (auto simp: queue_holds_def)
  from mq_push_state [OF a(1-3) assms(2), of m] a(4) obtain n' mq' where
    "skynet_mq_push q m n = Some n'" "gq_repr n' (if in_global mq = 0 then ps @ [q] else ps)" "qview n' = (qview n)(q \<mapsto> mq')"
    "mq_repr mq' (ms @ [m])" "in_global mq' = (if in_global mq = 0 then MQ_IN_GLOBAL else in_global mq)"
    "mq_state.more n' = mq_state.more n" by blast
  moreover from this a(4) have "queue_holds n' q (ms @ [m])"
    by (auto simp: queue_holds_def MQ_IN_GLOBAL_def split: if_splits)
  ultimately show ?thesis by blast
qed


lemma context_push_served:
  assumes "serves n h p c ms" "length ms < mq_limit"
  shows "\<exists>n'. skynet_context_push sv h m n = Some (False, n') \<and> serves n' h p c (ms @ [m]) \<and> mq_state.more n' = mq_state.more n"
proof -
  note s = assms(1) [unfolded serves_def]
  let ?n1 = "n\<lparr>contexts := (contexts n)(p \<mapsto> c\<lparr>ctx_ref := ctx_ref c + 1\<rparr>)\<rparr>"
  have g: "skynet_handle_grab h n = Some (Some p, ?n1)"
    using s by (simp add: skynet_handle_grab_def found_def skynet_context_grab_def set_context_def)
  obtain n2 where n2: "skynet_mq_push (ctx_queue c) m ?n1 = Some n2" "queue_holds n2 (ctx_queue c) (ms @ [m])"
      "mq_state.more n2 = mq_state.more ?n1"
    using queue_push [of ?n1 "ctx_queue c" ms m] s assms(2) by auto
  note f = more_fields [OF n2(3)]
  let ?n3 = "n2\<lparr>contexts := contexts n\<rparr>"
  have r: "skynet_context_release sv p n2 = Some (True, ?n3)"
    using f(1) s by (simp add: skynet_context_release_def field_def set_context_def fun_upd_idem)
  have m: "mq_state.more ?n3 = mq_state.more n"
    using n2(3) by (cases n; cases n2) simp
  have "found h ?n3 = found h n"
    using more_fields(1,2) [OF m] by (intro found_cong) simp_all
  then have "serves ?n3 h p c (ms @ [m])" using s n2(2) by (simp add: serves_def)
  then show ?thesis
    using g n2(1) r m by (simp add: skynet_context_push_def field_def)
qed

lemma context_push_missing: "found h n = Some None \<Longrightarrow> skynet_context_push sv h m n = Some (True, n)"
  by (simp add: skynet_context_push_def skynet_handle_grab_def found_def)

section \<open>Sending\<close>

text \<open>What \<^verbatim>\<open>_filter_args\<close> makes of a payload that is no null pointer.\<close>

lemma filter_args_data:
  assumes "type AND PTYPE_TAG_ALLOCSESSION = 0" "heap n a = Some (Bytes bs)" "unat sz \<le> length bs"
  shows "filter_args context type session (Some a) sz n = Some
    (if type AND PTYPE_TAG_DONTCOPY = 0
     then (session, Some (brk n), pack_sz sz (type AND 0xff), n\<lparr>heap := (heap n)(brk n \<mapsto> Bytes (take (unat sz) bs @ [0])), brk := Suc (brk n)\<rparr>)
     else (session, Some a, pack_sz sz (type AND 0xff), n))"
  using assms by (simp add: filter_args_def load_bytes_def alloc_def)

lemma type_byte: "type AND 0xff < (256 :: nat)"
proof -
  have "(0xff :: nat) = mask 8" by (simp add: mask_eq_exp_minus_1)
  then have "type AND 0xff = take_bit 8 type" by (simp only: take_bit_eq_mask)
  then show ?thesis using take_bit_nat_less_exp [of 8 type] by simp
qed

text \<open>
  (C14) A message to a service of this node arrives behind the messages already in its queue, with the source, the session,
  the type and the size that the receiver reads back, and the bytes of the sender with a zero byte behind them; or, under
  \<^verbatim>\<open>PTYPE_TAG_DONTCOPY\<close>, with the very block of the sender. Nothing else of the memory changes.
\<close>

theorem skynet_send_delivers:
  assumes s: "serves n dest p c ms" and room: "length ms < mq_limit" and loc: "isremote dest n = Some False" "dest \<noteq> 0"
    and src: "source \<noteq> 0" and ty: "type AND PTYPE_TAG_ALLOCSESSION = 0"
    and sz: "sz AND MESSAGE_TYPE_MASK = sz" and data: "heap n a = Some (Bytes bs)" "unat sz \<le> length bs"
  shows "\<exists>n' m. skynet_send sv context source dest type session (Some a) sz n = Some (session, n') \<and>
    serves n' dest p c (ms @ [m]) \<and> msg_source m = source \<and> msg_session m = session \<and>
    msg_type (msg_sz m) = type AND 0xff \<and> msg_size (msg_sz m) = sz \<and>
    (if type AND PTYPE_TAG_DONTCOPY = 0
     then msg_data m = Some (brk n) \<and> heap n' = (heap n)(brk n \<mapsto> Bytes (take (unat sz) bs @ [0]))
     else msg_data m = Some a \<and> heap n' = heap n)"
proof -
  let ?copy = "type AND PTYPE_TAG_DONTCOPY = 0"
  let ?n1 = "if ?copy then n\<lparr>heap := (heap n)(brk n \<mapsto> Bytes (take (unat sz) bs @ [0])), brk := Suc (brk n)\<rparr> else n"
  let ?m = "\<lparr>msg_source = source, msg_session = session, msg_data = Some (if ?copy then brk n else a),
    msg_sz = pack_sz sz (type AND 0xff)\<rparr>"
  have f: "filter_args context type session (Some a) sz n = Some (session, msg_data ?m, msg_sz ?m, ?n1)"
    using filter_args_data [OF ty data, of "context" session] by simp
  have "serves ?n1 dest p c ms" using s by simp
  from context_push_served [OF this room, of sv ?m] obtain n' where
    n': "skynet_context_push sv dest ?m ?n1 = Some (False, n')" "serves n' dest p c (ms @ [?m])" "mq_state.more n' = mq_state.more ?n1"
    by blast
  have r: "isremote dest ?n1 = Some False" using loc(1) by (simp add: isremote_def)
  have d: "default_source context source ?n1 = Some source" using src by (simp add: default_source_def)
  have "skynet_send sv context source dest type session (Some a) sz n = Some (session, n')"
    unfolding skynet_send_def f using sz d r loc(2) n'(1) by simp
  moreover have "heap n' = heap ?n1" by (rule more_fields(3) [OF n'(3)])
  ultimately show ?thesis
    using n'(2) pack_sz_unpack [OF sz type_byte]
    by (intro exI [of _ n'] exI [of _ ?m]) simp
qed

text \<open>
  (C15) A message to a handle that no service of this node has is refused with -1 and leaves no memory behind: the copy is
  freed again, and under \<^verbatim>\<open>PTYPE_TAG_DONTCOPY\<close> the block of the sender is freed in its place.
\<close>

theorem skynet_send_refused:
  assumes miss: "found dest n = Some None" and loc: "isremote dest n = Some False" "dest \<noteq> 0"
    and src: "source \<noteq> 0" and ty: "type AND PTYPE_TAG_ALLOCSESSION = 0"
    and sz: "sz AND MESSAGE_TYPE_MASK = sz" and data: "heap n a = Some (Bytes bs)" "unat sz \<le> length bs" "heap n (brk n) = None"
  shows "\<exists>n'. skynet_send sv context source dest type session (Some a) sz n = Some (-1, n') \<and>
    heap n' = (if type AND PTYPE_TAG_DONTCOPY = 0 then heap n else (heap n)(a := None)) \<and>
    contexts n' = contexts n \<and> queues n' = queues n"
proof -
  let ?copy = "type AND PTYPE_TAG_DONTCOPY = 0"
  let ?n1 = "if ?copy then n\<lparr>heap := (heap n)(brk n \<mapsto> Bytes (take (unat sz) bs @ [0])), brk := Suc (brk n)\<rparr> else n"
  let ?d = "Some (if ?copy then brk n else a)"
  have f: "filter_args context type session (Some a) sz n = Some (session, ?d, pack_sz sz (type AND 0xff), ?n1)"
    using filter_args_data [OF ty data(1,2), of "context" session] by simp
  have "found dest ?n1 = Some None" using miss by simp
  note m = context_push_missing [OF this, of sv]
  have r: "isremote dest ?n1 = Some False" using loc(1) by (simp add: isremote_def)
  have d: "default_source context source ?n1 = Some source" using src by (simp add: default_source_def)
  let ?n2 = "?n1\<lparr>heap := (heap ?n1)(the ?d := None)\<rparr>"
  have "skynet_free ?d ?n1 = Some ?n2" using data(1) by (simp add: skynet_free_def)
  then have "skynet_send sv context source dest type session (Some a) sz n = Some (-1, ?n2)"
    unfolding skynet_send_def f using sz d r loc(2) m by simp
  moreover have "heap ?n2 = (if ?copy then heap n else (heap n)(a := None))"
    using data(3) by (auto simp: fun_eq_iff)
  ultimately show ?thesis by (intro exI [of _ ?n2]) simp
qed


text \<open>A node with one service, on which the properties can be observed.\<close>

definition small_module :: skynet_module where
  "small_module = \<lparr>mod_name = ''snlua'', mod_module = 1, mod_create = None, mod_init = Some 2, mod_release = None, mod_signal = None\<rparr>"

definition small_context :: skynet_context where
  "small_context = (new_context small_module 0 False)\<lparr>ctx_queue := 2, ctx_handle := 0x01000001, ctx_ref := 1, ctx_init := True\<rparr>"

definition small_node :: node where
  "small_node = \<lparr>queues = [2 \<mapsto> new_message_queue 0x01000001], gq_head = None, gq_tail = None,
     contexts = [1 \<mapsto> small_context], storage = (skynet_handle_init 1)\<lparr>hs_slot := [None, Some 1, None, None], handle_index := 2\<rparr>,
     heap = [7 \<mapsto> Bytes [5, 6]], brk = 10, total = 1, monitor_exit = 0, node_profile = False, current_handle = 0, logger = 0,
     REMOTE = None, HARBOR = skynet_harbor_init 1, env = (\<lambda>_. None), mods = skynet_module_init '''',
     wheel_timer = timer_create_timer, log_lines = []\<rparr>"

lemma small_node_serves: "serves small_node 0x01000001 1 small_context []"
proof -
  have "handle_hash 0x01000001 4 = 1" by (simp add: handle_hash_def)
  then have "found 0x01000001 small_node = Some (Some 1)"
    by (simp add: found_def handle_lookup_def small_node_def skynet_handle_init_def DEFAULT_SLOT_SIZE_def c_index_def
      skynet_context_handle_def field_def small_context_def)
  moreover have "queue_holds small_node 2 []"
    unfolding queue_holds_def
    by (intro exI [of _ "[]"] exI [of _ "new_message_queue 0x01000001"])
      (simp add: small_node_def gq_repr_def qview_def new_message_queue_repr, simp add: new_message_queue_def MQ_IN_GLOBAL_def)
  ultimately show ?thesis by (simp add: serves_def) (simp add: small_node_def small_context_def new_context_def)
qed

lemma small_node_local: "isremote 0x01000001 small_node = Some False" "isremote 0x01000002 small_node = Some False"
  by (simp_all add: isremote_def skynet_harbor_message_isremote_def small_node_def skynet_harbor_init_def HANDLE_MASK_def
    HANDLE_REMOTE_SHIFT_def)

lemma small_node_missing: "found 0x01000002 small_node = Some None"
proof -
  have "handle_hash 0x01000002 4 = 2" by (simp add: handle_hash_def)
  then show ?thesis
    by (simp add: found_def handle_lookup_def small_node_def skynet_handle_init_def DEFAULT_SLOT_SIZE_def c_index_def)
qed

lemma small_node_heap: "heap small_node 7 = Some (Bytes [5, 6])" "heap small_node (brk small_node) = None"
  by (simp_all add: small_node_def)


lemma skynet_send_delivers_witness: "\<exists>n' m.
    skynet_send undefined None 9 0x01000001 (PTYPE_TEXT OR PTYPE_TAG_DONTCOPY) 5 (Some 7) 2 small_node = Some (5, n') \<and>
    serves n' 0x01000001 1 small_context [m] \<and> msg_session m = 5 \<and> msg_size (msg_sz m) = 2 \<and> msg_data m = Some 7 \<and> heap n' = heap small_node"
proof -
  have t: "(PTYPE_TEXT OR PTYPE_TAG_DONTCOPY) AND PTYPE_TAG_ALLOCSESSION = 0" "(PTYPE_TEXT OR PTYPE_TAG_DONTCOPY) AND PTYPE_TAG_DONTCOPY \<noteq> 0"
    by (simp_all add: PTYPE_TEXT_def PTYPE_TAG_DONTCOPY_def PTYPE_TAG_ALLOCSESSION_def)
  have "(2 :: u64) AND MESSAGE_TYPE_MASK = 2" by (simp add: MESSAGE_TYPE_MASK_def)
  from skynet_send_delivers [OF small_node_serves _ small_node_local(1) _ _ t(1) this small_node_heap(1), of 9 undefined None 5] t(2)
  show ?thesis by (auto simp: mq_limit_def)
qed

lemma skynet_send_refused_witness: "\<exists>n'.
    skynet_send undefined None 9 0x01000002 (PTYPE_TEXT OR PTYPE_TAG_DONTCOPY) 5 (Some 7) 2 small_node = Some (-1, n') \<and>
    heap n' = (heap small_node)(7 := None)"
proof -
  have t: "(PTYPE_TEXT OR PTYPE_TAG_DONTCOPY) AND PTYPE_TAG_ALLOCSESSION = 0" "(PTYPE_TEXT OR PTYPE_TAG_DONTCOPY) AND PTYPE_TAG_DONTCOPY \<noteq> 0"
    by (simp_all add: PTYPE_TEXT_def PTYPE_TAG_DONTCOPY_def PTYPE_TAG_ALLOCSESSION_def)
  have "(2 :: u64) AND MESSAGE_TYPE_MASK = 2" by (simp add: MESSAGE_TYPE_MASK_def)
  from skynet_send_refused [OF small_node_missing small_node_local(2) _ _ t(1) this small_node_heap(1) _ small_node_heap(2),
      of 9 undefined None 5] t(2)
  show ?thesis by auto
qed

section \<open>Addresses\<close>

lemma hex_char_digit: "d < 16 \<Longrightarrow> is_digit 16 (hex_char d) \<and> digit_val (hex_char d) = Some d"
proof -
  assume "d < 16"
  then have "d \<in> {0, 1, 2, 3, 4, 5, 6, 7, 8, 9, 10, 11, 12, 13, 14, 15}" by (simp, presburger)
  then show ?thesis
    by (elim insertE emptyE) (simp_all add: hex_char_def is_digit_def digit_val_def)
qed

lemma nibble: "unat (drop_bit k (i :: u32) AND 0xf) = unat i div 2 ^ k mod 16"
proof -
  have "(0xf :: u32) = mask 4" by (simp add: mask_eq_exp_minus_1)
  then have "drop_bit k i AND 0xf = take_bit 4 (drop_bit k i)" by (simp only: take_bit_eq_mask)
  then have "unat (drop_bit k i AND 0xf) = take_bit 4 (drop_bit k (unat i))"
    by (simp only: unsigned_take_bit_eq unat_drop_bit_eq)
  then show ?thesis by (simp only: take_bit_eq_mod drop_bit_eq_div) simp
qed

lemma read_id_to_hex: "read_digits 16 (tl (id_to_hex i)) = unat i" "\<forall>c \<in> set (tl (id_to_hex i)). is_digit 16 c"
proof -
  define d where "d k = unat i div 16 ^ k mod 16" for k
  have l: "d k < 16" for k by (simp add: d_def)
  have t: "tl (id_to_hex i) = map (\<lambda>k. hex_char (d (7 - k))) [0, 1, 2, 3, 4, 5, 6, 7]"
    by (simp add: id_to_hex_def nibble d_def)
  show dig: "\<forall>c \<in> set (tl (id_to_hex i)). is_digit 16 c" using hex_char_digit [OF l] by (simp add: t)
  have "takeWhile (is_digit 16) (tl (id_to_hex i)) = tl (id_to_hex i)" using dig by (simp add: takeWhile_eq_all_conv)
  then have "read_digits 16 (tl (id_to_hex i)) =
      ((((((d 7 * 16 + d 6) * 16 + d 5) * 16 + d 4) * 16 + d 3) * 16 + d 2) * 16 + d 1) * 16 + d 0"
    using hex_char_digit [OF l] by (simp add: read_digits_def t)
  also have "\<dots> = unat i"
  proof -
    define q where "q k = unat i div 16 ^ k" for k
    have s: "q k = q (Suc k) * 16 + d k" for k
    proof -
      have "unat i div 16 ^ Suc k = unat i div 16 ^ k div 16" by (simp only: div_mult2_eq [symmetric] power_Suc2)
      then show ?thesis unfolding q_def d_def by simp
    qed
    have "unat i < 2 ^ LENGTH(32)" by (rule unsigned_less)
    then have z: "q 8 = 0" by (simp add: q_def)
    have e: "q 0 = q 1 * 16 + d 0" "q 2 = q 3 * 16 + d 2" "q 3 = q 4 * 16 + d 3"
        "q 4 = q 5 * 16 + d 4" "q 5 = q 6 * 16 + d 5" "q 6 = q 7 * 16 + d 6" "q 7 = q 8 * 16 + d 7"
      using s [of 0] s [of 2] s [of 3] s [of 4] s [of 5] s [of 6] s [of 7] by simp_all
    have e1: "q 1 = q 2 * 16 + d 1" by (rule s [of 1, unfolded Suc_1])
    have "unat i = q 0" by (simp add: q_def)
    then show ?thesis unfolding e e1 z by simp
  qed
  finally show "read_digits 16 (tl (id_to_hex i)) = unat i" .
qed


lemma c_str_hex: "\<forall>c \<in> set s. is_digit 16 c \<Longrightarrow> c_str (CHR '':'' # s) = CHR '':'' # s"
  using hex_digit_chars by (auto simp: c_str_def NUL_def takeWhile_eq_all_conv)

lemma address_value:
  assumes "\<forall>c \<in> set s. is_digit 16 c" "s \<noteq> []" "read_digits 16 s = unat h"
  shows "tohandle sv p (CHR '':'' # s) n = Some (h, n)" "skynet_queryname sv ctx (CHR '':'' # s) n = Some (h, n)"
proof -
  have "unat h < 2 ^ LENGTH(32)" by (rule unsigned_less)
  then have "strtoul s 16 = of_nat (unat h)" using strtoul_digits [OF assms(1,2)] assms(3) by simp
  moreover have "ucast (of_nat (unat h) :: u64) = h"
  proof (rule unsigned_word_eqI)
    have "unat h < 2 ^ 64" using unsigned_less [of h, where ?'a = nat] by simp
    then have "unat (of_nat (unat h) :: u64) = unat h" by (simp only: unsigned_of_nat) (simp add: take_bit_nat_eq_self)
    then show "unat (ucast (of_nat (unat h) :: u64) :: u32) = unat h"
      by (simp only: unsigned_ucast_eq) (simp add: take_bit_nat_eq_self unsigned_less [of h, where ?'a = nat, simplified])
  qed
  ultimately have "ucast (strtoul s 16) = h" by simp
  then show "tohandle sv p (CHR '':'' # s) n = Some (h, n)" "skynet_queryname sv ctx (CHR '':'' # s) n = Some (h, n)"
    using c_str_hex [OF assms(1)] by (simp_all add: tohandle_def skynet_queryname_def)
qed

text \<open>
  (C34) The address that a command returns, in either of its two written forms, leads back to the handle when it is given to a
  command or looked up: no digit is lost for any of the 2 ^ 32 handles.
\<close>

theorem address_reads_back:
  "tohandle sv p (show_address h) n = Some (h, n) \<and> tohandle sv p (id_to_hex h) n = Some (h, n) \<and>
   skynet_queryname sv ctx (show_address h) n = Some (h, n) \<and> skynet_queryname sv ctx (id_to_hex h) n = Some (h, n)"
proof -
  have i: "id_to_hex h = CHR '':'' # tl (id_to_hex h)" "tl (id_to_hex h) \<noteq> []" by (simp_all add: id_to_hex_def)
  note v = address_value [OF read_id_to_hex(2) i(2) read_id_to_hex(1), folded i(1)]
  have "\<forall>c \<in> set (show_hex (unat h)). is_digit 16 c" "show_hex (unat h) \<noteq> []" "read_digits 16 (show_hex (unat h)) = unat h"
    using print_base_read [of 16 "unat h"] by (simp_all add: show_hex_def)
  from address_value [OF this] v show ?thesis unfolding show_address_def by blast
qed

section \<open>Sessions\<close>

fun new_sessions :: "nat \<Rightarrow> ptr \<Rightarrow> node \<Rightarrow> (int list \<times> node) option" where
  "new_sessions 0 p n = Some ([], n)"
| "new_sessions (Suc k) p n = do {
     (s, n) \<leftarrow> skynet_context_newsession p n;
     (ss, n) \<leftarrow> new_sessions k p n;
     Some (s # ss, n) }"

text \<open>
  (C35) The sessions of a service are positive and never repeat until the largest int is given out; the call after that is an
  overflow of a signed integer, so the reset to 1 in the code, which waits for a negative number, is not reached.
\<close>

theorem sessions_count_up:
  assumes "contexts n p = Some c" "0 \<le> session_id c" "session_id c \<le> int INT_MAX"
  shows "if session_id c + int k \<le> int INT_MAX
    then \<exists>n'. new_sessions k p n = Some (map (\<lambda>i. session_id c + int i) [1..<Suc k], n')
    else new_sessions k p n = None"
  using assms
proof (induction k arbitrary: n c)
  case 0
  then show ?case by simp
next
  case (Suc k)
  let ?c = "c\<lparr>session_id := session_id c + 1\<rparr>" and ?n = "n\<lparr>contexts := (contexts n)(p \<mapsto> c\<lparr>session_id := session_id c + 1\<rparr>)\<rparr>"
  show ?case
  proof (cases "session_id c < int INT_MAX")
    case True
    then have s: "skynet_context_newsession p n = Some (session_id c + 1, ?n)"
      using Suc.prems by (simp add: skynet_context_newsession_def field_def next_session_def set_context_def)
    have l: "map (\<lambda>i. session_id c + int i) [1..<Suc (Suc k)] = (session_id c + 1) # map (\<lambda>i. session_id c + 1 + int i) [1..<Suc k]"
    proof -
      have "[1..<Suc (Suc k)] = 1 # map Suc [1..<Suc k]" unfolding map_Suc_upt by (rule upt_conv_Cons) simp
      then show ?thesis by (simp add: comp_def add.assoc del: upt_Suc)
    qed
    from Suc.IH [of ?n ?c] Suc.prems True show ?thesis
      unfolding l by (auto simp: s split: if_splits)
  next
    case False
    with Suc.prems show ?thesis by (simp add: skynet_context_newsession_def field_def next_session_def)
  qed
qed

lemma sessions_count_up_witness:
  "\<exists>n'. new_sessions 3 1 small_node = Some ([1, 2, 3], n')"
  using sessions_count_up [of small_node 1 small_context 3]
  by (simp add: small_node_def small_context_def new_context_def INT_MAX_def upt_rec)

section \<open>The search for a library\<close>

text \<open>The specification: the parts of the path that are not empty, each with the name in place of its first question mark.\<close>

fun parts :: "string \<Rightarrow> string list" where
  "parts [] = [[]]"
| "parts (c # s) = (if c = CHR '';'' then [] # parts s else (c # hd (parts s)) # tl (parts s))"

definition put_name :: "string \<Rightarrow> string \<Rightarrow> string" where
  "put_name name part = takeWhile (\<lambda>c. c \<noteq> CHR ''?'') part @ name @ tl (dropWhile (\<lambda>c. c \<noteq> CHR ''?'') part)"

definition open_first :: "(string \<Rightarrow> nat option) \<Rightarrow> string list \<Rightarrow> nat option" where
  "open_first dlopen cs = Option.bind (find (\<lambda>c. dlopen c \<noteq> None) cs) dlopen"

definition path_parts :: "string \<Rightarrow> string list" where
  "path_parts path = filter (\<lambda>s. s \<noteq> []) (parts path)"

lemma parts_nonempty: "parts s \<noteq> []"
  by (cases s) simp_all

lemma path_parts_drop: "path_parts (dropWhile (\<lambda>c. c = CHR '';'') path) = path_parts path"
  by (induction path) (simp_all add: path_parts_def)

lemma parts_takeWhile: "parts s = takeWhile (\<lambda>c. c \<noteq> CHR '';'') s #
    (case dropWhile (\<lambda>c. c \<noteq> CHR '';'') s of [] \<Rightarrow> [] | c # t \<Rightarrow> parts t)"
  by (induction s) simp_all

lemma path_parts_Cons:
  assumes "s \<noteq> []" "hd s \<noteq> CHR '';''"
  shows "path_parts s = takeWhile (\<lambda>c. c \<noteq> CHR '';'') s # path_parts (dropWhile (\<lambda>c. c \<noteq> CHR '';'') s)"
proof -
  let ?d = "dropWhile (\<lambda>c. c \<noteq> CHR '';'') s"
  have "takeWhile (\<lambda>c. c \<noteq> CHR '';'') s \<noteq> []" using assms by (cases s) auto
  moreover have "path_parts ?d = filter (\<lambda>s. s \<noteq> []) (case ?d of [] \<Rightarrow> [] | c # t \<Rightarrow> parts t)"
  proof (cases ?d)
    case (Cons c t)
    then have "c = CHR '';''" using hd_dropWhile [of "\<lambda>c. c \<noteq> CHR '';''" s] by auto
    then show ?thesis unfolding Cons by (simp add: path_parts_def)
  next
    case Nil
    show ?thesis unfolding Nil by (simp add: path_parts_def)
  qed
  ultimately show ?thesis unfolding path_parts_def by (subst parts_takeWhile) simp
qed

lemma candidate_put_name:
  assumes "CHR ''?'' \<in> set part" "length part + length name \<le> sz"
  shows "candidate sz part name = Some (put_name name part)"
proof -
  let ?i = "length (takeWhile (\<lambda>c. c \<noteq> CHR ''?'') part)"
  have d: "dropWhile (\<lambda>c. c \<noteq> CHR ''?'') part = drop ?i part" by (rule dropWhile_eq_drop)
  have t: "take ?i part = takeWhile (\<lambda>c. c \<noteq> CHR ''?'') part" by (rule takeWhile_eq_take [symmetric])
  have "takeWhile (\<lambda>c. c \<noteq> CHR ''?'') part \<noteq> part" using assms(1) by (auto simp: takeWhile_eq_all_conv)
  then have "?i \<noteq> length part" using t by (metis take_all order_refl)
  moreover have "?i \<le> length part" by (rule length_takeWhile_le)
  ultimately have i: "?i < length part" by linarith
  have "put_name name part = take ?i part @ name @ drop (?i + 1) part"
    unfolding put_name_def d t by (simp add: drop_Suc drop_tl)
  moreover from this have "length (put_name name part) < sz" using i assms(2) by simp
  ultimately show ?thesis using i by (simp add: candidate_def Let_def)
qed

text \<open>
  A path whose parts all have a question mark is searched to its end without running over the buffer, and the
  library is the first that opens among the parts in order; empty parts are skipped.
\<close>

theorem try_open_finds_first:
  assumes "\<And>part. part \<in> set (path_parts (m_path m)) \<Longrightarrow> CHR ''?'' \<in> set part"
  shows "try_open dlopen m name = Some (open_first dlopen (map (put_name name) (path_parts (m_path m))))"
proof -
  have "try_parts dlopen sz path name = Some (open_first dlopen (map (put_name name) (path_parts path)))"
    if "length path + length name \<le> sz" "\<forall>part \<in> set (path_parts path). CHR ''?'' \<in> set part" for sz path
    using that
  proof (induction dlopen sz path name rule: try_parts.induct)
    case (1 dlopen sz path name)
    define p where "p = dropWhile (\<lambda>c. c = CHR '';'') path"
    have pp: "path_parts path = path_parts p" by (simp add: p_def path_parts_drop)
    have len: "length p \<le> length path" unfolding p_def by (rule length_dropWhile_le)
    show ?case
    proof (cases "p = []")
      case True
      then have "try_parts dlopen sz path name = Some None" by (subst try_parts.simps) (simp flip: p_def)
      then show ?thesis unfolding pp True by (simp add: path_parts_def open_first_def)
    next
      case False
      define part where "part = takeWhile (\<lambda>c. c \<noteq> CHR '';'') p"
      have "hd p \<noteq> CHR '';''" using False hd_dropWhile [of "\<lambda>c. c = CHR '';''" path] by (simp add: p_def)
      note ps = path_parts_Cons [OF False this, folded part_def]
      have dw: "dropWhile (\<lambda>c. c \<noteq> CHR '';'') p = drop (length part) p" by (simp add: part_def dropWhile_eq_drop)
      have q: "CHR ''?'' \<in> set part" using "1.prems"(2) by (simp add: pp ps)
      have "length part \<le> length p" unfolding part_def by (rule length_takeWhile_le)
      then have c: "candidate sz part name = Some (put_name name part)"
        using candidate_put_name [OF q, of name sz] "1.prems"(1) len by simp
      have s: "try_parts dlopen sz path name = (case dlopen (put_name name part) of Some dl \<Rightarrow> Some (Some dl)
          | None \<Rightarrow> try_parts dlopen sz (drop (length part) p) name)"
        using False c by (subst try_parts.simps) (simp add: Let_def flip: p_def part_def)
      show ?thesis
      proof (cases "dlopen (put_name name part)")
        case None
        have "length (drop (length part) p) + length name \<le> sz" using "1.prems"(1) len by simp
        moreover have "\<forall>part \<in> set (path_parts (drop (length part) p)). CHR ''?'' \<in> set part"
          using "1.prems"(2) by (simp add: pp ps dw)
        ultimately have "try_parts dlopen sz (drop (length part) p) name =
            Some (open_first dlopen (map (put_name name) (path_parts (drop (length part) p))))"
          using "1.IH" [OF p_def False part_def c None] by blast
        then show ?thesis by (simp add: s None pp ps dw open_first_def)
      qed (simp add: s pp ps open_first_def)
    qed
  qed
  with assms show ?thesis by (simp add: try_open_def)
qed

lemma try_open_finds_first_witness:
  "try_open (\<lambda>c. if c = ''b/snlua.so'' then Some 5 else None) (skynet_module_init '';a/?.so;;b/?.so'') ''snlua'' = Some (Some 5)"
proof -
  let ?m = "skynet_module_init '';a/?.so;;b/?.so''" and ?d = "\<lambda>c. if c = ''b/snlua.so'' then Some 5 else None"
  have p: "path_parts (m_path ?m) = [''a/?.so'', ''b/?.so'']" by (simp add: path_parts_def skynet_module_init_def)
  have "try_open ?d ?m ''snlua'' = Some (open_first ?d (map (put_name ''snlua'') (path_parts (m_path ?m))))"
    by (rule try_open_finds_first) (auto simp: p)
  then show ?thesis unfolding p by (simp add: open_first_def put_name_def)
qed

end
