(* ===== verification/Serving.thy ===== *)
theory Serving
  imports Sending
begin

text \<open>
  The share of a queue that a worker thread serves in one go, against any service that writes down what it is called with: by the
  weight of the worker, at least one message and in order, each counted, given to the callback with its type, session, source and payload,
  and its payload freed unless the callback keeps it.
\<close>

section \<open>A queue in the hands of a worker\<close>

definition in_hand :: "node \<Rightarrow> ptr \<Rightarrow> ptr skynet_message list \<Rightarrow> bool" where
  "in_hand n q ms \<longleftrightarrow> (\<exists>ps mq. gq_repr n ps \<and> q \<notin> set ps \<and> qview n q = Some mq \<and> mq_repr mq ms)"

lemma in_hand_more [simp]: "in_hand (n\<lparr>contexts := x\<rparr>) = in_hand n" "in_hand (n\<lparr>heap := y\<rparr>) = in_hand n"
    "in_hand (n\<lparr>current_handle := u\<rparr>) = in_hand n" "in_hand (n\<lparr>logger := l\<rparr>) = in_hand n"
  by (simp_all add: in_hand_def fun_eq_iff)

lemma in_hand_log [simp]: "in_hand (n\<lparr>log_lines := ls\<rparr>) = in_hand n"
  by (simp add: in_hand_def gq_repr_def qview_def fun_eq_iff)

lemma in_hand_pop:
  assumes "in_hand n q (m # ms)"
  shows "\<exists>n'. skynet_mq_pop q n = Some (Some m, n') \<and> in_hand n' q ms \<and> mq_state.more n' = mq_state.more n"
proof -
  from assms obtain ps mq where a: "gq_repr n ps" "q \<notin> set ps" "qview n q = Some mq" "mq_repr mq (m # ms)"
    by (auto simp: in_hand_def)
  from mq_pop_Cons_state [OF a(1,3,4)] a(2) show ?thesis by (fastforce simp: in_hand_def)
qed

lemma in_hand_length: "in_hand n q ms \<Longrightarrow> skynet_mq_length q n = Some (length ms)"
proof -
  assume "in_hand n q ms"
  then obtain mq where "qview n q = Some mq" "mq_repr mq ms" by (auto simp: in_hand_def)
  then obtain mq0 where "queues n q = Some mq0" "mq_repr mq0 ms" by (auto elim!: qview_SomeE)
  then show ?thesis by (simp add: skynet_mq_length_def mq_repr_length)
qed

lemma in_hand_overload:
  assumes "in_hand n q ms"
  shows "\<exists>ovl n'. skynet_mq_overload q n = Some (ovl, n') \<and> in_hand n' q ms \<and> mq_state.more n' = mq_state.more n"
proof -
  from assms obtain ps mq where a: "gq_repr n ps" "q \<notin> set ps" "qview n q = Some mq" "mq_repr mq ms"
    by (auto simp: in_hand_def)
  from a(3) obtain mq0 where q0: "queues n q = Some mq0" "mq = unlink mq0" by (rule qview_SomeE)
  have "gq_repr (n\<lparr>queues := (queues n)(q \<mapsto> mq0\<lparr>overload := 0\<rparr>)\<rparr>) ps"
    by (rule gq_repr_upd [OF a(1) q0(1)]) simp
  with a q0 have "in_hand (n\<lparr>queues := (queues n)(q \<mapsto> mq0\<lparr>overload := 0\<rparr>)\<rparr>) q ms"
    by (auto simp: in_hand_def intro!: exI [of _ ps])
  with assms q0(1) show ?thesis by (auto simp: skynet_mq_overload_def Let_def)
qed


section \<open>A service that writes down what it gets\<close>

text \<open>
  What a callback does: \<^verbatim>\<open>writes\<close> are the lines that it writes for the type, the session, the source, the payload and the size of a message, and
  \<^verbatim>\<open>keeps\<close> is its answer, whether it keeps the payload.
\<close>

record behaviour =
  writes :: "nat \<Rightarrow> int \<Rightarrow> u32 \<Rightarrow> block option \<Rightarrow> u64 \<Rightarrow> (nat \<times> string) list"
  keeps :: "nat \<Rightarrow> int \<Rightarrow> u32 \<Rightarrow> bool"

text \<open>The memory behind a message: the payload is freed unless the callback keeps it.\<close>

definition without :: "behaviour \<Rightarrow> (ptr \<Rightarrow> block option) \<Rightarrow> ptr skynet_message \<Rightarrow> (ptr \<Rightarrow> block option)" where
  "without b H m = (case msg_data m of None \<Rightarrow> H
     | Some a \<Rightarrow> if keeps b (msg_type (msg_sz m)) (msg_session m) (msg_source m) then H else H(a := None))"

text \<open>The payloads of a list of messages are allocated, and none is freed with another message.\<close>

fun owned :: "behaviour \<Rightarrow> (ptr \<Rightarrow> block option) \<Rightarrow> ptr skynet_message list \<Rightarrow> bool" where
  "owned b H [] = True"
| "owned b H (m # ms) = ((case msg_data m of None \<Rightarrow> True | Some a \<Rightarrow> H a \<noteq> None) \<and> owned b (without b H m) ms)"

definition freed :: "behaviour \<Rightarrow> (ptr \<Rightarrow> block option) \<Rightarrow> ptr skynet_message list \<Rightarrow> (ptr \<Rightarrow> block option)" where
  "freed b = foldl (without b)"

definition written_for :: "behaviour \<Rightarrow> (ptr \<Rightarrow> block option) \<Rightarrow> ptr skynet_message \<Rightarrow> (nat \<times> string) list" where
  "written_for b H m = writes b (msg_type (msg_sz m)) (msg_session m) (msg_source m) (Option.bind (msg_data m) H) (msg_size (msg_sz m))"

definition behaves :: "services \<Rightarrow> behaviour \<Rightarrow> skynet_context \<Rightarrow> bool" where
  "behaves sv b c \<longleftrightarrow> ctx_init c \<and> ctx_logfile c = None \<and>
     (\<exists>cb. ctx_cb c = Some cb \<and> (\<forall>p ty ses src d sz n. sv_call sv cb p ty ses src d sz n =
        Some (keeps b ty ses src, n\<lparr>log_lines := log_lines n @ writes b ty ses src (Option.bind d (heap n)) sz\<rparr>)))"

definition silent :: "node \<Rightarrow> bool" where
  "silent n \<longleftrightarrow> logger n = 0 \<and> skynet_handle_findname ''logger'' (storage n) = Some 0"

lemma silent_error: "silent n \<Longrightarrow> skynet_error sv p text n = Some n"
proof -
  assume s: "silent n"
  then have "n\<lparr>logger := 0\<rparr> = n" by (cases n) (simp add: silent_def)
  with s show ?thesis by (simp add: silent_def skynet_error_def)
qed

text \<open>The context after \<^verbatim>\<open>k\<close> messages: they are counted, and the time is taken when the service is profiled.\<close>

definition counted :: "nat \<Rightarrow> skynet_context \<Rightarrow> skynet_context \<Rightarrow> bool" where
  "counted k c c' \<longleftrightarrow> c' = c\<lparr>message_count := message_count c + k, cpu_start := cpu_start c', cpu_cost := cpu_cost c'\<rparr> \<and>
     (\<not> ctx_profile c \<longrightarrow> cpu_start c' = cpu_start c \<and> cpu_cost c' = cpu_cost c)"

lemma counted_refl: "counted 0 c c"
  by (simp add: counted_def)

lemma counted_trans: "counted j a b \<Longrightarrow> counted k b c \<Longrightarrow> counted (j + k) a c"
  by (cases a; cases b; cases c) (auto simp: counted_def)

lemma counted_behaves: "counted k c c' \<Longrightarrow> behaves sv b c' = behaves sv b c"
  by (cases c; cases c') (simp add: counted_def behaves_def)

definition serving :: "services \<Rightarrow> behaviour \<Rightarrow> ptr \<Rightarrow> ptr \<Rightarrow> skynet_context \<Rightarrow> ptr skynet_message list \<Rightarrow> node \<Rightarrow> bool" where
  "serving sv b p q c ms n \<longleftrightarrow> contexts n p = Some c \<and> behaves sv b c \<and> silent n \<and> in_hand n q ms"

lemma without_sub: "without b H m a \<noteq> None \<Longrightarrow> H a \<noteq> None"
  by (auto simp: without_def split: option.splits if_splits)

lemma owned_data: "owned b H ms \<Longrightarrow> x \<in> set ms \<Longrightarrow> msg_data x = Some a \<Longrightarrow> H a \<noteq> None"
proof (induction ms arbitrary: H)
  case (Cons y ys)
  show ?case
  proof (cases "x = y")
    case True
    then show ?thesis using Cons.prems by simp
  next
    case False
    then have "without b H y a \<noteq> None" using Cons.prems by (intro Cons.IH) simp_all
    then show ?thesis by (rule without_sub)
  qed
qed simp

lemma owned_not_freed: "owned b (without b H m) ms \<Longrightarrow> x \<in> set ms \<Longrightarrow> written_for b (without b H m) x = written_for b H x"
proof -
  assume "owned b (without b H m) ms" "x \<in> set ms"
  then have "msg_data x = Some a \<Longrightarrow> without b H m a \<noteq> None" for a using owned_data by blast
  then have "msg_data x = Some a \<Longrightarrow> without b H m a = H a" for a by (auto simp: without_def split: option.splits if_splits)
  then have "Option.bind (msg_data x) (without b H m) = Option.bind (msg_data x) H" by (cases "msg_data x") auto
  then show ?thesis by (simp add: written_for_def)
qed

lemma serve_one:
  assumes s: "serving sv b p q c ms n" and own: "owned b (heap n) [m]"
  shows "\<exists>sm' n' c'. serve sv p q h m sm n = Some (sm', n') \<and> serving sv b p q c' ms n' \<and> counted 1 c c' \<and> heap n' = without b (heap n) m \<and>
    log_lines n' = log_lines n @ written_for b (heap n) m"
proof -
  note S = s [unfolded serving_def]
  obtain ovl n1 where o: "skynet_mq_overload q n = Some (ovl, n1)" "in_hand n1 q ms" "mq_state.more n1 = mq_state.more n"
    using in_hand_overload S by blast
  note f = more_fields [OF o(3)]
  have sil: "silent n1" using S f(2,7) by (simp add: silent_def)
  obtain cb where cb: "ctx_cb c = Some cb" "ctx_init c" "ctx_logfile c = None"
      "\<And>p ty ses src d sz n. sv_call sv cb p ty ses src d sz n =
        Some (keeps b ty ses src, n\<lparr>log_lines := log_lines n @ writes b ty ses src (Option.bind d (heap n)) sz\<rparr>)"
    using S by (auto simp: behaves_def)
  have c1: "contexts n1 p = Some c" using S f(1) by simp
  define n2 where "n2 c' = n1\<lparr>current_handle := ctx_handle c, contexts := (contexts n1)(p \<mapsto> c'), log_lines := log_lines n @ written_for b (heap n) m\<rparr>" for c'
  define n3 where "n3 c' = (n2 c')\<lparr>heap := without b (heap n) m\<rparr>" for c'
  have H: "heap (n2 c') = heap n" for c' using f(3) by (simp add: n2_def)
  let ?keep = "keeps b (msg_type (msg_sz m)) (msg_session m) (msg_source m)"
  have fr: "(if ?keep then Some (n2 c') else skynet_free (msg_data m) (n2 c')) = Some (n3 c')" for c'
  proof (cases "msg_data m = None \<or> ?keep")
    case True
    then have "without b (heap n) m = heap n" by (auto simp: without_def split: option.splits)
    then have "n3 c' = n2 c'" by (simp add: n3_def flip: H [of c'])
    with True show ?thesis by (auto simp: skynet_free_def)
  next
    case False
    with own show ?thesis by (auto simp: skynet_free_def n3_def without_def H)
  qed
  define c1' where "c1' = c\<lparr>message_count := message_count c + 1\<rparr>"
  obtain c' where c': "counted 1 c c'" "dispatch_message sv p m n1 = Some (n3 c')"
  proof (cases "ctx_profile c")
    case False
    have "dispatch_message sv p m n1 = (if ?keep then Some (n2 c1') else skynet_free (msg_data m) (n2 c1'))"
      using c1 cb False f(3,11) by (simp add: dispatch_message_def call_service_def set_context_def n2_def c1'_def written_for_def)
    moreover have "counted 1 c c1'" by (simp add: counted_def c1'_def)
    ultimately show ?thesis using that fr by simp
  next
    case True
    define n0 where "n0 c' = n1\<lparr>current_handle := ctx_handle c, contexts := (contexts n1)(p \<mapsto> c')\<rparr>" for c'
    define t1 where "t1 = sv_thread_time sv (n0 c1')"
    define t2 where "t2 = sv_thread_time sv (n2 (c1'\<lparr>cpu_start := t1\<rparr>))"
    let ?c = "c1'\<lparr>cpu_start := t1, cpu_cost := cpu_cost c + (t2 - t1)\<rparr>"
    have swap: "n'\<lparr>log_lines := l, contexts := x\<rparr> = n'\<lparr>contexts := x, log_lines := l\<rparr>" for l x and n' :: node by simp
    have "dispatch_message sv p m n1 = (if ?keep then Some (n2 ?c) else skynet_free (msg_data m) (n2 ?c))"
      using c1 cb True f(3,11)
      by (simp add: dispatch_message_def call_service_def set_context_def Let_def t2_def t1_def n0_def n2_def c1'_def written_for_def swap)
    moreover have "counted 1 c ?c" using True by (simp add: counted_def c1'_def)
    ultimately show ?thesis using that fr by simp
  qed
  have "serve sv p q h m sm n = Some (skynet_monitor_trigger 0 0 (skynet_monitor_trigger (msg_source m) h sm), n3 c')"
    using o(1) c1 cb(1) c'(2) silent_error [OF sil] by (simp add: serve_def Let_def)
  moreover have "serving sv b p q c' ms (n3 c')"
    using o(2) sil S counted_behaves [OF c'(1)] by (simp add: serving_def n3_def n2_def silent_def)
  moreover have "heap (n3 c') = without b (heap n) m" "log_lines (n3 c') = log_lines n @ written_for b (heap n) m" by (simp_all add: n3_def n2_def)
  ultimately show ?thesis using c'(1) by blast
qed

lemma serving_pop:
  assumes "serving sv b p q c (m # ms) n"
  shows "\<exists>n'. skynet_mq_pop q n = Some (Some m, n') \<and> serving sv b p q c ms n' \<and> heap n' = heap n \<and> log_lines n' = log_lines n"
proof -
  from assms in_hand_pop [of n q m ms] obtain n' where
    n': "skynet_mq_pop q n = Some (Some m, n')" "in_hand n' q ms" "mq_state.more n' = mq_state.more n"
    by (auto simp: serving_def)
  with more_fields [OF n'(3)] assms show ?thesis by (auto simp: serving_def silent_def)
qed

definition lines :: "behaviour \<Rightarrow> (ptr \<Rightarrow> block option) \<Rightarrow> ptr skynet_message list \<Rightarrow> (nat \<times> string) list" where
  "lines b H ms = concat (map (written_for b H) ms)"

lemma lines_without: "owned b (without b H m) ms \<Longrightarrow> lines b (without b H m) (take k ms) = lines b H (take k ms)"
  unfolding lines_def using owned_not_freed [of b H m ms] by (intro arg_cong [where f = concat] map_cong) (auto dest: in_set_takeD)

lemma serve_more_served:
  "serving sv b p q c ms n \<Longrightarrow> owned b (heap n) ms \<Longrightarrow> k \<le> length ms \<Longrightarrow>
     \<exists>sm' n' c'. serve_more sv p q h k sm n = Some (False, sm', n') \<and> serving sv b p q c' (drop k ms) n' \<and> counted k c c' \<and>
       heap n' = freed b (heap n) (take k ms) \<and> log_lines n' = log_lines n @ lines b (heap n) (take k ms)"
proof (induction k arbitrary: c ms sm n)
  case 0
  then show ?case using counted_refl by (auto simp: freed_def lines_def)
next
  case (Suc k)
  then obtain m rest where ms: "ms = m # rest" by (cases ms) auto
  from serving_pop [OF Suc.prems(1) [unfolded ms]] obtain n1 where
    n1: "skynet_mq_pop q n = Some (Some m, n1)" "serving sv b p q c rest n1" "heap n1 = heap n" "log_lines n1 = log_lines n" by blast
  have "owned b (heap n1) [m]" using Suc.prems(2) n1(3) by (simp add: ms)
  from serve_one [OF n1(2) this, of h sm] obtain sm2 n2 c2 where
    n2: "serve sv p q h m sm n1 = Some (sm2, n2)" "serving sv b p q c2 rest n2" "counted 1 c c2" "heap n2 = without b (heap n) m"
      "log_lines n2 = log_lines n @ written_for b (heap n) m"
    using n1(3,4) by auto
  have own: "owned b (heap n2) rest" "k \<le> length rest" using Suc.prems(2,3) n2(4) by (simp_all add: ms)
  from Suc.IH [OF n2(2) own, of sm2] obtain sm3 n3 c3 where
    "serve_more sv p q h k sm2 n2 = Some (False, sm3, n3)" "serving sv b p q c3 (drop k rest) n3" "counted k c2 c3"
    "heap n3 = freed b (without b (heap n) m) (take k rest)" "log_lines n3 = log_lines n2 @ lines b (heap n2) (take k rest)" using n2(4) by auto
  moreover from this n2(3) have "counted (Suc k) c c3" using counted_trans [of 1 c c2 k c3] by simp
  moreover have "lines b (heap n2) (take k rest) = lines b (heap n) (take k rest)"
    using lines_without [OF own(1) [unfolded n2(4)]] n2(4) by simp
  ultimately show ?case using n1(1) n2(1,5) by (auto simp: ms freed_def lines_def)
qed

text \<open>
  (C16) With \<^verbatim>\<open>w\<close> the weight of the worker and \<^verbatim>\<open>k\<close> messages behind the first, a worker serves \<^verbatim>\<open>k >> w\<close> messages of the
  queue in one go, but at least one; with a negative weight exactly one. They are the oldest; for each the callback is called once, in
  order, with its type, session, source, payload and size (what it writes down from them is there, and nothing else), it is counted, and its
  payload is freed unless the callback keeps it; the others stay in the queue. The service has no log file and the node no logger.
\<close>

theorem worker_serves_share:
  assumes "serving sv b p q c (m # ms) n" "owned b (heap n) (m # ms)"
    and k: "k = (if 0 \<le> w then max 1 (length ms div 2 ^ nat w) else 1)"
  shows "\<exists>sm' n' c'. serve_queue sv p q h w sm n = Some (False, sm', n') \<and>
    contexts n' p = Some c' \<and> counted k c c' \<and>
    log_lines n' = log_lines n @ concat (map (written_for b (heap n)) (take k (m # ms))) \<and>
    in_hand n' q (drop k (m # ms)) \<and> heap n' = freed b (heap n) (take k (m # ms))"
proof -
  from serving_pop [OF assms(1)] obtain n1 where
    n1: "skynet_mq_pop q n = Some (Some m, n1)" "serving sv b p q c ms n1" "heap n1 = heap n" "log_lines n1 = log_lines n" by blast
  have len: "skynet_mq_length q n1 = Some (length ms)"
    using n1(2) in_hand_length by (simp add: serving_def)
  have "owned b (heap n1) [m]" using assms(2) n1(3) by simp
  from serve_one [OF n1(2) this, of h sm] obtain sm2 n2 c2 where
    n2: "serve sv p q h m sm n1 = Some (sm2, n2)" "serving sv b p q c2 ms n2" "counted 1 c c2" "heap n2 = without b (heap n) m"
      "log_lines n2 = log_lines n @ written_for b (heap n) m"
    using n1(3,4) by auto
  have k1: "(if 0 \<le> w then drop_bit (nat w) (length ms) else 1) - 1 = k - 1" and k0: "1 \<le> k"
    unfolding k by (auto simp: drop_bit_eq_div)
  have "length ms div 2 ^ nat w \<le> length ms" by simp
  then have "max 1 (length ms div 2 ^ nat w) - 1 \<le> length ms" by linarith
  then have "k - 1 \<le> length ms" unfolding k by (simp only: split: if_split) simp
  moreover have own: "owned b (heap n2) ms" using assms(2) n2(4) by simp
  ultimately obtain sm3 n3 c3 where n3: "serve_more sv p q h (k - 1) sm2 n2 = Some (False, sm3, n3)"
      "serving sv b p q c3 (drop (k - 1) ms) n3" "counted (k - 1) c2 c3" "heap n3 = freed b (without b (heap n) m) (take (k - 1) ms)"
      "log_lines n3 = log_lines n2 @ lines b (heap n2) (take (k - 1) ms)"
    using serve_more_served [OF n2(2) own, of "k - 1" h sm2] n2(4) by auto
  have "serve_queue sv p q h w sm n = Some (False, sm3, n3)"
    unfolding serve_queue_def n1(1) Option.bind.bind_lunit prod.case option.case len Let_def n2(1) k1 by (rule n3(1))
  moreover have "drop k (m # ms) = drop (k - 1) ms" "take k (m # ms) = m # take (k - 1) ms"
    using k0 by (cases k; simp)+
  moreover have "counted k c c3" using counted_trans [OF n2(3) n3(3)] k0 by simp
  moreover have "lines b (heap n2) (take (k - 1) ms) = lines b (heap n) (take (k - 1) ms)"
    using lines_without [OF own [unfolded n2(4)]] n2(4) by simp
  ultimately show ?thesis using n2(5) n3(2,4,5) by (auto simp: serving_def freed_def lines_def)
qed

lemma worker_serves_share_witness: "\<exists>n sm' n'. heap n 7 = Some (Bytes [5, 6]) \<and>
    serve_queue (undefined\<lparr>sv_call := \<lambda>_ _ _ ses _ _ _ n. Some (False, n\<lparr>log_lines := log_lines n @ [(nat ses, ''seen'')]\<rparr>)\<rparr>)
      1 2 0x01000001 1 skynet_monitor_new n = Some (False, sm', n') \<and> log_lines n' = [(8, ''seen'')] \<and>
    in_hand n' 2 [\<lparr>msg_source = 9, msg_session = 1, msg_data = None, msg_sz = 0\<rparr>] \<and> heap n' 7 = None"
proof -
  let ?sv = "undefined\<lparr>sv_call := \<lambda>_ _ _ ses _ _ _ n. Some (False, n\<lparr>log_lines := log_lines n @ [(nat ses, ''seen'')]\<rparr>)\<rparr> :: services"
  let ?b = "\<lparr>writes = \<lambda>_ ses _ _ _. [(nat ses, ''seen'')], keeps = \<lambda>_ _ _. False\<rparr>"
  let ?m0 = "\<lparr>msg_source = 9, msg_session = 8, msg_data = Some 7, msg_sz = 2\<rparr> :: ptr skynet_message"
  let ?m1 = "\<lparr>msg_source = 9, msg_session = 1, msg_data = None, msg_sz = 0\<rparr> :: ptr skynet_message"
  let ?c = "small_context\<lparr>ctx_cb := Some (3, 4)\<rparr>"
  obtain q1 where q1: "mq_repr q1 [?m0]" "mq_next q1 = None"
    using mq_enq_repr [OF new_message_queue_repr [of "0x01000001"], where m = ?m0] by (auto simp: mq_limit_def new_message_queue_def)
  obtain q2 where q2: "mq_repr q2 [?m0, ?m1]" "mq_next q2 = None"
    using mq_enq_repr [OF q1(1), where m = ?m1] q1(2) by (auto simp: mq_limit_def)
  let ?n = "small_node\<lparr>contexts := [1 \<mapsto> ?c], queues := [2 \<mapsto> q2], log_lines := []\<rparr>"
  have "gq_repr ?n []" using q2(2) by (simp add: gq_repr_def small_node_def)
  moreover have "qview ?n 2 = Some (unlink q2)" by (simp add: qview_def)
  ultimately have "in_hand ?n 2 [?m0, ?m1]" using q2(1) unfolding in_hand_def
    by (intro exI [of _ "[]"] exI [of _ "unlink q2"]) simp
  moreover have "silent ?n"
    by (simp add: silent_def small_node_def skynet_handle_init_def skynet_handle_findname_def name_search.simps)
  moreover have "behaves ?sv ?b ?c" by (simp add: behaves_def small_context_def new_context_def)
  ultimately have s: "serving ?sv ?b 1 2 ?c [?m0, ?m1] ?n" by (simp add: serving_def)
  have h: "heap ?n 7 = Some (Bytes [5, 6])" by (simp add: small_node_def)
  then have o: "owned ?b (heap ?n) [?m0, ?m1]" by (simp add: without_def)
  have w: "written_for ?b (heap ?n) ?m0 = [(8, ''seen'')]" by (simp add: written_for_def)
  from worker_serves_share [OF s o, where k = 1 and w = 1 and h = "0x01000001" and sm = skynet_monitor_new] obtain sm' n' where
    "serve_queue ?sv 1 2 0x01000001 1 skynet_monitor_new ?n = Some (False, sm', n')" "in_hand n' 2 [?m1]"
    "heap n' = freed ?b (heap ?n) [?m0]" "log_lines n' = [(8, ''seen'')]" using w by auto
  with h show ?thesis by (intro exI [of _ ?n] exI [of _ sm'] exI [of _ n']) (simp add: freed_def without_def)
qed

end
