(* ===== verification/HarborQueue.thy ===== *)
theory HarborQueue
  imports Ring Message Cstring
begin

text \<open>
  The containers of the harbor service (\<^verbatim>\<open>service-src/service_harbor.c\<close>): the ring of messages that wait for a
  connection or a name, a first-in first-out container that grows, and the hash table of global names. A payload is the
  list of its bytes; freeing it is not a step of the model.
\<close>

section \<open>Queues\<close>

definition HARBOR_QUEUE_SIZE :: nat where "HARBOR_QUEUE_SIZE = 1024"

record remote_message_header =
  hdr_source :: u32
  hdr_destination :: u32
  hdr_session :: u32

record harbor_msg =
  hm_header :: remote_message_header
  hm_buffer :: "u8 list"

record harbor_msg_queue =
  hq_size :: nat
  hq_head :: nat
  hq_tail :: nat
  hq_data :: "harbor_msg option list"

definition new_queue :: harbor_msg_queue where
  "new_queue = \<lparr>hq_size = HARBOR_QUEUE_SIZE, hq_head = 0, hq_tail = 0, hq_data = replicate HARBOR_QUEUE_SIZE None\<rparr>"

definition grow_queue :: "harbor_msg_queue \<Rightarrow> harbor_msg_queue option" where
  "grow_queue q = do {
     size2 \<leftarrow> c_nat (hq_size q * 2);
     c_assert (0 < hq_size q \<and> hq_size q \<le> length (hq_data q));
     let new_buffer = map (\<lambda>i. hq_data q ! ((i + hq_head q) mod hq_size q)) [0..<hq_size q - 1];
     Some (q\<lparr>hq_data := new_buffer @ replicate (hq_size q + 1) None, hq_head := 0, hq_tail := hq_size q - 1, hq_size := size2\<rparr>) }"

definition push_queue_msg :: "harbor_msg \<Rightarrow> harbor_msg_queue \<Rightarrow> harbor_msg_queue option" where
  "push_queue_msg m q = do {
     q \<leftarrow> (if (hq_tail q + 1) mod hq_size q = hq_head q then grow_queue q else Some q);
     data \<leftarrow> c_update (hq_data q) (hq_tail q) (Some m);
     Some (q\<lparr>hq_data := data, hq_tail := (hq_tail q + 1) mod hq_size q\<rparr>) }"

definition push_queue :: "u8 list \<Rightarrow> remote_message_header \<Rightarrow> harbor_msg_queue \<Rightarrow> harbor_msg_queue option" where
  "push_queue buffer header q = push_queue_msg \<lparr>hm_header = header, hm_buffer = buffer\<rparr> q"

definition pop_queue :: "harbor_msg_queue \<Rightarrow> (harbor_msg option \<times> harbor_msg_queue) option" where
  "pop_queue q =
     (if hq_head q = hq_tail q then Some (None, q)
      else do {
        slot \<leftarrow> c_index (hq_data q) (hq_head q);
        m \<leftarrow> slot;
        Some (Some m, q\<lparr>hq_head := (hq_head q + 1) mod hq_size q\<rparr>) })"

text \<open>The loops \<^verbatim>\<open>while ((m = pop_queue(queue)) != NULL)\<close> of the code: every message of the queue, oldest first.\<close>

definition pop_all :: "harbor_msg_queue \<Rightarrow> (harbor_msg list \<times> harbor_msg_queue) option" where
  "pop_all = drain pop_queue"

fun push_all :: "harbor_msg list \<Rightarrow> harbor_msg_queue \<Rightarrow> harbor_msg_queue option" where
  "push_all [] q = Some q"
| "push_all (m # ms) q = push_queue_msg m q \<bind> push_all ms"

section \<open>The queue is a list\<close>

definition hq_limit :: nat where "hq_limit = 2 ^ 30 - 1"

definition hq_repr :: "harbor_msg_queue \<Rightarrow> harbor_msg list \<Rightarrow> bool" where
  "hq_repr q xs \<longleftrightarrow> hq_size q = length (hq_data q) \<and> (\<exists>k \<le> 20. hq_size q = 1024 * 2 ^ k) \<and>
     ring_repr (hq_data q) (hq_head q) (hq_tail q) xs"

definition hq_room :: "harbor_msg_queue \<Rightarrow> harbor_msg \<Rightarrow> bool" where
  "hq_room q m \<longleftrightarrow> ring_len (hq_size q) (hq_head q) (hq_tail q) < hq_limit"

lemma mod_step: "i < n \<Longrightarrow> (i + 1) mod n = (if Suc i < n then Suc i else 0)" for n :: nat
  by (cases "Suc i = n") auto

lemma new_queue_repr [wf_intros]: "hq_repr new_queue []"
  by (auto simp: hq_repr_def new_queue_def HARBOR_QUEUE_SIZE_def intro: ring_repr_init exI [of _ 0])

lemma pop_queue_Nil: "hq_repr q [] \<Longrightarrow> pop_queue q = Some (None, q)"
  using ring_repr_empty_iff [of "hq_data q" "hq_head q" "hq_tail q" "[]"] by (simp add: hq_repr_def pop_queue_def)

lemma pop_queue_Cons:
  assumes "hq_repr q (x # xs)"
  shows "\<exists>q'. pop_queue q = Some (Some x, q') \<and> hq_repr q' xs"
proof -
  have r: "ring_repr (hq_data q) (hq_head q) (hq_tail q) (x # xs)" "hq_size q = length (hq_data q)"
    using assms by (simp_all add: hq_repr_def)
  have h: "hq_head q < length (hq_data q)" using ring_reprD(1) [OF r(1)] .
  have "hq_head q \<noteq> hq_tail q" using ring_repr_empty_iff [OF r(1)] by simp
  moreover have "(hq_head q + 1) mod hq_size q = (if length (hq_data q) \<le> Suc (hq_head q) then 0 else Suc (hq_head q))"
    using mod_step [OF h] r(2) by simp
  ultimately show ?thesis
    using ring_pop_repr [OF r(1)] h assms by (auto simp: pop_queue_def hq_repr_def)
qed

lemma grow_queue_repr:
  assumes "hq_repr q xs" "length xs < hq_limit" and full: "Suc (length xs) = hq_size q"
  shows "\<exists>q'. grow_queue q = Some q' \<and> hq_repr q' xs \<and> Suc (length xs) < hq_size q'"
proof -
  from assms(1) obtain k where k: "k \<le> 20" "hq_size q = 1024 * 2 ^ k"
    and r: "ring_repr (hq_data q) (hq_head q) (hq_tail q) xs" "hq_size q = length (hq_data q)" by (auto simp: hq_repr_def)
  have "(1024::nat) * 2 ^ k < 2 ^ 30" using full assms(2) k(2) by (simp add: hq_limit_def)
  then have "(2::nat) ^ k < 2 ^ 20" by simp
  then have "k < 20" by (rule power_less_imp_less_exp [rotated]) simp
  then have "(2::nat) ^ k \<le> 2 ^ 19" by (intro power_increasing) auto
  then have ok: "hq_size q * 2 \<le> INT_MAX" using k(2) by (simp add: INT_MAX_def)
  let ?new = "map (\<lambda>i. hq_data q ! ((i + hq_head q) mod hq_size q)) [0..<hq_size q - 1]"
  let ?q = "q\<lparr>hq_data := ?new @ replicate (hq_size q + 1) None, hq_head := 0, hq_tail := hq_size q - 1, hq_size := hq_size q * 2\<rparr>"
  have n: "hq_size q - 1 = length xs" using full by simp
  have "?new = ring_list (hq_data q) (hq_head q) (length xs)"
    unfolding ring_list_def n r(2) [symmetric] by (simp add: add.commute)
  also have "\<dots> = map Some xs" using r(1) unfolding ring_repr_def by blast
  finally have new: "?new = map Some xs" .
  have "ring_repr (?new @ replicate (hq_size q + 1) None) 0 (hq_size q - 1) xs"
    by (rule ring_copy_repr) (use new n in simp_all)
  then have "hq_repr ?q xs"
    using \<open>k < 20\<close> k(2) full by (auto simp: hq_repr_def intro!: exI [of _ "Suc k"])
  moreover have "grow_queue q = Some ?q" using ok full r(2) by (cases "hq_data q = []") (simp_all add: grow_queue_def)
  ultimately show ?thesis using full by auto
qed

lemma push_queue_repr:
  assumes "hq_repr q xs" "length xs < hq_limit"
  shows "\<exists>q'. push_queue_msg m q = Some q' \<and> hq_repr q' (xs @ [m])"
proof -
  have store: "\<exists>q'. (do { data \<leftarrow> c_update (hq_data q) (hq_tail q) (Some m);
      Some (q\<lparr>hq_data := data, hq_tail := (hq_tail q + 1) mod hq_size q\<rparr>) }) = Some q' \<and> hq_repr q' (xs @ [m])"
    if "hq_repr q xs" "Suc (length xs) < hq_size q" for q
  proof -
    have r: "ring_repr (hq_data q) (hq_head q) (hq_tail q) xs" "hq_size q = length (hq_data q)"
      using that(1) by (simp_all add: hq_repr_def)
    have t: "hq_tail q < length (hq_data q)" using ring_reprD(2) [OF r(1)] .
    have "Suc (length xs) < length (hq_data q)" using that(2) r(2) by simp
    from ring_store_repr [OF r(1) this, of m] mod_step [OF t] show ?thesis
      using that(1) t r(2) by (auto simp: hq_repr_def)
  qed
  have r: "ring_repr (hq_data q) (hq_head q) (hq_tail q) xs" "hq_size q = length (hq_data q)"
    using assms(1) by (simp_all add: hq_repr_def)
  note lt = ring_reprD [OF r(1)]
  show ?thesis
  proof (cases "Suc (length xs) = hq_size q")
    case True
    have "(hq_tail q + 1) mod hq_size q = hq_head q"
      using ring_store_full(1) [OF r(1)] True r(2) mod_step [OF lt(2)] by simp
    moreover from grow_queue_repr [OF assms True] obtain q1 where
      q1: "grow_queue q = Some q1" "hq_repr q1 xs" "Suc (length xs) < hq_size q1" by blast
    ultimately show ?thesis using store [OF q1(2,3)] by (simp add: push_queue_msg_def)
  next
    case False
    then have l: "Suc (length xs) < length (hq_data q)" using lt(3) r(2) by linarith
    then have "(hq_tail q + 1) mod hq_size q \<noteq> hq_head q"
      using ring_store_not_full [OF r(1) l] r(2) mod_step [OF lt(2)] by simp
    then show ?thesis using store [OF assms(1)] l r(2) by (simp add: push_queue_msg_def)
  qed
qed

interpretation hqf: bounded_fifo hq_repr hq_room push_queue_msg pop_queue hq_limit
proof unfold_locales
  fix q xs m
  assume "hq_repr q xs" "hq_room q m"
  then have "length xs < hq_limit"
    using ring_reprD(4) [of "hq_data q" "hq_head q" "hq_tail q" xs] by (simp add: hq_room_def hq_repr_def)
  with \<open>hq_repr q xs\<close> show "\<exists>q'. push_queue_msg m q = Some q' \<and> hq_repr q' (xs @ [m])" by (rule push_queue_repr)
next
  fix q
  show "hq_repr q [] \<Longrightarrow> \<exists>q'. pop_queue q = Some (None, q') \<and> hq_repr q' []" using pop_queue_Nil by blast
next
  fix q x xs
  show "hq_repr q (x # xs) \<Longrightarrow> \<exists>q'. pop_queue q = Some (Some x, q') \<and> hq_repr q' xs" by (rule pop_queue_Cons)
next
  fix q xs m
  show "hq_repr q xs \<Longrightarrow> length xs < hq_limit \<Longrightarrow> hq_room q m"
    using ring_reprD(4) [of "hq_data q" "hq_head q" "hq_tail q" xs] by (simp add: hq_room_def hq_repr_def)
qed

lemma pop_all_repr: "hq_repr q xs \<Longrightarrow> \<exists>q'. pop_all q = Some (xs, q') \<and> hq_repr q' []"
  unfolding pop_all_def by (rule hqf.drain_repr)

lemma push_all_repr: "hq_repr q xs \<Longrightarrow> length xs + length ms \<le> hq_limit \<Longrightarrow> \<exists>q'. push_all ms q = Some q' \<and> hq_repr q' (xs @ ms)"
proof (induction ms arbitrary: q xs)
  case (Cons m ms)
  then obtain q1 where "push_queue_msg m q = Some q1" "hq_repr q1 (xs @ [m])"
    using push_queue_repr [of q xs m] by auto
  with Cons.IH [of q1 "xs @ [m]"] Cons.prems(2) show ?case by simp
qed simp

section \<open>The table of names\<close>

definition HASH_SIZE :: nat where "HASH_SIZE = 4096"

text \<open>A key is an array of 16 characters; the table keeps the chains, newest first.\<close>

record keyvalue =
  kv_key :: "u8 list"
  kv_hash :: u32
  kv_value :: u32
  kv_queue :: "harbor_msg_queue option"

type_synonym hashmap = "keyvalue list list"

definition hash_new :: hashmap where "hash_new = replicate HASH_SIZE []"

text \<open>The four words of a name on a little-endian machine.\<close>

definition name_word :: "u8 list \<Rightarrow> nat \<Rightarrow> u32" where
  "name_word name i = of_nat (unat (name ! (4 * i)) + unat (name ! (4 * i + 1)) * 2 ^ 8 +
     unat (name ! (4 * i + 2)) * 2 ^ 16 + unat (name ! (4 * i + 3)) * 2 ^ 24)"

definition name_hash :: "u8 list \<Rightarrow> u32" where
  "name_hash name = name_word name 0 XOR name_word name 1 XOR name_word name 2 XOR name_word name 3"

text \<open>\<^verbatim>\<open>strncmp(a, b, 16) == 0\<close>.\<close>

definition same_name :: "u8 list \<Rightarrow> u8 list \<Rightarrow> bool" where
  "same_name a b \<longleftrightarrow> takeWhile (\<lambda>c. c \<noteq> 0) (take 16 a) = takeWhile (\<lambda>c. c \<noteq> 0) (take 16 b)"

definition hash_bucket :: "u8 list \<Rightarrow> nat" where
  "hash_bucket name = unat (name_hash name) mod HASH_SIZE"

definition kv_matches :: "u8 list \<Rightarrow> keyvalue \<Rightarrow> bool" where
  "kv_matches name kv \<longleftrightarrow> kv_hash kv = name_hash name \<and> same_name (kv_key kv) name"

definition hash_search :: "hashmap \<Rightarrow> u8 list \<Rightarrow> keyvalue option option" where
  "hash_search h name = do { c_assert (length name = 16); chain \<leftarrow> c_index h (hash_bucket name); Some (find (kv_matches name) chain) }"

definition hash_insert :: "u8 list \<Rightarrow> hashmap \<Rightarrow> (keyvalue \<times> hashmap) option" where
  "hash_insert name h = do {
     c_assert (length name = 16);
     chain \<leftarrow> c_index h (hash_bucket name);
     let node = \<lparr>kv_key = name, kv_hash = name_hash name, kv_value = 0, kv_queue = None\<rparr>;
     Some (node, h[hash_bucket name := node # chain]) }"

text \<open>Writing through the pointer to a node: the first node of the chain that matches.\<close>

fun put_node :: "u8 list \<Rightarrow> keyvalue \<Rightarrow> keyvalue list \<Rightarrow> keyvalue list" where
  "put_node name node [] = []"
| "put_node name node (kv # kvs) = (if kv_matches name kv then node # kvs else kv # put_node name node kvs)"

definition hash_store :: "u8 list \<Rightarrow> keyvalue \<Rightarrow> hashmap \<Rightarrow> hashmap" where
  "hash_store name node h = h[hash_bucket name := put_node name node (h ! hash_bucket name)]"

text \<open>\<^verbatim>\<open>hash_search\<close> and, when there is no node, \<^verbatim>\<open>hash_insert\<close>.\<close>

definition hash_node :: "u8 list \<Rightarrow> hashmap \<Rightarrow> (keyvalue \<times> hashmap) option" where
  "hash_node name h = do {
     r \<leftarrow> hash_search h name;
     case r of Some node \<Rightarrow> Some (node, h) | None \<Rightarrow> hash_insert name h }"

end
