(* ===== verification/Harbor.thy ===== *)
theory Harbor
  imports HarborQueue Handle
begin

text \<open>
  The harbor service of a node (\<^verbatim>\<open>service-src/service_harbor.c\<close>): it keeps a connection to every other node, sends out the
  messages for their handles and for global names, holding them back while a connection or a name is missing, and delivers
  what they send. Its calls are a list of actions, in order. The argument \<^verbatim>\<open>fails\<close> says for which handles
  \<^verbatim>\<open>skynet_send\<close> returns a negative number.
\<close>

section \<open>State\<close>

definition HEADER_COOKIE_LENGTH :: nat where "HEADER_COOKIE_LENGTH = 12"

definition STATUS_WAIT :: nat where "STATUS_WAIT = 0"
definition STATUS_HANDSHAKE :: nat where "STATUS_HANDSHAKE = 1"
definition STATUS_HEADER :: nat where "STATUS_HEADER = 2"
definition STATUS_CONTENT :: nat where "STATUS_CONTENT = 3"
definition STATUS_DOWN :: nat where "STATUS_DOWN = 4"

lemmas status_defs = STATUS_WAIT_def STATUS_HANDSHAKE_def STATUS_HEADER_def STATUS_CONTENT_def STATUS_DOWN_def

text \<open>A connection to another node; \<^verbatim>\<open>sl_recv\<close> is the part of the receive buffer that is filled, of \<^verbatim>\<open>sl_length\<close> bytes.\<close>

record slave =
  sl_fd :: int
  sl_queue :: "harbor_msg_queue option"
  sl_status :: nat
  sl_length :: nat
  sl_read :: nat
  sl_size :: "u8 list"
  sl_recv :: "u8 list"

record harbor =
  h_id :: int
  h_slave :: u32
  h_map :: hashmap
  h_s :: "slave list"

text \<open>\<^verbatim>\<open>skynet_send\<close> with source, destination, type and flags, session and payload (None: the null pointer).\<close>

datatype harbor_act = HSend u32 u32 nat int "u8 list option" | HSocketSend int "u8 list"
  | HSocketClose int | HSocketStart int | HError string
  | HSetCallback | HHarborStart

definition REMOTE_SLAVES :: nat where "REMOTE_SLAVES = 256"

definition zero_slave :: slave where
  "zero_slave = \<lparr>sl_fd = 0, sl_queue = None, sl_status = STATUS_WAIT, sl_length = 0, sl_read = 0,
     sl_size = replicate 4 0, sl_recv = []\<rparr>"

definition harbor_create :: harbor where
  "harbor_create = \<lparr>h_id = 0, h_slave = 0, h_map = hash_new, h_s = replicate REMOTE_SLAVES zero_slave\<rparr>"

definition set_slave :: "nat \<Rightarrow> slave \<Rightarrow> harbor \<Rightarrow> harbor" where
  "set_slave i s h = h\<lparr>h_s := (h_s h)[i := s]\<rparr>"

definition close_harbor :: "nat \<Rightarrow> harbor \<Rightarrow> (harbor_act list \<times> harbor) option" where
  "close_harbor i h = do {
     s \<leftarrow> c_index (h_s h) i;
     Some (if sl_fd s \<noteq> 0 then [HSocketClose (sl_fd s)] else [],
       set_slave i (s\<lparr>sl_status := STATUS_DOWN, sl_queue := None\<rparr>) h) }"

definition report_harbor_down :: "nat \<Rightarrow> harbor \<Rightarrow> harbor_act list" where
  "report_harbor_down i h = [HSend 0 (h_slave h) PTYPE_TEXT 0 (Some (bytes_of (''D '' @ show_int (int i))))]"

fun close_all :: "nat list \<Rightarrow> harbor \<Rightarrow> (harbor_act list \<times> harbor) option" where
  "close_all [] h = Some ([], h)"
| "close_all (i # is) h = do {
     s \<leftarrow> c_index (h_s h) i;
     (acts, h) \<leftarrow> (if sl_fd s \<noteq> 0 \<and> sl_status s \<noteq> STATUS_DOWN then close_harbor i h else Some ([], h));
     (acts', h) \<leftarrow> close_all is h;
     Some (acts @ acts', h) }"

definition harbor_release :: "harbor \<Rightarrow> (harbor_act list) option" where
  "harbor_release h = map_option fst (close_all [1..<REMOTE_SLAVES] h)"

section \<open>The wire\<close>

definition to_bigendian :: "u32 \<Rightarrow> u8 list" where
  "to_bigendian n = [ucast (drop_bit 24 n AND 0xff), ucast (drop_bit 16 n AND 0xff), ucast (drop_bit 8 n AND 0xff), ucast (n AND 0xff)]"

definition header_to_message :: "remote_message_header \<Rightarrow> u8 list" where
  "header_to_message hdr = to_bigendian (hdr_source hdr) @ to_bigendian (hdr_destination hdr) @ to_bigendian (hdr_session hdr)"

definition from_bigendian :: "u8 list \<Rightarrow> u32" where
  "from_bigendian b = push_bit 24 (ucast (b ! 0)) OR push_bit 16 (ucast (b ! 1)) OR push_bit 8 (ucast (b ! 2)) OR ucast (b ! 3)"

definition message_to_header :: "u8 list \<Rightarrow> remote_message_header" where
  "message_to_header m = \<lparr>hdr_source = from_bigendian (take 4 m), hdr_destination = from_bigendian (take 4 (drop 4 m)),
     hdr_session = from_bigendian (take 4 (drop 8 m))\<rparr>"

definition send_remote :: "int \<Rightarrow> u8 list \<Rightarrow> remote_message_header \<Rightarrow> harbor_act list" where
  "send_remote fd buffer cookie = (let sz_header = length buffer + 12 in
     if sz_header > 2 ^ 32 - 1 then
       [HError (''remote message from :'' @ pad_left CHR ''0'' 8 (show_hex (unat (hdr_source cookie))) @ '' to :'' @
          pad_left CHR ''0'' 8 (show_hex (unat (hdr_destination cookie))) @ '' is too large.'')]
     else [HSocketSend fd (to_bigendian (of_nat sz_header) @ buffer @ header_to_message cookie)])"

text \<open>\<^verbatim>\<open>forward_local_messsage\<close>: a message shorter than its cookie would be read before its start.\<close>

definition forward_local_message :: "(u32 \<Rightarrow> bool) \<Rightarrow> u8 list \<Rightarrow> harbor \<Rightarrow> harbor_act list option" where
  "forward_local_message fails msg h = do {
     c_assert (HEADER_COOKIE_LENGTH \<le> length msg);
     let hdr = message_to_header (drop (length msg - HEADER_COOKIE_LENGTH) msg);
     let type = unat (drop_bit HANDLE_REMOTE_SHIFT (hdr_destination hdr));
     let destination = (hdr_destination hdr AND HANDLE_MASK) OR push_bit HANDLE_REMOTE_SHIFT (of_int (h_id h));
     let send = HSend (hdr_source hdr) destination (type OR PTYPE_TAG_DONTCOPY) (sint (hdr_session hdr))
       (Some (take (length msg - HEADER_COOKIE_LENGTH) msg));
     Some (if fails destination then
         [send] @
         (if type \<noteq> PTYPE_ERROR then [HSend destination (hdr_source hdr) PTYPE_ERROR (sint (hdr_session hdr)) None] else []) @
         [HError (''Unknown destination :'' @ show_hex (unat destination) @ '' from :'' @ show_hex (unat (hdr_source hdr)) @
            '' type('' @ show_int (int type) @ '')'')]
       else [send]) }"

section \<open>Messages held back\<close>

text \<open>
  \<^verbatim>\<open>dispatch_name_queue\<close>, for a node with a queue. With a connection the messages are sent; without one they join the queue of
  the connection, or are delivered when the name is of this node.
\<close>

definition name_to_remote :: "int \<Rightarrow> u32 \<Rightarrow> harbor_msg \<Rightarrow> harbor_act list" where
  "name_to_remote fd handle m = send_remote fd (hm_buffer m)
     ((hm_header m)\<lparr>hdr_destination := hdr_destination (hm_header m) OR (handle AND HANDLE_MASK)\<rparr>)"

definition name_to_local :: "u32 \<Rightarrow> harbor_msg \<Rightarrow> harbor_act" where
  "name_to_local handle m = HSend (hdr_source (hm_header m)) handle
     (unat (drop_bit HANDLE_REMOTE_SHIFT (hdr_destination (hm_header m))) OR PTYPE_TAG_DONTCOPY)
     (sint (hdr_session (hm_header m))) (Some (hm_buffer m))"

definition dispatch_name_queue :: "keyvalue \<Rightarrow> harbor \<Rightarrow> (harbor_act list \<times> harbor) option" where
  "dispatch_name_queue node h = do {
     queue \<leftarrow> kv_queue node;
     let handle = kv_value node;
     let hid = unat (drop_bit HANDLE_REMOTE_SHIFT handle);
     s \<leftarrow> c_index (h_s h) hid;
     if sl_fd s = 0 then
       (if sl_status s = STATUS_DOWN then
          Some ([HError (''Drop message to '' @ c_str (string_of (kv_key node)) @ '' (in harbor '' @ show_int (int hid) @ '')'')], h)
        else do {
          sq \<leftarrow> (case sl_queue s of
              None \<Rightarrow> Some queue
            | Some sq \<Rightarrow> do { (ms, _) \<leftarrow> pop_all queue; push_all ms sq });
          if hid = unat (drop_bit HANDLE_REMOTE_SHIFT (h_slave h)) then do {
            (ms, _) \<leftarrow> pop_all sq;
            Some (map (name_to_local handle) ms, set_slave hid (s\<lparr>sl_queue := None\<rparr>) h) }
          else Some ([], set_slave hid (s\<lparr>sl_queue := Some sq\<rparr>) h) })
     else do {
       (ms, _) \<leftarrow> pop_all queue;
       Some (concat (map (name_to_remote (sl_fd s) handle) ms), h) } }"

definition slave_dispatch_queue :: "nat \<Rightarrow> harbor \<Rightarrow> (harbor_act list \<times> harbor) option" where
  "slave_dispatch_queue i h = do {
     s \<leftarrow> c_index (h_s h) i;
     c_assert (sl_fd s \<noteq> 0);
     case sl_queue s of None \<Rightarrow> Some ([], h)
     | Some queue \<Rightarrow> do {
         (ms, _) \<leftarrow> pop_all queue;
         Some (concat (map (\<lambda>m. send_remote (sl_fd s) (hm_buffer m) (hm_header m)) ms),
           set_slave i (s\<lparr>sl_queue := None\<rparr>) h) } }"

section \<open>Receiving\<close>

text \<open>
  The loop of \<^verbatim>\<open>push_socket_data\<close> for the connection \<^verbatim>\<open>i\<close> over the bytes left. The cases fall through in the
  code, which is one more round here.
\<close>

definition recv_handshake :: "nat \<Rightarrow> u8 list \<Rightarrow> slave \<Rightarrow> harbor \<Rightarrow> (harbor_act list \<times> u8 list option \<times> harbor) option" where
  "recv_handshake i buffer s h = (case buffer of
       [] \<Rightarrow> None
     | remote_id # rest \<Rightarrow>
        if unat remote_id \<noteq> i then do {
          (acts, h') \<leftarrow> close_harbor i h;
          Some (HError (''Invalid shakehand id ('' @ show_int (int i) @ '') from fd = '' @ show_int (sl_fd s) @
            '' , harbor = '' @ show_int (int (unat remote_id))) # acts, None, h') }
        else do {
          (acts, h') \<leftarrow> slave_dispatch_queue i (set_slave i (s\<lparr>sl_status := STATUS_HEADER\<rparr>) h);
          Some (acts, Some rest, h') })"

definition recv_header :: "nat \<Rightarrow> u8 list \<Rightarrow> slave \<Rightarrow> harbor \<Rightarrow> (harbor_act list \<times> u8 list option \<times> harbor) option" where
  "recv_header i buffer s h = do {
     c_assert (sl_read s \<le> 4);
     let need = 4 - sl_read s;
     if length buffer < need then
       Some ([], None, set_slave i (s\<lparr>sl_size := take (sl_read s) (sl_size s) @ buffer @ drop (sl_read s + length buffer) (sl_size s),
         sl_read := sl_read s + length buffer\<rparr>) h)
     else do {
       let sz = take (sl_read s) (sl_size s) @ take need buffer;
       let rest = drop need buffer;
       if sz ! 0 \<noteq> 0 then do {
         (acts, h') \<leftarrow> close_harbor i (set_slave i (s\<lparr>sl_size := sz\<rparr>) h);
         Some (HError (''Message is too long from harbor '' @ show_int (int i)) # acts, None, h') }
       else do {
         let s' = s\<lparr>sl_size := sz, sl_length := unat (sz ! 1) * 2 ^ 16 + unat (sz ! 2) * 2 ^ 8 + unat (sz ! 3),
           sl_read := 0, sl_recv := [], sl_status := STATUS_CONTENT\<rparr>;
         Some ([], if rest = [] then None else Some rest, set_slave i s' h) } } }"

definition recv_content :: "(u32 \<Rightarrow> bool) \<Rightarrow> nat \<Rightarrow> u8 list \<Rightarrow> slave \<Rightarrow> harbor \<Rightarrow> (harbor_act list \<times> u8 list option \<times> harbor) option" where
  "recv_content fails i buffer s h = do {
     let need = sl_length s - sl_read s;
     if length buffer < need then
       Some ([], None, set_slave i (s\<lparr>sl_recv := sl_recv s @ buffer, sl_read := sl_read s + length buffer\<rparr>) h)
     else do {
       acts \<leftarrow> forward_local_message fails (sl_recv s @ take need buffer) h;
       let s' = s\<lparr>sl_length := 0, sl_read := 0, sl_recv := [], sl_status := STATUS_HEADER\<rparr>;
       Some (acts, if drop need buffer = [] then None else Some (drop need buffer), set_slave i s' h) } }"

partial_function (option) push_loop :: "(u32 \<Rightarrow> bool) \<Rightarrow> nat \<Rightarrow> u8 list \<Rightarrow> harbor \<Rightarrow> (harbor_act list \<times> harbor) option" where
  "push_loop fails i buffer h =
     c_index (h_s h) i \<bind> (\<lambda>s.
       if sl_status s = STATUS_WAIT \<or> STATUS_DOWN \<le> sl_status s then Some ([], h)
       else (if sl_status s = STATUS_HANDSHAKE then recv_handshake i buffer s h
             else if sl_status s = STATUS_HEADER then recv_header i buffer s h
             else recv_content fails i buffer s h) \<bind> (\<lambda>(acts, rest, h).
         case rest of None \<Rightarrow> Some (acts, h)
         | Some buffer \<Rightarrow> push_loop fails i buffer h \<bind> (\<lambda>(acts', h). Some (acts @ acts', h))))"

text \<open>\<^verbatim>\<open>harbor_id\<close>, and the same search in \<^verbatim>\<open>push_socket_data\<close>: the first connection on the socket, 0 for none.\<close>

definition harbor_id :: "int \<Rightarrow> harbor \<Rightarrow> nat" where
  "harbor_id fd h = (case find (\<lambda>i. sl_fd (h_s h ! i) = fd) [1..<REMOTE_SLAVES] of None \<Rightarrow> 0 | Some i \<Rightarrow> i)"

definition push_socket_data :: "(u32 \<Rightarrow> bool) \<Rightarrow> int \<Rightarrow> u8 list \<Rightarrow> harbor \<Rightarrow> (harbor_act list \<times> harbor) option" where
  "push_socket_data fails fd data h = do {
     c_assert (length (h_s h) = REMOTE_SLAVES);
     let i = harbor_id fd h;
     if i = 0 then Some ([HError (''Invalid socket fd ('' @ show_int fd @ '') data'')], h)
     else push_loop fails i data h }"

section \<open>Sending\<close>

definition update_name :: "u8 list \<Rightarrow> u32 \<Rightarrow> harbor \<Rightarrow> (harbor_act list \<times> harbor) option" where
  "update_name name handle h = do {
     (node, mp) \<leftarrow> hash_node name (h_map h);
     let node = node\<lparr>kv_value := handle\<rparr>;
     let h = h\<lparr>h_map := hash_store name (node\<lparr>kv_queue := None\<rparr>) mp\<rparr>;
     if kv_queue node = None then Some ([], h) else dispatch_name_queue node h }"

definition wait_header :: "u32 \<Rightarrow> nat \<Rightarrow> u32 \<Rightarrow> int \<Rightarrow> remote_message_header" where
  "wait_header source type destination session = \<lparr>hdr_source = source,
     hdr_destination = push_bit HANDLE_REMOTE_SHIFT (of_nat type) OR (destination AND HANDLE_MASK), hdr_session = of_int session\<rparr>"

text \<open>The flag is the C result 1: the payload is kept or given away; otherwise \<^verbatim>\<open>mainloop\<close> frees it.\<close>

definition remote_send_handle ::
    "u32 \<Rightarrow> u32 \<Rightarrow> nat \<Rightarrow> int \<Rightarrow> u8 list \<Rightarrow> harbor \<Rightarrow> (bool \<times> harbor_act list \<times> harbor) option" where
  "remote_send_handle source destination type session msg h =
     (let hid = unat (drop_bit HANDLE_REMOTE_SHIFT destination) in
      if int hid = h_id h then Some (True, [HSend source destination (type OR PTYPE_TAG_DONTCOPY) session (Some msg)], h)
      else do {
        s \<leftarrow> c_index (h_s h) hid;
        if sl_fd s = 0 \<or> sl_status s = STATUS_HANDSHAKE then
          (if sl_status s = STATUS_DOWN then
             Some (False, [HSend destination source PTYPE_ERROR 0 None,
               HError (''Drop message to harbor '' @ show_int (int hid) @ '' from '' @ show_hex (unat source) @ '' to '' @
                 show_hex (unat destination) @ '' (session = '' @ show_int session @ '', msgsz = '' @ show_int (int (length msg)) @ '')'')], h)
           else do {
             q \<leftarrow> push_queue msg (wait_header source type destination session)
               (case sl_queue s of None \<Rightarrow> new_queue | Some q \<Rightarrow> q);
             Some (True, [], set_slave hid (s\<lparr>sl_queue := Some q\<rparr>) h) })
        else Some (False, send_remote (sl_fd s) msg (wait_header source type destination session), h) })"

text \<open>A name is an array of 16 characters; the query to the slave service gives its string.\<close>

definition remote_send_name ::
    "u32 \<Rightarrow> u8 list \<Rightarrow> nat \<Rightarrow> int \<Rightarrow> u8 list \<Rightarrow> harbor \<Rightarrow> (bool \<times> harbor_act list \<times> harbor) option" where
  "remote_send_name source name type session msg h = do {
     (node, mp) \<leftarrow> hash_node name (h_map h);
     let h = h\<lparr>h_map := mp\<rparr>;
     if kv_value node = 0 then do {
       q \<leftarrow> push_queue msg (wait_header source type 0 session) (case kv_queue node of None \<Rightarrow> new_queue | Some q \<Rightarrow> q);
       Some (True, [HSend 0 (h_slave h) PTYPE_TEXT 0 (Some (bytes_of (''Q '' @ c_str (string_of name))))],
         h\<lparr>h_map := hash_store name (node\<lparr>kv_queue := Some q\<rparr>) mp\<rparr>) }
     else remote_send_handle source (kv_value node) type session msg h }"

section \<open>Commands and the callback\<close>

definition handshake :: "nat \<Rightarrow> harbor \<Rightarrow> harbor_act list option" where
  "handshake i h = do { s \<leftarrow> c_index (h_s h) i; Some [HSocketSend (sl_fd s) [of_int (h_id h)]] }"

text \<open>\<^verbatim>\<open>sscanf(buffer, "%d %d", &fd, &id)\<close> over variables that are 0.\<close>

definition scan_pair :: "string \<Rightarrow> int \<times> int" where
  "scan_pair s = (case scan_int s of None \<Rightarrow> (0, 0)
     | Some (a, r) \<Rightarrow> (case scan_int r of None \<Rightarrow> (a, 0) | Some (b, _) \<Rightarrow> (a, b)))"

definition name_array :: "string \<Rightarrow> u8 list" where
  "name_array name = take 16 (bytes_of name @ replicate 16 0)"

definition connect_slave :: "bool \<Rightarrow> int \<Rightarrow> nat \<Rightarrow> harbor \<Rightarrow> (harbor_act list \<times> harbor) option" where
  "connect_slave active fd i h = do {
     s \<leftarrow> c_index (h_s h) i;
     if sl_fd s \<noteq> 0 then Some ([HError (''Harbor '' @ show_int (int i) @ '' alreay exist'')], h)
     else do {
       let h = set_slave i (s\<lparr>sl_fd := fd, sl_status := (if active then STATUS_HANDSHAKE else STATUS_HEADER)\<rparr>) h;
       shake \<leftarrow> handshake i h;
       (acts, h) \<leftarrow> (if active then Some ([], h) else slave_dispatch_queue i h);
       Some (HSocketStart fd # shake @ acts, h) } }"

text \<open>\<^verbatim>\<open>harbor_command\<close>. A message of fewer than two bytes makes the size of the rest negative.\<close>

definition harbor_command :: "string \<Rightarrow> u32 \<Rightarrow> harbor \<Rightarrow> (harbor_act list \<times> harbor) option" where
  "harbor_command msg source h = do {
     c_assert (2 \<le> length msg);
     let name = drop 2 msg;
     let cmd = msg ! 0;
     if cmd = CHR ''N'' then
       (if name = [] \<or> 16 \<le> length name then Some ([HError (''Invalid global name '' @ c_str name)], h)
        else update_name (name_array name) source h)
     else if cmd = CHR ''S'' \<or> cmd = CHR ''A'' then
       (let (fd, i) = scan_pair (c_str name) in
        if fd = 0 \<or> i \<le> 0 \<or> int REMOTE_SLAVES \<le> i then Some ([HError (''Invalid command '' @ [cmd] @ '' '' @ c_str name)], h)
        else connect_slave (cmd = CHR ''S'') fd (nat i) h)
     else Some ([HError (''Unknown command '' @ c_str msg)], h) }"

datatype harbor_event = EvData int "u8 list" | EvClose int | EvConnect int | EvWarning int int | EvSocketOther
  | EvCommand string | EvSendHandle u32 nat "u8 list" | EvSendName string nat "u8 list" | EvOther nat

text \<open>The callback; the socket messages for close and error are the same.\<close>

definition harbor_mainloop :: "(u32 \<Rightarrow> bool) \<Rightarrow> int \<Rightarrow> u32 \<Rightarrow> harbor_event \<Rightarrow> harbor \<Rightarrow> (harbor_act list \<times> harbor) option" where
  "harbor_mainloop fails session source ev h = (case ev of
       EvData fd data \<Rightarrow> push_socket_data fails fd data h
     | EvClose fd \<Rightarrow> (let i = harbor_id fd h in
         Some (if i \<noteq> 0 then report_harbor_down i h else [HError (''Unkown fd ('' @ show_int fd @ '') closed'')], h))
     | EvConnect fd \<Rightarrow> Some ([], h)
     | EvWarning fd kb \<Rightarrow> (let i = harbor_id fd h in
         Some (if i \<noteq> 0 then [HError (''message havn't send to Harbor ('' @ show_int (int i) @ '') reach '' @ show_int kb @ '' K'')] else [], h))
     | EvSocketOther \<Rightarrow> Some ([HError (''recv invalid socket message type '' @ show_int (int PTYPE_SOCKET))], h)
     | EvCommand msg \<Rightarrow> harbor_command msg source h
     | EvSendHandle destination type msg \<Rightarrow> map_option snd (remote_send_handle source destination type session msg h)
     | EvSendName name type msg \<Rightarrow> map_option snd (remote_send_name source (name_array name) type session msg h)
     | EvOther type \<Rightarrow> Some (HError (''recv invalid message from '' @ show_hex (unat source) @ '',  type = '' @ show_int (int type)) #
         (if session \<noteq> 0 \<and> type \<noteq> PTYPE_ERROR then [HSend 0 source PTYPE_ERROR session None] else []), h))"

definition harbor_init :: "string \<Rightarrow> harbor \<Rightarrow> nat \<times> harbor_act list \<times> harbor" where
  "harbor_init args h = (let (i, slave) = scan_pair args in
     if (of_int slave :: u32) = 0 then (1, [], h)
     else (0, [HSetCallback, HHarborStart], h\<lparr>h_id := i, h_slave := of_int slave\<rparr>))"

end
