(* ===== verification/Framing.thy ===== *)
theory Framing
  imports Prelude
begin

text \<open>
  Streams of packets with their length in front: the specification that the receivers of the harbor service and of
  \<^verbatim>\<open>lua-netpack.c\<close> are compared with. A header takes \<^verbatim>\<open>hl\<close> bytes and \<^verbatim>\<open>val\<close> reads the length from it.
\<close>

text \<open>The contents in a stream, and the bytes behind the last of them that is complete.\<close>

function frames :: "nat \<Rightarrow> ('b list \<Rightarrow> nat) \<Rightarrow> 'b list \<Rightarrow> 'b list list \<times> 'b list" where
  "frames hl val bs =
     (if hl = 0 \<or> length bs < hl \<or> length bs < hl + val bs then ([], bs)
      else (case frames hl val (drop (hl + val bs) bs) of (fs, r) \<Rightarrow> (take (val bs) (drop hl bs) # fs, r)))"
  by pat_completeness auto
termination by (relation "measure (\<lambda>(hl, val, bs). length bs)") auto

declare frames.simps [simp del]

locale framing =
  fixes hl :: nat and val :: "'b list \<Rightarrow> nat"
  assumes header_pos: "0 < hl"
    and val_append: "hl \<le> length a \<Longrightarrow> val (a @ b) = val a"
begin

lemma frames_part: "length bs < hl \<or> length bs < hl + val bs \<Longrightarrow> frames hl val bs = ([], bs)"
  by (subst frames.simps) auto

lemma frames_full:
  assumes "hl + val bs \<le> length bs"
  shows "frames hl val bs = (take (val bs) (drop hl bs) # fst (frames hl val (drop (hl + val bs) bs)),
    snd (frames hl val (drop (hl + val bs) bs)))"
  using assms header_pos by (subst frames.simps) (simp split: prod.split)

lemma stream_cases:
  obtains (part) "length bs < hl \<or> length bs < hl + val bs" | (full) "hl + val bs \<le> length bs" "length (drop (hl + val bs) bs) < length bs"
  using header_pos by (cases "hl + val bs \<le> length bs") fastforce+

lemma frames_append: "frames hl val (a @ b) =
    (fst (frames hl val a) @ fst (frames hl val (snd (frames hl val a) @ b)), snd (frames hl val (snd (frames hl val a) @ b)))"
proof (induction a rule: measure_induct_rule [of length])
  case (less a)
  show ?case
  proof (cases a rule: stream_cases)
    case part
    then show ?thesis by (simp add: frames_part)
  next
    case full
    then have "val (a @ b) = val a" by (intro val_append) simp
    with full less.IH [OF full(2)] show ?thesis by (simp add: frames_full)
  qed
qed

text \<open>What is left holds no complete packet.\<close>

lemma rest_part: "length (snd (frames hl val bs)) < hl \<or> length (snd (frames hl val bs)) < hl + val (snd (frames hl val bs))"
proof (induction bs rule: measure_induct_rule [of length])
  case (less bs)
  then show ?case
    by (cases bs rule: stream_cases) (simp_all add: frames_part frames_full)
qed

lemma frames_rest: "frames hl val (snd (frames hl val bs)) = ([], snd (frames hl val bs))"
  by (rule frames_part [OF rest_part])

lemma frames_count: "length (fst (frames hl val bs)) \<le> length bs"
proof (induction bs rule: measure_induct_rule [of length])
  case (less bs)
  show ?case
  proof (cases bs rule: stream_cases)
    case full
    with less.IH [OF full(2)] show ?thesis by (simp add: frames_full)
  qed (simp add: frames_part)
qed

text \<open>Decoding what was encoded.\<close>

lemma frames_encoded:
  assumes "\<And>m. m \<in> set ms \<Longrightarrow> length (hdr m) = hl \<and> val (hdr m) = length (body m)"
  shows "frames hl val (concat (map (\<lambda>m. hdr m @ body m) ms)) = (map body ms, [])"
  using assms
proof (induction ms)
  case Nil
  show ?case using header_pos by (simp add: frames_part)
next
  case (Cons m ms)
  let ?r = "concat (map (\<lambda>m. hdr m @ body m) ms)"
  have h: "length (hdr m) = hl" "val (hdr m) = length (body m)" using Cons.prems by simp_all
  then have v: "val (hdr m @ body m @ ?r) = length (body m)" by (simp add: val_append)
  have "frames hl val (hdr m @ body m @ ?r) = (body m # fst (frames hl val ?r), snd (frames hl val ?r))"
    using h(1) by (subst frames_full) (simp_all add: v)
  with Cons show ?case by simp
qed

end

end
