(* ===== verification/HarborWire.thy ===== *)
theory HarborWire
  imports Harbor Framing
begin

text \<open>
  Two harbors: what one writes to the connection for its messages, the other delivers, however the bytes are cut into packets.
  And what happens to the messages held back for a connection or a name, with the cases in which they go astray.
\<close>

section \<open>Numbers on the wire\<close>

lemma to_bigendian_length [simp]: "length (to_bigendian n) = 4"
  by (simp add: to_bigendian_def)

lemma byte_ucast: "(ucast (ucast (w AND 0xff :: u32) :: u8) :: u32) = w AND 0xff"
proof -
  have "(0xff :: u32) = mask 8" by (simp add: mask_eq_exp_minus_1)
  then have "w AND 0xff = take_bit 8 w" by (simp only: take_bit_eq_mask)
  then show ?thesis by (intro bit_word_eqI) (auto simp: bit_simps)
qed

lemma from_to_bigendian [simp]: "from_bigendian (to_bigendian n) = n"
proof -
  have m: "(0xff :: u32) = mask 8" by (simp add: mask_eq_exp_minus_1)
  have "from_bigendian (to_bigendian n) =
      push_bit 24 (drop_bit 24 n AND 0xff) OR push_bit 16 (drop_bit 16 n AND 0xff) OR push_bit 8 (drop_bit 8 n AND 0xff) OR (n AND 0xff)"
    by (simp only: from_bigendian_def to_bigendian_def nth_Cons_0 nth_Cons_numeral numeral_One list.size One_nat_def nth_Cons_Suc
        byte_ucast) (simp add: byte_ucast nth_Cons')
  also have "\<dots> = n"
  proof (rule bit_word_eqI)
    fix k
    assume "k < LENGTH(32)"
    consider "k < 8" | "8 \<le> k" "k < 16" | "16 \<le> k" "k < 24" | "24 \<le> k" by linarith
    then show "bit (push_bit 24 (drop_bit 24 n AND 0xff) OR push_bit 16 (drop_bit 16 n AND 0xff) OR push_bit 8 (drop_bit 8 n AND 0xff) OR
        (n AND 0xff)) k = bit n k"
      unfolding m using \<open>k < LENGTH(32)\<close> by cases (auto simp: bit_simps)
  qed
  finally show ?thesis .
qed

lemma message_header [simp]: "message_to_header (header_to_message h) = h"
  by (simp add: message_to_header_def header_to_message_def)

lemma header_to_message_length [simp]: "length (header_to_message h) = 12"
  by (simp add: header_to_message_def)

lemma three_digits: "n = 256 * x + c \<Longrightarrow> x = 256 * a + b \<Longrightarrow> a * 2 ^ 16 + b * 2 ^ 8 + c = n" for a b c x n :: nat
  by simp

lemma to_bigendian_24:
  assumes "n < 2 ^ 24"
  shows "to_bigendian (of_nat n) ! 0 = 0"
    "unat (to_bigendian (of_nat n) ! 1) * 2 ^ 16 + unat (to_bigendian (of_nat n) ! 2) * 2 ^ 8 + unat (to_bigendian (of_nat n) ! 3) = n"
proof -
  let ?w = "of_nat n :: u32"
  have m: "(0xff :: u32) = mask 8" by (simp add: mask_eq_exp_minus_1)
  have un: "unat ?w = n" using assms by (simp add: unsigned_of_nat take_bit_nat_eq_self)
  have b: "unat (ucast (drop_bit k ?w AND 0xff) :: u8) = n div 2 ^ k mod 256" for k
  proof -
    have "drop_bit k ?w AND 0xff = take_bit 8 (drop_bit k ?w)" unfolding m by (simp only: take_bit_eq_mask)
    then have "unat (ucast (drop_bit k ?w AND 0xff) :: u8) = take_bit 8 (take_bit 8 (drop_bit k (unat ?w)))"
      by (simp only: unsigned_ucast_eq unsigned_take_bit_eq unat_drop_bit_eq) simp
    also have "\<dots> = n div 2 ^ k mod 256" unfolding un by (simp add: take_bit_eq_mod drop_bit_eq_div)
    finally show ?thesis .
  qed
  have z: "n div 2 ^ 24 = 0" using assms by simp
  have "unat (to_bigendian ?w ! 0) = 0" using b [of 24] z by (simp add: to_bigendian_def)
  then show "to_bigendian ?w ! 0 = 0" by (simp add: unat_eq_0)
  have e: "unat (to_bigendian ?w ! 1) = n div 2 ^ 16 mod 256" "unat (to_bigendian ?w ! 2) = n div 2 ^ 8 mod 256"
      "unat (to_bigendian ?w ! 3) = n mod 256"
    using b [of 16] b [of 8] b [of 0] by (simp_all add: to_bigendian_def)
  have d: "n div 2 ^ 16 = n div 256 div 256" "n div 2 ^ 16 < 256"
    using assms by (simp_all add: div_mult2_eq [symmetric] less_mult_imp_div_less)
  have f: "n = 256 * (n div 256) + n mod 256" "n div 256 = 256 * (n div 256 div 256) + n div 256 mod 256" by simp_all
  have g: "n div 2 ^ 16 mod 256 = n div 256 div 256" using d(2) unfolding d(1) by simp
  have "(n div 256 div 256) * 2 ^ 16 + (n div 256 mod 256) * 2 ^ 8 + n mod 256 = n" by (rule three_digits [OF f])
  then show "unat (to_bigendian ?w ! 1) * 2 ^ 16 + unat (to_bigendian ?w ! 2) * 2 ^ 8 + unat (to_bigendian ?w ! 3) = n"
    unfolding e g by simp
qed


section \<open>The stream of a connection\<close>

text \<open>
  The specification of the receiver: the contents in a stream of packets with their length in front, and what is left. A
  stream is clean when no length has its first byte set and every content has room for the cookie.
\<close>

definition be24 :: "u8 list \<Rightarrow> nat" where
  "be24 b = unat (b ! 1) * 2 ^ 16 + unat (b ! 2) * 2 ^ 8 + unat (b ! 3)"

definition unpack :: "u8 list \<Rightarrow> u8 list list \<times> u8 list" where
  "unpack = frames 4 be24"

function clean :: "u8 list \<Rightarrow> bool" where
  "clean bs = (if length bs < 4 then True else if length bs < 4 + be24 bs then bs ! 0 = 0 \<and> 12 \<le> be24 bs
     else bs ! 0 = 0 \<and> 12 \<le> be24 bs \<and> clean (drop (4 + be24 bs) bs))"
  by pat_completeness auto
termination by (relation "measure length") auto

declare clean.simps [simp del]

lemma be24_append: "4 \<le> length a \<Longrightarrow> be24 (a @ b) = be24 a"
  by (simp add: be24_def nth_append)

interpretation hw: framing 4 be24
  by unfold_locales (simp_all add: be24_append)

lemmas unpack_append = hw.frames_append [folded unpack_def]
lemmas unpack_part = hw.frames_part [folded unpack_def]
lemmas unpack_full = hw.frames_full [folded unpack_def]

lemma clean_rest: "clean (a @ b) \<Longrightarrow> clean (snd (unpack a) @ b)"
proof (induction a rule: measure_induct_rule [of length])
  case (less a)
  show ?case
  proof (cases a rule: hw.stream_cases)
    case part
    with less.prems show ?thesis by (simp add: unpack_part)
  next
    case full
    have "clean (drop (4 + be24 a) a @ b)" using less.prems full(1) by (subst (asm) clean.simps) (simp add: be24_append)
    with less.IH [OF full(2)] show ?thesis by (simp add: unpack_full [OF full(1)])
  qed
qed

lemma clean_prefix: "clean (a @ b) \<Longrightarrow> clean a"
proof (induction a rule: clean.induct)
  case (1 a)
  consider (short) "length a < 4" | (part) "4 \<le> length a" "length a < 4 + be24 a" | (full) "4 + be24 a \<le> length a"
    by linarith
  then show ?case
  proof cases
    case short
    then show ?thesis by (subst clean.simps) simp
  next
    case part
    then have "(a @ b) ! 0 = a ! 0" by (cases a) auto
    with part "1.prems" show ?thesis
      by (subst clean.simps) (subst (asm) clean.simps, simp add: be24_append split: if_splits)
  next
    case full
    then have "(a @ b) ! 0 = a ! 0" by (cases a) auto
    moreover from full "1.prems" have "(a @ b) ! 0 = 0" "12 \<le> be24 a" "clean (drop (4 + be24 a) a @ b)"
      by (subst (asm) clean.simps, simp add: be24_append)+
    ultimately show ?thesis using full "1.IH" by (subst clean.simps) simp
  qed
qed

text \<open>What the state of a connection stands for: the bytes received of the packet that is not complete.\<close>

definition receiving :: "slave \<Rightarrow> u8 list \<Rightarrow> bool" where
  "receiving s pend \<longleftrightarrow> length (sl_size s) = 4 \<and>
     (sl_status s = STATUS_HEADER \<and> sl_read s = length pend \<and> length pend < 4 \<and> take (length pend) (sl_size s) = pend \<or>
      sl_status s = STATUS_CONTENT \<and> 4 \<le> length pend \<and> length pend < 4 + be24 pend \<and> sl_length s = be24 pend \<and>
        sl_recv s = drop 4 pend \<and> sl_read s = length pend - 4)"

text \<open>The connection with all that receiving changes set aside.\<close>

definition still :: "slave \<Rightarrow> slave" where
  "still s = s\<lparr>sl_status := 0, sl_length := 0, sl_read := 0, sl_size := [], sl_recv := []\<rparr>"

lemma set_slave_simps [simp]:
  "h_id (set_slave i s h) = h_id h" "h_slave (set_slave i s h) = h_slave h" "h_map (set_slave i s h) = h_map h"
  "length (h_s (set_slave i s h)) = length (h_s h)" "i < length (h_s h) \<Longrightarrow> h_s (set_slave i s h) ! i = s"
  "set_slave i s (set_slave i t h) = set_slave i s h"
  by (simp_all add: set_slave_def)

lemma forward_set_slave [simp]: "forward_local_message fails msg (set_slave i s h) = forward_local_message fails msg h"
  by (simp add: forward_local_message_def)


definition delivered :: "(u32 \<Rightarrow> bool) \<Rightarrow> harbor \<Rightarrow> u8 list \<Rightarrow> harbor_act list" where
  "delivered fails h content = the (forward_local_message fails content h)"

lemma forward_delivered: "12 \<le> length content \<Longrightarrow> forward_local_message fails content h = Some (delivered fails h content)"
  by (simp add: delivered_def forward_local_message_def HEADER_COOKIE_LENGTH_def Let_def)

lemma delivered_set_slave [simp]: "delivered fails (set_slave i s h) = delivered fails h"
  by (simp add: delivered_def fun_eq_iff)

lemma clean_4: "clean bs \<Longrightarrow> 4 \<le> length bs \<Longrightarrow> bs ! 0 = 0 \<and> 12 \<le> be24 bs"
  by (subst (asm) clean.simps) (auto split: if_splits)

lemma push_loop_header:
  assumes s: "s = h_s h ! i" "i < length (h_s h)" and r: "receiving s pend" "sl_status s = STATUS_HEADER" and cl: "clean (pend @ buffer)"
  shows "(\<exists>s'. recv_header i buffer s h = Some ([], None, set_slave i s' h) \<and> receiving s' (pend @ buffer) \<and> still s' = still s \<and>
        unpack (pend @ buffer) = ([], pend @ buffer)) \<or>
    (\<exists>s' rest. recv_header i buffer s h = Some ([], Some rest, set_slave i s' h) \<and> still s' = still s \<and> length rest < length buffer \<and>
        (\<exists>p4. receiving s' p4 \<and> p4 @ rest = pend @ buffer))"
proof -
  have p: "length pend < 4" "sl_read s = length pend" "take (length pend) (sl_size s) = pend" "length (sl_size s) = 4"
    using r by (auto simp: receiving_def status_defs)
  show ?thesis
  proof (cases "length buffer < 4 - length pend")
    case True
    let ?s = "s\<lparr>sl_size := pend @ buffer @ drop (length pend + length buffer) (sl_size s), sl_read := length pend + length buffer\<rparr>"
    have "recv_header i buffer s h = Some ([], None, set_slave i ?s h)"
      using True p by (simp add: recv_header_def)
    moreover have lt: "length pend + length buffer < 4" using True p(1) by linarith
    then have "receiving ?s (pend @ buffer)" using p r(2) by (simp add: receiving_def)
    moreover have "unpack (pend @ buffer) = ([], pend @ buffer)" using lt by (intro unpack_part) simp
    ultimately show ?thesis by (auto simp: still_def)
  next
    case False
    define p4 where "p4 = pend @ take (4 - length pend) buffer"
    define rest where "rest = drop (4 - length pend) buffer"
    have l4: "length p4 = 4" using False p(1) by (simp add: p4_def)
    have pr: "p4 @ rest = pend @ buffer" by (simp add: p4_def rest_def)
    have c: "p4 ! 0 = 0" "12 \<le> be24 p4"
      using clean_4 [OF clean_prefix [of p4 rest]] cl l4 by (simp_all add: pr)
    let ?s = "s\<lparr>sl_size := p4, sl_length := be24 p4, sl_read := 0, sl_recv := [], sl_status := STATUS_CONTENT\<rparr>"
    have run: "recv_header i buffer s h = Some ([], if rest = [] then None else Some rest, set_slave i ?s h)"
      unfolding recv_header_def p(2,3) Let_def p4_def [symmetric] rest_def [symmetric]
      using False p(1) c by (simp add: be24_def)
    have rc: "receiving ?s p4" using l4 c(2) by (simp add: receiving_def status_defs)
    show ?thesis
    proof (cases "rest = []")
      case True
      then have "unpack (pend @ buffer) = ([], pend @ buffer)" using c(2) l4 pr by (intro unpack_part) simp
      with True run rc pr show ?thesis by (auto simp: still_def)
    next
      case nz: False
      have "length rest < length buffer" using False p(1) by (simp add: rest_def)
      with nz run rc pr show ?thesis by (intro disjI2 exI [of _ ?s] exI [of _ rest]) (auto simp: still_def)
    qed
  qed
qed

lemma push_loop_content:
  assumes s: "s = h_s h ! i" "i < length (h_s h)" and r: "receiving s pend" "sl_status s = STATUS_CONTENT" and cl: "clean (pend @ buffer)"
  shows "(\<exists>s'. recv_content fails i buffer s h = Some ([], None, set_slave i s' h) \<and> receiving s' (pend @ buffer) \<and> still s' = still s \<and>
        unpack (pend @ buffer) = ([], pend @ buffer)) \<or>
    (\<exists>s' content rest. recv_content fails i buffer s h = Some (delivered fails h content, if rest = [] then None else Some rest, set_slave i s' h) \<and>
        still s' = still s \<and> length rest < length buffer \<and> receiving s' [] \<and> clean rest \<and>
        unpack (pend @ buffer) = (content # fst (unpack rest), snd (unpack rest)))"
proof -
  let ?n = "be24 pend"
  have p: "4 \<le> length pend" "length pend < 4 + ?n" "sl_length s = ?n" "sl_recv s = drop 4 pend" "sl_read s = length pend - 4"
      "length (sl_size s) = 4"
    using r by (auto simp: receiving_def status_defs)
  have n12: "12 \<le> ?n" using clean_4 [OF clean_prefix [OF cl] p(1)] by simp
  have b: "be24 (pend @ buffer) = ?n" by (rule be24_append [OF p(1)])
  let ?need = "?n - (length pend - 4)"
  show ?thesis
  proof (cases "length buffer < ?need")
    case True
    let ?s = "s\<lparr>sl_recv := sl_recv s @ buffer, sl_read := sl_read s + length buffer\<rparr>"
    have "recv_content fails i buffer s h = Some ([], None, set_slave i ?s h)"
      using True p by (simp add: recv_content_def Let_def)
    moreover have "receiving ?s (pend @ buffer)" using True p r(2) b by (simp add: receiving_def)
    moreover have "unpack (pend @ buffer) = ([], pend @ buffer)" using True p b by (intro unpack_part) simp
    ultimately show ?thesis by (auto simp: still_def)
  next
    case False
    define content where "content = drop 4 pend @ take ?need buffer"
    define rest where "rest = drop ?need buffer"
    have full: "4 + be24 (pend @ buffer) \<le> length (pend @ buffer)" using False p(1) b by simp
    have ct: "content = take ?n (drop 4 (pend @ buffer))" using p(1,2) by (simp add: content_def)
    have rs: "rest = drop (4 + ?n) (pend @ buffer)" using p(1,2) by (simp add: rest_def add.commute)
    have len: "length content = ?n" using full b by (simp add: ct)
    let ?s = "s\<lparr>sl_length := 0, sl_read := 0, sl_recv := [], sl_status := STATUS_HEADER\<rparr>"
    have "recv_content fails i buffer s h = Some (delivered fails h content, if rest = [] then None else Some rest, set_slave i ?s h)"
      using False p forward_delivered [of content fails h] len n12
      by (simp add: recv_content_def Let_def content_def rest_def)
    moreover have "receiving ?s []" using p(6) by (simp add: receiving_def)
    moreover have "clean rest" using cl full by (subst (asm) clean.simps) (simp add: b rs)
    moreover have "unpack (pend @ buffer) = (content # fst (unpack rest), snd (unpack rest))"
      using unpack_full [OF full] by (simp add: b ct rs)
    moreover have "length rest < length buffer" using False p(1,2) by (simp add: rest_def)
    ultimately show ?thesis by (intro disjI2 exI [of _ ?s] exI [of _ content] exI [of _ rest]) (simp add: still_def)
  qed
qed

lemma push_loop_unpack:
  assumes "i < length (h_s h)" "receiving (h_s h ! i) pend" "clean (pend @ buffer)"
  shows "\<exists>s'. push_loop fails i buffer h = Some (concat (map (delivered fails h) (fst (unpack (pend @ buffer)))), set_slave i s' h) \<and>
    receiving s' (snd (unpack (pend @ buffer))) \<and> still s' = still (h_s h ! i)"
  using assms
proof (induction "length buffer" arbitrary: buffer pend h rule: less_induct)
  case less
  define s where "s = h_s h ! i"
  have r: "receiving s pend" using less.prems(2) by (simp add: s_def)
  have st: "sl_status s = STATUS_HEADER \<or> sl_status s = STATUS_CONTENT" using r by (auto simp: receiving_def)
  have step: "push_loop fails i buffer h = (if sl_status s = STATUS_HEADER then recv_header i buffer s h else recv_content fails i buffer s h) \<bind>
      (\<lambda>(acts, rest, h). case rest of None \<Rightarrow> Some (acts, h)
         | Some buffer \<Rightarrow> push_loop fails i buffer h \<bind> (\<lambda>(acts', h). Some (acts @ acts', h)))"
    using less.prems(1) st by (subst push_loop.simps) (auto simp: s_def status_defs)
  show ?case
  proof (cases "sl_status s = STATUS_HEADER")
    case True
    from push_loop_header [OF s_def less.prems(1) r True less.prems(3)] show ?thesis
    proof (elim disjE exE conjE)
      fix s'
      assume "recv_header i buffer s h = Some ([], None, set_slave i s' h)" "receiving s' (pend @ buffer)" "still s' = still s"
        "unpack (pend @ buffer) = ([], pend @ buffer)"
      with True step show ?thesis by (auto simp: s_def)
    next
      fix s' rest p4
      assume a: "recv_header i buffer s h = Some ([], Some rest, set_slave i s' h)" "still s' = still s" "length rest < length buffer"
        "receiving s' p4" "p4 @ rest = pend @ buffer"
      have "i < length (h_s (set_slave i s' h))" "receiving (h_s (set_slave i s' h) ! i) p4" "clean (p4 @ rest)"
        using less.prems(1,3) a by simp_all
      from less.hyps [OF a(3) this] show ?thesis using True step a less.prems(1) by (auto simp: s_def)
    qed
  next
    case False
    then have C: "sl_status s = STATUS_CONTENT" using st by simp
    from push_loop_content [OF s_def less.prems(1) r C less.prems(3), of fails] show ?thesis
    proof (elim disjE exE conjE)
      fix s'
      assume "recv_content fails i buffer s h = Some ([], None, set_slave i s' h)" "receiving s' (pend @ buffer)" "still s' = still s"
        "unpack (pend @ buffer) = ([], pend @ buffer)"
      with False step show ?thesis by (auto simp: s_def)
    next
      fix s' content rest
      assume a: "recv_content fails i buffer s h = Some (delivered fails h content, if rest = [] then None else Some rest, set_slave i s' h)"
        "still s' = still s" "length rest < length buffer" "receiving s' []" "clean rest"
        "unpack (pend @ buffer) = (content # fst (unpack rest), snd (unpack rest))"
      show ?thesis
      proof (cases "rest = []")
        case True
        moreover have "unpack [] = ([], [])" by (rule unpack_part) simp
        ultimately show ?thesis using False step a by (intro exI [of _ s']) (simp add: s_def)
      next
        case nz: False
        have "i < length (h_s (set_slave i s' h))" "receiving (h_s (set_slave i s' h) ! i) []" "clean ([] @ rest)"
          using less.prems(1) a by simp_all
        from less.hyps [OF a(3) this] show ?thesis using False nz step a less.prems(1) by (auto simp: s_def)
      qed
    qed
  qed
qed


section \<open>From harbor to harbor\<close>

definition wire :: "u8 list \<Rightarrow> remote_message_header \<Rightarrow> u8 list" where
  "wire msg cookie = to_bigendian (of_nat (length msg + 12)) @ msg @ header_to_message cookie"

definition sendable :: "u8 list \<Rightarrow> bool" where
  "sendable msg \<longleftrightarrow> length msg + 12 < 2 ^ 24"

lemma send_remote_wire: "sendable msg \<Longrightarrow> send_remote fd msg cookie = [HSocketSend fd (wire msg cookie)]"
  by (simp add: send_remote_def wire_def sendable_def)

lemma wire_length:
  assumes "sendable msg"
  shows "be24 (wire msg cookie @ bs) = length msg + 12" "(wire msg cookie @ bs) ! 0 = 0" "length (wire msg cookie) = length msg + 16"
proof -
  have n: "length msg + 12 < 2 ^ 24" using assms by (simp add: sendable_def)
  note b = to_bigendian_24 [OF n]
  have nth: "k < 4 \<Longrightarrow> (wire msg cookie @ bs) ! k = to_bigendian (of_nat (length msg + 12)) ! k" for k
    by (simp add: wire_def nth_append)
  show "be24 (wire msg cookie @ bs) = length msg + 12" using b(2) nth [of 1] nth [of 2] nth [of 3] by (simp add: be24_def)
  show "(wire msg cookie @ bs) ! 0 = 0" using b(1) nth [of 0] by simp
  show "length (wire msg cookie) = length msg + 16" by (simp add: wire_def)
qed

lemma unpack_wires:
  assumes "\<And>m. m \<in> set ms \<Longrightarrow> sendable (fst m)"
  shows "unpack (concat (map (\<lambda>(msg, ck). wire msg ck) ms)) = (map (\<lambda>(msg, ck). msg @ header_to_message ck) ms, []) \<and>
    clean (concat (map (\<lambda>(msg, ck). wire msg ck) ms))"
  using assms
proof (induction ms)
  case Nil
  show ?case by (simp add: unpack_part clean.simps)
next
  case (Cons m ms)
  obtain msg ck where m: "m = (msg, ck)" by (cases m)
  let ?rest = "concat (map (\<lambda>(msg, ck). wire msg ck) ms)"
  have IH: "unpack ?rest = (map (\<lambda>(msg, ck). msg @ header_to_message ck) ms, [])" "clean ?rest" using Cons by simp_all
  have sm: "sendable msg" using Cons.prems [of m] m by simp
  note w = wire_length(1,2) [OF sm, of ck ?rest] wire_length(3) [OF sm, of ck]
  have full: "4 + be24 (wire msg ck @ ?rest) \<le> length (wire msg ck @ ?rest)" using w by simp
  have d: "drop (4 + (length msg + 12)) (wire msg ck @ ?rest) = ?rest" using w(3) by simp
  have t: "take (length msg + 12) (drop 4 (wire msg ck @ ?rest)) = msg @ header_to_message ck"
    by (simp add: wire_def)
  have "unpack (wire msg ck @ ?rest) = ((msg @ header_to_message ck) # fst (unpack ?rest), snd (unpack ?rest))"
    using unpack_full [OF full] unfolding w(1) d t .
  moreover have "clean (wire msg ck @ ?rest)"
    using full w(2) IH(2) by (subst clean.simps) (simp only: w(1) d, simp)
  ultimately show ?case using IH(1) by (simp add: m)
qed

text \<open>The destination without its harbor and the type in its place, and back.\<close>

definition harbor_of :: "u32 \<Rightarrow> nat" where
  "harbor_of handle = unat (drop_bit HANDLE_REMOTE_SHIFT handle)"

lemma header_fields:
  assumes "type < 256" "- (2 ^ 31) \<le> ses" "ses < 2 ^ 31"
  shows "unat (drop_bit HANDLE_REMOTE_SHIFT (hdr_destination (wait_header src type dest ses))) = type"
    "hdr_destination (wait_header src type dest ses) AND HANDLE_MASK = dest AND HANDLE_MASK"
    "sint (hdr_session (wait_header src type dest ses)) = ses" "hdr_source (wait_header src type dest ses) = src"
proof -
  have M: "HANDLE_MASK = mask 24" by (simp add: HANDLE_MASK_def mask_eq_exp_minus_1)
  have "take_bit 8 type = type" using assms(1) by (simp add: take_bit_nat_eq_self)
  then have t8: "bit type k \<Longrightarrow> k < 8" for k by (metis bit_take_bit_iff)
  have "drop_bit 24 (push_bit 24 (of_nat type) OR (dest AND mask 24)) = (of_nat type :: u32)"
    by (rule bit_word_eqI) (auto simp: bit_simps dest: t8)
  moreover have "unat (of_nat type :: u32) = type" using assms(1) by (simp add: unsigned_of_nat take_bit_nat_eq_self)
  ultimately show "unat (drop_bit HANDLE_REMOTE_SHIFT (hdr_destination (wait_header src type dest ses))) = type"
    by (simp add: wait_header_def M HANDLE_REMOTE_SHIFT_def)
  show "hdr_destination (wait_header src type dest ses) AND HANDLE_MASK = dest AND HANDLE_MASK"
    unfolding wait_header_def M HANDLE_REMOTE_SHIFT_def remote_message_header.simps
    by (rule bit_word_eqI) (auto simp: bit_simps)
  show "sint (hdr_session (wait_header src type dest ses)) = ses"
    using assms(2,3) by (simp add: wait_header_def signed_of_int signed_take_bit_int_eq_self)
  show "hdr_source (wait_header src type dest ses) = src" by (simp add: wait_header_def)
qed


lemma mask_24: "HANDLE_MASK = mask 24"
  by (simp add: HANDLE_MASK_def mask_eq_exp_minus_1)

lemma handle_parts: "(dest AND HANDLE_MASK) OR push_bit HANDLE_REMOTE_SHIFT (of_int (int (harbor_of dest))) = dest"
proof -
  have "(of_int (int (harbor_of dest)) :: u32) = drop_bit 24 dest" by (simp add: harbor_of_def HANDLE_REMOTE_SHIFT_def)
  moreover have "(dest AND mask 24) OR push_bit 24 (drop_bit 24 dest) = dest"
  proof (rule bit_word_eqI)
    fix k
    assume "k < LENGTH(32)"
    then show "bit ((dest AND mask 24) OR push_bit 24 (drop_bit 24 dest)) k = bit dest k"
      by (cases "k < 24") (simp_all add: bit_simps)
  qed
  ultimately show ?thesis by (simp only: mask_24 HANDLE_REMOTE_SHIFT_def)
qed

lemma delivered_message:
  assumes "h_id h = int (harbor_of dest)" "type < 256" "- (2 ^ 31) \<le> ses" "ses < 2 ^ 31"
  shows "delivered (\<lambda>_. False) h (msg @ header_to_message (wait_header src type dest ses)) =
    [HSend src dest (type OR PTYPE_TAG_DONTCOPY) ses (Some msg)]"
proof -
  note f = header_fields [OF assms(2-4), of src dest]
  show ?thesis
    unfolding delivered_def forward_local_message_def HEADER_COOKIE_LENGTH_def Let_def
    by (simp add: f assms(1) handle_parts [simplified])
qed

lemma harbor_id_still:
  assumes "i < length (h_s h)" "still s' = still (h_s h ! i)"
  shows "harbor_id fd (set_slave i s' h) = harbor_id fd h"
proof -
  have "sl_fd s' = sl_fd (h_s h ! i)" using arg_cong [OF assms(2), of sl_fd] by (simp add: still_def)
  then have "sl_fd (h_s (set_slave i s' h) ! j) = sl_fd (h_s h ! j)" for j
    using assms(1) by (cases "j = i") (simp_all add: set_slave_def)
  then show ?thesis by (simp add: harbor_id_def)
qed

lemma feed_harbor:
  assumes "length (h_s h) = REMOTE_SLAVES" "harbor_id fd h = i" "0 < i" "i < REMOTE_SLAVES"
    and "receiving (h_s h ! i) pend" "clean (pend @ concat packets)"
  shows "\<exists>s'. feed_chunks (push_socket_data fails fd) packets h =
      Some (concat (map (delivered fails h) (fst (unpack (pend @ concat packets)))), set_slave i s' h) \<and>
    receiving s' (snd (unpack (pend @ concat packets)))"
  using assms
proof (induction packets arbitrary: h pend)
  case Nil
  have "unpack pend = ([], pend)"
    using Nil.prems(5) by (intro unpack_part) (auto simp: receiving_def)
  moreover have "set_slave i (h_s h ! i) h = h" by (simp add: set_slave_def)
  ultimately show ?case using Nil.prems(5) by (intro exI [of _ "h_s h ! i"]) simp
next
  case (Cons p ps)
  have cl: "clean (pend @ p)" using Cons.prems(6) clean_prefix [of "pend @ p" "concat ps"] by simp
  have i: "i < length (h_s h)" using Cons.prems(1,4) by simp
  from push_loop_unpack [OF i Cons.prems(5) cl, of fails] obtain s1 where
    s1: "push_loop fails i p h = Some (concat (map (delivered fails h) (fst (unpack (pend @ p)))), set_slave i s1 h)"
      "receiving s1 (snd (unpack (pend @ p)))" "still s1 = still (h_s h ! i)" by blast
  have f: "push_socket_data fails fd p h = Some (concat (map (delivered fails h) (fst (unpack (pend @ p)))), set_slave i s1 h)"
    using s1(1) Cons.prems(1-3) by (simp add: push_socket_data_def)
  let ?h = "set_slave i s1 h"
  have "clean (snd (unpack (pend @ p)) @ concat ps)"
    using clean_rest [of "pend @ p" "concat ps"] Cons.prems(6) by simp
  moreover have "harbor_id fd ?h = i" using harbor_id_still [OF i s1(3)] Cons.prems(2) by simp
  ultimately obtain s2 where
    "feed_chunks (push_socket_data fails fd) ps ?h =
      Some (concat (map (delivered fails ?h) (fst (unpack (snd (unpack (pend @ p)) @ concat ps)))), set_slave i s2 ?h)"
    "receiving s2 (snd (unpack (snd (unpack (pend @ p)) @ concat ps)))"
    using Cons.IH [of ?h "snd (unpack (pend @ p))"] Cons.prems(1,3,4) i s1(2) by auto
  with f show ?case
    using unpack_append [of "pend @ p" "concat ps"] by (intro exI [of _ s2]) simp
qed

lemma remote_send_connected:
  assumes "int (harbor_of dest) \<noteq> h_id h" "harbor_of dest < length (h_s h)" "s = h_s h ! harbor_of dest"
    and "sl_fd s \<noteq> 0" "sl_status s \<noteq> STATUS_HANDSHAKE" "sendable msg"
  shows "remote_send_handle src dest type ses msg h =
    Some (False, [HSocketSend (sl_fd s) (wire msg (wait_header src type dest ses))], h)"
  using assms by (simp add: remote_send_handle_def harbor_of_def send_remote_wire)

text \<open>What a list of actions writes to sockets.\<close>

definition written :: "harbor_act list \<Rightarrow> u8 list" where
  "written acts = concat (map (\<lambda>a. case a of HSocketSend _ b \<Rightarrow> b | _ \<Rightarrow> []) acts)"

definition sent :: "harbor \<Rightarrow> u32 \<times> u32 \<times> nat \<times> int \<times> u8 list \<Rightarrow> u8 list" where
  "sent h = (\<lambda>(src, dest, type, ses, msg). case remote_send_handle src dest type ses msg h of
     None \<Rightarrow> [] | Some (_, acts, _) \<Rightarrow> written acts)"

text \<open>
  (C4) The messages that a harbor sends over a connection to the node of their destination come out of the harbor of that
  node, each once and in order, with the source, the destination, the type, the session and the bytes that went in,
  however the bytes of the connection are cut into packets.
\<close>

theorem harbor_delivers_messages:
  assumes sender: "h_id a \<noteq> int node" "node < length (h_s a)" "sl_fd (h_s a ! node) \<noteq> 0" "sl_status (h_s a ! node) \<noteq> STATUS_HANDSHAKE"
    and receiver: "h_id b = int node" "length (h_s b) = REMOTE_SLAVES" "harbor_id fd b = i" "0 < i" "i < REMOTE_SLAVES"
      "receiving (h_s b ! i) []"
    and ms: "\<forall>(src, dest, type, ses, msg) \<in> set ms. harbor_of dest = node \<and> type < 256 \<and> - (2 ^ 31) \<le> ses \<and> ses < 2 ^ 31 \<and>
      length msg + 12 < 2 ^ 24"
    and packets: "concat packets = concat (map (sent a) ms)"
  shows "\<exists>s'. feed_chunks (push_socket_data (\<lambda>_. False) fd) packets b =
      Some (map (\<lambda>(src, dest, type, ses, msg). HSend src dest (type OR PTYPE_TAG_DONTCOPY) ses (Some msg)) ms, set_slave i s' b) \<and>
    receiving s' []"
proof -
  let ?w = "map (\<lambda>(src, dest, type, ses, msg). (msg, wait_header src type dest ses)) ms"
  have m: "sendable msg \<and> sent a (src, dest, type, ses, msg) = wire msg (wait_header src type dest ses) \<and>
      delivered (\<lambda>_. False) b (msg @ header_to_message (wait_header src type dest ses)) =
        [HSend src dest (type OR PTYPE_TAG_DONTCOPY) ses (Some msg)]"
    if "(src, dest, type, ses, msg) \<in> set ms" for src dest type ses msg
  proof -
    have c: "harbor_of dest = node" "type < 256" "- (2 ^ 31) \<le> ses" "ses < 2 ^ 31" "length msg + 12 < 2 ^ 24"
      using bspec [OF ms that] by simp_all
    then have sm: "sendable msg" by (simp add: sendable_def)
    have "sent a (src, dest, type, ses, msg) = wire msg (wait_header src type dest ses)"
      using remote_send_connected [of dest a, OF _ _ refl _ _ sm] sender c(1) by (simp add: sent_def written_def)
    with sm delivered_message [of b dest type ses] receiver(1) c show ?thesis by simp
  qed
  have stream: "concat packets = concat (map (\<lambda>(msg, ck). wire msg ck) ?w)"
    unfolding packets using m by (auto simp: comp_def intro!: arg_cong [of _ _ concat] map_cong)
  have "unpack (concat packets) = (map (\<lambda>(msg, ck). msg @ header_to_message ck) ?w, []) \<and> clean (concat packets)"
    unfolding stream by (rule unpack_wires) (use m in auto)
  then have u: "unpack (concat packets) = (map (\<lambda>(msg, ck). msg @ header_to_message ck) ?w, [])" "clean (concat packets)"
    by blast+
  have "\<forall>x \<in> set ms. delivered (\<lambda>_. False) b ((\<lambda>(msg, ck). msg @ header_to_message ck)
      ((\<lambda>(src, dest, type, ses, msg). (msg, wait_header src type dest ses)) x)) =
      [(\<lambda>(src, dest, type, ses, msg). HSend src dest (type OR PTYPE_TAG_DONTCOPY) ses (Some msg)) x]"
    using m by auto
  then have d: "concat (map (delivered (\<lambda>_. False) b) (map (\<lambda>(msg, ck). msg @ header_to_message ck) ?w)) =
      map (\<lambda>(src, dest, type, ses, msg). HSend src dest (type OR PTYPE_TAG_DONTCOPY) ses (Some msg)) ms"
    by (induction ms) simp_all
  from feed_harbor [OF receiver(2-6), of packets "\<lambda>_. False"] u show ?thesis unfolding d [symmetric] by simp
qed


definition demo_harbor :: "int \<Rightarrow> nat \<Rightarrow> harbor" where
  "demo_harbor own peer = harbor_create\<lparr>h_id := own, h_slave := 0x01000002,
     h_s := (replicate REMOTE_SLAVES zero_slave)[peer := zero_slave\<lparr>sl_fd := 5, sl_status := STATUS_HEADER\<rparr>]\<rparr>"

lemma harbor_delivers_messages_witness:
  "\<exists>s'. feed_chunks (push_socket_data (\<lambda>_. False) 5)
      [take 3 (sent (demo_harbor 1 2) (0x01000007, 0x02000009, 1, -4, [7, 8])), [],
       drop 3 (sent (demo_harbor 1 2) (0x01000007, 0x02000009, 1, -4, [7, 8]))] (demo_harbor 2 1) =
    Some ([HSend 0x01000007 0x02000009 (1 OR PTYPE_TAG_DONTCOPY) (-4) (Some [7, 8])], set_slave 1 s' (demo_harbor 2 1)) \<and> receiving s' []"
proof -
  let ?a = "demo_harbor 1 2" and ?b = "demo_harbor 2 1"
  have a: "h_id ?a \<noteq> int 2" "2 < length (h_s ?a)" "sl_fd (h_s ?a ! 2) \<noteq> 0" "sl_status (h_s ?a ! 2) \<noteq> STATUS_HANDSHAKE"
    by (simp_all add: demo_harbor_def REMOTE_SLAVES_def status_defs)
  have u: "[1..<REMOTE_SLAVES] = 1 # [Suc 1..<REMOTE_SLAVES]" by (rule upt_conv_Cons) (simp add: REMOTE_SLAVES_def)
  have "sl_fd (h_s ?b ! 1) = 5" by (simp add: demo_harbor_def REMOTE_SLAVES_def)
  then have i: "harbor_id 5 ?b = 1" unfolding harbor_id_def u by simp
  have b: "h_id ?b = int 2" "length (h_s ?b) = REMOTE_SLAVES" "0 < (1::nat)" "1 < REMOTE_SLAVES" "receiving (h_s ?b ! 1) []"
    by (simp_all add: demo_harbor_def REMOTE_SLAVES_def receiving_def zero_slave_def)
  have "\<forall>(src, dest, type, ses, msg) \<in> set [(0x01000007, 0x02000009, 1, -4, [7, 8])]. harbor_of dest = 2 \<and> type < (256::nat) \<and>
      - (2 ^ 31) \<le> ses \<and> ses < (2 ^ 31 :: int) \<and> length (msg :: u8 list) + 12 < 2 ^ 24"
    by (simp add: harbor_of_def HANDLE_REMOTE_SHIFT_def)
  note d = harbor_delivers_messages [OF a b(1,2) i b(3-5) this]
  have "concat [take 3 xs, [], drop 3 xs] = concat (map f [x])" if "xs = f x" for xs :: "u8 list" and f and x :: "u32 \<times> u32 \<times> nat \<times> int \<times> u8 list"
    using that by simp
  then have p: "concat [take 3 (sent ?a (0x01000007, 0x02000009, 1, -4, [7, 8])), [], drop 3 (sent ?a (0x01000007, 0x02000009, 1, -4, [7, 8]))] = concat (map (sent ?a) [(0x01000007, 0x02000009, 1, -4, [7, 8])])" by blast
  from d [OF p] show ?thesis by (simp only: list.map prod.case)
qed

section \<open>Messages held back\<close>

fun send_many :: "(u32 \<times> u32 \<times> nat \<times> int \<times> u8 list) list \<Rightarrow> harbor \<Rightarrow> (harbor_act list \<times> harbor) option" where
  "send_many [] h = Some ([], h)"
| "send_many ((src, dest, type, ses, msg) # ms) h = do {
     (_, acts, h) \<leftarrow> remote_send_handle src dest type ses msg h;
     (acts', h) \<leftarrow> send_many ms h;
     Some (acts @ acts', h) }"

definition waiting_msg :: "u32 \<times> u32 \<times> nat \<times> int \<times> u8 list \<Rightarrow> harbor_msg" where
  "waiting_msg = (\<lambda>(src, dest, type, ses, msg). \<lparr>hm_header = wait_header src type dest ses, hm_buffer = msg\<rparr>)"

definition holds :: "nat \<Rightarrow> harbor \<Rightarrow> harbor_msg list \<Rightarrow> bool" where
  "holds i h xs \<longleftrightarrow> i < length (h_s h) \<and> sl_fd (h_s h ! i) = 0 \<and> sl_status (h_s h ! i) \<noteq> STATUS_DOWN \<and>
     (case sl_queue (h_s h ! i) of None \<Rightarrow> xs = [] | Some q \<Rightarrow> hq_repr q xs)"

lemma send_held:
  assumes "holds i h xs" "length xs < hq_limit" "harbor_of dest = i" "h_id h \<noteq> int i"
  shows "\<exists>h'. remote_send_handle src dest type ses msg h = Some (True, [], h') \<and> holds i h' (xs @ [waiting_msg (src, dest, type, ses, msg)]) \<and>
    h_id h' = h_id h"
proof -
  let ?s = "h_s h ! i" and ?m = "waiting_msg (src, dest, type, ses, msg)"
  let ?q = "case sl_queue ?s of None \<Rightarrow> new_queue | Some q \<Rightarrow> q"
  have a: "i < length (h_s h)" "sl_fd ?s = 0" "sl_status ?s \<noteq> STATUS_DOWN" "hq_repr ?q xs"
    using assms(1) by (auto simp: holds_def new_queue_repr split: option.splits)
  from push_queue_repr [OF a(4) assms(2), of ?m] obtain q' where q': "push_queue_msg ?m ?q = Some q'" "hq_repr q' (xs @ [?m])" by blast
  let ?h = "set_slave i (?s\<lparr>sl_queue := Some q'\<rparr>) h"
  have "remote_send_handle src dest type ses msg h = Some (True, [], ?h)"
    using a assms(3,4) q'(1) by (simp add: remote_send_handle_def harbor_of_def push_queue_def waiting_msg_def Let_def)
  moreover have "holds i ?h (xs @ [?m])" using a q'(2) by (simp add: holds_def)
  ultimately show ?thesis by auto
qed

lemma send_many_held:
  "holds i h xs \<Longrightarrow> length xs + length ms \<le> hq_limit \<Longrightarrow> (\<And>m. m \<in> set ms \<Longrightarrow> harbor_of (fst (snd m)) = i) \<Longrightarrow> h_id h \<noteq> int i \<Longrightarrow>
     \<exists>h'. send_many ms h = Some ([], h') \<and> holds i h' (xs @ map waiting_msg ms) \<and> h_id h' = h_id h"
proof (induction ms arbitrary: h xs)
  case (Cons m ms)
  obtain src dest type ses msg where m: "m = (src, dest, type, ses, msg)" by (cases m)
  have "harbor_of dest = i" using Cons.prems(3) [of m] m by simp
  moreover have "length xs < hq_limit" using Cons.prems(2) by simp
  ultimately obtain h1 where h1: "remote_send_handle src dest type ses msg h = Some (True, [], h1)" "holds i h1 (xs @ [waiting_msg m])"
      "h_id h1 = h_id h" using send_held [OF Cons.prems(1) _ _ Cons.prems(4)] m by blast
  with Cons.IH [OF h1(2)] Cons.prems(2-4) show ?case by (auto simp: m)
qed simp

text \<open>Accepting a connection sends what was held back.\<close>

lemma accept_sends_held:
  assumes "holds i h xs" "\<And>m. m \<in> set xs \<Longrightarrow> sendable (hm_buffer m)" "fd \<noteq> 0"
  shows "\<exists>h'. connect_slave False fd i h = Some ([HSocketStart fd, HSocketSend fd [of_int (h_id h)]] @
      map (\<lambda>m. HSocketSend fd (wire (hm_buffer m) (hm_header m))) xs, h') \<and> sl_queue (h_s h' ! i) = None \<and> sl_fd (h_s h' ! i) = fd"
proof -
  let ?s = "h_s h ! i"
  have a: "i < length (h_s h)" "sl_fd ?s = 0" using assms(1) by (simp_all add: holds_def)
  have sr: "concat (map (\<lambda>m. send_remote fd (hm_buffer m) (hm_header m)) xs) = map (\<lambda>m. HSocketSend fd (wire (hm_buffer m) (hm_header m))) xs"
    using assms(2) by (induction xs) (simp_all add: send_remote_wire)
  show ?thesis
  proof (cases "sl_queue ?s")
    case None
    with assms(1) have "xs = []" by (simp add: holds_def)
    with None a assms(3) show ?thesis
      by (simp add: connect_slave_def handshake_def slave_dispatch_queue_def)
  next
    case (Some q)
    with assms(1) have "hq_repr q xs" by (simp add: holds_def)
    from pop_all_repr [OF this] obtain q' where "pop_all q = Some (xs, q')" by blast
    with Some a assms(3) sr show ?thesis
      by (simp add: connect_slave_def handshake_def slave_dispatch_queue_def)
  qed
qed

text \<open>
  (C18) What is sent to a node before its connection exists is kept, and when the connection is accepted it is written to
  it in the order in which it was sent, behind the own number, and no longer kept.
\<close>

theorem harbor_holds_back_in_order:
  assumes "h_id h \<noteq> int i" "i < length (h_s h)" "h_s h ! i = zero_slave" "length ms \<le> hq_limit" "fd \<noteq> 0"
    and "\<forall>(src, dest, type, ses, msg) \<in> set ms. harbor_of dest = i \<and> length msg + 12 < 2 ^ 24"
  shows "\<exists>h' h''. send_many ms h = Some ([], h') \<and>
    connect_slave False fd i h' = Some ([HSocketStart fd, HSocketSend fd [of_int (h_id h)]] @
      map (\<lambda>(src, dest, type, ses, msg). HSocketSend fd (wire msg (wait_header src type dest ses))) ms, h'') \<and>
    sl_queue (h_s h'' ! i) = None"
proof -
  have "holds i h []" using assms(2,3) by (simp add: holds_def zero_slave_def status_defs)
  moreover have "\<And>m. m \<in> set ms \<Longrightarrow> harbor_of (fst (snd m)) = i" using assms(6) by auto
  ultimately obtain h' where h': "send_many ms h = Some ([], h')" "holds i h' (map waiting_msg ms)" "h_id h' = h_id h"
    using send_many_held [of i h "[]" ms] assms(1,4) by auto
  have "\<And>m. m \<in> set (map waiting_msg ms) \<Longrightarrow> sendable (hm_buffer m)"
    using assms(6) by (auto simp: waiting_msg_def sendable_def)
  from accept_sends_held [OF h'(2) this assms(5)] h'(1,3) show ?thesis
    by (auto simp: comp_def waiting_msg_def case_prod_beta)
qed

lemma harbor_holds_back_in_order_witness: "\<exists>h' h''.
    send_many [(7, 0x02000009, 1, 3, [1]), (8, 0x0200000A, 1, 4, [])] (harbor_create\<lparr>h_id := 1\<rparr>) = Some ([], h') \<and>
    connect_slave False 5 2 h' = Some ([HSocketStart 5, HSocketSend 5 [1], HSocketSend 5 (wire [1] (wait_header 7 1 0x02000009 3)),
      HSocketSend 5 (wire [] (wait_header 8 1 0x0200000A 4))], h'')"
  using harbor_holds_back_in_order [of "harbor_create\<lparr>h_id := 1\<rparr>" 2 "[(7, 0x02000009, 1, 3, [1]), (8, 0x0200000A, 1, 4, [])]" 5]
  by (fastforce simp: harbor_create_def REMOTE_SLAVES_def hq_limit_def harbor_of_def HANDLE_REMOTE_SHIFT_def)

text \<open>
  (C40) When a global name becomes known whose node is not connected yet, the messages that waited for the name are put into
  the queue of the node without the handle: they are later written with destination 0 on that node.
\<close>

theorem harbor_name_queue_loses_handle:
  assumes "kv_queue nd = Some q" "hq_repr q (map (\<lambda>(src, type, ses, msg). waiting_msg (src, 0, type, ses, msg)) ms)"
    and i: "harbor_of (kv_value nd) = i" "i < length (h_s h)" "h_s h ! i = zero_slave" "i \<noteq> harbor_of (h_slave h)" "fd \<noteq> 0"
    and ms: "\<forall>(src, type, ses, msg) \<in> set ms. type < 256 \<and> - (2 ^ 31) \<le> ses \<and> ses < (2 ^ 31 :: int) \<and> length msg + 12 < 2 ^ 24"
  shows "\<exists>h' h''. dispatch_name_queue nd h = Some ([], h') \<and>
    connect_slave False fd i h' = Some ([HSocketStart fd, HSocketSend fd [of_int (h_id h)]] @
      map (\<lambda>(src, type, ses, msg). HSocketSend fd (wire msg (wait_header src type 0 ses))) ms, h'') \<and>
    (\<forall>(src, type, ses, msg) \<in> set ms. hdr_destination (wait_header src type 0 ses) AND HANDLE_MASK = 0)"
proof -
  let ?xs = "map (\<lambda>(src, type, ses, msg). waiting_msg (src, 0, type, ses, msg)) ms"
  let ?h = "set_slave i (zero_slave\<lparr>sl_queue := Some q\<rparr>) h"
  have d: "dispatch_name_queue nd h = Some ([], ?h)"
    using assms(1) i by (simp add: dispatch_name_queue_def harbor_of_def Let_def zero_slave_def status_defs)
  have hl: "holds i ?h ?xs" using i assms(2) by (simp add: holds_def zero_slave_def status_defs)
  have "\<And>m. m \<in> set ?xs \<Longrightarrow> sendable (hm_buffer m)" using ms by (auto simp: waiting_msg_def sendable_def)
  from accept_sends_held [OF hl this i(5)] obtain h'' where
    "connect_slave False fd i ?h = Some ([HSocketStart fd, HSocketSend fd [of_int (h_id ?h)]] @
      map (\<lambda>m. HSocketSend fd (wire (hm_buffer m) (hm_header m))) ?xs, h'')" by blast
  moreover have "map (\<lambda>m. HSocketSend fd (wire (hm_buffer m) (hm_header m))) ?xs =
      map (\<lambda>(src, type, ses, msg). HSocketSend fd (wire msg (wait_header src type 0 ses))) ms"
    by (simp add: comp_def waiting_msg_def case_prod_beta)
  moreover have "\<forall>(src, type, ses, msg) \<in> set ms. hdr_destination (wait_header src type 0 ses) AND HANDLE_MASK = 0"
    using ms header_fields(2) [where dest = 0] by fastforce
  ultimately show ?thesis using d by auto
qed

lemma harbor_name_queue_loses_handle_witness: "\<exists>nd h' h''. kv_value nd = 0x02000009 \<and>
    dispatch_name_queue nd (harbor_create\<lparr>h_id := 1, h_slave := 0x01000002\<rparr>) = Some ([], h') \<and>
    connect_slave False 5 2 h' = Some ([HSocketStart 5, HSocketSend 5 [1], HSocketSend 5 (wire [6] (wait_header 7 1 0 3))], h'') \<and>
    hdr_destination (wait_header 7 1 0 3) AND HANDLE_MASK = 0"
proof -
  let ?h = "harbor_create\<lparr>h_id := 1, h_slave := 0x01000002\<rparr>" and ?m = "waiting_msg (7, 0, 1, 3, [6])"
  obtain q where q: "hq_repr q [?m]" using push_queue_repr [OF new_queue_repr, of ?m] by (auto simp: hq_limit_def)
  let ?nd = "\<lparr>kv_key = name_array ''x'', kv_hash = 0, kv_value = 0x02000009, kv_queue = Some q\<rparr>"
  have "hq_repr q (map (\<lambda>(src, type, ses, msg). waiting_msg (src, 0, type, ses, msg)) [(7, 1, 3, [6])])" using q by simp
  from harbor_name_queue_loses_handle [of ?nd q, OF _ this, of 2 ?h 5]
  obtain h' h'' where "dispatch_name_queue ?nd ?h = Some ([], h') \<and>
    connect_slave False 5 2 h' = Some ([HSocketStart 5, HSocketSend 5 [1], HSocketSend 5 (wire [6] (wait_header 7 1 0 3))], h'') \<and>
    hdr_destination (wait_header 7 1 0 3) AND HANDLE_MASK = 0"
    by (auto simp: harbor_create_def REMOTE_SLAVES_def harbor_of_def HANDLE_REMOTE_SHIFT_def)
  moreover have "kv_value ?nd = 0x02000009" by simp
  ultimately show ?thesis by blast
qed

text \<open>
  A connection that was closed keeps its socket: messages to its node are still written to the closed socket, nobody is
  told, and a new connection to the node is refused.
\<close>

theorem harbor_down_goes_unnoticed:
  assumes "i < length (h_s h)" "sl_fd (h_s h ! i) = fd" "fd \<noteq> 0" "h_id h \<noteq> int i" "harbor_of dest = i" "length msg + 12 < 2 ^ 24"
  shows "\<exists>h'. close_harbor i h = Some ([HSocketClose fd], h') \<and>
    remote_send_handle src dest type ses msg h' = Some (False, [HSocketSend fd (wire msg (wait_header src type dest ses))], h') \<and>
    (\<exists>text. connect_slave active fd' i h' = Some ([HError text], h'))"
proof -
  let ?h = "set_slave i ((h_s h ! i)\<lparr>sl_status := STATUS_DOWN, sl_queue := None\<rparr>) h"
  have "close_harbor i h = Some ([HSocketClose fd], ?h)" using assms(1-3) by (simp add: close_harbor_def)
  moreover have "remote_send_handle src dest type ses msg ?h = Some (False, [HSocketSend fd (wire msg (wait_header src type dest ses))], ?h)"
    using remote_send_connected [of dest ?h, OF _ _ refl, of msg] assms by (simp add: sendable_def status_defs)
  moreover have "\<exists>text. connect_slave active fd' i ?h = Some ([HError text], ?h)"
    using assms(1-3) by (simp add: connect_slave_def)
  ultimately show ?thesis by blast
qed

lemma harbor_down_goes_unnoticed_witness: "\<exists>h'. close_harbor 2 (demo_harbor 1 2) = Some ([HSocketClose 5], h') \<and>
    remote_send_handle 7 0x02000009 1 3 [6] h' = Some (False, [HSocketSend 5 (wire [6] (wait_header 7 1 0x02000009 3))], h')"
  using harbor_down_goes_unnoticed [where i = 2 and h = "demo_harbor 1 2" and fd = 5 and dest = "0x02000009" and msg = "[6]" and src = 7
      and type = 1 and ses = 3]
  by (auto simp: demo_harbor_def REMOTE_SLAVES_def harbor_of_def HANDLE_REMOTE_SHIFT_def)

end
