(* ===== verification/Netpack.thy ===== *)
theory Netpack
  imports Ring Framing Cstring
begin

text \<open>
  The packets of the Lua gate (\<^verbatim>\<open>lualib-src/lua-netpack.c\<close>): 2 bytes of length, the first the high one, and that many
  bytes. The userdata that the Lua code passes around is an argument of the operations, None for nil; what an operation
  pushes for Lua is its result. A buffer is the list of the bytes written to it.
\<close>

section \<open>State\<close>

definition QUEUESIZE :: nat where "QUEUESIZE = 1024"
definition NP_HASHSIZE :: nat where "NP_HASHSIZE = 4096"

record netpack =
  np_id :: int
  np_size :: nat
  np_buffer :: "u8 list"

text \<open>A packet whose bytes have not all come; \<^verbatim>\<open>uc_read\<close> is -1 while only the first byte of the length is known.\<close>

record uncomplete =
  uc_pack :: netpack
  uc_read :: int
  uc_header :: u8

record np_queue =
  np_cap :: nat
  np_head :: nat
  np_tail :: nat
  np_hash :: "uncomplete list list"
  np_queue :: "netpack option list"

definition zero_pack :: "int \<Rightarrow> netpack" where
  "zero_pack fd = \<lparr>np_id = fd, np_size = 0, np_buffer = []\<rparr>"

section \<open>Packets that are not complete\<close>

definition c_sint :: "int \<Rightarrow> int option" where
  "c_sint v = (if - (2 ^ 31) \<le> v \<and> v < 2 ^ 31 then Some v else None)"

definition hash_fd :: "int \<Rightarrow> nat option" where
  "hash_fd fd = do {
     ab \<leftarrow> c_sint (drop_bit 24 fd + drop_bit 12 fd);
     abc \<leftarrow> c_sint (ab + fd);
     Some (unat (of_int abc :: u32) mod NP_HASHSIZE) }"

text \<open>Unlinking the first entry of a chain with the id.\<close>

fun unlink_uncomplete :: "int \<Rightarrow> uncomplete list \<Rightarrow> uncomplete option \<times> uncomplete list" where
  "unlink_uncomplete fd [] = (None, [])"
| "unlink_uncomplete fd (uc # ucs) =
     (if np_id (uc_pack uc) = fd then (Some uc, ucs)
      else (case unlink_uncomplete fd ucs of (r, rest) \<Rightarrow> (r, uc # rest)))"

definition find_uncomplete :: "int \<Rightarrow> np_queue option \<Rightarrow> (uncomplete option \<times> np_queue option) option" where
  "find_uncomplete fd st = (case st of
       None \<Rightarrow> Some (None, None)
     | Some q \<Rightarrow> do {
         h \<leftarrow> hash_fd fd;
         chain \<leftarrow> c_index (np_hash q) h;
         let (r, chain') = unlink_uncomplete fd chain;
         Some (r, Some (q\<lparr>np_hash := (np_hash q)[h := chain']\<rparr>)) })"

definition new_np_queue :: np_queue where
  "new_np_queue = \<lparr>np_cap = QUEUESIZE, np_head = 0, np_tail = 0, np_hash = replicate NP_HASHSIZE [],
     np_queue = replicate QUEUESIZE None\<rparr>"

definition get_queue :: "np_queue option \<Rightarrow> np_queue" where
  "get_queue st = (case st of None \<Rightarrow> new_np_queue | Some q \<Rightarrow> q)"

text \<open>Putting an entry in front of its chain, as \<^verbatim>\<open>save_uncomplete\<close> and the code behind a partial read do.\<close>

definition link_uncomplete :: "int \<Rightarrow> uncomplete \<Rightarrow> np_queue \<Rightarrow> np_queue option" where
  "link_uncomplete fd uc q = do {
     h \<leftarrow> hash_fd fd;
     chain \<leftarrow> c_index (np_hash q) h;
     Some (q\<lparr>np_hash := (np_hash q)[h := uc # chain]\<rparr>) }"

text \<open>\<^verbatim>\<open>save_uncomplete\<close> with the fields that the caller then writes.\<close>

definition save_uncomplete :: "int \<Rightarrow> (uncomplete \<Rightarrow> uncomplete) \<Rightarrow> np_queue option \<Rightarrow> np_queue option" where
  "save_uncomplete fd fill st =
     link_uncomplete fd (fill \<lparr>uc_pack = zero_pack fd, uc_read = 0, uc_header = 0\<rparr>) (get_queue st)"

definition save_header :: "int \<Rightarrow> u8 \<Rightarrow> np_queue option \<Rightarrow> np_queue option" where
  "save_header fd byte = save_uncomplete fd (\<lambda>uc. uc\<lparr>uc_read := -1, uc_header := byte\<rparr>)"

definition save_partial :: "int \<Rightarrow> nat \<Rightarrow> u8 list \<Rightarrow> np_queue option \<Rightarrow> np_queue option" where
  "save_partial fd pack_size buffer =
     save_uncomplete fd (\<lambda>uc. uc\<lparr>uc_read := int (length buffer),
       uc_pack := (uc_pack uc)\<lparr>np_size := pack_size, np_buffer := buffer\<rparr>\<rparr>)"

section \<open>The queue of complete packets\<close>

definition np_expand_queue :: "np_queue \<Rightarrow> np_queue option" where
  "np_expand_queue q = do {
     cap \<leftarrow> c_nat (np_cap q + QUEUESIZE);
     c_assert (0 < np_cap q \<and> np_cap q \<le> length (np_queue q));
     Some \<lparr>np_cap = cap, np_head = 0, np_tail = np_cap q, np_hash = np_hash q,
       np_queue = map (\<lambda>i. np_queue q ! ((np_head q + i) mod np_cap q)) [0..<np_cap q] @ replicate QUEUESIZE None\<rparr> }"

definition push_data :: "int \<Rightarrow> u8 list \<Rightarrow> np_queue option \<Rightarrow> np_queue option" where
  "push_data fd buffer st = do {
     let q = get_queue st;
     slots \<leftarrow> c_update (np_queue q) (np_tail q) (Some \<lparr>np_id = fd, np_size = length buffer, np_buffer = buffer\<rparr>);
     let tail = (if np_tail q + 1 \<ge> np_cap q then np_tail q + 1 - np_cap q else np_tail q + 1);
     let q = q\<lparr>np_queue := slots, np_tail := tail\<rparr>;
     if np_head q = np_tail q then np_expand_queue q else Some q }"

definition read_size :: "u8 list \<Rightarrow> nat" where
  "read_size buffer = unat (buffer ! 0) * 2 ^ 8 + unat (buffer ! 1)"

text \<open>\<^verbatim>\<open>push_more\<close>; without a byte the code would read outside the buffer.\<close>

function push_more :: "int \<Rightarrow> u8 list \<Rightarrow> np_queue option \<Rightarrow> np_queue option" where
  "push_more fd buffer st =
     (if buffer = [] then None
      else if length buffer = 1 then save_header fd (buffer ! 0) st
      else let pack_size = read_size buffer; rest = drop 2 buffer in
        if length rest < pack_size then save_partial fd pack_size rest st
        else push_data fd (take pack_size rest) st \<bind> (\<lambda>q.
          if drop pack_size rest \<noteq> [] then push_more fd (drop pack_size rest) (Some q) else Some q))"
  by pat_completeness auto
termination by (relation "measure (\<lambda>(fd, buffer, st). length buffer)") auto

declare push_more.simps [simp del]

section \<open>Messages of a socket\<close>

datatype np_message = NmData int "u8 list" | NmConnect int | NmClose int | NmAccept int string
  | NmError int string | NmWarning int int | NmOther

datatype np_result = NpNone | NpData int "u8 list" | NpMore | NpClose int | NpOpen int string
  | NpError int string | NpWarning int int

definition close_uncomplete :: "int \<Rightarrow> np_queue option \<Rightarrow> np_queue option option" where
  "close_uncomplete fd st = map_option snd (find_uncomplete fd st)"

text \<open>The first branch of \<^verbatim>\<open>filter_data_\<close>, with an entry that was found; the second, without one.\<close>

definition fill_uncomplete :: "int \<Rightarrow> u8 list \<Rightarrow> uncomplete \<Rightarrow> np_queue option \<Rightarrow> (np_result \<times> np_queue option) option" where
  "fill_uncomplete fd buffer uc st = do {
     (uc, buffer) \<leftarrow> (if uc_read uc < 0 then do {
          c_assert (uc_read uc = -1 \<and> buffer \<noteq> []);
          let pack_size = unat (hd buffer) OR unat (uc_header uc) * 2 ^ 8;
          Some (uc\<lparr>uc_pack := (uc_pack uc)\<lparr>np_size := pack_size, np_buffer := []\<rparr>, uc_read := 0\<rparr>, tl buffer) }
        else Some (uc, buffer));
     let need = np_size (uc_pack uc) - nat (uc_read uc);
     if length buffer < need then do {
       q \<leftarrow> st;
       q \<leftarrow> link_uncomplete fd (uc\<lparr>uc_pack := (uc_pack uc)\<lparr>np_buffer := np_buffer (uc_pack uc) @ buffer\<rparr>,
         uc_read := uc_read uc + int (length buffer)\<rparr>) q;
       Some (NpNone, Some q) }
     else do {
       let packet = np_buffer (uc_pack uc) @ take need buffer;
       if drop need buffer = [] then Some (NpData fd packet, st)
       else do {
         q \<leftarrow> push_data fd packet st;
         q \<leftarrow> push_more fd (drop need buffer) (Some q);
         Some (NpMore, Some q) } } }"

definition start_packet :: "int \<Rightarrow> u8 list \<Rightarrow> np_queue option \<Rightarrow> (np_result \<times> np_queue option) option" where
  "start_packet fd buffer st =
     (if buffer = [] then None
      else if length buffer = 1 then do { q \<leftarrow> save_header fd (buffer ! 0) st; Some (NpNone, Some q) }
      else do {
        let pack_size = read_size buffer;
        let rest = drop 2 buffer;
        if length rest < pack_size then do { q \<leftarrow> save_partial fd pack_size rest st; Some (NpNone, Some q) }
        else if length rest = pack_size then Some (NpData fd rest, st)
        else do {
          q \<leftarrow> push_data fd (take pack_size rest) st;
          q \<leftarrow> push_more fd (drop pack_size rest) (Some q);
          Some (NpMore, Some q) } })"

definition filter_data :: "int \<Rightarrow> u8 list \<Rightarrow> np_queue option \<Rightarrow> (np_result \<times> np_queue option) option" where
  "filter_data fd buffer st = do {
     (r, st) \<leftarrow> find_uncomplete fd st;
     case r of Some uc \<Rightarrow> fill_uncomplete fd buffer uc st | None \<Rightarrow> start_packet fd buffer st }"

definition lfilter :: "np_message \<Rightarrow> np_queue option \<Rightarrow> (np_result \<times> np_queue option) option" where
  "lfilter message st = (case message of
       NmData fd buffer \<Rightarrow> filter_data fd buffer st
     | NmConnect fd \<Rightarrow> Some (NpNone, st)
     | NmClose fd \<Rightarrow> do { st \<leftarrow> close_uncomplete fd st; Some (NpClose fd, st) }
     | NmAccept fd address \<Rightarrow> Some (NpOpen fd address, st)
     | NmError fd text \<Rightarrow> do { st \<leftarrow> close_uncomplete fd st; Some (NpError fd text, st) }
     | NmWarning fd kb \<Rightarrow> Some (NpWarning fd kb, st)
     | NmOther \<Rightarrow> Some (NpNone, st))"

section \<open>Operations for Lua\<close>

definition np_lpop :: "np_queue option \<Rightarrow> ((int \<times> u8 list) option \<times> np_queue option) option" where
  "np_lpop st = (case st of
       None \<Rightarrow> Some (None, None)
     | Some q \<Rightarrow>
        if np_head q = np_tail q then Some (None, Some q)
        else do {
          slot \<leftarrow> c_index (np_queue q) (np_head q);
          np \<leftarrow> slot;
          let head = (if np_head q + 1 \<ge> np_cap q then 0 else np_head q + 1);
          Some (Some (np_id np, take (np_size np) (np_buffer np)), Some (q\<lparr>np_head := head\<rparr>)) })"

text \<open>\<^verbatim>\<open>lclear\<close> with the buffers that it frees.\<close>

definition lclear :: "np_queue option \<Rightarrow> (u8 list list \<times> np_queue option) option" where
  "lclear st = (case st of
       None \<Rightarrow> Some ([], None)
     | Some q \<Rightarrow> do {
         let partial = map (\<lambda>uc. np_buffer (uc_pack uc)) (concat (np_hash q));
         let tail = (if np_head q > np_tail q then np_tail q + np_cap q else np_tail q);
         slots \<leftarrow> those (map (\<lambda>i. c_index (np_queue q) (i mod np_cap q) \<bind> (\<lambda>slot. slot)) [np_head q..<tail]);
         Some (partial @ map np_buffer slots,
           Some (q\<lparr>np_hash := replicate NP_HASHSIZE [], np_head := 0, np_tail := 0\<rparr>)) })"

definition write_size :: "nat \<Rightarrow> u8 list" where
  "write_size len = [of_nat (len div 2 ^ 8 mod 2 ^ 8), of_nat (len mod 2 ^ 8)]"

text \<open>A Lua error is the left value.\<close>

definition lpack :: "u8 list \<Rightarrow> string + u8 list" where
  "lpack data = (if 0x10000 \<le> length data then Inl (''Invalid size (too long) of data : '' @ show_int (c_int (int (length data))))
     else Inr (write_size (length data) @ data))"

end
