(* ===== verification/NetpackWire.thy ===== *)
theory NetpackWire
  imports Netpack
begin

text \<open>
  What the packets of \<^verbatim>\<open>lua-netpack.c\<close> come to: for every connection the packets delivered are those of its byte stream,
  whatever the cuts and whatever other connections do meanwhile, and every operation keeps the state well-formed.
\<close>

section \<open>The length of a packet\<close>

lemma read_size_append: "2 \<le> length a \<Longrightarrow> read_size (a @ b) = read_size a"
  by (cases a; cases "tl a") (auto simp: read_size_def nth_append)

lemma u8_less: "unat (b :: u8) < 256"
proof -
  have "unat b < 2 ^ LENGTH(8)" by (rule unsigned_less)
  then show ?thesis by simp
qed

interpretation np: framing 2 read_size
  by unfold_locales (simp_all add: read_size_append)

abbreviation packets :: "u8 list \<Rightarrow> u8 list list" where "packets bs \<equiv> fst (frames 2 read_size bs)"
abbreviation left_over :: "u8 list \<Rightarrow> u8 list" where "left_over bs \<equiv> snd (frames 2 read_size bs)"

lemma write_size_length [simp]: "length (write_size n) = 2"
  by (simp add: write_size_def)

lemma read_write_size: "n < 2 ^ 16 \<Longrightarrow> read_size (write_size n @ bs) = n"
proof -
  assume n: "n < 2 ^ 16"
  then have "n div 2 ^ 8 < 2 ^ 8" by (simp add: less_mult_imp_div_less)
  then have "read_size (write_size n @ bs) = n div 2 ^ 8 * 2 ^ 8 + n mod 2 ^ 8"
    by (simp add: read_size_def write_size_def unsigned_of_nat take_bit_nat_eq_self)
  then show ?thesis by simp
qed

lemma read_size_less: "read_size bs < 2 ^ 16"
proof -
  from u8_less [of "bs ! 0"] u8_less [of "bs ! 1"] show ?thesis by (simp add: read_size_def)
qed

lemma write_read_size: "2 \<le> length bs \<Longrightarrow> write_size (read_size bs) = take 2 bs"
proof -
  assume "2 \<le> length bs"
  then obtain a b r where bs: "bs = a # b # r" by (metis One_nat_def Suc_1 Suc_le_length_iff)
  have l: "unat b < 256" using u8_less [of b] by simp
  have "(unat a * 256 + unat b) div 256 = unat a" "(unat a * 256 + unat b) mod 256 = unat b" using l by simp_all
  moreover have "unat a mod 256 = unat a" using u8_less [of a] by simp
  ultimately show ?thesis by (simp add: bs read_size_def write_size_def)
qed

section \<open>Well-formed states\<close>

text \<open>The socket numbers for which the hash does not overflow an \<^verbatim>\<open>int\<close>. It is a bound of the theorems: \<^verbatim>\<open>reserve_id\<close> of
  the socket thread gives numbers up to 2^31 - 1.\<close>

definition fd_ok :: "int \<Rightarrow> bool" where
  "fd_ok fd \<longleftrightarrow> 0 \<le> fd \<and> fd < 2 ^ 31 - 2 ^ 20"

lemma hash_fd_ok: "fd_ok fd \<Longrightarrow> \<exists>h < NP_HASHSIZE. hash_fd fd = Some h"
proof -
  assume a: "fd_ok fd"
  then have b: "0 \<le> fd" "fd < 2 ^ 31 - 2 ^ 20" by (simp_all add: fd_ok_def)
  then have "0 \<le> fd div 2 ^ 24" "fd div 2 ^ 24 < 2 ^ 7" "0 \<le> fd div 2 ^ 12" "fd div 2 ^ 12 < 2 ^ 19" by simp_all
  with b show ?thesis
    by (auto simp: hash_fd_def c_sint_def drop_bit_eq_div NP_HASHSIZE_def intro!: exI)
qed

text \<open>The bytes of the stream that an entry keeps.\<close>

definition uc_bytes :: "uncomplete \<Rightarrow> u8 list" where
  "uc_bytes uc = (if uc_read uc < 0 then [uc_header uc] else write_size (np_size (uc_pack uc)) @ np_buffer (uc_pack uc))"

definition uc_ok :: "uncomplete \<Rightarrow> bool" where
  "uc_ok uc \<longleftrightarrow> uc_read uc = -1 \<or>
     uc_read uc = int (length (np_buffer (uc_pack uc))) \<and> length (np_buffer (uc_pack uc)) < np_size (uc_pack uc) \<and> np_size (uc_pack uc) < 2 ^ 16"

abbreviation uc_id :: "uncomplete \<Rightarrow> int" where "uc_id uc \<equiv> np_id (uc_pack uc)"

definition chains_ok :: "uncomplete list list \<Rightarrow> bool" where
  "chains_ok hs \<longleftrightarrow> length hs = NP_HASHSIZE \<and> (\<forall>h < NP_HASHSIZE. distinct (map uc_id (hs ! h)) \<and>
     (\<forall>uc \<in> set (hs ! h). uc_ok uc \<and> hash_fd (uc_id uc) = Some h))"

definition entry :: "uncomplete list list \<Rightarrow> int \<Rightarrow> uncomplete option" where
  "entry hs fd = (case hash_fd fd of None \<Rightarrow> None | Some h \<Rightarrow> find (\<lambda>uc. uc_id uc = fd) (hs ! h))"

definition pending :: "np_queue option \<Rightarrow> int \<Rightarrow> u8 list" where
  "pending st fd = (case st of None \<Rightarrow> [] | Some q \<Rightarrow> (case entry (np_hash q) fd of None \<Rightarrow> [] | Some uc \<Rightarrow> uc_bytes uc))"

definition packed :: "int \<times> u8 list \<Rightarrow> netpack" where
  "packed = (\<lambda>(fd, b). \<lparr>np_id = fd, np_size = length b, np_buffer = b\<rparr>)"

definition np_holds :: "np_queue option \<Rightarrow> (int \<times> u8 list) list \<Rightarrow> bool" where
  "np_holds st xs \<longleftrightarrow> (case st of None \<Rightarrow> xs = []
     | Some q \<Rightarrow> chains_ok (np_hash q) \<and> np_cap q = length (np_queue q) \<and> QUEUESIZE \<le> np_cap q \<and>
         ring_repr (np_queue q) (np_head q) (np_tail q) (map packed xs))"

lemma uc_bytes_not_Nil [simp]: "uc_bytes uc \<noteq> []"
  by (simp add: uc_bytes_def write_size_def)

lemma uc_ok_pack: "uc_read uc = int (length b) \<Longrightarrow> np_buffer (uc_pack uc) = b \<Longrightarrow> length b < np_size (uc_pack uc) \<Longrightarrow>
    np_size (uc_pack uc) < 2 ^ 16 \<Longrightarrow> uc_ok uc"
  by (simp add: uc_ok_def)

lemma pending_empty_iff: "pending (Some q) fd = [] \<longleftrightarrow> entry (np_hash q) fd = None"
  by (simp add: pending_def split: option.splits)

lemma pending_frame [simp]:
  "pending (Some (q\<lparr>np_cap := c\<rparr>)) = pending (Some q)" "pending (Some (q\<lparr>np_head := i\<rparr>)) = pending (Some q)"
  "pending (Some (q\<lparr>np_tail := i\<rparr>)) = pending (Some q)" "pending (Some (q\<lparr>np_queue := s\<rparr>)) = pending (Some q)"
  by (simp_all add: pending_def fun_eq_iff)

lemma get_queue_holds: "np_holds st xs \<Longrightarrow> np_holds (Some (get_queue st)) xs \<and> pending (Some (get_queue st)) = pending st"
proof (cases st)
  case None
  moreover assume "np_holds st xs"
  ultimately have "xs = []" by (simp add: np_holds_def)
  moreover have "entry (replicate NP_HASHSIZE []) fd = None" for fd
  proof (cases "hash_fd fd")
    case (Some h)
    then have "h < NP_HASHSIZE" by (auto simp: hash_fd_def NP_HASHSIZE_def Option.bind_eq_Some_conv)
    with Some show ?thesis by (simp add: entry_def)
  qed (simp add: entry_def)
  ultimately show ?thesis using None
    by (auto simp: get_queue_def np_holds_def new_np_queue_def chains_ok_def QUEUESIZE_def pending_def intro: ring_repr_init)
qed (simp add: get_queue_def)

lemma hash_fd_less: "hash_fd fd = Some h \<Longrightarrow> h < NP_HASHSIZE"
  by (auto simp: hash_fd_def NP_HASHSIZE_def Option.bind_eq_Some_conv)

lemma unlink_find: "distinct (map uc_id ucs) \<Longrightarrow>
    unlink_uncomplete fd ucs = (find (\<lambda>uc. uc_id uc = fd) ucs, filter (\<lambda>uc. uc_id uc \<noteq> fd) ucs)"
proof (induction ucs)
  case (Cons uc ucs)
  have "filter (\<lambda>u. uc_id u \<noteq> uc_id uc) ucs = ucs" using Cons.prems by (simp add: filter_id_conv) (metis imageI)
  with Cons show ?case by auto
qed simp

lemma find_filter: "find P (filter Q xs) = find (\<lambda>x. P x \<and> Q x) xs"
  by (induction xs) auto

lemma find_none: "(\<And>x. x \<in> set xs \<Longrightarrow> \<not> P x) \<Longrightarrow> find P xs = None"
  by (simp add: find_None_iff)

lemma find_uncomplete_holds:
  assumes h: "np_holds st xs" and fd: "fd_ok fd"
  shows "\<exists>r st'. find_uncomplete fd st = Some (r, st') \<and> np_holds st' xs \<and> pending st' = (pending st)(fd := []) \<and>
    (case r of None \<Rightarrow> pending st fd = [] | Some uc \<Rightarrow> uc_ok uc \<and> uc_id uc = fd \<and> uc_bytes uc = pending st fd \<and> st' \<noteq> None)"
proof (cases st)
  case None
  with h show ?thesis by (auto simp: find_uncomplete_def pending_def fun_eq_iff)
next
  case (Some q)
  obtain i where i: "hash_fd fd = Some i" "i < NP_HASHSIZE" using hash_fd_ok [OF fd] by blast
  have c: "chains_ok (np_hash q)" using h Some by (simp add: np_holds_def)
  then have ci: "length (np_hash q) = NP_HASHSIZE" "distinct (map uc_id (np_hash q ! i))"
    "\<And>uc. uc \<in> set (np_hash q ! i) \<Longrightarrow> uc_ok uc \<and> hash_fd (uc_id uc) = Some i" using i(2) by (auto simp: chains_ok_def)
  let ?chain = "filter (\<lambda>uc. uc_id uc \<noteq> fd) (np_hash q ! i)"
  let ?q = "q\<lparr>np_hash := (np_hash q)[i := ?chain]\<rparr>" and ?r = "find (\<lambda>uc. uc_id uc = fd) (np_hash q ! i)"
  have f: "find_uncomplete fd st = Some (?r, Some ?q)"
    using Some i ci(1) unlink_find [OF ci(2), of fd] by (simp add: find_uncomplete_def)
  have "chains_ok (np_hash ?q)"
    using c i(2) ci by (auto simp: chains_ok_def nth_list_update distinct_map_filter)
  then have "np_holds (Some ?q) xs" using h Some by (simp add: np_holds_def)
  moreover have "pending (Some ?q) = (pending st)(fd := [])"
  proof
    fix fd'
    show "pending (Some ?q) fd' = ((pending st)(fd := [])) fd'"
    proof (cases "hash_fd fd' = Some i")
      case True
      have "find (\<lambda>uc. uc_id uc = fd') ?chain = (if fd' = fd then None else find (\<lambda>uc. uc_id uc = fd') (np_hash q ! i))"
        by (auto simp: find_filter intro: find_none arg_cong2 [where f = find])
      with True i(2) ci(1) Some show ?thesis by (simp add: pending_def entry_def)
    next
      case False
      with i(1) have "fd' \<noteq> fd" by auto
      moreover have "hash_fd fd' = Some j \<Longrightarrow> (np_hash ?q) ! j = np_hash q ! j" for j
        using False by (cases "j = i") simp_all
      ultimately show ?thesis using Some by (simp add: pending_def entry_def split: option.split)
    qed
  qed
  moreover have "case ?r of None \<Rightarrow> pending st fd = []
      | Some uc \<Rightarrow> uc_ok uc \<and> uc_id uc = fd \<and> uc_bytes uc = pending st fd \<and> Some ?q \<noteq> None"
  proof (cases ?r)
    case None
    with Some i show ?thesis by (simp add: pending_def entry_def)
  next
    case (Some uc)
    then have "uc \<in> set (np_hash q ! i)" "uc_id uc = fd" by (auto simp: find_Some_iff in_set_conv_nth)
    with ci(3) Some \<open>st = Some q\<close> i show ?thesis by (simp add: pending_def entry_def)
  qed
  ultimately show ?thesis using f by blast
qed

lemma link_holds:
  assumes h: "np_holds (Some q) xs" and fd: "fd_ok fd" "pending (Some q) fd = []" and uc: "uc_ok uc" "uc_id uc = fd"
  shows "\<exists>q'. link_uncomplete fd uc q = Some q' \<and> np_holds (Some q') xs \<and> pending (Some q') = (pending (Some q))(fd := uc_bytes uc)"
proof -
  obtain i where i: "hash_fd fd = Some i" "i < NP_HASHSIZE" using hash_fd_ok [OF fd(1)] by blast
  have c: "chains_ok (np_hash q)" using h by (simp add: np_holds_def)
  then have l: "length (np_hash q) = NP_HASHSIZE" by (simp add: chains_ok_def)
  have "find (\<lambda>uc. uc_id uc = fd) (np_hash q ! i) = None" using fd(2) i by (simp add: pending_empty_iff entry_def)
  then have n: "fd \<notin> uc_id ` set (np_hash q ! i)" by (auto simp: find_None_iff)
  let ?q = "q\<lparr>np_hash := (np_hash q)[i := uc # np_hash q ! i]\<rparr>"
  have "chains_ok (np_hash ?q)"
    using c i uc n l by (auto simp: chains_ok_def nth_list_update)
  then have "np_holds (Some ?q) xs" using h by (simp add: np_holds_def)
  moreover have "pending (Some ?q) = (pending (Some q))(fd := uc_bytes uc)"
  proof
    fix fd'
    show "pending (Some ?q) fd' = ((pending (Some q))(fd := uc_bytes uc)) fd'"
    proof (cases "hash_fd fd' = Some i")
      case True
      with i(2) l uc(2) show ?thesis by (simp add: pending_def entry_def)
    next
      case False
      with i(1) have "fd' \<noteq> fd" by auto
      moreover have "hash_fd fd' = Some j \<Longrightarrow> (np_hash ?q) ! j = np_hash q ! j" for j
        using False by (cases "j = i") simp_all
      ultimately show ?thesis by (simp add: pending_def entry_def split: option.split)
    qed
  qed
  moreover have "link_uncomplete fd uc q = Some ?q" using i l by (simp add: link_uncomplete_def)
  ultimately show ?thesis by blast
qed

section \<open>The queue of packets\<close>

definition np_limit :: nat where "np_limit = 2 ^ 31 - 2 ^ 11"

lemma push_data_holds:
  assumes h: "np_holds st xs" and room: "length xs < np_limit"
  shows "\<exists>q. push_data fd b st = Some q \<and> np_holds (Some q) (xs @ [(fd, b)]) \<and> pending (Some q) = pending st"
proof -
  define q where "q = get_queue st"
  have hq: "np_holds (Some q) xs" "pending (Some q) = pending st" using get_queue_holds [OF h] by (simp_all add: q_def)
  let ?p = "\<lparr>np_id = fd, np_size = length b, np_buffer = b\<rparr>"
  let ?slots = "(np_queue q)[np_tail q := Some ?p]" and ?t = "if Suc (np_tail q) < length (np_queue q) then Suc (np_tail q) else 0"
  let ?q1 = "q\<lparr>np_queue := ?slots, np_tail := ?t\<rparr>"
  have r: "ring_repr (np_queue q) (np_head q) (np_tail q) (map packed xs)" and cap: "np_cap q = length (np_queue q)" "QUEUESIZE \<le> np_cap q"
    using hq(1) by (simp_all add: np_holds_def)
  note lt = ring_reprD [OF r]
  have pk: "map packed (xs @ [(fd, b)]) = map packed xs @ [?p]" by (simp add: packed_def)
  have t: "(if np_tail q + 1 \<ge> np_cap q then np_tail q + 1 - np_cap q else np_tail q + 1) = ?t"
    using lt(2) cap(1) by auto
  have step: "push_data fd b st = (if np_head ?q1 = np_tail ?q1 then np_expand_queue ?q1 else Some ?q1)"
    using lt unfolding push_data_def q_def [symmetric] t Let_def by simp
  show ?thesis
  proof (cases "Suc (length xs) = length (np_queue q)")
    case True
    then have len: "Suc (length (map packed xs)) = length (np_queue q)" by simp
    note full = ring_store_full(1) [OF r len] ring_store_full(2) [OF r len, of ?p]
    have ok: "np_cap q + QUEUESIZE \<le> INT_MAX" using True room cap by (simp add: np_limit_def QUEUESIZE_def INT_MAX_def)
    let ?new = "map (\<lambda>i. ?slots ! ((np_head q + i) mod np_cap q)) [0..<np_cap q]"
    have new: "?new = map Some (map packed xs @ [?p])" using full(2) by (simp add: ring_list_def cap(1))
    have "ring_repr (?new @ replicate QUEUESIZE None) 0 (np_cap q) (map packed xs @ [?p])"
      by (rule ring_copy_repr [OF _ _ new [symmetric]]) (use True cap in \<open>auto simp: QUEUESIZE_def\<close>)
    moreover have "push_data fd b st = np_expand_queue ?q1"
      unfolding step by (rule if_P) (use full(1) in simp)
    moreover have "np_expand_queue ?q1 = Some (q\<lparr>np_head := 0, np_tail := np_cap q, np_cap := np_cap q + QUEUESIZE,
        np_queue := ?new @ replicate QUEUESIZE None\<rparr>)"
      using ok cap by (cases "np_queue q = []") (simp_all add: np_expand_queue_def QUEUESIZE_def)
    ultimately show ?thesis using hq cap pk by (auto simp: np_holds_def)
  next
    case False
    with lt have less: "Suc (length (map packed xs)) < length (np_queue q)" by simp
    have "push_data fd b st = Some ?q1"
      unfolding step by (rule if_not_P) (use ring_store_not_full [OF r less] in simp)
    moreover have "np_holds (Some ?q1) (xs @ [(fd, b)])"
      using ring_store_repr [OF r less, of ?p] hq(1) pk by (simp add: np_holds_def)
    ultimately show ?thesis using hq(2) by simp
  qed
qed

lemma np_lpop_Nil: "np_holds st [] \<Longrightarrow> np_lpop st = Some (None, st)"
  by (auto simp: np_holds_def np_lpop_def dest: ring_repr_empty_iff split: option.splits)

lemma np_lpop_Cons:
  assumes "np_holds st ((fd, b) # xs)"
  shows "\<exists>st'. np_lpop st = Some (Some (fd, b), st') \<and> np_holds st' xs \<and> pending st' = pending st"
proof -
  from assms obtain q where q: "st = Some q" by (cases st) (auto simp: np_holds_def)
  let ?p = "packed (fd, b)"
  have r: "ring_repr (np_queue q) (np_head q) (np_tail q) (?p # map packed xs)" and cap: "np_cap q = length (np_queue q)"
    using assms q by (simp_all add: np_holds_def)
  note pop = ring_pop_repr [OF r]
  have "np_head q \<noteq> np_tail q" using ring_repr_empty_iff [OF r] by simp
  then have "np_lpop st = Some (Some (fd, b), Some (q\<lparr>np_head := if length (np_queue q) \<le> Suc (np_head q) then 0 else Suc (np_head q)\<rparr>))"
    using pop(1) ring_reprD(1) [OF r] cap q by (simp add: np_lpop_def packed_def)
  moreover have "np_holds (Some (q\<lparr>np_head := if length (np_queue q) \<le> Suc (np_head q) then 0 else Suc (np_head q)\<rparr>)) xs"
    using assms q pop(2) by (simp add: np_holds_def)
  ultimately show ?thesis using q by auto
qed

text \<open>The queue is a first-in first-out container, whatever packets are incomplete meanwhile.\<close>

definition np_room :: "np_queue option \<Rightarrow> int \<times> u8 list \<Rightarrow> bool" where
  "np_room st x \<longleftrightarrow> (case st of None \<Rightarrow> True | Some q \<Rightarrow> ring_len (np_cap q) (np_head q) (np_tail q) < np_limit)"

definition np_enq :: "int \<times> u8 list \<Rightarrow> np_queue option \<Rightarrow> np_queue option option" where
  "np_enq x st = map_option Some (push_data (fst x) (snd x) st)"

lemma np_room_length: "np_holds st xs \<Longrightarrow> np_room st x \<longleftrightarrow> length xs < np_limit"
  by (auto simp: np_room_def np_holds_def np_limit_def dest: ring_reprD(4) split: option.splits)

interpretation npf: bounded_fifo "\<lambda>st xs. np_holds st xs \<and> pending st = pend" np_room np_enq np_lpop np_limit for pend
proof unfold_locales
  fix st xs and x :: "int \<times> u8 list"
  assume "np_holds st xs \<and> pending st = pend" "np_room st x"
  then show "\<exists>q'. np_enq x st = Some q' \<and> np_holds q' (xs @ [x]) \<and> pending q' = pend"
    using push_data_holds [of st xs "fst x" "snd x"] np_room_length [of st xs x] by (auto simp: np_enq_def)
next
  fix st
  show "np_holds st [] \<and> pending st = pend \<Longrightarrow> \<exists>q'. np_lpop st = Some (None, q') \<and> np_holds q' [] \<and> pending q' = pend"
    using np_lpop_Nil by blast
next
  fix st xs and x :: "int \<times> u8 list"
  show "np_holds st (x # xs) \<and> pending st = pend \<Longrightarrow> \<exists>q'. np_lpop st = Some (Some x, q') \<and> np_holds q' xs \<and> pending q' = pend"
    using np_lpop_Cons [of st "fst x" "snd x" xs] by auto
next
  fix st xs and x :: "int \<times> u8 list"
  show "np_holds st xs \<and> pending st = pend \<Longrightarrow> length xs < np_limit \<Longrightarrow> np_room st x" using np_room_length by blast
qed

section \<open>Bytes of a connection\<close>

lemma save_holds:
  assumes "np_holds st xs" "fd_ok fd" "pending st fd = []" and "uc_ok uc" "uc_id uc = fd"
    and "fill \<lparr>uc_pack = zero_pack fd, uc_read = 0, uc_header = 0\<rparr> = uc"
  shows "\<exists>q. save_uncomplete fd fill st = Some q \<and> np_holds (Some q) xs \<and> pending (Some q) = (pending st)(fd := uc_bytes uc)"
  using get_queue_holds [OF assms(1)] link_holds [OF _ assms(2) _ assms(4,5), of "get_queue st" xs] assms(3,6)
  by (auto simp: save_uncomplete_def)

lemma save_header_holds:
  assumes "np_holds st xs" "fd_ok fd" "pending st fd = []"
  shows "\<exists>q. save_header fd c st = Some q \<and> np_holds (Some q) xs \<and> pending (Some q) = (pending st)(fd := [c])"
proof -
  let ?uc = "\<lparr>uc_pack = zero_pack fd, uc_read = -1, uc_header = c\<rparr>"
  have "uc_ok ?uc" "uc_id ?uc = fd" "uc_bytes ?uc = [c]" by (simp_all add: uc_ok_def uc_bytes_def zero_pack_def)
  with save_holds [OF assms, of ?uc "\<lambda>uc. uc\<lparr>uc_read := -1, uc_header := c\<rparr>"] show ?thesis by (simp add: save_header_def)
qed

lemma save_partial_holds:
  assumes "np_holds st xs" "fd_ok fd" "pending st fd = []" and b: "2 \<le> length b" "length (drop 2 b) < read_size b"
  shows "\<exists>q. save_partial fd (read_size b) (drop 2 b) st = Some q \<and> np_holds (Some q) xs \<and> pending (Some q) = (pending st)(fd := b)"
proof -
  let ?uc = "\<lparr>uc_pack = (zero_pack fd)\<lparr>np_size := read_size b, np_buffer := drop 2 b\<rparr>, uc_read = int (length (drop 2 b)), uc_header = 0\<rparr>"
  have "uc_ok ?uc" "uc_id ?uc = fd" using b(2) read_size_less [of b] by (simp_all add: uc_ok_def zero_pack_def)
  moreover have "uc_bytes ?uc = b" using write_read_size [OF b(1)] append_take_drop_id [of 2 b] by (simp add: uc_bytes_def)
  ultimately show ?thesis
    using save_holds [OF assms(1-3), of ?uc "\<lambda>uc. uc\<lparr>uc_read := int (length (drop 2 b)),
       uc_pack := (uc_pack uc)\<lparr>np_size := read_size b, np_buffer := drop 2 b\<rparr>\<rparr>"] by (simp add: save_partial_def)
qed

lemma push_more_holds:
  "np_holds st xs \<Longrightarrow> fd_ok fd \<Longrightarrow> pending st fd = [] \<Longrightarrow> b \<noteq> [] \<Longrightarrow> length xs + length b \<le> np_limit \<Longrightarrow>
   \<exists>q. push_more fd b st = Some q \<and> np_holds (Some q) (xs @ map (Pair fd) (packets b)) \<and> pending (Some q) = (pending st)(fd := left_over b)"
proof (induction b arbitrary: st xs rule: measure_induct_rule [of length])
  case (less b)
  consider (one) "length b = 1" | (part) "2 \<le> length b" "length (drop 2 b) < read_size b"
    | (full) "2 + read_size b \<le> length b" using less.prems(4) by (cases b; cases "tl b"; force)
  then show ?case
  proof cases
    case one
    then obtain c where b: "b = [c]" by (cases b) auto
    from save_header_holds [OF less.prems(1-3), of c] show ?thesis
      by (subst push_more.simps) (simp add: b np.frames_part)
  next
    case part
    then have f: "frames 2 read_size b = ([], b)" by (intro np.frames_part) auto
    from part have "b \<noteq> []" "length b \<noteq> 1" by auto
    with save_partial_holds [OF less.prems(1-3) part] part(2) show ?thesis
      by (subst push_more.simps) (simp add: f Let_def)
  next
    case full
    let ?p = "take (read_size b) (drop 2 b)" and ?r = "drop (2 + read_size b) b"
    have f: "packets b = ?p # packets ?r" "left_over b = left_over ?r" using np.frames_full [OF full] by simp_all
    have "length xs < np_limit" using less.prems(4,5) full by (cases b) auto
    from push_data_holds [OF less.prems(1) this, of fd ?p] obtain q where
      q: "push_data fd ?p st = Some q" "np_holds (Some q) (xs @ [(fd, ?p)])" "pending (Some q) = pending st" by blast
    have pm: "push_more fd b st = (if ?r \<noteq> [] then push_more fd ?r (Some q) else Some q)"
      using full q(1) less.prems(4) by (subst push_more.simps) (auto simp: Let_def add.commute)
    show ?thesis
    proof (cases "?r = []")
      case True
      then have "packets ?r = []" "left_over ?r = []" by (simp_all add: np.frames_part)
      with pm q True less.prems(3) show ?thesis unfolding f by (simp add: fun_upd_idem)
    next
      case False
      have l: "length ?r < length b" "length (xs @ [(fd, ?p)]) + length ?r \<le> np_limit" using less.prems(4,5) full by (cases b; simp)+
      have p: "pending (Some q) fd = []" using less.prems(3) q(3) by simp
      from less.IH [OF l(1) q(2) less.prems(2) p False l(2)] obtain q' where
        r: "push_more fd ?r (Some q) = Some q'" "np_holds (Some q') ((xs @ [(fd, ?p)]) @ map (Pair fd) (packets ?r))"
        "pending (Some q') = (pending st)(fd := left_over ?r)" unfolding q(3) by blast
      have "np_holds (Some q') (xs @ map (Pair fd) (packets b))" using r(2) by (simp add: f(1))
      moreover have "push_more fd b st = Some q'" using pm False r(1) by simp
      ultimately show ?thesis using r(3) f(2) by metis
    qed
  qed
qed

text \<open>The result of \<^verbatim>\<open>filter_data\<close> when the bytes complete the packets \<^verbatim>\<open>fs\<close>, with what is queued.\<close>

definition filtered :: "int \<Rightarrow> u8 list list \<Rightarrow> np_result \<Rightarrow> (int \<times> u8 list) list \<Rightarrow> bool" where
  "filtered fd fs r ys \<longleftrightarrow> r = NpNone \<and> fs = [] \<and> ys = [] \<or> (\<exists>f. r = NpData fd f \<and> fs = [f] \<and> ys = []) \<or>
     r = NpMore \<and> fs \<noteq> [] \<and> ys = map (Pair fd) fs"

lemma filtered_simps [simp]: "filtered fd [] NpNone []" "filtered fd [f] (NpData fd f) []" "filtered fd (f # fs) NpMore ((fd, f) # map (Pair fd) fs)"
  by (simp_all add: filtered_def)

lemma more_holds:
  assumes h: "np_holds st xs" "fd_ok fd" "pending st fd = []" and b: "b \<noteq> []" "length xs + 1 + length b \<le> np_limit"
  shows "\<exists>q q'. push_data fd f st = Some q \<and> push_more fd b (Some q) = Some q' \<and>
    np_holds (Some q') (xs @ map (Pair fd) (f # packets b)) \<and> pending (Some q') = (pending st)(fd := left_over b)"
proof -
  have "length xs < np_limit" using b(2) by simp
  from push_data_holds [OF h(1) this, of fd f] obtain q where
    q: "push_data fd f st = Some q" "np_holds (Some q) (xs @ [(fd, f)])" "pending (Some q) = pending st" by blast
  have p: "pending (Some q) fd = []" "length (xs @ [(fd, f)]) + length b \<le> np_limit" using h(3) q(3) b(2) by simp_all
  from push_more_holds [OF q(2) h(2) p(1) b(1) p(2)] q(1) show ?thesis unfolding q(3) by fastforce
qed

lemma start_packet_holds:
  assumes h: "np_holds st xs" "fd_ok fd" "pending st fd = []" and b: "b \<noteq> []" "length xs + length b \<le> np_limit"
  shows "\<exists>r st' ys. start_packet fd b st = Some (r, st') \<and> filtered fd (packets b) r ys \<and> np_holds st' (xs @ ys) \<and>
    pending st' = (pending st)(fd := left_over b)"
proof -
  consider (one) "length b = 1" | (part) "2 \<le> length b" "length (drop 2 b) < read_size b"
    | (full) "length b = 2 + read_size b" | (more) "2 + read_size b < length b" using b(1) by (cases b; cases "tl b"; force)
  then show ?thesis
  proof cases
    case one
    then obtain c where c: "b = [c]" by (cases b) auto
    from save_header_holds [OF h, of c] obtain q where
      "save_header fd c st = Some q" "np_holds (Some q) xs" "pending (Some q) = (pending st)(fd := [c])" by blast
    then show ?thesis
      by (intro exI [of _ NpNone] exI [of _ "Some q"] exI [of _ "[]"]) (simp add: start_packet_def c np.frames_part)
  next
    case part
    then have f: "frames 2 read_size b = ([], b)" by (intro np.frames_part) auto
    from part have "b \<noteq> []" "length b \<noteq> 1" by auto
    moreover from save_partial_holds [OF h part] obtain q where "save_partial fd (read_size b) (drop 2 b) st = Some q"
      "np_holds (Some q) xs" "pending (Some q) = (pending st)(fd := b)" by blast
    ultimately show ?thesis
      using part(2) by (intro exI [of _ NpNone] exI [of _ "Some q"] exI [of _ "[]"]) (simp add: start_packet_def f Let_def)
  next
    case full
    then have "frames 2 read_size b = ([drop 2 b], [])" by (simp add: np.frames_full np.frames_part)
    moreover have "start_packet fd b st = Some (NpData fd (drop 2 b), st)"
      using full by (auto simp: start_packet_def Let_def)
    ultimately show ?thesis using h(1,3)
      by (intro exI [of _ "NpData fd (drop 2 b)"] exI [of _ st] exI [of _ "[]"]) (simp add: fun_upd_idem)
  next
    case more
    let ?p = "take (read_size b) (drop 2 b)" and ?r = "drop (2 + read_size b) b"
    have f: "packets b = ?p # packets ?r" "left_over b = left_over ?r" using np.frames_full more by simp_all
    have "?r \<noteq> []" "length xs + 1 + length ?r \<le> np_limit" using more b(2) by simp_all
    from more_holds [OF h this, of ?p] obtain q q' where
      q: "push_data fd ?p st = Some q" "push_more fd ?r (Some q) = Some q'" "np_holds (Some q') (xs @ map (Pair fd) (packets b))"
        "pending (Some q') = (pending st)(fd := left_over b)" unfolding f by blast
    have "start_packet fd b st = Some (NpMore, Some q')"
      using more q(1,2) by (auto simp: start_packet_def Let_def add.commute)
    with q(3,4) f(1) show ?thesis by (intro exI [of _ NpMore] exI [of _ "Some q'"] exI [of _ "map (Pair fd) (packets b)"]) simp
  qed
qed

lemma fill_partial:
  assumes h: "np_holds (Some q) xs" "fd_ok fd" "pending (Some q) fd = []" and b: "length xs + 1 + length b \<le> np_limit"
    and uc: "uc_id uc = fd" "uc_read uc = int (length (np_buffer (uc_pack uc)))" "length (np_buffer (uc_pack uc)) \<le> np_size (uc_pack uc)"
      "np_size (uc_pack uc) < 2 ^ 16"
  shows "\<exists>r st' ys. fill_uncomplete fd b uc (Some q) = Some (r, st') \<and> filtered fd (packets (uc_bytes uc @ b)) r ys \<and> np_holds st' (xs @ ys) \<and>
    pending st' = (pending (Some q))(fd := left_over (uc_bytes uc @ b))"
proof -
  let ?buf = "np_buffer (uc_pack uc)" and ?n = "np_size (uc_pack uc)"
  let ?need = "?n - length ?buf"
  have ub: "uc_bytes uc = write_size ?n @ ?buf" using uc(2) by (simp add: uc_bytes_def)
  have rs: "read_size (write_size ?n @ bs) = ?n" for bs using uc(4) by (rule read_write_size)
  show ?thesis
  proof (cases "length b < ?need")
    case True
    let ?uc = "uc\<lparr>uc_pack := (uc_pack uc)\<lparr>np_buffer := ?buf @ b\<rparr>, uc_read := uc_read uc + int (length b)\<rparr>"
    have "uc_ok ?uc" "uc_id ?uc = fd" "uc_bytes ?uc = uc_bytes uc @ b" using True uc by (simp_all add: uc_ok_def uc_bytes_def)
    with link_holds [OF h, of ?uc] obtain q' where q': "link_uncomplete fd ?uc q = Some q'" "np_holds (Some q') xs"
      "pending (Some q') = (pending (Some q))(fd := uc_bytes uc @ b)" by auto
    have "frames 2 read_size (uc_bytes uc @ b) = ([], uc_bytes uc @ b)"
      using True by (intro np.frames_part) (simp add: ub rs)
    moreover have "fill_uncomplete fd b uc (Some q) = Some (NpNone, Some q')"
      using True uc(2) q'(1) by (simp add: fill_uncomplete_def Let_def)
    ultimately show ?thesis using q'(2,3)
      by (intro exI [of _ NpNone] exI [of _ "Some q'"] exI [of _ "[]"]) simp
  next
    case False
    let ?p = "?buf @ take ?need b" and ?r = "drop ?need b"
    have "frames 2 read_size (uc_bytes uc @ b) = (?p # packets ?r, left_over ?r)"
      using False uc(3) by (subst np.frames_full) (simp_all add: ub rs)
    then have f: "packets (uc_bytes uc @ b) = ?p # packets ?r" "left_over (uc_bytes uc @ b) = left_over ?r" by simp_all
    show ?thesis
    proof (cases "?r = []")
      case True
      then have "packets ?r = []" "left_over ?r = []" by (simp_all add: np.frames_part)
      moreover have "fill_uncomplete fd b uc (Some q) = Some (NpData fd ?p, Some q)"
        using False True uc(2) by (simp add: fill_uncomplete_def Let_def)
      ultimately show ?thesis using h(1,3) unfolding f
        by (intro exI [of _ "NpData fd ?p"] exI [of _ "Some q"] exI [of _ "[]"]) (simp add: fun_upd_idem)
    next
      case nz: False
      have "length xs + 1 + length ?r \<le> np_limit" using b by simp
      from more_holds [OF h nz this, of ?p] obtain q1 q2 where
        q: "push_data fd ?p (Some q) = Some q1" "push_more fd ?r (Some q1) = Some q2" "np_holds (Some q2) (xs @ map (Pair fd) (?p # packets ?r))"
          "pending (Some q2) = (pending (Some q))(fd := left_over ?r)" by blast
      have "fill_uncomplete fd b uc (Some q) = Some (NpMore, Some q2)"
        using False nz uc(2) q(1,2) by (simp add: fill_uncomplete_def Let_def)
      with q(3,4) show ?thesis unfolding f
        by (intro exI [of _ NpMore] exI [of _ "Some q2"] exI [of _ "map (Pair fd) (?p # packets ?r)"]) simp
    qed
  qed
qed

lemma byte_or: "a < 256 \<Longrightarrow> a OR b * 2 ^ 8 = b * 2 ^ 8 + a" for a b :: nat
proof -
  assume "a < 256"
  then have "take_bit 8 a = a" by (simp add: take_bit_nat_eq_self)
  then have l: "bit a k \<Longrightarrow> k < 8" for k by (metis bit_take_bit_iff)
  have "push_bit 8 b AND a = 0" by (intro bit_eqI) (auto simp: bit_and_iff bit_push_bit_iff dest: l)
  then have "push_bit 8 b + a = push_bit 8 b OR a" by (rule disjunctive_add_eq_or)
  then show ?thesis by (simp add: push_bit_eq_mult or.commute)
qed

text \<open>The first byte of the length was known: with the second the entry is as if it had no content yet.\<close>

lemma fill_header:
  assumes "uc_read uc = -1"
  shows "fill_uncomplete fd (c # b) uc st = fill_uncomplete fd b (uc\<lparr>uc_pack := (uc_pack uc)\<lparr>np_size := read_size [uc_header uc, c],
    np_buffer := []\<rparr>, uc_read := 0\<rparr>) st"
  using assms byte_or [OF u8_less [of c], of "unat (uc_header uc)"] by (simp add: fill_uncomplete_def read_size_def)

lemma filter_data_holds:
  assumes h: "np_holds st xs" "fd_ok fd" and b: "b \<noteq> []" "length xs + 1 + length b \<le> np_limit"
  shows "\<exists>r st' ys. filter_data fd b st = Some (r, st') \<and> filtered fd (packets (pending st fd @ b)) r ys \<and> np_holds st' (xs @ ys) \<and>
    pending st' = (pending st)(fd := left_over (pending st fd @ b))"
proof -
  from find_uncomplete_holds [OF h] obtain r1 st1 where f: "find_uncomplete fd st = Some (r1, st1)" "np_holds st1 xs"
    "pending st1 = (pending st)(fd := [])" and cs: "case r1 of None \<Rightarrow> pending st fd = []
      | Some uc \<Rightarrow> uc_ok uc \<and> uc_id uc = fd \<and> uc_bytes uc = pending st fd \<and> st1 \<noteq> None" by blast
  have p1: "pending st1 fd = []" using f(3) by simp
  have upd: "(pending st1)(fd := x) = (pending st)(fd := x)" for x using f(3) by simp
  show ?thesis
  proof (cases r1)
    case None
    have l: "length xs + length b \<le> np_limit" using b(2) by simp
    from None cs have "pending st fd = []" by simp
    with start_packet_holds [OF f(2) h(2) p1 b(1) l] show ?thesis using f(1) None unfolding upd by (simp add: filter_data_def)
  next
    case (Some uc)
    with cs obtain q where uc: "uc_ok uc" "uc_id uc = fd" "uc_bytes uc = pending st fd" and q: "st1 = Some q" by auto
    note q' = f(2) [unfolded q] h(2) p1 [unfolded q]
    have fd: "filter_data fd b st = fill_uncomplete fd b uc (Some q)" using f(1) Some q by (simp add: filter_data_def)
    show ?thesis
    proof (cases "uc_read uc = -1")
      case True
      obtain c b' where cb: "b = c # b'" using b(1) by (cases b) auto
      let ?uc = "uc\<lparr>uc_pack := (uc_pack uc)\<lparr>np_size := read_size [uc_header uc, c], np_buffer := []\<rparr>, uc_read := 0\<rparr>"
      have u: "uc_id ?uc = fd" "uc_read ?uc = int (length (np_buffer (uc_pack ?uc)))" "length (np_buffer (uc_pack ?uc)) \<le> np_size (uc_pack ?uc)"
        "np_size (uc_pack ?uc) < 2 ^ 16" using uc(2) read_size_less by simp_all
      have "write_size (read_size [uc_header uc, c]) = [uc_header uc, c]" using write_read_size [of "[uc_header uc, c]"] by simp
      then have e: "uc_bytes ?uc @ b' = pending st fd @ b" using True uc(3) by (simp add: uc_bytes_def cb flip: uc(3))
      have "length xs + 1 + length b' \<le> np_limit" using b(2) cb by simp
      from fill_partial [OF q' this u] show ?thesis
        unfolding fd e using upd by (simp add: cb fill_header [OF True] q)
    next
      case False
      then have u: "uc_read uc = int (length (np_buffer (uc_pack uc)))" "length (np_buffer (uc_pack uc)) \<le> np_size (uc_pack uc)"
        "np_size (uc_pack uc) < 2 ^ 16" using uc(1) by (simp_all add: uc_ok_def)
      from fill_partial [OF q' b(2) uc(2) u] show ?thesis unfolding fd uc(3) using upd by (simp add: q)
    qed
  qed
qed

text \<open>What is pending holds no complete packet.\<close>

lemma pending_part:
  assumes "np_holds st xs"
  shows "frames 2 read_size (pending st fd) = ([], pending st fd)"
proof (cases "pending st fd = []")
  case False
  then obtain q uc where q: "st = Some q" "entry (np_hash q) fd = Some uc" "pending st fd = uc_bytes uc"
    by (auto simp: pending_def split: option.splits)
  then obtain h where h: "hash_fd fd = Some h" "find (\<lambda>uc. uc_id uc = fd) (np_hash q ! h) = Some uc"
    by (auto simp: entry_def split: option.splits)
  then have "uc \<in> set (np_hash q ! h)" by (auto simp: find_Some_iff in_set_conv_nth)
  moreover have "chains_ok (np_hash q)" using assms q(1) by (simp add: np_holds_def)
  ultimately have "uc_ok uc" using hash_fd_less [OF h(1)] by (auto simp: chains_ok_def)
  then show ?thesis unfolding q(3)
    by (intro np.frames_part) (auto simp: uc_ok_def uc_bytes_def read_write_size)
qed (simp add: np.frames_part)

section \<open>Delivery\<close>

text \<open>
  What the Lua gate (\<^verbatim>\<open>lualib/snax/gateserver.lua\<close>) does with the data of a socket: a single packet is handled at once,
  and behind \<^verbatim>\<open>more\<close> it pops until the queue is empty.
\<close>

definition gate_receive :: "int \<times> u8 list \<Rightarrow> np_queue option \<Rightarrow> ((int \<times> u8 list) list \<times> np_queue option) option" where
  "gate_receive p st = do {
     (r, st) \<leftarrow> lfilter (NmData (fst p) (snd p)) st;
     case r of NpData fd f \<Rightarrow> Some ([(fd, f)], st) | NpMore \<Rightarrow> drain np_lpop st | _ \<Rightarrow> Some ([], st) }"

fun receive_all :: "(int \<times> u8 list) list \<Rightarrow> np_queue option \<Rightarrow> ((int \<times> u8 list) list \<times> np_queue option) option" where
  "receive_all [] st = Some ([], st)"
| "receive_all (p # ps) st = do {
     (out, st) \<leftarrow> gate_receive p st;
     (out', st) \<leftarrow> receive_all ps st;
     Some (out @ out', st) }"

text \<open>The part of one connection.\<close>

definition of_fd :: "int \<Rightarrow> (int \<times> 'b) list \<Rightarrow> 'b list" where
  "of_fd fd xs = map snd (filter (\<lambda>x. fst x = fd) xs)"

lemma of_fd_simps [simp]:
  "of_fd fd [] = []" "of_fd fd (x # xs) = (if fst x = fd then snd x # of_fd fd xs else of_fd fd xs)"
  "of_fd fd (xs @ ys) = of_fd fd xs @ of_fd fd ys" "of_fd fd (map (Pair fd') fs) = (if fd' = fd then fs else [])"
  by (simp_all add: of_fd_def comp_def)

definition data_ok :: "int \<times> u8 list \<Rightarrow> bool" where
  "data_ok p \<longleftrightarrow> fd_ok (fst p) \<and> snd p \<noteq> [] \<and> length (snd p) < np_limit"

lemma gate_receive_holds:
  assumes "np_holds st []" "data_ok (fd, b)"
  shows "\<exists>st'. gate_receive (fd, b) st = Some (map (Pair fd) (packets (pending st fd @ b)), st') \<and> np_holds st' [] \<and>
    pending st' = (pending st)(fd := left_over (pending st fd @ b))"
proof -
  have "length ([] :: (int \<times> u8 list) list) + 1 + length b \<le> np_limit" "fd_ok fd" "b \<noteq> []" using assms(2) by (simp_all add: data_ok_def)
  from filter_data_holds [OF assms(1) this(2,3,1)] obtain r st1 ys where
    f: "filter_data fd b st = Some (r, st1)" "filtered fd (packets (pending st fd @ b)) r ys" "np_holds st1 ys"
      "pending st1 = (pending st)(fd := left_over (pending st fd @ b))" by auto
  from npf.drain_repr [of st1 ys "pending st1"] f(3) obtain st2 where
    d: "drain np_lpop st1 = Some (ys, st2)" "np_holds st2 []" "pending st2 = pending st1" by blast
  from f(2) d f show ?thesis
    by (auto simp: filtered_def gate_receive_def lfilter_def)
qed

lemma receive_all_holds:
  "np_holds st [] \<Longrightarrow> (\<And>p. p \<in> set ps \<Longrightarrow> data_ok p) \<Longrightarrow> \<exists>out st'. receive_all ps st = Some (out, st') \<and> np_holds st' [] \<and>
     (\<forall>fd. of_fd fd out = packets (pending st fd @ concat (of_fd fd ps)) \<and> pending st' fd = left_over (pending st fd @ concat (of_fd fd ps)))"
proof (induction ps arbitrary: st)
  case Nil
  then show ?case by (simp add: pending_part)
next
  case (Cons p ps)
  obtain fd b where p: "p = (fd, b)" by (cases p)
  have "data_ok (fd, b)" using Cons.prems(2) [of p] p by simp
  from gate_receive_holds [OF Cons.prems(1) this] obtain st1 where
    s1: "gate_receive p st = Some (map (Pair fd) (packets (pending st fd @ b)), st1)" "np_holds st1 []"
      "pending st1 = (pending st)(fd := left_over (pending st fd @ b))" using p by blast
  from Cons.IH [OF s1(2)] Cons.prems(2) obtain out st2 where
    s2: "receive_all ps st1 = Some (out, st2)" "np_holds st2 []"
      "\<And>fd. of_fd fd out = packets (pending st1 fd @ concat (of_fd fd ps)) \<and> pending st2 fd = left_over (pending st1 fd @ concat (of_fd fd ps))"
    by auto
  have "of_fd fd' (map (Pair fd) (packets (pending st fd @ b)) @ out) = packets (pending st fd' @ concat (of_fd fd' (p # ps))) \<and>
      pending st2 fd' = left_over (pending st fd' @ concat (of_fd fd' (p # ps)))" for fd'
    using s2(3) [of fd'] np.frames_append [of "pending st fd @ b" "concat (of_fd fd ps)"] s1(3) p by (cases "fd' = fd") simp_all
  with s1(1) s2(1,2) show ?case by (intro exI [of _ "map (Pair fd) (packets (pending st fd @ b)) @ out"] exI [of _ st2]) simp
qed

text \<open>What \<^verbatim>\<open>lpack\<close> gives for the messages.\<close>

lemma lpack_packets:
  assumes "\<And>m. m \<in> set ms \<Longrightarrow> length m < 2 ^ 16"
  shows "frames 2 read_size (concat (map (\<lambda>m. write_size (length m) @ m) ms)) = (ms, [])"
  using np.frames_encoded [of ms "\<lambda>m. write_size (length m)" "\<lambda>m. m"] assms read_write_size [of _ "[]"] by simp

text \<open>
  (C5) Any number of connections send messages packed by \<^verbatim>\<open>lpack\<close>; their bytes come in pieces of any size, those of the
  connections mixed. Every connection's messages are delivered once and in order, and at the end nothing is pending
  and the queue is empty. Nothing faults.
\<close>

theorem netpack_delivers_messages:
  assumes "\<forall>p \<in> set ps. data_ok p"
    and "\<forall>fd. \<exists>bs. map lpack (msgs fd) = map Inr bs \<and> concat (of_fd fd ps) = concat bs"
  shows "\<exists>out st. receive_all ps None = Some (out, st) \<and> (\<forall>fd. of_fd fd out = msgs fd \<and> pending st fd = []) \<and> np_lpop st = Some (None, st)"
proof -
  have b: "length m < 2 ^ 16" if "m \<in> set (msgs fd)" for m fd
  proof (rule ccontr)
    assume "\<not> length m < 2 ^ 16"
    then have "lpack m \<notin> range Inr" by (auto simp: lpack_def)
    moreover obtain bs where "map lpack (msgs fd) = map Inr bs" using assms(2) by blast
    then have "lpack ` set (msgs fd) = Inr ` set bs" by (metis list.set_map)
    ultimately show False using that by blast
  qed
  have s: "concat (of_fd fd ps) = concat (map (\<lambda>m. write_size (length m) @ m) (msgs fd))" for fd
  proof -
    obtain bs where bs: "map lpack (msgs fd) = map Inr bs" "concat (of_fd fd ps) = concat bs" using assms(2) by blast
    have "map lpack (msgs fd) = map Inr (map (\<lambda>m. write_size (length m) @ m) (msgs fd))" using b [of _ fd] by (auto simp: lpack_def not_le)
    then have "map Inr bs = (map Inr (map (\<lambda>m. write_size (length m) @ m) (msgs fd)) :: (string + u8 list) list)" using bs(1) by metis
    then have "bs = map (\<lambda>m. write_size (length m) @ m) (msgs fd)" by (simp add: inj_map_eq_map inj_on_def del: map_map)
    with bs(2) show ?thesis by simp
  qed
  have n: "np_holds None []" "pending None fd = []" for fd by (simp_all add: np_holds_def pending_def)
  from receive_all_holds [OF n(1), of ps] assms(1) obtain out st where
    r: "receive_all ps None = Some (out, st)" "np_holds st []"
      "\<forall>fd. of_fd fd out = packets (concat (of_fd fd ps)) \<and> pending st fd = left_over (concat (of_fd fd ps))" by (auto simp: n(2))
  have "of_fd fd out = msgs fd \<and> pending st fd = []" for fd
    using r(3) lpack_packets [of "msgs fd"] b [of _ fd] unfolding s by auto
  with r(1) np_lpop_Nil [OF r(2)] show ?thesis by blast
qed

lemma netpack_delivers_messages_witness:
  "\<exists>out st. receive_all [(3, [0]), (4, [0, 1, 9, 0]), (3, [2, 7, 8]), (4, [1, 5])] None = Some (out, st) \<and>
     (\<forall>fd. of_fd fd out = (if fd = 3 then [[7, 8]] else if fd = 4 then [[9], [5]] else []) \<and> pending st fd = []) \<and>
     np_lpop st = Some (None, st)"
proof -
  have "\<exists>bs. map lpack (if fd = 3 then [[7, 8]] else if fd = 4 then [[9], [5]] else []) = map Inr bs \<and>
      concat (of_fd fd [(3, [0]), (4, [0, 1, 9, 0]), (3, [2, 7, 8]), (4, [1, 5])]) = concat bs" for fd :: int
    by (intro exI [of _ "if fd = 3 then [[0, 2, 7, 8]] else if fd = 4 then [[0, 1, 9], [0, 1, 5]] else []"])
      (simp add: lpack_def write_size_def)
  then show ?thesis
    by (intro netpack_delivers_messages) (auto simp: data_ok_def fd_ok_def np_limit_def)
qed

section \<open>Every operation keeps the state well-formed\<close>

lemma close_holds:
  assumes "np_holds st xs" "fd_ok fd"
  shows "\<exists>st'. close_uncomplete fd st = Some st' \<and> np_holds st' xs \<and> pending st' = (pending st)(fd := [])"
  using find_uncomplete_holds [OF assms] by (auto simp: close_uncomplete_def)

lemma those_map: "(\<And>x. x \<in> set xs \<Longrightarrow> f x = Some (g x)) \<Longrightarrow> those (map f xs) = Some (map g xs)"
  by (induction xs) auto

lemma ring_slot:
  assumes "ring_repr slots head tail xs" "k < length xs"
  shows "(head + k) mod length slots < length slots" "slots ! ((head + k) mod length slots) = Some (xs ! k)"
proof -
  show "(head + k) mod length slots < length slots" using assms(1) by (auto simp: ring_repr_def intro!: mod_less_divisor)
  have "ring_list slots head (length xs) = map Some xs" using assms(1) unfolding ring_repr_def by blast
  then have "ring_list slots head (length xs) ! k = map Some xs ! k" by simp
  then show "slots ! ((head + k) mod length slots) = Some (xs ! k)" using assms(2) by (simp add: ring_list_def)
qed

text \<open>\<^verbatim>\<open>lclear\<close> frees the buffer of every entry and of every packet, and leaves nothing.\<close>

lemma lclear_holds:
  assumes "np_holds st xs"
  shows "\<exists>partial st'. lclear st = Some (partial @ map snd xs, st') \<and> np_holds st' [] \<and> pending st' = (\<lambda>_. [])"
proof (cases st)
  case None
  with assms show ?thesis by (simp add: np_holds_def lclear_def pending_def fun_eq_iff)
next
  case (Some q)
  have c: "chains_ok (np_hash q)" "np_cap q = length (np_queue q)" "QUEUESIZE \<le> np_cap q"
    and r: "ring_repr (np_queue q) (np_head q) (np_tail q) (map packed xs)" using assms Some by (simp_all add: np_holds_def)
  define tail where "tail = (if np_head q > np_tail q then np_tail q + np_cap q else np_tail q)"
  have t: "tail = np_head q + length xs"
    using ring_reprD(1,4) [OF r] c(2) by (auto simp: tail_def ring_len_def split: if_splits)
  have sl: "c_index (np_queue q) (i mod np_cap q) \<bind> (\<lambda>slot. slot) = Some (packed (xs ! (i - np_head q)))"
    if "i \<in> set [np_head q..<tail]" for i
    using ring_slot [OF r, of "i - np_head q"] that t c(2) by (auto simp: less_diff_conv2)
  have "those (map (\<lambda>i. c_index (np_queue q) (i mod np_cap q) \<bind> (\<lambda>slot. slot)) [np_head q..<tail]) =
      Some (map (\<lambda>i. packed (xs ! (i - np_head q))) [np_head q..<tail])" using sl by (rule those_map)
  also have "map (\<lambda>i. packed (xs ! (i - np_head q))) [np_head q..<tail] = map packed xs"
    by (rule nth_equalityI) (simp_all add: t)
  finally have th: "those (map (\<lambda>i. c_index (np_queue q) (i mod np_cap q) \<bind> (\<lambda>slot. slot)) [np_head q..<tail]) = Some (map packed xs)" .
  let ?q = "q\<lparr>np_hash := replicate NP_HASHSIZE [], np_head := 0, np_tail := 0\<rparr>"
  have "lclear st = Some (map (\<lambda>uc. np_buffer (uc_pack uc)) (concat (np_hash q)) @ map snd xs, Some ?q)"
    using Some th by (simp add: lclear_def tail_def [symmetric] comp_def packed_def case_prod_beta)
  moreover have "ring_repr (np_queue q) 0 0 []" using c by (auto simp: ring_repr_def ring_len_def ring_list_def QUEUESIZE_def)
  then have "np_holds (Some ?q) []" using c by (simp add: np_holds_def chains_ok_def)
  moreover have "pending (Some ?q) = (\<lambda>_. [])"
    by (rule ext) (auto simp: pending_def entry_def dest: hash_fd_less split: option.split)
  ultimately show ?thesis by blast
qed

text \<open>The socket number that a message makes the code look up, and its bytes.\<close>

definition message_ok :: "np_message \<Rightarrow> bool" where
  "message_ok m \<longleftrightarrow> (case m of NmData fd b \<Rightarrow> fd_ok fd \<and> b \<noteq> [] | NmClose fd \<Rightarrow> fd_ok fd | NmError fd _ \<Rightarrow> fd_ok fd | _ \<Rightarrow> True)"

fun message_bytes :: "np_message \<Rightarrow> u8 list" where
  "message_bytes (NmData fd b) = b"
| "message_bytes _ = []"

text \<open>
  (C19) Well-formedness: every entry sits in the chain of its socket, at most one for a socket, with fewer bytes than its
  packet has, and the ring holds the queued packets. No operation faults in such a state, each leads to such
  a state again, messages only add packets behind the queued ones, popping takes the first, and clearing frees every queued packet.
\<close>

theorem netpack_keeps_wellformed:
  assumes "np_holds st xs" "message_ok m" "length xs + 1 + length (message_bytes m) \<le> np_limit"
  shows "(\<exists>r st' ys. lfilter m st = Some (r, st') \<and> np_holds st' (xs @ ys)) \<and>
    (\<exists>st'. np_lpop st = Some (if xs = [] then None else Some (xs ! 0), st') \<and> np_holds st' (drop 1 xs)) \<and>
    (\<exists>partial st'. lclear st = Some (partial @ map snd xs, st') \<and> np_holds st' [])"
proof (intro conjI)
  show "\<exists>r st' ys. lfilter m st = Some (r, st') \<and> np_holds st' (xs @ ys)"
  proof (cases m)
    case (NmData fd b)
    with assms filter_data_holds [OF assms(1), of fd b] show ?thesis by (auto simp: lfilter_def message_ok_def)
  next
    case (NmClose fd)
    with assms(2) close_holds [OF assms(1), of fd] obtain st' where "close_uncomplete fd st = Some st'" "np_holds st' xs"
      by (auto simp: message_ok_def)
    with NmClose show ?thesis by (intro exI [of _ "NpClose fd"] exI [of _ st'] exI [of _ "[]"]) (simp add: lfilter_def)
  next
    case (NmError fd msg)
    with assms(2) close_holds [OF assms(1), of fd] obtain st' where "close_uncomplete fd st = Some st'" "np_holds st' xs"
      by (auto simp: message_ok_def)
    with NmError show ?thesis by (intro exI [of _ "NpError fd msg"] exI [of _ st'] exI [of _ "[]"]) (simp add: lfilter_def)
  qed (use assms(1) in \<open>auto simp: lfilter_def intro!: exI [of _ "[]"]\<close>)
  show "\<exists>st'. np_lpop st = Some (if xs = [] then None else Some (xs ! 0), st') \<and> np_holds st' (drop 1 xs)"
  proof (cases xs)
    case Nil
    with assms(1) np_lpop_Nil [of st] show ?thesis by auto
  next
    case (Cons x ys)
    with assms(1) np_lpop_Cons [of st "fst x" "snd x" ys] show ?thesis by auto
  qed
  show "\<exists>partial st'. lclear st = Some (partial @ map snd xs, st') \<and> np_holds st' []"
    using lclear_holds [OF assms(1)] by blast
qed

lemma netpack_keeps_wellformed_witness:
  "\<exists>r st' ys. lfilter (NmData 3 [0, 2, 7]) None = Some (r, st') \<and> np_holds st' ys"
proof -
  have "np_holds None []" "message_ok (NmData 3 [0, 2, 7])" by (simp_all add: np_holds_def message_ok_def fd_ok_def)
  from netpack_keeps_wellformed [OF this] show ?thesis by (simp add: np_limit_def)
qed

end
