(* ===== verification/Des.thy ===== *)
theory Des
  imports Cstring
begin

text \<open>
  The DES cipher of the login handshake (\<^verbatim>\<open>lualib-src/lua-crypt.c\<close>): key schedule, the cipher on a block, and the two
  operations for Lua on texts of any length, with their padding. A Lua error is the left value of a result.
\<close>

section \<open>Tables\<close>

definition SB1 :: "u32 list" where
  "SB1 = [
    0x01010400, 0x00000000, 0x00010000, 0x01010404, 0x01010004, 0x00010404, 0x00000004, 0x00010000,
    0x00000400, 0x01010400, 0x01010404, 0x00000400, 0x01000404, 0x01010004, 0x01000000, 0x00000004,
    0x00000404, 0x01000400, 0x01000400, 0x00010400, 0x00010400, 0x01010000, 0x01010000, 0x01000404,
    0x00010004, 0x01000004, 0x01000004, 0x00010004, 0x00000000, 0x00000404, 0x00010404, 0x01000000,
    0x00010000, 0x01010404, 0x00000004, 0x01010000, 0x01010400, 0x01000000, 0x01000000, 0x00000400,
    0x01010004, 0x00010000, 0x00010400, 0x01000004, 0x00000400, 0x00000004, 0x01000404, 0x00010404,
    0x01010404, 0x00010004, 0x01010000, 0x01000404, 0x01000004, 0x00000404, 0x00010404, 0x01010400,
    0x00000404, 0x01000400, 0x01000400, 0x00000000, 0x00010004, 0x00010400, 0x00000000, 0x01010004]"

definition SB2 :: "u32 list" where
  "SB2 = [
    0x80108020, 0x80008000, 0x00008000, 0x00108020, 0x00100000, 0x00000020, 0x80100020, 0x80008020,
    0x80000020, 0x80108020, 0x80108000, 0x80000000, 0x80008000, 0x00100000, 0x00000020, 0x80100020,
    0x00108000, 0x00100020, 0x80008020, 0x00000000, 0x80000000, 0x00008000, 0x00108020, 0x80100000,
    0x00100020, 0x80000020, 0x00000000, 0x00108000, 0x00008020, 0x80108000, 0x80100000, 0x00008020,
    0x00000000, 0x00108020, 0x80100020, 0x00100000, 0x80008020, 0x80100000, 0x80108000, 0x00008000,
    0x80100000, 0x80008000, 0x00000020, 0x80108020, 0x00108020, 0x00000020, 0x00008000, 0x80000000,
    0x00008020, 0x80108000, 0x00100000, 0x80000020, 0x00100020, 0x80008020, 0x80000020, 0x00100020,
    0x00108000, 0x00000000, 0x80008000, 0x00008020, 0x80000000, 0x80100020, 0x80108020, 0x00108000]"

definition SB3 :: "u32 list" where
  "SB3 = [
    0x00000208, 0x08020200, 0x00000000, 0x08020008, 0x08000200, 0x00000000, 0x00020208, 0x08000200,
    0x00020008, 0x08000008, 0x08000008, 0x00020000, 0x08020208, 0x00020008, 0x08020000, 0x00000208,
    0x08000000, 0x00000008, 0x08020200, 0x00000200, 0x00020200, 0x08020000, 0x08020008, 0x00020208,
    0x08000208, 0x00020200, 0x00020000, 0x08000208, 0x00000008, 0x08020208, 0x00000200, 0x08000000,
    0x08020200, 0x08000000, 0x00020008, 0x00000208, 0x00020000, 0x08020200, 0x08000200, 0x00000000,
    0x00000200, 0x00020008, 0x08020208, 0x08000200, 0x08000008, 0x00000200, 0x00000000, 0x08020008,
    0x08000208, 0x00020000, 0x08000000, 0x08020208, 0x00000008, 0x00020208, 0x00020200, 0x08000008,
    0x08020000, 0x08000208, 0x00000208, 0x08020000, 0x00020208, 0x00000008, 0x08020008, 0x00020200]"

definition SB4 :: "u32 list" where
  "SB4 = [
    0x00802001, 0x00002081, 0x00002081, 0x00000080, 0x00802080, 0x00800081, 0x00800001, 0x00002001,
    0x00000000, 0x00802000, 0x00802000, 0x00802081, 0x00000081, 0x00000000, 0x00800080, 0x00800001,
    0x00000001, 0x00002000, 0x00800000, 0x00802001, 0x00000080, 0x00800000, 0x00002001, 0x00002080,
    0x00800081, 0x00000001, 0x00002080, 0x00800080, 0x00002000, 0x00802080, 0x00802081, 0x00000081,
    0x00800080, 0x00800001, 0x00802000, 0x00802081, 0x00000081, 0x00000000, 0x00000000, 0x00802000,
    0x00002080, 0x00800080, 0x00800081, 0x00000001, 0x00802001, 0x00002081, 0x00002081, 0x00000080,
    0x00802081, 0x00000081, 0x00000001, 0x00002000, 0x00800001, 0x00002001, 0x00802080, 0x00800081,
    0x00002001, 0x00002080, 0x00800000, 0x00802001, 0x00000080, 0x00800000, 0x00002000, 0x00802080]"

definition SB5 :: "u32 list" where
  "SB5 = [
    0x00000100, 0x02080100, 0x02080000, 0x42000100, 0x00080000, 0x00000100, 0x40000000, 0x02080000,
    0x40080100, 0x00080000, 0x02000100, 0x40080100, 0x42000100, 0x42080000, 0x00080100, 0x40000000,
    0x02000000, 0x40080000, 0x40080000, 0x00000000, 0x40000100, 0x42080100, 0x42080100, 0x02000100,
    0x42080000, 0x40000100, 0x00000000, 0x42000000, 0x02080100, 0x02000000, 0x42000000, 0x00080100,
    0x00080000, 0x42000100, 0x00000100, 0x02000000, 0x40000000, 0x02080000, 0x42000100, 0x40080100,
    0x02000100, 0x40000000, 0x42080000, 0x02080100, 0x40080100, 0x00000100, 0x02000000, 0x42080000,
    0x42080100, 0x00080100, 0x42000000, 0x42080100, 0x02080000, 0x00000000, 0x40080000, 0x42000000,
    0x00080100, 0x02000100, 0x40000100, 0x00080000, 0x00000000, 0x40080000, 0x02080100, 0x40000100]"

definition SB6 :: "u32 list" where
  "SB6 = [
    0x20000010, 0x20400000, 0x00004000, 0x20404010, 0x20400000, 0x00000010, 0x20404010, 0x00400000,
    0x20004000, 0x00404010, 0x00400000, 0x20000010, 0x00400010, 0x20004000, 0x20000000, 0x00004010,
    0x00000000, 0x00400010, 0x20004010, 0x00004000, 0x00404000, 0x20004010, 0x00000010, 0x20400010,
    0x20400010, 0x00000000, 0x00404010, 0x20404000, 0x00004010, 0x00404000, 0x20404000, 0x20000000,
    0x20004000, 0x00000010, 0x20400010, 0x00404000, 0x20404010, 0x00400000, 0x00004010, 0x20000010,
    0x00400000, 0x20004000, 0x20000000, 0x00004010, 0x20000010, 0x20404010, 0x00404000, 0x20400000,
    0x00404010, 0x20404000, 0x00000000, 0x20400010, 0x00000010, 0x00004000, 0x20400000, 0x00404010,
    0x00004000, 0x00400010, 0x20004010, 0x00000000, 0x20404000, 0x20000000, 0x00400010, 0x20004010]"

definition SB7 :: "u32 list" where
  "SB7 = [
    0x00200000, 0x04200002, 0x04000802, 0x00000000, 0x00000800, 0x04000802, 0x00200802, 0x04200800,
    0x04200802, 0x00200000, 0x00000000, 0x04000002, 0x00000002, 0x04000000, 0x04200002, 0x00000802,
    0x04000800, 0x00200802, 0x00200002, 0x04000800, 0x04000002, 0x04200000, 0x04200800, 0x00200002,
    0x04200000, 0x00000800, 0x00000802, 0x04200802, 0x00200800, 0x00000002, 0x04000000, 0x00200800,
    0x04000000, 0x00200800, 0x00200000, 0x04000802, 0x04000802, 0x04200002, 0x04200002, 0x00000002,
    0x00200002, 0x04000000, 0x04000800, 0x00200000, 0x04200800, 0x00000802, 0x00200802, 0x04200800,
    0x00000802, 0x04000002, 0x04200802, 0x04200000, 0x00200800, 0x00000000, 0x00000002, 0x04200802,
    0x00000000, 0x00200802, 0x04200000, 0x00000800, 0x04000002, 0x04000800, 0x00000800, 0x00200002]"

definition SB8 :: "u32 list" where
  "SB8 = [
    0x10001040, 0x00001000, 0x00040000, 0x10041040, 0x10000000, 0x10001040, 0x00000040, 0x10000000,
    0x00040040, 0x10040000, 0x10041040, 0x00041000, 0x10041000, 0x00041040, 0x00001000, 0x00000040,
    0x10040000, 0x10000040, 0x10001000, 0x00001040, 0x00041000, 0x00040040, 0x10040040, 0x10041000,
    0x00001040, 0x00000000, 0x00000000, 0x10040040, 0x10000040, 0x10001000, 0x00041040, 0x00040000,
    0x00041040, 0x00040000, 0x10041000, 0x00001000, 0x00000040, 0x10040040, 0x00001000, 0x00041040,
    0x10001000, 0x00000040, 0x10000040, 0x10040000, 0x10040040, 0x10000000, 0x00040000, 0x10001040,
    0x00000000, 0x10041040, 0x00040040, 0x10000040, 0x10040000, 0x10001000, 0x10001040, 0x00000000,
    0x10041040, 0x00041000, 0x00041000, 0x00001040, 0x00001040, 0x00040040, 0x10000000, 0x10041000]"

definition LHs :: "u32 list" where
  "LHs = [
    0x00000000, 0x00000001, 0x00000100, 0x00000101, 0x00010000, 0x00010001, 0x00010100, 0x00010101,
    0x01000000, 0x01000001, 0x01000100, 0x01000101, 0x01010000, 0x01010001, 0x01010100, 0x01010101]"

definition RHs :: "u32 list" where
  "RHs = [
    0x00000000, 0x01000000, 0x00010000, 0x01010000, 0x00000100, 0x01000100, 0x00010100, 0x01010100,
    0x00000001, 0x01000001, 0x00010001, 0x01010001, 0x00000101, 0x01000101, 0x00010101, 0x01010101]"

text \<open>The macros \<^verbatim>\<open>GET_UINT32\<close> and \<^verbatim>\<open>PUT_UINT32\<close>.\<close>

definition get_uint32 :: "u8 list \<Rightarrow> nat \<Rightarrow> u32" where
  "get_uint32 b i = push_bit 24 (ucast (b ! i)) OR push_bit 16 (ucast (b ! (i + 1))) OR push_bit 8 (ucast (b ! (i + 2))) OR
     ucast (b ! (i + 3))"

definition put_uint32 :: "u32 \<Rightarrow> u8 list" where
  "put_uint32 n = [ucast (drop_bit 24 n), ucast (drop_bit 16 n), ucast (drop_bit 8 n), ucast n]"

section \<open>Permutations\<close>

text \<open>
  The line \<^verbatim>\<open>T = ((X >> n) ^ Y) & m; Y ^= T; X ^= (T << n)\<close> of the macros, which swaps bits of two words, and a rotation.
\<close>

definition swap_move :: "nat \<Rightarrow> u32 \<Rightarrow> u32 \<Rightarrow> u32 \<Rightarrow> u32 \<times> u32" where
  "swap_move n m X Y = (let T = (drop_bit n X XOR Y) AND m in (X XOR push_bit n T, Y XOR T))"

definition rotl1 :: "u32 \<Rightarrow> u32" where "rotl1 X = push_bit 1 X OR drop_bit 31 X"
definition rotr1 :: "u32 \<Rightarrow> u32" where "rotr1 X = push_bit 31 X OR drop_bit 1 X"

definition DES_IP :: "u32 \<Rightarrow> u32 \<Rightarrow> u32 \<times> u32" where
  "DES_IP X Y = (
     let (X, Y) = swap_move 4 0x0F0F0F0F X Y;
         (X, Y) = swap_move 16 0x0000FFFF X Y;
         (Y, X) = swap_move 2 0x33333333 Y X;
         (Y, X) = swap_move 8 0x00FF00FF Y X;
         Y = rotl1 Y;
         (X, Y) = swap_move 0 0xAAAAAAAA X Y;
         X = rotl1 X
     in (X, Y))"

definition DES_FP :: "u32 \<Rightarrow> u32 \<Rightarrow> u32 \<times> u32" where
  "DES_FP X Y = (
     let X = rotr1 X;
         (X, Y) = swap_move 0 0xAAAAAAAA X Y;
         Y = rotr1 Y;
         (Y, X) = swap_move 8 0x00FF00FF Y X;
         (Y, X) = swap_move 2 0x33333333 Y X;
         (X, Y) = swap_move 16 0x0000FFFF X Y;
         (X, Y) = swap_move 4 0x0F0F0F0F X Y
     in (X, Y))"

section \<open>Key schedule\<close>

definition half_key :: "u32 list \<Rightarrow> u32 \<Rightarrow> nat list \<Rightarrow> u32" where
  "half_key T X ns = foldr (\<lambda>(n, s) acc. push_bit s (T ! unat (drop_bit n X AND 0xF)) OR acc) (zip ns [3, 2, 1, 0, 7, 6, 5, 4]) 0 AND 0x0FFFFFFF"

text \<open>The first half reads the bits 0, 8, 16, 24, 5, 13, 21, 29 on, the second the bits 1, 9, 17, 25, 4, 12, 20, 28 on.\<close>

definition rot28 :: "nat \<Rightarrow> u32 \<Rightarrow> u32" where
  "rot28 n X = (push_bit n X OR drop_bit (28 - n) X) AND 0x0FFFFFFF"

definition subkey1 :: "u32 \<Rightarrow> u32 \<Rightarrow> u32" where
  "subkey1 X Y =
    (push_bit 4 X AND 0x24000000) OR (push_bit 28 X AND 0x10000000) OR (push_bit 14 X AND 0x08000000) OR
    (push_bit 18 X AND 0x02080000) OR (push_bit 6 X AND 0x01000000) OR (push_bit 9 X AND 0x00200000) OR
    (drop_bit 1 X AND 0x00100000) OR (push_bit 10 X AND 0x00040000) OR (push_bit 2 X AND 0x00020000) OR
    (drop_bit 10 X AND 0x00010000) OR (drop_bit 13 Y AND 0x00002000) OR (drop_bit 4 Y AND 0x00001000) OR
    (push_bit 6 Y AND 0x00000800) OR (drop_bit 1 Y AND 0x00000400) OR (drop_bit 14 Y AND 0x00000200) OR
    (Y AND 0x00000100) OR (drop_bit 5 Y AND 0x00000020) OR (drop_bit 10 Y AND 0x00000010) OR
    (drop_bit 3 Y AND 0x00000008) OR (drop_bit 18 Y AND 0x00000004) OR (drop_bit 26 Y AND 0x00000002) OR
    (drop_bit 24 Y AND 0x00000001)"

definition subkey2 :: "u32 \<Rightarrow> u32 \<Rightarrow> u32" where
  "subkey2 X Y =
    (push_bit 15 X AND 0x20000000) OR (push_bit 17 X AND 0x10000000) OR (push_bit 10 X AND 0x08000000) OR
    (push_bit 22 X AND 0x04000000) OR (drop_bit 2 X AND 0x02000000) OR (push_bit 1 X AND 0x01000000) OR
    (push_bit 16 X AND 0x00200000) OR (push_bit 11 X AND 0x00100000) OR (push_bit 3 X AND 0x00080000) OR
    (drop_bit 6 X AND 0x00040000) OR (push_bit 15 X AND 0x00020000) OR (drop_bit 4 X AND 0x00010000) OR
    (drop_bit 2 Y AND 0x00002000) OR (push_bit 8 Y AND 0x00001000) OR (drop_bit 14 Y AND 0x00000808) OR
    (drop_bit 9 Y AND 0x00000400) OR (Y AND 0x00000200) OR (push_bit 7 Y AND 0x00000100) OR
    (drop_bit 7 Y AND 0x00000020) OR (drop_bit 3 Y AND 0x00000011) OR (push_bit 2 Y AND 0x00000004) OR
    (drop_bit 21 Y AND 0x00000002)"

fun key_rounds :: "nat list \<Rightarrow> u32 \<Rightarrow> u32 \<Rightarrow> u32 list" where
  "key_rounds [] X Y = []"
| "key_rounds (i # rest) X Y = (let n = (if i < 2 \<or> i = 8 \<or> i = 15 then 1 else 2); X = rot28 n X; Y = rot28 n Y in
     subkey1 X Y # subkey2 X Y # key_rounds rest X Y)"

definition des_main_ks :: "u8 list \<Rightarrow> u32 list" where
  "des_main_ks key = (
     let X = get_uint32 key 0; Y = get_uint32 key 4;
         T = (drop_bit 4 Y XOR X) AND 0x0F0F0F0F; X = X XOR T; Y = Y XOR push_bit 4 T;
         T = (Y XOR X) AND 0x10101010; X = X XOR T; Y = Y XOR T;
         X = half_key LHs X [0, 8, 16, 24, 5, 13, 21, 29];
         Y = half_key RHs Y [1, 9, 17, 25, 4, 12, 20, 28]
     in key_rounds [0..<16] X Y)"

section \<open>The cipher on a block\<close>

text \<open>What \<^verbatim>\<open>DES_ROUND(X,Y)\<close> adds to \<^verbatim>\<open>Y\<close>, with the two words it takes from the key.\<close>

definition des_f :: "u32 \<Rightarrow> u32 \<Rightarrow> u32 \<Rightarrow> u32" where
  "des_f k1 k2 X = (
     let T = k1 XOR X;
         a = SB8 ! unat (T AND 0x3F) XOR SB6 ! unat (drop_bit 8 T AND 0x3F) XOR SB4 ! unat (drop_bit 16 T AND 0x3F) XOR
             SB2 ! unat (drop_bit 24 T AND 0x3F);
         T = k2 XOR (push_bit 28 X OR drop_bit 4 X)
     in a XOR SB7 ! unat (T AND 0x3F) XOR SB5 ! unat (drop_bit 8 T AND 0x3F) XOR SB3 ! unat (drop_bit 16 T AND 0x3F) XOR
        SB1 ! unat (drop_bit 24 T AND 0x3F))"

text \<open>The lines \<^verbatim>\<open>DES_ROUND(Y,X); DES_ROUND(X,Y)\<close>.\<close>

fun des_rounds :: "u32 list \<Rightarrow> u32 \<times> u32 \<Rightarrow> u32 \<times> u32" where
  "des_rounds (k0 # k1 # k2 # k3 # ks) (X, Y) =
     (let X = X XOR des_f k0 k1 Y; Y = Y XOR des_f k2 k3 X in des_rounds ks (X, Y))"
| "des_rounds _ XY = XY"

definition des_crypt :: "u32 list \<Rightarrow> u8 list \<Rightarrow> u8 list" where
  "des_crypt SK input = (
     let (X, Y) = DES_IP (get_uint32 input 0) (get_uint32 input 4);
         (X, Y) = des_rounds SK (X, Y);
         (Y, X) = DES_FP Y X
     in put_uint32 Y @ put_uint32 X)"

section \<open>Texts\<close>

definition des_key :: "u8 list \<Rightarrow> string + u32 list" where
  "des_key key = (if length key \<noteq> 8 then Inl (''Invalid key size '' @ show_int (int (length key)) @ '', need 8 bytes'') else Inr (des_main_ks key))"

text \<open>The loop over the blocks of 8 bytes; the rest has fewer.\<close>

fun des_blocks :: "u32 list \<Rightarrow> u8 list \<Rightarrow> u8 list \<times> u8 list" where
  "des_blocks SK (a # b # c # d # e # f # g # h # text) =
     (case des_blocks SK text of (out, rest) \<Rightarrow> (des_crypt SK [a, b, c, d, e, f, g, h] @ out, rest))"
| "des_blocks SK text = ([], text)"

definition ldesencode :: "u8 list \<Rightarrow> u8 list \<Rightarrow> (string + u8 list) option" where
  "ldesencode key text = (case des_key key of
       Inl e \<Rightarrow> Some (Inl e)
     | Inr SK \<Rightarrow> do {
         c_assert (length text + 8 \<le> INT_MAX);
         let (out, rest) = des_blocks SK text;
         let tail = rest @ [0x80] @ replicate (7 - length rest) 0;
         Some (Inr (out @ des_crypt SK tail)) })"

text \<open>The keys of the decoder: the pairs of the encoder in the opposite order.\<close>

fun reverse_pairs :: "u32 list \<Rightarrow> u32 list" where
  "reverse_pairs (a # b # ks) = reverse_pairs ks @ [a, b]"
| "reverse_pairs _ = []"

text \<open>
  The search for the byte 0x80 from the end, over the last block reversed. The bound of the loop is compared as unsigned
  numbers: for a text of one block it never stops the loop, which then reads in front of the buffer.
\<close>

fun find_padding :: "bool \<Rightarrow> nat \<Rightarrow> u8 list \<Rightarrow> (string + nat) option" where
  "find_padding one_block padding [] = (if one_block then None else Some (Inl ''Invalid des crypt text''))"
| "find_padding one_block padding (c # cs) =
     (if c = 0 then find_padding one_block (padding + 1) cs
      else if c = 0x80 then Some (Inr padding)
      else Some (Inl ''Invalid des crypt text''))"

definition ldesdecode :: "u8 list \<Rightarrow> u8 list \<Rightarrow> (string + u8 list) option" where
  "ldesdecode key text = (case des_key key of
       Inl e \<Rightarrow> Some (Inl e)
     | Inr ESK \<Rightarrow>
         if length text mod 8 \<noteq> 0 \<or> text = [] then Some (Inl (''Invalid des crypt text length '' @ show_int (int (length text))))
         else do {
           c_assert (length text \<le> INT_MAX);
           let buffer = fst (des_blocks (reverse_pairs ESK) text);
           r \<leftarrow> find_padding (length text = 8) 1 (rev (drop (length text - 8) buffer));
           case r of Inl e \<Rightarrow> Some (Inl e)
           | Inr padding \<Rightarrow> Some (if padding > 8 then Inl ''Invalid des crypt text'' else Inr (take (length text - padding) buffer)) })"

section \<open>The permutations undo each other\<close>

lemma swap_move_undo:
  assumes "drop_bit n (push_bit n m) = m" "swap_move n m X Y = (X', Y')"
  shows "swap_move n m X' Y' = (X, Y)"
proof -
  define T where "T = (drop_bit n X XOR Y) AND m"
  have d: "drop_bit n (push_bit n T) = T"
  proof (rule bit_word_eqI)
    fix k
    assume "k < LENGTH(32)"
    have "bit (drop_bit n (push_bit n m)) k = bit m k" by (simp only: assms(1))
    then show "bit (drop_bit n (push_bit n T)) k = bit T k" by (auto simp: T_def bit_simps)
  qed
  have xy: "X' = X XOR push_bit n T" "Y' = Y XOR T" using assms(2) by (simp_all add: swap_move_def T_def)
  have "(drop_bit n X' XOR Y') AND m = T"
  proof (rule bit_word_eqI)
    fix k
    assume "k < LENGTH(32)"
    have "bit (drop_bit n (push_bit n T)) k = bit T k" by (simp only: d)
    then show "bit ((drop_bit n X' XOR Y') AND m) k = bit T k" by (auto simp: xy T_def bit_simps)
  qed
  then show ?thesis by (simp add: swap_move_def xy xor.assoc)
qed

lemma bit_rotl1: "j < 32 \<Longrightarrow> bit (rotl1 X) j = (if j = 0 then bit X 31 else bit X (j - 1))"
  unfolding rotl1_def bit_or_iff bit_push_bit_iff bit_drop_bit_eq comp_def
  by (cases "j = 0") (auto dest: bit_imp_le_length)

lemma bit_rotr1: "j < 32 \<Longrightarrow> bit (rotr1 X) j = (if j = 31 then bit X 0 else bit X (j + 1))"
  unfolding rotr1_def bit_or_iff bit_push_bit_iff bit_drop_bit_eq comp_def
  by (cases "j = 31") (auto dest: bit_imp_le_length)

lemma rotl1_rotr1 [simp]: "rotr1 (rotl1 X) = X" "rotl1 (rotr1 X) = X"
proof -
  show "rotr1 (rotl1 X) = X" by (rule bit_word_eqI) (auto simp: bit_rotl1 bit_rotr1)
  show "rotl1 (rotr1 X) = X" by (rule bit_word_eqI) (auto simp: bit_rotl1 bit_rotr1)
qed

lemma masks:
  "drop_bit 4 (push_bit 4 0x0F0F0F0F) = (0x0F0F0F0F :: u32)" "drop_bit 16 (push_bit 16 0x0000FFFF) = (0x0000FFFF :: u32)"
  "drop_bit 2 (push_bit 2 0x33333333) = (0x33333333 :: u32)" "drop_bit 8 (push_bit 8 0x00FF00FF) = (0x00FF00FF :: u32)"
  "drop_bit 0 (push_bit 0 0xAAAAAAAA) = (0xAAAAAAAA :: u32)"
  by simp_all

lemmas swap_undo = swap_move_undo [OF masks(1)] swap_move_undo [OF masks(2)] swap_move_undo [OF masks(3)]
  swap_move_undo [OF masks(4)] swap_move_undo [OF masks(5)]

lemma DES_FP_IP: "DES_IP X Y = (X', Y') \<Longrightarrow> DES_FP X' Y' = (X, Y)"
proof -
  obtain X1 Y1 where s1: "swap_move 4 0x0F0F0F0F X Y = (X1, Y1)" by fastforce
  obtain X2 Y2 where s2: "swap_move 16 0x0000FFFF X1 Y1 = (X2, Y2)" by fastforce
  obtain X3 Y3 where s3: "swap_move 2 0x33333333 Y2 X2 = (Y3, X3)" by fastforce
  obtain X4 Y4 where s4: "swap_move 8 0x00FF00FF Y3 X3 = (Y4, X4)" by fastforce
  obtain X5 Y5 where s5: "swap_move 0 0xAAAAAAAA X4 (rotl1 Y4) = (X5, Y5)" by fastforce
  assume "DES_IP X Y = (X', Y')"
  then have xy: "X' = rotl1 X5" "Y' = Y5" by (simp_all only: DES_IP_def Let_def s1 s2 s3 s4 s5 prod.case prod.inject)
  show ?thesis
    unfolding xy DES_FP_def Let_def rotl1_rotr1 swap_undo(5) [OF s5] prod.case swap_undo(4) [OF s4] swap_undo(3) [OF s3]
      swap_undo(2) [OF s2] swap_undo(1) [OF s1] by (rule refl)
qed

lemma DES_IP_FP: "DES_FP X Y = (X', Y') \<Longrightarrow> DES_IP X' Y' = (X, Y)"
proof -
  obtain X1 Y1 where s1: "swap_move 0 0xAAAAAAAA (rotr1 X) Y = (X1, Y1)" by fastforce
  obtain X2 Y2 where s2: "swap_move 8 0x00FF00FF (rotr1 Y1) X1 = (Y2, X2)" by fastforce
  obtain X3 Y3 where s3: "swap_move 2 0x33333333 Y2 X2 = (Y3, X3)" by fastforce
  obtain X4 Y4 where s4: "swap_move 16 0x0000FFFF X3 Y3 = (X4, Y4)" by fastforce
  obtain X5 Y5 where s5: "swap_move 4 0x0F0F0F0F X4 Y4 = (X5, Y5)" by fastforce
  assume "DES_FP X Y = (X', Y')"
  then have xy: "X' = X5" "Y' = Y5" by (simp_all only: DES_FP_def Let_def s1 s2 s3 s4 s5 prod.case prod.inject)
  show ?thesis
    unfolding xy DES_IP_def Let_def swap_undo(1) [OF s5] prod.case swap_undo(2) [OF s4] swap_undo(3) [OF s3]
      swap_undo(4) [OF s2] rotl1_rotr1 swap_undo(5) [OF s1] by (rule refl)
qed

section \<open>The rounds undo each other\<close>

text \<open>One round at a time, with the halves exchanged behind each.\<close>

fun feistel :: "(u32 \<times> u32) list \<Rightarrow> u32 \<times> u32 \<Rightarrow> u32 \<times> u32" where
  "feistel [] XY = XY"
| "feistel ((k1, k2) # ks) (X, Y) = feistel ks (Y, X XOR des_f k1 k2 Y)"

lemma feistel_append: "feistel (ks @ ls) XY = feistel ls (feistel ks XY)"
  by (induction ks XY rule: feistel.induct) simp_all

lemma feistel_undo: "feistel (rev ks) (prod.swap (feistel ks XY)) = prod.swap XY"
  by (induction ks XY rule: feistel.induct) (simp_all add: feistel_append xor.assoc)

fun unpair :: "(u32 \<times> u32) list \<Rightarrow> u32 list" where
  "unpair [] = []"
| "unpair ((a, b) # ks) = a # b # unpair ks"

lemma unpair_append: "unpair (ks @ ls) = unpair ks @ unpair ls"
  by (induction ks rule: unpair.induct) simp_all

lemma reverse_unpair: "reverse_pairs (unpair ks) = unpair (rev ks)"
  by (induction ks rule: unpair.induct) (simp_all add: unpair_append)

lemma rounds_feistel: "even (length ks) \<Longrightarrow> des_rounds (unpair ks) XY = feistel ks XY"
proof (induction ks arbitrary: XY rule: induct_list012)
  case (3 k l ks)
  then show ?case by (cases k; cases l; cases XY) (simp add: Let_def)
qed (cases XY; simp)+

lemma rounds_undo: "even (length ks) \<Longrightarrow> des_rounds (unpair ks) (X, Y) = (X', Y') \<Longrightarrow> des_rounds (unpair (rev ks)) (Y', X') = (Y, X)"
  using feistel_undo [of ks "(X, Y)"] by (simp add: rounds_feistel)

section \<open>A block\<close>

lemma byte_of_word: "(ucast (ucast w :: u8) :: u32) = take_bit 8 w"
  by (rule bit_word_eqI) (auto simp: bit_simps)

lemma four_bytes: "push_bit 24 (take_bit 8 (drop_bit 24 n)) OR push_bit 16 (take_bit 8 (drop_bit 16 n)) OR
    push_bit 8 (take_bit 8 (drop_bit 8 n)) OR take_bit 8 n = (n :: u32)" (is "?w = n")
proof (rule bit_word_eqI)
  fix k
  assume k: "k < LENGTH(32)"
  have b: "bit ?w k \<longleftrightarrow> 24 \<le> k \<and> k - 24 < 8 \<and> bit n (24 + (k - 24)) \<or> 16 \<le> k \<and> k - 16 < 8 \<and> bit n (16 + (k - 16)) \<or>
      8 \<le> k \<and> k - 8 < 8 \<and> bit n (8 + (k - 8)) \<or> k < 8 \<and> bit n k"
    using k by (simp only: bit_or_iff bit_push_bit_iff bit_take_bit_iff bit_drop_bit_eq comp_def possible_bit_word) blast
  consider "k < 8" | "8 \<le> k" "k < 16" | "16 \<le> k" "k < 24" | "24 \<le> k" "k < 32" using k by fastforce
  then show "bit ?w k = bit n k" unfolding b by cases (auto simp: less_diff_conv2)
qed

lemma put_uint32_bytes: "put_uint32 n @ bs = ucast (drop_bit 24 n) # ucast (drop_bit 16 n) # ucast (drop_bit 8 n) # ucast n # bs"
  by (simp add: put_uint32_def)

lemma get_uint32_four: "get_uint32 (a # b # c # d # bs) 0 = push_bit 24 (ucast a) OR push_bit 16 (ucast b) OR push_bit 8 (ucast c) OR ucast d"
  by (simp add: get_uint32_def numeral_2_eq_2 numeral_3_eq_3)

lemma get_put_uint32 [simp]: "get_uint32 (put_uint32 n @ bs) 0 = n" "length (put_uint32 n) = 4"
  by (simp_all only: put_uint32_bytes get_uint32_four byte_of_word four_bytes) (simp add: put_uint32_def)

lemma get_uint32_4: "length a = 4 \<Longrightarrow> get_uint32 (a @ b) 4 = get_uint32 b 0"
  by (simp add: get_uint32_def nth_append numeral_2_eq_2)

lemma put_get_uint32: "put_uint32 (get_uint32 (a # b # c # d # bs) 0) = [a, b, c, d]"
proof -
  let ?w = "push_bit 24 (ucast a) OR push_bit 16 (ucast b) OR push_bit 8 (ucast c) OR ucast d :: u32"
  have "ucast (drop_bit 24 ?w) = a" by (rule bit_word_eqI) (auto simp: bit_simps dest: bit_imp_le_length)
  moreover have "ucast (drop_bit 16 ?w) = b" by (rule bit_word_eqI) (auto simp: bit_simps dest: bit_imp_le_length)
  moreover have "ucast (drop_bit 8 ?w) = c" by (rule bit_word_eqI) (auto simp: bit_simps dest: bit_imp_le_length)
  moreover have "ucast ?w = d" by (rule bit_word_eqI) (auto simp: bit_simps dest: bit_imp_le_length)
  ultimately show ?thesis by (simp add: put_uint32_def get_uint32_four)
qed

lemma block_words: "length b = 8 \<Longrightarrow> put_uint32 (get_uint32 b 0) @ put_uint32 (get_uint32 b 4) = b"
proof -
  assume "length b = 8"
  then obtain a0 a1 a2 a3 a4 a5 a6 a7 where b: "b = [a0, a1, a2, a3] @ [a4, a5, a6, a7]"
    by (auto simp: length_Suc_conv numeral_eq_Suc)
  have l: "length [a0, a1, a2, a3] = 4" by simp
  show ?thesis unfolding b get_uint32_4 [OF l] by (simp add: put_get_uint32)
qed

lemma des_crypt_length [simp]: "length (des_crypt SK b) = 8"
  by (simp add: des_crypt_def Let_def split: prod.split)

lemma des_crypt_undo:
  assumes "even (length ks)" "length b = 8"
  shows "des_crypt (unpair (rev ks)) (des_crypt (unpair ks) b) = b"
proof -
  let ?X = "get_uint32 b 0" and ?Y = "get_uint32 b 4"
  obtain X1 Y1 where 1: "DES_IP ?X ?Y = (X1, Y1)" by fastforce
  obtain X2 Y2 where 2: "des_rounds (unpair ks) (X1, Y1) = (X2, Y2)" by fastforce
  obtain X3 Y3 where 3: "DES_FP Y2 X2 = (Y3, X3)" by fastforce
  have "des_crypt (unpair ks) b = put_uint32 Y3 @ put_uint32 X3" by (simp add: des_crypt_def 1 2 3)
  moreover have "get_uint32 (put_uint32 Y3 @ put_uint32 X3) 0 = Y3" by simp
  moreover have "get_uint32 (put_uint32 Y3 @ put_uint32 X3) 4 = X3"
    using get_uint32_4 [of "put_uint32 Y3" "put_uint32 X3"] get_put_uint32(1) [of X3 "[]"] by simp
  ultimately have "des_crypt (unpair (rev ks)) (des_crypt (unpair ks) b) = put_uint32 ?X @ put_uint32 ?Y"
    unfolding des_crypt_def [of "unpair (rev ks)"]
    by (simp add: DES_IP_FP [OF 3] rounds_undo [OF assms(1) 2] DES_FP_IP [OF 1])
  with block_words [OF assms(2)] show ?thesis by simp
qed

section \<open>Texts\<close>

lemma key_rounds_unpair: "\<exists>ps. key_rounds ns X Y = unpair ps \<and> length ps = length ns"
proof (induction ns arbitrary: X Y)
  case Nil
  have "key_rounds [] X Y = unpair []" by simp
  then show ?case by (intro exI [of _ "[]"]) simp
next
  case (Cons n ns)
  let ?k = "if n < 2 \<or> n = 8 \<or> n = 15 then 1 else 2"
  from Cons.IH [of "rot28 ?k X" "rot28 ?k Y"] obtain ps where
    ps: "key_rounds ns (rot28 ?k X) (rot28 ?k Y) = unpair ps" "length ps = length ns" by blast
  let ?p = "(subkey1 (rot28 ?k X) (rot28 ?k Y), subkey2 (rot28 ?k X) (rot28 ?k Y))"
  have "key_rounds (n # ns) X Y = unpair (?p # ps)" by (simp only: key_rounds.simps Let_def ps(1) unpair.simps)
  with ps(2) show ?case by (intro exI [of _ "?p # ps"]) simp
qed

lemma des_main_ks_unpair: "\<exists>ps. des_main_ks key = unpair ps \<and> length ps = 16"
  unfolding des_main_ks_def Let_def using key_rounds_unpair [of "[0..<16]"] by simp

lemma des_blocks_append: "length b = 8 \<Longrightarrow> des_blocks SK (b @ plain) = (des_crypt SK b @ fst (des_blocks SK plain), snd (des_blocks SK plain))"
proof -
  assume "length b = 8"
  then obtain a0 a1 a2 a3 a4 a5 a6 a7 where b: "b = [a0, a1, a2, a3, a4, a5, a6, a7]"
    by (auto simp: length_Suc_conv numeral_eq_Suc)
  show ?thesis by (simp add: b split: prod.split)
qed

lemma des_blocks_short: "length plain < 8 \<Longrightarrow> des_blocks SK plain = ([], plain)"
  by (induction SK plain rule: des_blocks.induct) simp_all

text \<open>The blocks of a text of whole blocks and a shorter end, and back.\<close>

lemma des_blocks_undo:
  assumes "even (length ks)"
  shows "\<exists>blocks rest. plain = blocks @ rest \<and> length rest < 8 \<and> des_blocks (unpair ks) plain = (fst (des_blocks (unpair ks) blocks), rest) \<and>
     length (fst (des_blocks (unpair ks) blocks)) = length blocks \<and> 8 dvd length blocks \<and>
     (\<forall>more. fst (des_blocks (unpair (rev ks)) (fst (des_blocks (unpair ks) blocks) @ more)) = blocks @ fst (des_blocks (unpair (rev ks)) more))"
proof (induction plain rule: measure_induct_rule [of length])
  case (less plain)
  show ?case
  proof (cases "length plain < 8")
    case True
    then show ?thesis by (intro exI [of _ "[]"] exI [of _ plain]) (simp add: des_blocks_short)
  next
    case False
    define b where "b = take 8 plain"
    define t where "t = drop 8 plain"
    have bt: "plain = b @ t" "length b = 8" "length t < length plain" using False by (simp_all add: b_def t_def)
    from less.IH [OF bt(3)] obtain blocks rest where
      r: "t = blocks @ rest" "length rest < 8" "des_blocks (unpair ks) t = (fst (des_blocks (unpair ks) blocks), rest)"
        "length (fst (des_blocks (unpair ks) blocks)) = length blocks" "8 dvd length blocks"
        "\<And>more. fst (des_blocks (unpair (rev ks)) (fst (des_blocks (unpair ks) blocks) @ more)) = blocks @ fst (des_blocks (unpair (rev ks)) more)"
      by blast
    have e: "fst (des_blocks (unpair ks) (b @ blocks)) = des_crypt (unpair ks) b @ fst (des_blocks (unpair ks) blocks)"
      by (simp add: des_blocks_append [OF bt(2)])
    have "fst (des_blocks (unpair (rev ks)) (fst (des_blocks (unpair ks) (b @ blocks)) @ more)) =
        (b @ blocks) @ fst (des_blocks (unpair (rev ks)) more)" for more
      unfolding e by (simp add: des_blocks_append r(6) des_crypt_undo [OF assms bt(2)])
    moreover have "des_blocks (unpair ks) plain = (fst (des_blocks (unpair ks) (b @ blocks)), rest)"
      unfolding e bt(1) des_blocks_append [OF bt(2)] r(3) by simp
    moreover have "length (fst (des_blocks (unpair ks) (b @ blocks))) = length (b @ blocks)" "8 dvd length (b @ blocks)"
      using r(4,5) bt(2) by (simp_all add: e)
    ultimately show ?thesis using r(1,2) bt(1) by (intro exI [of _ "b @ blocks"] exI [of _ rest]) simp
  qed
qed

lemma find_padding_zeros: "find_padding one p (replicate n 0 @ 0x80 # cs) = Some (Inr (p + n))"
  by (induction n arbitrary: p) simp_all

text \<open>
  (C6) A text of any length encrypted with a key of 8 bytes is decrypted with the same key to itself; the encrypted text is
  the next multiple of 8 bytes above the length of the text.
\<close>

theorem des_decodes_encoded:
  assumes "length key = 8" "length plain + 8 \<le> INT_MAX"
  shows "\<exists>c. ldesencode key plain = Some (Inr c) \<and> length c = 8 * (length plain div 8 + 1) \<and> ldesdecode key c = Some (Inr plain)"
proof -
  obtain ks where ks: "des_main_ks key = unpair ks" "length ks = 16" using des_main_ks_unpair by blast
  then have ev: "even (length ks)" by simp
  from des_blocks_undo [OF ev, of plain] obtain blocks rest where
    r: "plain = blocks @ rest" "length rest < 8" "des_blocks (unpair ks) plain = (fst (des_blocks (unpair ks) blocks), rest)"
      "length (fst (des_blocks (unpair ks) blocks)) = length blocks" "8 dvd length blocks"
      "\<And>more. fst (des_blocks (unpair (rev ks)) (fst (des_blocks (unpair ks) blocks) @ more)) = blocks @ fst (des_blocks (unpair (rev ks)) more)"
    by blast
  let ?out = "fst (des_blocks (unpair ks) blocks)" and ?n = "7 - length rest"
  define tail where "tail = rest @ [0x80] @ replicate ?n 0"
  have tl: "length tail = 8" using r(2) by (simp add: tail_def)
  let ?c = "?out @ des_crypt (unpair ks) tail"
  have enc: "ldesencode key plain = Some (Inr ?c)"
    using assms ks(1) r(3) by (simp add: ldesencode_def des_key_def tail_def)
  have len: "length ?c = length blocks + 8" by (simp add: r(4))
  have dv: "length plain div 8 = length blocks div 8" using r(1,2,5) by (auto elim!: dvdE)
  have "length ?c = 8 * (length plain div 8 + 1)" unfolding dv len using r(5) by simp
  moreover have "ldesdecode key ?c = Some (Inr plain)"
  proof -
    have cs: "des_crypt (unpair (rev ks)) (des_crypt (unpair ks) tail) = tail" by (rule des_crypt_undo [OF ev tl])
    have "des_blocks (unpair (rev ks)) (des_crypt (unpair ks) tail) = (tail, [])"
      using des_blocks_append [of "des_crypt (unpair ks) tail" "unpair (rev ks)" "[]"] cs by (simp add: des_blocks_short)
    then have buf: "fst (des_blocks (reverse_pairs (unpair ks)) ?c) = blocks @ tail" by (simp only: reverse_unpair r(6) fst_conv)
    have "rev (drop (length ?c - 8) (blocks @ tail)) = replicate ?n 0 @ 0x80 # rev rest"
      unfolding len by (simp add: tail_def)
    then have pd: "find_padding one 1 (rev (drop (length ?c - 8) (blocks @ tail))) = Some (Inr (1 + ?n))" for one
      by (simp only: find_padding_zeros)
    have "?c \<noteq> []" using len by (metis add_is_0 list.size(3) zero_neq_numeral)
    moreover have "length ?c mod 8 = 0" "length ?c \<le> INT_MAX" using r(1,5) assms(2) len by auto
    ultimately have m: "length ?c mod 8 = 0" "length ?c \<le> INT_MAX" "?c \<noteq> []" by blast+
    have tk: "take (length ?c - (1 + ?n)) (blocks @ tail) = plain" using r(1,2) unfolding len by (simp add: tail_def)
    have run: "ldesdecode key c = Some (Inr (take (length c - p) B))"
      if "c \<noteq> []" "length c mod 8 = 0" "length c \<le> INT_MAX" "fst (des_blocks (reverse_pairs (unpair ks)) c) = B" "p \<le> 8"
        "\<And>one. find_padding one 1 (rev (drop (length c - 8) B)) = Some (Inr p)" for c B p
      using assms(1) that by (simp add: ldesdecode_def des_key_def ks(1) Let_def)
    have "1 + ?n \<le> 8" by simp
    from run [OF m(3,1,2) buf this pd] show ?thesis unfolding tk .
  qed
  ultimately show ?thesis using enc by blast
qed

lemma des_decodes_encoded_witness:
  "\<exists>c. ldesencode [1, 2, 3, 4, 5, 6, 7, 8] [9, 10, 0] = Some (Inr c) \<and> length c = 8 \<and> ldesdecode [1, 2, 3, 4, 5, 6, 7, 8] c = Some (Inr [9, 10, 0])"
  using des_decodes_encoded [of "[1, 2, 3, 4, 5, 6, 7, 8]" "[9, 10, 0]"] by (simp add: INT_MAX_def)

lemma find_padding_none: "find_padding True p (replicate n 0) = None"
  by (induction n arbitrary: p) simp_all

text \<open>A single block that decrypts to zeros makes the search read in front of the buffer.\<close>

lemma desdecode_zero_block:
  assumes "length key = 8"
  shows "\<exists>c. length c = 8 \<and> ldesdecode key c = None"
proof -
  obtain ks where ks: "des_main_ks key = unpair ks" "length ks = 16" using des_main_ks_unpair by blast
  let ?z = "replicate 8 (0 :: u8)"
  let ?c = "des_crypt (unpair ks) ?z"
  have "des_crypt (unpair (rev ks)) ?c = ?z" using ks(2) by (intro des_crypt_undo) simp_all
  then have "des_blocks (unpair (rev ks)) ?c = (?z, [])"
    using des_blocks_append [of ?c "unpair (rev ks)" "[]"] by (simp add: des_blocks_short)
  moreover have "?c \<noteq> []" using des_crypt_length [of "unpair ks" ?z] by (metis list.size(3) zero_neq_numeral)
  ultimately have "ldesdecode key ?c = None"
    using assms by (simp add: ldesdecode_def des_key_def ks(1) reverse_unpair INT_MAX_def Let_def find_padding_none)
  then show ?thesis by (intro exI [of _ ?c]) simp
qed

end
