(* ===== verification/Crypt.thy ===== *)
theory Crypt
  imports Des
begin

text \<open>
  The rest of \<^verbatim>\<open>lualib-src/lua-crypt.c\<close>: hashes and message authentication of the login, the exchange of keys by Diffie and
  Hellman over the largest 64-bit prime, and the text codecs. A string of Lua is the list of its bytes, a Lua error the left value of
  a result. Four bytes are put together as an unsigned word.
\<close>

section \<open>Words and bytes\<close>

definition get_le32 :: "u8 list \<Rightarrow> nat \<Rightarrow> u32" where
  "get_le32 b i = ucast (b ! i) OR push_bit 8 (ucast (b ! (i + 1))) OR push_bit 16 (ucast (b ! (i + 2))) OR
     push_bit 24 (ucast (b ! (i + 3)))"

definition put_le32 :: "u32 \<Rightarrow> u8 list" where
  "put_le32 n = [ucast (n AND 0xff), ucast (drop_bit 8 n AND 0xff), ucast (drop_bit 16 n AND 0xff), ucast (drop_bit 24 n AND 0xff)]"

section \<open>Keys from texts\<close>

fun hash_loop :: "u8 list \<Rightarrow> u32 \<Rightarrow> u32 \<Rightarrow> u32 \<times> u32" where
  "hash_loop [] djb js = (djb, js)"
| "hash_loop (c # cs) djb js =
     hash_loop cs (djb + (push_bit 5 djb + ucast c)) (js XOR (push_bit 5 js + ucast c + drop_bit 2 js))"

text \<open>The size is passed as an \<^verbatim>\<open>int\<close>.\<close>

definition crypt_Hash :: "u8 list \<Rightarrow> u8 list" where
  "crypt_Hash str = (let (djb, js) = hash_loop (take (nat (c_int (int (length str)))) str) 5381 1315423911 in put_le32 djb @ put_le32 js)"

definition lhashkey :: "u8 list \<Rightarrow> u8 list" where
  "lhashkey key = crypt_Hash key"

text \<open>\<^verbatim>\<open>lrandomkey\<close> with the eight numbers that \<^verbatim>\<open>random\<close> gives.\<close>

definition lrandomkey :: "int list \<Rightarrow> u8 list" where
  "lrandomkey rs = (let tmp = map (\<lambda>r. of_int (r mod 2 ^ 8)) rs; x = foldr (XOR) tmp 0 in
     if x = 0 then tmp[0 := (tmp ! 0) OR 1] else tmp)"

section \<open>Hexadecimal text\<close>

definition hex_digits :: "u8 list" where
  "hex_digits = bytes_of ''0123456789abcdef''"

text \<open>The index \<^verbatim>\<open>i * 2 + 1\<close> of the last byte is an \<^verbatim>\<open>int\<close>: it overflows for more than 2^30 bytes.\<close>

definition tohex_loop :: "u8 list \<Rightarrow> u8 list" where
  "tohex_loop text = concat (map (\<lambda>c. [hex_digits ! unat (drop_bit 4 c), hex_digits ! unat (c AND 0xf)]) text)"

definition ltohex :: "u8 list \<Rightarrow> u8 list option" where
  "ltohex text = do {
     c_assert (text = [] \<or> (length text - 1) * 2 + 1 \<le> INT_MAX);
     Some (tohex_loop text) }"

text \<open>The macro \<^verbatim>\<open>HEX\<close> on a signed character.\<close>

definition HEX :: "u8 \<Rightarrow> u8" where
  "HEX c = (if 0x30 \<le> sint c \<and> sint c \<le> 0x39 then c - 0x30 else c - 0x61 + 10)"

fun fromhex_loop :: "u8 list \<Rightarrow> string + u8 list" where
  "fromhex_loop (a # b # text) = (let h = HEX a; low = HEX b in
     if h > 16 \<or> low > 16 then Inl ''Invalid hex text''
     else (case fromhex_loop text of Inl e \<Rightarrow> Inl e | Inr out \<Rightarrow> Inr ((push_bit 4 h OR low) # out)))"
| "fromhex_loop _ = Inr []"

text \<open>
  The index is an \<^verbatim>\<open>int\<close> that goes up by two: unless one of the first 2^31 characters is wrong, it overflows for a text of
  2 GB and more.
\<close>

definition lfromhex :: "u8 list \<Rightarrow> (string + u8 list) option" where
  "lfromhex text = (if odd (length text) then Some (Inl (''Invalid hex text size '' @ show_int (c_int (int (length text)))))
     else (case fromhex_loop (take (INT_MAX + 1) text) of
         Inl e \<Rightarrow> Some (Inl e)
       | Inr out \<Rightarrow> do { c_assert (length text \<le> INT_MAX); Some (Inr out) }))"

section \<open>MD5 and message authentication\<close>

definition md5_k :: "u32 list" where
  "md5_k = [
    0xd76aa478, 0xe8c7b756, 0x242070db, 0xc1bdceee, 0xf57c0faf, 0x4787c62a, 0xa8304613, 0xfd469501,
    0x698098d8, 0x8b44f7af, 0xffff5bb1, 0x895cd7be, 0x6b901122, 0xfd987193, 0xa679438e, 0x49b40821,
    0xf61e2562, 0xc040b340, 0x265e5a51, 0xe9b6c7aa, 0xd62f105d, 0x02441453, 0xd8a1e681, 0xe7d3fbc8,
    0x21e1cde6, 0xc33707d6, 0xf4d50d87, 0x455a14ed, 0xa9e3e905, 0xfcefa3f8, 0x676f02d9, 0x8d2a4c8a,
    0xfffa3942, 0x8771f681, 0x6d9d6122, 0xfde5380c, 0xa4beea44, 0x4bdecfa9, 0xf6bb4b60, 0xbebfbc70,
    0x289b7ec6, 0xeaa127fa, 0xd4ef3085, 0x04881d05, 0xd9d4d039, 0xe6db99e5, 0x1fa27cf8, 0xc4ac5665,
    0xf4292244, 0x432aff97, 0xab9423a7, 0xfc93a039, 0x655b59c3, 0x8f0ccc92, 0xffeff47d, 0x85845dd1,
    0x6fa87e4f, 0xfe2ce6e0, 0xa3014314, 0x4e0811a1, 0xf7537e82, 0xbd3af235, 0x2ad7d2bb, 0xeb86d391]"

definition md5_r :: "nat list" where
  "md5_r = [7, 12, 17, 22, 7, 12, 17, 22, 7, 12, 17, 22, 7, 12, 17, 22,
    5, 9, 14, 20, 5, 9, 14, 20, 5, 9, 14, 20, 5, 9, 14, 20,
    4, 11, 16, 23, 4, 11, 16, 23, 4, 11, 16, 23, 4, 11, 16, 23,
    6, 10, 15, 21, 6, 10, 15, 21, 6, 10, 15, 21, 6, 10, 15, 21]"

definition LEFTROTATE :: "u32 \<Rightarrow> nat \<Rightarrow> u32" where
  "LEFTROTATE x c = push_bit c x OR drop_bit (32 - c) x"

definition md5_step :: "u32 list \<Rightarrow> nat \<Rightarrow> u32 \<times> u32 \<times> u32 \<times> u32 \<Rightarrow> u32 \<times> u32 \<times> u32 \<times> u32" where
  "md5_step w i = (\<lambda>(a, b, c, d).
     let (f, g) = (if i < 16 then ((b AND c) OR (NOT b AND d), i)
       else if i < 32 then ((d AND b) OR (NOT d AND c), (5 * i + 1) mod 16)
       else if i < 48 then (b XOR c XOR d, (3 * i + 5) mod 16)
       else (c XOR (b OR NOT d), (7 * i) mod 16))
     in (d, b + LEFTROTATE (a + f + md5_k ! i + w ! g) (md5_r ! i), b, c))"

definition digest_md5 :: "u32 list \<Rightarrow> u32 \<times> u32 \<times> u32 \<times> u32" where
  "digest_md5 w = fold (md5_step w) [0..<64] (0x67452301, 0xefcdab89, 0x98badcfe, 0x10325476)"

type_synonym u32_pair = "u32 \<times> u32"

definition crypt_hmac :: "u32_pair \<Rightarrow> u32_pair \<Rightarrow> u32_pair" where
  "crypt_hmac x y = (case digest_md5 (concat (replicate 4 [snd x, fst x, snd y, fst y])) of (a, b, c, d) \<Rightarrow> (c XOR d, a XOR b))"

definition hmac_md5 :: "u32_pair \<Rightarrow> u32_pair \<Rightarrow> u32_pair" where
  "hmac_md5 x y = (case digest_md5 (concat (replicate 3 [fst x, snd x, fst y, snd y]) @ [0x80, 0, 384, 0]) of
     (a, b, c, d) \<Rightarrow> ((a + 0x67452301) XOR (c + 0x98badcfe), (b + 0xefcdab89) XOR (d + 0x10325476)))"

definition read64 :: "u8 list \<Rightarrow> u8 list \<Rightarrow> string + (u32_pair \<times> u32_pair)" where
  "read64 x y = (if length x \<noteq> 8 then Inl ''Invalid uint64 x'' else if length y \<noteq> 8 then Inl ''Invalid uint64 y''
     else Inr ((get_le32 x 0, get_le32 x 4), (get_le32 y 0, get_le32 y 4)))"

definition pushqword :: "u32_pair \<Rightarrow> u8 list" where
  "pushqword result = put_le32 (fst result) @ put_le32 (snd result)"

definition lhmac64 :: "u8 list \<Rightarrow> u8 list \<Rightarrow> string + u8 list" where
  "lhmac64 a b = (case read64 a b of Inl e \<Rightarrow> Inl e | Inr (x, y) \<Rightarrow> Inr (pushqword (crypt_hmac x y)))"

definition lhmac64_md5 :: "u8 list \<Rightarrow> u8 list \<Rightarrow> string + u8 list" where
  "lhmac64_md5 a b = (case read64 a b of Inl e \<Rightarrow> Inl e | Inr (x, y) \<Rightarrow> Inr (pushqword (hmac_md5 x y)))"

definition lhmac_hash :: "u8 list \<Rightarrow> u8 list \<Rightarrow> string + u8 list" where
  "lhmac_hash x text = (if length x \<noteq> 8 then Inl ''Invalid uint64 key''
     else let h = crypt_Hash text in
       Inr (pushqword (crypt_hmac (get_le32 h 0, get_le32 h 4) (get_le32 x 0, get_le32 x 4))))"

section \<open>Exchange of keys\<close>

definition DH_P :: u64 where "DH_P = 0xffffffffffffffc5"
definition DH_G :: u64 where "DH_G = 5"

lemma half_less: "b \<noteq> 0 \<Longrightarrow> unat (b div 2) < unat b" "b \<noteq> 0 \<Longrightarrow> unat (drop_bit (Suc 0) b) < unat b" for b :: u64
proof -
  assume "b \<noteq> 0"
  then have "unat b \<noteq> 0" by (simp add: unat_eq_0)
  moreover have "unat (drop_bit 1 b) = unat b div 2" unfolding unat_drop_bit_eq by (simp add: drop_bit_eq_div)
  ultimately have l: "unat (drop_bit 1 b) < unat b" by simp
  then show "unat (b div 2) < unat b" by (simp only: drop_bit_eq_div power_one_right)
  from l show "unat (drop_bit (Suc 0) b) < unat b" by simp
qed

function mul_loop :: "u64 \<Rightarrow> u64 \<Rightarrow> u64 \<Rightarrow> u64" where
  "mul_loop m a b =
     (if b = 0 then m
      else mul_loop (if b AND 1 \<noteq> 0 then (let t = DH_P - a in if m \<ge> t then m - t else m + a) else m)
             (if a \<ge> DH_P - a then a * 2 - DH_P else a * 2) (drop_bit 1 b))"
  by pat_completeness auto
termination
  by (relation "measure (\<lambda>(m, a, b). unat b)") (auto simp: half_less)

declare mul_loop.simps [simp del]

definition mul_mod_p :: "u64 \<Rightarrow> u64 \<Rightarrow> u64" where
  "mul_mod_p a b = mul_loop 0 a b"

text \<open>With the exponent 0 the recursion would not end.\<close>

function pow_mod_p :: "u64 \<Rightarrow> u64 \<Rightarrow> u64 option" where
  "pow_mod_p a b =
     (if b = 0 then None else if b = 1 then Some a
      else pow_mod_p a (drop_bit 1 b) \<bind> (\<lambda>t.
        let t = mul_mod_p t t in Some (if b mod 2 \<noteq> 0 then mul_mod_p t a else t)))"
  by pat_completeness auto
termination
  by (relation "measure (\<lambda>(a, b). unat b)") (auto simp: half_less)

declare pow_mod_p.simps [simp del]

definition powmodp :: "u64 \<Rightarrow> u64 \<Rightarrow> u64 option" where
  "powmodp a b = pow_mod_p (if a > DH_P then a mod DH_P else a) b"

definition push64 :: "u64 \<Rightarrow> u8 list" where
  "push64 r = map (\<lambda>i. ucast (drop_bit (8 * i) r AND 0xff)) [0..<8]"

definition join64 :: "u32_pair \<Rightarrow> u64" where
  "join64 x = ucast (fst x) OR push_bit 32 (ucast (snd x))"

definition ldhsecret :: "u8 list \<Rightarrow> u8 list \<Rightarrow> (string + u8 list) option" where
  "ldhsecret a b = (case read64 a b of Inl e \<Rightarrow> Some (Inl e)
     | Inr (x, y) \<Rightarrow>
        if join64 x = 0 \<or> join64 y = 0 then Some (Inl ''Can't be 0'')
        else map_option (Inr \<circ> push64) (powmodp (join64 x) (join64 y)))"

definition ldhexchange :: "u8 list \<Rightarrow> (string + u8 list) option" where
  "ldhexchange x = (if length x \<noteq> 8 then Some (Inl ''Invalid dh uint64 key'')
     else let x64 = join64 (get_le32 x 0, get_le32 x 4) in
       if x64 = 0 then Some (Inl ''Can't be 0'') else map_option (Inr \<circ> push64) (powmodp DH_G x64))"

section \<open>Base64\<close>

definition b64_encoding :: "u8 list" where
  "b64_encoding = bytes_of ''ABCDEFGHIJKLMNOPQRSTUVWXYZabcdefghijklmnopqrstuvwxyz0123456789+/''"

definition b64_char :: "u32 \<Rightarrow> u8" where
  "b64_char v = b64_encoding ! unat v"

fun b64_encode :: "u8 list \<Rightarrow> u8 list" where
  "b64_encode (a # b # c # text) = (let v = push_bit 16 (ucast a) OR push_bit 8 (ucast b) OR ucast c in
     [b64_char (drop_bit 18 v), b64_char (drop_bit 12 v AND 0x3f), b64_char (drop_bit 6 v AND 0x3f), b64_char (v AND 0x3f)]
     @ b64_encode text)"
| "b64_encode [a] = (let v = ucast a in [b64_char (drop_bit 2 v), b64_char (push_bit 4 (v AND 3)), 0x3d, 0x3d])"
| "b64_encode [a, b] = (let v = push_bit 8 (ucast a) OR ucast b in
     [b64_char (drop_bit 10 v), b64_char (drop_bit 4 v AND 0x3f), b64_char (push_bit 2 (v AND 0xf)), 0x3d])"
| "b64_encode [] = []"

text \<open>
  The size of the encoding is an \<^verbatim>\<open>int\<close>. When it does not fit, the call is left outside the model: it is negative, the buffer is the
  one of 256 bytes, and the loop writes behind it; from 2 GB on, \<^verbatim>\<open>(int)sz\<close> is wrong too, and the call ends in an error or in
  bytes that were never written.
\<close>

definition lb64encode :: "u8 list \<Rightarrow> u8 list option" where
  "lb64encode text = do {
     c_assert ((length text + 2) div 3 * 4 \<le> INT_MAX);
     Some (b64_encode text) }"

definition b64_decoding :: "int list" where
  "b64_decoding = [62, -1, -1, -1, 63, 52, 53, 54, 55, 56, 57, 58, 59, 60, 61, -1, -1, -1, -2, -1, -1, -1,
    0, 1, 2, 3, 4, 5, 6, 7, 8, 9, 10, 11, 12, 13, 14, 15, 16, 17, 18, 19, 20, 21, 22, 23, 24, 25,
    -1, -1, -1, -1, -1, -1, 26, 27, 28, 29, 30, 31, 32, 33, 34, 35, 36, 37, 38, 39, 40, 41, 42, 43, 44, 45, 46, 47, 48, 49, 50, 51]"

definition b64index :: "u8 \<Rightarrow> int" where
  "b64index c = (if c < 43 then -1
     else if unat (c - 43) \<ge> length b64_decoding then -1 else b64_decoding ! unat (c - 43))"

text \<open>The loop that reads the next characters of the alphabet and skips all others; None when the text ends before.\<close>

fun b64_group :: "nat \<Rightarrow> u8 list \<Rightarrow> (int list \<times> u8 list) option" where
  "b64_group 0 text = Some ([], text)"
| "b64_group (Suc n) [] = None"
| "b64_group (Suc n) (x # text) =
     (if b64index x = -1 then b64_group (Suc n) text
      else do { (cs, rest) \<leftarrow> b64_group n text; Some (b64index x # cs, rest) })"

text \<open>The bytes of a group, by the number of padding characters in it; None for the error.\<close>

definition b64_bytes :: "int list \<Rightarrow> u8 list option" where
  "b64_bytes c = (let padding = count_list c (-2) in
     if padding = 0 then
       (let v = push_bit 18 (of_int (c ! 0)) OR push_bit 12 (of_int (c ! 1)) OR push_bit 6 (of_int (c ! 2)) OR of_int (c ! 3) :: u32
        in Some [ucast (drop_bit 16 v), ucast (drop_bit 8 v AND 0xff), ucast (v AND 0xff)])
     else if padding = 1 then
       (if c ! 3 \<noteq> -2 \<or> c ! 2 AND 3 \<noteq> 0 then None
        else let v = push_bit 10 (of_int (c ! 0)) OR push_bit 4 (of_int (c ! 1)) OR of_int (drop_bit 2 (c ! 2)) :: u32
          in Some [ucast (drop_bit 8 v), ucast (v AND 0xff)])
     else if padding = 2 then
       (if c ! 3 \<noteq> -2 \<or> c ! 2 \<noteq> -2 \<or> c ! 1 AND 0xf \<noteq> 0 then None
        else let v = push_bit 2 (of_int (c ! 0)) OR of_int (drop_bit 4 (c ! 1)) :: u32 in Some [ucast v])
     else None)"

lemma b64_group_shorter: "b64_group n text = Some (cs, rest) \<Longrightarrow> length rest \<le> length text \<and> (0 < n \<longrightarrow> length rest < length text)"
  by (induction n "text" arbitrary: cs rule: b64_group.induct) (auto simp: Option.bind_eq_Some_conv le_Suc_eq less_Suc_eq_le split: if_splits)

function b64_decode :: "u8 list \<Rightarrow> string + u8 list" where
  "b64_decode text =
     (if text = [] then Inr []
      else case b64_group 4 text of None \<Rightarrow> Inl ''Invalid base64 text''
      | Some (cs, rest) \<Rightarrow> (case b64_bytes cs of None \<Rightarrow> Inl ''Invalid base64 text''
        | Some out \<Rightarrow> (case b64_decode rest of Inl e \<Rightarrow> Inl e | Inr more \<Rightarrow> Inr (out @ more))))"
  by pat_completeness auto
termination
  by (relation "measure length") (auto dest: b64_group_shorter)

declare b64_decode.simps [simp del]

text \<open>The index is an \<^verbatim>\<open>int\<close>; a text of 2 GB and more, on which it overflows unless an error comes first, is left outside the model.\<close>

definition lb64decode :: "u8 list \<Rightarrow> (string + u8 list) option" where
  "lb64decode text = do {
     c_assert (length text \<le> INT_MAX);
     Some (b64_decode text) }"

section \<open>Exclusive or of strings\<close>

definition lxor_str :: "u8 list \<Rightarrow> u8 list \<Rightarrow> (string + u8 list) option" where
  "lxor_str s1 s2 = (if s2 = [] then Some (Inl ''Can't xor empty string'')
     else do {
       c_assert (length s1 \<le> INT_MAX);
       Some (Inr (map (\<lambda>i. s1 ! i XOR s2 ! (i mod length s2)) [0..<length s1])) })"

end
