(* ===== verification/DiffieHellman.thy ===== *)
theory DiffieHellman
  imports Crypt
begin

text \<open>
  The exchange of keys of \<^verbatim>\<open>lua-crypt.c\<close> computes powers of 5 modulo the prime 2^64 - 59 without overflow, so both sides get the
  same secret.
\<close>

section \<open>Arithmetic modulo the prime\<close>

definition dh_p :: nat where "dh_p = 2 ^ 64 - 59"

lemma unat_DH_P: "unat DH_P = dh_p"
  by (simp add: DH_P_def dh_p_def)

text \<open>The addition that \<^verbatim>\<open>mul_mod_p\<close> does twice: the sum never leaves 64 bits.\<close>

definition add_p :: "u64 \<Rightarrow> u64 \<Rightarrow> u64" where
  "add_p m a = (if m \<ge> DH_P - a then m - (DH_P - a) else m + a)"

lemma add_p:
  assumes "m < DH_P" "a < DH_P"
  shows "unat (add_p m a) = (unat m + unat a) mod dh_p" "add_p m a < DH_P"
proof -
  have l: "unat m < dh_p" "unat a < dh_p" using assms by (simp_all add: word_less_nat_alt unat_DH_P)
  have t: "unat (DH_P - a) = dh_p - unat a" using assms(2) by (simp add: unat_sub less_imp_le unat_DH_P)
  have b: "dh_p < 2 ^ LENGTH(64)" by (simp add: dh_p_def)
  have "unat (add_p m a) = (unat m + unat a) mod dh_p"
  proof (cases "m \<ge> DH_P - a")
    case True
    then have le: "dh_p - unat a \<le> unat m" by (simp add: word_le_nat_alt t)
    have "unat (m - (DH_P - a)) = unat m - (dh_p - unat a)" using True by (simp add: unat_sub t)
    also have "\<dots> = unat m + unat a - dh_p" using l(2) by simp
    also have "\<dots> = (unat m + unat a - dh_p) mod dh_p" using l by simp
    also have "\<dots> = (unat m + unat a) mod dh_p" using le l(2) by (intro le_mod_geq [symmetric]) simp
    finally show ?thesis using True by (simp add: add_p_def)
  next
    case False
    then have lt: "unat m + unat a < dh_p" using l(2) by (simp add: word_le_nat_alt t not_le)
    with b have "unat m + unat a < 2 ^ LENGTH(64)" by linarith
    then have "unat (m + a) = unat m + unat a" by (rule unat_add_lem [THEN iffD1])
    with lt False show ?thesis by (simp add: add_p_def)
  qed
  then show "unat (add_p m a) = (unat m + unat a) mod dh_p" .
  then show "add_p m a < DH_P" by (simp add: word_less_nat_alt unat_DH_P dh_p_def)
qed

lemma double_add_p: "(if a \<ge> DH_P - a then a * 2 - DH_P else a * 2) = add_p a a"
  by (simp add: add_p_def mult_2_right)

lemma mul_loop_add: "mul_loop m a b = (if b = 0 then m
    else mul_loop (if b AND 1 \<noteq> 0 then add_p m a else m) (add_p a a) (drop_bit 1 b))"
  by (subst mul_loop.simps) (simp only: Let_def add_p_def double_add_p flip: add_p_def)

lemma unat_half: "unat (drop_bit 1 b) = unat b div 2" "(b AND 1 \<noteq> 0) = odd (unat b)" for b :: u64
proof -
  show "unat (drop_bit 1 b) = unat b div 2" unfolding unat_drop_bit_eq by (simp add: drop_bit_eq_div)
  have "unat (b AND 1) = unat b AND unat (1 :: u64)" by (rule unsigned_and_eq)
  then have "unat (b AND 1) = unat b mod 2" by (simp add: and_one_eq del: unsigned_and_eq)
  then have "(b AND 1 = 0) = (unat b mod 2 = 0)" by (metis unat_eq_0)
  then show "(b AND 1 \<noteq> 0) = odd (unat b)" by (simp add: odd_iff_mod_2_eq_one)
qed

lemma double_and_bit: "x + r * a + (a + a) * h = x + a * (2 * h + r)" for x :: nat
  by (simp add: algebra_simps)

lemma mod_linear: "x mod p = x' mod p \<Longrightarrow> (x + y mod p * h) mod p = (x' + y * h) mod p" for x :: nat
proof -
  assume "x mod p = x' mod p"
  then have "(x + y mod p * h) mod p = (x' mod p + (y mod p * h) mod p) mod p" by (metis mod_add_eq)
  also have "\<dots> = (x' mod p + (y * h) mod p) mod p" by (simp add: mod_mult_left_eq)
  also have "\<dots> = (x' + y * h) mod p" by (rule mod_add_eq)
  finally show ?thesis .
qed

lemma mul_loop_mod:
  "m < DH_P \<Longrightarrow> a < DH_P \<Longrightarrow> unat (mul_loop m a b) = (unat m + unat a * unat b) mod dh_p"
proof (induction m a b rule: mul_loop.induct)
  case (1 m a b)
  show ?case
  proof (cases "b = 0")
    case True
    with "1.prems" show ?thesis by (subst mul_loop_add) (simp add: word_less_nat_alt unat_DH_P)
  next
    case False
    let ?m = "if b AND 1 \<noteq> 0 then add_p m a else m" and ?a = "add_p a a" and ?h = "unat b div 2"
    have m: "?m < DH_P" "unat ?m mod dh_p = (unat m + unat b mod 2 * unat a) mod dh_p"
      using add_p [OF "1.prems"] "1.prems"(1) unat_half(2) [of b] by (auto simp: odd_iff_mod_2_eq_one)
    note a = add_p [OF "1.prems"(2,2)]
    have e: "mul_loop m a b = mul_loop ?m ?a (drop_bit 1 b)" using False by (subst mul_loop_add) simp
    have "unat (mul_loop ?m ?a (drop_bit 1 b)) = (unat ?m + unat ?a * unat (drop_bit 1 b)) mod dh_p"
      using "1.IH" [OF False] m(1) a(2) by (simp only: Let_def double_add_p flip: add_p_def)
    also have "\<dots> = (unat m + unat b mod 2 * unat a + (unat a + unat a) * ?h) mod dh_p"
      unfolding unat_half(1) a(1) by (rule mod_linear [OF m(2)])
    also have "unat m + unat b mod 2 * unat a + (unat a + unat a) * ?h = unat m + unat a * (2 * ?h + unat b mod 2)"
      by (rule double_and_bit)
    also have "2 * ?h + unat b mod 2 = unat b" by simp
    finally show ?thesis unfolding e .
  qed
qed

lemma mul_mod_p: "a < DH_P \<Longrightarrow> unat (mul_mod_p a b) = unat a * unat b mod dh_p"
  unfolding mul_mod_p_def using mul_loop_mod [of 0 a b] by (simp add: DH_P_def)

lemma less_DH_P: "unat r = n mod dh_p \<Longrightarrow> r < DH_P"
  by (simp add: word_less_nat_alt unat_DH_P dh_p_def)

lemma pow_mod_p: "a < DH_P \<Longrightarrow> b \<noteq> 0 \<Longrightarrow> \<exists>r. pow_mod_p a b = Some r \<and> unat r = unat a ^ unat b mod dh_p"
proof (induction a b rule: pow_mod_p.induct)
  case (1 a b)
  show ?case
  proof (cases "b = 1")
    case True
    with "1.prems" show ?thesis by (subst pow_mod_p.simps) (simp add: word_less_nat_alt unat_DH_P)
  next
    case False
    have "unat b \<noteq> 0" "unat b \<noteq> 1" using False "1.prems"(2) by (simp add: unat_eq_0, metis unsigned_1 unsigned_word_eqI)
    then have "unat (drop_bit 1 b) \<noteq> 0" unfolding unat_half(1) by simp
    then have "drop_bit 1 b \<noteq> 0" by (metis unat_0)
    with "1.IH" [OF "1.prems"(2) False "1.prems"(1)] obtain t where
      t: "pow_mod_p a (drop_bit 1 b) = Some t" "unat t = unat a ^ (unat b div 2) mod dh_p" unfolding unat_half(1) by blast
    let ?t2 = "mul_mod_p t t" and ?h = "unat b div 2"
    have t2: "unat ?t2 = unat a ^ (?h + ?h) mod dh_p"
      unfolding mul_mod_p [OF less_DH_P [OF t(2)]] t(2) by (simp add: power_add mod_simps)
    have t3: "unat (mul_mod_p ?t2 a) = unat a ^ (?h + ?h + 1) mod dh_p"
      unfolding mul_mod_p [OF less_DH_P [OF t2]] t2 by (simp add: mod_simps mult.commute)
    have od: "(b mod 2 \<noteq> 0) = odd (unat b)" using unat_half(2) [of b] by (simp only: and_one_eq)
    have "pow_mod_p a b = Some (if b mod 2 \<noteq> 0 then mul_mod_p ?t2 a else ?t2)"
      using False "1.prems"(2) t(1) by (subst pow_mod_p.simps) (simp add: Let_def)
    moreover have "unat (if b mod 2 \<noteq> 0 then mul_mod_p ?t2 a else ?t2) = unat a ^ unat b mod dh_p"
    proof (cases "odd (unat b)")
      case True
      then have e: "?h + ?h + 1 = unat b" by presburger
      from True od t3 show ?thesis unfolding e by simp
    next
      case even: False
      then have "?h + ?h = unat b" by presburger
      with even od t2 show ?thesis by simp
    qed
    ultimately show ?thesis by blast
  qed
qed

section \<open>Bytes\<close>

lemma byte_and: "(ucast (w AND 0xff) :: u8) = ucast (w :: u32)"
proof -
  have "(0xff :: u32) = mask 8" by (simp add: mask_eq_exp_minus_1)
  then have "w AND 0xff = take_bit 8 w" by (simp only: take_bit_eq_mask)
  then show ?thesis by (intro bit_word_eqI) (auto simp: bit_simps)
qed

lemma put_le32_eq: "put_le32 n = [ucast n, ucast (drop_bit 8 n), ucast (drop_bit 16 n), ucast (drop_bit 24 n)]"
  by (simp add: put_le32_def byte_and)

lemma get_le32_four: "get_le32 (a # b # c # d # bs) 0 = ucast a OR push_bit 8 (ucast b) OR push_bit 16 (ucast c) OR push_bit 24 (ucast d)"
  by (simp add: get_le32_def numeral_2_eq_2 numeral_3_eq_3)

lemma get_put_le32 [simp]: "get_le32 (put_le32 n @ bs) 0 = n" "length (put_le32 n) = 4"
proof -
  have "get_le32 (put_le32 n @ bs) 0 = take_bit 8 n OR push_bit 8 (take_bit 8 (drop_bit 8 n)) OR push_bit 16 (take_bit 8 (drop_bit 16 n)) OR
      push_bit 24 (take_bit 8 (drop_bit 24 n))"
    by (simp only: put_le32_eq append.simps get_le32_four byte_of_word)
  then show "get_le32 (put_le32 n @ bs) 0 = n" using four_bytes [of n] by (simp only: ac_simps)
qed (simp add: put_le32_eq)

lemma get_le32_4: "length a = 4 \<Longrightarrow> get_le32 (a @ b) 4 = get_le32 b 0"
  by (simp add: get_le32_def nth_append numeral_2_eq_2)

lemma put_get_le32: "put_le32 (get_le32 (a # b # c # d # bs) 0) = [a, b, c, d]"
proof -
  let ?w = "ucast a OR push_bit 8 (ucast b) OR push_bit 16 (ucast c) OR push_bit 24 (ucast d) :: u32"
  have "ucast (drop_bit 24 ?w) = d" by (rule bit_word_eqI) (auto simp: bit_simps dest: bit_imp_le_length)
  moreover have "ucast (drop_bit 16 ?w) = c" by (rule bit_word_eqI) (auto simp: bit_simps dest: bit_imp_le_length)
  moreover have "ucast (drop_bit 8 ?w) = b" by (rule bit_word_eqI) (auto simp: bit_simps dest: bit_imp_le_length)
  moreover have "ucast ?w = a" by (rule bit_word_eqI) (auto simp: bit_simps dest: bit_imp_le_length)
  ultimately show ?thesis by (simp only: put_le32_eq get_le32_four)
qed

lemma le32_words: "length b = 8 \<Longrightarrow> put_le32 (get_le32 b 0) @ put_le32 (get_le32 b 4) = b"
proof -
  assume "length b = 8"
  then obtain a0 a1 a2 a3 a4 a5 a6 a7 where b: "b = [a0, a1, a2, a3] @ [a4, a5, a6, a7]"
    by (auto simp: length_Suc_conv numeral_eq_Suc)
  have l: "length [a0, a1, a2, a3] = 4" by simp
  show ?thesis unfolding b get_le32_4 [OF l] by (simp add: put_get_le32)
qed

text \<open>The number that 8 bytes stand for.\<close>

definition num64 :: "u8 list \<Rightarrow> nat" where
  "num64 b = unat (join64 (get_le32 b 0, get_le32 b 4))"

lemma join64_halves: "join64 (ucast r, ucast (drop_bit 32 r)) = r"
proof (rule bit_word_eqI)
  fix k
  assume "k < LENGTH(64)"
  then show "bit (join64 (ucast r, ucast (drop_bit 32 r))) k = bit r k"
    by (cases "k < 32") (auto simp: join64_def bit_simps)
qed

lemma join64_0: "join64 (x, y) = 0 \<Longrightarrow> x = 0 \<and> y = 0"
proof
  assume z: "join64 (x, y) = 0"
  show "x = 0"
  proof (rule bit_word_eqI)
    fix k
    assume "k < LENGTH(32)"
    moreover have "\<not> bit (join64 (x, y)) k" by (simp add: z)
    ultimately show "bit x k = bit 0 k" by (simp add: join64_def bit_simps)
  qed
  show "y = 0"
  proof (rule bit_word_eqI)
    fix k
    assume "k < LENGTH(32)"
    moreover have "\<not> bit (join64 (x, y)) (k + 32)" by (simp add: z)
    ultimately show "bit y k = bit 0 k" by (simp add: join64_def bit_simps)
  qed
qed

lemma num64_zero: "length b = 8 \<Longrightarrow> b \<noteq> replicate 8 0 \<Longrightarrow> num64 b \<noteq> 0"
proof
  assume b: "length b = 8" "b \<noteq> replicate 8 0" and "num64 b = 0"
  then have "join64 (get_le32 b 0, get_le32 b 4) = 0" by (simp add: num64_def unat_eq_0)
  then have "get_le32 b 0 = 0" "get_le32 b 4 = 0" using join64_0 by blast+
  then have "b = put_le32 0 @ put_le32 0" using le32_words [OF b(1)] by metis
  with b(2) show False by (simp add: put_le32_def numeral_eq_Suc)
qed

lemma push64_le32: "push64 r = put_le32 (ucast r) @ put_le32 (ucast (drop_bit 32 r))"
proof -
  have m: "(0xff :: u64) = mask 8" by (simp add: mask_eq_exp_minus_1)
  have lo: "(ucast (drop_bit (8 * i) r AND 0xff) :: u8) = ucast (drop_bit (8 * i) (ucast r :: u32))" if "i < 4" for i
    unfolding m by (rule bit_word_eqI) (use that in \<open>auto simp: bit_simps\<close>)
  have hi: "(ucast (drop_bit (32 + 8 * i) r AND 0xff) :: u8) = ucast (drop_bit (8 * i) (ucast (drop_bit 32 r) :: u32))" if "i < 4" for i
    unfolding m by (rule bit_word_eqI) (use that in \<open>auto simp: bit_simps ac_simps\<close>)
  have u: "[0..<8] = [0, 1, 2, 3, 4, 5, 6, 7]" by (simp add: upt_rec)
  show ?thesis
    unfolding push64_def u put_le32_eq using lo [of 0] lo [of 1] lo [of 2] lo [of 3] hi [of 0] hi [of 1] hi [of 2] hi [of 3]
    by simp
qed

lemma push64_words: "get_le32 (push64 r) 0 = ucast r" "get_le32 (push64 r) 4 = ucast (drop_bit 32 r)" "length (push64 r) = 8"
  using get_le32_4 [of "put_le32 (ucast r)" "put_le32 (ucast (drop_bit 32 r))"] get_put_le32(1) [of "ucast (drop_bit 32 r)" "[]"]
  by (simp_all add: push64_le32)

lemma num64_push64 [simp]: "num64 (push64 r) = unat r"
  by (simp add: num64_def push64_words join64_halves)

section \<open>Both sides get the same secret\<close>

lemma powmodp: "a < DH_P \<Longrightarrow> b \<noteq> 0 \<Longrightarrow> \<exists>r. powmodp a b = Some r \<and> unat r = unat a ^ unat b mod dh_p"
proof -
  assume "a < DH_P" "b \<noteq> 0"
  moreover from this have "\<not> DH_P < a" by (simp add: less_asym)
  ultimately show ?thesis using pow_mod_p [of a b] by (simp add: powmodp_def)
qed

lemma coprime_5: "coprime (5 ^ n) dh_p"
proof -
  have "gcd 5 dh_p = gcd 5 (dh_p mod 5)" by (simp add: gcd.commute flip: gcd_red_nat)
  also have "dh_p mod 5 = 2" by (simp add: dh_p_def)
  also have "gcd 5 (2 :: nat) = 1" by (simp add: gcd_nat.simps)
  finally have "coprime 5 dh_p" by (simp add: coprime_iff_gcd_eq_1)
  then show ?thesis by simp
qed

lemma power_5_nonzero: "5 ^ n mod dh_p \<noteq> 0"
proof
  assume "5 ^ n mod dh_p = 0"
  then have "dh_p dvd 5 ^ n" by (simp add: mod_eq_0_iff_dvd)
  with coprime_5 [of n] have "dh_p dvd 1" by (metis coprime_common_divisor dvd_refl)
  then show False by (simp add: dh_p_def)
qed

lemma exchange:
  assumes "length a = 8" "a \<noteq> replicate 8 0"
  shows "\<exists>r. ldhexchange a = Some (Inr (push64 r)) \<and> unat r = 5 ^ num64 a mod dh_p"
proof -
  let ?x = "join64 (get_le32 a 0, get_le32 a 4)"
  have x: "?x \<noteq> 0" using num64_zero [OF assms] by (auto simp: num64_def)
  have "DH_G < DH_P" by (simp add: DH_G_def DH_P_def)
  from powmodp [OF this x] obtain r where "powmodp DH_G ?x = Some r" "unat r = 5 ^ num64 a mod dh_p"
    by (auto simp: num64_def DH_G_def)
  with x assms(1) show ?thesis by (auto simp: ldhexchange_def)
qed

lemma secret:
  assumes "unat r = 5 ^ n mod dh_p" "length b = 8" "b \<noteq> replicate 8 0"
  shows "\<exists>s. ldhsecret (push64 r) b = Some (Inr (push64 s)) \<and> unat s = 5 ^ (n * num64 b) mod dh_p"
proof -
  let ?y = "join64 (get_le32 b 0, get_le32 b 4)"
  have y: "?y \<noteq> 0" using num64_zero [OF assms(2,3)] by (auto simp: num64_def)
  have r: "r \<noteq> 0" using assms(1) power_5_nonzero [of n] by auto
  from powmodp [OF less_DH_P [OF assms(1)] y] obtain s where
    s: "powmodp r ?y = Some s" "unat s = unat r ^ num64 b mod dh_p" by (auto simp: num64_def)
  have "unat s = 5 ^ (n * num64 b) mod dh_p" unfolding s(2) assms(1) by (simp add: power_mod power_mult)
  moreover have "ldhsecret (push64 r) b = Some (Inr (push64 s))"
    using y r s(1) assms(2) by (simp add: ldhsecret_def read64_def push64_words join64_halves)
  ultimately show ?thesis by blast
qed

text \<open>
  (C7) The exchange of keys: two sides with keys of 8 bytes that are not all 0 each send the result of \<^verbatim>\<open>ldhexchange\<close>,
  and each side computes from what it received and its own key the same secret, 5 to the product of the keys modulo
  2^64 - 59, in little-endian bytes. No step fails or overflows.
\<close>

theorem dh_secrets_agree:
  assumes "length a = 8" "a \<noteq> replicate 8 0" "length b = 8" "b \<noteq> replicate 8 0"
  shows "\<exists>A B s. ldhexchange a = Some (Inr A) \<and> ldhexchange b = Some (Inr B) \<and> ldhsecret A b = Some (Inr s) \<and> ldhsecret B a = Some (Inr s) \<and>
    length s = 8 \<and> num64 s = 5 ^ (num64 a * num64 b) mod dh_p"
proof -
  from exchange [OF assms(1,2)] obtain r where r: "ldhexchange a = Some (Inr (push64 r))" "unat r = 5 ^ num64 a mod dh_p" by blast
  from exchange [OF assms(3,4)] obtain q where q: "ldhexchange b = Some (Inr (push64 q))" "unat q = 5 ^ num64 b mod dh_p" by blast
  from secret [OF r(2) assms(3,4)] obtain s where
    s: "ldhsecret (push64 r) b = Some (Inr (push64 s))" "unat s = 5 ^ (num64 a * num64 b) mod dh_p" by blast
  from secret [OF q(2) assms(1,2)] obtain s' where
    s': "ldhsecret (push64 q) a = Some (Inr (push64 s'))" "unat s' = 5 ^ (num64 a * num64 b) mod dh_p" by (auto simp: mult.commute)
  have "s' = s" using s(2) s'(2) by (metis unsigned_word_eqI)
  with r(1) q(1) s s'(1) push64_words(3) [of s] show ?thesis by auto
qed

lemma dh_secrets_agree_witness:
  "\<exists>A B s. ldhexchange [1, 2, 3, 4, 5, 6, 7, 8] = Some (Inr A) \<and> ldhexchange [9, 0, 0, 0, 0, 0, 0, 1] = Some (Inr B) \<and>
     ldhsecret A [9, 0, 0, 0, 0, 0, 0, 1] = Some (Inr s) \<and> ldhsecret B [1, 2, 3, 4, 5, 6, 7, 8] = Some (Inr s)"
  using dh_secrets_agree [of "[1, 2, 3, 4, 5, 6, 7, 8]" "[9, 0, 0, 0, 0, 0, 0, 1]"] by (fastforce simp: numeral_eq_Suc)

text \<open>A random key is never all 0, so the other side never refuses it.\<close>

lemma xor_zeros: "foldr (XOR) (replicate n 0) (0 :: u8) = 0"
  by (induction n) simp_all

lemma lrandomkey_nonzero: "length rs = 8 \<Longrightarrow> lrandomkey rs \<noteq> replicate 8 0"
proof
  assume l: "length rs = 8" and z: "lrandomkey rs = replicate 8 0"
  let ?t = "map (\<lambda>r. of_int (r mod 2 ^ 8) :: u8) rs"
  show False
  proof (cases "foldr (XOR) ?t 0 = 0")
    case True
    then have "lrandomkey rs ! 0 = (?t ! 0) OR 1" using l by (simp add: lrandomkey_def Let_def)
    moreover have "lrandomkey rs ! 0 = 0" by (simp add: z)
    ultimately have "bit ((?t ! 0) OR 1) 0 = False" by simp
    then show False by (simp add: bit_or_iff)
  next
    case False
    then have "?t = replicate 8 0" using z by (simp add: lrandomkey_def Let_def)
    then show False using False xor_zeros [of 8] by metis
  qed
qed

end
