(* ===== verification/TextCodecs.thy ===== *)
theory TextCodecs
  imports Crypt
begin

text \<open>
  The text codecs of \<^verbatim>\<open>lualib-src/lua-crypt.c\<close> undo each other: hexadecimal text, base64 with its padding, and exclusive or with a
  repeated mask.
\<close>

section \<open>Tables\<close>

lemma HEX_digit: "n < 16 \<Longrightarrow> HEX (hex_digits ! n) = of_nat n"
proof -
  have "list_all (\<lambda>n. HEX (hex_digits ! n) = of_nat n) [0..<16]" by code_simp
  then show "n < 16 \<Longrightarrow> HEX (hex_digits ! n) = of_nat n" by (simp add: list_all_iff)
qed

lemma b64index_char: "n < 64 \<Longrightarrow> b64index (b64_encoding ! n) = int n"
proof -
  have "list_all (\<lambda>n. b64index (b64_encoding ! n) = int n) [0..<64]" by code_simp
  then show "n < 64 \<Longrightarrow> b64index (b64_encoding ! n) = int n" by (simp add: list_all_iff)
qed

lemma b64index_padding: "b64index 0x3d = -2"
  by code_simp

section \<open>Hexadecimal text\<close>

lemma unat_and_less: "unat (x AND y) < k" if "unat y < k" for x y :: "'a::len word"
  using that word_and_le1 [of x y] by (simp add: word_le_nat_alt)

lemma mask_numerals: "(0xf :: u8) = mask 4" "(0x3f :: u32) = mask 6" "(0xff :: u32) = mask 8" "(0xf :: u32) = mask 4" "(3 :: u32) = mask 2"
  by (simp_all add: mask_eq_exp_minus_1)

lemma int_masks: "(0xf :: int) = mask 4" "(3 :: int) = mask 2"
  by (simp_all add: mask_eq_exp_minus_1)

lemma nibbles:
  fixes c :: u8
  shows "unat (drop_bit 4 c) < 16" "unat (c AND 0xf) < 16" "push_bit 4 (drop_bit 4 c) OR (c AND 0xf) = c"
proof -
  have "unat c < 256" using unsigned_less [of c] by simp
  then show "unat (drop_bit 4 c) < 16" by (subst unat_drop_bit_eq) (simp add: drop_bit_eq_div)
  show "unat (c AND 0xf) < 16" by (rule unat_and_less) simp
  show "push_bit 4 (drop_bit 4 c) OR (c AND 0xf) = c"
    unfolding mask_numerals by (rule bit_word_eqI) (auto simp: bit_simps)
qed

lemma hex_byte:
  "fromhex_loop (hex_digits ! unat (drop_bit 4 c) # hex_digits ! unat (c AND 0xf) # text) =
     (case fromhex_loop text of Inl e \<Rightarrow> Inl e | Inr out \<Rightarrow> Inr (c # out))"
proof -
  have *: "\<not> drop_bit 4 c > 16" "\<not> c AND 0xf > 16" using nibbles(1,2) [of c] by (simp_all add: word_less_nat_alt)
  show ?thesis using * by (simp add: HEX_digit nibbles Let_def split: sum.split)
qed

lemma fromhex_tohex:
  assumes "2 * length bs \<le> INT_MAX"
  shows "(ltohex bs \<bind> lfromhex) = Some (Inr bs)"
proof -
  have "fromhex_loop (tohex_loop bs) = Inr bs" by (induction bs) (simp_all add: tohex_loop_def hex_byte del: fromhex_loop.simps(1))
  moreover have "length (tohex_loop bs) = 2 * length bs" by (induction bs) (simp_all add: tohex_loop_def)
  moreover have "ltohex bs = Some (tohex_loop bs)" using assms by (cases bs) (simp_all add: ltohex_def c_assert_def)
  ultimately show ?thesis using assms by (simp add: lfromhex_def)
qed

section \<open>Base64\<close>

definition sextets :: "u32 list \<Rightarrow> int list" where
  "sextets vs = map (\<lambda>v. int (unat v)) vs"

lemma sextet_nonneg: "uint v \<noteq> -1" "uint v \<noteq> -2" for v :: u32
proof -
  have "0 \<le> uint v" by simp
  then show "uint v \<noteq> -1" "uint v \<noteq> -2" by linarith+
qed

lemma b64_group_chars:
  "(\<And>v. v \<in> set vs \<Longrightarrow> unat v < 64) \<Longrightarrow>
   b64_group (length vs + n) (map b64_char vs @ bs) =
     do { (cs, rest) \<leftarrow> b64_group n bs; Some (sextets vs @ cs, rest) }"
  by (induction vs) (simp_all add: sextets_def b64_char_def b64index_char sextet_nonneg Option.bind_assoc split: Option.bind_split)

lemma b64_group_paddings: "b64_group (Suc 0) [0x3d] = Some ([-2], [])" "b64_group 2 [0x3d, 0x3d] = Some ([-2, -2], [])"
  by (simp_all add: b64index_padding numeral_2_eq_2)

lemma b64_bytes_simps:
  "b64_bytes (sextets [p, q, r, t]) = (let v = push_bit 18 p OR push_bit 12 q OR push_bit 6 r OR t
     in Some [ucast (drop_bit 16 v), ucast (drop_bit 8 v AND 0xff), ucast (v AND 0xff)])"
  "b64_bytes (sextets [p, q, r] @ [-2]) = (if uint r AND 3 \<noteq> 0 then None
     else let v = push_bit 10 p OR push_bit 4 q OR of_int (drop_bit 2 (uint r))
       in Some [ucast (drop_bit 8 v), ucast (v AND 0xff)])"
  "b64_bytes (sextets [p, q] @ [-2, -2]) = (if uint q AND 0xf \<noteq> 0 then None
     else Some [ucast (push_bit 2 p OR of_int (drop_bit 4 (uint q)) :: u32)])"
  by (simp_all add: b64_bytes_def sextets_def sextet_nonneg Let_def numeral_2_eq_2 numeral_3_eq_3 del: push_bit_numeral)

lemma three_sextets:
  fixes a b c :: u8
  defines "v \<equiv> push_bit 16 (ucast a) OR push_bit 8 (ucast b) OR ucast c :: u32"
  shows "unat (drop_bit 18 v) < 64"
    and "push_bit 18 (drop_bit 18 v) OR push_bit 12 (drop_bit 12 v AND 0x3f) OR push_bit 6 (drop_bit 6 v AND 0x3f) OR (v AND 0x3f) = v"
    and "ucast (drop_bit 16 v) = a" and "ucast (drop_bit 8 v AND 0xff) = b" and "ucast (v AND 0xff) = c"
proof -
  have "drop_bit 18 v = drop_bit 18 v AND 0x3f"
    unfolding mask_numerals v_def by (rule bit_word_eqI) (auto simp: bit_simps dest: bit_imp_le_length)
  moreover have "unat (drop_bit 18 v AND 0x3f) < 64" by (rule unat_and_less) simp
  ultimately show "unat (drop_bit 18 v) < 64" by metis
  show "push_bit 18 (drop_bit 18 v) OR push_bit 12 (drop_bit 12 v AND 0x3f) OR push_bit 6 (drop_bit 6 v AND 0x3f) OR (v AND 0x3f) = v"
    unfolding mask_numerals
    by (rule bit_word_eqI, rename_tac n, case_tac "n < 6"; case_tac "n < 12"; case_tac "n < 18"; simp add: bit_simps less_diff_conv2 not_less)
  show "ucast (drop_bit 16 v) = a" "ucast (drop_bit 8 v AND 0xff) = b" "ucast (v AND 0xff) = c"
    unfolding mask_numerals v_def by (rule bit_word_eqI; auto simp: bit_simps dest: bit_imp_le_length)+
qed

lemma two_sextets:
  fixes a b :: u8
  defines "v \<equiv> push_bit 8 (ucast a) OR ucast b :: u32"
  shows "unat (drop_bit 10 v) < 64" and "unat (push_bit 2 (v AND 0xf)) < 64"
    and "drop_bit 2 (uint (push_bit 2 (v AND 0xf))) = uint (v AND 0xf)" and "uint (push_bit 2 (v AND 0xf)) AND 3 = 0"
    and "push_bit 10 (drop_bit 10 v) OR push_bit 4 (drop_bit 4 v AND 0x3f) OR (v AND 0xf) = v"
    and "ucast (drop_bit 8 v) = a" and "ucast (v AND 0xff) = b"
proof -
  have "drop_bit 10 v = drop_bit 10 v AND 0x3f"
    unfolding mask_numerals v_def by (rule bit_word_eqI) (auto simp: bit_simps dest: bit_imp_le_length)
  moreover have "unat (drop_bit 10 v AND 0x3f) < 64" by (rule unat_and_less) simp
  ultimately show "unat (drop_bit 10 v) < 64" by metis
  have "push_bit 2 (v AND 0xf) = push_bit 2 (v AND 0xf) AND 0x3f"
    unfolding mask_numerals by (rule bit_word_eqI) (auto simp: bit_simps)
  moreover have "unat (push_bit 2 (v AND 0xf) AND 0x3f) < 64" by (rule unat_and_less) simp
  ultimately show "unat (push_bit 2 (v AND 0xf)) < 64" by metis
  show "drop_bit 2 (uint (push_bit 2 (v AND 0xf))) = uint (v AND 0xf)"
    unfolding mask_numerals by (rule bit_eqI) (auto simp: bit_simps)
  show "uint (push_bit 2 (v AND 0xf)) AND 3 = 0"
    unfolding mask_numerals int_masks take_bit_eq_mask [symmetric] by (rule bit_eqI) (auto simp: bit_simps)
  show "push_bit 10 (drop_bit 10 v) OR push_bit 4 (drop_bit 4 v AND 0x3f) OR (v AND 0xf) = v"
    unfolding mask_numerals
    by (rule bit_word_eqI, rename_tac n, case_tac "n < 4"; case_tac "n < 10"; simp add: bit_simps less_diff_conv2 not_less)
  show "ucast (drop_bit 8 v) = a" "ucast (v AND 0xff) = b"
    unfolding mask_numerals v_def by (rule bit_word_eqI; auto simp: bit_simps dest: bit_imp_le_length)+
qed

lemma one_sextet:
  fixes a :: u8
  defines "v \<equiv> ucast a :: u32"
  shows "unat (drop_bit 2 v) < 64" and "unat (push_bit 4 (v AND 3)) < 64"
    and "drop_bit 4 (uint (push_bit 4 (v AND 3))) = uint (v AND 3)" and "uint (push_bit 4 (v AND 3)) AND 0xf = 0"
    and "push_bit 2 (drop_bit 2 v) OR (v AND 3) = v" and "ucast v = a"
proof -
  have "drop_bit 2 v = drop_bit 2 v AND 0x3f"
    unfolding mask_numerals v_def by (rule bit_word_eqI) (auto simp: bit_simps dest: bit_imp_le_length)
  moreover have "unat (drop_bit 2 v AND 0x3f) < 64" by (rule unat_and_less) simp
  ultimately show "unat (drop_bit 2 v) < 64" by metis
  have "push_bit 4 (v AND 3) = push_bit 4 (v AND 3) AND 0x3f"
    unfolding mask_numerals by (rule bit_word_eqI) (auto simp: bit_simps)
  moreover have "unat (push_bit 4 (v AND 3) AND 0x3f) < 64" by (rule unat_and_less) simp
  ultimately show "unat (push_bit 4 (v AND 3)) < 64" by metis
  show "drop_bit 4 (uint (push_bit 4 (v AND 3))) = uint (v AND 3)"
    unfolding mask_numerals by (rule bit_eqI) (auto simp: bit_simps)
  show "uint (push_bit 4 (v AND 3)) AND 0xf = 0"
    unfolding mask_numerals int_masks take_bit_eq_mask [symmetric] by (rule bit_eqI) (auto simp: bit_simps)
  show "push_bit 2 (drop_bit 2 v) OR (v AND 3) = v"
    unfolding mask_numerals by (rule bit_word_eqI, rename_tac n, case_tac "n < 2"; simp add: bit_simps not_less add_2_eq_Suc [symmetric] del: add_2_eq_Suc)
  show "ucast v = a" unfolding v_def by (rule bit_word_eqI) (auto simp: bit_simps)
qed

lemma decode_group:
  assumes "b64_group 4 enc = Some (cs, rest)" "b64_bytes cs = Some out"
  shows "b64_decode enc = (case b64_decode rest of Inl e \<Rightarrow> Inl e | Inr more \<Rightarrow> Inr (out @ more))"
proof -
  have "enc \<noteq> []" using assms(1) by (auto simp: eval_nat_numeral)
  then show ?thesis by (subst b64_decode.simps) (simp add: assms)
qed

lemma decode_empty: "b64_decode [] = Inr []"
  by (subst b64_decode.simps) simp

lemma nat_and_less: "unat (v AND 0x3f :: u32) < 64"
  by (rule unat_and_less) simp

lemma base64_decodes_encoded: "b64_decode (b64_encode bs) = Inr bs"
proof (induction bs rule: b64_encode.induct)
  case (1 a b c bs)
  define v :: u32 where "v = push_bit 16 (ucast a) OR push_bit 8 (ucast b) OR ucast c"
  define vs where "vs = [drop_bit 18 v, drop_bit 12 v AND 0x3f, drop_bit 6 v AND 0x3f, v AND 0x3f]"
  note s = three_sextets [of a b c, folded v_def]
  have b: "unat v < 64" if "v \<in> set vs" for v using that s by (auto simp: vs_def nat_and_less)
  have l: "length vs = 4" by (simp add: vs_def)
  have "b64_encode (a # b # c # bs) = map b64_char vs @ b64_encode bs"
    by (simp only: b64_encode.simps Let_def vs_def v_def list.map append.simps)
  moreover have "b64_group 4 (map b64_char vs @ b64_encode bs) = Some (sextets vs, b64_encode bs)"
    using b64_group_chars [where vs = vs and n = 0 and bs = "b64_encode bs", OF b] by (simp add: l)
  moreover have "b64_bytes (sextets vs) = Some [a, b, c]"
    by (simp only: vs_def b64_bytes_simps Let_def s)
  ultimately show ?case by (simp only: decode_group 1 sum.case append.simps)
next
  case (2 a)
  define v :: u32 where "v = ucast a"
  define vs where "vs = [drop_bit 2 v, push_bit 4 (v AND 3)]"
  note s = one_sextet [of a, folded v_def]
  have b: "unat v < 64" if "v \<in> set vs" for v using that s by (auto simp: vs_def nat_and_less)
  have l: "length vs = 2" by (simp add: vs_def)
  have "b64_encode [a] = map b64_char vs @ [0x3d, 0x3d]"
    by (simp only: b64_encode.simps Let_def vs_def v_def list.map append.simps)
  moreover have "b64_group 4 (map b64_char vs @ [0x3d, 0x3d]) = Some (sextets vs @ [-2, -2], [])"
    using b64_group_chars [where vs = vs and n = 2 and bs = "[0x3d, 0x3d]", OF b] by (simp add: l b64_group_paddings b64index_padding)
  moreover have "b64_bytes (sextets vs @ [-2, -2]) = Some [a]"
    by (simp only: vs_def b64_bytes_simps Let_def s if_False word_of_int_uint not_not if_cancel simp_thms)
  ultimately show ?case by (simp only: decode_group decode_empty sum.case append.simps)
next
  case (3 a b)
  define v :: u32 where "v = push_bit 8 (ucast a) OR ucast b"
  define vs where "vs = [drop_bit 10 v, drop_bit 4 v AND 0x3f, push_bit 2 (v AND 0xf)]"
  note s = two_sextets [of a b, folded v_def]
  have b: "unat v < 64" if "v \<in> set vs" for v using that s by (auto simp: vs_def nat_and_less)
  have l: "length vs = 3" by (simp add: vs_def)
  have "b64_encode [a, b] = map b64_char vs @ [0x3d]"
    by (simp only: b64_encode.simps Let_def vs_def v_def list.map append.simps)
  moreover have "b64_group 4 (map b64_char vs @ [0x3d]) = Some (sextets vs @ [-2], [])"
    using b64_group_chars [where vs = vs and n = 1 and bs = "[0x3d]", OF b] by (simp add: l b64_group_paddings b64index_padding)
  moreover have "b64_bytes (sextets vs @ [-2]) = Some [a, b]"
    by (simp only: vs_def b64_bytes_simps Let_def s if_False word_of_int_uint not_not simp_thms)
  ultimately show ?case by (simp only: decode_group decode_empty sum.case append.simps)
next
  case 4
  show ?case by (simp add: decode_empty)
qed

lemma b64_encode_length: "length (b64_encode bs) = (length bs + 2) div 3 * 4"
proof (induction bs rule: b64_encode.induct)
  case (1 a b c bs)
  have "(length (a # b # c # bs) + 2) div 3 * 4 = ((length bs + 2) + 3) div 3 * 4" by simp
  also have "\<dots> = 4 + (length bs + 2) div 3 * 4" by (subst div_add_self2) simp_all
  finally show ?case using 1 by (simp add: Let_def)
qed (simp_all add: Let_def)

section \<open>Exclusive or of strings\<close>

lemma xor_str_twice: "lxor_str s k = Some (Inr out) \<Longrightarrow> lxor_str out k = Some (Inr s)"
  by (auto simp: lxor_str_def xor.assoc intro!: nth_equalityI split: if_splits)

section \<open>The codecs\<close>

text \<open>(C36) A byte string of less than 1 GB that is written as hexadecimal text, or as base64 text with its padding, is read
  back from the text as it was; no index or size of the four functions leaves the range of an \<^verbatim>\<open>int\<close>.\<close>

theorem text_codecs_invert:
  assumes "length bs < 2 ^ 30"
  shows "(ltohex bs \<bind> lfromhex) = Some (Inr bs) \<and> (lb64encode bs \<bind> lb64decode) = Some (Inr bs)"
proof -
  have m: "2 * length bs \<le> INT_MAX" "(length bs + 2) div 3 * 4 \<le> INT_MAX" using assms by (simp_all add: INT_MAX_def)
  then show ?thesis
    using fromhex_tohex [OF m(1)]
    by (simp add: lb64encode_def lb64decode_def b64_encode_length base64_decodes_encoded c_assert_def)
qed

lemma text_codecs_invert_witness:
  "(ltohex [0x68, 0x69, 0] \<bind> lfromhex) = Some (Inr [0x68, 0x69, 0]) \<and>
   (lb64encode [0x68, 0x69, 0] \<bind> lb64decode) = Some (Inr [0x68, 0x69, 0])"
  by (rule text_codecs_invert) simp

end
