(* ===== verification/Seri.thy ===== *)
theory Seri
  imports Cstring
begin

text \<open>
  The serialisation of Lua values between services (\<^verbatim>\<open>lualib-src/lua-seri.c\<close>), function by function. A Lua value is the tree
  that the functions of the Lua interface show: a table comes with what \<^verbatim>\<open>lua_rawlen\<close> gives for it, with what its metamethod
  \<^verbatim>\<open>__pairs\<close> yields (the pairs, and then possibly an error) and with its pairs in the order of \<^verbatim>\<open>lua_next\<close>; a userdata with its
  field \<^verbatim>\<open>__type\<close>, the answer of the function registered for the type in \<^verbatim>\<open>__serializes\<close>, and its user value. A table that contains
  itself is a tree as deep as one likes. A float and a pointer are their 64 bits. The Lua stack and its limit are
  not modelled, nor running out of memory.
\<close>

section \<open>Lua values\<close>

datatype lua_value =
    LNil
  | LBool bool
  | LInt u64
  | LReal u64
  | LPointer u64
  | LString "u8 list"
  | LTable nat "((lua_value \<times> lua_value) list \<times> string option) option" "(lua_value \<times> lua_value) list"
  | LUserdata "(string + u64) option" "(string + string + u8 list) option" lua_value
  | LOther string

text \<open>The functions \<^verbatim>\<open>lua_rawgeti\<close> and \<^verbatim>\<open>lua_typename\<close>.\<close>

definition rawgeti :: "(lua_value \<times> lua_value) list \<Rightarrow> int \<Rightarrow> lua_value" where
  "rawgeti es i = (case map_of es (LInt (of_int i)) of None \<Rightarrow> LNil | Some v \<Rightarrow> v)"

fun lua_typename :: "lua_value \<Rightarrow> string" where
  "lua_typename LNil = ''nil''"
| "lua_typename (LBool _) = ''boolean''"
| "lua_typename (LInt _) = ''number''"
| "lua_typename (LReal _) = ''number''"
| "lua_typename (LPointer _) = ''userdata''"
| "lua_typename (LString _) = ''string''"
| "lua_typename (LTable _ _ _) = ''table''"
| "lua_typename (LUserdata _ _ _) = ''userdata''"
| "lua_typename (LOther t) = t"

text \<open>The bytes of an object in memory.\<close>

definition le_bytes :: "nat \<Rightarrow> 'a::len word \<Rightarrow> u8 list" where
  "le_bytes n w = map (\<lambda>i. ucast (drop_bit (8 * i) w)) [0..<n]"

definition of_le_bytes :: "u8 list \<Rightarrow> 'a::len word" where
  "of_le_bytes bs = foldr (\<lambda>b w. ucast b OR push_bit 8 w) bs 0"

section \<open>Type bytes\<close>

definition TYPE_NIL :: int where "TYPE_NIL = 0"
definition TYPE_BOOLEAN :: int where "TYPE_BOOLEAN = 1"
definition TYPE_NUMBER :: int where "TYPE_NUMBER = 2"
definition TYPE_NUMBER_ZERO :: int where "TYPE_NUMBER_ZERO = 0"
definition TYPE_NUMBER_BYTE :: int where "TYPE_NUMBER_BYTE = 1"
definition TYPE_NUMBER_WORD :: int where "TYPE_NUMBER_WORD = 2"
definition TYPE_NUMBER_DWORD :: int where "TYPE_NUMBER_DWORD = 4"
definition TYPE_NUMBER_QWORD :: int where "TYPE_NUMBER_QWORD = 6"
definition TYPE_NUMBER_REAL :: int where "TYPE_NUMBER_REAL = 8"
definition TYPE_LIGHTUSERDATA :: int where "TYPE_LIGHTUSERDATA = 3"
definition TYPE_SHORT_STRING :: int where "TYPE_SHORT_STRING = 4"
definition TYPE_LONG_STRING :: int where "TYPE_LONG_STRING = 5"
definition TYPE_TABLE :: int where "TYPE_TABLE = 6"
definition TYPE_USERDATA :: int where "TYPE_USERDATA = 7"

definition MAX_COOKIE :: int where "MAX_COOKIE = 32"
definition BLOCK_SIZE :: nat where "BLOCK_SIZE = 128"
definition MAX_DEPTH :: nat where "MAX_DEPTH = 32"

lemmas type_defs = TYPE_NIL_def TYPE_BOOLEAN_def TYPE_NUMBER_def TYPE_NUMBER_ZERO_def TYPE_NUMBER_BYTE_def TYPE_NUMBER_WORD_def
  TYPE_NUMBER_DWORD_def TYPE_NUMBER_QWORD_def TYPE_NUMBER_REAL_def TYPE_LIGHTUSERDATA_def TYPE_SHORT_STRING_def
  TYPE_LONG_STRING_def TYPE_TABLE_def TYPE_USERDATA_def MAX_COOKIE_def

text \<open>The shift of a negative number is undefined.\<close>

definition COMBINE_TYPE :: "int \<Rightarrow> int \<Rightarrow> u8 option" where
  "COMBINE_TYPE t v = (if v < 0 then None else Some (of_int (t OR push_bit 3 v)))"

section \<open>Blocks\<close>

text \<open>The chain of blocks; the current one is the last. A block is the list of the bytes written to it, the first one
  is on the stack, all others are allocated.\<close>

record write_block =
  wb_blocks :: "u8 list list"
  wb_len :: nat
  wb_ptr :: nat

definition wb_init :: write_block where
  "wb_init = \<lparr>wb_blocks = [[]], wb_len = 0, wb_ptr = 0\<rparr>"

definition wb_free :: "write_block \<Rightarrow> write_block" where
  "wb_free wb = wb\<lparr>wb_blocks := [], wb_ptr := 0, wb_len := 0\<rparr>"

definition blk_alloc :: "write_block \<Rightarrow> write_block" where
  "blk_alloc b = b\<lparr>wb_blocks := wb_blocks b @ [[]], wb_ptr := 0\<rparr>"

text \<open>The copy into the current block.\<close>

definition wb_store :: "write_block \<Rightarrow> u8 list \<Rightarrow> write_block option" where
  "wb_store b buf = do {
     c_assert (wb_blocks b \<noteq> [] \<and> wb_ptr b + length buf \<le> BLOCK_SIZE);
     n \<leftarrow> c_nat (wb_len b + length buf);
     Some (b\<lparr>wb_blocks := butlast (wb_blocks b) @ [take (wb_ptr b) (last (wb_blocks b)) @ buf], wb_len := n\<rparr>) }"

function wb_copy :: "write_block \<Rightarrow> u8 list \<Rightarrow> write_block option" where
  "wb_copy b buf =
     (if wb_ptr b + length buf \<le> BLOCK_SIZE then
        do { b' \<leftarrow> wb_store b buf; Some (b'\<lparr>wb_ptr := wb_ptr b + length buf\<rparr>) }
      else let n = BLOCK_SIZE - wb_ptr b in do { b' \<leftarrow> wb_store b (take n buf); wb_copy (blk_alloc b') (drop n buf) })"
  by pat_completeness auto
termination
  by (relation "measure (\<lambda>(b, buf). 2 * length buf + (if wb_ptr b \<ge> BLOCK_SIZE then 1 else 0))")
    (auto simp: BLOCK_SIZE_def blk_alloc_def)

declare wb_copy.simps [simp del]

definition wb_push :: "write_block \<Rightarrow> u8 list \<Rightarrow> int \<Rightarrow> write_block option" where
  "wb_push b buf sz = (if sz < 0 \<or> int (length buf) < sz then None
     else wb_copy (if wb_ptr b = BLOCK_SIZE then blk_alloc b else b) (take (nat sz) buf))"

section \<open>Writing\<close>

text \<open>A step of the packing gives the blocks, or an error of Lua and the blocks at that moment.\<close>

type_synonym writer = "write_block \<Rightarrow> (string \<times> write_block + write_block) option"

definition wput :: "u8 list \<Rightarrow> int \<Rightarrow> writer" where
  "wput buf sz b = map_option Inr (wb_push b buf sz)"

definition wput_type :: "int \<Rightarrow> int \<Rightarrow> writer" where
  "wput_type t v b = do { n \<leftarrow> COMBINE_TYPE t v; wput [n] 1 b }"

definition werror :: "string \<Rightarrow> writer" where
  "werror e b = Some (Inl (e, b))"

definition wthen :: "writer \<Rightarrow> writer \<Rightarrow> writer" where
  "wthen f g b = (case f b of None \<Rightarrow> None | Some (Inl e) \<Rightarrow> Some (Inl e) | Some (Inr b') \<Rightarrow> g b')"

fun wloop :: "('a \<Rightarrow> writer) \<Rightarrow> 'a list \<Rightarrow> writer" where
  "wloop f [] b = Some (Inr b)"
| "wloop f (x # xs) b = wthen (f x) (wloop f xs) b"

definition wb_nil :: writer where
  "wb_nil = wput_type TYPE_NIL 0"

definition wb_boolean :: "bool \<Rightarrow> writer" where
  "wb_boolean v = wput_type TYPE_BOOLEAN (if v then 1 else 0)"

definition wb_integer :: "u64 \<Rightarrow> writer" where
  "wb_integer v =
     (if v = 0 then wput_type TYPE_NUMBER TYPE_NUMBER_ZERO
      else if v \<noteq> scast (ucast v :: u32) then wthen (wput_type TYPE_NUMBER TYPE_NUMBER_QWORD) (wput (le_bytes 8 v) 8)
      else if sint v < 0 then wthen (wput_type TYPE_NUMBER TYPE_NUMBER_DWORD) (wput (le_bytes 4 (ucast v :: u32)) 4)
      else if sint v < 0x100 then wthen (wput_type TYPE_NUMBER TYPE_NUMBER_BYTE) (wput (le_bytes 1 (ucast v :: u8)) 1)
      else if sint v < 0x10000 then wthen (wput_type TYPE_NUMBER TYPE_NUMBER_WORD) (wput (le_bytes 2 (ucast v :: u16)) 2)
      else wthen (wput_type TYPE_NUMBER TYPE_NUMBER_DWORD) (wput (le_bytes 4 (ucast v :: u32)) 4))"

definition wb_real :: "u64 \<Rightarrow> writer" where
  "wb_real v = wthen (wput_type TYPE_NUMBER TYPE_NUMBER_REAL) (wput (le_bytes 8 v) 8)"

definition wb_pointer :: "u64 \<Rightarrow> writer" where
  "wb_pointer v = wthen (wput [of_int TYPE_LIGHTUSERDATA] 1) (wput (le_bytes 8 v) 8)"

definition wb_string :: "u8 list \<Rightarrow> int \<Rightarrow> writer" where
  "wb_string str len =
     (if len < MAX_COOKIE then
        wthen (wput_type TYPE_SHORT_STRING len) (\<lambda>b. if len > 0 then wput str len b else Some (Inr b))
      else wthen
        (if len < 0x10000 then wthen (wput_type TYPE_LONG_STRING 2) (wput (le_bytes 2 (of_int len :: u16)) 2)
         else wthen (wput_type TYPE_LONG_STRING 4) (wput (le_bytes 4 (of_int len :: u32)) 4))
        (wput str len))"

section \<open>Tables\<close>

text \<open>The functions for tables take what packs a value at their depth as their argument \<^verbatim>\<open>pack\<close>.\<close>

definition array_size_of :: "nat \<Rightarrow> int" where
  "array_size_of rawlen = c_int (int rawlen)"

definition wb_table_array :: "(lua_value \<Rightarrow> writer) \<Rightarrow> nat \<Rightarrow> (lua_value \<times> lua_value) list \<Rightarrow> writer" where
  "wb_table_array pack rawlen es = (let array_size = array_size_of rawlen in
     wthen (if array_size \<ge> MAX_COOKIE - 1 then wthen (wput_type TYPE_TABLE (MAX_COOKIE - 1)) (wb_integer (of_int array_size))
            else wput_type TYPE_TABLE array_size)
       (wloop (\<lambda>i. pack (rawgeti es i)) [1..array_size]))"

definition in_array :: "int \<Rightarrow> lua_value \<Rightarrow> bool" where
  "in_array array_size k = (case k of LInt x \<Rightarrow> sint x > 0 \<and> sint x \<le> array_size | _ \<Rightarrow> False)"

definition wb_table_hash :: "(lua_value \<Rightarrow> writer) \<Rightarrow> int \<Rightarrow> (lua_value \<times> lua_value) list \<Rightarrow> writer" where
  "wb_table_hash pack array_size es =
     wthen (wloop (\<lambda>e. if in_array array_size (fst e) then (\<lambda>b. Some (Inr b)) else wthen (pack (fst e)) (pack (snd e))) es) wb_nil"

definition wb_table_metapairs :: "(lua_value \<Rightarrow> writer) \<Rightarrow> (lua_value \<times> lua_value) list \<Rightarrow> string option \<Rightarrow> writer" where
  "wb_table_metapairs pack kvs err =
     wthen (wput_type TYPE_TABLE 0)
       (wthen (wloop (\<lambda>e. wthen (pack (fst e)) (pack (snd e))) kvs) (case err of Some e \<Rightarrow> werror e | None \<Rightarrow> wb_nil))"

definition wb_table :: "(lua_value \<Rightarrow> writer) \<Rightarrow> nat \<Rightarrow> ((lua_value \<times> lua_value) list \<times> string option) option \<Rightarrow>
    (lua_value \<times> lua_value) list \<Rightarrow> writer" where
  "wb_table pack rawlen pairs es = (case pairs of
     Some (kvs, err) \<Rightarrow> wb_table_metapairs pack kvs err
   | None \<Rightarrow> wthen (wb_table_array pack rawlen es) (wb_table_hash pack (array_size_of rawlen) es))"

section \<open>Packing\<close>

text \<open>The result 0 of \<^verbatim>\<open>wb_userdata\<close> is None here.\<close>

definition wb_userdata :: "(lua_value \<Rightarrow> writer) \<Rightarrow> (string + u64) option \<Rightarrow> (string + string + u8 list) option \<Rightarrow> lua_value \<Rightarrow>
    writer option" where
  "wb_userdata pack metatype answer uservalue = (case metatype of
     None \<Rightarrow> None
   | Some (Inl e) \<Rightarrow> Some (werror e)
   | Some (Inr t) \<Rightarrow> (let type = c_int (sint t) in
       if type < MAX_COOKIE then
         (case answer of
            None \<Rightarrow> None
          | Some (Inl e) \<Rightarrow> Some (werror (''serialize userdata error: '' @ e))
          | Some (Inr (Inl e)) \<Rightarrow> Some (werror e)
          | Some (Inr (Inr str)) \<Rightarrow>
              Some (wthen (wput_type TYPE_USERDATA type)
                (wthen (wput (le_bytes 4 (of_nat (length str) :: u64)) 4)
                (wthen (wput str (c_int (int (length str))))
                (wthen (wput [if uservalue = LNil then 0 else 1] 1)
                  (if uservalue = LNil then (\<lambda>b. Some (Inr b)) else pack uservalue))))))
       else None))"

definition unsupported :: "lua_value \<Rightarrow> writer" where
  "unsupported v b = werror (''Unsupport type '' @ lua_typename v @ '' to serialize'') (wb_free b)"

function pack_one :: "lua_value \<Rightarrow> nat \<Rightarrow> writer" where
  "pack_one v depth =
     (if depth > MAX_DEPTH then (\<lambda>b. werror ''serialize can't pack too depth table/userdata'' (wb_free b))
      else case v of
        LNil \<Rightarrow> wb_nil
      | LInt x \<Rightarrow> wb_integer x
      | LReal n \<Rightarrow> wb_real n
      | LBool t \<Rightarrow> wb_boolean t
      | LString str \<Rightarrow> wb_string str (c_int (int (length str)))
      | LPointer p \<Rightarrow> wb_pointer p
      | LTable rawlen pairs es \<Rightarrow> wb_table (\<lambda>x. pack_one x (depth + 1)) rawlen pairs es
      | LUserdata t answer uservalue \<Rightarrow>
          (case wb_userdata (\<lambda>x. pack_one x (depth + 1)) t answer uservalue of Some w \<Rightarrow> w | None \<Rightarrow> unsupported v)
      | LOther _ \<Rightarrow> unsupported v)"
  by pat_completeness auto
termination
proof (relation "measure (\<lambda>(v, depth). MAX_DEPTH + 1 - depth)")
qed auto

declare pack_one.simps [simp del]

definition pack_from :: "lua_value list \<Rightarrow> writer" where
  "pack_from args = wloop (\<lambda>v. pack_one v 0) args"

fun seri :: "u8 list list \<Rightarrow> nat \<Rightarrow> u8 list option" where
  "seri [] n = (if n = 0 then Some [] else None)"
| "seri (b # bs) n =
     (if n = 0 then Some []
      else if n \<ge> BLOCK_SIZE then do { c_assert (length b = BLOCK_SIZE); rest \<leftarrow> seri bs (n - BLOCK_SIZE); Some (b @ rest) }
      else do { c_assert (n \<le> length b); Some (take n b) })"

text \<open>The bytes in the new buffer, or the error and the number of blocks that stay allocated behind it.\<close>

definition luaseri_pack :: "lua_value list \<Rightarrow> (string \<times> nat + u8 list) option" where
  "luaseri_pack args = do {
     r \<leftarrow> pack_from args wb_init;
     case r of
       Inl (e, wb) \<Rightarrow> Some (Inl (e, length (wb_blocks wb) - 1))
     | Inr wb \<Rightarrow> do { bs \<leftarrow> seri (wb_blocks wb) (wb_len wb); Some (Inr bs) } }"

section \<open>Reading\<close>

record read_block =
  rb_buffer :: "u8 list"
  rb_len :: int
  rb_ptr :: int

definition rball_init :: "u8 list \<Rightarrow> int \<Rightarrow> read_block" where
  "rball_init buffer n = \<lparr>rb_buffer = buffer, rb_len = n, rb_ptr = 0\<rparr>"

text \<open>The pointer into the buffer, None for NULL. The second function reads bytes at a pointer; the buffer ends where its list ends.\<close>

definition rb_read :: "read_block \<Rightarrow> int \<Rightarrow> int option \<times> read_block" where
  "rb_read rb sz = (if rb_len rb < sz then (None, rb)
     else (Some (rb_ptr rb), rb\<lparr>rb_ptr := rb_ptr rb + sz, rb_len := rb_len rb - sz\<rparr>))"

definition rb_bytes :: "read_block \<Rightarrow> int \<Rightarrow> nat \<Rightarrow> u8 list option" where
  "rb_bytes rb p n = (if 0 \<le> p \<and> nat p + n \<le> length (rb_buffer rb) then Some (take n (drop (nat p) (rb_buffer rb))) else None)"

type_synonym 'a reader = "read_block \<Rightarrow> (string + 'a \<times> read_block) option"

definition rreturn :: "'a \<Rightarrow> 'a reader" where
  "rreturn x rb = Some (Inr (x, rb))"

definition rthen :: "(string + 'a \<times> read_block) option \<Rightarrow> ('a \<Rightarrow> 'b reader) \<Rightarrow> (string + 'b \<times> read_block) option" where
  "rthen m f = (case m of None \<Rightarrow> None | Some (Inl e) \<Rightarrow> Some (Inl e) | Some (Inr (x, rb)) \<Rightarrow> f x rb)"

lemma rthen_cong [fundef_cong]:
  "m = m' \<Longrightarrow> (\<And>x rb. m' = Some (Inr (x, rb)) \<Longrightarrow> f x rb = g x rb) \<Longrightarrow> rthen m f = rthen m' g"
  by (auto simp: rthen_def split: option.split sum.split)

definition invalid_stream :: "int \<Rightarrow> 'a reader" where
  "invalid_stream line rb = Some (Inl (''Invalid serialize stream '' @ show_int (rb_len rb) @ '' (line:'' @ show_int line @ '')''))"

text \<open>A read of \<^verbatim>\<open>n\<close> bytes, with the line of the code that reports that the stream is too short.\<close>

definition read_object :: "nat \<Rightarrow> int \<Rightarrow> u8 list reader" where
  "read_object n line rb = (case rb_read rb (int n) of
     (None, rb) \<Rightarrow> invalid_stream line rb
   | (Some p, rb) \<Rightarrow> do { bs \<leftarrow> rb_bytes rb p n; rreturn bs rb })"

definition get_integer :: "int \<Rightarrow> u64 reader" where
  "get_integer cookie rb =
     (if cookie = TYPE_NUMBER_ZERO then rreturn 0 rb
      else if cookie = TYPE_NUMBER_BYTE then rthen (read_object 1 417 rb) (\<lambda>bs. rreturn (ucast (of_le_bytes bs :: u8)))
      else if cookie = TYPE_NUMBER_WORD then rthen (read_object 2 425 rb) (\<lambda>bs. rreturn (ucast (of_le_bytes bs :: u16)))
      else if cookie = TYPE_NUMBER_DWORD then rthen (read_object 4 433 rb) (\<lambda>bs. rreturn (scast (of_le_bytes bs :: u32)))
      else if cookie = TYPE_NUMBER_QWORD then rthen (read_object 8 441 rb) (\<lambda>bs. rreturn (of_le_bytes bs))
      else invalid_stream 446 rb)"

definition get_real :: "u64 reader" where
  "get_real rb = rthen (read_object 8 456 rb) (\<lambda>bs. rreturn (of_le_bytes bs))"

definition get_pointer :: "u64 reader" where
  "get_pointer rb = rthen (read_object 8 466 rb) (\<lambda>bs. rreturn (of_le_bytes bs))"

text \<open>
  A negative length passes the test of \<^verbatim>\<open>rb_read\<close>; as a \<^verbatim>\<open>size_t\<close> it is above 2^63, and \<^verbatim>\<open>lua_pushlstring\<close> raises the
  error of \<^verbatim>\<open>luaM_toobig\<close> before it looks at the bytes (\<^verbatim>\<open>luaS_newlstr\<close>, 3rd/lua/lstring.c). The rest that \<^verbatim>\<open>rb_read\<close>
  has computed by then, which may exceed an \<^verbatim>\<open>int\<close>, is not used any more.
\<close>

definition get_buffer :: "int \<Rightarrow> u8 list reader" where
  "get_buffer len rb = (if len < 0 then Some (Inl ''memory allocation error: block too big'') else read_object (nat len) 476 rb)"

section \<open>Keys of a table\<close>

text \<open>A float that has the value of an integer is the integer as a key (\<^verbatim>\<open>luaV_tointeger\<close>), from the bits of an IEEE double.\<close>

definition real_exponent :: "u64 \<Rightarrow> nat" where "real_exponent r = unat (drop_bit 52 r AND 0x7ff)"
definition real_fraction :: "u64 \<Rightarrow> nat" where "real_fraction r = unat (r AND mask 52)"

definition real_is_nan :: "u64 \<Rightarrow> bool" where
  "real_is_nan r = (real_exponent r = 0x7ff \<and> real_fraction r \<noteq> 0)"

definition real_to_integer :: "u64 \<Rightarrow> u64 option" where
  "real_to_integer r = (let e = real_exponent r; m = (if e = 0 then real_fraction r else real_fraction r + 2 ^ 52);
       x = (if e = 0 then 1 else e) in
     if e = 0x7ff then None
     else if 2 ^ 1075 dvd m * 2 ^ x then
       (let i = (if bit r 63 then -1 else 1) * int (m * 2 ^ x div 2 ^ 1075) in
        if - (2 ^ 63) \<le> i \<and> i < 2 ^ 63 then Some (of_int i) else None)
     else None)"

text \<open>Equality of keys: by value, but a table or a full userdata that was just made is equal to no other.\<close>

fun is_scalar :: "lua_value \<Rightarrow> bool" where
  "is_scalar (LTable _ _ _) = False"
| "is_scalar (LUserdata _ _ _) = False"
| "is_scalar (LOther _) = False"
| "is_scalar _ = True"

definition normal_key :: "lua_value \<Rightarrow> lua_value" where
  "normal_key k = (case k of LReal r \<Rightarrow> (case real_to_integer r of Some i \<Rightarrow> LInt i | None \<Rightarrow> k) | _ \<Rightarrow> k)"

definition put_entry :: "(lua_value \<times> lua_value) list \<Rightarrow> lua_value \<Rightarrow> lua_value \<Rightarrow> (lua_value \<times> lua_value) list" where
  "put_entry es k v =
     (if is_scalar k \<and> k \<in> fst ` set es then
        (if v = LNil then filter (\<lambda>e. fst e \<noteq> k) es else map (\<lambda>e. if fst e = k then (k, v) else e) es)
      else if v = LNil then es else es @ [(k, v)])"

definition lua_rawset :: "(lua_value \<times> lua_value) list \<Rightarrow> lua_value \<Rightarrow> lua_value \<Rightarrow> string + (lua_value \<times> lua_value) list" where
  "lua_rawset es k v = (case k of
     LReal r \<Rightarrow> if real_is_nan r then Inl ''table index is NaN'' else Inr (put_entry es (normal_key k) v)
   | _ \<Rightarrow> Inr (put_entry es k v))"

section \<open>Unpacking\<close>

text \<open>What the rest of Lua answers: the length of a table made of pairs, and the functions registered in \<^verbatim>\<open>__deserializes\<close>.\<close>

record lua_hooks =
  lh_rawlen :: "(lua_value \<times> lua_value) list \<Rightarrow> nat"
  lh_deserialize :: "int \<Rightarrow> (u8 list \<Rightarrow> string + lua_value) option"

definition make_table :: "lua_hooks \<Rightarrow> (lua_value \<times> lua_value) list \<Rightarrow> lua_value" where
  "make_table L es = LTable (lh_rawlen L es) None es"

definition unpack_scalar :: "int \<Rightarrow> int \<Rightarrow> lua_value reader" where
  "unpack_scalar type cookie rb =
     (if type = TYPE_NIL then rreturn LNil rb
      else if type = TYPE_BOOLEAN then rreturn (LBool (cookie \<noteq> 0)) rb
      else if type = TYPE_NUMBER then
        (if cookie = TYPE_NUMBER_REAL then rthen (get_real rb) (\<lambda>n. rreturn (LReal n))
         else rthen (get_integer cookie rb) (\<lambda>x. rreturn (LInt x)))
      else if type = TYPE_LIGHTUSERDATA then rthen (get_pointer rb) (\<lambda>p. rreturn (LPointer p))
      else if type = TYPE_SHORT_STRING then rthen (get_buffer cookie rb) (\<lambda>s. rreturn (LString s))
      else if type = TYPE_LONG_STRING then
        (if cookie = 2 then rthen (read_object 2 581 rb) (\<lambda>n rb.
           rthen (get_buffer (uint (of_le_bytes n :: u16)) rb) (\<lambda>s. rreturn (LString s)))
         else if cookie \<noteq> 4 then invalid_stream 588 rb
         else rthen (read_object 4 592 rb) (\<lambda>n rb.
           rthen (get_buffer (sint (of_le_bytes n :: u32)) rb) (\<lambda>s. rreturn (LString s))))
      else invalid_stream 610 rb)"

text \<open>The start of \<^verbatim>\<open>unpack_table\<close>, and of \<^verbatim>\<open>get_userdata\<close> up to the user value; its result is None for 0.\<close>

definition unpack_array_size :: "int \<Rightarrow> int reader" where
  "unpack_array_size array_size rb =
     (if array_size = MAX_COOKIE - 1 then rthen (read_object 1 489 rb) (\<lambda>t rb.
        let type = uint (hd t); cookie = drop_bit 3 type in
        if type AND 7 \<noteq> TYPE_NUMBER \<or> cookie = TYPE_NUMBER_REAL then invalid_stream 494 rb
        else rthen (get_integer cookie rb) (\<lambda>n. rreturn (c_int (sint n))))
      else rreturn array_size rb)"

definition get_userdata :: "lua_hooks \<Rightarrow> int \<Rightarrow> (lua_value \<times> bool) option reader" where
  "get_userdata L type rb = (case lh_deserialize L type of
     None \<Rightarrow> rreturn None rb
   | Some f \<Rightarrow> rthen (read_object 4 527 rb) (\<lambda>n rb. rthen (get_buffer (sint (of_le_bytes n :: u32)) rb) (\<lambda>s rb.
       case f s of
         Inl e \<Rightarrow> Some (Inl (''deserialize userdata error: '' @ e))
       | Inr u \<Rightarrow> if u = LNil then rreturn None rb
           else (case rb_read rb 1 of (None, rb) \<Rightarrow> None
             | (Some p, rb) \<Rightarrow> do { b \<leftarrow> rb_bytes rb p 1; rreturn (Some (u, hd b \<noteq> 0)) rb }))))"

text \<open>\<^verbatim>\<open>lua_setuservalue\<close> on a value that is no full userdata is undefined.\<close>

definition lua_setuservalue :: "lua_value \<Rightarrow> lua_value \<Rightarrow> lua_value reader" where
  "lua_setuservalue u v rb = (case u of LUserdata t answer uservalue \<Rightarrow> rreturn (LUserdata t answer v) rb | _ \<Rightarrow> None)"

text \<open>The functions that call each other, with \<^verbatim>\<open>unpack_one\<close> first; the two loops of \<^verbatim>\<open>unpack_table\<close> have the pairs read
  so far as their last argument.\<close>

datatype unpack_call = Unpack_one | Push_value int int | Unpack_table int
  | Array_loop int int "(lua_value \<times> lua_value) list" | Hash_loop "(lua_value \<times> lua_value) list"

function unpack :: "lua_hooks \<Rightarrow> unpack_call \<Rightarrow> lua_value reader" where
  "unpack L Unpack_one rb = rthen (read_object 1 621 rb) (\<lambda>t rb.
     unpack L (Push_value (uint (hd t) AND 7) (drop_bit 3 (uint (hd t)))) rb)"
| "unpack L (Push_value type cookie) rb =
     (if type = TYPE_TABLE then unpack L (Unpack_table cookie) rb
      else if type = TYPE_USERDATA then rthen (get_userdata L cookie rb) (\<lambda>r rb. case r of
        None \<Rightarrow> invalid_stream 610 rb
      | Some (u, hasuservalue) \<Rightarrow>
          if hasuservalue then rthen (unpack L Unpack_one rb) (\<lambda>v. lua_setuservalue u v) else rreturn u rb)
      else unpack_scalar type cookie rb)"
| "unpack L (Unpack_table array_size) rb = rthen (unpack_array_size array_size rb) (\<lambda>n rb. unpack L (Array_loop 1 n []) rb)"
| "unpack L (Array_loop i n es) rb =
     (if i \<le> n then rthen (unpack L Unpack_one rb) (\<lambda>v rb. unpack L (Array_loop (i + 1) n (put_entry es (LInt (of_int i)) v)) rb)
      else unpack L (Hash_loop es) rb)"
| "unpack L (Hash_loop es) rb = rthen (unpack L Unpack_one rb) (\<lambda>k rb.
     if k = LNil then rreturn (make_table L es) rb
     else rthen (unpack L Unpack_one rb) (\<lambda>v rb. case lua_rawset es k v of
       Inl e \<Rightarrow> Some (Inl e)
     | Inr es \<Rightarrow> unpack L (Hash_loop es) rb))"
  by pat_completeness auto

text \<open>Every call takes bytes from the stream and none gives bytes back, so the recursion ends.\<close>

lemma rthen_Some_iff:
  "rthen m f = Some (Inr (y, rb')) \<longleftrightarrow> (\<exists>x rb. m = Some (Inr (x, rb)) \<and> f x rb = Some (Inr (y, rb')))"
  by (auto simp: rthen_def split: option.split sum.split)

lemma invalid_stream_not [simp]: "invalid_stream line rb \<noteq> Some (Inr r)"
  by (simp add: invalid_stream_def)

lemma rreturn_iff [simp]: "rreturn x rb = Some (Inr (y, rb')) \<longleftrightarrow> y = x \<and> rb' = rb"
  by (auto simp: rreturn_def)

lemma read_object_len:
  "read_object n line rb = Some (Inr (bs, rb')) \<Longrightarrow> rb_len rb' = rb_len rb - int n \<and> int n \<le> rb_len rb"
  by (auto simp: read_object_def rb_read_def monad_simps split: if_splits)

lemma get_integer_len: "get_integer c rb = Some (Inr (x, rb')) \<Longrightarrow> rb_len rb' \<le> rb_len rb"
  by (auto simp: get_integer_def rthen_Some_iff dest!: read_object_len split: if_splits)

lemma get_buffer_len: "get_buffer n rb = Some (Inr (x, rb')) \<Longrightarrow> rb_len rb' \<le> rb_len rb"
  by (auto simp: get_buffer_def dest!: read_object_len split: if_splits)

lemmas reader_lens = read_object_len get_integer_len get_buffer_len

lemma unpack_array_size_len: "unpack_array_size n rb = Some (Inr (x, rb')) \<Longrightarrow> rb_len rb' \<le> rb_len rb"
  by (auto simp: unpack_array_size_def rthen_Some_iff Let_def dest!: reader_lens split: if_splits)

lemma unpack_scalar_len: "unpack_scalar t c rb = Some (Inr (x, rb')) \<Longrightarrow> rb_len rb' \<le> rb_len rb"
  by (auto simp: unpack_scalar_def get_real_def get_pointer_def rthen_Some_iff dest!: reader_lens split: if_splits)

lemma get_userdata_len:
  assumes "get_userdata L t rb = Some (Inr (x, rb'))"
  shows "rb_len rb' \<le> rb_len rb"
proof (cases "lh_deserialize L t")
  case None
  with assms show ?thesis by (simp add: get_userdata_def)
next
  case (Some f)
  with assms obtain n rb1 s rb2 where r: "read_object 4 527 rb = Some (Inr (n, rb1))"
      "get_buffer (sint (of_le_bytes n :: u32)) rb1 = Some (Inr (s, rb2))"
    and u: "(case f s of Inl e \<Rightarrow> Some (Inl (''deserialize userdata error: '' @ e))
       | Inr u \<Rightarrow> if u = LNil then rreturn None rb2
           else (case rb_read rb2 1 of (None, rb) \<Rightarrow> None
             | (Some p, rb) \<Rightarrow> do { b \<leftarrow> rb_bytes rb p 1; rreturn (Some (u, hd b \<noteq> 0)) rb })) = Some (Inr (x, rb'))"
    by (auto simp: get_userdata_def rthen_Some_iff)
  from u have "rb_len rb' \<le> rb_len rb2" by (auto simp: rb_read_def monad_simps split: sum.splits if_splits)
  with r show ?thesis by (fastforce dest: reader_lens)
qed

lemma lua_setuservalue_len: "lua_setuservalue u v rb = Some (Inr (x, rb')) \<Longrightarrow> rb' = rb"
  by (auto simp: lua_setuservalue_def split: lua_value.splits)

lemma unpack_len_dom:
  "unpack_dom (L, c, rb) \<Longrightarrow> unpack L c rb = Some (Inr (v, rb')) \<Longrightarrow>
     rb_len rb' \<le> rb_len rb \<and> (c = Unpack_one \<longrightarrow> rb_len rb' < rb_len rb \<and> 0 < rb_len rb)"
proof (induction L c rb arbitrary: v rb' rule: unpack.pinduct)
  case (1 L rb)
  from 1(1,3) obtain t rb1 where t: "read_object 1 621 rb = Some (Inr (t, rb1))"
      "unpack L (Push_value (uint (hd t) AND 7) (drop_bit 3 (uint (hd t)))) rb1 = Some (Inr (v, rb'))"
    by (auto simp: unpack.psimps rthen_Some_iff)
  with 1(2) [OF t(1,2)] show ?case by (fastforce dest: read_object_len)
next
  case (2 L type cookie rb)
  consider "type = TYPE_TABLE" | "type \<noteq> TYPE_TABLE" "type = TYPE_USERDATA" | "type \<noteq> TYPE_TABLE" "type \<noteq> TYPE_USERDATA"
    by blast
  then show ?case
  proof cases
    case a: 1
    with 2(1,4) have "unpack L (Unpack_table cookie) rb = Some (Inr (v, rb'))" by (simp add: unpack.psimps)
    with 2(2) [OF a this] show ?thesis by simp
  next
    case a: 2
    with 2(1,4) obtain u h rb1 where u: "get_userdata L cookie rb = Some (Inr (Some (u, h), rb1))"
        "(if h then rthen (unpack L Unpack_one rb1) (\<lambda>v. lua_setuservalue u v) else rreturn u rb1) = Some (Inr (v, rb'))"
      by (auto simp: unpack.psimps rthen_Some_iff split: option.splits)
    show ?thesis
    proof (cases h)
      case True
      with u(2) obtain x where "unpack L Unpack_one rb1 = Some (Inr (x, rb'))"
        by (auto simp: rthen_Some_iff dest!: lua_setuservalue_len)
      with 2(3) [OF a u(1) refl refl True this] u(1) show ?thesis by (auto dest: get_userdata_len)
    next
      case False
      with u show ?thesis by (auto dest: get_userdata_len)
    qed
  next
    case a: 3
    with 2(1,4) show ?thesis by (auto simp: unpack.psimps dest: unpack_scalar_len)
  qed
next
  case (3 L array_size rb)
  from 3(1,3) obtain n rb1 where n: "unpack_array_size array_size rb = Some (Inr (n, rb1))"
      "unpack L (Array_loop 1 n []) rb1 = Some (Inr (v, rb'))"
    by (auto simp: unpack.psimps rthen_Some_iff)
  with 3(2) [OF n] show ?case by (auto dest: unpack_array_size_len)
next
  case (4 L i n es rb)
  show ?case
  proof (cases "i \<le> n")
    case True
    with 4(1,5) obtain x rb1 where x: "unpack L Unpack_one rb = Some (Inr (x, rb1))"
        "unpack L (Array_loop (i + 1) n (put_entry es (LInt (of_int i)) x)) rb1 = Some (Inr (v, rb'))"
      by (auto simp: unpack.psimps rthen_Some_iff)
    from 4(2) [OF True x(1)] 4(3) [OF True x] show ?thesis by auto
  next
    case False
    with 4(1,5) have "unpack L (Hash_loop es) rb = Some (Inr (v, rb'))" by (simp add: unpack.psimps)
    with 4(4) [OF False this] show ?thesis by simp
  qed
next
  case (5 L es rb)
  from 5(1,5) obtain k rb1 where k: "unpack L Unpack_one rb = Some (Inr (k, rb1))"
    by (auto simp: unpack.psimps rthen_Some_iff)
  note l1 = 5(2) [OF k]
  show ?case
  proof (cases "k = LNil")
    case True
    with 5(1,5) k l1 show ?thesis by (auto simp: unpack.psimps rthen_Some_iff)
  next
    case False
    with 5(1,5) k obtain x rb2 where x: "unpack L Unpack_one rb1 = Some (Inr (x, rb2))"
        "(case lua_rawset es k x of Inl e \<Rightarrow> Some (Inl e) | Inr es \<Rightarrow> unpack L (Hash_loop es) rb2) = Some (Inr (v, rb'))"
      by (auto simp: unpack.psimps rthen_Some_iff)
    then obtain es' where e: "lua_rawset es k x = Inr es'" "unpack L (Hash_loop es') rb2 = Some (Inr (v, rb'))"
      by (cases "lua_rawset es k x") auto
    from 5(3) [OF k False x(1)] 5(4) [OF k False x(1) e] l1 show ?thesis by auto
  qed
qed

fun call_weight :: "unpack_call \<Rightarrow> nat" where
  "call_weight Unpack_one = 0"
| "call_weight (Hash_loop _) = 1"
| "call_weight (Array_loop _ _ _) = 2"
| "call_weight (Unpack_table _) = 3"
| "call_weight (Push_value _ _) = 4"

lemma unpack_ends: "All unpack_dom"
proof (relation "measures [\<lambda>(L, c, rb). nat (rb_len rb), \<lambda>(L, c, rb). call_weight c]", goal_cases)
  case 1
  show ?case by simp
next
  case (2 L rb t rb1)
  then show ?case by (auto dest: read_object_len)
qed (auto dest!: unpack_len_dom get_userdata_len unpack_array_size_len)

termination unpack
  by (rule unpack_ends)

declare unpack.simps [simp del]

lemma unpack_len: "unpack L c rb = Some (Inr (v, rb')) \<Longrightarrow> rb_len rb' \<le> rb_len rb"
  "unpack L Unpack_one rb = Some (Inr (v, rb')) \<Longrightarrow> rb_len rb' < rb_len rb"
  using unpack_len_dom unpack_ends by blast+

lemma unpack_step:
  assumes "(Some p, rb1) = rb_read rb 1" and "unpack L c rb1 = Some (Inr (v, rb2))"
  shows "nat (rb_len rb2) < nat (rb_len rb)"
  using assms(1) unpack_len(1) [OF assms(2)] by (auto simp: rb_read_def split: if_splits)

section \<open>The entry\<close>

text \<open>The loop of \<^verbatim>\<open>luaseri_unpack\<close>.\<close>

function unpack_values :: "lua_hooks \<Rightarrow> read_block \<Rightarrow> (string + lua_value list) option" where
  "unpack_values L rb = (case rb_read rb 1 of
     (None, rb) \<Rightarrow> Some (Inr [])
   | (Some p, rb1) \<Rightarrow> do {
       t \<leftarrow> rb_bytes rb1 p 1;
       r \<leftarrow> unpack L (Push_value (uint (hd t) AND 7) (drop_bit 3 (uint (hd t)))) rb1;
       case r of
         Inl e \<Rightarrow> Some (Inl e)
       | Inr (v, rb2) \<Rightarrow> do {
           rest \<leftarrow> unpack_values L rb2;
           Some (case rest of Inl e \<Rightarrow> Inl e | Inr vs \<Rightarrow> Inr (v # vs)) } })"
  by pat_completeness auto
termination
  by (relation "measure (\<lambda>(L, rb). nat (rb_len rb))") (simp, simp only: in_measure split_conv, metis unpack_step)

declare unpack_values.simps [simp del]

text \<open>The argument: nothing, a string, or a pointer to an object with a length.\<close>

datatype unpack_arg = Arg_nil | Arg_string "u8 list" | Arg_pointer "u8 list option" int

definition luaseri_unpack :: "lua_hooks \<Rightarrow> unpack_arg \<Rightarrow> (string + lua_value list) option" where
  "luaseri_unpack L arg = (case arg of
     Arg_nil \<Rightarrow> Some (Inr [])
   | _ \<Rightarrow> (let (buffer, len) = (case arg of Arg_string s \<Rightarrow> (Some s, c_int (int (length s)))
                               | Arg_pointer p n \<Rightarrow> (p, c_int n) | Arg_nil \<Rightarrow> (None, 0)) in
       if len = 0 then Some (Inr [])
       else case buffer of
         None \<Rightarrow> Some (Inl ''deserialize null pointer'')
       | Some bs \<Rightarrow> unpack_values L (rball_init bs len)))"

end
