(* ===== verification/SeriPack.thy ===== *)
theory SeriPack
  imports Seri
begin

text \<open>
  What the packer writes. The bytes of a value are given by a function on the tree alone; the chain of blocks holds them
  in order whatever their lengths, and an error leaves no block behind.
\<close>

section \<open>The chain of blocks\<close>

definition wb_bytes :: "write_block \<Rightarrow> u8 list" where
  "wb_bytes b = concat (wb_blocks b)"

definition wb_ok :: "write_block \<Rightarrow> bool" where
  "wb_ok b \<longleftrightarrow> (\<exists>full cur. wb_blocks b = full @ [cur] \<and> (\<forall>x\<in>set full. length x = BLOCK_SIZE) \<and> length cur = wb_ptr b \<and>
     wb_ptr b \<le> BLOCK_SIZE) \<and> wb_len b = length (wb_bytes b)"

lemma wb_init_ok: "wb_ok wb_init" "wb_bytes wb_init = []"
  by (auto simp: wb_ok_def wb_bytes_def wb_init_def intro!: exI [of _ "[]"])

lemma blk_alloc_ok: "wb_ok b \<Longrightarrow> wb_ptr b = BLOCK_SIZE \<Longrightarrow> wb_ok (blk_alloc b) \<and> wb_bytes (blk_alloc b) = wb_bytes b"
  by (auto simp: wb_ok_def wb_bytes_def blk_alloc_def)

lemma wb_store_ok:
  assumes "wb_ok b" "wb_ptr b + length buf \<le> BLOCK_SIZE" "wb_len b + length buf \<le> INT_MAX"
  obtains b' where "wb_store b buf = Some b'" "wb_ok (b'\<lparr>wb_ptr := wb_ptr b + length buf\<rparr>)" "wb_bytes b' = wb_bytes b @ buf"
    "wb_ptr b' = wb_ptr b" "wb_len b' = wb_len b + length buf"
proof -
  obtain full cur where b: "wb_blocks b = full @ [cur]" "\<forall>x\<in>set full. length x = BLOCK_SIZE" "length cur = wb_ptr b"
      "wb_len b = length (concat full) + length cur"
    using assms(1) by (auto simp: wb_ok_def wb_bytes_def)
  show thesis
  proof
    show "wb_store b buf = Some (b\<lparr>wb_blocks := full @ [cur @ buf], wb_len := wb_len b + length buf\<rparr>)"
      using assms(2,3) b by (simp add: wb_store_def)
  qed (use assms b in \<open>auto simp: wb_ok_def wb_bytes_def\<close>)
qed

lemma wb_copy_ok:
  "wb_ok b \<Longrightarrow> wb_len b + length buf \<le> INT_MAX \<Longrightarrow>
   \<exists>b'. wb_copy b buf = Some b' \<and> wb_ok b' \<and> wb_bytes b' = wb_bytes b @ buf"
proof (induction b buf rule: wb_copy.induct)
  case (1 b buf)
  show ?case
  proof (cases "wb_ptr b + length buf \<le> BLOCK_SIZE")
    case True
    obtain b' where "wb_store b buf = Some b'" "wb_ok (b'\<lparr>wb_ptr := wb_ptr b + length buf\<rparr>)" "wb_bytes b' = wb_bytes b @ buf"
      by (rule wb_store_ok [OF 1(2) True 1(3)])
    with True show ?thesis by (subst wb_copy.simps) (simp add: wb_bytes_def)
  next
    case False
    let ?n = "BLOCK_SIZE - wb_ptr b"
    from 1(2) have p: "wb_ptr b \<le> BLOCK_SIZE" by (auto simp: wb_ok_def)
    with False have l: "length (take ?n buf) = ?n" by simp
    have s: "wb_ptr b + length (take ?n buf) = BLOCK_SIZE" "wb_len b + length (take ?n buf) \<le> INT_MAX"
      using l p 1(3) False by linarith+
    obtain b' where b': "wb_store b (take ?n buf) = Some b'" "wb_ok (b'\<lparr>wb_ptr := BLOCK_SIZE\<rparr>)"
        "wb_bytes b' = wb_bytes b @ take ?n buf" "wb_len b' = wb_len b + ?n"
      by (rule wb_store_ok [OF 1(2) eq_refl [OF s(1)] s(2)]) (simp only: l le_add_diff_inverse [OF p])
    have a: "wb_ok (blk_alloc b')" "wb_bytes (blk_alloc b') = wb_bytes b @ take ?n buf" "wb_len (blk_alloc b') = wb_len b + ?n"
      using blk_alloc_ok [OF b'(2)] b'(3,4) by (simp_all add: blk_alloc_def wb_bytes_def)
    have "wb_len (blk_alloc b') + length (drop ?n buf) \<le> INT_MAX" using a(3) 1(3) False p by simp
    from 1(1) [OF False refl b'(1) a(1) this] a(2) have
      "\<exists>r. wb_copy (blk_alloc b') (drop ?n buf) = Some r \<and> wb_ok r \<and> wb_bytes r = wb_bytes b @ buf" by simp
    moreover have "wb_copy b buf = wb_copy (blk_alloc b') (drop ?n buf)"
      using False b'(1) by (subst wb_copy.simps) (simp add: Let_def)
    ultimately show ?thesis by simp
  qed
qed

lemma wb_push_ok:
  assumes "wb_ok b" "wb_len b + length buf \<le> INT_MAX" "sz = int (length buf)"
  shows "\<exists>b'. wb_push b buf sz = Some b' \<and> wb_ok b' \<and> wb_bytes b' = wb_bytes b @ buf"
proof (cases "wb_ptr b = BLOCK_SIZE")
  case True
  with assms(1) have "wb_ok (blk_alloc b)" "wb_bytes (blk_alloc b) = wb_bytes b" "wb_len (blk_alloc b) = wb_len b"
    using blk_alloc_ok by (auto simp: blk_alloc_def)
  with True assms(2,3) wb_copy_ok [of "blk_alloc b" buf] show ?thesis by (auto simp: wb_push_def)
next
  case False
  with assms wb_copy_ok [of b buf] show ?thesis by (auto simp: wb_push_def)
qed

lemma seri_blocks:
  "(\<forall>x\<in>set full. length x = BLOCK_SIZE) \<Longrightarrow> length cur \<le> BLOCK_SIZE \<Longrightarrow>
   seri (full @ [cur]) (length (concat full) + length cur) = Some (concat full @ cur)"
  by (induction full) (auto simp: BLOCK_SIZE_def)

lemma seri_ok:
  assumes "wb_ok b"
  shows "seri (wb_blocks b) (wb_len b) = Some (wb_bytes b)"
proof -
  from assms obtain full cur where "wb_blocks b = full @ [cur]" "\<forall>x\<in>set full. length x = BLOCK_SIZE" "length cur \<le> BLOCK_SIZE"
      "wb_len b = length (concat full) + length cur"
    by (auto simp: wb_ok_def wb_bytes_def)
  with seri_blocks [of full cur] show ?thesis by (simp add: wb_bytes_def)
qed

section \<open>Steps of the packing\<close>

text \<open>What a step does to a well-formed chain: it appends the bytes, or it fails with the error and no block is left. The
  bytes bound the space that it needs.\<close>

definition wb_gone :: write_block where
  "wb_gone = \<lparr>wb_blocks = [], wb_len = 0, wb_ptr = 0\<rparr>"

definition yields :: "writer \<Rightarrow> string option \<Rightarrow> u8 list \<Rightarrow> bool" where
  "yields f r bs \<longleftrightarrow> (\<forall>b. wb_ok b \<longrightarrow> wb_len b + length bs \<le> INT_MAX \<longrightarrow> (case r of
     None \<Rightarrow> \<exists>b'. f b = Some (Inr b') \<and> wb_ok b' \<and> wb_bytes b' = wb_bytes b @ bs
   | Some e \<Rightarrow> f b = Some (Inl (e, wb_gone))))"

fun first_error :: "string option list \<Rightarrow> string option" where
  "first_error [] = None"
| "first_error (r # rs) = (case r of None \<Rightarrow> first_error rs | Some e \<Rightarrow> Some e)"

lemma first_error_append: "first_error (xs @ ys) = first_error (first_error xs # [first_error ys])"
  by (induction xs) (auto split: option.split)

lemma first_error_None: "first_error rs = None \<longleftrightarrow> (\<forall>r\<in>set rs. r = None)"
  by (induction rs) (auto split: option.split)

lemma first_error_two [simp]: "first_error [None, r] = r" "first_error [Some e, r] = Some e" "first_error [r, None] = r"
  by (auto split: option.split)

declare first_error.simps(2) [simp del]

lemma yields_wthen:
  assumes "yields f r xs" "yields g s ys"
  shows "yields (wthen f g) (first_error [r, s]) (xs @ ys)"
  unfolding yields_def
proof (intro allI impI)
  fix b
  assume b: "wb_ok b" "wb_len b + length (xs @ ys) \<le> INT_MAX"
  show "case first_error [r, s] of
      None \<Rightarrow> \<exists>b'. wthen f g b = Some (Inr b') \<and> wb_ok b' \<and> wb_bytes b' = wb_bytes b @ xs @ ys
    | Some e \<Rightarrow> wthen f g b = Some (Inl (e, wb_gone))"
  proof (cases r)
    case None
    with assms(1) b obtain b1 where b1: "f b = Some (Inr b1)" "wb_ok b1" "wb_bytes b1 = wb_bytes b @ xs"
      by (fastforce simp: yields_def)
    then have "wb_len b1 + length ys \<le> INT_MAX" using b by (simp add: wb_ok_def)
    with assms(2) b1 None show ?thesis by (fastforce simp: yields_def wthen_def split: option.splits)
  next
    case (Some e)
    with assms(1) b show ?thesis by (simp add: yields_def wthen_def)
  qed
qed

lemma yields_skip: "yields (\<lambda>b. Some (Inr b)) None []"
  by (simp add: yields_def)

lemma yields_wput: "sz = int (length bs) \<Longrightarrow> yields (wput bs sz) None bs"
  unfolding yields_def wput_def using wb_push_ok by fastforce

lemma yields_wput_type:
  assumes "0 \<le> v"
  shows "yields (wput_type t v) None [of_int (t OR push_bit 3 v)]"
  using yields_wput [of 1 "[of_int (t OR push_bit 3 v)]"] assms by (simp add: wput_type_def [abs_def] COMBINE_TYPE_def)

lemma yields_wloop:
  "(\<And>x. x \<in> set xs \<Longrightarrow> yields (f x) (r x) (e x)) \<Longrightarrow>
   yields (wloop f xs) (first_error (map r xs)) (concat (map e xs))"
proof (induction xs)
  case Nil
  have "wloop f [] = (\<lambda>b. Some (Inr b))" by (rule ext) simp
  then show ?case by (simp add: yields_skip)
next
  case (Cons x xs)
  have "wloop f (x # xs) = wthen (f x) (wloop f xs)" by (rule ext) simp
  moreover have "first_error (map r (x # xs)) = first_error [r x, first_error (map r xs)]"
    by (simp add: first_error.simps(2) split: option.split)
  ultimately show ?case using yields_wthen [OF Cons.prems Cons.IH] Cons.prems by (simp del: first_error.simps)
qed

lemma yields_wfail: "yields (\<lambda>b. werror e (wb_free b)) (Some e) bs"
  by (simp add: yields_def werror_def wb_free_def wb_gone_def)

lemma yields_then_ok: "yields f None xs \<Longrightarrow> yields g None ys \<Longrightarrow> yields (wthen f g) None (xs @ ys)"
  using yields_wthen [of f None xs g None ys] by simp

section \<open>The bytes of a value\<close>

definition tag :: "int \<Rightarrow> int \<Rightarrow> u8" where
  "tag t v = of_int (t OR push_bit 3 v)"

definition encode_int :: "u64 \<Rightarrow> u8 list" where
  "encode_int v =
     (if v = 0 then [tag 2 0]
      else if v \<noteq> scast (ucast v :: u32) then tag 2 6 # le_bytes 8 v
      else if sint v < 0 then tag 2 4 # le_bytes 4 v
      else if sint v < 2 ^ 8 then tag 2 1 # le_bytes 1 v
      else if sint v < 2 ^ 16 then tag 2 2 # le_bytes 2 v
      else tag 2 4 # le_bytes 4 v)"

definition encode_string :: "u8 list \<Rightarrow> u8 list" where
  "encode_string s = (let n = length s in
     (if n < 32 then [tag 4 (int n)]
      else if n < 2 ^ 16 then tag 5 2 # le_bytes 2 (of_nat n :: u16)
      else tag 5 4 # le_bytes 4 (of_nat n :: u32)) @ s)"

definition table_header :: "nat \<Rightarrow> u8 list" where
  "table_header n = (if n < 31 then [tag 6 (int n)] else tag 6 31 # encode_int (of_nat n))"

text \<open>The values of a table in the order in which they are written.\<close>

definition visited :: "nat \<Rightarrow> ((lua_value \<times> lua_value) list \<times> string option) option \<Rightarrow> (lua_value \<times> lua_value) list \<Rightarrow> lua_value list" where
  "visited n pairs es = (case pairs of
     Some (kvs, err) \<Rightarrow> concat (map (\<lambda>e. [fst e, snd e]) kvs)
   | None \<Rightarrow> map (rawgeti es) [1..int n] @ concat (map (\<lambda>e. [fst e, snd e]) (filter (\<lambda>e. \<not> in_array (int n) (fst e)) es)))"

definition array_length :: "nat \<Rightarrow> ((lua_value \<times> lua_value) list \<times> string option) option \<Rightarrow> nat" where
  "array_length n pairs = (case pairs of None \<Rightarrow> n | Some _ \<Rightarrow> 0)"

function encode :: "nat \<Rightarrow> lua_value \<Rightarrow> u8 list" where
  "encode depth v =
     (if depth > MAX_DEPTH then []
      else case v of
        LNil \<Rightarrow> [tag 0 0]
      | LBool t \<Rightarrow> [tag 1 (if t then 1 else 0)]
      | LInt x \<Rightarrow> encode_int x
      | LReal n \<Rightarrow> tag 2 8 # le_bytes 8 n
      | LPointer p \<Rightarrow> tag 3 0 # le_bytes 8 p
      | LString s \<Rightarrow> encode_string s
      | LTable n pairs es \<Rightarrow>
          table_header (array_length n pairs) @ concat (map (encode (depth + 1)) (visited n pairs es)) @ [tag 0 0]
      | _ \<Rightarrow> [])"
  by pat_completeness auto
termination
  by (relation "measure (\<lambda>(depth, v). MAX_DEPTH + 1 - depth)") auto

text \<open>The error of packing, the first in this order.\<close>

function encode_error :: "nat \<Rightarrow> lua_value \<Rightarrow> string option" where
  "encode_error depth v =
     (if depth > MAX_DEPTH then Some ''serialize can't pack too depth table/userdata''
      else case v of
        LTable n pairs es \<Rightarrow> first_error (map (encode_error (depth + 1)) (visited n pairs es))
      | LOther t \<Rightarrow> Some (''Unsupport type '' @ t @ '' to serialize'')
      | _ \<Rightarrow> None)"
  by pat_completeness auto
termination
  by (relation "measure (\<lambda>(depth, v). MAX_DEPTH + 1 - depth)") auto

declare encode.simps [simp del] encode_error.simps [simp del]

text \<open>Values that are packed without a call of Lua code that may fail: no full userdata, and the iterations of \<^verbatim>\<open>__pairs\<close> end.\<close>

fun packable :: "lua_value \<Rightarrow> bool" where
  "packable (LTable n pairs es) = (n \<le> INT_MAX \<and> (\<forall>(k, v) \<in> set es. packable k \<and> packable v) \<and>
     (case pairs of None \<Rightarrow> True | Some (kvs, err) \<Rightarrow> err = None \<and> (\<forall>(k, v) \<in> set kvs. packable k \<and> packable v)))"
| "packable (LUserdata _ _ _) = False"
| "packable (LString s) = (length s \<le> INT_MAX)"
| "packable _ = True"

section \<open>The packer writes these bytes\<close>

lemma length_le_bytes [simp]: "length (le_bytes n w) = n"
  by (simp add: le_bytes_def)

lemma le_bytes_ucast:
  "8 * n \<le> LENGTH('a) \<Longrightarrow> le_bytes n (ucast (v :: u64) :: 'a::len word) = le_bytes n v"
  unfolding le_bytes_def by (rule map_cong [OF refl], rule bit_word_eqI) (auto simp: bit_simps)

lemma tag_byte: "0 \<le> v \<Longrightarrow> yields (wput_type t v) None [tag t v]"
  unfolding tag_def by (rule yields_wput_type)

lemma yields_tagged:
  "0 \<le> v \<Longrightarrow> sz = int (length bs) \<Longrightarrow> yields (wthen (wput_type t v) (wput bs sz)) None (tag t v # bs)"
  using yields_then_ok [OF tag_byte yields_wput, of v sz bs t] by simp

lemma yields_wb_nil: "yields wb_nil None [tag 0 0]"
  unfolding wb_nil_def type_defs by (rule tag_byte) simp

lemma yields_wb_integer: "yields (wb_integer v) None (encode_int v)"
  unfolding wb_integer_def encode_int_def type_defs by (auto intro!: yields_tagged tag_byte simp: le_bytes_ucast)

lemma yields_wb_string:
  assumes "length s \<le> INT_MAX"
  shows "yields (wb_string s (c_int (int (length s)))) None (encode_string s)"
proof -
  let ?n = "int (length s)"
  have c: "c_int ?n = ?n" using assms by (intro c_int_small) (simp_all add: INT_MAX_def)
  have p: "yields (wput s ?n) None s" by (rule yields_wput) simp
  consider "?n < 32" | "32 \<le> ?n" "?n < 0x10000" | "0x10000 \<le> ?n" by linarith
  then show ?thesis
  proof cases
    case 1
    have "yields (\<lambda>b. if ?n > 0 then wput s ?n b else Some (Inr b)) None s"
      using p yields_skip by (cases "s = []") simp_all
    moreover have "wb_string s ?n = wthen (wput_type 4 ?n) (\<lambda>b. if ?n > 0 then wput s ?n b else Some (Inr b))"
      using 1 by (simp add: wb_string_def type_defs)
    moreover have "encode_string s = [tag 4 ?n] @ s" using 1 by (simp add: encode_string_def)
    ultimately show ?thesis using yields_then_ok [OF tag_byte] by (simp only: c of_nat_0_le_iff)
  next
    case 2
    have "wb_string s ?n = wthen (wthen (wput_type 5 2) (wput (le_bytes 2 (of_int ?n :: u16)) 2)) (wput s ?n)"
      using 2 by (simp add: wb_string_def type_defs)
    moreover have "encode_string s = (tag 5 2 # le_bytes 2 (of_int ?n :: u16)) @ s" using 2 by (simp add: encode_string_def)
    moreover have "yields (wthen (wput_type 5 2) (wput (le_bytes 2 (of_int ?n :: u16)) 2)) None (tag 5 2 # le_bytes 2 (of_int ?n :: u16))"
      by (rule yields_tagged) simp_all
    ultimately show ?thesis using yields_then_ok [OF _ p] by (simp only: c)
  next
    case 3
    have "wb_string s ?n = wthen (wthen (wput_type 5 4) (wput (le_bytes 4 (of_int ?n :: u32)) 4)) (wput s ?n)"
      using 3 by (simp add: wb_string_def type_defs)
    moreover have "encode_string s = (tag 5 4 # le_bytes 4 (of_int ?n :: u32)) @ s" using 3 by (simp add: encode_string_def)
    moreover have "yields (wthen (wput_type 5 4) (wput (le_bytes 4 (of_int ?n :: u32)) 4)) None (tag 5 4 # le_bytes 4 (of_int ?n :: u32))"
      by (rule yields_tagged) simp_all
    ultimately show ?thesis using yields_then_ok [OF _ p] by (simp only: c)
  qed
qed

lemma yields_wb_pointer: "yields (wb_pointer p) None (tag 3 0 # le_bytes 8 p)"
proof -
  have "yields (wput [tag 3 0] 1) None [tag 3 0]" by (rule yields_wput) simp
  from yields_then_ok [OF this yields_wput [of 8 "le_bytes 8 p"]] show ?thesis
    by (simp add: wb_pointer_def tag_def type_defs)
qed

lemma yields_header:
  assumes "n \<le> INT_MAX"
  shows "array_size_of n = int n" and
    "yields (if array_size_of n \<ge> MAX_COOKIE - 1 then wthen (wput_type TYPE_TABLE (MAX_COOKIE - 1)) (wb_integer (of_int (array_size_of n)))
       else wput_type TYPE_TABLE (array_size_of n)) None (table_header n)"
proof -
  show c: "array_size_of n = int n"
    using assms unfolding array_size_of_def by (intro c_int_small) (simp_all add: INT_MAX_def)
  from yields_then_ok [OF tag_byte yields_wb_integer, of 31 6 "of_nat n"] tag_byte [of "int n" 6]
  show "yields (if array_size_of n \<ge> MAX_COOKIE - 1 then wthen (wput_type TYPE_TABLE (MAX_COOKIE - 1)) (wb_integer (of_int (array_size_of n)))
       else wput_type TYPE_TABLE (array_size_of n)) None (table_header n)"
    by (simp add: c table_header_def type_defs)
qed

text \<open>The pairs of a table one after the other, some of them left out.\<close>

lemma yields_pairs:
  fixes pack :: "lua_value \<Rightarrow> writer"
  assumes "\<And>x. x \<in> set (concat (map (\<lambda>e. [fst e, snd e]) (filter P es))) \<Longrightarrow> yields (pack x) (r x) (f x)"
  shows "yields (wloop (\<lambda>e. if \<not> P e then (\<lambda>b. Some (Inr b)) else wthen (pack (fst e)) (pack (snd e))) es)
    (first_error (map r (concat (map (\<lambda>e. [fst e, snd e]) (filter P es)))))
    (concat (map f (concat (map (\<lambda>e. [fst e, snd e]) (filter P es)))))"
proof -
  let ?r = "\<lambda>e. if P e then first_error [r (fst e), r (snd e)] else None"
  let ?f = "\<lambda>e. if P e then f (fst e) @ f (snd e) else []"
  have "yields (wloop (\<lambda>e. if \<not> P e then (\<lambda>b. Some (Inr b)) else wthen (pack (fst e)) (pack (snd e))) es)
      (first_error (map ?r es)) (concat (map ?f es))"
  proof (rule yields_wloop)
    fix e assume e: "e \<in> set es"
    have "yields (pack x) (r x) (f x)" if "P e" "x = fst e \<or> x = snd e" for x
      by (rule assms, cases e) (use e that in auto)
    then show "yields (if \<not> P e then (\<lambda>b. Some (Inr b)) else wthen (pack (fst e)) (pack (snd e))) (?r e) (?f e)"
      using yields_skip by (cases "P e") (auto intro!: yields_wthen simp del: first_error.simps)
  qed
  moreover have "first_error (map ?r es) = first_error (map r (concat (map (\<lambda>e. [fst e, snd e]) (filter P es))))"
    by (induction es) (auto simp: first_error.simps(2) split: option.split)
  moreover have "concat (map ?f es) = concat (map f (concat (map (\<lambda>e. [fst e, snd e]) (filter P es))))"
    by (induction es) auto
  ultimately show ?thesis by simp
qed

lemma yields_table:
  fixes pack :: "lua_value \<Rightarrow> writer"
  assumes "n \<le> INT_MAX" "case pairs of None \<Rightarrow> True | Some (kvs, err) \<Rightarrow> err = None"
    and "\<And>x. x \<in> set (visited n pairs es) \<Longrightarrow> yields (pack x) (r x) (f x)"
  shows "yields (wb_table pack n pairs es) (first_error (map r (visited n pairs es)))
    (table_header (array_length n pairs) @ concat (map f (visited n pairs es)) @ [tag 0 0])"
proof (cases pairs)
  case None
  let ?hash = "concat (map (\<lambda>e. [fst e, snd e]) (filter (\<lambda>e. \<not> in_array (int n) (fst e)) es))"
  let ?arr = "map (rawgeti es) [1..int n]"
  have v: "visited n pairs es = ?arr @ ?hash" by (simp add: visited_def None)
  have "yields (wloop (\<lambda>i. pack (rawgeti es i)) [1..int n]) (first_error (map r ?arr)) (concat (map f ?arr))"
    using yields_wloop [of "[1..int n]" "\<lambda>i. pack (rawgeti es i)" "\<lambda>i. r (rawgeti es i)" "\<lambda>i. f (rawgeti es i)"] assms(3)
    by (simp add: v comp_def)
  from yields_wthen [OF yields_header(2) [OF assms(1)] this]
  have a: "yields (wb_table_array pack n es) (first_error (map r ?arr)) (table_header n @ concat (map f ?arr))"
    unfolding wb_table_array_def Let_def yields_header(1) [OF assms(1)] by (simp only: first_error_two)
  have "yields (wb_table_hash pack (int n) es) (first_error [first_error (map r ?hash), None]) (concat (map f ?hash) @ [tag 0 0])"
    unfolding wb_table_hash_def
    using yields_wthen [OF yields_pairs [where P = "\<lambda>e. \<not> in_array (int n) (fst e)" and es = es and pack = pack and r = r and f = f] yields_wb_nil] assms(3)
    by (simp add: v)
  from yields_wthen [OF a this]
  have "yields (wthen (wb_table_array pack n es) (wb_table_hash pack (int n) es)) (first_error (map r (?arr @ ?hash)))
      (table_header n @ concat (map f (?arr @ ?hash)) @ [tag 0 0])"
    by (simp only: first_error_two first_error_append map_append concat_append append_assoc)
  then show ?thesis unfolding v
    by (simp only: None wb_table_def array_length_def yields_header(1) [OF assms(1)] option.case)
next
  case (Some p)
  obtain kvs where p: "p = (kvs, None)" using assms(2) Some by (cases p) auto
  have v: "visited n pairs es = concat (map (\<lambda>e. [fst e, snd e]) (filter (\<lambda>_. True) kvs))" by (simp add: visited_def Some p)
  have "yields (wloop (\<lambda>e. wthen (pack (fst e)) (pack (snd e))) kvs) (first_error (map r (visited n pairs es)))
      (concat (map f (visited n pairs es)))"
    using yields_pairs [of "\<lambda>_. True" kvs pack r f] assms(3) by (simp add: v)
  from yields_wthen [OF tag_byte [of 0 6] yields_wthen [OF this yields_wb_nil]] show ?thesis
    by (simp add: wb_table_def wb_table_metapairs_def Some p array_length_def table_header_def type_defs split: option.split)
qed

lemma visited_packable: "packable (LTable n pairs es) \<Longrightarrow> x \<in> set (visited n pairs es) \<Longrightarrow> packable x"
  by (fastforce simp: visited_def rawgeti_def dest: map_of_SomeD split: option.splits)

lemma pack_one_yields: "packable v \<Longrightarrow> yields (pack_one v depth) (encode_error depth v) (encode depth v)"
proof (induction v depth rule: pack_one.induct)
  case (1 v depth)
  show ?case
  proof (cases "depth > MAX_DEPTH")
    case True
    then show ?thesis by (simp add: pack_one.simps encode_error.simps yields_wfail)
  next
    case False
    show ?thesis
    proof (cases v)
      case (LTable n pairs es)
      have "yields (wb_table (\<lambda>x. pack_one x (depth + 1)) n pairs es) (first_error (map (encode_error (depth + 1)) (visited n pairs es)))
          (table_header (array_length n pairs) @ concat (map (encode (depth + 1)) (visited n pairs es)) @ [tag 0 0])"
      proof (rule yields_table)
        fix x assume "x \<in> set (visited n pairs es)"
        then show "yields (pack_one x (depth + 1)) (encode_error (depth + 1) x) (encode (depth + 1) x)"
          using 1(1) [OF False LTable] visited_packable 1(3) LTable by blast
      qed (use 1(3) LTable in \<open>auto split: option.splits\<close>)
      moreover have "pack_one v depth = wb_table (\<lambda>x. pack_one x (depth + 1)) n pairs es"
        by (subst pack_one.simps) (simp add: False LTable)
      ultimately show ?thesis using False LTable by (simp add: encode_error.simps [of depth] encode.simps [of depth])
    qed (use False 1(3) in \<open>auto simp: pack_one.simps encode_error.simps encode.simps wb_real_def wb_boolean_def type_defs
          unsupported_def [abs_def] yields_wfail intro!: yields_wb_nil yields_wb_pointer yields_wb_integer yields_wb_string yields_tagged tag_byte\<close>)
  qed
qed

section \<open>Packing the arguments of a message\<close>

definition encode_all :: "lua_value list \<Rightarrow> u8 list" where
  "encode_all vs = concat (map (encode 0) vs)"

lemma luaseri_pack_reference:
  assumes "\<forall>v\<in>set args. packable v" and "length (encode_all args) \<le> INT_MAX"
  shows "luaseri_pack args = Some (case first_error (map (encode_error 0) args) of
      None \<Rightarrow> Inr (encode_all args) | Some e \<Rightarrow> Inl (e, 0))"
proof -
  have y: "yields (pack_from args) (first_error (map (encode_error 0) args)) (encode_all args)"
    unfolding encode_all_def pack_from_def [abs_def] by (rule yields_wloop) (use assms(1) pack_one_yields in blast)
  have "wb_len wb_init + length (encode_all args) \<le> INT_MAX" using assms(2) by (simp add: wb_init_def)
  from y [unfolded yields_def, rule_format, OF wb_init_ok(1) this]
  show ?thesis by (auto simp: luaseri_pack_def seri_ok wb_gone_def wb_init_ok split: option.splits)
qed

text \<open>(C17) The packer and its reference: for arguments of every shape without userdata, whose texts, tables and whole encoding
  stay below 2 GB and whose \<^verbatim>\<open>__pairs\<close> metamethods raise no error, the chain of blocks of 128 bytes that
  \<^verbatim>\<open>luaseri_pack\<close> fills and copies holds exactly the bytes of the arguments one after the other, wherever the blocks end; or the call ends in
  the error of the first value that cannot be packed, a function or thread, or a table nested deeper than 32, and then no block is
  left allocated.\<close>

theorem luaseri_pack_encodes:
  assumes "\<forall>v\<in>set args. packable v" and "length (encode_all args) \<le> INT_MAX"
  shows "luaseri_pack args = Some (case first_error (map (encode_error 0) args) of
      None \<Rightarrow> Inr (encode_all args) | Some e \<Rightarrow> Inl (e, 0))"
  using assms by (rule luaseri_pack_reference)

lemma luaseri_pack_encodes_witness:
  "luaseri_pack [LInt 5, LTable 1 None [(LInt 1, LBool True), (LString [107], LNil)]] = Some (Inr [10, 5, 14, 9, 12, 107, 0, 0]) \<and>
   luaseri_pack [LInt 5, LOther ''function''] = Some (Inl (''Unsupport type function to serialize'', 0))"
proof -
  have t: "first_error (map (encode_error 0) [LInt 5, LTable 1 None [(LInt 1, LBool True), (LString [107], LNil)]]) = None"
    "encode_all [LInt 5, LTable 1 None [(LInt 1, LBool True), (LString [107], LNil)]] = [10, 5, 14, 9, 12, 107, 0, 0]"
    "first_error (map (encode_error 0) [LInt 5, LOther ''function'']) = Some ''Unsupport type function to serialize''"
    "length (encode_all [LInt 5, LOther ''function'']) \<le> 8"
    by code_simp+
  show ?thesis
    using luaseri_pack_encodes [of "[LInt 5, LTable 1 None [(LInt 1, LBool True), (LString [107], LNil)]]"]
      luaseri_pack_encodes [of "[LInt 5, LOther ''function'']"] t
    by (simp add: INT_MAX_def)
qed

end
