(* ===== verification/SeriTrip.thy ===== *)
theory SeriTrip
  imports SeriPack "HOL-Library.Multiset"
begin

text \<open>
  What is packed comes out of the unpacker. A table comes back as another table with its pairs in another order, so values are
  compared by their content, a tree in which a table is a multiset of pairs.
\<close>

section \<open>Contents\<close>

datatype lua_content = CNil | CBool bool | CInt u64 | CReal u64 | CPointer u64 | CString "u8 list"
  | CTable "(lua_content \<times> lua_content) multiset" | CObject

text \<open>The pairs of a table: those of its iteration when it has the metamethod.\<close>

definition pairs_of :: "((lua_value \<times> lua_value) list \<times> string option) option \<Rightarrow> (lua_value \<times> lua_value) list \<Rightarrow>
    (lua_value \<times> lua_value) list" where
  "pairs_of pairs es = (case pairs of Some (kvs, err) \<Rightarrow> kvs | None \<Rightarrow> es)"

lemma size_pairs_of [termination_simp]:
  assumes "(k, v) \<in> set (pairs_of pairs es)"
  shows "size k < size (LTable n pairs es)" "size v < size (LTable n pairs es)"
proof -
  have "size k \<le> size_list (size_prod size size) xs" "size v \<le> size_list (size_prod size size) xs"
    if "(k, v) \<in> set xs" for xs :: "(lua_value \<times> lua_value) list"
    using that by (auto intro: size_list_estimation')
  with assms show "size k < size (LTable n pairs es)" "size v < size (LTable n pairs es)"
    by (fastforce simp: pairs_of_def split: option.splits)+
qed

function content :: "lua_value \<Rightarrow> lua_content" where
  "content LNil = CNil"
| "content (LBool t) = CBool t"
| "content (LInt x) = CInt x"
| "content (LReal r) = CReal r"
| "content (LPointer p) = CPointer p"
| "content (LString s) = CString s"
| "content (LTable n pairs es) = CTable (mset (map (\<lambda>(k, v). (content k, content v)) (pairs_of pairs es)))"
| "content (LUserdata _ _ _) = CObject"
| "content (LOther _) = CObject"
  by pat_completeness auto
termination by (relation "measure size") (auto dest: size_pairs_of)

definition pair_content :: "lua_value \<times> lua_value \<Rightarrow> lua_content \<times> lua_content" where
  "pair_content e = (content (fst e), content (snd e))"

text \<open>What Lua guarantees of a table: no key is nil, a float that is not a number, or a float with the value of an integer; no
  value is nil; no two keys are equal.\<close>

definition key_ok :: "lua_value \<Rightarrow> bool" where
  "key_ok k = (k \<noteq> LNil \<and> (case k of LReal r \<Rightarrow> \<not> real_is_nan r \<and> real_to_integer r = None | _ \<Rightarrow> True))"

definition table_ok :: "(lua_value \<times> lua_value) list \<Rightarrow> bool" where
  "table_ok es \<longleftrightarrow> (\<forall>e\<in>set es. key_ok (fst e) \<and> snd e \<noteq> LNil) \<and> distinct (filter is_scalar (map fst es))"

function lua_wf :: "lua_value \<Rightarrow> bool" where
  "lua_wf (LTable n pairs es) = (table_ok (pairs_of pairs es) \<and> (\<forall>(k, v)\<in>set (pairs_of pairs es). lua_wf k \<and> lua_wf v))"
| "lua_wf LNil = True"
| "lua_wf (LBool _) = True"
| "lua_wf (LInt _) = True"
| "lua_wf (LReal _) = True"
| "lua_wf (LPointer _) = True"
| "lua_wf (LString _) = True"
| "lua_wf (LUserdata _ _ _) = True"
| "lua_wf (LOther _) = True"
  by pat_completeness auto
termination by (relation "measure size") (auto dest: size_pairs_of)

section \<open>Reading back\<close>

lemma tag_parts:
  assumes "0 \<le> t" "t < 8" "0 \<le> v" "v < 32"
  shows "uint (tag t v) AND 7 = t" "drop_bit 3 (uint (tag t v)) = v"
proof -
  have "list_all (\<lambda>t. list_all (\<lambda>v. uint (tag t v) AND 7 = t \<and> drop_bit 3 (uint (tag t v)) = v) [0..31]) [0..7]"
    by code_simp
  with assms show "uint (tag t v) AND 7 = t" "drop_bit 3 (uint (tag t v)) = v" by (auto simp: list_all_iff)
qed

text \<open>The reader stands before the bytes \<^verbatim>\<open>rest\<close>, the last ones of its buffer.\<close>

definition rb_at :: "read_block \<Rightarrow> u8 list \<Rightarrow> bool" where
  "rb_at rb rest \<longleftrightarrow> (\<exists>done. rb_buffer rb = done @ rest \<and> rb_ptr rb = int (length done) \<and> rb_len rb = int (length rest))"

lemma rball_init_at: "rb_at (rball_init bs (int (length bs))) bs"
  by (auto simp: rb_at_def rball_init_def)

lemma rb_read_at:
  assumes "rb_at rb (bs @ rest)" "n = int (length bs)"
  obtains p rb' where "rb_read rb n = (Some p, rb')" "rb_bytes rb' p (length bs) = Some bs" "rb_at rb' rest"
proof
  from assms(1) obtain dn where d: "rb_buffer rb = dn @ bs @ rest" "rb_ptr rb = int (length dn)"
      "rb_len rb = int (length (bs @ rest))"
    by (auto simp: rb_at_def)
  let ?rb = "rb\<lparr>rb_ptr := rb_ptr rb + n, rb_len := rb_len rb - n\<rparr>"
  show "rb_read rb n = (Some (rb_ptr rb), ?rb)" using d assms(2) by (simp add: rb_read_def)
  show "rb_bytes ?rb (rb_ptr rb) (length bs) = Some bs" using d by (simp add: rb_bytes_def)
  show "rb_at ?rb rest" unfolding rb_at_def by (rule exI [of _ "dn @ bs"]) (simp add: d assms(2))
qed

text \<open>A reader that takes the bytes and gives the value.\<close>

definition takes :: "'a reader \<Rightarrow> u8 list \<Rightarrow> 'a \<Rightarrow> bool" where
  "takes f bs x \<longleftrightarrow> (\<forall>rb rest. rb_at rb (bs @ rest) \<longrightarrow> (\<exists>rb'. f rb = Some (Inr (x, rb')) \<and> rb_at rb' rest))"

lemma takes_return: "takes (rreturn x) [] x"
  by (auto simp: takes_def rreturn_def)

lemma takes_object: "n = length bs \<Longrightarrow> takes (read_object n line) bs bs"
  unfolding takes_def read_object_def rreturn_def by (auto elim!: rb_read_at)

lemma takes_rthen: "takes f xs x \<Longrightarrow> takes (g x) ys y \<Longrightarrow> takes (\<lambda>rb. rthen (f rb) g) (xs @ ys) y"
  by (fastforce simp: takes_def rthen_def)

lemma takes_map: "takes f bs x \<Longrightarrow> takes (\<lambda>rb. rthen (f rb) (\<lambda>x. rreturn (h x))) bs (h x)"
  using takes_rthen [OF _ takes_return] by fastforce

lemma bit_of_le_bytes:
  "bit (of_le_bytes bs :: 'a::len word) i \<longleftrightarrow> i < LENGTH('a) \<and> i < 8 * length bs \<and> bit (bs ! (i div 8)) (i mod 8)"
proof (induction bs arbitrary: i)
  case Nil
  show ?case by (simp add: of_le_bytes_def)
next
  case (Cons b bs)
  have e: "of_le_bytes (b # bs) = (ucast b OR push_bit 8 (of_le_bytes bs) :: 'a word)" by (simp add: of_le_bytes_def)
  show ?case
  proof (cases "i < 8")
    case True
    then show ?thesis unfolding e by (auto simp: bit_simps)
  next
    case False
    then obtain j where j: "i = j + 8" by (metis add.commute le_Suc_ex not_less)
    have "\<not> bit b (j + 8)" using bit_imp_le_length [of b "j + 8"] by auto
    moreover have "(j + 8) div 8 = Suc (j div 8)" by simp
    ultimately show ?thesis unfolding e j by (auto simp: bit_simps Cons)
  qed
qed

lemma of_le_bytes_le_bytes: "8 * n = LENGTH('a) \<Longrightarrow> of_le_bytes (le_bytes n (v :: 'b::len word)) = (ucast v :: 'a::len word)"
  by (rule bit_word_eqI) (auto simp: bit_of_le_bytes le_bytes_def bit_simps)

section \<open>Integers and strings\<close>

lemma takes_of_le_bytes:
  assumes "8 * n = LENGTH('a)" "h (ucast v :: 'a::len word) = x"
  shows "takes (\<lambda>rb. rthen (read_object n line rb) (\<lambda>bs. rreturn (h (of_le_bytes bs :: 'a word)))) (le_bytes n (v :: u64)) x"
  using takes_map [where h = "\<lambda>bs. h (of_le_bytes bs :: 'a word)", OF takes_object [of n "le_bytes n v" line]] assms
  by (simp add: of_le_bytes_le_bytes)

lemma small_ucasts:
  fixes v :: u64
  assumes "0 \<le> sint v"
  shows "sint v < 2 ^ 8 \<Longrightarrow> ucast (ucast v :: u8) = v" "sint v < 2 ^ 16 \<Longrightarrow> ucast (ucast v :: u16) = v"
proof -
  have "\<not> bit v 63" using assms bit_last_iff [of v] by simp
  then have "\<not> bit v n" if "63 \<le> n" for n
    using that bit_imp_le_length [of v n] by (cases "n = 63") auto
  then have "uint v = sint v"
    by (intro bit_eqI) (auto simp: bit_simps min_def)
  then have "take_bit n (uint v) = uint v" if "sint v < 2 ^ n" for n
    using that assms by (simp add: take_bit_int_eq_self)
  then show "sint v < 2 ^ 8 \<Longrightarrow> ucast (ucast v :: u8) = v" "sint v < 2 ^ 16 \<Longrightarrow> ucast (ucast v :: u16) = v"
    by (auto intro!: word_uint_eqI simp: unsigned_ucast_eq unsigned_take_bit_eq)
qed

lemma encode_int_takes:
  obtains c bs where "encode_int v = tag 2 c # bs" "0 \<le> c" "c < 32" "c \<noteq> TYPE_NUMBER_REAL" "takes (get_integer c) bs v"
proof -
  consider "v = 0" | "v \<noteq> 0" "v \<noteq> scast (ucast v :: u32)" | "v \<noteq> 0" "v = scast (ucast v :: u32)" "sint v < 0 \<or> 2 ^ 16 \<le> sint v"
    | "v \<noteq> 0" "v = scast (ucast v :: u32)" "0 \<le> sint v" "sint v < 2 ^ 8"
    | "v \<noteq> 0" "v = scast (ucast v :: u32)" "2 ^ 8 \<le> sint v" "sint v < 2 ^ 16"
    by linarith
  then show thesis
  proof cases
    case 1
    then show ?thesis
      by (intro that [of 0 "[]"]) (simp_all add: encode_int_def type_defs get_integer_def [abs_def] takes_return)
  next
    case 2
    then show ?thesis
      using takes_of_le_bytes [of 8 "\<lambda>w. w" v v 441]
      by (intro that [of 6 "le_bytes 8 v"]) (simp_all add: encode_int_def type_defs get_integer_def [abs_def])
  next
    case 3
    then show ?thesis
      using takes_of_le_bytes [of 4 "scast :: u32 \<Rightarrow> u64" v v 433]
      by (intro that [of 4 "le_bytes 4 v"]) (auto simp: encode_int_def type_defs get_integer_def [abs_def])
  next
    case 4
    then show ?thesis
      using takes_of_le_bytes [of 1 "ucast :: u8 \<Rightarrow> u64" v v 417] small_ucasts(1) [of v]
      by (intro that [of 1 "le_bytes 1 v"]) (auto simp: encode_int_def type_defs get_integer_def [abs_def])
  next
    case 5
    then show ?thesis
      using takes_of_le_bytes [of 2 "ucast :: u16 \<Rightarrow> u64" v v 425] small_ucasts(2) [of v]
      by (intro that [of 2 "le_bytes 2 v"]) (auto simp: encode_int_def type_defs get_integer_def [abs_def])
  qed
qed

lemma takes_buffer: "n = int (length s) \<Longrightarrow> takes (get_buffer n) s s"
  using takes_object [of "length s" s 476] by (simp add: get_buffer_def [abs_def])

lemma encode_string_takes:
  assumes "length s \<le> INT_MAX"
  obtains t c bs where "encode_string s = tag t c # bs" "t = TYPE_SHORT_STRING \<or> t = TYPE_LONG_STRING" "0 \<le> c" "c < 32"
    "takes (unpack_scalar t c) bs (LString s)"
proof -
  have string: "takes (\<lambda>rb. rthen (get_buffer (int (length s)) rb) (\<lambda>s. rreturn (LString s))) s (LString s)"
    by (rule takes_map [OF takes_buffer]) simp
  have long: "takes (\<lambda>rb. rthen (read_object n line rb) (\<lambda>bs rb. rthen (get_buffer (h bs) rb) (\<lambda>s. rreturn (LString s))))
      (bs @ s) (LString s)" if "n = length bs" "h bs = int (length s)" for n line bs h
    using takes_rthen [OF takes_object [OF that(1)], of "\<lambda>bs rb. rthen (get_buffer (h bs) rb) (\<lambda>s. rreturn (LString s))"] string that(2)
    by simp
  consider "length s < 32" | "32 \<le> length s" "length s < 2 ^ 16" | "2 ^ 16 \<le> length s" by linarith
  then show thesis
  proof cases
    case 1
    with string show ?thesis
      by (intro that [of 4 "int (length s)" s]) (simp_all add: encode_string_def type_defs unpack_scalar_def [abs_def])
  next
    case 2
    then have "uint (of_le_bytes (le_bytes 2 (of_nat (length s) :: u16)) :: u16) = int (length s)"
      by (simp add: of_le_bytes_le_bytes unsigned_of_nat take_bit_nat_eq_self)
    with 2 long [of 2 "le_bytes 2 (of_nat (length s) :: u16)" "\<lambda>bs. uint (of_le_bytes bs :: u16)" 581] show ?thesis
      by (intro that [of 5 2]) (simp_all add: encode_string_def type_defs unpack_scalar_def [abs_def])
  next
    case 3
    then have "sint (of_le_bytes (le_bytes 4 (of_nat (length s) :: u32)) :: u32) = int (length s)"
      using c_int_small [of "int (length s)"] assms by (simp add: of_le_bytes_le_bytes c_int_def INT_MAX_def)
    with 3 long [of 4 "le_bytes 4 (of_nat (length s) :: u32)" "\<lambda>bs. sint (of_le_bytes bs :: u32)" 592] show ?thesis
      by (intro that [of 5 4]) (simp_all add: encode_string_def type_defs unpack_scalar_def [abs_def])
  qed
qed

section \<open>Values\<close>

lemma takes_unpack_one:
  assumes "0 \<le> t" "t < 8" "0 \<le> c" "c < 32" "takes (unpack L (Push_value t c)) bs x"
  shows "takes (unpack L Unpack_one) (tag t c # bs) x"
proof -
  have "takes (\<lambda>rb. rthen (read_object 1 621 rb) (\<lambda>t rb. unpack L (Push_value (uint (hd t) AND 7) (drop_bit 3 (uint (hd t)))) rb))
      ([tag t c] @ bs) x"
    by (rule takes_rthen [OF takes_object]) (simp_all add: tag_parts assms)
  then show ?thesis by (simp add: unpack.simps [abs_def])
qed

lemma takes_unpack_scalar:
  assumes "0 \<le> t" "t < 6" "0 \<le> c" "c < 32" "takes (unpack_scalar t c) bs x"
  shows "takes (unpack L Unpack_one) (tag t c # bs) x"
  by (rule takes_unpack_one) (use assms in \<open>simp_all add: unpack.simps [abs_def] TYPE_TABLE_def TYPE_USERDATA_def\<close>)

lemma takes_nil: "takes (unpack L Unpack_one) [tag 0 0] LNil"
  by (rule takes_unpack_scalar) (simp_all add: unpack_scalar_def [abs_def] TYPE_NIL_def takes_return)

fun array_entries :: "int \<Rightarrow> lua_value list \<Rightarrow> (lua_value \<times> lua_value) list" where
  "array_entries i [] = []"
| "array_entries i (v # vs) = (if v = LNil then [] else [(LInt (of_int i), v)]) @ array_entries (i + 1) vs"

lemma takes_array_loop:
  assumes "\<And>x. x \<in> set xs \<Longrightarrow> takes (unpack L Unpack_one) (f x) (g x)"
    and "\<And>j. i \<le> j \<Longrightarrow> j \<le> n \<Longrightarrow> LInt (of_int j) \<notin> fst ` set es" "0 < i" "n \<le> int INT_MAX" "i + int (length xs) = n + 1"
    and "takes (unpack L (Hash_loop (es @ array_entries i (map g xs)))) bs w"
  shows "takes (unpack L (Array_loop i n es)) (concat (map f xs) @ bs) w"
  using assms
proof (induction xs arbitrary: i es)
  case Nil
  then show ?case by (simp add: unpack.simps [abs_def])
next
  case (Cons x xs)
  then have i: "i \<le> n" by simp
  let ?es = "put_entry es (LInt (of_int i)) (g x)"
  have e: "?es = es @ (if g x = LNil then [] else [(LInt (of_int i), g x)])"
    using Cons.prems(2) [of i] i by (simp add: put_entry_def)
  have "takes (unpack L (Array_loop (i + 1) n ?es)) (concat (map f xs) @ bs) w"
  proof (rule Cons.IH)
    fix j assume j: "i + 1 \<le> j" "j \<le> n"
    then have "(of_int j :: u64) \<noteq> of_int i"
      using Cons.prems(3,4) by (auto simp: INT_MAX_def word_of_int_eq_iff take_bit_int_eq_self)
    with Cons.prems(2) [of j] j show "LInt (of_int j) \<notin> fst ` set ?es" by (auto simp: e)
  qed (use Cons.prems in \<open>auto simp: e\<close>)
  from takes_rthen [OF Cons.prems(1) [of x], of "\<lambda>v. unpack L (Array_loop (i + 1) n (put_entry es (LInt (of_int i)) v))", OF _ this]
  show ?case using i by (simp add: unpack.simps(4) [abs_def])
qed

lemma lua_rawset_fresh:
  assumes "key_ok k" "v \<noteq> LNil" "is_scalar k \<Longrightarrow> k \<notin> fst ` set es"
  shows "lua_rawset es k v = Inr (es @ [(k, v)])"
proof -
  have "put_entry es k v = es @ [(k, v)]" using assms(2,3) by (cases "is_scalar k") (simp_all add: put_entry_def)
  with assms(1) show ?thesis by (cases k) (simp_all add: lua_rawset_def key_ok_def normal_key_def)
qed

definition hash_body :: "lua_hooks \<Rightarrow> (lua_value \<times> lua_value) list \<Rightarrow> lua_value \<Rightarrow> lua_value reader" where
  "hash_body L es k = (if k = LNil then rreturn (make_table L es)
     else (\<lambda>rb. rthen (unpack L Unpack_one rb) (\<lambda>v rb. case lua_rawset es k v of
       Inl e \<Rightarrow> Some (Inl e) | Inr es \<Rightarrow> unpack L (Hash_loop es) rb)))"

lemma unpack_hash_loop: "unpack L (Hash_loop es) rb = rthen (unpack L Unpack_one rb) (hash_body L es)"
  by (subst unpack.simps) (rule rthen_cong, auto simp: hash_body_def)

lemma takes_hash_loop:
  assumes "\<And>e. e \<in> set kvs \<Longrightarrow> takes (unpack L Unpack_one) (f (fst e)) (g (fst e)) \<and> takes (unpack L Unpack_one) (f (snd e)) (g (snd e)) \<and>
      key_ok (g (fst e)) \<and> g (snd e) \<noteq> LNil"
    and "distinct (filter is_scalar (map fst (es @ map (map_prod g g) kvs)))"
  shows "takes (unpack L (Hash_loop es)) (concat (map f (concat (map (\<lambda>e. [fst e, snd e]) kvs))) @ [tag 0 0])
    (make_table L (es @ map (map_prod g g) kvs))"
  using assms
proof (induction kvs arbitrary: es)
  case Nil
  show ?case
    using takes_rthen [OF takes_nil [of L], of "hash_body L es" "[]" "make_table L es"] takes_return [of "make_table L es"]
    by (simp add: unpack_hash_loop [abs_def] hash_body_def)
next
  case (Cons e kvs)
  let ?es = "es @ [(g (fst e), g (snd e))]"
  let ?bs = "concat (map f (concat (map (\<lambda>e. [fst e, snd e]) kvs))) @ [tag 0 0]"
  let ?t = "make_table L (es @ map (map_prod g g) (e # kvs))"
  have e: "takes (unpack L Unpack_one) (f (fst e)) (g (fst e))" "takes (unpack L Unpack_one) (f (snd e)) (g (snd e))"
    "key_ok (g (fst e))" "g (snd e) \<noteq> LNil"
    using Cons.prems(1) by auto
  have es: "es @ map (map_prod g g) (e # kvs) = ?es @ map (map_prod g g) kvs" by (cases e) simp
  have "takes (unpack L (Hash_loop ?es)) ?bs ?t"
    using Cons.IH [of ?es] Cons.prems unfolding es by fastforce
  moreover have "lua_rawset es (g (fst e)) (g (snd e)) = Inr ?es"
    using Cons.prems(2) e(3,4) by (intro lua_rawset_fresh) auto
  ultimately have "takes (\<lambda>rb. rthen (unpack L Unpack_one rb) (\<lambda>v rb. case lua_rawset es (g (fst e)) v of
      Inl e \<Rightarrow> Some (Inl e) | Inr es \<Rightarrow> unpack L (Hash_loop es) rb)) (f (snd e) @ ?bs) ?t"
    by (intro takes_rthen [OF e(2)]) simp
  then have "takes (hash_body L es (g (fst e))) (f (snd e) @ ?bs) ?t"
    using e(3) by (simp add: hash_body_def key_ok_def)
  from takes_rthen [where g = "hash_body L es", OF e(1) this] show ?case by (simp add: unpack_hash_loop [abs_def])
qed

section \<open>Tables\<close>

lemma content_scalar: "content v' = content v \<Longrightarrow> is_scalar v' = is_scalar v \<and> (is_scalar v \<longrightarrow> v' = v)"
  by (cases v; cases v') simp_all

lemma content_nil: "content v' = content v \<Longrightarrow> v' = LNil \<longleftrightarrow> v = LNil"
  by (cases v; cases v') simp_all

lemma content_key_ok: "content v' = content v \<Longrightarrow> key_ok v \<Longrightarrow> key_ok v'"
  by (cases v; cases v') (simp_all add: key_ok_def)

lemma array_entries_upto:
  "array_entries i (map f [i..n]) = map (\<lambda>j. (LInt (of_int j), f j)) (filter (\<lambda>j. f j \<noteq> LNil) [i..n])"
proof (induction i n rule: upto.induct)
  case (1 i n)
  then show ?case by (cases "i \<le> n") (simp_all add: upto_rec1)
qed

lemma array_entries_content:
  "(\<And>x. x \<in> set xs \<Longrightarrow> content (g x) = content x) \<Longrightarrow>
   map pair_content (array_entries i (map g xs)) = map pair_content (array_entries i xs)"
  by (induction xs arbitrary: i) (auto simp: pair_content_def dest: content_nil)

lemma array_entries_keys: "e \<in> set (array_entries i xs) \<Longrightarrow> \<exists>j. fst e = LInt (of_int j) \<and> i \<le> j \<and> j < i + int (length xs)"
  by (induction xs arbitrary: i) (fastforce split: if_splits)+

lemma sint_of_int_small: "- (2 ^ 63) \<le> j \<Longrightarrow> j < 2 ^ 63 \<Longrightarrow> sint (of_int j :: u64) = j"
  by (simp add: signed_of_int signed_take_bit_int_eq_self)

lemma map_of_scalar: "is_scalar k \<Longrightarrow> map_of es k = map_of (filter (is_scalar \<circ> fst) es) k"
  by (induction es) auto

lemma distinct_scalar_keys:
  assumes "table_ok es" "\<And>e. P e \<Longrightarrow> is_scalar (fst e)"
  shows "distinct (map fst (filter P es))"
proof -
  have "distinct (map fst (filter (is_scalar \<circ> fst) es))"
    using assms(1) by (simp add: table_ok_def filter_map comp_def)
  then have "distinct (map fst (filter P (filter (is_scalar \<circ> fst) es)))" by (rule distinct_map_filter)
  moreover have "filter P (filter (is_scalar \<circ> fst) es) = filter P es"
    unfolding filter_filter by (rule filter_cong) (auto dest: assms(2))
  ultimately show ?thesis by simp
qed

lemma rawgeti_entry:
  assumes "table_ok es" "(LInt (of_int j), v) \<in> set es"
  shows "rawgeti es j = v"
proof -
  have "distinct (map fst (filter (is_scalar \<circ> fst) es))"
    by (rule distinct_scalar_keys [OF assms(1)]) simp
  moreover have "(LInt (of_int j), v) \<in> set (filter (is_scalar \<circ> fst) es)" using assms(2) by simp
  ultimately have "map_of (filter (is_scalar \<circ> fst) es) (LInt (of_int j)) = Some v" by (rule map_of_is_SomeI)
  then show ?thesis using map_of_scalar [of "LInt (of_int j)" es] by (simp add: rawgeti_def)
qed

lemma rawgeti_not_nil: "rawgeti es j \<noteq> LNil \<Longrightarrow> (LInt (of_int j), rawgeti es j) \<in> set es"
  by (auto simp: rawgeti_def dest: map_of_SomeD split: option.splits)

lemma array_index: "1 \<le> j \<Longrightarrow> j \<le> int n \<Longrightarrow> n \<le> INT_MAX \<Longrightarrow> sint (of_int j :: u64) = j"
  by (intro sint_of_int_small) (simp_all add: INT_MAX_def)

lemma in_arrayD: "in_array n k \<Longrightarrow> \<exists>x. k = LInt x \<and> 0 < sint x \<and> sint x \<le> n"
  by (simp add: in_array_def split: lua_value.splits)

text \<open>The loop over the array and the filter of the second loop share out the pairs of the table.\<close>

lemma array_part:
  assumes "table_ok es" "n \<le> INT_MAX"
  shows "mset (array_entries 1 (map (rawgeti es) [1..int n])) = mset (filter (\<lambda>e. in_array (int n) (fst e)) es)"
proof -
  let ?a = "array_entries 1 (map (rawgeti es) [1..int n])" and ?f = "filter (\<lambda>e. in_array (int n) (fst e)) es"
  note s = array_index [OF _ _ assms(2)]
  have "inj_on (\<lambda>j. (LInt (of_int j), rawgeti es j)) {1..int n}"
    by (rule inj_onI) (metis s Pair_inject lua_value.inject(2) atLeastAtMost_iff)
  then have "distinct ?a" unfolding array_entries_upto by (auto simp: distinct_map intro: inj_on_subset)
  moreover have "distinct (map fst ?f)"
    by (rule distinct_scalar_keys [OF assms(1)]) (auto dest: in_arrayD)
  then have "distinct ?f" by (simp add: distinct_map)
  moreover have "set ?a = set ?f"
  proof (rule set_eqI)
    fix e
    show "e \<in> set ?a \<longleftrightarrow> e \<in> set ?f"
    proof
      assume "e \<in> set ?a"
      then obtain j where j: "1 \<le> j" "j \<le> int n" "rawgeti es j \<noteq> LNil" "e = (LInt (of_int j), rawgeti es j)"
        by (auto simp: array_entries_upto)
      with rawgeti_not_nil [OF j(3)] show "e \<in> set ?f" using s by (simp add: in_array_def)
    next
      assume e: "e \<in> set ?f"
      then have "in_array (int n) (fst e)" "e \<in> set es" by simp_all
      then obtain x v where x: "e = (LInt x, v)" "0 < sint x" "sint x \<le> int n" "(LInt x, v) \<in> set es"
        by (cases e) (auto dest: in_arrayD)
      moreover have "rawgeti es (sint x) = v" using rawgeti_entry [OF assms(1), of "sint x" v] x(4) by simp
      moreover have "v \<noteq> LNil" using assms(1) x(4) by (fastforce simp: table_ok_def)
      ultimately show "e \<in> set ?a" by (auto simp: array_entries_upto intro!: image_eqI [of _ _ "sint x"])
    qed
  qed
  ultimately show ?thesis by (metis set_eq_iff_mset_eq_distinct)
qed

lemma header_takes:
  assumes "n \<le> INT_MAX"
  obtains c bs where "table_header n = tag TYPE_TABLE c # bs" "0 \<le> c" "c < 32" "takes (unpack_array_size c) bs (int n)"
proof (cases "n < 31")
  case True
  then show ?thesis
    by (intro that [of "int n" "[]"]) (simp_all add: table_header_def type_defs unpack_array_size_def [abs_def] takes_return)
next
  case False
  obtain c bs where c: "encode_int (of_nat n) = tag 2 c # bs" "0 \<le> c" "c < 32" "c \<noteq> TYPE_NUMBER_REAL"
      "takes (get_integer c) bs (of_nat n)"
    by (rule encode_int_takes)
  have s: "c_int (sint (of_nat n :: u64)) = int n"
    using sint_of_int_small [of "int n"] c_int_small [of "int n"] assms by (simp add: INT_MAX_def)
  have "takes (\<lambda>rb. rthen (get_integer c rb) (\<lambda>n. rreturn (c_int (sint n)))) bs (int n)"
    using takes_map [where h = "\<lambda>n. c_int (sint n)", OF c(5)] by (simp add: s)
  from takes_rthen [where g = "\<lambda>t rb. let type = uint (hd t); cookie = drop_bit 3 type in
        if type AND 7 \<noteq> TYPE_NUMBER \<or> cookie = TYPE_NUMBER_REAL then invalid_stream 494 rb
        else rthen (get_integer cookie rb) (\<lambda>n. rreturn (c_int (sint n)))" and ys = bs and y = "int n",
      OF takes_object [of 1 "[tag 2 c]" 489]] this c(2,3,4)
  have "takes (unpack_array_size 31) (tag 2 c # bs) (int n)"
    by (simp add: unpack_array_size_def [abs_def] type_defs tag_parts)
  with False c(1) show ?thesis by (intro that [of 31 "tag 2 c # bs"]) (simp_all add: table_header_def type_defs)
qed

lemma takes_push_table:
  assumes "takes (unpack_array_size c) hs n" "takes (unpack L (Array_loop 1 n [])) bs w" "0 \<le> c" "c < 32"
  shows "takes (unpack L Unpack_one) (tag TYPE_TABLE c # hs @ bs) w"
proof (rule takes_unpack_one)
  have "unpack L (Push_value TYPE_TABLE c) = (\<lambda>rb. rthen (unpack_array_size c rb) (\<lambda>n rb. unpack L (Array_loop 1 n []) rb))"
    by (rule ext) (simp add: unpack.simps(2,3))
  with takes_rthen [where g = "\<lambda>n rb. unpack L (Array_loop 1 n []) rb", OF assms(1,2)]
  show "takes (unpack L (Push_value TYPE_TABLE c)) (hs @ bs) w" by simp
qed (use assms in \<open>simp_all add: TYPE_TABLE_def\<close>)

text \<open>A table whose values come out comes out itself.\<close>

lemma takes_table:
  fixes f :: "lua_value \<Rightarrow> u8 list"
  assumes ok: "table_ok es" and n: "n \<le> INT_MAX"
    and v: "\<And>x. x \<in> set xs \<union> fst ` set kvs \<union> snd ` set kvs \<Longrightarrow> takes (unpack L Unpack_one) (f x) (g x) \<and> content (g x) = content x"
    and xs: "xs = map (rawgeti es) [1..int n]" and kvs: "kvs = filter (\<lambda>e. \<not> in_array (int n) (fst e)) es"
  shows "\<exists>w. takes (unpack L Unpack_one)
       (table_header n @ concat (map f (xs @ concat (map (\<lambda>e. [fst e, snd e]) kvs))) @ [tag 0 0]) w \<and>
     content w = CTable (mset (map pair_content es))"
proof -
  let ?hs = "concat (map f (concat (map (\<lambda>e. [fst e, snd e]) kvs))) @ [tag 0 0]"
  let ?arr = "array_entries 1 (map g xs)" and ?hash = "map (map_prod g g) kvs"
  let ?w = "make_table L (?arr @ ?hash)"
  have sub: "set kvs \<subseteq> set es" by (auto simp: kvs)
  have scal: "filter is_scalar (map fst ?hash) = filter is_scalar (map fst kvs)"
    using v by (induction kvs) (auto dest: content_scalar)
  have arr: "map fst ?arr = map (\<lambda>j. LInt (of_int j)) (filter (\<lambda>j. g (rawgeti es j) \<noteq> LNil) [1..int n])"
    using array_entries_upto [of 1 "\<lambda>j. g (rawgeti es j)" "int n"] by (simp add: xs comp_def)
  have "inj_on (\<lambda>j. LInt (of_int j)) {1..int n}"
    by (rule inj_onI) (metis array_index [OF _ _ n] lua_value.inject(2) atLeastAtMost_iff)
  then have "distinct (map fst ?arr)" unfolding arr by (auto simp: distinct_map intro: inj_on_subset)
  moreover have "distinct (filter is_scalar (map fst kvs))"
    unfolding kvs filter_map filter_filter comp_def by (rule distinct_scalar_keys [OF ok]) simp
  moreover have "k \<notin> set (map fst kvs)" if k: "k \<in> set (map fst ?arr)" for k
  proof -
    from k obtain j where "k = LInt (of_int j)" "1 \<le> j" "j \<le> int n" unfolding arr by auto
    then have "in_array (int n) k" using array_index [OF _ _ n] by (simp add: in_array_def)
    then show ?thesis by (auto simp: kvs)
  qed
  moreover have "filter is_scalar (map fst ?arr) = map fst ?arr" by (auto simp: arr intro!: filter_True)
  ultimately have "distinct (filter is_scalar (map fst (?arr @ ?hash)))" by (auto simp: scal simp del: map_map)
  then have "takes (unpack L (Hash_loop ?arr)) ?hs ?w"
  proof (rule takes_hash_loop [rotated])
    fix e assume "e \<in> set kvs"
    then show "takes (unpack L Unpack_one) (f (fst e)) (g (fst e)) \<and> takes (unpack L Unpack_one) (f (snd e)) (g (snd e)) \<and>
        key_ok (g (fst e)) \<and> g (snd e) \<noteq> LNil"
      using v sub ok content_key_ok [of "g (fst e)" "fst e"] content_nil [of "g (snd e)" "snd e"] by (auto simp: table_ok_def)
  qed
  then have "takes (unpack L (Array_loop 1 (int n) [])) (concat (map f xs) @ ?hs) ?w"
    using v n by (intro takes_array_loop [of xs L f g]) (simp_all add: xs)
  moreover obtain c bs where "table_header n = tag TYPE_TABLE c # bs" "0 \<le> c" "c < 32" "takes (unpack_array_size c) bs (int n)"
    by (rule header_takes [OF n])
  ultimately have "takes (unpack L Unpack_one) (table_header n @ concat (map f xs) @ ?hs) ?w"
    using takes_push_table by simp
  moreover have "content ?w = CTable (mset (map pair_content (?arr @ ?hash)))"
    by (simp add: make_table_def pairs_of_def pair_content_def [abs_def] case_prod_unfold)
  moreover have "mset (map pair_content (?arr @ ?hash)) = mset (map pair_content es)"
  proof -
    have "map pair_content ?hash = map pair_content kvs" using v by (auto simp: pair_content_def)
    moreover have "map pair_content ?arr = map pair_content (array_entries 1 xs)"
      using v by (intro array_entries_content) simp
    ultimately have "mset (map pair_content (?arr @ ?hash)) = image_mset pair_content (mset (array_entries 1 xs) + mset kvs)"
      by (simp only: map_append mset_append mset_map image_mset_union)
    also have "mset (array_entries 1 xs) + mset kvs = mset es"
      unfolding xs array_part [OF ok n] kvs mset_filter by (rule multiset_partition [symmetric])
    finally show ?thesis by simp
  qed
  ultimately show ?thesis by auto
qed

section \<open>Values come out\<close>

lemma takes_scalars:
  "takes (unpack L Unpack_one) [tag 1 (if t then 1 else 0)] (LBool t)"
  "takes (unpack L Unpack_one) (tag 2 8 # le_bytes 8 r) (LReal r)"
  "takes (unpack L Unpack_one) (tag 3 0 # le_bytes 8 p) (LPointer p)"
proof -
  show "takes (unpack L Unpack_one) [tag 1 (if t then 1 else 0)] (LBool t)"
    by (rule takes_unpack_scalar) (simp_all add: unpack_scalar_def [abs_def] type_defs takes_return)
  have "takes get_real (le_bytes 8 r) r" "takes get_pointer (le_bytes 8 p) p"
    using takes_of_le_bytes [of 8 "\<lambda>w. w" r r 456] takes_of_le_bytes [of 8 "\<lambda>w. w" p p 466]
    by (simp_all add: get_real_def [abs_def] get_pointer_def [abs_def])
  then show "takes (unpack L Unpack_one) (tag 2 8 # le_bytes 8 r) (LReal r)"
    "takes (unpack L Unpack_one) (tag 3 0 # le_bytes 8 p) (LPointer p)"
    by (intro takes_unpack_scalar; simp add: unpack_scalar_def [abs_def] type_defs takes_map)+
qed

lemma takes_int: "takes (unpack L Unpack_one) (encode_int x) (LInt x)"
proof -
  obtain c bs where c: "encode_int x = tag 2 c # bs" "0 \<le> c" "c < 32" "c \<noteq> TYPE_NUMBER_REAL" "takes (get_integer c) bs x"
    by (rule encode_int_takes)
  then have "takes (unpack_scalar 2 c) bs (LInt x)"
    using takes_map [OF c(5), of LInt] by (simp add: unpack_scalar_def [abs_def] type_defs)
  with c show ?thesis by (simp add: takes_unpack_scalar)
qed

lemma takes_string:
  assumes "length s \<le> INT_MAX"
  shows "takes (unpack L Unpack_one) (encode_string s) (LString s)"
proof -
  obtain t c bs where c: "encode_string s = tag t c # bs" "t = TYPE_SHORT_STRING \<or> t = TYPE_LONG_STRING" "0 \<le> c" "c < 32"
    "takes (unpack_scalar t c) bs (LString s)"
    by (rule encode_string_takes [OF assms])
  then show ?thesis by (auto simp: type_defs intro!: takes_unpack_scalar)
qed

lemma visited_pairs:
  "x \<in> set (visited n pairs es) \<Longrightarrow> x = LNil \<or> (\<exists>e\<in>set (pairs_of pairs es). x = fst e \<or> x = snd e)"
  by (fastforce simp: visited_def pairs_of_def rawgeti_def dest: map_of_SomeD split: option.splits)

lemma unpack_encode:
  "encode_error depth v = None \<Longrightarrow> packable v \<Longrightarrow> lua_wf v \<Longrightarrow>
   \<exists>w. takes (unpack L Unpack_one) (encode depth v) w \<and> content w = content v"
proof (induction depth v rule: encode.induct)
  case (1 depth v)
  have d: "\<not> depth > MAX_DEPTH" using 1(2) by (auto simp: encode_error.simps split: if_splits)
  show ?case
  proof (cases v)
    case (LTable n pairs es)
    have wf: "table_ok (pairs_of pairs es)" "\<And>e. e \<in> set (pairs_of pairs es) \<Longrightarrow> lua_wf (fst e) \<and> lua_wf (snd e)"
      using 1(4) LTable by auto
    have "\<exists>w. takes (unpack L Unpack_one) (encode (depth + 1) x) w \<and> content w = content x"
      if "x \<in> set (visited n pairs es)" for x
    proof (rule 1(1) [OF d LTable that])
      show "encode_error (depth + 1) x = None"
        using 1(2) that d LTable by (auto simp: encode_error.simps [of depth] first_error_None)
      show "packable x" using visited_packable 1(3) that LTable by blast
      show "lua_wf x" using visited_pairs [OF that] wf(2) by auto
    qed
    then have "\<exists>g. \<forall>x\<in>set (visited n pairs es). takes (unpack L Unpack_one) (encode (depth + 1) x) (g x) \<and> content (g x) = content x"
      by (intro bchoice) blast
    then obtain g where g: "\<forall>x\<in>set (visited n pairs es). takes (unpack L Unpack_one) (encode (depth + 1) x) (g x) \<and>
        content (g x) = content x"
      by blast
    have "encode depth v = table_header (array_length n pairs) @ concat (map (encode (depth + 1)) (visited n pairs es)) @ [tag 0 0]"
      using d LTable by (simp add: encode.simps [of depth])
    moreover have "\<exists>w. takes (unpack L Unpack_one) (table_header (array_length n pairs) @ concat (map (encode (depth + 1)) (visited n pairs es)) @ [tag 0 0]) w \<and>
       content w = CTable (mset (map pair_content (pairs_of pairs es)))"
    proof (cases pairs)
      case None
      let ?xs = "map (rawgeti es) [1..int n]" and ?kvs = "filter (\<lambda>e. \<not> in_array (int n) (fst e)) es"
      have v: "visited n pairs es = ?xs @ concat (map (\<lambda>e. [fst e, snd e]) ?kvs)" by (simp add: visited_def None)
      have "n \<le> INT_MAX" using 1(3) LTable by simp
      from takes_table [OF _ this _ refl refl, of es L "encode (depth + 1)" g] wf(1) g [unfolded v] show ?thesis
        unfolding v by (fastforce simp: None pairs_of_def array_length_def simp del: upto.simps)
    next
      case (Some p)
      obtain kvs err where p: "p = (kvs, err)" by (cases p)
      have k: "filter (\<lambda>e. \<not> in_array (int 0) (fst e)) kvs = kvs" by (rule filter_True) (auto dest: in_arrayD)
      have v: "visited n pairs es = [] @ concat (map (\<lambda>e. [fst e, snd e]) kvs)" by (simp add: visited_def Some p)
      from takes_table [of kvs 0 "[]" kvs L "encode (depth + 1)" g] k wf(1) g [unfolded v] show ?thesis
        unfolding v by (fastforce simp: Some p pairs_of_def array_length_def)
    qed
    ultimately show ?thesis using LTable by (simp add: pair_content_def [abs_def] case_prod_unfold)
  qed (use d 1(2,3) takes_scalars(1) [of L True] takes_scalars(1) [of L False] in \<open>auto simp: encode.simps encode_error.simps intro: takes_scalars takes_int takes_string takes_nil\<close>)
qed

section \<open>Messages come out\<close>

lemma unpack_values_step:
  assumes "unpack L Unpack_one rb = Some (Inr (v, rb'))"
  shows "unpack_values L rb = map_option (map_sum (\<lambda>e. e) ((#) v)) (unpack_values L rb')"
proof -
  from assms obtain p rb1 t where "rb_read rb 1 = (Some p, rb1)" "rb_bytes rb1 p 1 = Some t"
      "unpack L (Push_value (uint (hd t) AND 7) (drop_bit 3 (uint (hd t)))) rb1 = Some (Inr (v, rb'))"
    by (auto simp: unpack.simps(1) rthen_Some_iff read_object_def monad_simps split: prod.splits option.splits)
  then show ?thesis
    by (subst unpack_values.simps) (auto simp: map_sum_def split: option.split sum.split Option.bind_split)
qed

lemma unpack_values_encode:
  assumes "\<forall>v\<in>set args. encode_error 0 v = None \<and> packable v \<and> lua_wf v"
  shows "rb_at rb (encode_all args) \<Longrightarrow> \<exists>ws. unpack_values L rb = Some (Inr ws) \<and> map content ws = map content args"
  using assms
proof (induction args arbitrary: rb)
  case Nil
  then have "rb_len rb = 0" by (auto simp: rb_at_def encode_all_def)
  then show ?case by (subst unpack_values.simps) (simp add: rb_read_def)
next
  case (Cons v args)
  obtain w where w: "takes (unpack L Unpack_one) (encode 0 v) w" "content w = content v"
    using unpack_encode [of 0 v L] Cons.prems(2) by auto
  moreover have "rb_at rb (encode 0 v @ encode_all args)" using Cons.prems(1) by (simp add: encode_all_def)
  ultimately obtain rb' where rb': "unpack L Unpack_one rb = Some (Inr (w, rb'))" "rb_at rb' (encode_all args)"
    unfolding takes_def by blast
  from Cons.IH [OF rb'(2)] Cons.prems(2) obtain ws where "unpack_values L rb' = Some (Inr ws)" "map content ws = map content args"
    by auto
  with w(2) show ?case by (intro exI [of _ "w # ws"]) (simp add: unpack_values_step [OF rb'(1)])
qed

text \<open>(C8) The arguments of a message come out at the other side: whatever Lua values are packed, as long as they can be packed at
  all (C41), hold no userdata and fill less than 2 GB, \<^verbatim>\<open>luaseri_unpack\<close> gives as many values with the same contents, in order, from
  the buffer as well as from a string of its bytes. Tables have the same pairs, nested ones included; every border that
  \<^verbatim>\<open>lua_rawlen\<close> may give, holes in the array and tables with the metamethod \<^verbatim>\<open>__pairs\<close> are covered.\<close>

theorem luaseri_unpack_pack:
  assumes "\<forall>v\<in>set args. packable v \<and> lua_wf v" and "first_error (map (encode_error 0) args) = None"
    and "length (encode_all args) \<le> INT_MAX"
  shows "\<exists>bs ws. luaseri_pack args = Some (Inr bs) \<and> map content ws = map content args \<and>
    luaseri_unpack L (Arg_pointer (Some bs) (int (length bs))) = Some (Inr ws) \<and> luaseri_unpack L (Arg_string bs) = Some (Inr ws)"
proof -
  let ?bs = "encode_all args"
  have "luaseri_pack args = Some (Inr ?bs)" using luaseri_pack_reference [of args] assms by simp
  moreover obtain ws where ws: "unpack_values L (rball_init ?bs (int (length ?bs))) = Some (Inr ws)" "map content ws = map content args"
    using unpack_values_encode [OF _ rball_init_at, of args L] assms(1,2) by (auto simp: first_error_None)
  moreover have "c_int (int (length ?bs)) = int (length ?bs)"
    using assms(3) by (intro c_int_small) (simp_all add: INT_MAX_def)
  moreover have "ws = []" if "?bs = []"
    using ws(1) that by (subst (asm) unpack_values.simps) (simp add: rball_init_def rb_read_def)
  ultimately show ?thesis
    by (intro exI [of _ ?bs] exI [of _ ws]) (auto simp: luaseri_unpack_def)
qed

lemma luaseri_unpack_pack_witness:
  "\<exists>bs ws. luaseri_pack [LInt 300, LTable 2 None [(LInt 1, LReal 7), (LString [107], LTable 0 None []), (LInt 2, LBool True)]] = Some (Inr bs) \<and>
     map content ws = [CInt 300, CTable {#(CInt 1, CReal 7), (CString [107], CTable {#}), (CInt 2, CBool True)#}] \<and>
     luaseri_unpack \<lparr>lh_rawlen = length, lh_deserialize = (\<lambda>_. None)\<rparr> (Arg_string bs) = Some (Inr ws)"
proof -
  let ?t = "LTable 2 None [(LInt 1, LReal 7), (LString [107], LTable 0 None []), (LInt 2, LBool True)]"
  have "first_error (map (encode_error 0) [LInt 300, ?t]) = None" "length (encode_all [LInt 300, ?t]) \<le> 100"
    by code_simp+
  moreover have "\<forall>v\<in>set [LInt 300, ?t]. packable v \<and> lua_wf v"
    by (simp add: INT_MAX_def pairs_of_def table_ok_def key_ok_def)
  ultimately show ?thesis
    using luaseri_unpack_pack [of "[LInt 300, ?t]" "\<lparr>lh_rawlen = length, lh_deserialize = (\<lambda>_. None)\<rparr>"]
    by (auto simp: INT_MAX_def pairs_of_def)
qed

end
