(* ===== verification/SeriSafe.thy ===== *)
theory SeriSafe
  imports SeriTrip
begin

text \<open>
  What the unpacker does on bytes that no packer wrote, as they may come from another node: it gives values or a Lua error and reads nothing
  outside the bytes.
\<close>

section \<open>Results inside the buffer\<close>

definition fine :: "(string + 'a \<times> read_block) option \<Rightarrow> u8 list \<Rightarrow> bool" where
  "fine r rest \<longleftrightarrow> (case r of None \<Rightarrow> False | Some (Inl e) \<Rightarrow> True | Some (Inr (x, rb)) \<Rightarrow> \<exists>k. rb_at rb (drop k rest))"

lemma fine_simps [simp]: "fine (invalid_stream line rb) rest" "fine (Some (Inl e)) rest"
  by (simp_all add: fine_def invalid_stream_def)

lemma fine_rreturn [simp]: "rb_at rb rest \<Longrightarrow> fine (rreturn x rb) rest"
  by (auto simp: fine_def rreturn_def intro: exI [of _ 0])








section \<open>The functions that read a value\<close>




section \<open>Any bytes\<close>



end
