(* ===== verification/Cluster.thy ===== *)
theory Cluster
  imports Seri
begin

text \<open>
  Requests and responses between the nodes of a cluster (\<^verbatim>\<open>lualib-src/lua-cluster.c\<close>), and how \<^verbatim>\<open>service/clusteragent.lua\<close>
  puts requests in several parts together. A package has 2 bytes of length in front, which the transport takes off. The message of a request is the
  list of its bytes; that it is freed in the end is not modelled.
\<close>

section \<open>Packages\<close>

definition TEMP_LENGTH :: nat where "TEMP_LENGTH = 0x8200"
definition MULTI_PART :: nat where "MULTI_PART = 0x8000"

definition fill_uint32 :: "u32 \<Rightarrow> u8 list" where
  "fill_uint32 n = [ucast (n AND 0xff), ucast (drop_bit 8 n AND 0xff), ucast (drop_bit 16 n AND 0xff), ucast (drop_bit 24 n AND 0xff)]"

definition fill_header :: "nat \<Rightarrow> u8 list option" where
  "fill_header sz = do { c_assert (sz < 0x10000); Some [of_nat (sz div 2 ^ 8 mod 2 ^ 8), of_nat (sz mod 2 ^ 8)] }"

text \<open>A package is built in a buffer of fixed size.\<close>

definition package :: "nat \<Rightarrow> u8 list \<Rightarrow> u8 list option" where
  "package sz content = do { h \<leftarrow> fill_header sz; c_assert (length (h @ content) \<le> TEMP_LENGTH); Some (h @ content) }"

text \<open>An address is a number or a name.\<close>

datatype cluster_addr = Addr_id u32 | Addr_name "u8 list"

section \<open>Requests\<close>

definition part_count :: "nat \<Rightarrow> nat" where
  "part_count sz = (sz - 1) div MULTI_PART + 1"

text \<open>The package, and the number of parts that follow.\<close>

definition packreq_number :: "u32 \<Rightarrow> u32 \<Rightarrow> u8 list \<Rightarrow> bool \<Rightarrow> (u8 list \<times> nat) option" where
  "packreq_number addr session msg is_push = (let sz = length msg in
     if sz < MULTI_PART then do {
       p \<leftarrow> package (sz + 9) ([0] @ fill_uint32 addr @ fill_uint32 (if is_push then 0 else session) @ msg);
       Some (p, 0) }
     else do {
       p \<leftarrow> package 13 ([if is_push then 0x41 else 1] @ fill_uint32 addr @ fill_uint32 session @ fill_uint32 (of_nat sz));
       Some (p, part_count sz) })"

definition packreq_string :: "u8 list \<Rightarrow> u32 \<Rightarrow> u8 list \<Rightarrow> bool \<Rightarrow> (string + u8 list \<times> nat) option" where
  "packreq_string name session msg is_push = (let namelen = length name; sz = length msg in
     if namelen < 1 \<or> namelen > 255 then Some (Inl (''name is too long '' @ c_str (string_of name)))
     else if sz < MULTI_PART then do {
       p \<leftarrow> package (sz + 6 + namelen) ([0x80, of_nat namelen] @ name @ fill_uint32 (if is_push then 0 else session) @ msg);
       Some (Inr (p, 0)) }
     else do {
       p \<leftarrow> package (10 + namelen) ([if is_push then 0xc1 else 0x81, of_nat namelen] @ name @ fill_uint32 session @ fill_uint32 (of_nat sz));
       Some (Inr (p, part_count sz)) })"

fun packreq_multi :: "nat \<Rightarrow> u32 \<Rightarrow> u8 list \<Rightarrow> u8 list list option" where
  "packreq_multi 0 session ptr = Some []"
| "packreq_multi (Suc n) session ptr = (let sz = length ptr; (s, t) = (if sz > MULTI_PART then (MULTI_PART, 2) else (sz, 3)) in do {
     p \<leftarrow> package (s + 5) ([t] @ fill_uint32 session @ take s ptr);
     ps \<leftarrow> packreq_multi n session (drop s ptr);
     Some (p # ps) })"

text \<open>The request, the next session and the parts, if the message needs them.\<close>

definition packrequest :: "cluster_addr \<Rightarrow> int \<Rightarrow> u8 list option \<Rightarrow> bool \<Rightarrow> (string + u8 list \<times> u32 \<times> u8 list list option) option" where
  "packrequest addr session0 msg0 is_push = (case msg0 of
     None \<Rightarrow> Some (Inl ''Invalid request message'')
   | Some msg \<Rightarrow> (let session = c_int session0 in
       if session \<le> 0 then Some (Inl (''Invalid request session '' @ show_int session))
       else do {
         r \<leftarrow> (case addr of
             Addr_id a \<Rightarrow> map_option Inr (packreq_number a (of_int session) msg is_push)
           | Addr_name name \<Rightarrow> packreq_string name (of_int session) msg is_push);
         case r of
           Inl e \<Rightarrow> Some (Inl e)
         | Inr (req, multipak) \<Rightarrow> (let n = of_int session + 1; new_session = (if uint n > 2 ^ 31 - 1 then 1 else n) in
             if multipak \<noteq> 0 then do {
               parts \<leftarrow> packreq_multi (part_count (length msg)) (of_int session) msg;
               Some (Inr (req, new_session, Some parts)) }
             else Some (Inr (req, new_session, None))) }))"

definition lpackrequest :: "cluster_addr \<Rightarrow> int \<Rightarrow> u8 list option \<Rightarrow> (string + u8 list \<times> u32 \<times> u8 list list option) option" where
  "lpackrequest addr session msg = packrequest addr session msg False"

definition lpackpush :: "cluster_addr \<Rightarrow> int \<Rightarrow> u8 list option \<Rightarrow> (string + u8 list \<times> u32 \<times> u8 list list option) option" where
  "lpackpush addr session msg = packrequest addr session msg True"

definition lpacktrace :: "u8 list \<Rightarrow> (string + u8 list) option" where
  "lpacktrace t = (if length t > 0x8000 then Some (Inl (''trace tag is too long : '' @ show_int (c_int (int (length t)))))
     else map_option Inr (package (length t + 1) ([4] @ t)))"

section \<open>Unpacking requests\<close>

definition unpack_uint32 :: "u8 list \<Rightarrow> nat \<Rightarrow> u32" where
  "unpack_uint32 buf i = ucast (buf ! i) OR push_bit 8 (ucast (buf ! (i + 1))) OR push_bit 16 (ucast (buf ! (i + 2))) OR
     push_bit 24 (ucast (buf ! (i + 3)))"

text \<open>The shapes of what \<^verbatim>\<open>unpackrequest\<close> returns: a trace tag; a whole message with address, session, and whether it is a push;
  the start of a message in parts, with its size; and a part, with whether more follow.\<close>

datatype cluster_request =
    Req_trace "u8 list"
  | Req_whole cluster_addr u32 "u8 list" bool
  | Req_begin cluster_addr u32 u32 bool
  | Req_part u32 "u8 list" bool

definition unpackreq_number :: "u8 list \<Rightarrow> string + cluster_request" where
  "unpackreq_number buf = (let sz = length buf in
     if sz < 9 then Inl (''Invalid cluster message (size='' @ show_int (int sz) @ '')'')
     else (let session = unpack_uint32 buf 5 in Inr (Req_whole (Addr_id (unpack_uint32 buf 1)) session (drop 9 buf) (session = 0))))"

definition unpackmreq_number :: "u8 list \<Rightarrow> bool \<Rightarrow> string + cluster_request" where
  "unpackmreq_number buf is_push = (let sz = length buf in
     if sz \<noteq> 13 then Inl (''Invalid cluster message size '' @ show_int (int sz) @ '' (multi req must be 13)'')
     else Inr (Req_begin (Addr_id (unpack_uint32 buf 1)) (unpack_uint32 buf 5) (unpack_uint32 buf 9) is_push))"

definition unpackmreq_part :: "u8 list \<Rightarrow> string + cluster_request" where
  "unpackmreq_part buf = (if length buf < 5 then Inl ''Invalid cluster multi part message''
     else Inr (Req_part (unpack_uint32 buf 1) (drop 5 buf) (buf ! 0 = 2)))"

definition unpacktrace :: "u8 list \<Rightarrow> string + cluster_request" where
  "unpacktrace buf = Inr (Req_trace (drop 1 buf))"

definition unpackreq_string :: "u8 list \<Rightarrow> string + cluster_request" where
  "unpackreq_string buf = (let sz = length buf; namesz = unat (buf ! 1) in
     if sz < 2 \<or> sz < namesz + 6 then Inl (''Invalid cluster message (size='' @ show_int (int sz) @ '')'')
     else (let session = unpack_uint32 buf (namesz + 2) in
       Inr (Req_whole (Addr_name (take namesz (drop 2 buf))) session (drop (namesz + 6) buf) (session = 0))))"

definition unpackmreq_string :: "u8 list \<Rightarrow> bool \<Rightarrow> string + cluster_request" where
  "unpackmreq_string buf is_push = (let sz = length buf; namesz = unat (buf ! 1) in
     if sz < 2 \<or> sz < namesz + 10 then Inl (''Invalid cluster message (size='' @ show_int (int sz) @ '')'')
     else Inr (Req_begin (Addr_name (take namesz (drop 2 buf))) (unpack_uint32 buf (namesz + 2)) (unpack_uint32 buf (namesz + 6)) is_push))"

text \<open>The package comes as a string of Lua, which has a zero byte behind its last, or as a pointer.\<close>

definition lunpackrequest :: "bool \<Rightarrow> u8 list \<Rightarrow> (string + cluster_request) option" where
  "lunpackrequest is_pointer buf = do {
     t \<leftarrow> (if buf = [] then (if is_pointer then None else Some 0) else Some (hd buf));
     Some (if t = 0 then unpackreq_number buf
       else if t = 1 then unpackmreq_number buf False
       else if t = 0x41 then unpackmreq_number buf True
       else if t = 2 \<or> t = 3 then unpackmreq_part buf
       else if t = 4 then unpacktrace buf
       else if t = 0x80 then unpackreq_string buf
       else if t = 0x81 then unpackmreq_string buf False
       else if t = 0xc1 then unpackmreq_string buf True
       else Inl (''Invalid req package type '' @ show_int (sint t))) }"

section \<open>Responses\<close>

definition response_package :: "u32 \<Rightarrow> u8 \<Rightarrow> u8 list \<Rightarrow> u8 list option" where
  "response_package session t content = package (length content + 5) (fill_uint32 session @ [t] @ content)"

fun response_parts :: "nat \<Rightarrow> u32 \<Rightarrow> u8 list \<Rightarrow> u8 list list option" where
  "response_parts 0 session ptr = Some []"
| "response_parts (Suc n) session ptr = (let sz = length ptr; (s, t) = (if sz > MULTI_PART then (MULTI_PART, 3) else (sz, 4)) in do {
     p \<leftarrow> response_package session t (take s ptr);
     ps \<leftarrow> response_parts n session (drop s ptr);
     Some (p # ps) })"

text \<open>One string is the left value, a table of strings the right one.\<close>

definition lpackresponse :: "u32 \<Rightarrow> bool \<Rightarrow> u8 list \<Rightarrow> (u8 list + u8 list list) option" where
  "lpackresponse session ok msg = (let sz = length msg in
     if ok \<and> sz > MULTI_PART then do {
       h \<leftarrow> response_package session 2 (fill_uint32 (of_nat sz));
       ps \<leftarrow> response_parts (part_count sz) session msg;
       Some (Inr (h # ps)) }
     else map_option Inl (response_package session (if ok then 1 else 0) (take MULTI_PART msg)))"

text \<open>The session, whether it went well, the message or the size of one in parts, and whether more follows; None for no result.\<close>

definition lunpackresponse :: "u8 list \<Rightarrow> (u32 \<times> bool \<times> (u8 list + u32) \<times> bool) option" where
  "lunpackresponse buf = (let sz = length buf in
     if sz < 5 then None
     else (let session = unpack_uint32 buf 0; t = buf ! 4; msg = drop 5 buf in
       if t = 0 then Some (session, False, Inl msg, False)
       else if t = 1 \<or> t = 4 then Some (session, True, Inl msg, False)
       else if t = 2 then (if sz \<noteq> 9 then None else Some (session, True, Inr (unpack_uint32 buf 5), True))
       else if t = 3 then Some (session, True, Inl msg, True)
       else None))"

section \<open>Joining parts\<close>

text \<open>The list part of a Lua table is the list of its values. \<^verbatim>\<open>lappend\<close> gets a message, or nil and a size.\<close>

definition lappend :: "lua_value list \<Rightarrow> u8 list + u32 \<Rightarrow> lua_value list" where
  "lappend t m = t @ [case m of Inl msg \<Rightarrow> LString msg | Inr n \<Rightarrow> LInt (ucast n)]"

fun concat_parts :: "lua_value list \<Rightarrow> int \<Rightarrow> u8 list \<Rightarrow> u8 list option" where
  "concat_parts (LString str # t) sz buff =
     (if int (length str) + int (length buff) > sz then None else concat_parts t sz (buff @ str))"
| "concat_parts t sz buff = (if int (length buff) \<noteq> sz then None else Some buff)"

text \<open>None for no result. A negative size is a size above 2^63 for \<^verbatim>\<open>malloc\<close>, which fails, and the program is aborted.\<close>

definition lconcat :: "lua_value list \<Rightarrow> u8 list option option" where
  "lconcat t = (case t of
     LInt n # ps \<Rightarrow> (let sz = c_int (sint n) in if sz < 0 then None else Some (concat_parts ps sz []))
   | _ \<Rightarrow> Some None)"

definition lisname :: "cluster_addr \<Rightarrow> bool" where
  "lisname addr = (case addr of Addr_id _ \<Rightarrow> False | Addr_name name \<Rightarrow> name \<noteq> [] \<and> hd name = 0x40)"

section \<open>The agent of a connection\<close>

text \<open>\<^verbatim>\<open>dispatch_request\<close> of \<^verbatim>\<open>service/clusteragent.lua\<close> up to the dispatch: the requests in parts by session, with their address (none when
  the first package was a part), whether they are a push, and their table. It dispatches a message, answers that a large
  request is invalid, or does neither. Trace tags are left aside.\<close>

type_synonym large_request = "cluster_addr option \<times> bool \<times> lua_value list"

datatype agent_action = Dispatch "cluster_addr option" u32 "u8 list" bool | Invalid_large u32

definition new_request :: "(u32 \<rightharpoonup> large_request) \<Rightarrow> cluster_addr option \<Rightarrow> u32 \<Rightarrow> bool \<Rightarrow> large_request" where
  "new_request large addr session is_push = (case large session of Some r \<Rightarrow> r | None \<Rightarrow> (addr, is_push, []))"

definition agent_append :: "(u32 \<rightharpoonup> large_request) \<Rightarrow> cluster_addr option \<Rightarrow> u32 \<Rightarrow> u8 list + u32 \<Rightarrow> bool \<Rightarrow> u32 \<rightharpoonup> large_request" where
  "agent_append large addr session msg is_push =
     (case new_request large addr session is_push of (a, p, t) \<Rightarrow> large(session \<mapsto> (a, p, lappend t msg)))"

definition agent_finish :: "(u32 \<rightharpoonup> large_request) \<Rightarrow> cluster_addr option \<Rightarrow> u32 \<Rightarrow> u8 list \<Rightarrow> bool \<Rightarrow>
    (agent_action \<times> (u32 \<rightharpoonup> large_request)) option" where
  "agent_finish large addr session msg is_push = (case large session of
     None \<Rightarrow> Some (Dispatch addr session msg is_push, large)
   | Some (a, p, t) \<Rightarrow> do {
       r \<leftarrow> lconcat (lappend t (Inl msg));
       Some (case r of Some m \<Rightarrow> Dispatch a session m p | None \<Rightarrow> Invalid_large session, large(session := None)) })"

definition agent_request :: "cluster_request \<Rightarrow> (u32 \<rightharpoonup> large_request) \<Rightarrow> (agent_action option \<times> (u32 \<rightharpoonup> large_request)) option" where
  "agent_request r large = (case r of
     Req_trace t \<Rightarrow> Some (None, large)
   | Req_begin addr session n is_push \<Rightarrow> Some (None, agent_append large (Some addr) session (Inr n) is_push)
   | Req_part session msg True \<Rightarrow> Some (None, agent_append large None session (Inl msg) False)
   | Req_part session msg False \<Rightarrow> map_option (apfst Some) (agent_finish large None session msg False)
   | Req_whole addr session msg is_push \<Rightarrow> map_option (apfst Some) (agent_finish large (Some addr) session msg is_push))"

text \<open>The packages of a connection one after the other; a package that is not understood is an error of Lua and changes nothing.\<close>

fun agent_packages :: "u8 list list \<Rightarrow> (u32 \<rightharpoonup> large_request) \<Rightarrow> (agent_action list \<times> (u32 \<rightharpoonup> large_request)) option" where
  "agent_packages [] large = Some ([], large)"
| "agent_packages (b # bs) large = do {
     r \<leftarrow> lunpackrequest True b;
     (out, large') \<leftarrow> (case r of Inl e \<Rightarrow> Some (None, large) | Inr q \<Rightarrow> agent_request q large);
     (outs, large'') \<leftarrow> agent_packages bs large';
     Some ((case out of None \<Rightarrow> [] | Some a \<Rightarrow> [a]) @ outs, large'') }"

end
