(* ===== verification/ClusterWire.thy ===== *)
theory ClusterWire
  imports Cluster SeriTrip DiffieHellman NetpackWire
begin

text \<open>
  Requests from one node to another: whatever their sizes, wherever the transport cuts the bytes and however the packages of several
  requests are mixed, the agent at the other side dispatches every message once, whole and with its address.
\<close>

section \<open>Packages\<close>

definition framed :: "u8 list \<Rightarrow> u8 list" where
  "framed b = write_size (length b) @ b"

lemma package_framed: "sz = length b \<Longrightarrow> sz < 0x10000 \<Longrightarrow> sz + 2 \<le> TEMP_LENGTH \<Longrightarrow> package sz b = Some (framed b)"
  by (simp add: package_def fill_header_def framed_def write_size_def)

lemma fill_put: "fill_uint32 = put_le32"
  by (rule ext) (simp add: fill_uint32_def put_le32_def)

lemma fill_length [simp]: "length (fill_uint32 n) = 4"
  by (simp add: fill_put)

lemma unpack_at: "k = length xs \<Longrightarrow> unpack_uint32 (xs @ fill_uint32 n @ ys) k = n"
proof -
  have "unpack_uint32 (xs @ ys) (length xs) = get_le32 ys 0" for xs ys
    by (simp add: unpack_uint32_def get_le32_def nth_append numeral_2_eq_2 numeral_3_eq_3)
  then show "k = length xs \<Longrightarrow> ?thesis" by (simp add: fill_put)
qed

text \<open>The content of the packages of a request.\<close>

fun part_bodies :: "nat \<Rightarrow> u32 \<Rightarrow> u8 list \<Rightarrow> u8 list list" where
  "part_bodies 0 session msg = []"
| "part_bodies (Suc n) session msg =
     ([if length msg > MULTI_PART then 2 else 3] @ fill_uint32 session @ take MULTI_PART msg) # part_bodies n session (drop MULTI_PART msg)"

definition addr_bytes :: "cluster_addr \<Rightarrow> u8 list" where
  "addr_bytes addr = (case addr of Addr_id a \<Rightarrow> fill_uint32 a | Addr_name name \<Rightarrow> of_nat (length name) # name)"

definition addr_type :: "cluster_addr \<Rightarrow> u8" where
  "addr_type addr = (case addr of Addr_id a \<Rightarrow> 0 | Addr_name name \<Rightarrow> 0x80)"

definition addr_ok :: "cluster_addr \<Rightarrow> bool" where
  "addr_ok addr = (case addr of Addr_id a \<Rightarrow> True | Addr_name name \<Rightarrow> 1 \<le> length name \<and> length name \<le> 255)"

definition request_bodies :: "cluster_addr \<Rightarrow> u32 \<Rightarrow> u8 list \<Rightarrow> bool \<Rightarrow> u8 list list" where
  "request_bodies addr session msg is_push =
     (if length msg < MULTI_PART then [addr_type addr # addr_bytes addr @ fill_uint32 (if is_push then 0 else session) @ msg]
      else ((addr_type addr + (if is_push then 0x41 else 1)) # addr_bytes addr @ fill_uint32 session @ fill_uint32 (of_nat (length msg)))
        # part_bodies (part_count (length msg)) session msg)"

lemma packreq_multi_bodies: "packreq_multi n session msg = Some (map framed (part_bodies n session msg))"
proof (induction n session msg rule: part_bodies.induct)
  case (2 n session msg)
  let ?b = "[if length msg > MULTI_PART then 2 else 3] @ fill_uint32 session @ take MULTI_PART msg"
  have "package (min (length msg) MULTI_PART + 5) ?b = Some (framed ?b)"
    by (rule package_framed) (simp_all add: MULTI_PART_def TEMP_LENGTH_def)
  with 2 show ?case by (cases "length msg > MULTI_PART") (simp_all add: Let_def min_def)
qed simp

definition request_ok :: "cluster_addr \<Rightarrow> int \<Rightarrow> u8 list \<Rightarrow> bool" where
  "request_ok addr session msg \<longleftrightarrow> addr_ok addr \<and> 0 < session \<and> session < 2 ^ 31 \<and> length msg \<le> INT_MAX"

lemma packrequest_bodies:
  assumes "request_ok addr session msg"
  shows "packrequest addr session (Some msg) is_push =
    Some (Inr (framed (hd (request_bodies addr (of_int session) msg is_push)),
      if session = 2 ^ 31 - 1 then 1 else of_int (session + 1),
      if length msg < MULTI_PART then None else Some (map framed (tl (request_bodies addr (of_int session) msg is_push)))))"
proof -
  have s: "c_int session = session" using assms by (intro c_int_small) (simp_all add: request_ok_def)
  have "uint (of_int session + 1 :: u32) = session + 1"
    using assms by (simp add: request_ok_def uint_word_ariths take_bit_int_eq_self unsigned_of_int)
  then have nxt: "(let n = of_int session + 1 :: u32 in if uint n > 2 ^ 31 - 1 then 1 else n) =
      (if session = 2 ^ 31 - 1 then 1 else of_int (session + 1))"
    using assms by (auto simp: request_ok_def Let_def)
  have small: "packreq_number a (of_int session) msg is_push =
      Some (framed (hd (request_bodies (Addr_id a) (of_int session) msg is_push)), if length msg < MULTI_PART then 0 else part_count (length msg))" for a
    by (auto simp: packreq_number_def request_bodies_def addr_bytes_def addr_type_def Let_def package_framed MULTI_PART_def TEMP_LENGTH_def)
  have name: "packreq_string a (of_int session) msg is_push =
      Some (Inr (framed (hd (request_bodies (Addr_name a) (of_int session) msg is_push)), if length msg < MULTI_PART then 0 else part_count (length msg)))"
    if "addr_ok (Addr_name a)" for a
    using that by (auto simp: packreq_string_def request_bodies_def addr_bytes_def addr_type_def addr_ok_def Let_def package_framed MULTI_PART_def TEMP_LENGTH_def)
  have "part_count (length msg) \<noteq> 0" by (simp add: part_count_def)
  then show ?thesis
    using assms small name nxt unfolding packrequest_def request_ok_def
    by (cases addr) (auto simp: s Let_def packreq_multi_bodies request_bodies_def)
qed

section \<open>What the packages say\<close>

fun parts_of :: "nat \<Rightarrow> u32 \<Rightarrow> u8 list \<Rightarrow> cluster_request list" where
  "parts_of 0 session msg = []"
| "parts_of (Suc n) session msg = Req_part session (take MULTI_PART msg) (length msg > MULTI_PART) # parts_of n session (drop MULTI_PART msg)"

definition requests_of :: "cluster_addr \<Rightarrow> u32 \<Rightarrow> u8 list \<Rightarrow> bool \<Rightarrow> cluster_request list" where
  "requests_of addr session msg is_push =
     (if length msg < MULTI_PART then [Req_whole addr (if is_push then 0 else session) msg is_push]
      else Req_begin addr session (of_nat (length msg)) is_push # parts_of (part_count (length msg)) session msg)"

definition says :: "u8 list \<Rightarrow> cluster_request \<Rightarrow> bool" where
  "says b q \<longleftrightarrow> lunpackrequest True b = Some (Inr q)"

lemma unpack_first: "unpack_uint32 (t # fill_uint32 a @ ys) 1 = a"
  using unpack_at [of 1 "[t]"] by simp

lemma says_part: "says ([if m then 2 else 3] @ fill_uint32 session @ msg) (Req_part session msg m)"
  using unpack_first [of _ session msg] by (simp add: says_def lunpackrequest_def unpackmreq_part_def)

lemma says_parts: "list_all2 says (part_bodies n session msg) (parts_of n session msg)"
  by (induction n session msg rule: part_bodies.induct) (simp_all add: says_part [simplified])

lemma says_number:
  "says (0 # fill_uint32 a @ fill_uint32 session @ msg) (Req_whole (Addr_id a) session msg (session = 0))"
  "says ((if p then 0x41 else 1) # fill_uint32 a @ fill_uint32 session @ fill_uint32 n) (Req_begin (Addr_id a) session n p)"
proof -
  have u: "unpack_uint32 (t # fill_uint32 a @ fill_uint32 session @ ys) 5 = session" for t ys
    using unpack_at [of 5 "t # fill_uint32 a" session ys] by simp
  have v: "unpack_uint32 (t # fill_uint32 a @ fill_uint32 session @ fill_uint32 n) 9 = n" for t
    using unpack_at [of 9 "t # fill_uint32 a @ fill_uint32 session" n "[]"] by simp
  show "says (0 # fill_uint32 a @ fill_uint32 session @ msg) (Req_whole (Addr_id a) session msg (session = 0))"
    using unpack_first [of 0 a] u by (simp add: says_def lunpackrequest_def unpackreq_number_def Let_def)
  show "says ((if p then 0x41 else 1) # fill_uint32 a @ fill_uint32 session @ fill_uint32 n) (Req_begin (Addr_id a) session n p)"
    using unpack_first [of _ a] u v by (simp add: says_def lunpackrequest_def unpackmreq_number_def)
qed

lemma says_string:
  assumes "length name \<le> 255"
  shows "says (0x80 # of_nat (length name) # name @ fill_uint32 session @ msg) (Req_whole (Addr_name name) session msg (session = 0))"
    and "says ((if p then 0xc1 else 0x81) # of_nat (length name) # name @ fill_uint32 session @ fill_uint32 n) (Req_begin (Addr_name name) session n p)"
proof -
  have l: "unat (of_nat (length name) :: u8) = length name" using assms by (simp add: unsigned_of_nat take_bit_nat_eq_self)
  have u: "unpack_uint32 (t # c # name @ fill_uint32 session @ ys) (length name + 2) = session" for t c ys
    using unpack_at [of "length name + 2" "t # c # name" session ys] by simp
  have "drop k (xs @ ys) = ys" if "k = length xs" for k and xs ys :: "u8 list" using that by simp
  from this [of "length name + 6" "_ # _ # name @ fill_uint32 session"]
  have d: "drop (length name + 6) (t # c # name @ fill_uint32 session @ ys) = ys" for t c ys by simp
  have v: "unpack_uint32 (t # c # name @ fill_uint32 session @ fill_uint32 n) (length name + 6) = n" for t c
    using unpack_at [of "length name + 6" "t # c # name @ fill_uint32 session" n "[]"] by simp
  show "says (0x80 # of_nat (length name) # name @ fill_uint32 session @ msg) (Req_whole (Addr_name name) session msg (session = 0))"
    using u d by (simp add: says_def lunpackrequest_def unpackreq_string_def Let_def l)
  show "says ((if p then 0xc1 else 0x81) # of_nat (length name) # name @ fill_uint32 session @ fill_uint32 n) (Req_begin (Addr_name name) session n p)"
    using u v by (simp add: says_def lunpackrequest_def unpackmreq_string_def Let_def l)
qed

lemma says_request:
  assumes "addr_ok addr" "session \<noteq> 0"
  shows "list_all2 says (request_bodies addr session msg is_push) (requests_of addr session msg is_push)"
  using assms says_number(1) [where session = "if is_push then 0 else session" and msg = msg] says_number(2) [where p = is_push and session = session and n = "of_nat (length msg)"]
    says_string(1) [where session = "if is_push then 0 else session" and msg = msg] says_string(2) [where p = is_push and session = session and n = "of_nat (length msg)"] says_parts
  by (auto simp: request_bodies_def requests_of_def addr_bytes_def addr_type_def addr_ok_def split: cluster_addr.split)

section \<open>One session\<close>

text \<open>What a package does to the request in parts of its session.\<close>

definition slot_of :: "cluster_request \<Rightarrow> u32" where
  "slot_of q = (case q of Req_trace t \<Rightarrow> 0 | Req_whole a s m p \<Rightarrow> s | Req_begin a s n p \<Rightarrow> s | Req_part s m b \<Rightarrow> s)"

definition slot_step :: "cluster_request \<Rightarrow> large_request option \<Rightarrow> (agent_action option \<times> large_request option) option" where
  "slot_step q slot = map_option (apsnd (\<lambda>large. large (slot_of q))) (agent_request q ((\<lambda>_. None)(slot_of q := slot)))"

lemma agent_request_slot:
  "agent_request q large = map_option (apsnd (\<lambda>v. large(slot_of q := v))) (slot_step q (large (slot_of q)))"
  by (cases q) (auto simp: slot_step_def slot_of_def agent_request_def agent_finish_def agent_append_def new_request_def
      fun_upd_idem_iff split: option.splits bool.splits Option.bind_split)

fun slot_run :: "cluster_request list \<Rightarrow> large_request option \<Rightarrow> (agent_action list \<times> large_request option) option" where
  "slot_run [] slot = Some ([], slot)"
| "slot_run (q # qs) slot = do {
     (out, slot') \<leftarrow> slot_step q slot;
     (outs, slot'') \<leftarrow> slot_run qs slot';
     Some ((case out of None \<Rightarrow> [] | Some a \<Rightarrow> [a]) @ outs, slot'') }"

lemma concat_parts_strings:
  "concat_parts (map LString ps) (int n) buff = (if length buff + length (concat ps) = n then Some (buff @ concat ps) else None)"
  by (induction ps arbitrary: buff) auto

lemma slot_steps:
  "slot_step (Req_begin addr s n p) None = Some (None, Some (Some addr, p, [LInt (ucast n)]))"
  "slot_step (Req_part s m True) (Some (a, p, t)) = Some (None, Some (a, p, t @ [LString m]))"
  "slot_step (Req_whole addr s m p) None = Some (Some (Dispatch (Some addr) s m p), None)"
  "slot_step (Req_part s m False) (Some (a, p, t)) = lconcat (t @ [LString m]) \<bind>
     (\<lambda>r. Some (Some (case r of Some m \<Rightarrow> Dispatch a s m p | None \<Rightarrow> Invalid_large s), None))"
  by (auto simp: slot_step_def slot_of_def agent_request_def agent_append_def agent_finish_def new_request_def lappend_def
      split: option.splits Option.bind_split)

lemma lconcat_strings:
  "c_int (sint L) = int (length (concat ps)) \<Longrightarrow> lconcat (LInt L # map LString ps) = Some (Some (concat ps))"
  using concat_parts_strings [of ps "length (concat ps)" "[]"] by (simp add: lconcat_def Let_def)

lemma part_count_add: "part_count (n + MULTI_PART) = Suc (part_count n)" if "0 < n"
proof -
  have "n + MULTI_PART - 1 = MULTI_PART + (n - 1)" using that by simp
  moreover have "MULTI_PART \<noteq> 0" by (simp add: MULTI_PART_def)
  ultimately show ?thesis by (simp only: part_count_def div_add_self1 not_False_eq_True add_Suc Suc_eq_plus1)
qed

lemma part_count_more: "n > MULTI_PART \<Longrightarrow> part_count n = Suc (part_count (n - MULTI_PART))"
  using part_count_add [of "n - MULTI_PART"] by simp

lemma part_count_last: "\<not> n > MULTI_PART \<Longrightarrow> part_count n = Suc 0"
proof -
  assume "\<not> n > MULTI_PART"
  moreover have "0 < MULTI_PART" by (simp add: MULTI_PART_def)
  ultimately have "n - 1 < MULTI_PART" by linarith
  then show ?thesis by (simp only: part_count_def div_less add_0 One_nat_def)
qed

lemma slot_run_parts:
  "n = part_count (length msg) \<Longrightarrow> msg \<noteq> [] \<Longrightarrow> c_int (sint L) = int (length (concat ps) + length msg) \<Longrightarrow>
   slot_run (parts_of n session msg) (Some (a, p, LInt L # map LString ps)) = Some ([Dispatch a session (concat ps @ msg) p], None)"
proof (induction n session msg arbitrary: ps rule: parts_of.induct)
  case (1 session msg)
  then show ?case by (simp add: part_count_def)
next
  case (2 n session msg)
  show ?case
  proof (cases "length msg > MULTI_PART")
    case True
    let ?ps = "ps @ [take MULTI_PART msg]" and ?r = "drop MULTI_PART msg"
    have "slot_run (parts_of n session ?r) (Some (a, p, LInt L # map LString ?ps)) = Some ([Dispatch a session (concat ?ps @ ?r) p], None)"
    proof (rule 2(1))
      show "n = part_count (length ?r)" using 2(2) part_count_more [OF True] by simp
      show "?r \<noteq> []" using True by simp
      show "c_int (sint L) = int (length (concat ?ps) + length ?r)" unfolding 2(4) using True by simp
    qed
    moreover have "concat ?ps @ ?r = concat ps @ msg" by simp
    ultimately show ?thesis using True by (simp add: slot_steps(2))
  next
    case False
    with 2(2) have "n = 0" using part_count_last [of "length msg"] by simp
    moreover have "lconcat (LInt L # map LString (ps @ [msg])) = Some (Some (concat (ps @ [msg])))"
      by (rule lconcat_strings) (use 2(4) in simp)
    ultimately show ?thesis using False by (simp add: slot_steps(4))
  qed
qed

definition dispatched :: "cluster_addr \<Rightarrow> u32 \<Rightarrow> u8 list \<Rightarrow> bool \<Rightarrow> agent_action" where
  "dispatched addr session msg is_push =
     Dispatch (Some addr) (if is_push \<and> length msg < MULTI_PART then 0 else session) msg is_push"

lemma size_field:
  assumes "n \<le> INT_MAX"
  shows "c_int (sint (ucast (of_nat n :: u32) :: u64)) = int n"
proof -
  have "(ucast (of_nat n :: u32) :: u64) = of_int (int n)"
    using assms by (intro word_uint_eqI) (simp add: unsigned_ucast_eq unsigned_of_nat INT_MAX_def take_bit_nat_eq_self)
  moreover have "sint (of_int (int n) :: u64) = int n"
    using assms by (intro sint_of_int_small) (simp_all add: INT_MAX_def)
  moreover have "c_int (int n) = int n" using assms by (intro c_int_small) (simp_all add: INT_MAX_def)
  ultimately show ?thesis by simp
qed

lemma slot_run_request:
  assumes "length msg \<le> INT_MAX"
  shows "slot_run (requests_of addr session msg is_push) None = Some ([dispatched addr session msg is_push], None)"
proof (cases "length msg < MULTI_PART")
  case True
  then show ?thesis by (simp add: requests_of_def slot_steps dispatched_def)
next
  case False
  then have "msg \<noteq> []" by (auto simp: MULTI_PART_def)
  with slot_run_parts [OF refl this, of "ucast (of_nat (length msg) :: u32)" "[]" session "Some addr" is_push] size_field [OF assms]
  have "slot_run (parts_of (part_count (length msg)) session msg) (Some (Some addr, is_push, [LInt (ucast (of_nat (length msg) :: u32))])) =
      Some ([Dispatch (Some addr) session msg is_push], None)" by simp
  with False show ?thesis by (simp add: requests_of_def slot_steps dispatched_def)
qed

section \<open>Many sessions\<close>

text \<open>The packages of the requests carry the tag of their request. Two requests with the same session do not use its slot.\<close>

definition slotless :: "cluster_request list \<Rightarrow> bool" where
  "slotless qs \<longleftrightarrow> (\<forall>q\<in>set qs. \<exists>a. slot_step q None = Some (Some a, None))"

definition mixed_ok :: "(int \<times> cluster_request) list \<Rightarrow> (int \<Rightarrow> u32) \<Rightarrow> (u32 \<rightharpoonup> large_request) \<Rightarrow> bool" where
  "mixed_ok ps sess large \<longleftrightarrow> (\<forall>p\<in>set ps. slot_of (snd p) = sess (fst p)) \<and>
     (\<forall>i\<in>fst ` set ps. \<forall>j\<in>fst ` set ps. i \<noteq> j \<longrightarrow> sess i = sess j \<longrightarrow> slotless (of_fd i ps) \<and> large (sess i) = None)"

fun agent_requests :: "cluster_request list \<Rightarrow> (u32 \<rightharpoonup> large_request) \<Rightarrow> (agent_action list \<times> (u32 \<rightharpoonup> large_request)) option" where
  "agent_requests [] large = Some ([], large)"
| "agent_requests (q # qs) large = do {
     (out, large') \<leftarrow> agent_request q large;
     (outs, large'') \<leftarrow> agent_requests qs large';
     Some ((case out of None \<Rightarrow> [] | Some a \<Rightarrow> [a]) @ outs, large'') }"

lemma agent_packages_requests: "list_all2 says bs qs \<Longrightarrow> agent_packages bs large = agent_requests qs large"
  by (induction bs qs arbitrary: large rule: list_all2_induct) (simp_all add: says_def)

lemma agent_requests_mixed:
  "mixed_ok ps sess large \<Longrightarrow> (\<And>i. i \<in> fst ` set ps \<Longrightarrow> slot_run (of_fd i ps) (large (sess i)) = Some (out i, None)) \<Longrightarrow>
   \<exists>outs. agent_requests (map snd ps) large = Some (map snd outs, \<lambda>s. if s \<in> sess ` fst ` set ps then None else large s) \<and>
     (\<forall>i. of_fd i outs = (if i \<in> fst ` set ps then out i else []))"
proof (induction ps arbitrary: large out)
  case Nil
  show ?case by (intro exI [of _ "[]"]) simp
next
  case (Cons p ps)
  obtain i q where p: "p = (i, q)" by (cases p)
  have s: "slot_of q = sess i" using Cons.prems(1) by (simp add: mixed_ok_def p)
  obtain a slot outs where step: "slot_step q (large (sess i)) = Some (a, slot)"
      "slot_run (of_fd i ps) slot = Some (outs, None)" "out i = (case a of None \<Rightarrow> [] | Some a \<Rightarrow> [a]) @ outs"
    using Cons.prems(2) [of i] by (auto simp: p monad_simps)
  let ?large = "large(sess i := slot)"
  have fd: "of_fd i (p # ps) = q # of_fd i ps" by (simp add: p)
  have alone: "a \<noteq> None \<and> slot = None \<and> large (sess i) = None" if "j \<in> fst ` set ps" "j \<noteq> i" "sess j = sess i" for j
  proof -
    from Cons.prems(1) that have "slotless (of_fd i (p # ps))" "large (sess i) = None" by (auto simp: mixed_ok_def p)
    with step(1) show ?thesis unfolding fd by (auto simp: slotless_def)
  qed
  have "mixed_ok ps sess ?large"
    unfolding mixed_ok_def
  proof (intro conjI ballI impI)
    fix j k
    assume jk: "j \<in> fst ` set ps" "k \<in> fst ` set ps" "j \<noteq> k" "sess j = sess k"
    with Cons.prems(1) have "slotless (of_fd j (p # ps))" "large (sess j) = None" by (auto simp: mixed_ok_def)
    then show "slotless (of_fd j ps)" "?large (sess j) = None"
      using alone [of j] alone [of k] jk by (auto simp: slotless_def p split: if_splits)
  qed (use Cons.prems(1) in \<open>auto simp: mixed_ok_def\<close>)
  moreover have "slot_run (of_fd j ps) (?large (sess j)) = Some ((out(i := outs)) j, None)" if j: "j \<in> fst ` set ps" for j
  proof (cases "j = i")
    case True
    with step(2) show ?thesis by simp
  next
    case False
    then have "?large (sess j) = large (sess j)" using alone [OF j] by (cases "sess j = sess i") auto
    with False Cons.prems(2) [of j] j show ?thesis by (simp add: p)
  qed
  ultimately obtain os where os: "agent_requests (map snd ps) ?large = Some (map snd os, \<lambda>s. if s \<in> sess ` fst ` set ps then None else ?large s)"
      "\<forall>j. of_fd j os = (if j \<in> fst ` set ps then (out(i := outs)) j else [])"
    using Cons.IH by blast
  let ?os = "(case a of None \<Rightarrow> [] | Some a \<Rightarrow> [(i, a)]) @ os"
  have last: "outs = [] \<and> slot = None" if "i \<notin> fst ` set ps"
  proof -
    have "of_fd i ps = []" using that by (force simp: of_fd_def filter_empty_conv)
    with step(2) show ?thesis by simp
  qed
  have eq: "(\<lambda>s. if s \<in> sess ` fst ` set ps then None else ?large s) = (\<lambda>s. if s \<in> sess ` fst ` set (p # ps) then None else large s)"
  proof
    fix s
    show "(if s \<in> sess ` fst ` set ps then None else ?large s) = (if s \<in> sess ` fst ` set (p # ps) then None else large s)"
      using last by (cases "s = sess i") (auto simp: p)
  qed
  have "agent_requests (map snd (p # ps)) large = Some (map snd ?os, \<lambda>s. if s \<in> sess ` fst ` set ps then None else ?large s)"
    using os(1) step(1) by (cases a) (simp_all add: p agent_request_slot [of q] s)
  moreover have "\<forall>j. of_fd j ?os = (if j \<in> fst ` set (p # ps) then out j else [])"
    using os(2) step(3) last by (cases a) (auto simp: p)
  ultimately show ?case unfolding eq by (intro exI conjI)
qed

section \<open>Requests over a connection\<close>

lemma of_fd_map: "of_fd i (map (apsnd f) ps) = map f (of_fd i ps)"
  by (induction ps) auto

lemma of_fd_in: "x \<in> set (of_fd i ps) \<longleftrightarrow> (i, x) \<in> set ps"
  by (force simp: of_fd_def)

lemma part_bodies_short: "b \<in> set (part_bodies n session msg) \<Longrightarrow> length b < 2 ^ 16"
  by (induction n session msg rule: part_bodies.induct) (auto simp: MULTI_PART_def)

lemma request_bodies_short: "addr_ok addr \<Longrightarrow> b \<in> set (request_bodies addr session msg is_push) \<Longrightarrow> length b < 2 ^ 16"
  by (auto simp: request_bodies_def addr_ok_def addr_bytes_def MULTI_PART_def dest: part_bodies_short split: cluster_addr.splits if_splits)

lemma session_inj:
  "0 < s \<Longrightarrow> s < 2 ^ 31 \<Longrightarrow> 0 < t \<Longrightarrow> t < 2 ^ 31 \<Longrightarrow> (of_int s :: u32) = of_int t \<longleftrightarrow> s = t"
  "0 < s \<Longrightarrow> s < 2 ^ 31 \<Longrightarrow> (of_int s :: u32) \<noteq> 0"
  by (auto simp: word_of_int_eq_iff word_of_int_eq_0_iff take_bit_int_eq_self dest: zdvd_imp_le)

lemma requests_slot:
  "q \<in> set (requests_of addr session msg is_push) \<Longrightarrow> slot_of q = (if is_push \<and> length msg < MULTI_PART then 0 else session)"
proof -
  have "slot_of q = session" if "q \<in> set (parts_of n session msg)" for n msg
    using that by (induction n session msg rule: parts_of.induct) (auto simp: slot_of_def)
  then show "q \<in> set (requests_of addr session msg is_push) \<Longrightarrow> ?thesis"
    by (auto simp: requests_of_def slot_of_def split: if_splits)
qed

text \<open>All packages of a request in their order.\<close>

definition request_packages :: "cluster_addr \<Rightarrow> int \<Rightarrow> u8 list \<Rightarrow> bool \<Rightarrow> u8 list list option" where
  "request_packages addr session msg is_push = (case packrequest addr session (Some msg) is_push of
     Some (Inr (req, n, parts)) \<Rightarrow> Some (req # (case parts of None \<Rightarrow> [] | Some ps \<Rightarrow> ps)) | _ \<Rightarrow> None)"

lemma request_packages_bodies:
  "request_ok addr session msg \<Longrightarrow> request_packages addr session msg is_push = Some (map framed (request_bodies addr (of_int session) msg is_push))"
  by (simp add: request_packages_def packrequest_bodies) (simp add: request_bodies_def)

text \<open>The agent, given the contents of the packages of many requests mixed.\<close>

lemma agent_mixed:
  assumes ok: "\<And>i. i \<in> T \<Longrightarrow> request_ok (addr i) (session i) (msg i)"
    and distinct: "\<And>i j. i \<in> T \<Longrightarrow> j \<in> T \<Longrightarrow> i \<noteq> j \<Longrightarrow> session i \<noteq> session j"
    and tags: "fst ` set bodies = T"
    and b: "\<And>i. i \<in> T \<Longrightarrow> of_fd i bodies = request_bodies (addr i) (of_int (session i)) (msg i) (push i)"
  shows "\<exists>outs. agent_packages (map snd bodies) Map.empty = Some (map snd outs, Map.empty) \<and>
    (\<forall>i. of_fd i outs = (if i \<in> T then [dispatched (addr i) (of_int (session i)) (msg i) (push i)] else []))"
proof -
  let ?qs = "\<lambda>i. requests_of (addr i) (of_int (session i)) (msg i) (push i)"
  let ?sess = "\<lambda>i. if push i \<and> length (msg i) < MULTI_PART then 0 else of_int (session i) :: u32"
  define parse where "parse b = (case lunpackrequest True b of Some (Inr q) \<Rightarrow> q | _ \<Rightarrow> undefined)" for b
  define qs where "qs = map (apsnd parse) bodies"
  have sn: "(of_int (session i) :: u32) \<noteq> 0" if "i \<in> T" for i
    using ok [OF that] session_inj(2) by (simp add: request_ok_def)
  have sy: "list_all2 says (of_fd i bodies) (?qs i)" if "i \<in> T" for i
    using says_request [OF _ sn [OF that]] ok [OF that] b [OF that] by (simp add: request_ok_def)
  have qs: "of_fd i qs = ?qs i" if "i \<in> T" for i
  proof -
    have "map parse bs = rs" if "list_all2 says bs rs" for bs rs
      using that by (induction rule: list_all2_induct) (simp_all add: says_def parse_def)
    then show ?thesis using sy [OF that] by (simp add: qs_def of_fd_map)
  qed
  have tags_qs: "fst ` set qs = T" using tags by (simp add: qs_def image_image)
  have "says (snd p) (parse (snd p))" if "p \<in> set bodies" for p
  proof -
    have "fst p \<in> T" "snd p \<in> set (of_fd (fst p) bodies)" using that tags by (force simp: of_fd_in)+
    with sy have "\<exists>q. says (snd p) q" by (metis list_all2_conv_all_nth in_set_conv_nth)
    then show ?thesis by (auto simp: says_def parse_def)
  qed
  then have "list_all2 says (map snd bodies) (map snd qs)"
    by (auto simp: qs_def list_all2_conv_all_nth)
  then have run: "agent_packages (map snd bodies) Map.empty = agent_requests (map snd qs) Map.empty"
    by (rule agent_packages_requests)
  have "mixed_ok qs ?sess Map.empty"
    unfolding mixed_ok_def
  proof (intro conjI ballI impI)
    fix p assume "p \<in> set qs"
    then have "fst p \<in> T" "snd p \<in> set (of_fd (fst p) qs)" using tags_qs by (auto simp: of_fd_in)
    then show "slot_of (snd p) = ?sess (fst p)" using qs requests_slot by metis
  next
    fix i j assume ij: "i \<in> fst ` set qs" "j \<in> fst ` set qs" "i \<noteq> j" "?sess i = ?sess j"
    then have T: "i \<in> T" "j \<in> T" using tags_qs by auto
    have "session i \<noteq> session j" using distinct T ij(3) by blast
    then have "(of_int (session i) :: u32) \<noteq> of_int (session j)"
      using session_inj(1) [of "session i" "session j"] ok [OF T(1)] ok [OF T(2)] by (simp add: request_ok_def)
    then have "push i \<and> length (msg i) < MULTI_PART" using ij(4) sn [OF T(1)] sn [OF T(2)] by (auto split: if_splits)
    then show "slotless (of_fd i qs)" unfolding qs [OF T(1)] by (simp add: slotless_def requests_of_def slot_steps)
  qed simp
  moreover have "slot_run (of_fd i qs) (Map.empty (?sess i)) = Some ([dispatched (addr i) (of_int (session i)) (msg i) (push i)], None)"
    if "i \<in> fst ` set qs" for i
    using that slot_run_request ok [of i] qs [of i] tags_qs by (simp add: request_ok_def)
  ultimately show ?thesis
    using agent_requests_mixed [of qs ?sess Map.empty "\<lambda>i. [dispatched (addr i) (of_int (session i)) (msg i) (push i)]"]
    by (auto simp: run tags_qs)
qed

text \<open>
  (C10) Nodes of a cluster send requests and pushes over one connection: \<^verbatim>\<open>packrequest\<close> makes the packages of each, several for a message of 32 KB
  or more, and those of different requests may be mixed as long as the sessions differ. The connection cuts their bytes
  anywhere; the Lua gate puts the packages together again and the agent the messages. Every message, up to 2 GB, is dispatched
  exactly once with its address, its session (0 for a short push) and its bytes, and no part of a request is left over.
\<close>

theorem cluster_requests_arrive:
  assumes "\<forall>i\<in>T. request_ok (addr i) (session i) (msg i) \<and> request_packages (addr i) (session i) (msg i) (push i) = Some (of_fd i ps)"
    and "\<forall>i\<in>T. \<forall>j\<in>T. i \<noteq> j \<longrightarrow> session i \<noteq> session j" and "fst ` set ps = T"
    and "\<forall>c\<in>set cuts. data_ok c" and "concat (of_fd fd cuts) = concat (map snd ps)"
  shows "\<exists>out st outs. receive_all cuts None = Some (out, st) \<and> agent_packages (of_fd fd out) Map.empty = Some (map snd outs, Map.empty) \<and>
    (\<forall>i. of_fd i outs = (if i \<in> T then [dispatched (addr i) (of_int (session i)) (msg i) (push i)] else []))"
proof -
  define bodies where "bodies = map (apsnd (drop 2)) ps"
  have ok: "request_ok (addr i) (session i) (msg i)" if "i \<in> T" for i using assms(1) that by blast
  have fr: "of_fd i ps = map framed (request_bodies (addr i) (of_int (session i)) (msg i) (push i))" if "i \<in> T" for i
    using assms(1) request_packages_bodies [OF ok [OF that], of "push i"] that by auto
  have "drop 2 \<circ> framed = (\<lambda>b. b)" by (rule ext) (simp add: framed_def)
  then have b: "of_fd i bodies = request_bodies (addr i) (of_int (session i)) (msg i) (push i)" if "i \<in> T" for i
    by (simp add: bodies_def of_fd_map fr [OF that])
  have p: "framed (drop 2 (snd q)) = snd q" "length (drop 2 (snd q)) < 2 ^ 16" if "q \<in> set ps" for q
  proof -
    have T: "fst q \<in> T" "snd q \<in> set (of_fd (fst q) ps)" using that assms(3) by (auto simp: of_fd_in)
    then obtain c where "snd q = framed c" "c \<in> set (request_bodies (addr (fst q)) (of_int (session (fst q))) (msg (fst q)) (push (fst q)))"
      using fr by auto
    with request_bodies_short ok [OF T(1)] show "framed (drop 2 (snd q)) = snd q" "length (drop 2 (snd q)) < 2 ^ 16"
      by (auto simp: framed_def request_ok_def)
  qed
  have st: "concat (map snd ps) = concat (map (\<lambda>m. write_size (length m) @ m) (map snd bodies))"
    using p(1) by (simp add: bodies_def comp_def framed_def [symmetric] cong: map_cong)
  have n: "np_holds None []" "pending None fd = []" for fd by (simp_all add: np_holds_def pending_def)
  from receive_all_holds [OF n(1), of cuts] assms(4) obtain out st where
    r: "receive_all cuts None = Some (out, st)" "of_fd fd out = packets (concat (of_fd fd cuts))" by (auto simp: n(2))
  have "frames 2 read_size (concat (map (\<lambda>m. write_size (length m) @ m) (map snd bodies))) = (map snd bodies, [])"
    by (rule lpack_packets) (use p(2) in \<open>auto simp: bodies_def\<close>)
  then have arrived: "of_fd fd out = map snd bodies" by (simp only: r(2) assms(5) st fst_conv)
  have "fst ` set bodies = T" using assms(3) by (simp add: bodies_def image_image)
  then obtain outs where "agent_packages (map snd bodies) Map.empty = Some (map snd outs, Map.empty)"
      "\<forall>i. of_fd i outs = (if i \<in> T then [dispatched (addr i) (of_int (session i)) (msg i) (push i)] else [])"
    using agent_mixed [OF ok _ _ b] assms(2) by metis
  then show ?thesis using r(1) by (intro exI [of _ out] exI [of _ st] exI [of _ outs]) (simp add: arrived)
qed

lemma cluster_requests_arrive_witness:
  "\<exists>out st outs. receive_all [(3, [0, 9, 0x80]), (3, [2, 97, 98, 0, 0, 0, 0, 5, 0, 10, 0, 7, 0, 0]), (3, [0, 1, 0, 0, 0, 9])] None = Some (out, st) \<and>
     agent_packages (of_fd 3 out) Map.empty = Some (map snd outs, Map.empty) \<and>
     of_fd 0 outs = [Dispatch (Some (Addr_id 7)) 1 [9] False] \<and> of_fd 1 outs = [Dispatch (Some (Addr_name [97, 98])) 0 [5] True]"
proof -
  let ?addr = "\<lambda>i :: int. if i = 0 then Addr_id 7 else Addr_name [97, 98]" and ?s = "\<lambda>i :: int. if i = 0 then 1 else 2 :: int"
  let ?msg = "\<lambda>i :: int. if i = 0 then [9] else [5 :: u8]" and ?push = "\<lambda>i :: int. i \<noteq> 0"
  let ?cuts = "[(3, [0, 9, 0x80]), (3, [2, 97, 98, 0, 0, 0, 0, 5, 0, 10, 0, 7, 0, 0]), (3, [0, 1, 0, 0, 0, 9 :: u8])]"
  let ?p0 = "[0, 10, 0, 7, 0, 0, 0, 1, 0, 0, 0, 9] :: u8 list" and ?p1 = "[0, 9, 0x80, 2, 97, 98, 0, 0, 0, 0, 5] :: u8 list"
  have "request_packages (Addr_id 7) 1 [9] False = Some [?p0]" "request_packages (Addr_name [97, 98]) 2 [5] True = Some [?p1]"
    by (subst request_packages_bodies; simp add: request_ok_def addr_ok_def INT_MAX_def request_bodies_def addr_bytes_def addr_type_def
        framed_def write_size_def fill_uint32_def MULTI_PART_def)+
  then have "\<forall>i\<in>{0, 1 :: int}. request_ok (?addr i) (?s i) (?msg i) \<and>
      request_packages (?addr i) (?s i) (?msg i) (?push i) = Some (of_fd i [(1, ?p1), (0, ?p0)])"
    by (simp add: request_ok_def addr_ok_def INT_MAX_def)
  moreover have "\<forall>c\<in>set ?cuts. data_ok c"
    by (simp add: data_ok_def fd_ok_def np_limit_def INT_MAX_def)
  ultimately obtain out st outs where "receive_all ?cuts None = Some (out, st)"
      "agent_packages (of_fd 3 out) Map.empty = Some (map snd outs, Map.empty)"
      "\<forall>i. of_fd i outs = (if i \<in> {0, 1} then [dispatched (?addr i) (of_int (?s i)) (?msg i) (?push i)] else [])"
    using cluster_requests_arrive [of "{0, 1}" ?addr ?s ?msg ?push "[(1, ?p1), (0, ?p0)]" ?cuts 3] by (auto simp del: receive_all.simps)
  moreover from this(3) have "of_fd 0 outs = [Dispatch (Some (Addr_id 7)) 1 [9] False]" "of_fd 1 outs = [Dispatch (Some (Addr_name [97, 98])) 0 [5] True]"
    by (simp_all add: dispatched_def MULTI_PART_def)
  ultimately show ?thesis by blast
qed

section \<open>Responses\<close>

text \<open>What the node that asked reads of the packages of a response.\<close>

definition response_packages :: "u32 \<Rightarrow> bool \<Rightarrow> u8 list \<Rightarrow> u8 list list option" where
  "response_packages session ok msg = map_option (case_sum (\<lambda>p. [p]) (\<lambda>ps. ps)) (lpackresponse session ok msg)"

text \<open>The results of a response in parts are collected in a table (\<^verbatim>\<open>lualib/skynet/socketchannel.lua\<close>) for \<^verbatim>\<open>lconcat\<close>.\<close>

definition collected :: "(u32 \<times> bool \<times> (u8 list + u32) \<times> bool) list \<Rightarrow> lua_value list" where
  "collected rs = fold (\<lambda>(session, ok, m, padding) t. lappend t m) rs []"

fun response_results :: "nat \<Rightarrow> u32 \<Rightarrow> u8 list \<Rightarrow> (u32 \<times> bool \<times> (u8 list + u32) \<times> bool) list" where
  "response_results 0 session msg = []"
| "response_results (Suc n) session msg =
     (session, True, Inl (take MULTI_PART msg), length msg > MULTI_PART) # response_results n session (drop MULTI_PART msg)"

lemma response_package_framed:
  "length bs \<le> MULTI_PART \<Longrightarrow> response_package session t bs = Some (framed (fill_uint32 session @ [t] @ bs))"
  unfolding response_package_def by (rule package_framed) (simp_all add: MULTI_PART_def TEMP_LENGTH_def)

lemma unpack_response:
  "lunpackresponse (fill_uint32 session @ [t] @ bs) =
     (if t = 0 then Some (session, False, Inl bs, False)
      else if t = 1 \<or> t = 4 then Some (session, True, Inl bs, False)
      else if t = 2 then (if length bs \<noteq> 4 then None else Some (session, True, Inr (unpack_uint32 (fill_uint32 session @ [t] @ bs) 5), True))
      else if t = 3 then Some (session, True, Inl bs, True)
      else None)"
  using unpack_at [of 0 "[]" session "[t] @ bs"] by (simp add: lunpackresponse_def Let_def nth_append)

lemma response_parts_results:
  "\<exists>ps. response_parts n session msg = Some ps \<and> map (\<lambda>p. lunpackresponse (drop 2 p)) ps = map Some (response_results n session msg)"
proof (induction n session msg rule: response_results.induct)
  case (2 n session msg)
  let ?t = "if length msg > MULTI_PART then 3 else 4 :: u8"
  have d: "drop 2 (framed b) = b" for b by (simp add: framed_def)
  have "response_package session ?t (take MULTI_PART msg) = Some (framed (fill_uint32 session @ [?t] @ take MULTI_PART msg))"
    by (rule response_package_framed) simp
  moreover have "lunpackresponse (drop 2 (framed (fill_uint32 session @ [?t] @ take MULTI_PART msg))) =
      Some (session, True, Inl (take MULTI_PART msg), length msg > MULTI_PART)"
    unfolding d unpack_response by simp
  ultimately show ?case using 2 by (cases "length msg > MULTI_PART") auto
qed simp

fun chunks :: "nat \<Rightarrow> u8 list \<Rightarrow> u8 list list" where
  "chunks 0 msg = []"
| "chunks (Suc n) msg = take MULTI_PART msg # chunks n (drop MULTI_PART msg)"

lemma collected_results:
  "fold (\<lambda>(session, ok, m, padding) t. lappend t m) (response_results n session msg) (LInt k # map LString qs) =
     LInt k # map LString (qs @ chunks n msg)"
proof (induction n session msg arbitrary: qs rule: response_results.induct)
  case (2 n session msg)
  from 2 [of "qs @ [take MULTI_PART msg]"] show ?case by (simp add: lappend_def)
qed simp

lemma response_flags:
  "n = part_count (length msg) \<Longrightarrow> map (\<lambda>r. snd (snd (snd r))) (response_results n session msg) = replicate (n - 1) True @ [False]"
proof (induction n session msg rule: response_results.induct)
  case (2 n session msg)
  show ?case
  proof (cases "length msg > MULTI_PART")
    case True
    with 2(2) have "n = part_count (length (drop MULTI_PART msg))" using part_count_more by simp
    moreover from this have "replicate n True = True # replicate (n - 1) True" by (cases n) (simp_all add: part_count_def)
    ultimately show ?thesis using True 2(1) by simp
  next
    case False
    then show ?thesis using 2(2) part_count_last by simp
  qed
qed (simp add: part_count_def)

lemma response_results_length [simp]: "length (response_results n session msg) = n"
  by (induction n session msg rule: response_results.induct) simp_all

lemma concat_chunks: "n = part_count (length msg) \<Longrightarrow> concat (chunks n msg) = msg"
proof (induction n msg rule: chunks.induct)
  case (2 n msg)
  then show ?case using part_count_more [of "length msg"] part_count_last [of "length msg"]
    by (cases "length msg > MULTI_PART") simp_all
qed (simp add: part_count_def)

text \<open>
  (C37) The answer to a request comes back: \<^verbatim>\<open>packresponse\<close> makes one package, or several for a good answer of more than 32 KB, and what
  \<^verbatim>\<open>unpackresponse\<close> reads of their contents is the session, whether it went well, and the message; the results in parts
  collect to the message, up to 2 GB. Only an error message of more than 32 KB is cut off there.
\<close>

theorem cluster_response_returns:
  assumes "length msg \<le> INT_MAX"
  shows "if ok \<and> length msg > MULTI_PART
    then \<exists>ps rs. lpackresponse session ok msg = Some (Inr ps) \<and> map (\<lambda>p. lunpackresponse (drop 2 p)) ps = map Some rs \<and>
      (\<forall>r\<in>set rs. fst r = session \<and> fst (snd r)) \<and> map (\<lambda>r. snd (snd (snd r))) rs = replicate (length rs - 1) True @ [False] \<and>
      lconcat (collected rs) = Some (Some msg)
    else \<exists>p. lpackresponse session ok msg = Some (Inl p) \<and> lunpackresponse (drop 2 p) = Some (session, ok, Inl (take MULTI_PART msg), False)"
proof (cases "ok \<and> length msg > MULTI_PART")
  case True
  let ?n = "part_count (length msg)"
  let ?h = "fill_uint32 (of_nat (length msg))"
  obtain ps where ps: "response_parts ?n session msg = Some ps" "map (\<lambda>p. lunpackresponse (drop 2 p)) ps = map Some (response_results ?n session msg)"
    using response_parts_results by blast
  have u: "unpack_uint32 (fill_uint32 session @ [2] @ ?h) 5 = of_nat (length msg)"
    using unpack_at [of 5 "fill_uint32 session @ [2]" "of_nat (length msg)" "[]"] by simp
  have "response_package session 2 ?h = Some (framed (fill_uint32 session @ [2] @ ?h))"
    by (rule response_package_framed) (simp add: MULTI_PART_def)
  moreover have "lunpackresponse (drop 2 (framed (fill_uint32 session @ [2] @ ?h))) = Some (session, True, Inr (of_nat (length msg)), True)"
    unfolding framed_def using unpack_response [of session 2 ?h] u by simp
  moreover have "lconcat (collected ((session, True, Inr (of_nat (length msg)), True) # response_results ?n session msg)) = Some (Some msg)"
    using collected_results [of ?n session msg "ucast (of_nat (length msg) :: u32)" "[]"] lconcat_strings [of _ "chunks ?n msg"]
      size_field [OF assms] concat_chunks [of ?n msg]
    by (simp add: collected_def lappend_def)
  moreover have "\<forall>r\<in>set (response_results n session msg). fst r = session \<and> fst (snd r)" for n msg
    by (induction n session msg rule: response_results.induct) auto
  moreover have "map (\<lambda>r. snd (snd (snd r))) (response_results ?n session msg) = replicate (?n - 1) True @ [False]" "?n \<noteq> 0"
    using response_flags by (auto simp: part_count_def)
  ultimately show ?thesis unfolding if_P [OF True]
    using True ps
    by (intro exI [of _ "framed (fill_uint32 session @ [2] @ ?h) # ps"]
        exI [of _ "(session, True, Inr (of_nat (length msg)), True) # response_results ?n session msg"])
      (cases ?n; simp add: lpackresponse_def Let_def)
next
  case False
  let ?m = "take MULTI_PART msg"
  have "response_package session (if ok then 1 else 0) ?m = Some (framed (fill_uint32 session @ [if ok then 1 else 0] @ ?m))"
    by (rule response_package_framed) simp
  moreover have "lunpackresponse (fill_uint32 session @ [if ok then 1 else 0] @ ?m) = Some (session, ok, Inl ?m, False)"
    unfolding unpack_response by simp
  ultimately show ?thesis unfolding if_not_P [OF False]
    using False by (intro exI [of _ "framed (fill_uint32 session @ [if ok then 1 else 0] @ ?m)"]) (auto simp: lpackresponse_def Let_def framed_def)
qed

lemma cluster_response_returns_witness:
  "\<exists>p. lpackresponse 5 True [1, 2] = Some (Inl p) \<and> lunpackresponse (drop 2 p) = Some (5, True, Inl [1, 2], False)"
  using cluster_response_returns [of "[1, 2]" True 5] by (simp add: MULTI_PART_def INT_MAX_def)

end
