(* ===== verification/SocketServer.thy ===== *)
theory SocketServer
  imports Cstring
begin

text \<open>
  The sockets of the socket thread (\<^verbatim>\<open>skynet-src/socket_server.c\<close> with \<^verbatim>\<open>socket_epoll.h\<close>): the table of sockets, the lists of data to
  send, and what the socket thread does with a request.

  The kernel is a script: each call takes the next answer from the list of its kind, and an empty list answers that the call would
  block, or that it went well. So every finite run of the code is a run of the model for some script. What the calls did is
  logged in order. Descriptors in use are distinct, so the interest of epoll is kept with the slot of the socket, and data
  written is logged with the id of the socket. The text on stderr is not modelled.
\<close>

section \<open>Data\<close>

definition MAX_SOCKET_P :: nat where "MAX_SOCKET_P = 16"
definition MAX_SOCKET :: nat where "MAX_SOCKET = 2 ^ MAX_SOCKET_P"
definition MAX_EVENT :: nat where "MAX_EVENT = 64"
definition MIN_READ_BUFFER :: nat where "MIN_READ_BUFFER = 64"
definition MAX_UDP_PACKAGE :: nat where "MAX_UDP_PACKAGE = 65535"
definition WARNING_SIZE :: int where "WARNING_SIZE = 1024 * 1024"

datatype sock_type = T_INVALID | T_RESERVE | T_PLISTEN | T_LISTEN | T_CONNECTING | T_CONNECTED | T_HALFCLOSE | T_PACCEPT | T_BIND

definition PROTOCOL_TCP :: u8 where "PROTOCOL_TCP = 0"
definition PROTOCOL_UDP :: u8 where "PROTOCOL_UDP = 1"
definition PROTOCOL_UDPv6 :: u8 where "PROTOCOL_UDPv6 = 2"
definition PROTOCOL_UNKNOWN :: u8 where "PROTOCOL_UNKNOWN = 255"

lemmas protocol_defs = PROTOCOL_TCP_def PROTOCOL_UDP_def PROTOCOL_UDPv6_def PROTOCOL_UNKNOWN_def

definition HASH_ID :: "int \<Rightarrow> nat" where "HASH_ID sid = nat (sid mod 2 ^ 32) mod MAX_SOCKET"
definition ID_TAG16 :: "int \<Rightarrow> u32" where "ID_TAG16 sid = of_int (sid div 2 ^ MAX_SOCKET_P mod 2 ^ 16)"

text \<open>What a caller passes to be sent: an address and a size, with the bytes found there; a negative size marks an object, whose bytes the registered
  interface shows.\<close>

record payload =
  pl_buffer :: ptr
  pl_sz :: int
  pl_bytes :: "u8 list"

record object_interface =
  soi_buffer :: "ptr \<Rightarrow> ptr"
  soi_bytes :: "ptr \<Rightarrow> u8 list"

text \<open>The bytes from \<^verbatim>\<open>ptr\<close> are part of the buffer; a buffer for TCP is allocated without the room for an address.\<close>

record write_buffer =
  wb_buffer :: ptr
  wb_ptr :: ptr
  wb_bytes :: "u8 list"
  wb_userobject :: bool
  wb_address :: "u8 list option"

record socket_stat =
  rtime :: u64
  wtime :: u64
  st_read :: u64
  st_write :: u64

record socket =
  s_opaque :: u64
  s_high :: "write_buffer list"
  s_low :: "write_buffer list"
  wb_size :: int
  stat :: socket_stat
  sending :: u32
  s_fd :: int
  s_id :: int
  protocol :: u8
  s_type :: sock_type
  udpconnecting :: u16
  warn_size :: int
  p_size :: nat
  p_address :: "u8 list"
  dw_offset :: nat
  dw_buffer :: "payload option"

text \<open>The requests in the pipe to the socket thread.\<close>

datatype request =
    Req_start int u64
  | Req_bind int int u64
  | Req_listen int int u64
  | Req_close int bool u64
  | Req_open int int u64 string
  | Req_exit
  | Req_send int payload
  | Req_send_low int payload
  | Req_send_udp int payload "u8 list"
  | Req_setopt int int int
  | Req_udp int int bool u64
  | Req_setudp int "u8 list"

record event =
  e_s :: "nat option"
  e_read :: bool
  e_write :: bool
  e_error :: bool
  e_eof :: bool

subsection \<open>The kernel\<close>

datatype sys_error = EINTR | EAGAIN | EINPROGRESS | EMFILE | ENFILE | Errno string

text \<open>The port and the address, in the order of the network.\<close>

datatype sockaddr = V4 "u8 list" "u8 list" | V6 "u8 list" "u8 list"

record answers =
  a_write :: "(sys_error + nat) list"
  a_read :: "(sys_error + u8 list) list"
  a_recvfrom :: "(sys_error + u8 list \<times> sockaddr) list"
  a_accept :: "(sys_error + int \<times> sockaddr) list"
  a_sp_add :: "sys_error option list"
  a_so_error :: "(sys_error + sys_error option) list"
  a_getpeername :: "sockaddr option list"
  a_wait :: "(sys_error + event list) list"
  a_resolve :: "(string + sockaddr list) list"
  a_socket :: "(sys_error + int) list"
  a_connect :: "sys_error option list"
  a_trylock :: "bool list"
  a_ntop :: "sockaddr \<Rightarrow> string option"
  a_strerror :: "sys_error \<Rightarrow> string"

datatype os_call =
    Write int "u8 list"
  | Sendto int sockaddr "u8 list"
  | Close int
  | Free ptr
  | Free_object ptr
  | Setsockopt int int int

text \<open>The server. \<^verbatim>\<open>epoll\<close> holds the registered slots and whether they wait for writing.\<close>

record socket_server =
  ss_time :: u64
  checkctrl :: bool
  alloc_id :: u32
  event_index :: nat
  ev :: "event list"
  soi :: "object_interface option"
  slot :: "nat \<Rightarrow> socket"
  pipe :: "request list"
  epoll :: "nat \<Rightarrow> bool option"
  calls :: "os_call list"
  answers :: answers

definition log_call :: "os_call \<Rightarrow> socket_server \<Rightarrow> socket_server" where
  "log_call c ss = ss\<lparr>calls := calls ss @ [c]\<rparr>"

definition set_slot :: "nat \<Rightarrow> (socket \<Rightarrow> socket) \<Rightarrow> socket_server \<Rightarrow> socket_server" where
  "set_slot i f ss = ss\<lparr>slot := (slot ss)(i := f (slot ss i))\<rparr>"

text \<open>\<^verbatim>\<open>write\<close> may be interrupted before it wrote anything, and never writes more than it was given.\<close>

fun retry_write :: "nat \<Rightarrow> (sys_error + nat) list \<Rightarrow> (sys_error + nat) \<times> (sys_error + nat) list" where
  "retry_write sz [] = (Inl EAGAIN, [])"
| "retry_write sz (Inl e # as) = (if e = EINTR then retry_write sz as else (Inl e, as))"
| "retry_write sz (Inr n # as) = (Inr (min n sz), as)"

definition once_write :: "nat \<Rightarrow> (sys_error + nat) list \<Rightarrow> (sys_error + nat) \<times> (sys_error + nat) list" where
  "once_write sz as = (case as of [] \<Rightarrow> (Inl EAGAIN, []) | Inl e # as \<Rightarrow> (Inl e, as) | Inr n # as \<Rightarrow> (Inr (min n sz), as))"

definition next_answer :: "'a \<Rightarrow> 'a list \<Rightarrow> 'a \<times> 'a list" where
  "next_answer a as = (case as of [] \<Rightarrow> (a, []) | b # bs \<Rightarrow> (b, bs))"

subsection \<open>socket\_epoll.h\<close>

definition sp_add :: "nat \<Rightarrow> socket_server \<Rightarrow> sys_error option \<times> socket_server" where
  "sp_add i ss = (case next_answer None (a_sp_add (answers ss)) of (r, as) \<Rightarrow>
     (let ss = ss\<lparr>answers := (answers ss)\<lparr>a_sp_add := as\<rparr>\<rparr> in
      (r, if r = None then ss\<lparr>epoll := (epoll ss)(i \<mapsto> False)\<rparr> else ss)))"

definition sp_del :: "nat \<Rightarrow> socket_server \<Rightarrow> socket_server" where
  "sp_del i ss = ss\<lparr>epoll := (epoll ss)(i := None)\<rparr>"

text \<open>The change fails when the descriptor is not registered.\<close>

definition sp_write :: "nat \<Rightarrow> bool \<Rightarrow> socket_server \<Rightarrow> socket_server" where
  "sp_write i enable ss = ss\<lparr>epoll := (epoll ss)(i := map_option (\<lambda>_. enable) (epoll ss i))\<rparr>"

text \<open>The kernel reports a registered descriptor once, and the pipe as the event without a socket; what it reports is what the
  descriptor is registered for, errors and the end of a connection, so a socket is reported writable only when that was asked for. A wait
  without an end is never answered with no event; the model lets that be.\<close>

definition reportable :: "socket_server \<Rightarrow> event \<Rightarrow> bool" where
  "reportable ss e = (case e_s e of None \<Rightarrow> True | Some i \<Rightarrow> (case epoll ss i of None \<Rightarrow> False | Some w \<Rightarrow> e_write e \<longrightarrow> w))"

fun once_each :: "event list \<Rightarrow> event list" where
  "once_each [] = []"
| "once_each (e # es) = e # once_each (filter (\<lambda>f. e_s f \<noteq> e_s e) es)"

definition sp_wait :: "socket_server \<Rightarrow> (sys_error + event list) \<times> socket_server" where
  "sp_wait ss = (case next_answer (Inl EINTR) (a_wait (answers ss)) of (r, as) \<Rightarrow>
     (map_sum (\<lambda>e. e) (\<lambda>es. map (\<lambda>e. e\<lparr>e_eof := False\<rparr>) (take MAX_EVENT (once_each (filter (reportable ss) es)))) r,
      ss\<lparr>answers := (answers ss)\<lparr>a_wait := as\<rparr>\<rparr>))"

section \<open>Buffers\<close>

text \<open>Address, bytes and whether it is an object.\<close>

definition send_object_init :: "socket_server \<Rightarrow> payload \<Rightarrow> (ptr \<times> u8 list \<times> bool) option" where
  "send_object_init ss pl = (if pl_sz pl < 0
     then do { f \<leftarrow> soi ss; Some (soi_buffer f (pl_buffer pl), soi_bytes f (pl_buffer pl), True) }
     else Some (pl_buffer pl, pl_bytes pl, False))"

definition free_func :: "ptr \<Rightarrow> bool \<Rightarrow> socket_server \<Rightarrow> socket_server" where
  "free_func p user = log_call (if user then Free_object p else Free p)"

definition write_buffer_free :: "write_buffer \<Rightarrow> socket_server \<Rightarrow> socket_server" where
  "write_buffer_free wb = free_func (wb_buffer wb) (wb_userobject wb)"

fun free_wb_list :: "write_buffer list \<Rightarrow> socket_server \<Rightarrow> socket_server" where
  "free_wb_list [] ss = ss"
| "free_wb_list (wb # wbs) ss = free_wb_list wbs (write_buffer_free wb ss)"

definition free_buffer :: "payload \<Rightarrow> socket_server \<Rightarrow> socket_server option" where
  "free_buffer pl ss = do { (a, bs, user) \<leftarrow> send_object_init ss pl; Some (free_func (pl_buffer pl) user ss) }"

definition list_uncomplete :: "write_buffer list \<Rightarrow> bool" where
  "list_uncomplete l = (case l of [] \<Rightarrow> False | wb # _ \<Rightarrow> wb_ptr wb \<noteq> wb_buffer wb)"

definition send_buffer_empty :: "socket \<Rightarrow> bool" where
  "send_buffer_empty s \<longleftrightarrow> s_high s = [] \<and> s_low s = []"

definition nomore_sending_data :: "socket \<Rightarrow> bool" where
  "nomore_sending_data s \<longleftrightarrow> send_buffer_empty s \<and> dw_buffer s = None \<and> sending s AND 0xffff = 0"

definition stat_write :: "nat \<Rightarrow> nat \<Rightarrow> socket_server \<Rightarrow> socket_server" where
  "stat_write i n ss = set_slot i (\<lambda>s. s\<lparr>stat := (stat s)\<lparr>st_write := st_write (stat s) + of_nat n, wtime := ss_time ss\<rparr>\<rparr>) ss"

definition stat_read :: "nat \<Rightarrow> nat \<Rightarrow> socket_server \<Rightarrow> socket_server" where
  "stat_read i n ss = set_slot i (\<lambda>s. s\<lparr>stat := (stat s)\<lparr>st_read := st_read (stat s) + of_nat n, rtime := ss_time ss\<rparr>\<rparr>) ss"

section \<open>Sockets\<close>

datatype sm_data = Null | Text string | Buffer "u8 list"

record sock_message =
  sm_id :: int
  sm_opaque :: u64
  sm_ud :: int
  sm_data :: sm_data

datatype event_kind = SOCKET_DATA | SOCKET_CLOSE | SOCKET_OPEN | SOCKET_ACCEPT | SOCKET_ERR | SOCKET_EXIT | SOCKET_UDP | SOCKET_WARNING

text \<open>The result of a step of the socket thread: None for -1.\<close>

type_synonym poll_result = "(event_kind \<times> sock_message) option"

text \<open>The bounded loop of \<^verbatim>\<open>reserve_id\<close>. The counter wraps, and its sign bit is cleared; no other thread comes in between.\<close>

primrec reserve_scan :: "nat \<Rightarrow> socket_server \<Rightarrow> int \<times> socket_server" where
  "reserve_scan 0 ss = (-1, ss)"
| "reserve_scan (Suc n) ss = (let a = alloc_id ss + 1; a = (if sint a < 0 then a AND 0x7fffffff else a); sid = sint a;
     ss = ss\<lparr>alloc_id := a\<rparr> in
     if s_type (slot ss (HASH_ID sid)) = T_INVALID
     then (sid, set_slot (HASH_ID sid) (\<lambda>s. s\<lparr>s_type := T_RESERVE, s_id := sid, protocol := PROTOCOL_UNKNOWN, udpconnecting := 0, s_fd := -1\<rparr>) ss)
     else reserve_scan n ss)"

definition reserve_id :: "socket_server \<Rightarrow> int \<times> socket_server" where
  "reserve_id = reserve_scan MAX_SOCKET"

text \<open>A new server; the memory of the slots is not cleared otherwise.\<close>

definition socket_server_create :: "(nat \<Rightarrow> socket) \<Rightarrow> answers \<Rightarrow> u64 \<Rightarrow> socket_server" where
  "socket_server_create memory as time = \<lparr>ss_time = time, checkctrl = True, alloc_id = 0, event_index = 0, ev = [], soi = None,
     slot = (\<lambda>i. (memory i)\<lparr>s_type := T_INVALID, s_high := [], s_low := []\<rparr>), pipe = [], epoll = Map.empty, calls = [], answers = as\<rparr>"

definition socket_server_updatetime :: "u64 \<Rightarrow> socket_server \<Rightarrow> socket_server" where
  "socket_server_updatetime time ss = ss\<lparr>ss_time := time\<rparr>"

definition message_of :: "socket \<Rightarrow> sock_message" where
  "message_of s = \<lparr>sm_id = s_id s, sm_opaque = s_opaque s, sm_ud = 0, sm_data = Null\<rparr>"

definition force_close :: "nat \<Rightarrow> socket_server \<Rightarrow> (sock_message \<times> socket_server) option" where
  "force_close i ss = (let s = slot ss i; result = message_of s in
     if s_type s = T_INVALID then Some (result, ss)
     else do {
       c_assert (s_type s \<noteq> T_RESERVE);
       let ss = set_slot i (\<lambda>s. s\<lparr>s_high := []\<rparr>) (free_wb_list (s_high s) ss);
       let ss = set_slot i (\<lambda>s. s\<lparr>s_low := []\<rparr>) (free_wb_list (s_low s) ss);
       let ss = (if s_type s \<noteq> T_PACCEPT \<and> s_type s \<noteq> T_PLISTEN then sp_del i ss else ss);
       let ss = (if s_type s \<noteq> T_BIND then log_call (Close (s_fd s)) ss else ss);
       let ss = set_slot i (\<lambda>s. s\<lparr>s_type := T_INVALID\<rparr>) ss;
       ss \<leftarrow> (case dw_buffer s of None \<Rightarrow> Some ss
         | Some pl \<Rightarrow> map_option (set_slot i (\<lambda>s. s\<lparr>dw_buffer := None\<rparr>)) (free_buffer pl ss));
       Some (result, ss) })"

text \<open>\<^verbatim>\<open>new_fd\<close> gives NULL (False) when the descriptor cannot be registered.\<close>

definition new_fd :: "int \<Rightarrow> int \<Rightarrow> u8 \<Rightarrow> u64 \<Rightarrow> bool \<Rightarrow> socket_server \<Rightarrow> (bool \<times> socket_server) option" where
  "new_fd sid fd proto opaque add ss = (let i = HASH_ID sid in do {
     c_assert (s_type (slot ss i) = T_RESERVE);
     let (err, ss) = (if add then sp_add i ss else (None, ss));
     if err \<noteq> None then Some (False, set_slot i (\<lambda>s. s\<lparr>s_type := T_INVALID\<rparr>) ss)
     else do {
       c_assert (s_high (slot ss i) = [] \<and> s_low (slot ss i) = []);
       Some (True, set_slot i (\<lambda>s. s\<lparr>s_id := sid, s_fd := fd, sending := push_bit 16 (ID_TAG16 sid), protocol := proto,
         p_size := MIN_READ_BUFFER, s_opaque := opaque, wb_size := 0, warn_size := 0, dw_buffer := None,
         stat := \<lparr>rtime = 0, wtime = 0, st_read = 0, st_write = 0\<rparr>\<rparr>) ss) } })"

fun release_slots :: "nat \<Rightarrow> socket_server \<Rightarrow> socket_server option" where
  "release_slots 0 ss = Some ss"
| "release_slots (Suc n) ss = do {
     ss \<leftarrow> release_slots n ss;
     if s_type (slot ss n) \<noteq> T_RESERVE then map_option snd (force_close n ss) else Some ss }"

text \<open>The end of the server: the sockets in the order of their slots, then the memory of the server.\<close>

definition socket_server_release :: "socket_server \<Rightarrow> socket_server option" where
  "socket_server_release = release_slots MAX_SOCKET"

end
