(* ===== verification/SocketOps.thy ===== *)
theory SocketOps
  imports SocketServer
begin

text \<open>
  What the socket thread does with data to send, with a request, and with an event of a socket (\<^verbatim>\<open>skynet-src/socket_server.c\<close>).
\<close>

section \<open>Sending\<close>

definition wb_list :: "bool \<Rightarrow> socket \<Rightarrow> write_buffer list" where
  "wb_list high s = (if high then s_high s else s_low s)"

definition set_wb_list :: "bool \<Rightarrow> nat \<Rightarrow> write_buffer list \<Rightarrow> socket_server \<Rightarrow> socket_server" where
  "set_wb_list high i l = set_slot i (\<lambda>s. if high then s\<lparr>s_high := l\<rparr> else s\<lparr>s_low := l\<rparr>)"

definition add_wb_size :: "nat \<Rightarrow> int \<Rightarrow> socket_server \<Rightarrow> socket_server" where
  "add_wb_size i n = set_slot i (\<lambda>s. s\<lparr>wb_size := wb_size s + n\<rparr>)"

text \<open>One \<^verbatim>\<open>write\<close>, without or with the loop for EINTR.\<close>

definition sys_write :: "bool \<Rightarrow> nat \<Rightarrow> u8 list \<Rightarrow> socket_server \<Rightarrow> (sys_error + nat) \<times> socket_server" where
  "sys_write retry i bs ss = (case (if retry then retry_write else once_write) (length bs) (a_write (answers ss)) of (r, as) \<Rightarrow>
     (r, (case r of Inl e \<Rightarrow> (\<lambda>ss. ss) | Inr n \<Rightarrow> log_call (Write (s_id (slot ss i)) (take n bs)))
       (ss\<lparr>answers := (answers ss)\<lparr>a_write := as\<rparr>\<rparr>)))"

definition sys_sendto :: "nat \<Rightarrow> sockaddr \<Rightarrow> u8 list \<Rightarrow> socket_server \<Rightarrow> (sys_error + nat) \<times> socket_server" where
  "sys_sendto i sa bs ss = (case once_write (length bs) (a_write (answers ss)) of (r, as) \<Rightarrow>
     (r, (case r of Inl e \<Rightarrow> (\<lambda>ss. ss) | Inr n \<Rightarrow> log_call (Sendto (s_id (slot ss i)) sa bs))
       (ss\<lparr>answers := (answers ss)\<lparr>a_write := as\<rparr>\<rparr>)))"

text \<open>The list is the one at \<^verbatim>\<open>list->head\<close>; the slot is updated as the code goes.\<close>

fun send_list_tcp :: "bool \<Rightarrow> nat \<Rightarrow> write_buffer list \<Rightarrow> socket_server \<Rightarrow> (poll_result \<times> socket_server) option" where
  "send_list_tcp high i [] ss = Some (None, ss)"
| "send_list_tcp high i (tmp # wbs) ss = (let (r, ss) = sys_write True i (wb_bytes tmp) ss in case r of
     Inl e \<Rightarrow> if e = EAGAIN then Some (None, ss)
       else do { (m, ss) \<leftarrow> force_close i ss; Some (Some (SOCKET_CLOSE, m), ss) }
   | Inr n \<Rightarrow> (let ss = add_wb_size i (- int n) (stat_write i n ss) in
       if n \<noteq> length (wb_bytes tmp)
       then Some (None, set_wb_list high i (tmp\<lparr>wb_ptr := wb_ptr tmp + n, wb_bytes := drop n (wb_bytes tmp)\<rparr> # wbs) ss)
       else send_list_tcp high i wbs (write_buffer_free tmp (set_wb_list high i wbs ss))))"

definition udp_socket_address :: "socket \<Rightarrow> u8 list \<Rightarrow> sockaddr option" where
  "udp_socket_address s address = (if hd address \<noteq> protocol s then None
     else if protocol s = PROTOCOL_UDP then Some (V4 (take 2 (drop 1 address)) (take 4 (drop 3 address)))
     else if protocol s = PROTOCOL_UDPv6 then Some (V6 (take 2 (drop 1 address)) (take 16 (drop 3 address)))
     else None)"

definition drop_udp :: "bool \<Rightarrow> nat \<Rightarrow> write_buffer \<Rightarrow> write_buffer list \<Rightarrow> socket_server \<Rightarrow> socket_server" where
  "drop_udp high i tmp wbs ss = write_buffer_free tmp (set_wb_list high i wbs (add_wb_size i (- int (length (wb_bytes tmp))) ss))"

text \<open>Reading the address of a buffer that has no room for one is outside its memory.\<close>

fun send_list_udp :: "bool \<Rightarrow> nat \<Rightarrow> write_buffer list \<Rightarrow> socket_server \<Rightarrow> (poll_result \<times> socket_server) option" where
  "send_list_udp high i [] ss = Some (None, ss)"
| "send_list_udp high i (tmp # wbs) ss = do {
     address \<leftarrow> wb_address tmp;
     case udp_socket_address (slot ss i) address of
       None \<Rightarrow> Some (None, drop_udp high i tmp wbs ss)
     | Some sa \<Rightarrow> (let (r, ss) = sys_sendto i sa (wb_bytes tmp) ss in case r of
         Inl e \<Rightarrow> if e = EINTR \<or> e = EAGAIN then Some (None, ss) else Some (None, drop_udp high i tmp wbs ss)
       | Inr n \<Rightarrow> send_list_udp high i wbs (write_buffer_free tmp (set_wb_list high i wbs
           (add_wb_size i (- int (length (wb_bytes tmp))) (stat_write i (length (wb_bytes tmp)) ss))))) }"

definition send_list :: "bool \<Rightarrow> nat \<Rightarrow> socket_server \<Rightarrow> (poll_result \<times> socket_server) option" where
  "send_list high i ss = (if protocol (slot ss i) = PROTOCOL_TCP then send_list_tcp high i (wb_list high (slot ss i)) ss
     else send_list_udp high i (wb_list high (slot ss i)) ss)"

definition raise_uncomplete :: "nat \<Rightarrow> socket_server \<Rightarrow> socket_server option" where
  "raise_uncomplete i ss = (case s_low (slot ss i) of
     [] \<Rightarrow> None
   | tmp # low \<Rightarrow> do { c_assert (s_high (slot ss i) = []); Some (set_slot i (\<lambda>s. s\<lparr>s_low := low, s_high := [tmp]\<rparr>) ss) })"

text \<open>Step 4 of \<^verbatim>\<open>send_buffer_\<close>, when both lists are empty.\<close>

definition send_buffer_done :: "nat \<Rightarrow> socket_server \<Rightarrow> (poll_result \<times> socket_server) option" where
  "send_buffer_done i ss = do {
     c_assert (send_buffer_empty (slot ss i) \<and> wb_size (slot ss i) = 0);
     let ss = sp_write i False ss;
     let s = slot ss i;
     if s_type s = T_HALFCLOSE then do { (m, ss) \<leftarrow> force_close i ss; Some (Some (SOCKET_CLOSE, m), ss) }
     else if warn_size s > 0 then Some (Some (SOCKET_WARNING, message_of s), set_slot i (\<lambda>s. s\<lparr>warn_size := 0\<rparr>) ss)
     else Some (None, ss) }"

definition is_close :: "poll_result \<Rightarrow> bool" where
  "is_close r \<longleftrightarrow> (case r of Some (SOCKET_CLOSE, m) \<Rightarrow> True | _ \<Rightarrow> False)"

definition send_buffers :: "nat \<Rightarrow> socket_server \<Rightarrow> (poll_result \<times> socket_server) option" where
  "send_buffers i ss = do {
     c_assert (\<not> list_uncomplete (s_low (slot ss i)));
     (r, ss) \<leftarrow> send_list True i ss;
     if is_close r then Some (r, ss)
     else if s_high (slot ss i) \<noteq> [] then Some (None, ss)
     else if s_low (slot ss i) = [] then send_buffer_done i ss
     else do {
       (r, ss) \<leftarrow> send_list False i ss;
       if is_close r then Some (r, ss)
       else if list_uncomplete (s_low (slot ss i)) then do { ss \<leftarrow> raise_uncomplete i ss; Some (None, ss) }
       else if s_low (slot ss i) \<noteq> [] then Some (None, ss)
       else send_buffer_done i ss } }"

definition socket_trylock :: "socket_server \<Rightarrow> bool \<times> socket_server" where
  "socket_trylock ss = (case next_answer True (a_trylock (answers ss)) of (r, as) \<Rightarrow> (r, ss\<lparr>answers := (answers ss)\<lparr>a_trylock := as\<rparr>\<rparr>))"

text \<open>What a direct write left over goes in front of the high list, in a buffer without an address.\<close>

definition take_direct :: "nat \<Rightarrow> socket_server \<Rightarrow> socket_server option" where
  "take_direct i ss = (case dw_buffer (slot ss i) of
     None \<Rightarrow> Some ss
   | Some pl \<Rightarrow> do {
       (a, bs, user) \<leftarrow> send_object_init ss pl;
       let off = dw_offset (slot ss i);
       let buf = \<lparr>wb_buffer = pl_buffer pl, wb_ptr = a + off, wb_bytes = drop off bs, wb_userobject = user, wb_address = None\<rparr>;
       Some (set_slot i (\<lambda>s. s\<lparr>wb_size := wb_size s + int (length (wb_bytes buf)), s_high := buf # s_high s, dw_buffer := None\<rparr>) ss) })"

definition send_buffer :: "nat \<Rightarrow> socket_server \<Rightarrow> (poll_result \<times> socket_server) option" where
  "send_buffer i ss = (case socket_trylock ss of (locked, ss) \<Rightarrow>
     if \<not> locked then Some (None, ss) else do { ss \<leftarrow> take_direct i ss; send_buffers i ss })"

text \<open>A buffer at the end of a list; a list without a tail is empty.\<close>

definition append_sendbuffer :: "bool \<Rightarrow> nat \<Rightarrow> payload \<Rightarrow> u8 list option \<Rightarrow> socket_server \<Rightarrow> socket_server option" where
  "append_sendbuffer high i pl address ss = do {
     (a, bs, user) \<leftarrow> send_object_init ss pl;
     let buf = \<lparr>wb_buffer = pl_buffer pl, wb_ptr = a, wb_bytes = bs, wb_userobject = user, wb_address = address\<rparr>;
     Some (add_wb_size i (int (length bs)) (set_wb_list high i (wb_list high (slot ss i) @ [buf]) ss)) }"

definition warn_check :: "nat \<Rightarrow> socket_server \<Rightarrow> poll_result \<times> socket_server" where
  "warn_check i ss = (let s = slot ss i in
     if wb_size s \<ge> WARNING_SIZE \<and> wb_size s \<ge> warn_size s
     then (Some (SOCKET_WARNING, (message_of s)\<lparr>sm_ud := c_int (if wb_size s mod 1024 = 0 then wb_size s div 1024 else wb_size s div 1024 + 1)\<rparr>),
       set_slot i (\<lambda>s. s\<lparr>warn_size := if warn_size s = 0 then WARNING_SIZE * 2 else warn_size s * 2\<rparr>) ss)
     else (None, ss))"

definition send_socket :: "int \<Rightarrow> payload \<Rightarrow> bool \<Rightarrow> u8 list option \<Rightarrow> socket_server \<Rightarrow> (poll_result \<times> socket_server) option" where
  "send_socket sid pl high udp_address ss = (let i = HASH_ID sid; s = slot ss i in do {
     (a, bs, user) \<leftarrow> send_object_init ss pl;
     if s_type s = T_INVALID \<or> s_id s \<noteq> sid \<or> s_type s = T_HALFCLOSE \<or> s_type s = T_PACCEPT
        \<or> s_type s = T_PLISTEN \<or> s_type s = T_LISTEN
     then Some (None, free_func (pl_buffer pl) user ss)
     else (let address = (case udp_address of None \<Rightarrow> p_address s | Some address \<Rightarrow> address) in
       if send_buffer_empty s \<and> s_type s = T_CONNECTED
       then (if protocol s = PROTOCOL_TCP
         then do { ss \<leftarrow> append_sendbuffer True i pl None ss; Some (warn_check i (sp_write i True ss)) }
         else (case udp_socket_address s address of
             None \<Rightarrow> Some (None, free_func (pl_buffer pl) user ss)
           | Some sa \<Rightarrow> (case sys_sendto i sa bs ss of (r, ss) \<Rightarrow>
               if r = Inr (length bs) then Some (None, free_func (pl_buffer pl) user (stat_write i (length bs) ss))
               else do { ss \<leftarrow> append_sendbuffer high i pl (Some address) ss; Some (warn_check i (sp_write i True ss)) })))
       else do {
         ss \<leftarrow> append_sendbuffer high i pl (if protocol s = PROTOCOL_TCP then None else Some address) ss;
         Some (warn_check i ss) }) })"

section \<open>Requests\<close>

definition invalid_slot :: "int \<Rightarrow> socket_server \<Rightarrow> bool" where
  "invalid_slot sid ss \<longleftrightarrow> s_type (slot ss (HASH_ID sid)) = T_INVALID \<or> s_id (slot ss (HASH_ID sid)) \<noteq> sid"

definition set_type :: "nat \<Rightarrow> sock_type \<Rightarrow> socket_server \<Rightarrow> socket_server" where
  "set_type i t = set_slot i (\<lambda>s. s\<lparr>s_type := t\<rparr>)"

definition limit_text :: string where "limit_text = ''reach skynet socket number limit''"

text \<open>One address after the other; the error of the last call is kept. The first component is the descriptor, the second whether it is connected.\<close>

fun try_connect :: "sockaddr list \<Rightarrow> sys_error \<Rightarrow> socket_server \<Rightarrow> (sys_error + int \<times> bool \<times> sockaddr) \<times> socket_server" where
  "try_connect [] err ss = (Inl err, ss)"
| "try_connect (sa # sas) err ss = (case next_answer (Inl EMFILE) (a_socket (answers ss)) of (r, as) \<Rightarrow>
     (let ss = ss\<lparr>answers := (answers ss)\<lparr>a_socket := as\<rparr>\<rparr> in case r of
       Inl e \<Rightarrow> try_connect sas e ss
     | Inr sock \<Rightarrow> (case next_answer None (a_connect (answers ss)) of (c, as) \<Rightarrow>
         (let ss = ss\<lparr>answers := (answers ss)\<lparr>a_connect := as\<rparr>\<rparr> in case c of
           None \<Rightarrow> (Inr (sock, True, sa), ss)
         | Some e \<Rightarrow> if e = EINPROGRESS then (Inr (sock, False, sa), ss) else try_connect sas e (log_call (Close sock) ss)))))"

definition text_or_null :: "string option \<Rightarrow> sm_data" where
  "text_or_null t = (case t of None \<Rightarrow> Null | Some t \<Rightarrow> Text t)"

definition open_failed :: "int \<Rightarrow> sock_message \<Rightarrow> string \<Rightarrow> socket_server \<Rightarrow> (poll_result \<times> socket_server) option" where
  "open_failed sid m err ss = Some (Some (SOCKET_ERR, m\<lparr>sm_data := Text err\<rparr>), set_type (HASH_ID sid) T_INVALID ss)"

definition open_socket :: "int \<Rightarrow> u64 \<Rightarrow> socket_server \<Rightarrow> (poll_result \<times> socket_server) option" where
  "open_socket sid opaque ss = (let m = \<lparr>sm_id = sid, sm_opaque = opaque, sm_ud = 0, sm_data = Null\<rparr> in
     case next_answer (Inl []) (a_resolve (answers ss)) of (r, as) \<Rightarrow> (let ss = ss\<lparr>answers := (answers ss)\<lparr>a_resolve := as\<rparr>\<rparr> in case r of
       Inl err \<Rightarrow> open_failed sid m err ss
     | Inr sas \<Rightarrow> (case try_connect sas (Errno []) ss of
         (Inl e, ss) \<Rightarrow> open_failed sid m (a_strerror (answers ss) e) ss
       | (Inr (sock, connected, sa), ss) \<Rightarrow> do {
           (ns, ss) \<leftarrow> new_fd sid sock PROTOCOL_TCP opaque True ss;
           if \<not> ns then open_failed sid m limit_text (log_call (Close sock) ss)
           else if connected
           then Some (Some (SOCKET_OPEN, m\<lparr>sm_data := text_or_null (a_ntop (answers ss) sa)\<rparr>), set_type (HASH_ID sid) T_CONNECTED ss)
           else Some (None, sp_write (HASH_ID sid) True (set_type (HASH_ID sid) T_CONNECTING ss)) })))"

definition listen_socket :: "int \<Rightarrow> int \<Rightarrow> u64 \<Rightarrow> socket_server \<Rightarrow> (poll_result \<times> socket_server) option" where
  "listen_socket sid fd opaque ss = do {
     (ns, ss) \<leftarrow> new_fd sid fd PROTOCOL_TCP opaque False ss;
     if ns then Some (None, set_type (HASH_ID sid) T_PLISTEN ss)
     else Some (Some (SOCKET_ERR, \<lparr>sm_id = sid, sm_opaque = opaque, sm_ud = 0, sm_data = Text limit_text\<rparr>),
       set_type (HASH_ID sid) T_INVALID (log_call (Close fd) ss)) }"

text \<open>A warning from \<^verbatim>\<open>send_buffer\<close> means that no data is left, so only -1 and it go on.\<close>

definition close_socket :: "int \<Rightarrow> bool \<Rightarrow> u64 \<Rightarrow> socket_server \<Rightarrow> (poll_result \<times> socket_server) option" where
  "close_socket sid shutdown opaque ss = (let i = HASH_ID sid in
     if invalid_slot sid ss then Some (Some (SOCKET_CLOSE, \<lparr>sm_id = sid, sm_opaque = opaque, sm_ud = 0, sm_data = Null\<rparr>), ss)
     else do {
       (r, ss) \<leftarrow> (if nomore_sending_data (slot ss i) then Some (None, ss) else send_buffer i ss);
       if is_close r then Some (r, ss)
       else if shutdown \<or> nomore_sending_data (slot ss i) then do {
         (m, ss) \<leftarrow> force_close i ss;
         Some (Some (SOCKET_CLOSE, m\<lparr>sm_id := sid, sm_opaque := opaque\<rparr>), ss) }
       else Some (None, set_type i T_HALFCLOSE ss) })"

definition bind_socket :: "int \<Rightarrow> int \<Rightarrow> u64 \<Rightarrow> socket_server \<Rightarrow> (poll_result \<times> socket_server) option" where
  "bind_socket sid fd opaque ss = (let m = \<lparr>sm_id = sid, sm_opaque = opaque, sm_ud = 0, sm_data = Null\<rparr> in do {
     (ns, ss) \<leftarrow> new_fd sid fd PROTOCOL_TCP opaque True ss;
     if \<not> ns then Some (Some (SOCKET_ERR, m\<lparr>sm_data := Text limit_text\<rparr>), ss)
     else Some (Some (SOCKET_OPEN, m\<lparr>sm_data := Text ''binding''\<rparr>), set_type (HASH_ID sid) T_BIND ss) })"

definition start_socket :: "int \<Rightarrow> u64 \<Rightarrow> socket_server \<Rightarrow> (poll_result \<times> socket_server) option" where
  "start_socket sid opaque ss = (let i = HASH_ID sid; m = \<lparr>sm_id = sid, sm_opaque = opaque, sm_ud = 0, sm_data = Null\<rparr> in
     if invalid_slot sid ss then Some (Some (SOCKET_ERR, m\<lparr>sm_data := Text ''invalid socket''\<rparr>), ss)
     else (let t = s_type (slot ss i) in
       if t = T_PACCEPT \<or> t = T_PLISTEN then (case sp_add i ss of
           (Some e, ss) \<Rightarrow> do {
             (m, ss) \<leftarrow> force_close i ss;
             Some (Some (SOCKET_ERR, m\<lparr>sm_data := Text (a_strerror (answers ss) e)\<rparr>), ss) }
         | (None, ss) \<Rightarrow> Some (Some (SOCKET_OPEN, m\<lparr>sm_data := Text ''start''\<rparr>),
             set_slot i (\<lambda>s. s\<lparr>s_type := if t = T_PACCEPT then T_CONNECTED else T_LISTEN, s_opaque := opaque\<rparr>) ss))
       else if t = T_CONNECTED
       then Some (Some (SOCKET_OPEN, m\<lparr>sm_data := Text ''transfer''\<rparr>), set_slot i (\<lambda>s. s\<lparr>s_opaque := opaque\<rparr>) ss)
       else Some (None, ss)))"

definition setopt_socket :: "int \<Rightarrow> int \<Rightarrow> int \<Rightarrow> socket_server \<Rightarrow> socket_server" where
  "setopt_socket sid what v ss = (if invalid_slot sid ss then ss else log_call (Setsockopt (s_fd (slot ss (HASH_ID sid))) what v) ss)"

definition add_udp_socket :: "int \<Rightarrow> int \<Rightarrow> bool \<Rightarrow> u64 \<Rightarrow> socket_server \<Rightarrow> socket_server option" where
  "add_udp_socket sid fd v6 opaque ss = do {
     (ns, ss) \<leftarrow> new_fd sid fd (if v6 then PROTOCOL_UDPv6 else PROTOCOL_UDP) opaque True ss;
     if \<not> ns then Some (set_type (HASH_ID sid) T_INVALID (log_call (Close fd) ss))
     else Some (set_slot (HASH_ID sid) (\<lambda>s. s\<lparr>s_type := T_CONNECTED, p_address := replicate 19 0\<rparr>) ss) }"

definition set_udp_address :: "int \<Rightarrow> u8 list \<Rightarrow> socket_server \<Rightarrow> poll_result \<times> socket_server" where
  "set_udp_address sid address ss = (let i = HASH_ID sid; s = slot ss i in
     if invalid_slot sid ss then (None, ss)
     else if hd address \<noteq> protocol s then (Some (SOCKET_ERR, (message_of s)\<lparr>sm_data := Text ''protocol mismatch''\<rparr>), ss)
     else (let n = (if hd address = PROTOCOL_UDP then 1 + 2 + 4 else 1 + 2 + 16) in
       (None, set_slot i (\<lambda>s. s\<lparr>p_address := take n address @ drop n (p_address s), udpconnecting := udpconnecting s - 1\<rparr>) ss)))"

text \<open>The number of sends on their way to the pipe, in the low half of \<^verbatim>\<open>sending\<close>; at its largest value \<^verbatim>\<open>inc_sending_ref\<close> waits.\<close>

definition inc_sending_ref :: "int \<Rightarrow> socket_server \<Rightarrow> socket_server option" where
  "inc_sending_ref sid ss = (let i = HASH_ID sid; s = slot ss i in
     if protocol s \<noteq> PROTOCOL_TCP then Some ss
     else if drop_bit 16 (sending s) = ID_TAG16 sid then
       (if sending s AND 0xffff = 0xffff then None else Some (set_slot i (\<lambda>s. s\<lparr>sending := sending s + 1\<rparr>) ss))
     else Some ss)"

definition dec_sending_ref :: "int \<Rightarrow> socket_server \<Rightarrow> socket_server option" where
  "dec_sending_ref sid ss = (let i = HASH_ID sid; s = slot ss i in
     if s_id s = sid \<and> protocol s = PROTOCOL_TCP then do {
       c_assert (sending s AND 0xffff \<noteq> 0);
       Some (set_slot i (\<lambda>s. s\<lparr>sending := sending s - 1\<rparr>) ss) }
     else Some ss)"

definition ctrl_cmd :: "request \<Rightarrow> socket_server \<Rightarrow> (poll_result \<times> socket_server) option" where
  "ctrl_cmd req ss = (case req of
     Req_start sid opaque \<Rightarrow> start_socket sid opaque ss
   | Req_bind sid fd opaque \<Rightarrow> bind_socket sid fd opaque ss
   | Req_listen sid fd opaque \<Rightarrow> listen_socket sid fd opaque ss
   | Req_close sid shutdown opaque \<Rightarrow> close_socket sid shutdown opaque ss
   | Req_open sid port opaque host \<Rightarrow> open_socket sid opaque ss
   | Req_exit \<Rightarrow> Some (Some (SOCKET_EXIT, \<lparr>sm_id = 0, sm_opaque = 0, sm_ud = 0, sm_data = Null\<rparr>), ss)
   | Req_send sid pl \<Rightarrow> do { (r, ss) \<leftarrow> send_socket sid pl True None ss; ss \<leftarrow> dec_sending_ref sid ss; Some (r, ss) }
   | Req_send_low sid pl \<Rightarrow> do { (r, ss) \<leftarrow> send_socket sid pl False None ss; ss \<leftarrow> dec_sending_ref sid ss; Some (r, ss) }
   | Req_send_udp sid pl address \<Rightarrow> send_socket sid pl True (Some address) ss
   | Req_setudp sid address \<Rightarrow> Some (set_udp_address sid address ss)
   | Req_setopt sid what v \<Rightarrow> Some (None, setopt_socket sid what v ss)
   | Req_udp sid fd v6 opaque \<Rightarrow> map_option (Pair None) (add_udp_socket sid fd v6 opaque ss))"

end
