(* ===== verification/SocketPoll.thy ===== *)
theory SocketPoll
  imports SocketOps
begin

text \<open>
  The loop of the socket thread and the functions that the other threads call (\<^verbatim>\<open>skynet-src/socket_server.c\<close>). A function of another
  thread is one step; a call that goes through the pipe is also given in its two halves.
\<close>

section \<open>Events\<close>

text \<open>The size of the next read is doubled when the buffer was filled, in the type \<^verbatim>\<open>int\<close>.\<close>

definition next_size :: "nat \<Rightarrow> nat \<Rightarrow> nat option" where
  "next_size sz n = (if n = sz then c_nat (sz * 2) else Some (if sz > MIN_READ_BUFFER \<and> n * 2 < sz then sz div 2 else sz))"

definition close_error :: "nat \<Rightarrow> sys_error \<Rightarrow> socket_server \<Rightarrow> (poll_result \<times> socket_server) option" where
  "close_error i e ss = do { (m, ss) \<leftarrow> force_close i ss; Some (Some (SOCKET_ERR, m\<lparr>sm_data := Text (a_strerror (answers ss) e)\<rparr>), ss) }"

definition close_event :: "nat \<Rightarrow> socket_server \<Rightarrow> (poll_result \<times> socket_server) option" where
  "close_event i ss = do { (m, ss) \<leftarrow> force_close i ss; Some (Some (SOCKET_CLOSE, m), ss) }"

definition forward_message_tcp :: "nat \<Rightarrow> socket_server \<Rightarrow> (poll_result \<times> socket_server) option" where
  "forward_message_tcp i ss = (let sz = p_size (slot ss i) in
     case next_answer (Inl EAGAIN) (a_read (answers ss)) of (r, as) \<Rightarrow> (let ss = ss\<lparr>answers := (answers ss)\<lparr>a_read := as\<rparr>\<rparr> in case r of
       Inl e \<Rightarrow> if e = EINTR \<or> e = EAGAIN then Some (None, ss) else close_error i e ss
     | Inr bs \<Rightarrow> (let buffer = take sz bs; n = length buffer in
         if n = 0 then close_event i ss
         else if s_type (slot ss i) = T_HALFCLOSE then Some (None, ss)
         else do {
           let ss = stat_read i n ss;
           sz' \<leftarrow> next_size sz n;
           let ss = set_slot i (\<lambda>s. s\<lparr>p_size := sz'\<rparr>) ss;
           Some (Some (SOCKET_DATA, (message_of (slot ss i))\<lparr>sm_ud := int n, sm_data := Buffer buffer\<rparr>), ss) })))"

definition gen_udp_address :: "sockaddr \<Rightarrow> u8 list" where
  "gen_udp_address sa = (case sa of V4 port addr \<Rightarrow> PROTOCOL_UDP # port @ addr | V6 port addr \<Rightarrow> PROTOCOL_UDPv6 # port @ addr)"

definition forward_message_udp :: "nat \<Rightarrow> socket_server \<Rightarrow> (poll_result \<times> socket_server) option" where
  "forward_message_udp i ss =
     (case next_answer (Inl EAGAIN) (a_recvfrom (answers ss)) of (r, as) \<Rightarrow> (let ss = ss\<lparr>answers := (answers ss)\<lparr>a_recvfrom := as\<rparr>\<rparr> in case r of
       Inl e \<Rightarrow> if e = EINTR \<or> e = EAGAIN then Some (None, ss) else close_error i e ss
     | Inr (bs, sa) \<Rightarrow> (let bs = take MAX_UDP_PACKAGE bs; n = length bs; ss = stat_read i n ss in
         if protocol (slot ss i) \<noteq> (case sa of V4 _ _ \<Rightarrow> PROTOCOL_UDP | V6 _ _ \<Rightarrow> PROTOCOL_UDPv6) then Some (None, ss)
         else Some (Some (SOCKET_UDP, (message_of (slot ss i))\<lparr>sm_ud := int n, sm_data := Buffer (bs @ gen_udp_address sa)\<rparr>), ss))))"

definition so_error :: "socket_server \<Rightarrow> (sys_error + sys_error option) \<times> socket_server" where
  "so_error ss = (case next_answer (Inr None) (a_so_error (answers ss)) of (r, as) \<Rightarrow> (r, ss\<lparr>answers := (answers ss)\<lparr>a_so_error := as\<rparr>\<rparr>))"

definition report_connect :: "nat \<Rightarrow> socket_server \<Rightarrow> (poll_result \<times> socket_server) option" where
  "report_connect i ss = (case so_error ss of (r, ss) \<Rightarrow> (case r of
       Inl e \<Rightarrow> close_error i e ss
     | Inr (Some e) \<Rightarrow> close_error i e ss
     | Inr None \<Rightarrow> (let ss = set_type i T_CONNECTED ss; m = message_of (slot ss i);
           ss = (if nomore_sending_data (slot ss i) then sp_write i False ss else ss) in
         case next_answer None (a_getpeername (answers ss)) of (peer, as) \<Rightarrow>
           Some (Some (SOCKET_OPEN, m\<lparr>sm_data := text_or_null (Option.bind peer (a_ntop (answers ss)))\<rparr>),
             ss\<lparr>answers := (answers ss)\<lparr>a_getpeername := as\<rparr>\<rparr>))))"

text \<open>Address and port as text.\<close>

definition getname :: "socket_server \<Rightarrow> sockaddr \<Rightarrow> string option" where
  "getname ss sa = map_option (\<lambda>t. t @ '':'' @ show_int
     (case sa of V4 port _ \<Rightarrow> uint (hd port) * 256 + uint (hd (tl port)) | V6 port _ \<Rightarrow> uint (hd port) * 256 + uint (hd (tl port))))
     (a_ntop (answers ss) sa)"

text \<open>An event of a listening socket: 0 (None, nothing happened), or a message.\<close>

definition report_accept :: "nat \<Rightarrow> socket_server \<Rightarrow> (poll_result \<times> socket_server) option" where
  "report_accept i ss =
     (case next_answer (Inl EAGAIN) (a_accept (answers ss)) of (r, as) \<Rightarrow> (let ss = ss\<lparr>answers := (answers ss)\<lparr>a_accept := as\<rparr>\<rparr> in case r of
       Inl e \<Rightarrow> if e = EMFILE \<or> e = ENFILE
         then Some (Some (SOCKET_ERR, (message_of (slot ss i))\<lparr>sm_data := Text (a_strerror (answers ss) e)\<rparr>), ss) else Some (None, ss)
     | Inr (fd, sa) \<Rightarrow> (case reserve_id ss of (sid, ss) \<Rightarrow>
         if sid < 0 then Some (None, log_call (Close fd) ss)
         else do {
           (ns, ss) \<leftarrow> new_fd sid fd PROTOCOL_TCP (s_opaque (slot ss i)) False ss;
           if \<not> ns then Some (None, log_call (Close fd) ss)
           else (let ss = set_type (HASH_ID sid) T_PACCEPT (stat_read i 1 ss) in
             Some (Some (SOCKET_ACCEPT, (message_of (slot ss i))\<lparr>sm_ud := sid, sm_data := text_or_null (getname ss sa)\<rparr>), ss)) })))"

section \<open>The loop\<close>

text \<open>The first remaining event of a socket that was closed is cleared.\<close>

fun clear_event :: "socket_server \<Rightarrow> int \<Rightarrow> event list \<Rightarrow> event list" where
  "clear_event ss sid [] = []"
| "clear_event ss sid (e # es) = (case e_s e of
     Some i \<Rightarrow> if s_type (slot ss i) = T_INVALID \<and> s_id (slot ss i) = sid then e\<lparr>e_s := None\<rparr> # es else e # clear_event ss sid es
   | None \<Rightarrow> e # clear_event ss sid es)"

definition clear_closed_event :: "event_kind \<times> sock_message \<Rightarrow> socket_server \<Rightarrow> socket_server" where
  "clear_closed_event r ss = (if fst r = SOCKET_CLOSE \<or> fst r = SOCKET_ERR
     then ss\<lparr>ev := take (event_index ss) (ev ss) @ clear_event ss (sm_id (snd r)) (drop (event_index ss) (ev ss))\<rparr> else ss)"

text \<open>One pass of the loop ends in the next pass, or in the return of the function with its value.\<close>

datatype pass = Continue | Return poll_result

definition pass_of :: "poll_result \<Rightarrow> pass" where
  "pass_of r = (case r of None \<Rightarrow> Continue | Some m \<Rightarrow> Return (Some m))"

text \<open>The event is looked at once more for what is left of it: \<^verbatim>\<open>--event_index\<close>.\<close>

definition again :: "event \<Rightarrow> socket_server \<Rightarrow> socket_server" where
  "again e ss = ss\<lparr>event_index := event_index ss - 1, ev := (ev ss)[event_index ss - 1 := e]\<rparr>"

definition socket_event :: "event \<Rightarrow> nat \<Rightarrow> socket_server \<Rightarrow> (pass \<times> socket_server) option" where
  "socket_event e i ss =
     (if e_read e then do {
        (r, ss) \<leftarrow> (if protocol (slot ss i) = PROTOCOL_TCP then forward_message_tcp i ss else forward_message_udp i ss);
        case r of
          Some (SOCKET_UDP, m) \<Rightarrow> Some (Return r, again e ss)
        | _ \<Rightarrow> (let ss = (if e_write e \<and> (\<forall>t m. r = Some (t, m) \<longrightarrow> t \<noteq> SOCKET_CLOSE \<and> t \<noteq> SOCKET_ERR) then again (e\<lparr>e_read := False\<rparr>) ss else ss) in
            Some (pass_of r, ss)) }
      else if e_write e then map_option (apfst pass_of) (send_buffer i ss)
      else if e_error e then (case so_error ss of (r, ss) \<Rightarrow> do {
        (m, ss) \<leftarrow> force_close i ss;
        Some (Return (Some (SOCKET_ERR, m\<lparr>sm_data := Text (case r of Inl e \<Rightarrow> a_strerror (answers ss) e
          | Inr (Some e) \<Rightarrow> a_strerror (answers ss) e | Inr None \<Rightarrow> ''Unknown error'')\<rparr>)), ss) })
      else if e_eof e then map_option (apfst pass_of) (close_event i ss)
      else Some (Continue, ss))"

definition dispatch_event :: "event \<Rightarrow> socket_server \<Rightarrow> (pass \<times> socket_server) option" where
  "dispatch_event e ss = (case e_s e of
     None \<Rightarrow> Some (Continue, ss)
   | Some i \<Rightarrow> (case s_type (slot ss i) of
       T_CONNECTING \<Rightarrow> map_option (apfst pass_of) (report_connect i ss)
     | T_LISTEN \<Rightarrow> map_option (apfst pass_of) (report_accept i ss)
     | T_INVALID \<Rightarrow> Some (Continue, ss)
     | _ \<Rightarrow> socket_event e i ss))"

text \<open>A request is read whole when there is one. The third component is the flag \<^verbatim>\<open>more\<close>, cleared when events were waited for.\<close>

definition poll_command :: "socket_server \<Rightarrow> (pass \<times> socket_server) option" where
  "poll_command ss = (case pipe ss of
     [] \<Rightarrow> None
   | req # reqs \<Rightarrow> do {
       (r, ss) \<leftarrow> ctrl_cmd req (ss\<lparr>pipe := reqs\<rparr>);
       Some (pass_of r, (case r of None \<Rightarrow> ss | Some m \<Rightarrow> clear_closed_event m ss)) })"

definition poll_events :: "bool \<Rightarrow> socket_server \<Rightarrow> (pass \<times> bool \<times> socket_server) option" where
  "poll_events mr ss = (if event_index ss < length (ev ss)
     then do { (p, ss') \<leftarrow> dispatch_event (ev ss ! event_index ss) (ss\<lparr>event_index := event_index ss + 1\<rparr>); Some (p, mr, ss') }
     else (case sp_wait ss of
       (Inl e, ss) \<Rightarrow> Some (if e = EINTR then Continue else Return None, False, ss\<lparr>ev := [], event_index := 0, checkctrl := True\<rparr>)
     | (Inr es, ss) \<Rightarrow> (let ss = ss\<lparr>ev := es, event_index := 0, checkctrl := True\<rparr> in
         if es = [] then Some (Return None, False, ss)
         else do { (p, ss) \<leftarrow> dispatch_event (es ! 0) (ss\<lparr>event_index := 1\<rparr>); Some (p, False, ss) })))"

definition poll_pass :: "bool \<Rightarrow> socket_server \<Rightarrow> (pass \<times> bool \<times> socket_server) option" where
  "poll_pass mr ss = (if checkctrl ss \<and> pipe ss \<noteq> []
     then map_option (\<lambda>(p, ss). (p, mr, ss)) (poll_command ss)
     else poll_events mr (ss\<lparr>checkctrl := False\<rparr>))"

partial_function (option) poll_loop :: "bool \<Rightarrow> socket_server \<Rightarrow> (poll_result \<times> bool \<times> socket_server) option" where
  "poll_loop mr ss = do {
     (p, mr, ss) \<leftarrow> poll_pass mr ss;
     case p of Continue \<Rightarrow> poll_loop mr ss | Return r \<Rightarrow> Some (r, mr, ss) }"

definition socket_server_poll :: "socket_server \<Rightarrow> (poll_result \<times> bool \<times> socket_server) option" where
  "socket_server_poll = poll_loop True"

section \<open>The functions for the other threads\<close>

definition send_request :: "request \<Rightarrow> socket_server \<Rightarrow> socket_server" where
  "send_request req ss = ss\<lparr>pipe := pipe ss @ [req]\<rparr>"

text \<open>24 bytes before the name of the host; the length of a request is one byte.\<close>

definition socket_server_connect :: "u64 \<Rightarrow> string \<Rightarrow> int \<Rightarrow> socket_server \<Rightarrow> int \<times> socket_server" where
  "socket_server_connect opaque addr port ss = (if length (c_str addr) + 24 \<ge> 256 then (-1, ss)
     else (case reserve_id ss of (sid, ss) \<Rightarrow>
       if sid < 0 then (-1, ss) else (sid, send_request (Req_open sid port opaque (c_str addr)) ss)))"

definition can_direct_write :: "socket \<Rightarrow> int \<Rightarrow> bool" where
  "can_direct_write s sid \<longleftrightarrow> s_id s = sid \<and> nomore_sending_data s \<and> s_type s = T_CONNECTED \<and> udpconnecting s = 0"

text \<open>The direct write of \<^verbatim>\<open>socket_server_send\<close> under the lock.\<close>

definition direct_write :: "int \<Rightarrow> payload \<Rightarrow> socket_server \<Rightarrow> (int \<times> socket_server) option" where
  "direct_write sid pl ss = (let i = HASH_ID sid; s = slot ss i in do {
     (a, bs, user) \<leftarrow> send_object_init ss pl;
     let target = (if protocol s = PROTOCOL_TCP then None else Some (udp_socket_address s (p_address s)));
     if target = Some None then Some (-1, free_func (pl_buffer pl) user ss)
     else (case (case target of Some (Some sa) \<Rightarrow> sys_sendto i sa bs ss | _ \<Rightarrow> sys_write False i bs ss) of (r, ss) \<Rightarrow>
       (let n = (case r of Inl e \<Rightarrow> 0 | Inr n \<Rightarrow> n); ss = stat_write i n ss in
        if n = length bs then Some (0, free_func (pl_buffer pl) user ss)
        else Some (0, sp_write i True (set_slot i (\<lambda>s. s\<lparr>dw_buffer := Some pl, dw_offset := n\<rparr>) ss)))) })"

text \<open>The first half ends with the answer or, 0 in the end, with the request still to be written to the pipe.\<close>

definition send_front :: "int \<Rightarrow> payload \<Rightarrow> socket_server \<Rightarrow> ((int + request) \<times> socket_server) option" where
  "send_front sid pl ss =
     (if invalid_slot sid ss then map_option (Pair (Inl (-1))) (free_buffer pl ss)
      else do {
        let (direct, ss) = (if can_direct_write (slot ss (HASH_ID sid)) sid then socket_trylock ss else (False, ss));
        if direct then map_option (apfst Inl) (direct_write sid pl ss)
        else do { ss \<leftarrow> inc_sending_ref sid ss; Some (Inr (Req_send sid pl), ss) } })"

definition send_low_front :: "int \<Rightarrow> payload \<Rightarrow> socket_server \<Rightarrow> ((int + request) \<times> socket_server) option" where
  "send_low_front sid pl ss =
     (if invalid_slot sid ss then map_option (Pair (Inl (-1))) (free_buffer pl ss)
      else do { ss \<leftarrow> inc_sending_ref sid ss; Some (Inr (Req_send_low sid pl), ss) })"

definition finish_send :: "(int + request) \<times> socket_server \<Rightarrow> int \<times> socket_server" where
  "finish_send p = (case p of (Inl n, ss) \<Rightarrow> (n, ss) | (Inr req, ss) \<Rightarrow> (0, send_request req ss))"

definition socket_server_send :: "int \<Rightarrow> payload \<Rightarrow> socket_server \<Rightarrow> (int \<times> socket_server) option" where
  "socket_server_send sid pl ss = map_option finish_send (send_front sid pl ss)"

definition socket_server_send_lowpriority :: "int \<Rightarrow> payload \<Rightarrow> socket_server \<Rightarrow> (int \<times> socket_server) option" where
  "socket_server_send_lowpriority sid pl ss = map_option finish_send (send_low_front sid pl ss)"

definition socket_server_exit :: "socket_server \<Rightarrow> socket_server" where
  "socket_server_exit = send_request Req_exit"

definition socket_server_close :: "u64 \<Rightarrow> int \<Rightarrow> socket_server \<Rightarrow> socket_server" where
  "socket_server_close opaque sid = send_request (Req_close sid False opaque)"

definition socket_server_shutdown :: "u64 \<Rightarrow> int \<Rightarrow> socket_server \<Rightarrow> socket_server" where
  "socket_server_shutdown opaque sid = send_request (Req_close sid True opaque)"

definition socket_server_start :: "u64 \<Rightarrow> int \<Rightarrow> socket_server \<Rightarrow> socket_server" where
  "socket_server_start opaque sid = send_request (Req_start sid opaque)"

definition TCP_NODELAY :: int where "TCP_NODELAY = 1"

definition socket_server_nodelay :: "int \<Rightarrow> socket_server \<Rightarrow> socket_server" where
  "socket_server_nodelay sid = send_request (Req_setopt sid TCP_NODELAY 1)"

definition socket_server_userobject :: "object_interface \<Rightarrow> socket_server \<Rightarrow> socket_server" where
  "socket_server_userobject f ss = ss\<lparr>soi := Some f\<rparr>"

text \<open>A descriptor that the calls of the kernel in \<^verbatim>\<open>do_listen\<close> and \<^verbatim>\<open>do_bind\<close> gave, None when they failed.\<close>

definition socket_server_listen :: "int option \<Rightarrow> u64 \<Rightarrow> socket_server \<Rightarrow> int \<times> socket_server" where
  "socket_server_listen fd opaque ss = (case fd of None \<Rightarrow> (-1, ss) | Some fd \<Rightarrow> (case reserve_id ss of (sid, ss) \<Rightarrow>
     if sid < 0 then (sid, log_call (Close fd) ss) else (sid, send_request (Req_listen sid fd opaque) ss)))"

definition socket_server_bind :: "int \<Rightarrow> u64 \<Rightarrow> socket_server \<Rightarrow> int \<times> socket_server" where
  "socket_server_bind fd opaque ss = (case reserve_id ss of (sid, ss) \<Rightarrow>
     if sid < 0 then (-1, ss) else (sid, send_request (Req_bind sid fd opaque) ss))"

definition socket_server_udp :: "(int \<times> bool) option \<Rightarrow> u64 \<Rightarrow> socket_server \<Rightarrow> int \<times> socket_server" where
  "socket_server_udp fd opaque ss = (case fd of None \<Rightarrow> (-1, ss) | Some (fd, v6) \<Rightarrow> (case reserve_id ss of (sid, ss) \<Rightarrow>
     if sid < 0 then (-1, log_call (Close fd) ss) else (sid, send_request (Req_udp sid fd v6 opaque) ss)))"

definition udp_address_size :: "u8 list \<Rightarrow> nat option" where
  "udp_address_size address = (if hd address = PROTOCOL_UDP then Some (1 + 2 + 4) else if hd address = PROTOCOL_UDPv6 then Some (1 + 2 + 16) else None)"

definition socket_server_udp_send :: "int \<Rightarrow> u8 list \<Rightarrow> payload \<Rightarrow> socket_server \<Rightarrow> (int \<times> socket_server) option" where
  "socket_server_udp_send sid address pl ss = (let i = HASH_ID sid in
     if invalid_slot sid ss then map_option (Pair (-1)) (free_buffer pl ss)
     else (case udp_address_size address of
       None \<Rightarrow> map_option (Pair (-1)) (free_buffer pl ss)
     | Some addrsz \<Rightarrow> (let request = Req_send_udp sid pl (take addrsz address);
           (direct, ss) = (if can_direct_write (slot ss i) sid then socket_trylock ss else (False, ss)) in
         if \<not> direct then Some (0, send_request request ss)
         else do {
           (a, bs, user) \<leftarrow> send_object_init ss pl;
           case udp_socket_address (slot ss i) address of
             None \<Rightarrow> Some (-1, free_func (pl_buffer pl) user ss)
           | Some sa \<Rightarrow> (case sys_sendto i sa bs ss of
               (Inr n, ss) \<Rightarrow> Some (0, free_func (pl_buffer pl) user (stat_write i n ss))
             | (Inl e, ss) \<Rightarrow> Some (0, send_request request ss)) })))"

text \<open>What the name of the other side resolves to is an argument.\<close>

definition socket_server_udp_connect :: "int \<Rightarrow> sockaddr option \<Rightarrow> socket_server \<Rightarrow> int \<times> socket_server" where
  "socket_server_udp_connect sid peer ss =
     (if invalid_slot sid ss then (-1, ss)
      else (let ss = set_slot (HASH_ID sid) (\<lambda>s. s\<lparr>udpconnecting := udpconnecting s + 1\<rparr>) ss in case peer of
        None \<Rightarrow> (-1, ss)
      | Some sa \<Rightarrow> (0, send_request (Req_setudp sid (gen_udp_address sa)) ss)))"

text \<open>The address behind the data of a message; its size decides how much of it counts.\<close>

definition socket_server_udp_address :: "sock_message \<Rightarrow> u8 list option" where
  "socket_server_udp_address m = (case sm_data m of
     Buffer bs \<Rightarrow> (let address = drop (nat (sm_ud m)) bs in map_option (\<lambda>n. take n address) (udp_address_size address))
   | _ \<Rightarrow> None)"

section \<open>Information\<close>

datatype info_type = SOCKET_INFO_LISTEN | SOCKET_INFO_TCP | SOCKET_INFO_UDP | SOCKET_INFO_BIND

record socket_info =
  si_id :: int
  si_type :: info_type
  si_opaque :: u64
  si_stat :: socket_stat
  si_wbuffer :: int
  si_name :: string

definition peer_name :: "socket_server \<Rightarrow> sockaddr option \<Rightarrow> string" where
  "peer_name ss sa = (case Option.bind sa (getname ss) of None \<Rightarrow> [] | Some t \<Rightarrow> t)"

text \<open>The addresses that \<^verbatim>\<open>getsockname\<close> and \<^verbatim>\<open>getpeername\<close> give are an argument.\<close>

definition query_info :: "(nat \<Rightarrow> sockaddr option) \<Rightarrow> socket_server \<Rightarrow> nat \<Rightarrow> socket_info option" where
  "query_info name ss i = (let s = slot ss i; info = (\<lambda>t nm. Some \<lparr>si_id = s_id s, si_type = t, si_opaque = s_opaque s,
       si_stat = stat s, si_wbuffer = wb_size s, si_name = nm\<rparr>) in
     case s_type s of
       T_BIND \<Rightarrow> info SOCKET_INFO_BIND []
     | T_LISTEN \<Rightarrow> info SOCKET_INFO_LISTEN (peer_name ss (name i))
     | T_CONNECTED \<Rightarrow> if protocol s = PROTOCOL_TCP then info SOCKET_INFO_TCP (peer_name ss (name i))
         else info SOCKET_INFO_UDP (peer_name ss (udp_socket_address s (p_address s)))
     | _ \<Rightarrow> None)"

text \<open>Each is put in front of the ones found before.\<close>

definition socket_server_info :: "(nat \<Rightarrow> sockaddr option) \<Rightarrow> socket_server \<Rightarrow> socket_info list" where
  "socket_server_info name ss = rev (List.map_filter (query_info name ss) [0..<MAX_SOCKET])"

end
