(* ===== verification/SocketInv.thy ===== *)
theory SocketInv
  imports SocketPoll "HOL-Library.Multiset" "HOL-Library.Sublist"
begin

text \<open>
  Facts about the operations of \<^verbatim>\<open>SocketOps\<close> and \<^verbatim>\<open>SocketPoll\<close> on one socket: what they leave alone, that data to send stays
  in order, and that no buffer is lost or freed twice.
\<close>

section \<open>What an operation on a socket leaves alone\<close>

definition frame :: "nat \<Rightarrow> socket_server \<Rightarrow> socket_server \<Rightarrow> bool" where
  "frame i ss ss' \<longleftrightarrow> (\<forall>j. j \<noteq> i \<longrightarrow> slot ss' j = slot ss j \<and> epoll ss' j = epoll ss j) \<and> pipe ss' = pipe ss \<and> ev ss' = ev ss \<and>
     event_index ss' = event_index ss \<and> soi ss' = soi ss \<and> set (a_read (answers ss')) \<subseteq> set (a_read (answers ss))"

lemma frame_refl [simp]: "frame i ss ss"
  by (simp add: frame_def)

lemma frame_trans [trans]: "frame i a b \<Longrightarrow> frame i b c \<Longrightarrow> frame i a c"
  by (simp add: frame_def) blast

lemma slot_simps [simp]:
  "slot (set_slot i f ss) = (slot ss)(i := f (slot ss i))" "slot (log_call c ss) = slot ss"
  "epoll (set_slot i f ss) = epoll ss" "epoll (log_call c ss) = epoll ss"
  "calls (set_slot i f ss) = calls ss" "calls (log_call c ss) = calls ss @ [c]"
  "pipe (set_slot i f ss) = pipe ss" "pipe (log_call c ss) = pipe ss"
  "ev (set_slot i f ss) = ev ss" "ev (log_call c ss) = ev ss"
  "event_index (set_slot i f ss) = event_index ss" "event_index (log_call c ss) = event_index ss"
  "soi (set_slot i f ss) = soi ss" "soi (log_call c ss) = soi ss"
  "answers (set_slot i f ss) = answers ss" "answers (log_call c ss) = answers ss"
  by (simp_all add: set_slot_def log_call_def)

lemma frame_simps [simp]:
  "frame i ss (set_slot i f ss')  = frame i ss ss'"
  "frame i ss (log_call c ss') = frame i ss ss'"
  "frame i ss (sp_write i b ss') = frame i ss ss'"
  "frame i ss (sp_del i ss') = frame i ss ss'"
  by (simp_all add: frame_def sp_write_def sp_del_def)

lemma frame_free [simp]: "frame i ss (write_buffer_free wb ss') = frame i ss ss'" "frame i ss (free_func p u ss') = frame i ss ss'"
  by (simp_all add: write_buffer_free_def free_func_def)

lemma frame_answers [simp]:
  "a_read as = a_read (answers ss') \<Longrightarrow> frame i ss (ss'\<lparr>answers := as\<rparr>) = frame i ss ss'"
  by (simp add: frame_def)

section \<open>Bytes and buffers\<close>

text \<open>What was written to the connection of a socket.\<close>

fun write_to :: "int \<Rightarrow> os_call \<Rightarrow> u8 list" where
  "write_to sid (Write n bs) = (if n = sid then bs else [])"
| "write_to sid _ = []"

definition written :: "int \<Rightarrow> socket_server \<Rightarrow> u8 list" where
  "written sid ss = concat (map (write_to sid) (calls ss))"

definition bytes :: "write_buffer list \<Rightarrow> u8 list" where
  "bytes l = concat (map wb_bytes l)"

lemma bytes_simps [simp]: "bytes [] = []" "bytes (wb # l) = wb_bytes wb @ bytes l" "bytes (l @ l') = bytes l @ bytes l'"
  by (simp_all add: bytes_def)

definition direct_rest :: "socket \<Rightarrow> u8 list" where
  "direct_rest s = (case dw_buffer s of None \<Rightarrow> [] | Some pl \<Rightarrow> drop (dw_offset s) (pl_bytes pl))"

text \<open>Memory that a socket owns, and what was freed.\<close>

fun frees :: "os_call \<Rightarrow> bool" where
  "frees (Free p) = True" | "frees (Free_object p) = True" | "frees _ = False"

definition freed :: "socket_server \<Rightarrow> os_call multiset" where
  "freed ss = mset (filter frees (calls ss))"

definition free_call :: "write_buffer \<Rightarrow> os_call" where
  "free_call wb = (if wb_userobject wb then Free_object (wb_buffer wb) else Free (wb_buffer wb))"

definition owned :: "socket \<Rightarrow> os_call multiset" where
  "owned s = mset (map free_call (s_high s)) + mset (map free_call (s_low s)) + (case dw_buffer s of None \<Rightarrow> {#} | Some pl \<Rightarrow> {#Free (pl_buffer pl)#})"

lemma log_simps [simp]:
  "written sid (log_call c ss) = written sid ss @ write_to sid c" "written sid (set_slot i f ss) = written sid ss"
  "written sid (sp_write i b ss) = written sid ss" "written sid (sp_del i ss) = written sid ss"
  "freed (log_call c ss) = freed ss + (if frees c then {#c#} else {#})" "freed (set_slot i f ss) = freed ss"
  "freed (sp_write i b ss) = freed ss" "freed (sp_del i ss) = freed ss"
  "written sid (ss\<lparr>answers := as\<rparr>) = written sid ss" "freed (ss\<lparr>answers := as\<rparr>) = freed ss"
  by (simp_all add: written_def freed_def sp_write_def sp_del_def)

lemma free_simps [simp]:
  "written sid (write_buffer_free wb ss) = written sid ss" "freed (write_buffer_free wb ss) = add_mset (free_call wb) (freed ss)"
  "slot (write_buffer_free wb ss) = slot ss" "epoll (write_buffer_free wb ss) = epoll ss" "soi (write_buffer_free wb ss) = soi ss"
  "answers (write_buffer_free wb ss) = answers ss"
  by (simp_all add: write_buffer_free_def free_func_def free_call_def)

lemma free_func_simps [simp]:
  "written sid (free_func p u ss) = written sid ss" "freed (free_func p u ss) = add_mset (if u then Free_object p else Free p) (freed ss)"
  "slot (free_func p u ss) = slot ss" "epoll (free_func p u ss) = epoll ss" "soi (free_func p u ss) = soi ss" "pipe (free_func p u ss) = pipe ss"
  "answers (free_func p u ss) = answers ss"
  by (simp_all add: free_func_def)

lemma sp_simps [simp]:
  "slot (sp_write i b ss) = slot ss" "slot (sp_del i ss) = slot ss"
  "epoll (sp_write i b ss) = (epoll ss)(i := map_option (\<lambda>_. b) (epoll ss i))" "epoll (sp_del i ss) = (epoll ss)(i := None)"
  "soi (sp_write i b ss) = soi ss" "soi (sp_del i ss) = soi ss" "pipe (sp_write i b ss) = pipe ss" "pipe (sp_del i ss) = pipe ss"
  "answers (sp_write i b ss) = answers ss" "answers (sp_del i ss) = answers ss"
  by (simp_all add: sp_write_def sp_del_def)

lemma free_wb_list_facts [simp]:
  "slot (free_wb_list l ss) = slot ss" "epoll (free_wb_list l ss) = epoll ss" "frame i ss0 (free_wb_list l ss) = frame i ss0 ss"
  "written sid (free_wb_list l ss) = written sid ss" "freed (free_wb_list l ss) = freed ss + mset (map free_call l)"
  "soi (free_wb_list l ss) = soi ss" "answers (free_wb_list l ss) = answers ss"
  by (induction l arbitrary: ss) simp_all

section \<open>Closing\<close>

text \<open>The state of a socket that has data to send: the count of bytes, buffers of the low list begun by nobody, the rest of a direct write, and for
  UDP the addresses.\<close>

definition data_ok :: "socket \<Rightarrow> bool" where
  "data_ok s \<longleftrightarrow> wb_size s = int (length (bytes (s_high s)) + length (bytes (s_low s))) \<and> (\<forall>wb\<in>set (s_low s). wb_ptr wb = wb_buffer wb) \<and>
     (\<forall>pl. dw_buffer s = Some pl \<longrightarrow> protocol s = PROTOCOL_TCP \<and> 0 \<le> pl_sz pl \<and> dw_offset s \<le> length (pl_bytes pl)) \<and>
     (protocol s \<noteq> PROTOCOL_TCP \<longrightarrow> (\<forall>wb\<in>set (s_high s) \<union> set (s_low s). wb_address wb \<noteq> None))"

definition direct_ok :: "socket \<Rightarrow> bool" where
  "direct_ok s \<longleftrightarrow> (\<forall>pl. dw_buffer s = Some pl \<longrightarrow> 0 \<le> pl_sz pl)"

lemma data_direct: "data_ok s \<Longrightarrow> direct_ok s"
  by (simp add: data_ok_def direct_ok_def)

definition live :: "socket \<Rightarrow> bool" where
  "live s \<longleftrightarrow> s_type s \<noteq> T_INVALID \<and> s_type s \<noteq> T_RESERVE"

text \<open>The slot behind \<^verbatim>\<open>force_close\<close>.\<close>

definition closed :: "nat \<Rightarrow> socket_server \<Rightarrow> socket_server \<Rightarrow> bool" where
  "closed i ss ss' \<longleftrightarrow> frame i ss ss' \<and> (\<forall>sid. written sid ss' = written sid ss) \<and> freed ss' + owned (slot ss' i) = freed ss + owned (slot ss i) \<and>
     slot ss' i = (slot ss i)\<lparr>s_high := [], s_low := [], s_type := T_INVALID, dw_buffer := None\<rparr> \<and>
     (epoll ss' i = None \<or> ((s_type (slot ss i) = T_PACCEPT \<or> s_type (slot ss i) = T_PLISTEN) \<and> epoll ss' i = epoll ss i))"

lemma force_close_closed:
  assumes "live (slot ss i)" "direct_ok (slot ss i)"
  shows "\<exists>ss'. force_close i ss = Some (message_of (slot ss i), ss') \<and> closed i ss ss'"
proof -
  have "s_type (slot ss i) \<noteq> T_INVALID" "s_type (slot ss i) \<noteq> T_RESERVE" using assms(1) by (simp_all add: live_def)
  moreover have "dw_buffer (slot ss i) = Some pl \<Longrightarrow> 0 \<le> pl_sz pl" for pl using assms(2) by (simp add: direct_ok_def)
  ultimately show ?thesis
    by (cases "dw_buffer (slot ss i)")
      (auto simp: force_close_def Let_def closed_def owned_def free_buffer_def send_object_init_def)
qed

section \<open>Writing a list\<close>

text \<open>Fields that sending does not change.\<close>

definition still :: "socket \<Rightarrow> socket \<Rightarrow> bool" where
  "still s s' \<longleftrightarrow> s_id s' = s_id s \<and> s_type s' = s_type s \<and> protocol s' = protocol s \<and> sending s' = sending s \<and>
     udpconnecting s' = udpconnecting s \<and> p_address s' = p_address s"

lemma still_refl [simp]: "still s s"
  by (simp add: still_def)

lemma still_trans [trans]: "still a b \<Longrightarrow> still b c \<Longrightarrow> still a c"
  by (simp add: still_def)

text \<open>A socket was closed, perhaps after some of its data was written: nothing is owned any more and every buffer was freed.\<close>

definition ended :: "nat \<Rightarrow> socket_server \<Rightarrow> socket_server \<Rightarrow> bool" where
  "ended i ss ss' \<longleftrightarrow> frame i ss ss' \<and> freed ss' = freed ss + owned (slot ss i) \<and>
     s_type (slot ss' i) = T_INVALID \<and> s_high (slot ss' i) = [] \<and> s_low (slot ss' i) = [] \<and> dw_buffer (slot ss' i) = None \<and>
     s_id (slot ss' i) = s_id (slot ss i) \<and> protocol (slot ss' i) = protocol (slot ss i) \<and> sending (slot ss' i) = sending (slot ss i) \<and>
     (epoll ss i = None \<or> (s_type (slot ss i) \<noteq> T_PACCEPT \<and> s_type (slot ss i) \<noteq> T_PLISTEN) \<longrightarrow> epoll ss' i = None) \<and>
     (\<forall>sid. sid \<noteq> s_id (slot ss i) \<longrightarrow> written sid ss' = written sid ss)"

text \<open>A socket goes on: \<^verbatim>\<open>w\<close> was written.\<close>

definition going :: "nat \<Rightarrow> u8 list \<Rightarrow> socket_server \<Rightarrow> socket_server \<Rightarrow> bool" where
  "going i w ss ss' \<longleftrightarrow> frame i ss ss' \<and> freed ss' + owned (slot ss' i) = freed ss + owned (slot ss i) \<and> still (slot ss i) (slot ss' i) \<and>
     (\<forall>sid. written sid ss' = written sid ss @ (if sid = s_id (slot ss i) then w else []))"

lemma going_refl: "going i [] ss ss"
  by (simp add: going_def)

lemma going_trans: "going i v a b \<Longrightarrow> going i w b c \<Longrightarrow> going i (v @ w) a c"
  unfolding going_def by (auto simp: still_def intro: frame_trans)

lemma going_ended: "going i v a b \<Longrightarrow> ended i b c \<Longrightarrow> (epoll a i = None \<Longrightarrow> epoll b i = None) \<Longrightarrow> ended i a c"
  unfolding going_def ended_def by (auto simp: still_def intro: frame_trans)

lemma closed_ended: "closed i ss ss' \<Longrightarrow> ended i ss ss'"
  by (auto simp: closed_def ended_def owned_def)

text \<open>What a list can be after some of it was written: empty, or a rest of one of its buffers and those behind it.\<close>

definition rest_of :: "write_buffer list \<Rightarrow> write_buffer list \<Rightarrow> bool" where
  "rest_of l l' \<longleftrightarrow> l' = [] \<or> (\<exists>pre wb wbs k. l = pre @ wb # wbs \<and> l' = wb\<lparr>wb_ptr := wb_ptr wb + k, wb_bytes := drop k (wb_bytes wb)\<rparr> # wbs \<and>
     k \<le> length (wb_bytes wb))"

lemma rest_of_same [simp]: "rest_of l l"
proof (cases l)
  case (Cons wb wbs)
  then show ?thesis unfolding rest_of_def by (intro disjI2 exI [of _ "[]"] exI [of _ wb] exI [of _ wbs] exI [of _ 0]) simp
qed (simp add: rest_of_def)

lemma rest_of_Cons: "rest_of l l' \<Longrightarrow> rest_of (wb # l) l'"
  unfolding rest_of_def by (metis append_Cons)

lemma wb_list_simps [simp]:
  "wb_list high (s\<lparr>wb_size := z\<rparr>) = wb_list high s" "wb_list high (s\<lparr>stat := t\<rparr>) = wb_list high s"
  by (simp_all add: wb_list_def)

lemma retry_write_le: "retry_write sz as = (Inr n, as') \<Longrightarrow> n \<le> sz"
  by (induction sz as rule: retry_write.induct) (auto split: if_splits)

lemma sys_write_facts:
  assumes "sys_write True i bs ss = (r, ss')"
  shows "slot ss' = slot ss" "epoll ss' = epoll ss" "frame i ss ss'" "freed ss' = freed ss" "soi ss' = soi ss"
    "written sid ss' = written sid ss @ (case r of Inl e \<Rightarrow> [] | Inr n \<Rightarrow> if sid = s_id (slot ss i) then take n bs else [])"
    "r = Inr n \<Longrightarrow> n \<le> length bs"
  using assms retry_write_le by (auto simp: sys_write_def split: prod.splits sum.splits)

lemma free_call_part [simp]: "free_call (wb\<lparr>wb_ptr := p, wb_bytes := bs\<rparr>) = free_call wb"
  by (simp add: free_call_def)

text \<open>The result of sending a list: the socket was closed, or \<^verbatim>\<open>w\<close> was written of it; the other list and the rest of a direct write are untouched.\<close>

definition list_sent :: "bool \<Rightarrow> bool \<Rightarrow> nat \<Rightarrow> write_buffer list \<Rightarrow> socket_server \<Rightarrow> poll_result \<Rightarrow> socket_server \<Rightarrow> bool" where
  "list_sent tcp high i l ss r ss' \<longleftrightarrow> (\<exists>m. r = Some (SOCKET_CLOSE, m) \<and> sm_id m = s_id (slot ss i) \<and> ended i ss ss') \<or>
     (r = None \<and> epoll ss' = epoll ss \<and> (\<exists>w. going i (if tcp then w else []) ss ss' \<and> bytes l = w @ bytes (wb_list high (slot ss' i)) \<and>
       wb_size (slot ss' i) = wb_size (slot ss i) - int (length w)) \<and> rest_of l (wb_list high (slot ss' i)) \<and>
       wb_list (\<not> high) (slot ss' i) = wb_list (\<not> high) (slot ss i) \<and> dw_buffer (slot ss' i) = dw_buffer (slot ss i) \<and>
       dw_offset (slot ss' i) = dw_offset (slot ss i) \<and> warn_size (slot ss' i) = warn_size (slot ss i))"

lemma list_sent_part:
  assumes "going i (if tcp then w else []) ss ss'" "epoll ss' = epoll ss" "bytes l = w @ bytes (wb_list high (slot ss' i))" "rest_of l (wb_list high (slot ss' i))"
    and "slot ss' i = (if high then s\<lparr>s_high := l', wb_size := wb_size s - int (length w), stat := t\<rparr>
      else s\<lparr>s_low := l', wb_size := wb_size s - int (length w), stat := t\<rparr>)" "s = slot ss i"
  shows "list_sent tcp high i l ss None ss'"
  using assms(1-4) unfolding list_sent_def assms(5,6) by (cases high) (auto simp: wb_list_def)

lemma list_sent_Cons:
  assumes g: "going i (if tcp then wb_bytes tmp else []) ss ss1" "epoll ss1 = epoll ss"
    and "slot ss1 i = (if high then s\<lparr>s_high := l', wb_size := wb_size s - int (length (wb_bytes tmp)), stat := t\<rparr>
      else s\<lparr>s_low := l', wb_size := wb_size s - int (length (wb_bytes tmp)), stat := t\<rparr>)" "s = slot ss i"
    and r: "list_sent tcp high i l ss1 r ss'"
  shows "list_sent tcp high i (tmp # l) ss r ss'"
proof -
  have s: "wb_list (\<not> high) (slot ss1 i) = wb_list (\<not> high) (slot ss i)" "wb_size (slot ss1 i) = wb_size (slot ss i) - int (length (wb_bytes tmp))"
    "dw_buffer (slot ss1 i) = dw_buffer (slot ss i)" "dw_offset (slot ss1 i) = dw_offset (slot ss i)" "warn_size (slot ss1 i) = warn_size (slot ss i)"
    "s_id (slot ss1 i) = s_id (slot ss i)"
    unfolding assms(3,4) by (cases high; simp add: wb_list_def)+
  show ?thesis
  proof (cases r)
    case None
    with r obtain w where w: "going i (if tcp then w else []) ss1 ss'" "bytes l = w @ bytes (wb_list high (slot ss' i))" "wb_size (slot ss' i) = wb_size (slot ss1 i) - int (length w)"
      by (auto simp: list_sent_def)
    have "going i (if tcp then wb_bytes tmp @ w else []) ss ss'" using going_trans [OF g(1) w(1)] by (cases tcp) simp_all
    moreover have "bytes (tmp # l) = (wb_bytes tmp @ w) @ bytes (wb_list high (slot ss' i))" using w(2) by simp
    moreover have "wb_size (slot ss' i) = wb_size (slot ss i) - int (length (wb_bytes tmp @ w))" using w(3) s(2) by simp
    ultimately show ?thesis using r None g(2) s unfolding list_sent_def by (metis option.distinct(1) rest_of_Cons)
  next
    case (Some a)
    with r s(6) g show ?thesis unfolding list_sent_def by (auto dest: going_ended)
  qed
qed

lemma send_list_tcp_sent:
  assumes "wb_list high (slot ss i) = l" "live (slot ss i)" "direct_ok (slot ss i)"
  shows "\<exists>r ss'. send_list_tcp high i l ss = Some (r, ss') \<and> list_sent True high i l ss r ss'"
  using assms
proof (induction l arbitrary: ss)
  case Nil
  then show ?case using going_refl by (auto simp: list_sent_def)
next
  case (Cons tmp wbs)
  obtain r ss1 where w: "sys_write True i (wb_bytes tmp) ss = (r, ss1)" by fastforce
  note f = sys_write_facts [OF w]
  show ?case
  proof (cases r)
    case (Inl e)
    have g: "going i [] ss ss1" using f Inl by (simp add: going_def)
    have "list_sent True high i (tmp # wbs) ss None ss1" using g f(1,2) Cons.prems(1) by (auto simp: list_sent_def intro!: exI [of _ "[]"])
    moreover obtain ss2 where c: "force_close i ss1 = Some (message_of (slot ss i), ss2)" "closed i ss1 ss2"
      using force_close_closed [of ss1 i] Cons.prems f(1) by auto
    moreover have "ended i ss ss2" using going_ended [OF g closed_ended [OF c(2)]] f(2) by simp
    ultimately show ?thesis using Inl by (auto simp: w list_sent_def message_of_def)
  next
    case (Inr n)
    let ?ss2 = "add_wb_size i (- int n) (stat_write i n ss1)"
    have f6: "written sid ss1 = written sid ss @ (if sid = s_id (slot ss i) then take n (wb_bytes tmp) else [])" for sid using f(6) Inr by simp
    have n: "n \<le> length (wb_bytes tmp)" using f(7) Inr by simp
    note defs = add_wb_size_def stat_write_def set_wb_list_def wb_list_def
    show ?thesis
    proof (cases "n = length (wb_bytes tmp)")
      case False
      let ?t = "tmp\<lparr>wb_ptr := wb_ptr tmp + n, wb_bytes := drop n (wb_bytes tmp)\<rparr>"
      let ?ss3 = "set_wb_list high i (?t # wbs) ?ss2"
      have "list_sent True high i (tmp # wbs) ss None ?ss3"
      proof (rule list_sent_part [where l' = "?t # wbs" and t = "stat (slot ?ss3 i)", OF _ _ _ _ _ refl])
        show "going i (if True then take n (wb_bytes tmp) else []) ss ?ss3"
          using f(1-5) f6 Cons.prems(1) by (cases high) (simp_all add: going_def still_def defs owned_def)
        have "rest_of (tmp # wbs) (?t # wbs)" unfolding rest_of_def using n by (intro disjI2 exI [of _ "[]"]) auto
        then show "rest_of (tmp # wbs) (wb_list high (slot ?ss3 i))" by (cases high) (simp_all add: defs)
      qed (use f(1,2) n in \<open>cases high; simp add: defs\<close>)+
      then show ?thesis using Inr False by (simp only: send_list_tcp.simps w Let_def prod.case sum.case if_True not_False_eq_True) blast
    next
      case True
      let ?ss3 = "write_buffer_free tmp (set_wb_list high i wbs ?ss2)"
      have "wb_list high (slot ?ss3 i) = wbs" "live (slot ?ss3 i)" "direct_ok (slot ?ss3 i)"
        using f(1) Cons.prems by (cases high; simp add: defs live_def direct_ok_def)+
      from Cons.IH [OF this] obtain r' ss' where r': "send_list_tcp high i wbs ?ss3 = Some (r', ss')" "list_sent True high i wbs ?ss3 r' ss'" by blast
      have "list_sent True high i (tmp # wbs) ss r' ss'"
      proof (rule list_sent_Cons [where l' = wbs and t = "stat (slot ?ss3 i)", OF _ _ _ refl r'(2)])
        show "going i (if True then wb_bytes tmp else []) ss ?ss3"
          using f(1-5) f6 Cons.prems(1) True by (cases high) (simp_all add: going_def still_def defs owned_def)
      qed (use f(1,2) True in \<open>cases high; simp add: defs\<close>)+
      then show ?thesis using r'(1) Inr True by (simp add: w Let_def)
    qed
  qed
qed

lemma sys_sendto_facts:
  assumes "sys_sendto i sa bs ss = (r, ss')"
  shows "slot ss' = slot ss" "epoll ss' = epoll ss" "frame i ss ss'" "freed ss' = freed ss" "soi ss' = soi ss" "written sid ss' = written sid ss"
  using assms by (auto simp: sys_sendto_def split: prod.splits sum.splits)

lemma rest_of_tl: "rest_of (wb # l) l"
  by (rule rest_of_Cons) simp

lemma send_list_udp_sent:
  assumes "wb_list high (slot ss i) = l" "\<forall>wb\<in>set l. wb_address wb \<noteq> None"
  shows "\<exists>r ss'. send_list_udp high i l ss = Some (r, ss') \<and> list_sent False high i l ss r ss'"
  using assms
proof (induction l arbitrary: ss)
  case Nil
  then show ?case using going_refl by (auto simp: list_sent_def)
next
  case (Cons tmp wbs)
  note defs = add_wb_size_def stat_write_def set_wb_list_def wb_list_def
  obtain address where address: "wb_address tmp = Some address" using Cons.prems(2) by auto
  have same: "list_sent False high i (tmp # wbs) ss None ss1" if "slot ss1 = slot ss" "epoll ss1 = epoll ss" "going i [] ss ss1" for ss1
    using that Cons.prems(1) by (auto simp: list_sent_def intro!: exI [of _ "[]"])
  have gone: "going i [] ss (drop_udp high i tmp wbs ss1)" "list_sent False high i (tmp # wbs) ss None (drop_udp high i tmp wbs ss1)"
    if "slot ss1 = slot ss" "epoll ss1 = epoll ss" "going i [] ss ss1" for ss1
  proof -
    let ?ss2 = "drop_udp high i tmp wbs ss1"
    show g: "going i [] ss ?ss2" using that Cons.prems(1) by (cases high) (simp_all add: going_def still_def defs owned_def drop_udp_def)
    show "list_sent False high i (tmp # wbs) ss None ?ss2"
    proof (rule list_sent_part [where w = "wb_bytes tmp" and l' = wbs and t = "stat (slot ?ss2 i)", OF _ _ _ _ _ refl])
      show "rest_of (tmp # wbs) (wb_list high (slot ?ss2 i))" using rest_of_tl by (cases high) (simp_all add: defs drop_udp_def)
    qed (use that g in \<open>cases high; simp add: defs drop_udp_def\<close>)+
  qed
  show ?case
  proof (cases "udp_socket_address (slot ss i) address")
    case None
    then show ?thesis using gone [OF refl refl going_refl] address by auto
  next
    case (Some sa)
    obtain r ss1 where w: "sys_sendto i sa (wb_bytes tmp) ss = (r, ss1)" by fastforce
    note f = sys_sendto_facts [OF w]
    have g: "going i [] ss ss1" using f by (simp add: going_def)
    show ?thesis
    proof (cases r)
      case (Inl e)
      then show ?thesis using same [OF f(1,2) g] gone [OF f(1,2) g] by (auto simp: address Some w)
    next
      case (Inr n)
      let ?ss3 = "write_buffer_free tmp (set_wb_list high i wbs (add_wb_size i (- int (length (wb_bytes tmp))) (stat_write i (length (wb_bytes tmp)) ss1)))"
      have "wb_list high (slot ?ss3 i) = wbs" by (cases high) (simp_all add: defs)
      from Cons.IH [OF this] Cons.prems(2) obtain r' ss' where r': "send_list_udp high i wbs ?ss3 = Some (r', ss')" "list_sent False high i wbs ?ss3 r' ss'"
        by auto
      have "list_sent False high i (tmp # wbs) ss r' ss'"
      proof (rule list_sent_Cons [where l' = wbs and t = "stat (slot ?ss3 i)", OF _ _ _ refl r'(2)])
        show "going i (if False then wb_bytes tmp else []) ss ?ss3"
          using f Cons.prems(1) by (cases high) (simp_all add: going_def still_def defs owned_def)
      qed (use f(1,2) in \<open>cases high; simp add: defs\<close>)+
      then show ?thesis using r'(1) Inr by (simp add: address Some w Let_def)
    qed
  qed
qed

lemma send_list_sent:
  assumes "live (slot ss i)" "direct_ok (slot ss i)" "protocol (slot ss i) \<noteq> PROTOCOL_TCP \<longrightarrow> (\<forall>wb\<in>set (wb_list high (slot ss i)). wb_address wb \<noteq> None)"
  shows "\<exists>r ss'. send_list high i ss = Some (r, ss') \<and> list_sent (protocol (slot ss i) = PROTOCOL_TCP) high i (wb_list high (slot ss i)) ss r ss'"
  using send_list_tcp_sent [OF refl assms(1,2)] send_list_udp_sent [OF refl] assms(3) by (auto simp: send_list_def)

section \<open>Sending what a socket has\<close>

lemma rest_of_address: "rest_of l l' \<Longrightarrow> \<forall>wb\<in>set l. wb_address wb \<noteq> None \<Longrightarrow> \<forall>wb\<in>set l'. wb_address wb \<noteq> None"
  by (auto simp: rest_of_def)

definition has_data :: "socket \<Rightarrow> bool" where
  "has_data s \<longleftrightarrow> s_high s \<noteq> [] \<or> s_low s \<noteq> [] \<or> dw_buffer s \<noteq> None"

text \<open>
  The result of sending what a socket has: it was closed, or \<^verbatim>\<open>w\<close> was written, of the rest of a direct write, of the high list, and of the buffers
  \<^verbatim>\<open>pre\<close> of the low list. What is left of these is a direct write and the high list. Either it goes on waiting for the
  event, or nothing is left and it does not.
\<close>

definition buffer_sent :: "nat \<Rightarrow> socket_server \<Rightarrow> poll_result \<Rightarrow> socket_server \<Rightarrow> bool" where
  "buffer_sent i ss r ss' \<longleftrightarrow> (let s = slot ss i; s' = slot ss' i in
     (\<exists>m. r = Some (SOCKET_CLOSE, m) \<and> sm_id m = s_id s \<and> ended i ss ss') \<or>
     ((r = None \<or> (\<exists>m. r = Some (SOCKET_WARNING, m))) \<and> data_ok s' \<and>
      (\<exists>w pre. going i (if protocol s = PROTOCOL_TCP then w else []) ss ss' \<and> s_low s = pre @ s_low s' \<and>
         w @ direct_rest s' @ bytes (s_high s') = direct_rest s @ bytes (s_high s) @ bytes pre) \<and>
      (epoll ss' i = epoll ss i \<and> (has_data s' \<longrightarrow> has_data s) \<or>
       \<not> has_data s' \<and> s_type s' \<noteq> T_HALFCLOSE \<and> epoll ss' i = map_option (\<lambda>_. False) (epoll ss i))))"

lemma buffer_sent_going:
  "going i (if protocol (slot ss i) = PROTOCOL_TCP then w else []) ss ss' \<Longrightarrow> data_ok (slot ss' i) \<Longrightarrow> s_low (slot ss i) = pre @ s_low (slot ss' i) \<Longrightarrow>
   w @ direct_rest (slot ss' i) @ bytes (s_high (slot ss' i)) = direct_rest (slot ss i) @ bytes (s_high (slot ss i)) @ bytes pre \<Longrightarrow>
   epoll ss' i = epoll ss i \<and> (has_data (slot ss' i) \<longrightarrow> has_data (slot ss i)) \<or>
     \<not> has_data (slot ss' i) \<and> s_type (slot ss' i) \<noteq> T_HALFCLOSE \<and> epoll ss' i = map_option (\<lambda>_. False) (epoll ss i) \<Longrightarrow>
   r = None \<or> (\<exists>m. r = Some (SOCKET_WARNING, m)) \<Longrightarrow> buffer_sent i ss r ss'"
  unfolding buffer_sent_def Let_def by blast

lemma force_close_ended:
  "going i v ss ss1 \<Longrightarrow> (epoll ss i = None \<Longrightarrow> epoll ss1 i = None) \<Longrightarrow> live (slot ss1 i) \<Longrightarrow> direct_ok (slot ss1 i) \<Longrightarrow>
   \<exists>m ss'. force_close i ss1 = Some (m, ss') \<and> sm_id m = s_id (slot ss i) \<and> ended i ss ss'"
  using force_close_closed [of ss1 i] by (fastforce simp: message_of_def going_def still_def intro: going_ended [OF _ closed_ended])

text \<open>Step 4.\<close>

lemma send_buffer_done_sent:
  assumes g: "going i (if protocol (slot ss i) = PROTOCOL_TCP then w else []) ss ss1" and e: "epoll ss1 i = epoll ss i"
    and empty: "s_high (slot ss1 i) = []" "s_low (slot ss1 i) = []" "dw_buffer (slot ss1 i) = None" "wb_size (slot ss1 i) = 0"
    and live: "live (slot ss i)" and w: "w = direct_rest (slot ss i) @ bytes (s_high (slot ss i)) @ bytes (s_low (slot ss i))"
  shows "\<exists>r ss'. send_buffer_done i ss1 = Some (r, ss') \<and> buffer_sent i ss r ss'"
proof -
  let ?ss2 = "sp_write i False ss1"
  have g2: "going i (if protocol (slot ss i) = PROTOCOL_TCP then w else []) ss ?ss2" using g by (simp add: going_def)
  have st: "s_type (slot ss1 i) = s_type (slot ss i)" using g by (simp add: going_def still_def)
  have sent: "buffer_sent i ss r ss'" if "r = None \<or> (\<exists>m. r = Some (SOCKET_WARNING, m))" "s_type (slot ss i) \<noteq> T_HALFCLOSE"
    "ss' = ?ss2 \<or> ss' = set_slot i (\<lambda>s. s\<lparr>warn_size := 0\<rparr>) ?ss2" for r ss'
  proof (rule buffer_sent_going [where w = w and pre = "s_low (slot ss i)"])
    show "going i (if protocol (slot ss i) = PROTOCOL_TCP then w else []) ss ss'"
      using that(3) g2 by (auto simp: going_def still_def owned_def)
  qed (use that empty e st w in \<open>auto simp: data_ok_def direct_rest_def has_data_def\<close>)
  show ?thesis
  proof (cases "s_type (slot ss i) = T_HALFCLOSE")
    case True
    have "live (slot ?ss2 i)" "direct_ok (slot ?ss2 i)" using live st empty by (simp_all add: live_def direct_ok_def)
    then obtain m ss' where "force_close i ?ss2 = Some (m, ss')" "sm_id m = s_id (slot ss i)" "ended i ss ss'"
      using force_close_ended [OF g2] e by auto
    then show ?thesis using True empty st by (auto simp: send_buffer_done_def send_buffer_empty_def buffer_sent_def Let_def)
  next
    case False
    then show ?thesis using empty st sent by (simp add: send_buffer_done_def send_buffer_empty_def Let_def)
  qed
qed

end
