(* ===== verification/SocketSend.thy ===== *)
theory SocketSend
  imports SocketInv
begin

text \<open>
  Sending and direct writes: what \<^verbatim>\<open>send_buffer\<close>, \<^verbatim>\<open>send_socket\<close> and \<^verbatim>\<open>socket_server_send\<close> do to a socket and to the data it has.
\<close>

lemma wb_list_bool [simp]: "wb_list True s = s_high s" "wb_list False s = s_low s"
  by (simp_all add: wb_list_def)

lemma rest_of_fresh:
  assumes "rest_of l l'" "\<forall>wb\<in>set l. wb_ptr wb = wb_buffer wb" "bytes l = w @ bytes l'"
  obtains "l' = []"
    | wb wbs pre k where "l' = wb\<lparr>wb_ptr := wb_ptr wb + k, wb_bytes := drop k (wb_bytes wb)\<rparr> # wbs" "k \<noteq> 0" "list_uncomplete l'" "l = pre @ wb # wbs"
    | wb wbs pre where "l' = wb # wbs" "\<not> list_uncomplete l'" "l = pre @ wb # wbs" "w = bytes pre"
proof (cases "l' = []")
  case False
  with assms(1) obtain pre wb wbs k where l: "l = pre @ wb # wbs" "l' = wb\<lparr>wb_ptr := wb_ptr wb + k, wb_bytes := drop k (wb_bytes wb)\<rparr> # wbs"
    by (auto simp: rest_of_def)
  have "wb_ptr wb = wb_buffer wb" using assms(2) l(1) by simp
  then show ?thesis
    using that(2) [OF l(2) _ _ l(1)] that(3) [of wb wbs pre] l assms(3) by (cases "k = 0") (auto simp: list_uncomplete_def)
qed (use that(1) in blast)

lemma list_sent_None:
  assumes "list_sent tcp high i l ss None ss'"
  obtains w where "going i (if tcp then w else []) ss ss'" "bytes l = w @ bytes (wb_list high (slot ss' i))"
    "wb_size (slot ss' i) = wb_size (slot ss i) - int (length w)" "rest_of l (wb_list high (slot ss' i))"
    "wb_list (\<not> high) (slot ss' i) = wb_list (\<not> high) (slot ss i)" "dw_buffer (slot ss' i) = dw_buffer (slot ss i)" "epoll ss' = epoll ss"
    "s_type (slot ss' i) = s_type (slot ss i)" "protocol (slot ss' i) = protocol (slot ss i)" "s_id (slot ss' i) = s_id (slot ss i)"
  using assms unfolding list_sent_def by (auto simp: going_def still_def)

lemma list_sent_Some:
  "list_sent tcp high i l ss (Some a) ss' \<Longrightarrow> \<exists>m. a = (SOCKET_CLOSE, m) \<and> sm_id m = s_id (slot ss i) \<and> ended i ss ss'"
  by (simp add: list_sent_def)

lemma data_address:
  "data_ok s \<Longrightarrow> protocol s \<noteq> PROTOCOL_TCP \<longrightarrow> (\<forall>wb\<in>set (wb_list high s). wb_address wb \<noteq> None)"
  by (cases high) (simp_all add: data_ok_def)

lemma is_close_simps [simp]: "is_close (Some (SOCKET_CLOSE, m))" "\<not> is_close None" "\<not> is_close (Some (SOCKET_WARNING, m))"
  by (simp_all add: is_close_def)

lemma buffer_sent_close:
  "going i v ss ss1 \<Longrightarrow> (epoll ss i = None \<Longrightarrow> epoll ss1 i = None) \<Longrightarrow> ended i ss1 ss' \<Longrightarrow> sm_id m = s_id (slot ss1 i) \<Longrightarrow>
   buffer_sent i ss (Some (SOCKET_CLOSE, m)) ss'"
  unfolding buffer_sent_def Let_def by (auto simp: going_def still_def intro: going_ended)

text \<open>Steps 2 to 4, when the high list is empty.\<close>

lemma low_list_sent:
  assumes g: "going i (if protocol (slot ss i) = PROTOCOL_TCP then w else []) ss ss2" and e: "epoll ss2 i = epoll ss i" and d: "data_ok (slot ss2 i)"
    and empty: "dw_buffer (slot ss2 i) = None" "s_high (slot ss2 i) = []" and w: "w = direct_rest (slot ss i) @ bytes (s_high (slot ss i))"
    and low: "s_low (slot ss2 i) = s_low (slot ss i)" and live: "live (slot ss i)"
  shows "\<exists>r ss'. (if s_low (slot ss2 i) = [] then send_buffer_done i ss2
     else do {
       (r, ss) \<leftarrow> send_list False i ss2;
       if is_close r then Some (r, ss)
       else if list_uncomplete (s_low (slot ss i)) then do { ss \<leftarrow> raise_uncomplete i ss; Some (None, ss) }
       else if s_low (slot ss i) \<noteq> [] then Some (None, ss)
       else send_buffer_done i ss }) = Some (r, ss') \<and> buffer_sent i ss r ss'"
proof (cases "s_low (slot ss2 i) = []")
  case True
  then show ?thesis using send_buffer_done_sent [OF g e empty(2) True empty(1) _ live] d empty low w by (simp add: data_ok_def)
next
  case False
  let ?tcp = "protocol (slot ss i) = PROTOCOL_TCP"
  have same: "protocol (slot ss2 i) = protocol (slot ss i)" "live (slot ss2 i)" "s_id (slot ss2 i) = s_id (slot ss i)"
    using g live by (simp_all add: going_def still_def live_def)
  obtain r ss3 where r: "send_list False i ss2 = Some (r, ss3)" "list_sent ?tcp False i (s_low (slot ss2 i)) ss2 r ss3"
    using send_list_sent [OF same(2) data_direct [OF d] data_address [OF d], of False] same(1) by auto
  show ?thesis
  proof (cases r)
    case (Some a)
    with list_sent_Some r(2) obtain m where "r = Some (SOCKET_CLOSE, m)" "sm_id m = s_id (slot ss2 i)" "ended i ss2 ss3" by blast
    then show ?thesis using False r(1) buffer_sent_close [OF g] e by simp
  next
    case None
    with r(2) obtain w2 where l: "going i (if ?tcp then w2 else []) ss2 ss3" "bytes (s_low (slot ss2 i)) = w2 @ bytes (s_low (slot ss3 i))"
      "wb_size (slot ss3 i) = wb_size (slot ss2 i) - int (length w2)" "rest_of (s_low (slot ss2 i)) (s_low (slot ss3 i))"
      "s_high (slot ss3 i) = []" "dw_buffer (slot ss3 i) = None" "epoll ss3 = epoll ss2" "protocol (slot ss3 i) = protocol (slot ss2 i)"
      using empty by (auto elim!: list_sent_None)
    have g3: "going i (if ?tcp then w @ w2 else []) ss ss3" using going_trans [OF g l(1)] by (cases ?tcp) simp_all
    have a: "?tcp \<or> (\<forall>wb\<in>set (s_low (slot ss3 i)). wb_address wb \<noteq> None)"
      using rest_of_address [OF l(4)] d same(1) by (auto simp: data_ok_def)
    have z: "wb_size (slot ss3 i) = int (length (bytes (s_low (slot ss3 i))))"
      using l(2,3) d empty by (simp add: data_ok_def)
    have data: "has_data (slot ss i)" using False low by (simp add: has_data_def)
    have "\<forall>wb\<in>set (s_low (slot ss2 i)). wb_ptr wb = wb_buffer wb" using d by (simp add: data_ok_def)
    from l(4) this l(2) show ?thesis
    proof (cases rule: rest_of_fresh)
      case 1
      have w3: "w @ w2 = direct_rest (slot ss i) @ bytes (s_high (slot ss i)) @ bytes (s_low (slot ss i))" using l(2) 1 w low by simp
      show ?thesis using send_buffer_done_sent [OF g3 _ l(5) 1 l(6) _ live w3] z 1 l(7) e r(1) None False by (simp add: list_uncomplete_def)
    next
      case (2 wb wbs pre k)
      let ?ss4 = "set_slot i (\<lambda>s. s\<lparr>s_low := wbs, s_high := [hd (s_low (slot ss3 i))]\<rparr>) ss3"
      have "raise_uncomplete i ss3 = Some ?ss4" using 2(1) l(5) by (simp add: raise_uncomplete_def fun_eq_iff)
      moreover have "buffer_sent i ss None ?ss4"
      proof (rule buffer_sent_going [where w = "w @ w2" and pre = "pre @ [wb]"])
        show "going i (if ?tcp then w @ w2 else []) ss ?ss4" using g3 l(5) 2(1) by (simp add: going_def still_def owned_def)
        show "data_ok (slot ?ss4 i)" using d z a l(6,8) same(1) 2(1,4) by (auto simp: data_ok_def)
        show "(w @ w2) @ direct_rest (slot ?ss4 i) @ bytes (s_high (slot ?ss4 i)) =
          direct_rest (slot ss i) @ bytes (s_high (slot ss i)) @ bytes (pre @ [wb])"
          using l(2,6) 2(1,4) w by (simp add: direct_rest_def)
      qed (use 2(4) low l(7) e data in auto)
      ultimately show ?thesis using False r(1) None 2(3) by simp
    next
      case (3 wb wbs pre)
      have "buffer_sent i ss None ss3"
      proof (rule buffer_sent_going [where w = "w @ w2" and pre = pre, OF g3])
        show "data_ok (slot ss3 i)" using d z a l(5,6,8) same(1) 3(1,3) by (auto simp: data_ok_def)
      qed (use 3 low l(5-7) w e data in \<open>auto simp: direct_rest_def\<close>)
      then show ?thesis using False r(1) None 3(1,2) by simp
    qed
  qed
qed

text \<open>\<^verbatim>\<open>send_buffer_\<close>, seen from the state before the rest of a direct write was put in front.\<close>

lemma send_buffers_sent:
  assumes g: "going i [] ss ss1" and e: "epoll ss1 i = epoll ss i" and d: "data_ok (slot ss1 i)" "dw_buffer (slot ss1 i) = None"
    and high: "bytes (s_high (slot ss1 i)) = direct_rest (slot ss i) @ bytes (s_high (slot ss i))" "s_high (slot ss1 i) \<noteq> [] \<longrightarrow> has_data (slot ss i)"
    and low: "s_low (slot ss1 i) = s_low (slot ss i)" and live: "live (slot ss i)"
  shows "\<exists>r ss'. send_buffers i ss1 = Some (r, ss') \<and> buffer_sent i ss r ss'"
proof -
  let ?tcp = "protocol (slot ss i) = PROTOCOL_TCP"
  have same: "protocol (slot ss1 i) = protocol (slot ss i)" "live (slot ss1 i)" "s_id (slot ss1 i) = s_id (slot ss i)"
    using g live by (simp_all add: going_def still_def live_def)
  have fresh: "\<not> list_uncomplete (s_low (slot ss1 i))" using d(1) by (auto simp: list_uncomplete_def data_ok_def split: list.split)
  obtain r ss2 where r: "send_list True i ss1 = Some (r, ss2)" "list_sent ?tcp True i (s_high (slot ss1 i)) ss1 r ss2"
    using send_list_sent [OF same(2) data_direct [OF d(1)] data_address [OF d(1)], of True] same(1) by auto
  show ?thesis
  proof (cases r)
    case (Some a)
    with list_sent_Some r(2) obtain m where "r = Some (SOCKET_CLOSE, m)" "sm_id m = s_id (slot ss1 i)" "ended i ss1 ss2" by blast
    then show ?thesis using r(1) buffer_sent_close [OF g] e fresh by (simp add: send_buffers_def)
  next
    case None
    with r(2) obtain w where l: "going i (if ?tcp then w else []) ss1 ss2" "bytes (s_high (slot ss1 i)) = w @ bytes (s_high (slot ss2 i))"
      "wb_size (slot ss2 i) = wb_size (slot ss1 i) - int (length w)" "rest_of (s_high (slot ss1 i)) (s_high (slot ss2 i))"
      "s_low (slot ss2 i) = s_low (slot ss1 i)" "dw_buffer (slot ss2 i) = None" "epoll ss2 = epoll ss1" "protocol (slot ss2 i) = protocol (slot ss1 i)"
      using d(2) by (auto elim!: list_sent_None)
    have g2: "going i (if ?tcp then w else []) ss ss2" using going_trans [OF g l(1)] by simp
    have d2: "data_ok (slot ss2 i)"
      using d l(2,3,5,6,8) rest_of_address [OF l(4)] by (auto simp: data_ok_def)
    show ?thesis
    proof (cases "s_high (slot ss2 i) = []")
      case True
      then have "w = direct_rest (slot ss i) @ bytes (s_high (slot ss i))" using l(2) high(1) by simp
      from low_list_sent [OF g2 _ d2 l(6) True this _ live] l(5,7) e low show ?thesis
        using r(1) None True fresh by (simp add: send_buffers_def)
    next
      case False
      then have "has_data (slot ss i)" using l(2,4) high by (auto simp: rest_of_def)
      then have "buffer_sent i ss None ss2"
        using False l(2,5-7) e low high(1) by (intro buffer_sent_going [where w = w and pre = "[]", OF g2 d2]) (auto simp: direct_rest_def)
      then show ?thesis using r(1) None False fresh by (simp add: send_buffers_def)
    qed
  qed
qed

lemma trylock_simps [simp]:
  "slot (snd (socket_trylock ss)) = slot ss" "epoll (snd (socket_trylock ss)) = epoll ss" "frame i ss0 (snd (socket_trylock ss)) = frame i ss0 ss"
  "written sid (snd (socket_trylock ss)) = written sid ss" "freed (snd (socket_trylock ss)) = freed ss" "soi (snd (socket_trylock ss)) = soi ss"
  "pipe (snd (socket_trylock ss)) = pipe ss"
  by (simp_all add: socket_trylock_def split: prod.split)

lemma send_buffer_sent:
  assumes "live (slot ss i)" "data_ok (slot ss i)" "soi ss = None"
  shows "\<exists>r ss'. send_buffer i ss = Some (r, ss') \<and> buffer_sent i ss r ss'"
proof -
  obtain locked ss1 where lock: "socket_trylock ss = (locked, ss1)" by fastforce
  then have f: "slot ss1 = slot ss" "epoll ss1 = epoll ss" "soi ss1 = None" "going i [] ss ss1"
    using trylock_simps [where ss = ss] frame_refl [of i ss] assms(3) by (auto simp: going_def)
  have here: "buffer_sent i ss None ss1"
    using f assms(2) by (intro buffer_sent_going [where w = "[]" and pre = "[]"]) simp_all
  let ?sent = "\<lambda>ss2. \<exists>r ss'. send_buffers i ss2 = Some (r, ss') \<and> buffer_sent i ss r ss'"
  show ?thesis
  proof (cases locked)
    case False
    then show ?thesis using lock here by (simp add: send_buffer_def)
  next
    case True
    have "\<exists>ss2. take_direct i ss1 = Some ss2 \<and> ?sent ss2"
    proof (cases "dw_buffer (slot ss i)")
      case None
      then have "?sent ss1" using f assms(1,2)
        by (intro send_buffers_sent) (auto simp: direct_rest_def has_data_def)
      then show ?thesis using None f(1) by (simp add: take_direct_def)
    next
      case (Some pl)
      then have pl: "0 \<le> pl_sz pl" "protocol (slot ss i) = PROTOCOL_TCP" using assms(2) by (simp_all add: data_ok_def)
      let ?buf = "\<lparr>wb_buffer = pl_buffer pl, wb_ptr = pl_buffer pl + dw_offset (slot ss i), wb_bytes = drop (dw_offset (slot ss i)) (pl_bytes pl),
        wb_userobject = False, wb_address = None\<rparr>"
      let ?ss2 = "set_slot i (\<lambda>s. s\<lparr>wb_size := wb_size s + int (length (wb_bytes ?buf)), s_high := ?buf # s_high s, dw_buffer := None\<rparr>) ss1"
      have "take_direct i ss1 = Some ?ss2" using Some f(1) pl by (simp add: take_direct_def send_object_init_def Let_def)
      moreover have "?sent ?ss2"
      proof (rule send_buffers_sent)
        show "going i [] ss ?ss2" using f Some by (simp add: going_def still_def owned_def free_call_def)
        show "data_ok (slot ?ss2 i)" using assms(2) f(1) pl Some by (auto simp: data_ok_def)
      qed (use f assms Some in \<open>auto simp: direct_rest_def has_data_def\<close>)
      ultimately show ?thesis by blast
    qed
    with True lock show ?thesis by (auto simp: send_buffer_def)
  qed
qed

section \<open>A message to send\<close>

text \<open>
  What happens to a message for a socket: the socket refuses it and it is freed, UDP sends it at once, or it joins the data of the
  socket, at the end of one list. The high list is also taken when nothing is buffered.
\<close>

definition fresh_buffer :: "payload \<Rightarrow> u8 \<Rightarrow> write_buffer \<Rightarrow> bool" where
  "fresh_buffer pl proto buf \<longleftrightarrow> wb_bytes buf = pl_bytes pl \<and> wb_ptr buf = wb_buffer buf \<and> free_call buf = Free (pl_buffer pl) \<and>
     (proto \<noteq> PROTOCOL_TCP \<longrightarrow> wb_address buf \<noteq> None)"

definition joined :: "bool \<Rightarrow> payload \<Rightarrow> socket \<Rightarrow> socket \<Rightarrow> bool" where
  "joined high pl s s' \<longleftrightarrow> (\<exists>buf. fresh_buffer pl (protocol s) buf \<and>
     (if high then s_high s' = s_high s @ [buf] \<and> s_low s' = s_low s else s_low s' = s_low s @ [buf] \<and> s_high s' = s_high s)) \<and>
     wb_size s' = wb_size s + int (length (pl_bytes pl)) \<and> dw_buffer s' = dw_buffer s \<and> dw_offset s' = dw_offset s \<and> still s s'"

definition accepts :: "sock_type \<Rightarrow> bool" where
  "accepts t \<longleftrightarrow> t \<noteq> T_INVALID \<and> t \<noteq> T_HALFCLOSE \<and> t \<noteq> T_PACCEPT \<and> t \<noteq> T_PLISTEN \<and> t \<noteq> T_LISTEN"

lemma joined_data: "joined high pl s s' \<Longrightarrow> data_ok s \<Longrightarrow> data_ok s'"
  by (cases high) (auto simp: joined_def data_ok_def still_def fresh_buffer_def)

lemma joined_owned: "joined high pl s s' \<Longrightarrow> owned s' = add_mset (Free (pl_buffer pl)) (owned s)"
  by (cases high) (auto simp: joined_def owned_def fresh_buffer_def)

lemma joined_still: "joined high pl s s' \<Longrightarrow> still s s'"
  by (simp add: joined_def)

definition dropped :: "nat \<Rightarrow> payload \<Rightarrow> socket_server \<Rightarrow> socket_server \<Rightarrow> bool" where
  "dropped i pl ss ss' \<longleftrightarrow> frame i ss ss' \<and> (\<forall>n. written n ss' = written n ss) \<and> freed ss' = add_mset (Free (pl_buffer pl)) (freed ss) \<and>
     epoll ss' i = epoll ss i \<and> (\<exists>t. slot ss' i = (slot ss i)\<lparr>stat := t\<rparr>)"

definition queued :: "nat \<Rightarrow> bool \<Rightarrow> payload \<Rightarrow> socket_server \<Rightarrow> socket_server \<Rightarrow> bool" where
  "queued i high pl ss ss' \<longleftrightarrow> frame i ss ss' \<and> (\<forall>n. written n ss' = written n ss) \<and> freed ss' = freed ss \<and> joined high pl (slot ss i) (slot ss' i) \<and>
     epoll ss' i = (if send_buffer_empty (slot ss i) \<and> s_type (slot ss i) = T_CONNECTED then map_option (\<lambda>_. True) (epoll ss i) else epoll ss i)"

lemma stat_same: "\<exists>t. s = s\<lparr>stat := t\<rparr>"
  by (rule exI [of _ "stat s"]) simp

lemma warn_same: "wb_size (s\<lparr>warn_size := w\<rparr>) = wb_size s" "s_high (s\<lparr>warn_size := w\<rparr>) = s_high s" "s_low (s\<lparr>warn_size := w\<rparr>) = s_low s"
  "dw_buffer (s\<lparr>warn_size := w\<rparr>) = dw_buffer s" "dw_offset (s\<lparr>warn_size := w\<rparr>) = dw_offset s" "still s0 (s\<lparr>warn_size := w\<rparr>) = still s0 s"
  by (simp_all add: still_def)

lemma joined_warn: "joined high pl s (s'\<lparr>warn_size := w\<rparr>) = joined high pl s s'"
  by (simp only: joined_def warn_same)

lemma queued_warn: "queued i high pl ss0 (set_slot i (\<lambda>s. s\<lparr>warn_size := f s\<rparr>) ss) = queued i high pl ss0 ss"
  by (simp only: queued_def frame_simps log_simps slot_simps fun_upd_same joined_warn)

lemma warn_check_facts:
  assumes "warn_check i ss = (r, ss')"
  shows "r = None \<or> (\<exists>m. r = Some (SOCKET_WARNING, m))" "queued i high pl ss0 ss' = queued i high pl ss0 ss"
proof -
  obtain m f where "warn_check i ss = (Some (SOCKET_WARNING, m), set_slot i (\<lambda>s. s\<lparr>warn_size := f s\<rparr>) ss) \<or> warn_check i ss = (None, ss)"
    unfolding warn_check_def Let_def by metis
  then show "r = None \<or> (\<exists>m. r = Some (SOCKET_WARNING, m))" "queued i high pl ss0 ss' = queued i high pl ss0 ss"
    using assms queued_warn by auto
qed

lemma queued_append:
  assumes "0 \<le> pl_sz pl" "protocol (slot ss i) \<noteq> PROTOCOL_TCP \<longrightarrow> address \<noteq> None" "frame i ss0 ss" "\<And>n. written n ss = written n ss0"
    "freed ss = freed ss0" "slot ss = slot ss0" "epoll ss = epoll ss0" "soi ss = None"
  shows "\<exists>ss'. append_sendbuffer high i pl address ss = Some ss' \<and>
    queued i high pl ss0 (if send_buffer_empty (slot ss0 i) \<and> s_type (slot ss0 i) = T_CONNECTED then sp_write i True ss' else ss')"
proof -
  let ?buf = "\<lparr>wb_buffer = pl_buffer pl, wb_ptr = pl_buffer pl, wb_bytes = pl_bytes pl, wb_userobject = False, wb_address = address\<rparr>"
  let ?ss' = "add_wb_size i (int (length (pl_bytes pl))) (set_wb_list high i (wb_list high (slot ss i) @ [?buf]) ss)"
  have "append_sendbuffer high i pl address ss = Some ?ss'" using assms(1) by (simp add: append_sendbuffer_def send_object_init_def)
  moreover have "joined high pl (slot ss0 i) (slot ?ss' i)"
    unfolding joined_def using assms(2,6) by (cases high) (auto simp: add_wb_size_def set_wb_list_def still_def free_call_def fresh_buffer_def intro!: exI [of _ ?buf])
  moreover have "frame i ss0 ?ss'" "\<And>n. written n ?ss' = written n ss0" "freed ?ss' = freed ss0" "epoll ?ss' = epoll ss0"
    using assms(3-7) by (simp_all add: add_wb_size_def set_wb_list_def)
  ultimately show ?thesis by (intro exI [of _ ?ss']) (simp add: queued_def)
qed

lemma send_socket_sent:
  assumes pl: "0 \<le> pl_sz pl" and "soi ss = None"
  shows "\<exists>r ss'. send_socket sid pl high address ss = Some (r, ss') \<and> (r = None \<or> (\<exists>m. r = Some (SOCKET_WARNING, m))) \<and>
    (let i = HASH_ID sid; s = slot ss i in
     if s_id s \<noteq> sid \<or> \<not> accepts (s_type s) then r = None \<and> dropped i pl ss ss'
     else if protocol s = PROTOCOL_TCP then queued i (high \<or> send_buffer_empty s \<and> s_type s = T_CONNECTED) pl ss ss'
     else dropped i pl ss ss' \<or> queued i high pl ss ss')"
proof -
  let ?i = "HASH_ID sid" and ?s = "slot ss (HASH_ID sid)"
  let ?empty = "send_buffer_empty ?s \<and> s_type ?s = T_CONNECTED"
  have init: "send_object_init ss pl = Some (pl_buffer pl, pl_bytes pl, False)" using pl by (simp add: send_object_init_def)
  have drop: "dropped ?i pl ss (free_func (pl_buffer pl) False ss)" by (auto simp: dropped_def intro: stat_same)
  have q: "\<exists>r ss'. (do { ss \<leftarrow> append_sendbuffer h ?i pl a ss1; Some (warn_check ?i (if ?empty then sp_write ?i True ss else ss)) }) = Some (r, ss') \<and>
      (r = None \<or> (\<exists>m. r = Some (SOCKET_WARNING, m))) \<and> queued ?i h pl ss ss'"
    if hyps: "protocol ?s \<noteq> PROTOCOL_TCP \<longrightarrow> a \<noteq> None" "frame ?i ss ss1" "\<And>n. written n ss1 = written n ss" "freed ss1 = freed ss" "slot ss1 = slot ss"
      "epoll ss1 = epoll ss" "soi ss1 = None" for h a ss1
  proof -
    from hyps have a: "protocol (slot ss1 ?i) \<noteq> PROTOCOL_TCP \<longrightarrow> a \<noteq> None" by simp
    obtain ss2 where ss2: "append_sendbuffer h ?i pl a ss1 = Some ss2" "queued ?i h pl ss (if ?empty then sp_write ?i True ss2 else ss2)"
      using queued_append [OF pl a hyps(2-7), of h] by blast
    obtain r ss3 where "warn_check ?i (if ?empty then sp_write ?i True ss2 else ss2) = (r, ss3)" by fastforce
    with warn_check_facts [OF this] ss2 show ?thesis by auto
  qed
  consider "s_id ?s \<noteq> sid \<or> \<not> accepts (s_type ?s)" | "s_id ?s = sid" "accepts (s_type ?s)" "protocol ?s = PROTOCOL_TCP"
    | "s_id ?s = sid" "accepts (s_type ?s)" "protocol ?s \<noteq> PROTOCOL_TCP" "\<not> ?empty"
    | "s_id ?s = sid" "accepts (s_type ?s)" "protocol ?s \<noteq> PROTOCOL_TCP" "?empty" by blast
  then show ?thesis
  proof cases
    case 1
    then show ?thesis using drop by (auto simp: send_socket_def init Let_def accepts_def)
  next
    case 2
    define h where "h \<longleftrightarrow> high \<or> ?empty"
    obtain r ss' where r: "(do { ss \<leftarrow> append_sendbuffer h ?i pl None ss; Some (warn_check ?i (if ?empty then sp_write ?i True ss else ss)) }) = Some (r, ss')"
      "r = None \<or> (\<exists>m. r = Some (SOCKET_WARNING, m))" "queued ?i h pl ss ss'"
      using q [of None ss h, OF _ frame_refl refl refl refl refl assms(2)] 2(3) by blast
    have "send_socket sid pl high address ss = Some (r, ss')"
      using 2 r(1) by (auto simp: send_socket_def init Let_def accepts_def h_def split: if_splits)
    then show ?thesis using 2 r(2,3) by (simp add: Let_def h_def)
  next
    case 3
    let ?a = "Some (case address of None \<Rightarrow> p_address ?s | Some a \<Rightarrow> a)"
    obtain r ss' where r: "(do { ss \<leftarrow> append_sendbuffer high ?i pl ?a ss; Some (warn_check ?i (if ?empty then sp_write ?i True ss else ss)) }) = Some (r, ss')"
      "r = None \<or> (\<exists>m. r = Some (SOCKET_WARNING, m))" "queued ?i high pl ss ss'"
      using q [of ?a ss high, OF _ frame_refl refl refl refl refl assms(2)] by blast
    have "send_socket sid pl high address ss = Some (r, ss')"
      using 3 r(1) by (auto simp: send_socket_def init Let_def accepts_def)
    then show ?thesis using 3 r(2,3) by (simp add: Let_def)
  next
    case 4
    let ?a = "case address of None \<Rightarrow> p_address ?s | Some a \<Rightarrow> a"
    show ?thesis
    proof (cases "udp_socket_address ?s ?a")
      case None
      then show ?thesis using 4 drop by (auto simp: send_socket_def init Let_def accepts_def)
    next
      case (Some sa)
      obtain r1 ss1 where w: "sys_sendto ?i sa (pl_bytes pl) ss = (r1, ss1)" by fastforce
      note f = sys_sendto_facts [OF w]
      show ?thesis
      proof (cases "r1 = Inr (length (pl_bytes pl))")
        case True
        have "dropped ?i pl ss (free_func (pl_buffer pl) False (stat_write ?i (length (pl_bytes pl)) ss1))"
          using f by (auto simp: dropped_def stat_write_def)
        then show ?thesis using 4 Some w True by (auto simp: send_socket_def init Let_def accepts_def)
      next
        case False
        obtain r ss' where r: "(do { ss \<leftarrow> append_sendbuffer high ?i pl (Some ?a) ss1; Some (warn_check ?i (if ?empty then sp_write ?i True ss else ss)) }) = Some (r, ss')"
          "r = None \<or> (\<exists>m. r = Some (SOCKET_WARNING, m))" "queued ?i high pl ss ss'"
          using q [of "Some ?a" ss1 high, OF _ f(3) f(6) f(4) f(1) f(2) f(5) [unfolded assms(2)]] by blast
        have "send_socket sid pl high address ss = Some (r, ss')"
          using 4 r(1) Some w False by (simp add: send_socket_def init Let_def accepts_def)
        then show ?thesis using 4 r(2,3) by (simp add: Let_def)
      qed
    qed
  qed
qed

section \<open>A direct write\<close>

lemma sys_write_once:
  assumes "sys_write False i bs ss = (r, ss')"
  shows "slot ss' = slot ss" "epoll ss' = epoll ss" "frame i ss ss'" "freed ss' = freed ss" "soi ss' = soi ss"
    "written sid ss' = written sid ss @ (if sid = s_id (slot ss i) then take (case r of Inl e \<Rightarrow> 0 | Inr n \<Rightarrow> n) bs else [])"
    "r = Inr n \<Longrightarrow> n \<le> length bs"
  using assms by (auto simp: sys_write_def once_write_def split: list.splits sum.splits)

text \<open>The first \<^verbatim>\<open>n\<close> bytes of the message were written; the rest, if any, is the rest of a direct write.\<close>

definition direct_sent :: "nat \<Rightarrow> nat \<Rightarrow> payload \<Rightarrow> socket_server \<Rightarrow> socket_server \<Rightarrow> bool" where
  "direct_sent i n pl ss ss' \<longleftrightarrow> frame i ss ss' \<and> n \<le> length (pl_bytes pl) \<and>
     (\<forall>sid. written sid ss' = written sid ss @ (if sid = s_id (slot ss i) then take n (pl_bytes pl) else [])) \<and>
     (\<exists>t. if n = length (pl_bytes pl)
       then slot ss' i = (slot ss i)\<lparr>stat := t\<rparr> \<and> freed ss' = add_mset (Free (pl_buffer pl)) (freed ss) \<and> epoll ss' i = epoll ss i
       else slot ss' i = (slot ss i)\<lparr>stat := t, dw_buffer := Some pl, dw_offset := n\<rparr> \<and> freed ss' = freed ss \<and>
         epoll ss' i = map_option (\<lambda>_. True) (epoll ss i))"

lemma direct_write_sent:
  assumes "0 \<le> pl_sz pl" "protocol (slot ss (HASH_ID sid)) = PROTOCOL_TCP"
  shows "\<exists>n ss'. direct_write sid pl ss = Some (0, ss') \<and> direct_sent (HASH_ID sid) n pl ss ss'"
proof -
  let ?i = "HASH_ID sid"
  obtain r ss1 where w: "sys_write False ?i (pl_bytes pl) ss = (r, ss1)" by fastforce
  define n where "n = (case r of Inl e \<Rightarrow> 0 | Inr n \<Rightarrow> n)"
  note f = sys_write_once [OF w]
  have n: "n \<le> length (pl_bytes pl)" using f(7) by (auto simp: n_def split: sum.split)
  let ?ss2 = "stat_write ?i n ss1"
  let ?ss' = "if n = length (pl_bytes pl) then free_func (pl_buffer pl) False ?ss2
    else sp_write ?i True (set_slot ?i (\<lambda>s. s\<lparr>dw_buffer := Some pl, dw_offset := n\<rparr>) ?ss2)"
  have "direct_write sid pl ss = Some (0, ?ss')"
    using assms w by (simp add: direct_write_def send_object_init_def Let_def n_def)
  moreover have "direct_sent ?i n pl ss ?ss'"
    using f(1-6) n by (auto simp: direct_sent_def stat_write_def n_def [symmetric])
  ultimately show ?thesis by blast
qed

end
