(* ===== verification/SocketServed.thy ===== *)
theory SocketServed
  imports SocketSend
begin

text \<open>
  The invariant of the socket thread: no assertion about a socket fails, whatever the kernel answers, as long as the callers use
  the ids they were given.
\<close>

section \<open>The count of sends on their way\<close>

definition low_half :: "u32 \<Rightarrow> nat" where "low_half x = unat (x AND 0xffff)"

lemma low_half_mod: "low_half x = unat x mod 65536"
proof -
  have "x AND 0xffff = take_bit 16 x" by (simp add: take_bit_eq_mask mask_eq_exp_minus_1)
  also have "\<dots> = x mod 65536" by (simp add: take_bit_eq_mod)
  finally show ?thesis by (simp add: low_half_def unat_mod_distrib)
qed

lemma low_half_0: "x AND 0xffff = 0 \<longleftrightarrow> low_half x = 0"
  by (simp add: low_half_def unat_eq_0)

lemma low_half_max: "x AND 0xffff = 0xffff \<longleftrightarrow> low_half x = 65535"
  by (simp add: low_half_def word_unat_eq_iff)

lemma unat_high_half: "unat (drop_bit 16 x) = unat x div 65536" for x :: u32
  by (simp add: drop_bit_eq_div unat_div_distrib)

lemma half_Suc:
  fixes n :: nat
  assumes "n mod 65536 \<noteq> 65535"
  shows "Suc n mod 65536 = Suc (n mod 65536)" "Suc n div 65536 = n div 65536"
  using assms by (simp_all add: mod_Suc div_Suc)

lemma sending_inc:
  assumes "low_half x \<noteq> 65535"
  shows "low_half (x + 1) = low_half x + 1" "drop_bit 16 (x + 1) = drop_bit 16 x"
proof -
  have n: "unat x mod 65536 \<noteq> 65535" using assms by (simp add: low_half_mod)
  have "x \<noteq> - 1" using n by (auto simp: unsigned_minus_1_eq_mask mask_eq_exp_minus_1)
  then have "unat (x + 1) = Suc (unat x)" using unatSuc [of x] by (simp add: add.commute eq_neg_iff_add_eq_0)
  with half_Suc [OF n] show "low_half (x + 1) = low_half x + 1" "drop_bit 16 (x + 1) = drop_bit 16 x"
    by (simp_all add: low_half_mod word_unat_eq_iff unat_high_half)
qed

lemma sending_dec:
  assumes "low_half x \<noteq> 0"
  shows "low_half (x - 1) = low_half x - 1" "drop_bit 16 (x - 1) = drop_bit 16 x"
proof -
  have "unat x \<noteq> 0" using assms by (auto simp: low_half_mod)
  then have u: "unat x = Suc (unat (x - 1))" by (simp add: unat_minus_one unat_gt_0)
  have "low_half (x - 1) \<noteq> 65535"
  proof
    assume "low_half (x - 1) = 65535"
    then have "Suc (unat (x - 1)) mod 65536 = 0" by (simp add: low_half_mod mod_Suc)
    with assms u show False by (simp add: low_half_mod)
  qed
  with sending_inc [OF this] show "low_half (x - 1) = low_half x - 1" "drop_bit 16 (x - 1) = drop_bit 16 x" by simp_all
qed

lemma sending_new: "low_half (push_bit 16 (ID_TAG16 n)) = 0" "drop_bit 16 (push_bit 16 (ID_TAG16 n)) = ID_TAG16 n"
proof -
  have t: "unat (ID_TAG16 n) < 65536"
    by (simp add: ID_TAG16_def MAX_SOCKET_P_def unsigned_of_int take_bit_int_eq_self)
  have "unat (push_bit 16 (ID_TAG16 n)) = unat (ID_TAG16 n) * 65536"
    using t by (simp add: push_bit_eq_mult unat_word_ariths)
  then show "low_half (push_bit 16 (ID_TAG16 n)) = 0" "drop_bit 16 (push_bit 16 (ID_TAG16 n)) = ID_TAG16 n"
    by (simp_all add: low_half_mod word_unat_eq_iff unat_high_half)
qed

section \<open>The invariant\<close>

fun req_id :: "request \<Rightarrow> int option" where
  "req_id (Req_start n p) = Some n" | "req_id (Req_bind n fd p) = Some n" | "req_id (Req_listen n fd p) = Some n"
| "req_id (Req_close n b p) = Some n" | "req_id (Req_open n port p host) = Some n" | "req_id Req_exit = None"
| "req_id (Req_send n pl) = Some n" | "req_id (Req_send_low n pl) = Some n" | "req_id (Req_send_udp n pl a) = Some n"
| "req_id (Req_setopt n w v) = Some n" | "req_id (Req_udp n fd b p) = Some n" | "req_id (Req_setudp n a) = Some n"

fun creates :: "request \<Rightarrow> bool" where
  "creates (Req_bind n fd p) = True" | "creates (Req_listen n fd p) = True" | "creates (Req_open n port p host) = True"
| "creates (Req_udp n fd b p) = True" | "creates _ = False"

fun binds :: "request \<Rightarrow> bool" where
  "binds (Req_bind n fd p) = True" | "binds _ = False"

fun payload_of :: "request \<Rightarrow> payload option" where
  "payload_of (Req_send n pl) = Some pl" | "payload_of (Req_send_low n pl) = Some pl" | "payload_of (Req_send_udp n pl a) = Some pl"
| "payload_of _ = None"

fun counted :: "request \<Rightarrow> bool" where
  "counted (Req_send n pl) = True" | "counted (Req_send_low n pl) = True" | "counted _ = False"

definition pipe_for :: "int \<Rightarrow> socket_server \<Rightarrow> request list" where
  "pipe_for n ss = filter (\<lambda>r. req_id r = Some n) (pipe ss)"

definition sends :: "request list \<Rightarrow> nat" where
  "sends q = length (filter counted q)"

text \<open>The requests for a reserved id: the one that creates the socket, then none that creates it again or sends data over TCP.\<close>

definition reserved :: "request list \<Rightarrow> bool" where
  "reserved q \<longleftrightarrow> (case q of [] \<Rightarrow> False | c # rest \<Rightarrow> creates c \<and>
     (\<forall>r\<in>set rest. \<not> creates r \<and> \<not> counted r \<and> (binds c \<longrightarrow> payload_of r = None)))"

text \<open>
  A slot, whether it is registered and waits for writing, and the requests for its id. A socket that has data waits for writing;
  the requests with data for a socket of TCP are counted in \<^verbatim>\<open>sending\<close>.
\<close>

definition interest_ok :: "socket \<Rightarrow> bool option \<Rightarrow> request list \<Rightarrow> bool" where
  "interest_ok s w q \<longleftrightarrow> (has_data s \<longrightarrow> w = Some True) \<and>
     (if s_type s = T_PACCEPT \<or> s_type s = T_PLISTEN then w = None
      else if s_type s = T_HALFCLOSE then True else w \<noteq> None) \<and> (s_type s = T_CONNECTING \<longrightarrow> w = Some True) \<and>
     (\<not> accepts (s_type s) \<and> s_type s \<noteq> T_HALFCLOSE \<longrightarrow> \<not> has_data s) \<and>
     (s_type s = T_BIND \<longrightarrow> \<not> has_data s \<and> (\<forall>r\<in>set q. payload_of r = None))"

definition slot_ok :: "nat \<Rightarrow> socket \<Rightarrow> bool option \<Rightarrow> request list \<Rightarrow> bool" where
  "slot_ok i s w q \<longleftrightarrow>
     (if s_type s = T_INVALID then s_high s = [] \<and> s_low s = [] \<and> w = None \<and>
        (HASH_ID (s_id s) = i \<and> protocol s = PROTOCOL_TCP \<longrightarrow> sends q \<le> low_half (sending s))
      else if s_type s = T_RESERVE then HASH_ID (s_id s) = i \<and> s_high s = [] \<and> s_low s = [] \<and> w = None \<and> protocol s = PROTOCOL_UNKNOWN \<and> reserved q
      else HASH_ID (s_id s) = i \<and> data_ok s \<and> interest_ok s w q \<and>
        (protocol s = PROTOCOL_TCP \<longrightarrow> sends q = low_half (sending s) \<and> drop_bit 16 (sending s) = ID_TAG16 (s_id s)))"

definition events_ok :: "socket_server \<Rightarrow> bool" where
  "events_ok ss \<longleftrightarrow> (let es = drop (event_index ss) (ev ss) in
     distinct (List.map_filter e_s es) \<and> (\<forall>i\<in>set (List.map_filter e_s es). epoll ss i \<noteq> None))"

definition pipe_ok :: "socket_server \<Rightarrow> bool" where
  "pipe_ok ss \<longleftrightarrow> (\<forall>r\<in>set (pipe ss). (\<forall>pl. payload_of r = Some pl \<longrightarrow> 0 \<le> pl_sz pl) \<and>
     (creates r \<longrightarrow> (\<exists>n. req_id r = Some n \<and> s_type (slot ss (HASH_ID n)) = T_RESERVE \<and> s_id (slot ss (HASH_ID n)) = n)))"

text \<open>No read takes 2^30 bytes at once.\<close>

definition reads_ok :: "socket_server \<Rightarrow> bool" where
  "reads_ok ss \<longleftrightarrow> (\<forall>r\<in>set (a_read (answers ss)). \<forall>bs. r = Inr bs \<longrightarrow> length bs < 2 ^ 30)"

definition slots_ok :: "socket_server \<Rightarrow> bool" where
  "slots_ok ss \<longleftrightarrow> (\<forall>i. slot_ok i (slot ss i) (epoll ss i) (pipe_for (s_id (slot ss i)) ss))"

definition server_ok :: "socket_server \<Rightarrow> bool" where
  "server_ok ss \<longleftrightarrow> soi ss = None \<and> slots_ok ss \<and> pipe_ok ss \<and> events_ok ss \<and> reads_ok ss"

section \<open>Requests\<close>

text \<open>What a live socket owns.\<close>

definition held :: "socket \<Rightarrow> os_call multiset" where
  "held s = (if live s then owned s else {#})"

text \<open>
  A request or an event of slot \<^verbatim>\<open>i\<close> was served: only this slot changed, it is well-formed, the payload \<^verbatim>\<open>x\<close> is owned or freed,
  and a socket that was registered and is closed is reported by its id.
\<close>

definition served :: "nat \<Rightarrow> os_call multiset \<Rightarrow> socket_server \<Rightarrow> poll_result \<Rightarrow> socket_server \<Rightarrow> bool" where
  "served i x ss r ss' \<longleftrightarrow> frame i ss ss' \<and> s_id (slot ss' i) = s_id (slot ss i) \<and>
     slot_ok i (slot ss' i) (epoll ss' i) (pipe_for (s_id (slot ss i)) ss) \<and>
     (s_type (slot ss' i) = T_RESERVE \<longrightarrow> s_type (slot ss i) = T_RESERVE) \<and>
     (epoll ss i \<noteq> None \<longrightarrow> epoll ss' i = None \<longrightarrow> s_type (slot ss' i) = T_INVALID \<and>
        (\<exists>t m. r = Some (t, m) \<and> (t = SOCKET_CLOSE \<or> t = SOCKET_ERR) \<and> sm_id m = s_id (slot ss i))) \<and>
     freed ss' + held (slot ss' i) = freed ss + held (slot ss i) + x \<and>
     (\<forall>n. n \<noteq> s_id (slot ss i) \<longrightarrow> written n ss' = written n ss)"

definition waiting :: "nat \<Rightarrow> request \<Rightarrow> socket_server \<Rightarrow> bool" where
  "waiting i req ss \<longleftrightarrow> (let q = pipe_for (s_id (slot ss i)) ss in
     slot_ok i (slot ss i) (epoll ss i) (if req_id req = Some (s_id (slot ss i)) then req # q else q))"

lemma sends_Cons [simp]: "sends (r # q) = (if counted r then Suc (sends q) else sends q)"
  by (simp add: sends_def)

lemma stat_fields [simp]:
  "data_ok (s\<lparr>stat := t\<rparr>) = data_ok s" "has_data (s\<lparr>stat := t\<rparr>) = has_data s" "owned (s\<lparr>stat := t\<rparr>) = owned s" "live (s\<lparr>stat := t\<rparr>) = live s"
  "held (s\<lparr>stat := t\<rparr>) = held s" "interest_ok (s\<lparr>stat := t\<rparr>) w q = interest_ok s w q" "slot_ok i (s\<lparr>stat := t\<rparr>) w q = slot_ok i s w q"
  by (simp_all add: data_ok_def has_data_def owned_def live_def held_def interest_ok_def slot_ok_def)

lemma sending_fields [simp]:
  "data_ok (s\<lparr>sending := n\<rparr>) = data_ok s" "has_data (s\<lparr>sending := n\<rparr>) = has_data s" "owned (s\<lparr>sending := n\<rparr>) = owned s" "live (s\<lparr>sending := n\<rparr>) = live s"
  "held (s\<lparr>sending := n\<rparr>) = held s" "interest_ok (s\<lparr>sending := n\<rparr>) w q = interest_ok s w q"
  by (simp_all add: data_ok_def has_data_def owned_def live_def held_def interest_ok_def)

lemma slot_ok_live:
  "live s \<Longrightarrow> slot_ok i s w q \<longleftrightarrow> HASH_ID (s_id s) = i \<and> data_ok s \<and> interest_ok s w q \<and>
     (protocol s = PROTOCOL_TCP \<longrightarrow> sends q = low_half (sending s) \<and> drop_bit 16 (sending s) = ID_TAG16 (s_id s))"
  by (simp add: slot_ok_def live_def)

lemma interest_tl: "interest_ok s w (r # q) \<Longrightarrow> interest_ok s w q"
  by (auto simp: interest_ok_def)

lemma slot_ok_tl: "\<not> counted r \<Longrightarrow> \<not> reserved (r # q) \<Longrightarrow> slot_ok i s w (r # q) \<Longrightarrow> slot_ok i s w q"
  using interest_tl by (auto simp: slot_ok_def)

text \<open>A request for a socket that is gone, or for another one, changes nothing.\<close>

lemma served_same:
  assumes "waiting i req ss" "req_id req = Some n" "\<not> counted req" "\<not> creates req" "slot ss' i = slot ss i" "epoll ss' i = epoll ss i"
    "frame i ss ss'" "freed ss' = freed ss + x" "\<And>n. written n ss' = written n ss"
  shows "served i x ss r ss'"
proof -
  have "\<not> reserved (req # q)" for q using assms(4) by (simp add: reserved_def)
  with assms(1,3) slot_ok_tl have "slot_ok i (slot ss i) (epoll ss i) (pipe_for (s_id (slot ss i)) ss)"
    by (auto simp: waiting_def Let_def split: if_splits)
  with assms show ?thesis by (auto simp: served_def)
qed

lemma dec_sending_ok:
  assumes ok: "slot_ok (HASH_ID sid) (slot ss (HASH_ID sid)) w (req # q)" and s: "s_id (slot ss (HASH_ID sid)) = sid" "s_type (slot ss (HASH_ID sid)) \<noteq> T_RESERVE"
  shows "\<exists>n. (if counted req then dec_sending_ref sid ss else Some ss) = Some (set_slot (HASH_ID sid) (\<lambda>s. s\<lparr>sending := n\<rparr>) ss) \<and>
    slot_ok (HASH_ID sid) ((slot ss (HASH_ID sid))\<lparr>sending := n\<rparr>) w q"
proof -
  let ?i = "HASH_ID sid" and ?s = "slot ss (HASH_ID sid)"
  have r: "\<not> reserved (req # q) \<or> s_type ?s \<noteq> T_RESERVE" using s by simp
  show ?thesis
  proof (cases "counted req \<and> protocol ?s = PROTOCOL_TCP")
    case True
    then have n: "low_half (sending ?s) \<noteq> 0" using ok s by (auto simp: slot_ok_def split: if_splits)
    then have "dec_sending_ref sid ss = Some (set_slot ?i (\<lambda>s. s\<lparr>sending := sending ?s - 1\<rparr>) ss)"
      using True s(1) low_half_0 by (auto simp: dec_sending_ref_def Let_def set_slot_def)
    moreover have "slot_ok ?i (?s\<lparr>sending := sending ?s - 1\<rparr>) w q"
      using ok s True sending_dec [OF n] interest_tl by (auto simp: slot_ok_def)
    ultimately show ?thesis using True by auto
  next
    case False
    have same: "set_slot ?i (\<lambda>s. s\<lparr>sending := sending ?s\<rparr>) ss = ss" "?s\<lparr>sending := sending ?s\<rparr> = ?s" by (simp_all add: set_slot_def)
    have "(if counted req then dec_sending_ref sid ss else Some ss) = Some ss" using False by (simp add: dec_sending_ref_def Let_def)
    moreover have "slot_ok ?i ?s w q" using ok s False interest_tl by (auto simp: slot_ok_def split: if_splits)
    ultimately show ?thesis by (intro exI [of _ "sending ?s"]) (simp only: same)
  qed
qed

lemma interest_queued:
  assumes "queued i high pl ss ss'" "interest_ok (slot ss i) (epoll ss i) (req # q)" "payload_of req \<noteq> None" "accepts (s_type (slot ss i))"
    "s_type (slot ss i) \<noteq> T_RESERVE"
  shows "interest_ok (slot ss' i) (epoll ss' i) q' \<and> s_type (slot ss' i) \<noteq> T_BIND"
proof -
  have t: "s_type (slot ss' i) = s_type (slot ss i)" using assms(1) by (simp add: queued_def joined_def still_def)
  have nb: "s_type (slot ss i) \<noteq> T_BIND" using assms(2,3) by (auto simp: interest_ok_def)
  then have "s_type (slot ss i) = T_CONNECTING \<or> s_type (slot ss i) = T_CONNECTED"
    using assms(4,5) by (cases "s_type (slot ss i)") (simp_all add: accepts_def)
  then have "epoll ss' i = Some True"
    using assms(1,2) by (auto simp: queued_def interest_ok_def has_data_def send_buffer_empty_def)
  then show ?thesis using t nb assms(4,5) by (auto simp: interest_ok_def accepts_def)
qed

text \<open>A message to send: refused and freed, sent at once over UDP, or queued.\<close>

lemma data_served:
  assumes w: "waiting i req ss" and soi: "soi ss = None" and pl: "0 \<le> pl_sz pl" and i: "i = HASH_ID sid"
    and req: "req_id req = Some sid" "payload_of req = Some pl" "\<not> creates req"
      "ctrl_cmd req ss = do { (r, ss) \<leftarrow> send_socket sid pl high address ss; ss \<leftarrow> (if counted req then dec_sending_ref sid ss else Some ss); Some (r, ss) }"
  shows "\<exists>r ss'. ctrl_cmd req ss = Some (r, ss') \<and> served i {#Free (pl_buffer pl)#} ss r ss'"
proof -
  let ?s = "slot ss i"
  obtain r ss1 where r: "send_socket sid pl high address ss = Some (r, ss1)"
    "s_id ?s \<noteq> sid \<or> \<not> accepts (s_type ?s) \<longrightarrow> dropped i pl ss ss1" "dropped i pl ss ss1 \<or> (\<exists>h. queued i h pl ss ss1)"
    using send_socket_sent [OF pl soi, of sid high address] by (auto simp: i Let_def split: if_splits)
  have nr: "\<not> reserved (req # q)" for q using req(3) by (simp add: reserved_def)
  let ?q = "pipe_for (s_id ?s) ss"
  have keep: "frame i ss ss1" "\<And>n. written n ss1 = written n ss" "s_id (slot ss1 i) = s_id ?s" "protocol (slot ss1 i) = protocol ?s"
    "s_type (slot ss1 i) = s_type ?s" "sending (slot ss1 i) = sending ?s"
    using r(3) by (auto simp: dropped_def queued_def joined_def still_def)
  show ?thesis
  proof (cases "s_id ?s = sid")
    case False
    then have d: "dropped i pl ss ss1" using r(2) by blast
    have "ctrl_cmd req ss = Some (r, ss1)" using False keep(3) by (simp add: req(4) r(1) dec_sending_ref_def Let_def flip: i)
    moreover have "slot_ok i ?s (epoll ss i) ?q" using w False req(1) by (simp add: waiting_def Let_def)
    ultimately show ?thesis using d keep False by (auto simp: served_def dropped_def slot_ok_def reserved_def)
  next
    case True
    have ok: "slot_ok i ?s (epoll ss i) (req # ?q)" using w True req(1) by (simp add: waiting_def Let_def)
    then have t: "s_type ?s \<noteq> T_RESERVE" using nr by (auto simp: slot_ok_def)
    have "slot_ok i (slot ss1 i) (epoll ss1 i) (req # ?q) \<and> freed ss1 + held (slot ss1 i) = freed ss + held ?s + {#Free (pl_buffer pl)#} \<and>
        (epoll ss i \<noteq> None \<longrightarrow> epoll ss1 i \<noteq> None)"
    proof (cases "dropped i pl ss ss1")
      case True
      then show ?thesis using ok by (auto simp: dropped_def)
    next
      case False
      then obtain h where q: "queued i h pl ss ss1" using r(3) by blast
      have a: "accepts (s_type ?s)" using False r(2) by blast
      have live: "live ?s" "live (slot ss1 i)" using a t keep(5) by (simp_all add: live_def accepts_def)
      have j: "joined h pl ?s (slot ss1 i)" using q by (simp add: queued_def)
      have "interest_ok (slot ss1 i) (epoll ss1 i) (req # ?q)"
        using interest_queued [OF q _ _ a t] ok live req(2) by (auto simp: slot_ok_live)
      then have "slot_ok i (slot ss1 i) (epoll ss1 i) (req # ?q)" using ok live joined_data [OF j] keep by (simp add: slot_ok_live)
      moreover have "freed ss1 + held (slot ss1 i) = freed ss + held ?s + {#Free (pl_buffer pl)#}"
        using q live joined_owned [OF j] by (simp add: held_def queued_def)
      moreover have "epoll ss i \<noteq> None \<longrightarrow> epoll ss1 i \<noteq> None" using q by (auto simp: queued_def)
      ultimately show ?thesis by blast
    qed
    moreover from this obtain n where n: "(if counted req then dec_sending_ref sid ss1 else Some ss1) = Some (set_slot i (\<lambda>s. s\<lparr>sending := n\<rparr>) ss1)"
        "slot_ok i ((slot ss1 i)\<lparr>sending := n\<rparr>) (epoll ss1 i) ?q"
      using dec_sending_ok [of sid ss1 "epoll ss1 i" req ?q] keep(3,5) True t by (auto simp: i)
    ultimately have "served i {#Free (pl_buffer pl)#} ss r (set_slot i (\<lambda>s. s\<lparr>sending := n\<rparr>) ss1)"
      using keep t by (auto simp: served_def)
    then show ?thesis using n(1) by (simp add: req(4) r(1))
  qed
qed

lemma live_ok_unregistered: "interest_ok s w q \<Longrightarrow> w = None \<or> (s_type s \<noteq> T_PACCEPT \<and> s_type s \<noteq> T_PLISTEN)"
  by (auto simp: interest_ok_def)

lemma ended_served:
  assumes "ended i ss ss'" "live (slot ss i)" "slot_ok i (slot ss i) (epoll ss i) (pipe_for (s_id (slot ss i)) ss)"
    "t = SOCKET_CLOSE \<or> t = SOCKET_ERR" "sm_id m = s_id (slot ss i)"
  shows "served i {#} ss (Some (t, m)) ss'"
proof -
  have "epoll ss i = None \<or> (s_type (slot ss i) \<noteq> T_PACCEPT \<and> s_type (slot ss i) \<noteq> T_PLISTEN)"
    using assms(2,3) live_ok_unregistered slot_ok_live by blast
  then have "epoll ss' i = None" using assms(1) by (simp add: ended_def)
  then show ?thesis using assms by (auto simp: served_def ended_def held_def live_def slot_ok_def)
qed

lemma still_live: "still s s' \<Longrightarrow> live s' = live s"
  by (simp add: still_def live_def)

lemma buffer_sent_slot:
  assumes "buffer_sent i ss r ss'" "\<not> is_close r" "live (slot ss i)" "slot_ok i (slot ss i) (epoll ss i) q"
  shows "s_type (slot ss i) \<noteq> T_CONNECTING \<Longrightarrow> slot_ok i (slot ss' i) (epoll ss' i) q"
    "slot_ok i ((slot ss' i)\<lparr>s_type := T_HALFCLOSE\<rparr>) (epoll ss' i) q" "data_ok (slot ss' i)"
    "\<exists>v. going i v ss ss'" "epoll ss i = None \<longleftrightarrow> epoll ss' i = None" "live (slot ss' i)" "r = None \<or> (\<exists>m. r = Some (SOCKET_WARNING, m))"
proof -
  from assms(1,2) obtain v where v: "going i v ss ss'" "data_ok (slot ss' i)" "r = None \<or> (\<exists>m. r = Some (SOCKET_WARNING, m))"
    "(epoll ss' i = epoll ss i \<and> (has_data (slot ss' i) \<longrightarrow> has_data (slot ss i))) \<or> \<not> has_data (slot ss' i) \<and> s_type (slot ss' i) \<noteq> T_HALFCLOSE \<and>
       epoll ss' i = map_option (\<lambda>_. False) (epoll ss i)"
    by (auto simp: buffer_sent_def Let_def)
  show "\<exists>v. going i v ss ss'" "data_ok (slot ss' i)" using v(1,2) by blast+
  show "r = None \<or> (\<exists>m. r = Some (SOCKET_WARNING, m))" by (rule v(3))
  show "epoll ss i = None \<longleftrightarrow> epoll ss' i = None" using v(4) by auto
  have st: "still (slot ss i) (slot ss' i)" using v(1) by (simp add: going_def)
  then show live: "live (slot ss' i)" using assms(3) still_live by blast
  have int: "interest_ok (slot ss i) (epoll ss i) q" using assms(3,4) by (simp add: slot_ok_live)
  have rest: "slot_ok i s' w q \<longleftrightarrow> interest_ok s' w q" if "still (slot ss i) s' \<or> s_type s' = T_HALFCLOSE \<and> still (slot ss i) (s'\<lparr>s_type := s_type (slot ss i)\<rparr>)"
      "data_ok s'" for s' w
    using that assms(3,4) by (auto simp: slot_ok_def live_def still_def)
  have "interest_ok (slot ss' i) (epoll ss' i) q" if "s_type (slot ss i) \<noteq> T_CONNECTING"
    using int v(4) st that by (auto simp: interest_ok_def still_def)
  then show "s_type (slot ss i) \<noteq> T_CONNECTING \<Longrightarrow> slot_ok i (slot ss' i) (epoll ss' i) q" using rest [of "slot ss' i"] st v(2) by simp
  have "has_data (slot ss' i) \<longrightarrow> epoll ss' i = Some True" using int v(4) by (auto simp: interest_ok_def)
  then have "interest_ok ((slot ss' i)\<lparr>s_type := T_HALFCLOSE\<rparr>) (epoll ss' i) q" by (simp add: interest_ok_def has_data_def)
  then show "slot_ok i ((slot ss' i)\<lparr>s_type := T_HALFCLOSE\<rparr>) (epoll ss' i) q"
    using rest [of "(slot ss' i)\<lparr>s_type := T_HALFCLOSE\<rparr>"] st v(2) by (simp add: still_def data_ok_def)
qed

lemma buffer_sent_is_close: "buffer_sent i ss r ss' \<Longrightarrow> is_close r \<Longrightarrow> \<exists>m. r = Some (SOCKET_CLOSE, m) \<and> sm_id m = s_id (slot ss i) \<and> ended i ss ss'"
  by (auto simp: buffer_sent_def Let_def is_close_def split: option.splits prod.splits event_kind.splits)

lemma going_served:
  assumes "going i v ss ss'" "live (slot ss i)" "slot_ok i (slot ss' i) (epoll ss' i) (pipe_for (s_id (slot ss i)) ss)" "epoll ss i = None \<longleftrightarrow> epoll ss' i = None"
  shows "served i {#} ss r ss'"
  using assms still_live by (auto simp: served_def going_def held_def still_def live_def)

lemma buffer_served:
  assumes "buffer_sent i ss r ss'" "live (slot ss i)" "slot_ok i (slot ss i) (epoll ss i) (pipe_for (s_id (slot ss i)) ss)"
    "s_type (slot ss i) \<noteq> T_CONNECTING"
  shows "served i {#} ss r ss'"
proof (cases "is_close r")
  case True
  with buffer_sent_is_close [OF assms(1)] ended_served [OF _ assms(2,3)] show ?thesis by blast
next
  case False
  note b = buffer_sent_slot [OF assms(1) False assms(2,3)]
  from b(4) obtain v where "going i v ss ss'" by blast
  then show ?thesis using going_served [OF _ assms(2) b(1) [OF assms(4)] b(5)] by blast
qed

lemma waiting_live:
  assumes "waiting i req ss" "req_id req = Some (s_id (slot ss i))" "\<not> creates req" "\<not> counted req" "s_type (slot ss i) \<noteq> T_INVALID"
  shows "live (slot ss i)" "slot_ok i (slot ss i) (epoll ss i) (pipe_for (s_id (slot ss i)) ss)"
proof -
  let ?q = "pipe_for (s_id (slot ss i)) ss"
  have nr: "\<not> reserved (req # ?q)" using assms(3) by (simp add: reserved_def)
  have ok: "slot_ok i (slot ss i) (epoll ss i) (req # ?q)" using assms(1,2) by (simp add: waiting_def Let_def)
  then have "s_type (slot ss i) \<noteq> T_RESERVE" using nr by (auto simp: slot_ok_def)
  then show "live (slot ss i)" using assms(5) by (simp add: live_def)
  show "slot_ok i (slot ss i) (epoll ss i) ?q" by (rule slot_ok_tl [OF assms(4) nr ok])
qed

lemma close_served:
  assumes w: "waiting i (Req_close sid b p) ss" and soi: "soi ss = None" and i: "i = HASH_ID sid"
  shows "\<exists>r ss'. close_socket sid b p ss = Some (r, ss') \<and> served i {#} ss r ss'"
proof (cases "invalid_slot sid ss")
  case True
  then show ?thesis using served_same [OF w, of sid ss "{#}"] by (simp add: close_socket_def Let_def)
next
  case False
  then have s: "s_id (slot ss i) = sid" "s_type (slot ss i) \<noteq> T_INVALID" by (auto simp: invalid_slot_def i)
  note ok = waiting_live [OF w _ _ _ s(2), simplified, OF s(1) [symmetric]]
  have d: "data_ok (slot ss i)" using ok by (simp add: slot_ok_live)
  obtain r ss1 where r: "(if nomore_sending_data (slot ss i) then Some (None, ss) else send_buffer i ss) = Some (r, ss1)" "buffer_sent i ss r ss1"
  proof (cases "nomore_sending_data (slot ss i)")
    case True
    have "buffer_sent i ss None ss" by (rule buffer_sent_going [where w = "[]" and pre = "[]"]) (use d going_refl in simp_all)
    with True that show ?thesis by simp
  next
    case False
    with send_buffer_sent [OF ok(1) d soi] that show ?thesis by auto
  qed
  have eq: "close_socket sid b p ss = (if is_close r then Some (r, ss1)
     else if b \<or> nomore_sending_data (slot ss1 i) then do { (m, ss) \<leftarrow> force_close i ss1; Some (Some (SOCKET_CLOSE, m\<lparr>sm_id := sid, sm_opaque := p\<rparr>), ss) }
     else Some (None, set_type i T_HALFCLOSE ss1))"
    by (simp only: close_socket_def Let_def i [symmetric] if_not_P [OF False] r(1) Option.bind.simps prod.case)
  show ?thesis
  proof (cases "is_close r")
    case True
    with buffer_sent_is_close [OF r(2)] ended_served [OF _ ok] have "served i {#} ss r ss1" by blast
    then show ?thesis unfolding eq using True by auto
  next
    case nc: False
    note b = buffer_sent_slot [OF r(2) nc ok]
    from b(4) obtain v where v: "going i v ss ss1" by blast
    show ?thesis
    proof (cases "b \<or> nomore_sending_data (slot ss1 i)")
      case True
      obtain m ss2 where c: "force_close i ss1 = Some (m, ss2)" "sm_id m = s_id (slot ss i)" "ended i ss ss2"
        using force_close_ended [OF v _ b(6) data_direct [OF b(3)]] b(5) by auto
      have "served i {#} ss (Some (SOCKET_CLOSE, m\<lparr>sm_id := sid, sm_opaque := p\<rparr>)) ss2"
        by (rule ended_served [OF c(3) ok]) (use c(2) s in simp_all)
      then show ?thesis unfolding eq using nc True c(1) by auto
    next
      case more: False
      let ?ss2 = "set_type i T_HALFCLOSE ss1"
      have "served i {#} ss None ?ss2"
        using v b(2,5,6) ok(1) by (auto simp: served_def going_def held_def still_def live_def set_type_def owned_def)
      then show ?thesis unfolding eq using nc more by auto
    qed
  qed
qed

lemma start_served:
  assumes w: "waiting i (Req_start sid p) ss" and i: "i = HASH_ID sid"
  shows "\<exists>r ss'. start_socket sid p ss = Some (r, ss') \<and> served i {#} ss r ss'"
proof (cases "invalid_slot sid ss")
  case True
  then show ?thesis using served_same [OF w, of sid ss "{#}"] by (simp add: start_socket_def Let_def)
next
  case False
  then have s: "s_id (slot ss i) = sid" "s_type (slot ss i) \<noteq> T_INVALID" by (auto simp: invalid_slot_def i)
  note ok = waiting_live [OF w _ _ _ s(2), simplified, OF s(1) [symmetric]]
  have d: "data_ok (slot ss i)" "interest_ok (slot ss i) (epoll ss i) (pipe_for (s_id (slot ss i)) ss)" using ok by (simp_all add: slot_ok_live)
  obtain e ss1 where add': "sp_add i ss = (e, ss1)" by fastforce
  then have f: "slot ss1 = slot ss" "frame i ss ss1" "freed ss1 = freed ss" "\<And>n. written n ss1 = written n ss" "epoll ss1 i = (if e = None then Some False else epoll ss i)"
    by (auto simp: sp_add_def Let_def frame_def freed_def written_def split: prod.splits if_splits)
  let ?t = "s_type (slot ss i)"
  consider (add) "?t = T_PACCEPT \<or> ?t = T_PLISTEN" "e = None" | (fail) "?t = T_PACCEPT \<or> ?t = T_PLISTEN" "e \<noteq> None"
    | (transfer) "?t = T_CONNECTED" | (other) "?t \<noteq> T_PACCEPT" "?t \<noteq> T_PLISTEN" "?t \<noteq> T_CONNECTED" by blast
  then show ?thesis
  proof cases
    case add
    let ?ss2 = "set_slot i (\<lambda>s. s\<lparr>s_type := if ?t = T_PACCEPT then T_CONNECTED else T_LISTEN, s_opaque := p\<rparr>) ss1"
    have nd: "\<not> has_data (slot ss i)" using d(2) add(1) by (auto simp: interest_ok_def accepts_def)
    have "slot_ok i (slot ?ss2 i) (epoll ?ss2 i) (pipe_for (s_id (slot ss i)) ss)"
      using ok nd add f by (auto simp: slot_ok_def live_def interest_ok_def data_ok_def has_data_def accepts_def)
    then have "served i {#} ss r ?ss2" for r using f add ok(1) by (auto simp: served_def held_def live_def owned_def)
    then show ?thesis using False add' add by (auto simp: start_socket_def Let_def i)
  next
    case fail
    have g: "going i [] ss ss1" using f by (simp add: going_def)
    obtain m ss2 where c: "force_close i ss1 = Some (m, ss2)" "sm_id m = s_id (slot ss i)" "ended i ss ss2"
      using force_close_ended [OF g] f fail ok(1) data_direct [OF d(1)] by auto
    have "served i {#} ss (Some (SOCKET_ERR, m\<lparr>sm_data := x\<rparr>)) ss2" for x
      by (rule ended_served [OF c(3) ok]) (use c(2) in simp_all)
    then show ?thesis using False add' fail c(1) by (auto simp: start_socket_def Let_def i)
  next
    case transfer
    let ?ss2 = "set_slot i (\<lambda>s. s\<lparr>s_opaque := p\<rparr>) ss"
    have "slot_ok i (slot ?ss2 i) (epoll ?ss2 i) (pipe_for (s_id (slot ss i)) ss)"
      using ok transfer by (auto simp: slot_ok_def live_def interest_ok_def data_ok_def has_data_def)
    then have "served i {#} ss r ?ss2" for r using transfer by (auto simp: served_def held_def live_def owned_def)
    then show ?thesis using False transfer by (auto simp: start_socket_def Let_def i)
  next
    case other
    then show ?thesis using False served_same [OF w, of sid ss "{#}"] by (auto simp: start_socket_def Let_def i)
  qed
qed

section \<open>Requests that create a socket\<close>

definition creating :: "nat \<Rightarrow> request \<Rightarrow> int \<Rightarrow> socket_server \<Rightarrow> bool" where
  "creating i c sid ss \<longleftrightarrow> i = HASH_ID sid \<and> creates c \<and> req_id c = Some sid \<and> waiting i c ss \<and> s_type (slot ss i) = T_RESERVE \<and> s_id (slot ss i) = sid"

lemma creating_slot:
  assumes "creating i c sid ss"
  shows "epoll ss i = None" "s_high (slot ss i) = []" "s_low (slot ss i) = []" "protocol (slot ss i) = PROTOCOL_UNKNOWN"
    "sends (pipe_for sid ss) = 0" "binds c \<Longrightarrow> \<forall>r\<in>set (pipe_for sid ss). payload_of r = None"
proof -
  have ok: "slot_ok i (slot ss i) (epoll ss i) (c # pipe_for sid ss)" and t: "s_type (slot ss i) = T_RESERVE"
    using assms by (auto simp: creating_def waiting_def Let_def)
  then show "epoll ss i = None" "s_high (slot ss i) = []" "s_low (slot ss i) = []" "protocol (slot ss i) = PROTOCOL_UNKNOWN"
    by (simp_all add: slot_ok_def)
  have r: "reserved (c # pipe_for sid ss)" using ok t by (simp add: slot_ok_def)
  then show "sends (pipe_for sid ss) = 0" by (simp add: reserved_def sends_def filter_empty_conv)
  show "binds c \<Longrightarrow> \<forall>r\<in>set (pipe_for sid ss). payload_of r = None" using r by (simp add: reserved_def)
qed

definition fresh_socket :: "int \<Rightarrow> socket \<Rightarrow> bool" where
  "fresh_socket sid s \<longleftrightarrow> s_id s = sid \<and> s_high s = [] \<and> s_low s = [] \<and> dw_buffer s = None \<and> wb_size s = 0 \<and> sending s = push_bit 16 (ID_TAG16 sid)"

text \<open>The socket exists, or its id is free again.\<close>

lemma created_served:
  assumes c: "creating i c sid ss" and f: "frame i ss ss'" "freed ss' = freed ss" "\<And>n. written n ss' = written n ss"
    and s: "fresh_socket sid (slot ss' i)" "live (slot ss' i)" "interest_ok (slot ss' i) (epoll ss' i) (pipe_for sid ss)"
  shows "served i {#} ss r ss'"
  using creating_slot [OF c] c f s sending_new [of sid]
  by (auto simp: served_def creating_def fresh_socket_def held_def live_def owned_def slot_ok_def data_ok_def)

lemma not_created_served:
  assumes c: "creating i c sid ss" and f: "frame i ss ss'" "freed ss' = freed ss" "\<And>n. written n ss' = written n ss"
    and s: "slot ss' i = (slot ss i)\<lparr>s_type := T_INVALID\<rparr>" "epoll ss' i = None"
  shows "served i {#} ss r ss'"
  using creating_slot [OF c] c f s
  by (auto simp: served_def creating_def held_def live_def slot_ok_def protocol_defs)

lemma new_fd_creates:
  assumes c: "creating i c sid ss"
  shows "\<exists>b ss'. new_fd sid fd proto opaque add ss = Some (b, ss') \<and> frame i ss ss' \<and> freed ss' = freed ss \<and> (\<forall>n. written n ss' = written n ss) \<and>
    (if b then fresh_socket sid (slot ss' i) \<and> protocol (slot ss' i) = proto \<and> epoll ss' i = (if add then Some False else None)
     else slot ss' i = (slot ss i)\<lparr>s_type := T_INVALID\<rparr> \<and> epoll ss' i = None)"
proof -
  have i: "HASH_ID sid = i" and t: "s_type (slot ss i) = T_RESERVE" using c by (auto simp: creating_def)
  note s = creating_slot [OF c]
  obtain e ss1 where e: "(if add then sp_add i ss else (None, ss)) = (e, ss1)" by fastforce
  then have f: "slot ss1 = slot ss" "frame i ss ss1" "freed ss1 = freed ss" "\<And>n. written n ss1 = written n ss"
    "epoll ss1 i = (if add \<and> e = None then Some False else None)"
    using s(1) by (auto simp: sp_add_def Let_def frame_def freed_def written_def split: prod.splits if_splits)
  show ?thesis
  proof (cases e)
    case None
    then show ?thesis using e f s t by (cases add) (auto simp: new_fd_def Let_def i fresh_socket_def)
  next
    case (Some x)
    then show ?thesis using e f s t by (cases add) (auto simp: new_fd_def Let_def i)
  qed
qed

lemma fresh_type [simp]: "fresh_socket sid (s\<lparr>s_type := t\<rparr>) = fresh_socket sid s" "fresh_socket sid (s\<lparr>p_address := a\<rparr>) = fresh_socket sid s"
  by (simp_all add: fresh_socket_def)

lemma fresh_no_data: "fresh_socket sid s \<Longrightarrow> \<not> has_data s"
  by (simp add: fresh_socket_def has_data_def)

lemma no_data_type [simp]: "has_data (s\<lparr>s_type := t\<rparr>) = has_data s" "has_data (s\<lparr>p_address := a\<rparr>) = has_data s"
  by (simp_all add: has_data_def)

text \<open>A state that differs from another in what a slot does not show.\<close>

definition alike :: "nat \<Rightarrow> socket_server \<Rightarrow> socket_server \<Rightarrow> bool" where
  "alike i ss ss' \<longleftrightarrow> frame i ss ss' \<and> slot ss' = slot ss \<and> epoll ss' = epoll ss \<and> freed ss' = freed ss \<and> (\<forall>n. written n ss' = written n ss)"

lemma alike_refl [simp]: "alike i ss ss"
  by (simp add: alike_def)

lemma alike_trans: "alike i a b \<Longrightarrow> alike i b c \<Longrightarrow> alike i a c"
  unfolding alike_def by (auto intro: frame_trans)

lemma alike_answers: "a_read as = a_read (answers ss) \<Longrightarrow> alike i ss (ss\<lparr>answers := as\<rparr>)"
  by (simp add: alike_def)

lemma alike_close: "alike i ss (log_call (Close fd) ss') = alike i ss ss'"
  by (simp add: alike_def)

lemma frame_pipe: "frame i ss ss' \<Longrightarrow> pipe_for n ss' = pipe_for n ss"
  by (simp add: frame_def pipe_for_def)

lemma alike_creating: "alike i ss ss' \<Longrightarrow> creating i c sid ss' = creating i c sid ss"
proof -
  assume a: "alike i ss ss'"
  then have "pipe_for n ss' = pipe_for n ss" for n using frame_pipe by (auto simp: alike_def)
  with a show ?thesis by (simp add: alike_def creating_def waiting_def)
qed

lemma alike_served: "alike i ss ss1 \<Longrightarrow> served i x ss1 r ss' \<Longrightarrow> served i x ss r ss'"
  by (auto simp: alike_def served_def frame_pipe intro: frame_trans)

lemma try_connect_alike:
  "try_connect sas err ss = (r, ss') \<Longrightarrow> alike i ss ss'"
proof (induction sas arbitrary: err ss)
  case (Cons sa sas)
  obtain a as where a: "next_answer (Inl EMFILE) (a_socket (answers ss)) = (a, as)" by fastforce
  let ?ss1 = "ss\<lparr>answers := (answers ss)\<lparr>a_socket := as\<rparr>\<rparr>"
  obtain b bs where b: "next_answer None (a_connect (answers ?ss1)) = (b, bs)" by fastforce
  let ?ss2 = "?ss1\<lparr>answers := (answers ?ss1)\<lparr>a_connect := bs\<rparr>\<rparr>"
  have l: "alike i ss ?ss1" "alike i ss ?ss2" by (simp_all add: alike_def)
  show ?case
  proof (cases a)
    case (Inl e)
    with Cons.prems a have "try_connect sas e ?ss1 = (r, ss')" by simp
    with Cons.IH alike_trans [OF l(1)] show ?thesis by blast
  next
    case (Inr sock)
    show ?thesis
    proof (cases "b = None \<or> b = Some EINPROGRESS")
      case True
      with Cons.prems a b Inr l show ?thesis by auto
    next
      case False
      then obtain e where e: "b = Some e" "e \<noteq> EINPROGRESS" by (cases b) auto
      then have "try_connect sas e (log_call (Close sock) ?ss2) = (r, ss')" using Cons.prems a b Inr by (simp add: Let_def)
      with Cons.IH l(2) alike_trans alike_close show ?thesis by blast
    qed
  qed
qed simp

text \<open>What a handler does when it registers a descriptor.\<close>

lemma new_fd_served:
  assumes c: "creating i c sid ss" and h: "h ss = do { (ns, ss) \<leftarrow> new_fd sid fd proto p add ss; if ns then Some (rok ss, fok ss) else Some (rno ss, fno ss) }"
    and ok: "\<And>ss1. fresh_socket sid (slot ss1 i) \<Longrightarrow> protocol (slot ss1 i) = proto \<Longrightarrow> epoll ss1 i = (if add then Some False else None) \<Longrightarrow>
      \<exists>a e. fok ss1 = set_slot i (\<lambda>s. a s) (if e then sp_write i True ss1 else ss1) \<and> fresh_socket sid (a (slot ss1 i)) \<and> live (a (slot ss1 i)) \<and>
        interest_ok (a (slot ss1 i)) (if add then Some e else None) (pipe_for sid ss)"
    and no: "\<And>ss1. fno ss1 = ss1 \<or> fno ss1 = set_type i T_INVALID (log_call (Close fd) ss1)"
  shows "\<exists>r ss'. h ss = Some (r, ss') \<and> served i {#} ss r ss'"
proof -
  from new_fd_creates [OF c, of fd proto p add] obtain b ss1 where b: "new_fd sid fd proto p add ss = Some (b, ss1)" "frame i ss ss1"
    "freed ss1 = freed ss" "\<forall>n. written n ss1 = written n ss"
    "if b then fresh_socket sid (slot ss1 i) \<and> protocol (slot ss1 i) = proto \<and> epoll ss1 i = (if add then Some False else None)
     else slot ss1 i = (slot ss i)\<lparr>s_type := T_INVALID\<rparr> \<and> epoll ss1 i = None" by auto
  show ?thesis
  proof (cases b)
    case True
    with ok [of ss1] b(5) obtain a e where a: "fok ss1 = set_slot i (\<lambda>s. a s) (if e then sp_write i True ss1 else ss1)" "fresh_socket sid (a (slot ss1 i))"
      "live (a (slot ss1 i))" "interest_ok (a (slot ss1 i)) (if add then Some e else None) (pipe_for sid ss)" by auto
    have "served i {#} ss (rok ss1) (fok ss1)"
      using b(2-5) True a by (intro created_served [OF c]) (auto split: if_splits)
    then show ?thesis using b(1) True h by simp
  next
    case False
    have "served i {#} ss (rno ss1) (fno ss1)"
      using b(2-5) False no [of ss1] by (intro not_created_served [OF c]) (auto simp: set_type_def)
    then show ?thesis using b(1) False h by simp
  qed
qed

lemma open_failed_served:
  assumes "creating i c sid ss" "alike i ss ss1"
  shows "\<exists>r ss'. open_failed sid m err ss1 = Some (r, ss') \<and> served i {#} ss r ss'"
proof -
  have i: "HASH_ID sid = i" using assms(1) by (simp add: creating_def)
  note c = alike_creating [THEN iffD2, OF assms(2,1)]
  have "served i {#} ss1 r (set_type i T_INVALID ss1)" for r
    by (rule not_created_served [OF c]) (use creating_slot(1) [OF c] in \<open>simp_all add: set_type_def\<close>)
  then show ?thesis using alike_served [OF assms(2)] by (auto simp: open_failed_def i)
qed

lemma open_served:
  assumes c: "creating i c sid ss"
  shows "\<exists>r ss'. open_socket sid p ss = Some (r, ss') \<and> served i {#} ss r ss'"
proof -
  have i: "HASH_ID sid = i" using c by (simp add: creating_def)
  obtain a as where a: "next_answer (Inl []) (a_resolve (answers ss)) = (a, as)" by fastforce
  let ?ss1 = "ss\<lparr>answers := (answers ss)\<lparr>a_resolve := as\<rparr>\<rparr>"
  have l1: "alike i ss ?ss1" by (simp add: alike_def)
  show ?thesis
  proof (cases a)
    case (Inl e)
    then show ?thesis using open_failed_served [OF c l1] a by (simp add: open_socket_def Let_def)
  next
    case (Inr sas)
    obtain r ss2 where r: "try_connect sas (Errno []) ?ss1 = (r, ss2)" by fastforce
    have l2: "alike i ss ss2" using alike_trans [OF l1 try_connect_alike [OF r]] .
    show ?thesis
    proof (cases r)
      case (Inl e)
      then show ?thesis using open_failed_served [OF c l2] a Inr r by (simp add: open_socket_def Let_def)
    next
      case c2: (Inr x)
      obtain sock connected sa where x: "x = (sock, connected, sa)" by (cases x)
      let ?m = "\<lparr>sm_id = sid, sm_opaque = p, sm_ud = 0, sm_data = Null\<rparr>"
      let ?rok = "\<lambda>ss. if connected then Some (SOCKET_OPEN, ?m\<lparr>sm_data := text_or_null (a_ntop (answers ss) sa)\<rparr>) else None"
      let ?fok = "\<lambda>ss. if connected then set_type i T_CONNECTED ss else sp_write i True (set_type i T_CONNECTING ss)"
      have "\<exists>r ss'. open_socket sid p ss = Some (r, ss') \<and> served i {#} ss2 r ss'"
      proof (rule new_fd_served [where h = "\<lambda>_. open_socket sid p ss" and ss = ss2, OF alike_creating [THEN iffD2, OF l2 c]])
        show "open_socket sid p ss = do { (ns, ss) \<leftarrow> new_fd sid sock PROTOCOL_TCP p True ss2;
          if ns then Some (?rok ss, ?fok ss)
          else Some (Some (SOCKET_ERR, ?m\<lparr>sm_data := Text limit_text\<rparr>), set_type i T_INVALID (log_call (Close sock) ss)) }"
          using a Inr r c2 x by (cases "new_fd sid sock PROTOCOL_TCP p True ss2") (auto simp: open_socket_def Let_def i open_failed_def)
        show "\<exists>f e. ?fok ss1 = set_slot i f (if e then sp_write i True ss1 else ss1) \<and> fresh_socket sid (f (slot ss1 i)) \<and>
            live (f (slot ss1 i)) \<and> interest_ok (f (slot ss1 i)) (if True then Some e else None) (pipe_for sid ss2)"
          if "fresh_socket sid (slot ss1 i)" for ss1
          using that by (intro exI [of _ "\<lambda>s. s\<lparr>s_type := if connected then T_CONNECTED else T_CONNECTING\<rparr>"] exI [of _ "\<not> connected"])
            (auto simp: set_type_def sp_write_def set_slot_def fresh_no_data live_def interest_ok_def accepts_def)
      qed auto
      then show ?thesis using alike_served [OF l2] by blast
    qed
  qed
qed

lemma creates_served:
  assumes c: "creating i c sid ss"
  shows "\<exists>r ss'. ctrl_cmd c ss = Some (r, ss') \<and> served i {#} ss r ss'"
proof -
  have i: "HASH_ID sid = i" using c by (simp add: creating_def)
  let ?m = "\<lambda>p. \<lparr>sm_id = sid, sm_opaque = p, sm_ud = 0, sm_data = Null\<rparr>"
  note types = fresh_no_data live_def interest_ok_def accepts_def
  have set: "\<exists>a e. set_type i t ss1 = set_slot i a (if e then sp_write i True ss1 else ss1) \<and> fresh_socket sid (a (slot ss1 i)) \<and> live (a (slot ss1 i)) \<and>
        interest_ok (a (slot ss1 i)) (if add then Some e else None) (pipe_for sid ss)"
    if "fresh_socket sid (slot ss1 i)" "t \<noteq> T_INVALID" "t \<noteq> T_RESERVE" "t \<noteq> T_CONNECTING" "add = (t \<noteq> T_PACCEPT \<and> t \<noteq> T_PLISTEN)" "t = T_BIND \<longrightarrow> binds c" for ss1 t add
    using that creating_slot(6) [OF c] by (intro exI [of _ "\<lambda>s. s\<lparr>s_type := t\<rparr>"] exI [of _ False]) (auto simp: set_type_def types)
  from c show ?thesis
  proof (cases c rule: creates.cases)
    case (1 n fd p)
    then have "n = sid" using c by (simp add: creating_def)
    moreover have "\<exists>r ss'. bind_socket sid fd p ss = Some (r, ss') \<and> served i {#} ss r ss'"
    proof (rule new_fd_served [OF c])
      show "bind_socket sid fd p ss = do { (ns, ss) \<leftarrow> new_fd sid fd PROTOCOL_TCP p True ss;
        if ns then Some (Some (SOCKET_OPEN, (?m p)\<lparr>sm_data := Text ''binding''\<rparr>), set_type i T_BIND ss)
        else Some (Some (SOCKET_ERR, (?m p)\<lparr>sm_data := Text limit_text\<rparr>), ss) }"
        by (cases "new_fd sid fd PROTOCOL_TCP p True ss") (auto simp: bind_socket_def Let_def i)
    qed (use set [of _ T_BIND True] 1 in auto)
    ultimately show ?thesis using 1 by (simp add: ctrl_cmd_def)
  next
    case (2 n fd p)
    then have "n = sid" using c by (simp add: creating_def)
    moreover have "\<exists>r ss'. listen_socket sid fd p ss = Some (r, ss') \<and> served i {#} ss r ss'"
    proof (rule new_fd_served [OF c])
      show "listen_socket sid fd p ss = do { (ns, ss) \<leftarrow> new_fd sid fd PROTOCOL_TCP p False ss;
        if ns then Some (None, set_type i T_PLISTEN ss)
        else Some (Some (SOCKET_ERR, (?m p)\<lparr>sm_data := Text limit_text\<rparr>), set_type i T_INVALID (log_call (Close fd) ss)) }"
        by (cases "new_fd sid fd PROTOCOL_TCP p False ss") (auto simp: listen_socket_def i)
    qed (use set [of _ T_PLISTEN False] in auto)
    ultimately show ?thesis using 2 by (simp add: ctrl_cmd_def)
  next
    case (3 n port p host)
    then have n: "n = sid" using c by (simp add: creating_def)
    with open_served [OF c] show ?thesis using 3 by (simp add: ctrl_cmd_def)
  next
    case (4 n fd v6 p)
    then have "n = sid" using c by (simp add: creating_def)
    let ?a = "\<lambda>s. s\<lparr>s_type := T_CONNECTED, p_address := replicate 19 0\<rparr>"
    have "\<exists>r ss'. map_option (Pair None) (add_udp_socket sid fd v6 p ss) = Some (r, ss') \<and> served i {#} ss r ss'"
    proof (rule new_fd_served [OF c])
      show "map_option (Pair None) (add_udp_socket sid fd v6 p ss) = do { (ns, ss) \<leftarrow> new_fd sid fd (if v6 then PROTOCOL_UDPv6 else PROTOCOL_UDP) p True ss;
        if ns then Some (None, set_slot i ?a ss) else Some (None, set_type i T_INVALID (log_call (Close fd) ss)) }"
        by (cases "new_fd sid fd (if v6 then PROTOCOL_UDPv6 else PROTOCOL_UDP) p True ss") (auto simp: add_udp_socket_def i)
      show "\<exists>a e. set_slot i ?a ss1 = set_slot i a (if e then sp_write i True ss1 else ss1) \<and> fresh_socket sid (a (slot ss1 i)) \<and>
          live (a (slot ss1 i)) \<and> interest_ok (a (slot ss1 i)) (if True then Some e else None) (pipe_for sid ss)"
        if "fresh_socket sid (slot ss1 i)" for ss1
        using that by (intro exI [of _ ?a] exI [of _ False]) (auto simp: types)
    qed auto
    with \<open>n = sid\<close> show ?thesis using 4 by (simp add: ctrl_cmd_def)
  qed (auto simp: creating_def)
qed

end
