(* ===== verification/SocketSafe.thy ===== *)
theory SocketSafe
  imports SocketServed
begin

text \<open>
  Each request that the socket thread takes from the pipe is served without a failing assertion, keeps the invariant, and leaves the buffers that came
  with it freed or in the hands of a socket.
\<close>

section \<open>Every request is served\<close>

definition given :: "request \<Rightarrow> os_call multiset" where
  "given req = (case payload_of req of None \<Rightarrow> {#} | Some pl \<Rightarrow> {#Free (pl_buffer pl)#})"

lemma address_fields [simp]:
  "data_ok (s\<lparr>p_address := a, udpconnecting := u\<rparr>) = data_ok s" "held (s\<lparr>p_address := a, udpconnecting := u\<rparr>) = held s"
  "slot_ok i (s\<lparr>p_address := a, udpconnecting := u\<rparr>) w q = slot_ok i s w q"
  by (simp_all add: data_ok_def held_def owned_def live_def slot_ok_def interest_ok_def has_data_def)

lemma setopt_served:
  assumes "waiting i (Req_setopt sid what v) ss" "i = HASH_ID sid"
  shows "served i {#} ss None (setopt_socket sid what v ss)"
  using assms(2) by (intro served_same [OF assms(1)]) (simp_all add: setopt_socket_def)

lemma setudp_served:
  assumes "waiting i (Req_setudp sid a) ss" "i = HASH_ID sid"
  shows "served i {#} ss (fst (set_udp_address sid a ss)) (snd (set_udp_address sid a ss))"
proof -
  have s: "served i {#} ss r ss" for r by (rule served_same [OF assms(1)]) simp_all
  have u: "served i {#} ss None (set_slot i (\<lambda>s. s\<lparr>p_address := b s, udpconnecting := udpconnecting s - 1\<rparr>) ss)" for b
    using s [of None] by (simp add: served_def)
  show ?thesis
  proof (cases "invalid_slot sid ss \<or> hd a \<noteq> protocol (slot ss (HASH_ID sid))")
    case True
    then have "snd (set_udp_address sid a ss) = ss" by (auto simp: set_udp_address_def Let_def)
    then show ?thesis using s by metis
  next
    case False
    let ?n = "if hd a = PROTOCOL_UDP then 1 + 2 + 4 else 1 + 2 + 16"
    have "set_udp_address sid a ss =
        (None, set_slot i (\<lambda>s. s\<lparr>p_address := take ?n a @ drop ?n (p_address s), udpconnecting := udpconnecting s - 1\<rparr>) ss)"
      using False by (simp add: set_udp_address_def Let_def assms(2))
    then show ?thesis using u [of "\<lambda>s. take ?n a @ drop ?n (p_address s)"] by simp
  qed
qed

lemma ctrl_served:
  assumes w: "waiting i req ss" and soi: "soi ss = None" and req: "req_id req = Some sid" "i = HASH_ID sid"
    and pl: "\<And>pl. payload_of req = Some pl \<Longrightarrow> 0 \<le> pl_sz pl"
    and new: "creates req \<Longrightarrow> s_type (slot ss i) = T_RESERVE \<and> s_id (slot ss i) = sid"
  shows "\<exists>r ss'. ctrl_cmd req ss = Some (r, ss') \<and> served i (given req) ss r ss'"
proof (cases "creates req")
  case True
  then have "payload_of req = None" by (cases req) simp_all
  with True creates_served [of i req sid ss] w req new show ?thesis by (simp add: creating_def given_def)
next
  case False
  let ?send = "\<lambda>x h a. do { (r, ss) \<leftarrow> send_socket sid x h a ss; ss \<leftarrow> (if counted req then dec_sending_ref sid ss else Some ss); Some (r, ss) }"
  have sent: ?thesis if "payload_of req = Some x" "ctrl_cmd req ss = ?send x h a" for x h a
    using data_served [OF w soi pl [OF that(1)] req(2,1) that(1) False that(2)] by (simp only: given_def that(1) option.case)
  show ?thesis
  proof (cases req)
    case (Req_start n p)
    then have e: "ctrl_cmd req ss = start_socket sid p ss" "given req = {#}" "req = Req_start sid p" using req by (simp_all add: ctrl_cmd_def given_def)
    show ?thesis unfolding e(1,2) by (rule start_served [OF w [unfolded e(3)] req(2)])
  next
    case (Req_close n b p)
    then have e: "ctrl_cmd req ss = close_socket sid b p ss" "given req = {#}" "req = Req_close sid b p" using req by (simp_all add: ctrl_cmd_def given_def)
    show ?thesis unfolding e(1,2) by (rule close_served [OF w [unfolded e(3)] soi req(2)])
  next
    case (Req_setopt n what v)
    then have e: "ctrl_cmd req ss = Some (None, setopt_socket sid what v ss)" "given req = {#}" "req = Req_setopt sid what v" using req by (simp_all add: ctrl_cmd_def given_def)
    show ?thesis unfolding e(1,2) using setopt_served [OF w [unfolded e(3)] req(2)] by blast
  next
    case (Req_setudp n a)
    then have e: "ctrl_cmd req ss = Some (set_udp_address sid a ss)" "given req = {#}" "req = Req_setudp sid a" using req by (simp_all add: ctrl_cmd_def given_def)
    show ?thesis unfolding e(1,2) using setudp_served [OF w [unfolded e(3)] req(2)] by (metis prod.collapse)
  next
    case (Req_send n x)
    then have "ctrl_cmd req ss = ?send x True None" using req(1) by (simp add: ctrl_cmd_def)
    then show ?thesis using Req_send by (intro sent) simp_all
  next
    case (Req_send_low n x)
    then have "ctrl_cmd req ss = ?send x False None" using req(1) by (simp add: ctrl_cmd_def)
    then show ?thesis using Req_send_low by (intro sent) simp_all
  next
    case (Req_send_udp n x a)
    then have "ctrl_cmd req ss = ?send x True (Some a)" using req(1)
      by (cases "send_socket sid x True (Some a) ss") (simp_all add: ctrl_cmd_def split_beta)
    then show ?thesis using Req_send_udp by (intro sent) simp_all
  qed (use False req in \<open>simp_all\<close>)
qed

text \<open>A request for another socket leaves the type alone.\<close>

lemma ctrl_other:
  assumes "req_id req = Some sid" "i = HASH_ID sid" "s_id (slot ss i) \<noteq> sid" "\<not> creates req" "soi ss = None"
    and pl: "\<And>pl. payload_of req = Some pl \<Longrightarrow> 0 \<le> pl_sz pl" and c: "ctrl_cmd req ss = Some (r, ss')"
  shows "s_type (slot ss' i) = s_type (slot ss i)"
proof (cases "payload_of req")
  case None
  then show ?thesis using assms(1-4) c
    by (cases req) (auto simp: ctrl_cmd_def start_socket_def close_socket_def set_udp_address_def setopt_socket_def invalid_slot_def Let_def)
next
  case (Some x)
  have d: "\<exists>r1 ss1. send_socket sid x h a ss = Some (r1, ss1) \<and> s_type (slot ss1 i) = s_type (slot ss i) \<and> dec_sending_ref sid ss1 = Some ss1" for h a
  proof -
    obtain r1 ss1 where r: "send_socket sid x h a ss = Some (r1, ss1)" "dropped i x ss ss1"
      using send_socket_sent [OF pl [OF Some] assms(5), of sid h a] assms(2,3) by (auto simp: Let_def)
    then have "s_type (slot ss1 i) = s_type (slot ss i)" "s_id (slot ss1 i) = s_id (slot ss i)" by (auto simp: dropped_def)
    then show ?thesis using r assms(2,3) by (auto simp: dec_sending_ref_def Let_def)
  qed
  show ?thesis
  proof (cases req)
    case (Req_send n y)
    then show ?thesis using Some c assms(1) d [of True None] by (auto simp: ctrl_cmd_def)
  next
    case (Req_send_low n y)
    then show ?thesis using Some c assms(1) d [of False None] by (auto simp: ctrl_cmd_def)
  next
    case (Req_send_udp n y a)
    then show ?thesis using Some c assms(1) d [of True "Some a"] by (auto simp: ctrl_cmd_def)
  qed (use Some in auto)
qed

section \<open>The invariant after a request\<close>

text \<open>What the sockets own, and the requests on their way.\<close>

definition in_hand :: "socket_server \<Rightarrow> os_call multiset" where
  "in_hand ss = (\<Sum>i<MAX_SOCKET. held (slot ss i)) + (\<Sum>req\<leftarrow>pipe ss. given req)"

lemma HASH_ID_less [simp]: "HASH_ID n < MAX_SOCKET"
  by (simp add: HASH_ID_def MAX_SOCKET_def MAX_SOCKET_P_def)

lemma served_slots:
  assumes "\<And>j. j \<noteq> i \<Longrightarrow> slot_ok j (slot ss j) (epoll ss j) (pipe_for (s_id (slot ss j)) ss)" "served i x ss r ss'"
  shows "slots_ok ss'"
  unfolding slots_ok_def
proof
  fix j
  have f: "frame i ss ss'" "pipe_for n ss' = pipe_for n ss" for n using assms(2) frame_pipe by (auto simp: served_def)
  show "slot_ok j (slot ss' j) (epoll ss' j) (pipe_for (s_id (slot ss' j)) ss')"
    using assms f by (cases "j = i") (auto simp: served_def frame_def)
qed

lemma served_hand:
  assumes "served i x ss r ss'" "i < MAX_SOCKET"
  shows "freed ss' + in_hand ss' = freed ss + in_hand ss + x"
proof -
  let ?R = "\<lambda>s. \<Sum>j\<in>{..<MAX_SOCKET} - {i}. held (slot s j)"
  have R: "?R ss' = ?R ss" using assms(1) by (intro sum.cong) (auto simp: served_def frame_def)
  have p: "pipe ss' = pipe ss" and h: "freed ss' + held (slot ss' i) = freed ss + held (slot ss i) + x" using assms(1) by (auto simp: served_def frame_def)
  have s: "(\<Sum>i<MAX_SOCKET. held (slot s i)) = held (slot s i) + ?R s" for s :: socket_server
    using assms(2) by (intro sum.remove) simp_all
  let ?P = "\<Sum>req\<leftarrow>pipe ss. given req"
  have "freed ss' + in_hand ss' = (freed ss' + held (slot ss' i)) + (?R ss + ?P)"
    unfolding in_hand_def s R p by (simp only: ac_simps)
  also have "\<dots> = freed ss + in_hand ss + x" unfolding in_hand_def s h by (simp only: ac_simps)
  finally show ?thesis .
qed

lemma served_reads: "served i x ss r ss' \<Longrightarrow> reads_ok ss \<Longrightarrow> reads_ok ss'"
  by (auto simp: served_def frame_def reads_ok_def)

lemma pipe_for_pop:
  "pipe ss = req # reqs \<Longrightarrow> pipe_for n ss = (if req_id req = Some n then req # pipe_for n (ss\<lparr>pipe := reqs\<rparr>) else pipe_for n (ss\<lparr>pipe := reqs\<rparr>))"
  by (simp add: pipe_for_def)

lemma slots_waiting: "slots_ok ss \<Longrightarrow> pipe ss = req # reqs \<Longrightarrow> waiting i req (ss\<lparr>pipe := reqs\<rparr>)"
  using pipe_for_pop by (auto simp: slots_ok_def waiting_def Let_def)

lemma slots_registered:
  assumes "slots_ok ss" "epoll ss i \<noteq> None"
  shows "live (slot ss i)" "i < MAX_SOCKET" "s_type (slot ss i) \<noteq> T_INVALID"
proof -
  have ok: "slot_ok i (slot ss i) (epoll ss i) (pipe_for (s_id (slot ss i)) ss)" using assms(1) by (simp add: slots_ok_def)
  with assms(2) show l: "live (slot ss i)" unfolding slot_ok_def live_def by (metis (no_types))
  then show "s_type (slot ss i) \<noteq> T_INVALID" by (simp add: live_def)
  have "HASH_ID (s_id (slot ss i)) = i" using ok l slot_ok_live by blast
  then show "i < MAX_SOCKET" using HASH_ID_less by metis
qed

text \<open>The events that remain.\<close>

lemma clear_event_slots:
  "set (List.map_filter e_s (clear_event ss sid es)) \<subseteq> set (List.map_filter e_s es) \<and>
   (distinct (List.map_filter e_s es) \<longrightarrow> distinct (List.map_filter e_s (clear_event ss sid es)))"
  by (induction es) (auto simp: List.map_filter_simps split: option.splits)

lemma clear_event_removes:
  assumes "s_type (slot ss i) = T_INVALID" "s_id (slot ss i) = sid" "distinct (List.map_filter e_s es)"
    "\<And>j. j \<in> set (List.map_filter e_s es) \<Longrightarrow> j \<noteq> i \<Longrightarrow> s_type (slot ss j) \<noteq> T_INVALID"
  shows "i \<notin> set (List.map_filter e_s (clear_event ss sid es))"
  using assms(3,4)
proof (induction es)
  case (Cons e es)
  then show ?case using assms(1,2) by (cases "e_s e") (auto simp: List.map_filter_simps split: if_splits)
qed (simp add: List.map_filter_simps)

lemma clear_closed_simps [simp]:
  "slot (clear_closed_event m ss) = slot ss" "epoll (clear_closed_event m ss) = epoll ss" "pipe (clear_closed_event m ss) = pipe ss"
  "soi (clear_closed_event m ss) = soi ss" "answers (clear_closed_event m ss) = answers ss" "calls (clear_closed_event m ss) = calls ss"
  by (simp_all add: clear_closed_event_def)

lemma drop_clear: "drop n (take n es @ clear_event ss sid (drop n es)) = clear_event ss sid (drop n es)"
  by (cases "n \<le> length es") (simp_all add: min_def)

lemma clear_closed_rest:
  "fst m = SOCKET_CLOSE \<or> fst m = SOCKET_ERR \<Longrightarrow> drop (event_index (clear_closed_event m ss)) (ev (clear_closed_event m ss)) =
     clear_event ss (sm_id (snd m)) (drop (event_index ss) (ev ss))"
  using drop_clear by (simp add: clear_closed_event_def del: drop_append)

definition clear_result :: "poll_result \<Rightarrow> socket_server \<Rightarrow> socket_server" where
  "clear_result r ss = (case r of None \<Rightarrow> ss | Some m \<Rightarrow> clear_closed_event m ss)"

lemma clear_result_simps [simp]:
  "slot (clear_result r ss) = slot ss" "epoll (clear_result r ss) = epoll ss" "pipe (clear_result r ss) = pipe ss"
  "soi (clear_result r ss) = soi ss" "answers (clear_result r ss) = answers ss" "calls (clear_result r ss) = calls ss"
  by (simp_all add: clear_result_def split: option.split)

lemma slots_invalid: "slots_ok ss \<Longrightarrow> epoll ss i \<noteq> None \<Longrightarrow> s_type (slot ss i) \<noteq> T_INVALID"
  using slots_registered(3) by blast

lemma clear_result_events:
  assumes e: "events_ok ss" and s: "served i x ss r ss'" and ok: "slots_ok ss'"
  shows "events_ok (clear_result r ss')"
proof -
  let ?es = "drop (event_index ss) (ev ss)"
  let ?in = "\<lambda>es. set (List.map_filter e_s es)"
  have f: "ev ss' = ev ss" "event_index ss' = event_index ss" "j \<noteq> i \<Longrightarrow> epoll ss' j = epoll ss j" for j using s by (auto simp: served_def frame_def)
  have d: "distinct (List.map_filter e_s ?es)" and reg: "j \<in> ?in ?es \<Longrightarrow> epoll ss j \<noteq> None" for j
    using e by (auto simp: events_ok_def Let_def)
  have other: "epoll ss' j \<noteq> None" if "j \<in> ?in ?es" "j \<noteq> i" for j using reg [OF that(1)] f(3) [OF that(2)] by simp
  show ?thesis
  proof (cases "i \<in> ?in ?es \<and> epoll ss' i = None")
    case True
    then have "epoll ss i \<noteq> None" using reg by blast
    with True s obtain t m where r: "r = Some (t, m)" "t = SOCKET_CLOSE \<or> t = SOCKET_ERR" "sm_id m = s_id (slot ss' i)" "s_type (slot ss' i) = T_INVALID"
      unfolding served_def by auto
    let ?es' = "clear_event ss' (sm_id m) ?es"
    have "i \<notin> ?in ?es'"
      by (rule clear_event_removes [OF r(4) r(3) [symmetric] d]) (rule slots_invalid [OF ok other])
    then have "\<forall>j\<in>?in ?es'. epoll ss' j \<noteq> None" using other clear_event_slots by blast
    then show ?thesis using r(2) f(1,2) d clear_event_slots [of ss' "sm_id m" ?es]
      by (simp add: r(1) events_ok_def Let_def clear_result_def clear_closed_rest)
  next
    case False
    have all: "\<forall>j\<in>?in ?es. epoll ss' j \<noteq> None"
    proof
      fix j
      assume j: "j \<in> ?in ?es"
      show "epoll ss' j \<noteq> None"
      proof (cases "j = i")
        case True
        with False j show ?thesis by simp
      next
        case False
        with j show ?thesis by (rule other)
      qed
    qed
    show ?thesis
    proof (cases "\<exists>m. r = Some m \<and> (fst m = SOCKET_CLOSE \<or> fst m = SOCKET_ERR)")
      case True
      then obtain m where "r = Some m" "fst m = SOCKET_CLOSE \<or> fst m = SOCKET_ERR" by blast
      then show ?thesis using all f(1,2) d clear_event_slots [of ss' "sm_id (snd m)" ?es]
        by (simp add: events_ok_def Let_def clear_result_def clear_closed_rest subset_eq)
    next
      case none: False
      then have "clear_result r ss' = ss'" by (cases r) (simp_all add: clear_result_def clear_closed_event_def)
      then show ?thesis using all f(1,2) d by (simp add: events_ok_def Let_def)
    qed
  qed
qed

definition balance :: "socket_server \<Rightarrow> os_call multiset" where
  "balance ss = freed ss + in_hand ss"

lemma slot_ok_other: "HASH_ID (s_id s) \<noteq> j \<Longrightarrow> slot_ok j s w q \<Longrightarrow> slot_ok j s w q'"
  by (auto simp: slot_ok_def split: if_splits)

lemma freed_alike: "calls ss' = calls ss \<Longrightarrow> freed ss' = freed ss"
  by (simp add: freed_def)

lemma events_alike: "ev ss' = ev ss \<Longrightarrow> event_index ss' = event_index ss \<Longrightarrow> epoll ss' = epoll ss \<Longrightarrow> events_ok ss' = events_ok ss"
  by (simp add: events_ok_def)

lemma clear_result_ok [simp]:
  "slots_ok (clear_result r ss) = slots_ok ss" "pipe_ok (clear_result r ss) = pipe_ok ss" "reads_ok (clear_result r ss) = reads_ok ss"
  "balance (clear_result r ss) = balance ss"
  by (simp_all add: slots_ok_def pipe_for_def pipe_ok_def reads_ok_def balance_def in_hand_def freed_def)

lemma command_others:
  assumes "slots_ok ss" "pipe ss = req # reqs" "req_id req = Some sid" "j \<noteq> HASH_ID sid"
  shows "slot_ok j (slot ss j) (epoll ss j) (pipe_for (s_id (slot ss j)) (ss\<lparr>pipe := reqs\<rparr>))"
proof -
  let ?n = "s_id (slot ss j)"
  have ok: "slot_ok j (slot ss j) (epoll ss j) (pipe_for ?n ss)" using assms(1) by (simp add: slots_ok_def)
  show ?thesis
  proof (cases "?n = sid")
    case True
    then show ?thesis using slot_ok_other [OF _ ok] assms(4) by simp
  next
    case False
    then have "pipe_for ?n ss = pipe_for ?n (ss\<lparr>pipe := reqs\<rparr>)" using pipe_for_pop [OF assms(2), of ?n] assms(3) by simp
    then show ?thesis using ok by simp
  qed
qed

lemma command_pipe:
  assumes ok: "slots_ok ss" "pipe_ok ss" "soi ss = None" and pipe: "pipe ss = req # reqs" and req: "req_id req = Some sid"
    and c: "ctrl_cmd req (ss\<lparr>pipe := reqs\<rparr>) = Some (r, ss')" and s: "served (HASH_ID sid) x (ss\<lparr>pipe := reqs\<rparr>) r ss'"
  shows "pipe_ok ss'"
proof -
  let ?ss0 = "ss\<lparr>pipe := reqs\<rparr>" and ?i = "HASH_ID sid"
  have f: "pipe ss' = reqs" "s_id (slot ss' ?i) = s_id (slot ss ?i)" "\<And>j. j \<noteq> ?i \<Longrightarrow> slot ss' j = slot ss j"
    using s by (auto simp: served_def frame_def)
  have "\<exists>n. req_id r' = Some n \<and> s_type (slot ss' (HASH_ID n)) = T_RESERVE \<and> s_id (slot ss' (HASH_ID n)) = n" if r': "r' \<in> set reqs" "creates r'" for r'
  proof -
    from ok(2) r' pipe obtain n where n: "req_id r' = Some n" "s_type (slot ss (HASH_ID n)) = T_RESERVE" "s_id (slot ss (HASH_ID n)) = n"
      by (auto simp: pipe_ok_def)
    have "s_type (slot ss' (HASH_ID n)) = T_RESERVE \<and> s_id (slot ss' (HASH_ID n)) = n"
    proof (cases "HASH_ID n = ?i")
      case False
      then show ?thesis using n f(3) by simp
    next
      case True
      have "n \<noteq> sid"
      proof
        assume "n = sid"
        then have "slot_ok ?i (slot ss ?i) (epoll ss ?i) (req # pipe_for sid ?ss0)"
          using ok(1) n(3) pipe_for_pop [OF pipe, of sid] req by (simp add: slots_ok_def) (metis \<open>n = sid\<close>)
        then have "reserved (req # pipe_for sid ?ss0)" using n(2) \<open>n = sid\<close> by (simp add: slot_ok_def)
        moreover have "r' \<in> set (pipe_for sid ?ss0)" using r'(1) n(1) \<open>n = sid\<close> by (simp add: pipe_for_def)
        ultimately show False using r'(2) by (simp add: reserved_def)
      qed
      then have id: "s_id (slot ss ?i) \<noteq> sid" using n(3) True by simp
      have "\<not> creates req"
      proof
        assume "creates req"
        then have "s_id (slot ss ?i) = sid" using ok(2) pipe req by (auto simp: pipe_ok_def)
        with id show False by simp
      qed
      moreover have "0 \<le> pl_sz pl" if "payload_of req = Some pl" for pl using ok(2) pipe that by (simp add: pipe_ok_def)
      ultimately have "s_type (slot ss' ?i) = s_type (slot ss ?i)"
        using ctrl_other [OF req refl, of ?ss0 r ss'] id ok(3) c by simp
      then show ?thesis using n f(2) True by simp
    qed
    with n(1) show ?thesis by blast
  qed
  then show ?thesis using ok(2) f(1) pipe by (auto simp: pipe_ok_def)
qed

lemma command_ok:
  assumes ok: "server_ok ss" and pipe: "pipe ss = req # reqs"
  shows "\<exists>p ss'. poll_command ss = Some (p, ss') \<and> server_ok ss' \<and> balance ss' = balance ss"
proof -
  let ?ss0 = "ss\<lparr>pipe := reqs\<rparr>"
  have slots: "slots_ok ss" and po: "pipe_ok ss" and soi: "soi ss = None" and ev: "events_ok ss" and rd: "reads_ok ss" using ok by (simp_all add: server_ok_def)
  have bal: "balance ?ss0 + given req = balance ss" by (simp add: balance_def in_hand_def pipe freed_def ac_simps)
  have cmd: "poll_command ss = Some (pass_of r, clear_result r ss')" if "ctrl_cmd req ?ss0 = Some (r, ss')" for r ss'
    using that pipe by (simp add: poll_command_def clear_result_def)
  show ?thesis
  proof (cases "req_id req")
    case None
    then have e: "req = Req_exit" by (cases req) simp_all
    have "pipe_for n ?ss0 = pipe_for n ss" for n using pipe_for_pop [OF pipe, of n] None by simp
    then have "server_ok ?ss0" using slots po soi ev rd pipe by (simp add: server_ok_def slots_ok_def pipe_ok_def reads_ok_def events_ok_def)
    moreover have "clear_result (Some (SOCKET_EXIT, m)) ?ss0 = ?ss0" for m by (simp add: clear_result_def clear_closed_event_def)
    ultimately show ?thesis using cmd [of _ ?ss0] bal e by (simp add: ctrl_cmd_def given_def)
  next
    case (Some sid)
    let ?i = "HASH_ID sid"
    have pl: "0 \<le> pl_sz pl" if "payload_of req = Some pl" for pl using po pipe that by (simp add: pipe_ok_def)
    have new: "s_type (slot ?ss0 ?i) = T_RESERVE \<and> s_id (slot ?ss0 ?i) = sid" if "creates req" using po pipe that Some by (auto simp: pipe_ok_def)
    obtain r ss' where r: "ctrl_cmd req ?ss0 = Some (r, ss')" "served ?i (given req) ?ss0 r ss'"
      using ctrl_served [OF slots_waiting [OF slots pipe] _ Some refl pl new] soi by auto
    have slots': "slots_ok ss'"
      by (rule served_slots [OF _ r(2)]) (use command_others [OF slots pipe Some] in simp)
    have "pipe_ok ss'" by (rule command_pipe [OF slots po soi pipe Some r])
    moreover have "soi ss' = None" using r(2) soi by (simp add: served_def frame_def)
    moreover have "reads_ok ss'" using served_reads [OF r(2)] rd by (simp add: reads_ok_def)
    moreover have "events_ok (clear_result r ss')"
      by (rule clear_result_events [OF _ r(2) slots']) (use ev in \<open>simp add: events_ok_def\<close>)
    ultimately have "server_ok (clear_result r ss')" using slots' by (simp add: server_ok_def)
    moreover have "balance ss' = balance ss" using served_hand [OF r(2)] bal by (simp add: balance_def)
    ultimately show ?thesis using cmd [OF r(1)] by simp
  qed
qed

end
