(* ===== verification/SocketRun.thy ===== *)
theory SocketRun
  imports SocketSafe
begin

text \<open>
  What an event of the kernel does to its socket and to the invariant of the server (\<^verbatim>\<open>server_ok\<close>): connections that become ready or
  are accepted, reads, writes, errors; and the ids that a new socket may get.
\<close>

section \<open>Events of one socket\<close>

definition slot_here :: "nat \<Rightarrow> socket_server \<Rightarrow> bool" where
  "slot_here i ss \<longleftrightarrow> slot_ok i (slot ss i) (epoll ss i) (pipe_for (s_id (slot ss i)) ss)"

lemma alike_going: "alike i ss ss' \<Longrightarrow> going i [] ss ss'"
  by (simp add: alike_def going_def)

lemma close_served_event:
  assumes a: "alike i ss ss1" and l: "live (slot ss i)" and ok: "slot_here i ss"
  shows "\<exists>m ss'. force_close i ss1 = Some (m, ss') \<and> (\<forall>t d. t = SOCKET_CLOSE \<or> t = SOCKET_ERR \<longrightarrow> served i {#} ss (Some (t, m\<lparr>sm_data := d\<rparr>)) ss')"
proof -
  have "data_ok (slot ss i)" using ok l by (simp add: slot_here_def slot_ok_live)
  then obtain m ss' where c: "force_close i ss1 = Some (m, ss')" "sm_id m = s_id (slot ss i)" "ended i ss ss'"
    using force_close_ended [OF alike_going [OF a]] a l data_direct by (auto simp: alike_def)
  have "served i {#} ss (Some (t, m\<lparr>sm_data := d\<rparr>)) ss'" if "t = SOCKET_CLOSE \<or> t = SOCKET_ERR" for t d
    by (rule ended_served [OF c(3) l ok [unfolded slot_here_def] that]) (simp add: c(2))
  with c(1) show ?thesis by blast
qed

lemma close_error_served:
  assumes "alike i ss ss1" "live (slot ss i)" "slot_here i ss"
  shows "\<exists>r ss'. close_error i e ss1 = Some (r, ss') \<and> served i {#} ss r ss'"
  using close_served_event [OF assms] by (auto simp: close_error_def)

lemma close_event_served:
  assumes "alike i ss ss1" "live (slot ss i)" "slot_here i ss"
  shows "\<exists>r ss'. close_event i ss1 = Some (r, ss') \<and> served i {#} ss r ss'"
proof -
  obtain m ss' where m: "force_close i ss1 = Some (m, ss')" "served i {#} ss (Some (SOCKET_CLOSE, m\<lparr>sm_data := sm_data m\<rparr>)) ss'"
    using close_served_event [OF assms] by blast
  then show ?thesis by (simp add: close_event_def)
qed

lemma alike_served_same:
  assumes "alike i ss ss'" "slot_here i ss"
  shows "served i {#} ss r ss'"
  using assms by (auto simp: served_def alike_def slot_here_def)

lemma stat_served:
  assumes "alike i ss ss1" "slot_here i ss" "ss' = set_slot i (\<lambda>s. s\<lparr>stat := t, p_size := n\<rparr>) ss1"
  shows "served i {#} ss r ss'"
proof -
  have "slot_ok i ((slot ss i)\<lparr>stat := t, p_size := n\<rparr>) w q = slot_ok i (slot ss i) w q" for w q
    by (simp add: slot_ok_def data_ok_def interest_ok_def has_data_def)
  moreover have "held ((slot ss i)\<lparr>stat := t, p_size := n\<rparr>) = held (slot ss i)" by (simp add: held_def owned_def live_def)
  ultimately show ?thesis using assms by (auto simp: served_def alike_def slot_here_def)
qed

lemma stat_read_set: "\<exists>t. stat_read i n ss = set_slot i (\<lambda>s. s\<lparr>stat := t, p_size := p_size (slot ss i)\<rparr>) ss"
  by (intro exI [of _ "(stat (slot ss i))\<lparr>st_read := st_read (stat (slot ss i)) + of_nat n, rtime := ss_time ss\<rparr>"]) (simp add: stat_read_def set_slot_def)

lemma next_size_ok: "n < 2 ^ 30 \<Longrightarrow> \<exists>sz'. next_size sz n = Some sz'"
  by (auto simp: next_size_def c_nat_def INT_MAX_def)

lemma next_answer_set: "next_answer a as = (r, as') \<Longrightarrow> set as' \<subseteq> set as \<and> (r = a \<or> r \<in> set as)"
  by (auto simp: next_answer_def split: list.splits)

lemma forward_tcp_served:
  assumes l: "live (slot ss i)" and ok: "slot_here i ss" and rd: "reads_ok ss"
  shows "\<exists>r ss'. forward_message_tcp i ss = Some (r, ss') \<and> served i {#} ss r ss'"
proof -
  obtain r as where r: "next_answer (Inl EAGAIN) (a_read (answers ss)) = (r, as)" by fastforce
  note as = next_answer_set [OF r]
  let ?ss1 = "ss\<lparr>answers := (answers ss)\<lparr>a_read := as\<rparr>\<rparr>"
  have a: "alike i ss ?ss1" using as by (simp add: alike_def frame_def)
  note quiet = alike_served_same [OF a ok]
  show ?thesis
  proof (cases r)
    case (Inl e)
    then show ?thesis using r quiet close_error_served [OF a l ok] by (simp add: forward_message_tcp_def Let_def del: split_paired_Ex)
  next
    case (Inr bs)
    let ?sz = "p_size (slot ss i)" and ?b = "take (p_size (slot ss i)) bs"
    have "length bs < 2 ^ 30" using as Inr rd by (auto simp: reads_ok_def)
    then have "length ?b < 2 ^ 30" by simp
    from next_size_ok [OF this] obtain sz' where sz: "next_size ?sz (length ?b) = Some sz'" by blast
    obtain t where t: "stat_read i (length ?b) ?ss1 = set_slot i (\<lambda>s. s\<lparr>stat := t, p_size := ?sz\<rparr>) ?ss1"
      using stat_read_set [of i "length ?b" ?ss1] by auto
    let ?ss2 = "set_slot i (\<lambda>s. s\<lparr>p_size := sz'\<rparr>) (stat_read i (length ?b) ?ss1)"
    have "?ss2 = set_slot i (\<lambda>s. s\<lparr>stat := t, p_size := sz'\<rparr>) ?ss1" unfolding t by (simp add: set_slot_def)
    then have s: "served i {#} ss r ?ss2" for r by (rule stat_served [OF a ok])
    consider "length ?b = 0" | "length ?b \<noteq> 0" "s_type (slot ss i) = T_HALFCLOSE" | "length ?b \<noteq> 0" "s_type (slot ss i) \<noteq> T_HALFCLOSE" by blast
    then show ?thesis
    proof cases
      case 1
      then have "?sz = 0 \<or> bs = []" by (auto simp: min_def split: if_splits)
      then have "forward_message_tcp i ss = close_event i ?ss1" using r Inr by (elim disjE) (simp_all add: forward_message_tcp_def Let_def)
      then show ?thesis using close_event_served [OF a l ok] by simp
    next
      case 2
      then have "forward_message_tcp i ss = Some (None, ?ss1)" using r Inr by (simp add: forward_message_tcp_def Let_def)
      then show ?thesis using quiet by simp
    next
      case 3
      then have "\<exists>m. forward_message_tcp i ss = Some (m, ?ss2)" using r Inr sz by (simp add: forward_message_tcp_def Let_def)
      then show ?thesis using s by blast
    qed
  qed
qed

lemma forward_udp_served:
  assumes l: "live (slot ss i)" and ok: "slot_here i ss"
  shows "\<exists>r ss'. forward_message_udp i ss = Some (r, ss') \<and> served i {#} ss r ss'"
proof -
  obtain r as where r: "next_answer (Inl EAGAIN) (a_recvfrom (answers ss)) = (r, as)" by fastforce
  let ?ss1 = "ss\<lparr>answers := (answers ss)\<lparr>a_recvfrom := as\<rparr>\<rparr>"
  have a: "alike i ss ?ss1" by (simp add: alike_def)
  show ?thesis
  proof (cases r)
    case (Inl e)
    then show ?thesis using r alike_served_same [OF a ok] close_error_served [OF a l ok] by (simp add: forward_message_udp_def Let_def del: split_paired_Ex)
  next
    case (Inr x)
    obtain bs sa where x: "x = (bs, sa)" by (cases x)
    let ?ss2 = "stat_read i (length (take MAX_UDP_PACKAGE bs)) ?ss1"
    have "\<exists>m. forward_message_udp i ss = Some (m, ?ss2)" using r Inr x by (simp add: forward_message_udp_def Let_def)
    moreover obtain t where "?ss2 = set_slot i (\<lambda>s. s\<lparr>stat := t, p_size := p_size (slot ?ss1 i)\<rparr>) ?ss1" using stat_read_set by blast
    then have "served i {#} ss m ?ss2" for m by (rule stat_served [OF a ok])
    ultimately show ?thesis by blast
  qed
qed

lemma so_error_alike: "so_error ss = (r, ss') \<Longrightarrow> alike i ss ss'"
  by (auto simp: so_error_def alike_def split: prod.splits)

lemma report_connect_served:
  assumes l: "live (slot ss i)" and ok: "slot_here i ss" and t: "s_type (slot ss i) = T_CONNECTING"
  shows "\<exists>r ss'. report_connect i ss = Some (r, ss') \<and> served i {#} ss r ss'"
proof -
  obtain r ss1 where r: "so_error ss = (r, ss1)" by fastforce
  note a = so_error_alike [OF r, of i]
  show ?thesis
  proof (cases "r = Inr None")
    case False
    then obtain e where "report_connect i ss = close_error i e ss1" using r by (cases r) (auto simp: report_connect_def split: option.split)
    then show ?thesis using close_error_served [OF a l ok] by simp
  next
    case True
    let ?ss2 = "set_type i T_CONNECTED ss1"
    let ?ss3 = "if nomore_sending_data (slot ?ss2 i) then sp_write i False ?ss2 else ?ss2"
    obtain p as where p: "next_answer None (a_getpeername (answers ?ss3)) = (p, as)" by fastforce
    let ?ss4 = "?ss3\<lparr>answers := (answers ?ss3)\<lparr>a_getpeername := as\<rparr>\<rparr>"
    have eq: "\<exists>m. report_connect i ss = Some (m, ?ss4)" using r True p by (simp add: report_connect_def Let_def)
    let ?w = "if nomore_sending_data (slot ?ss2 i) then map_option (\<lambda>_. False) (epoll ss i) else epoll ss i"
    have s1: "slot ss1 = slot ss" "epoll ss1 = epoll ss" "freed ss1 = freed ss" "frame i ss ss1" "written n ss1 = written n ss" for n using a by (auto simp: alike_def)
    have s4: "slot ?ss4 i = (slot ss i)\<lparr>s_type := T_CONNECTED\<rparr>" "epoll ?ss4 i = ?w" "freed ?ss4 = freed ss" "frame i ss ?ss4" "written n ?ss4 = written n ss" for n
      using s1 by (simp_all add: set_type_def)
    have no: "nomore_sending_data (slot ?ss2 i) \<Longrightarrow> \<not> has_data (slot ss i)"
      using s1(1) by (simp add: nomore_sending_data_def send_buffer_empty_def has_data_def set_type_def)
    have sl: "slot_ok i ((slot ss i)\<lparr>s_type := T_CONNECTED\<rparr>) ?w (pipe_for (s_id (slot ss i)) ss)"
      using ok no t unfolding slot_here_def slot_ok_def by (auto simp: data_ok_def interest_ok_def has_data_def accepts_def)
    have h: "held ((slot ss i)\<lparr>s_type := T_CONNECTED\<rparr>) = held (slot ss i)" using t by (simp add: held_def owned_def live_def)
    have "epoll ss i \<noteq> None" using ok t unfolding slot_here_def slot_ok_def by (auto simp: interest_ok_def)
    then have "?w \<noteq> None" by (cases "nomore_sending_data (slot ?ss2 i)") simp_all
    then have "served i {#} ss m ?ss4" for m using s4 sl h by (simp only: served_def) simp
    with eq show ?thesis by blast
  qed
qed

text \<open>An event is over, or it is looked at again for what is left of it.\<close>

definition handled :: "nat \<Rightarrow> socket_server \<Rightarrow> pass \<times> socket_server \<Rightarrow> bool" where
  "handled i ss x \<longleftrightarrow> (\<exists>r ss'. served i {#} ss r ss' \<and>
     (snd x = ss' \<or> (\<exists>e. snd x = again e ss' \<and> e_s e = Some i \<and> (\<forall>t m. r = Some (t, m) \<longrightarrow> t \<noteq> SOCKET_CLOSE \<and> t \<noteq> SOCKET_ERR))))"

lemma handled_served: "served i {#} ss r ss' \<Longrightarrow> handled i ss (p, ss')"
  unfolding handled_def by auto

lemma handled_map:
  "\<exists>r ss'. x = Some (r, ss') \<and> served i {#} ss r ss' \<Longrightarrow> \<exists>y. map_option (apfst f) x = Some y \<and> handled i ss y"
  using handled_served by fastforce

lemma socket_event_handled:
  assumes l: "live (slot ss i)" and ok: "slot_here i ss" and rd: "reads_ok ss" and soi: "soi ss = None" and t: "s_type (slot ss i) \<noteq> T_CONNECTING"
    and e: "e_s e = Some i"
  shows "\<exists>x. socket_event e i ss = Some x \<and> handled i ss x"
proof -
  consider (reading) "e_read e" | (writing) "\<not> e_read e" "e_write e" | (failing) "\<not> e_read e" "\<not> e_write e" "e_error e"
    | (ending) "\<not> e_read e" "\<not> e_write e" "\<not> e_error e" "e_eof e" | (nothing) "\<not> e_read e" "\<not> e_write e" "\<not> e_error e" "\<not> e_eof e" by blast
  then show ?thesis
  proof cases
    case reading
    let ?f = "if protocol (slot ss i) = PROTOCOL_TCP then forward_message_tcp i ss else forward_message_udp i ss"
    obtain r ss' where r: "?f = Some (r, ss')" "served i {#} ss r ss'"
      using forward_tcp_served [OF l ok rd] forward_udp_served [OF l ok] by (cases "protocol (slot ss i) = PROTOCOL_TCP") auto
    show ?thesis
    proof (cases "\<exists>m. r = Some (SOCKET_UDP, m)")
      case True
      then obtain m where m: "r = Some (SOCKET_UDP, m)" by blast
      then have "socket_event e i ss = Some (Return r, again e ss')" using reading r(1) by (simp add: socket_event_def)
      moreover have "handled i ss (Return r, again e ss')" unfolding handled_def using r(2) e m by auto
      ultimately show ?thesis by blast
    next
      case False
      let ?c = "e_write e \<and> (\<forall>t m. r = Some (t, m) \<longrightarrow> t \<noteq> SOCKET_CLOSE \<and> t \<noteq> SOCKET_ERR)"
      let ?ss2 = "if ?c then again (e\<lparr>e_read := False\<rparr>) ss' else ss'"
      have "socket_event e i ss = Some (pass_of r, ?ss2)"
        using reading r(1) False by (auto simp: socket_event_def Let_def split: option.split prod.split event_kind.split)
      moreover have "handled i ss (pass_of r, ?ss2)"
      proof (cases ?c)
        case True
        have "snd (pass_of r, ?ss2) = again (e\<lparr>e_read := False\<rparr>) ss'" "e_s (e\<lparr>e_read := False\<rparr>) = Some i" using True e by simp_all
        then show ?thesis unfolding handled_def using r(2) True by blast
      next
        case False
        then show ?thesis using handled_served [OF r(2)] by (simp only: if_False)
      qed
      ultimately show ?thesis by blast
    qed
  next
    case writing
    have d: "data_ok (slot ss i)" using ok l by (simp add: slot_here_def slot_ok_live)
    obtain r ss' where r: "send_buffer i ss = Some (r, ss')" "buffer_sent i ss r ss'" using send_buffer_sent [OF l d soi] by blast
    have "served i {#} ss r ss'" by (rule buffer_served [OF r(2) l ok [unfolded slot_here_def] t])
    then show ?thesis using writing r(1) handled_served by (simp add: socket_event_def)
  next
    case failing
    obtain r ss1 where s: "so_error ss = (r, ss1)" by fastforce
    from close_served_event [OF so_error_alike [OF s] l ok] obtain m ss' where
      "force_close i ss1 = Some (m, ss')" "served i {#} ss (Some (SOCKET_ERR, m\<lparr>sm_data := d\<rparr>)) ss'" for d by blast
    then show ?thesis using failing s by (auto simp: socket_event_def intro: handled_served)
  next
    case ending
    then have "socket_event e i ss = map_option (apfst pass_of) (close_event i ss)" by (simp add: socket_event_def)
    then show ?thesis using handled_map [OF close_event_served [OF alike_refl l ok]] by simp
  next
    case nothing
    then show ?thesis using handled_served [OF alike_served_same [OF alike_refl ok]] by (simp add: socket_event_def)
  qed
qed

section \<open>The invariant after an event\<close>

definition pending :: "socket_server \<Rightarrow> nat set" where
  "pending ss = set (List.map_filter e_s (drop (event_index ss) (ev ss)))"

lemma served_pipe:
  assumes "served i x ss r ss'" "live (slot ss i)" "pipe_ok ss"
  shows "pipe_ok ss'"
proof -
  have f: "pipe ss' = pipe ss" "j \<noteq> i \<Longrightarrow> slot ss' j = slot ss j" for j using assms(1) by (auto simp: served_def frame_def)
  have "s_type (slot ss' (HASH_ID n)) = T_RESERVE \<and> s_id (slot ss' (HASH_ID n)) = n"
    if "s_type (slot ss (HASH_ID n)) = T_RESERVE" "s_id (slot ss (HASH_ID n)) = n" for n
  proof -
    have "HASH_ID n \<noteq> i" using that(1) assms(2) by (auto simp: live_def)
    then show ?thesis using f(2) that by simp
  qed
  with assms(3) f(1) show ?thesis unfolding pipe_ok_def by metis
qed

lemma served_ok:
  assumes ok: "server_ok ss" and s: "served i x ss r ss'" and l: "live (slot ss i)" and i: "i < MAX_SOCKET" "i \<notin> pending ss"
  shows "server_ok ss'" "balance ss' = balance ss + x"
proof -
  have a: "slots_ok ss" "pipe_ok ss" "soi ss = None" "events_ok ss" "reads_ok ss" using ok by (simp_all add: server_ok_def)
  have "slots_ok ss'" by (rule served_slots [OF _ s]) (use a(1) in \<open>simp add: slots_ok_def\<close>)
  moreover have f: "ev ss' = ev ss" "event_index ss' = event_index ss" "soi ss' = None" "j \<noteq> i \<Longrightarrow> epoll ss' j = epoll ss j" for j
    using s a(3) by (auto simp: served_def frame_def)
  moreover have "events_ok ss'" unfolding events_ok_def Let_def f(1,2)
  proof (intro conjI ballI)
    show "distinct (List.map_filter e_s (drop (event_index ss) (ev ss)))" using a(4) by (simp add: events_ok_def Let_def)
    fix j
    assume j: "j \<in> set (List.map_filter e_s (drop (event_index ss) (ev ss)))"
    then have "j \<noteq> i" using i(2) by (auto simp: pending_def)
    then show "epoll ss' j \<noteq> None" using j a(4) f(4) [of j] by (simp add: events_ok_def Let_def)
  qed
  ultimately show "server_ok ss'" using served_pipe [OF s l a(2)] served_reads [OF s a(5)] by (simp add: server_ok_def)
  show "balance ss' = balance ss + x" using served_hand [OF s i(1)] by (simp add: balance_def)
qed

lemma again_ok:
  assumes ok: "server_ok ss" and i: "epoll ss i \<noteq> None" "i \<notin> pending ss" "e_s e = Some i" and n: "0 < event_index ss" "event_index ss \<le> length (ev ss)"
  shows "server_ok (again e ss)" "balance (again e ss) = balance ss"
proof -
  let ?k = "event_index ss - 1"
  have "drop ?k ((ev ss)[?k := e]) = e # drop (event_index ss) (ev ss)"
    using n by (subst Cons_nth_drop_Suc [symmetric]) simp_all
  then have "events_ok (again e ss)" using ok i by (auto simp: server_ok_def events_ok_def again_def pending_def Let_def List.map_filter_simps)
  moreover have "slots_ok (again e ss) = slots_ok ss" "pipe_ok (again e ss) = pipe_ok ss" "reads_ok (again e ss) = reads_ok ss" "soi (again e ss) = soi ss"
    by (simp_all add: again_def slots_ok_def pipe_for_def pipe_ok_def reads_ok_def)
  ultimately show "server_ok (again e ss)" using ok by (simp add: server_ok_def)
  show "balance (again e ss) = balance ss" by (simp add: balance_def in_hand_def freed_def again_def)
qed

lemma handled_ok:
  assumes ok: "server_ok ss" and h: "handled i ss x" and i: "epoll ss i \<noteq> None" "i \<notin> pending ss"
    and n: "0 < event_index ss" "event_index ss \<le> length (ev ss)"
  shows "server_ok (snd x)" "balance (snd x) = balance ss"
proof -
  have sl: "slots_ok ss" using ok by (simp add: server_ok_def)
  note reg = slots_registered [OF sl i(1)]
  from h obtain r ss' where s: "served i {#} ss r ss'" and x: "snd x = ss' \<or> (\<exists>e. snd x = again e ss' \<and> e_s e = Some i \<and>
      (\<forall>t m. r = Some (t, m) \<longrightarrow> t \<noteq> SOCKET_CLOSE \<and> t \<noteq> SOCKET_ERR))"
    unfolding handled_def by blast
  note o = served_ok [OF ok s reg(1,2) i(2)]
  have f: "ev ss' = ev ss" "event_index ss' = event_index ss" using s by (auto simp: served_def frame_def)
  have "server_ok (snd x) \<and> balance (snd x) = balance ss"
    using x
  proof (elim disjE exE conjE)
    assume "snd x = ss'"
    then show ?thesis using o by simp
  next
    fix e
    assume e: "snd x = again e ss'" "e_s e = Some i" "\<forall>t m. r = Some (t, m) \<longrightarrow> t \<noteq> SOCKET_CLOSE \<and> t \<noteq> SOCKET_ERR"
    have "epoll ss' i \<noteq> None"
    proof
      assume "epoll ss' i = None"
      with s i(1) obtain t m where "r = Some (t, m)" "t = SOCKET_CLOSE \<or> t = SOCKET_ERR" unfolding served_def by blast
      with e(3) show False by blast
    qed
    moreover have "i \<notin> pending ss'" using i(2) f by (simp add: pending_def)
    ultimately show ?thesis unfolding e(1) using again_ok [OF o(1) _ _ e(2)] n f o(2) by simp
  qed
  then show "server_ok (snd x)" "balance (snd x) = balance ss" by blast+
qed

section \<open>One slot and new requests for it\<close>

definition changed :: "nat \<Rightarrow> request list \<Rightarrow> os_call multiset \<Rightarrow> socket_server \<Rightarrow> socket_server \<Rightarrow> bool" where
  "changed k extra y ss ss' \<longleftrightarrow> (\<forall>j. j \<noteq> k \<longrightarrow> slot ss' j = slot ss j \<and> epoll ss' j = epoll ss j) \<and> ev ss' = ev ss \<and> event_index ss' = event_index ss \<and>
     soi ss' = soi ss \<and> set (a_read (answers ss')) \<subseteq> set (a_read (answers ss)) \<and> pipe ss' = pipe ss @ extra \<and>
     freed ss' + held (slot ss' k) = freed ss + held (slot ss k) + y"

lemma changed_ok:
  assumes ok: "server_ok ss" and k: "k < MAX_SOCKET" and c: "changed k extra y ss ss'"
    and slot: "slot_ok k (slot ss' k) (epoll ss' k) (pipe_for (s_id (slot ss' k)) ss')" "epoll ss k \<noteq> None \<Longrightarrow> epoll ss' k \<noteq> None"
      "s_type (slot ss k) = T_RESERVE \<Longrightarrow> s_type (slot ss' k) = T_RESERVE \<and> s_id (slot ss' k) = s_id (slot ss k)"
    and reqs: "\<And>r n. r \<in> set extra \<Longrightarrow> req_id r = Some n \<Longrightarrow> HASH_ID n = k" "\<And>r pl. r \<in> set extra \<Longrightarrow> payload_of r = Some pl \<Longrightarrow> 0 \<le> pl_sz pl"
      "\<And>r. r \<in> set extra \<Longrightarrow> creates r \<Longrightarrow> s_type (slot ss' k) = T_RESERVE \<and> req_id r = Some (s_id (slot ss' k))"
  shows "server_ok ss'" "balance ss' = balance ss + y + (\<Sum>r\<leftarrow>extra. given r)"
proof -
  have a: "slots_ok ss" "pipe_ok ss" "soi ss = None" "events_ok ss" "reads_ok ss" using ok by (simp_all add: server_ok_def)
  have other: "slot ss' j = slot ss j" "epoll ss' j = epoll ss j" if "j \<noteq> k" for j using c that by (simp_all add: changed_def)
  have f: "ev ss' = ev ss" "event_index ss' = event_index ss" "soi ss' = soi ss" "set (a_read (answers ss')) \<subseteq> set (a_read (answers ss))"
    "pipe ss' = pipe ss @ extra" "freed ss' + held (slot ss' k) = freed ss + held (slot ss k) + y" using c by (simp_all add: changed_def)
  have "slot_ok j (slot ss' j) (epoll ss' j) (pipe_for (s_id (slot ss' j)) ss')" for j
  proof (cases "j = k")
    case False
    let ?n = "s_id (slot ss j)"
    have sj: "slot_ok j (slot ss j) (epoll ss j) (pipe_for ?n ss)" using a(1) by (simp add: slots_ok_def)
    show ?thesis
    proof (cases "HASH_ID ?n = j")
      case True
      have "filter (\<lambda>r. req_id r = Some ?n) extra = []" using reqs(1) True False by (auto simp: filter_empty_conv)
      then have "pipe_for ?n ss' = pipe_for ?n ss" using f(5) by (simp add: pipe_for_def)
      then show ?thesis using sj other [OF False] by simp
    next
      case neq: False
      show ?thesis using slot_ok_other [OF neq sj] other [OF False] by simp
    qed
  qed (use slot(1) in simp)
  then have "slots_ok ss'" by (simp add: slots_ok_def)
  moreover have "pipe_ok ss'"
  proof -
    have keep: "s_type (slot ss' (HASH_ID n)) = T_RESERVE \<and> s_id (slot ss' (HASH_ID n)) = n"
      if "s_type (slot ss (HASH_ID n)) = T_RESERVE" "s_id (slot ss (HASH_ID n)) = n" for n
      using that slot(3) other(1) [of "HASH_ID n"] by (cases "HASH_ID n = k") simp_all
    have "(\<forall>pl. payload_of r = Some pl \<longrightarrow> 0 \<le> pl_sz pl) \<and>
        (creates r \<longrightarrow> (\<exists>n. req_id r = Some n \<and> s_type (slot ss' (HASH_ID n)) = T_RESERVE \<and> s_id (slot ss' (HASH_ID n)) = n))" if "r \<in> set (pipe ss')" for r
    proof (cases "r \<in> set extra")
      case True
      show ?thesis
      proof (intro conjI impI)
        assume "creates r"
        note n = reqs(3) [OF True this]
        with reqs(1) [OF True, of "s_id (slot ss' k)"] have "HASH_ID (s_id (slot ss' k)) = k" by simp
        with n show "\<exists>n. req_id r = Some n \<and> s_type (slot ss' (HASH_ID n)) = T_RESERVE \<and> s_id (slot ss' (HASH_ID n)) = n"
          by (intro exI [of _ "s_id (slot ss' k)"]) simp
      qed (use reqs(2) [OF True] in blast)
    next
      case False
      then have "r \<in> set (pipe ss)" using that f(5) by simp
      with a(2) keep show ?thesis unfolding pipe_ok_def by metis
    qed
    then show ?thesis by (simp add: pipe_ok_def)
  qed
  moreover have "events_ok ss'"
  proof -
    have "epoll ss' j \<noteq> None" if "epoll ss j \<noteq> None" for j using that slot(2) other(2) [of j] by (cases "j = k") simp_all
    then show ?thesis using a(4) f(1,2) by (simp add: events_ok_def Let_def)
  qed
  moreover have "reads_ok ss'" using a(5) f(4) unfolding reads_ok_def by blast
  ultimately show "server_ok ss'" using a(3) f(3) by (simp add: server_ok_def)
  let ?R = "\<lambda>s. \<Sum>j\<in>{..<MAX_SOCKET} - {k}. held (slot s j)"
  have R: "?R ss' = ?R ss" using other(1) by (intro sum.cong) simp_all
  have s: "(\<Sum>i<MAX_SOCKET. held (slot s i)) = held (slot s k) + ?R s" for s :: socket_server
    using k by (intro sum.remove) simp_all
  have "balance ss' = (freed ss' + held (slot ss' k)) + (?R ss + ((\<Sum>r\<leftarrow>pipe ss. given r) + (\<Sum>r\<leftarrow>extra. given r)))"
    unfolding balance_def in_hand_def s R f(5) map_append sum_list_append by (simp only: ac_simps)
  also have "\<dots> = balance ss + y + (\<Sum>r\<leftarrow>extra. given r)" unfolding balance_def in_hand_def s f(6) by (simp only: ac_simps)
  finally show "balance ss' = balance ss + y + (\<Sum>r\<leftarrow>extra. given r)" .
qed

section \<open>New ids\<close>

lemma sint_id: "0 \<le> sint (if sint a < 0 then a AND 0x7fffffff else a)" for a :: u32
proof (cases "sint a < 0")
  case True
  have "a AND 0x7fffffff = take_bit 31 a" by (simp add: take_bit_eq_mask mask_eq_exp_minus_1)
  then have "uint (a AND 0x7fffffff) < 2 ^ 31" using take_bit_int_less_exp [of 31 "uint a"] by (simp add: unsigned_take_bit_eq)
  moreover have "- (2 ^ 31) \<le> uint (a AND 0x7fffffff)" by (rule order_trans [OF _ uint_ge_0]) simp
  ultimately have "sint (a AND 0x7fffffff) = uint (a AND 0x7fffffff)" using signed_take_bit_int_eq_self [of 31 "uint (a AND 0x7fffffff)"]
    by (simp add: sint_uint)
  then show ?thesis using True by simp
qed simp

lemma reserve_scan_facts:
  "reserve_scan n ss = (sid, ss') \<Longrightarrow> \<exists>a. (sid = -1 \<and> ss' = ss\<lparr>alloc_id := a\<rparr>) \<or> (0 \<le> sid \<and> s_type (slot ss (HASH_ID sid)) = T_INVALID \<and>
     ss' = set_slot (HASH_ID sid) (\<lambda>s. s\<lparr>s_type := T_RESERVE, s_id := sid, protocol := PROTOCOL_UNKNOWN, udpconnecting := 0, s_fd := -1\<rparr>) (ss\<lparr>alloc_id := a\<rparr>))"
proof (induction n arbitrary: ss)
  case 0
  then show ?case by (intro exI [of _ "alloc_id ss"]) simp
next
  case (Suc n)
  define a where "a = (if sint (alloc_id ss + 1) < 0 then (alloc_id ss + 1) AND 0x7fffffff else alloc_id ss + 1)"
  have eq: "reserve_scan (Suc n) ss = (if s_type (slot ss (HASH_ID (sint a))) = T_INVALID
     then (sint a, set_slot (HASH_ID (sint a)) (\<lambda>s. s\<lparr>s_type := T_RESERVE, s_id := sint a, protocol := PROTOCOL_UNKNOWN, udpconnecting := 0, s_fd := -1\<rparr>) (ss\<lparr>alloc_id := a\<rparr>))
     else reserve_scan n (ss\<lparr>alloc_id := a\<rparr>))"
    by (simp add: Let_def a_def)
  have nn: "0 \<le> sint a" unfolding a_def by (rule sint_id)
  show ?case
  proof (cases "s_type (slot ss (HASH_ID (sint a))) = T_INVALID")
    case True
    then show ?thesis using Suc.prems nn unfolding eq by (intro exI [of _ a]) auto
  next
    case False
    then have "reserve_scan n (ss\<lparr>alloc_id := a\<rparr>) = (sid, ss')" using Suc.prems unfolding eq by simp
    from Suc.IH [OF this] show ?thesis by simp
  qed
qed

text \<open>What \<^verbatim>\<open>reserve_id\<close> depends on.\<close>

lemma reserve_scan_id:
  "alloc_id ss1 = alloc_id ss2 \<Longrightarrow> (\<And>i. s_type (slot ss1 i) = s_type (slot ss2 i)) \<Longrightarrow> fst (reserve_scan n ss1) = fst (reserve_scan n ss2)"
proof (induction n arbitrary: ss1 ss2)
  case (Suc n)
  show ?case using Suc.prems by (auto simp: Let_def intro!: Suc.IH)
qed simp

lemma same_ok:
  assumes "server_ok ss" "slot ss' = slot ss" "epoll ss' = epoll ss" "pipe ss' = pipe ss" "ev ss' = ev ss" "event_index ss' = event_index ss" "soi ss' = soi ss"
    "set (a_read (answers ss')) \<subseteq> set (a_read (answers ss))" "freed ss' = freed ss"
  shows "server_ok ss'" "balance ss' = balance ss"
proof -
  have "pipe_for n ss' = pipe_for n ss" for n using assms(4) by (simp add: pipe_for_def)
  then have "slots_ok ss' = slots_ok ss" using assms(2,3) by (simp add: slots_ok_def)
  moreover have "pipe_ok ss' = pipe_ok ss" "events_ok ss' = events_ok ss" using assms(2-6) by (simp_all add: pipe_ok_def events_ok_def)
  moreover have "reads_ok ss \<Longrightarrow> reads_ok ss'" using assms(8) unfolding reads_ok_def by blast
  ultimately show "server_ok ss'" using assms(1,7) by (simp add: server_ok_def)
  show "balance ss' = balance ss" using assms(2,4,9) by (simp add: balance_def in_hand_def)
qed

text \<open>An id is not used again while a request with it is in the pipe.\<close>

definition fresh_id :: "socket_server \<Rightarrow> bool" where
  "fresh_id ss \<longleftrightarrow> (let sid = fst (reserve_id ss) in 0 \<le> sid \<longrightarrow> pipe_for sid ss = [])"

lemma fresh_same:
  assumes "alloc_id ss' = alloc_id ss" "slot ss' = slot ss" "pipe ss' = pipe ss"
  shows "fst (reserve_id ss') = fst (reserve_id ss)" "fresh_id ss' = fresh_id ss"
  unfolding fresh_id_def reserve_id_def pipe_for_def assms(3) using reserve_scan_id [of ss' ss MAX_SOCKET] assms(1,2) by simp_all

lemma stat_read_simps [simp]:
  "slot (stat_read i n ss) = (slot ss)(i := (slot ss i)\<lparr>stat := (stat (slot ss i))\<lparr>st_read := st_read (stat (slot ss i)) + of_nat n, rtime := ss_time ss\<rparr>\<rparr>)"
  "epoll (stat_read i n ss) = epoll ss" "pipe (stat_read i n ss) = pipe ss" "ev (stat_read i n ss) = ev ss" "event_index (stat_read i n ss) = event_index ss"
  "soi (stat_read i n ss) = soi ss" "answers (stat_read i n ss) = answers ss" "freed (stat_read i n ss) = freed ss"
  by (simp_all add: stat_read_def)

lemma stat_read_ok:
  assumes "server_ok ss" "i < MAX_SOCKET"
  shows "server_ok (stat_read i n ss)" "balance (stat_read i n ss) = balance ss"
proof -
  have c: "changed i [] {#} ss (stat_read i n ss)" by (simp add: changed_def)
  have "slot_ok i (slot ss i) (epoll ss i) (pipe_for (s_id (slot ss i)) ss)" using assms(1) by (simp add: server_ok_def slots_ok_def)
  then have "slot_ok i (slot (stat_read i n ss) i) (epoll (stat_read i n ss) i) (pipe_for (s_id (slot (stat_read i n ss) i)) (stat_read i n ss))"
    by (simp add: pipe_for_def)
  from changed_ok [OF assms c this] show "server_ok (stat_read i n ss)" "balance (stat_read i n ss) = balance ss" by simp_all
qed

lemma accept_ok:
  assumes ok: "server_ok ss" and i: "epoll ss i \<noteq> None" and fresh: "fresh_id ss"
  shows "\<exists>r ss'. report_accept i ss = Some (r, ss') \<and> server_ok ss' \<and> balance ss' = balance ss"
proof -
  obtain r as where r: "next_answer (Inl EAGAIN) (a_accept (answers ss)) = (r, as)" by fastforce
  let ?ss1 = "ss\<lparr>answers := (answers ss)\<lparr>a_accept := as\<rparr>\<rparr>"
  have ok1: "server_ok ?ss1" "balance ?ss1 = balance ss" by (rule same_ok [OF ok]; simp)+
  have "fresh_id ?ss1" using fresh_same(2) [of ?ss1 ss] fresh by simp
  show ?thesis
  proof (cases r)
    case (Inl e)
    then have "\<exists>m. report_accept i ss = Some (m, ?ss1)" using r by (simp add: report_accept_def Let_def)
    then show ?thesis using ok1 by blast
  next
    case (Inr x)
    obtain fd sa where x: "x = (fd, sa)" by (cases x)
    obtain sid ss2 where s: "reserve_id ?ss1 = (sid, ss2)" by fastforce
    let ?k = "HASH_ID sid"
    from s reserve_scan_facts obtain a where sf: "sid = -1 \<and> ss2 = ?ss1\<lparr>alloc_id := a\<rparr> \<or> 0 \<le> sid \<and> s_type (slot ?ss1 ?k) = T_INVALID \<and>
      ss2 = set_slot ?k (\<lambda>s. s\<lparr>s_type := T_RESERVE, s_id := sid, protocol := PROTOCOL_UNKNOWN, udpconnecting := 0, s_fd := -1\<rparr>) (?ss1\<lparr>alloc_id := a\<rparr>)"
      unfolding reserve_id_def by blast
    show ?thesis
    proof (cases "sid < 0")
      case True
      then have e: "ss2 = ?ss1\<lparr>alloc_id := a\<rparr>" using sf by auto
      let ?ss3 = "log_call (Close fd) ss2"
      have "server_ok ?ss3" "balance ?ss3 = balance ?ss1" unfolding e by (rule same_ok [OF ok1(1)]; simp add: freed_def)+
      moreover have "report_accept i ss = Some (None, ?ss3)" using r Inr x s True by (simp add: report_accept_def Let_def)
      ultimately show ?thesis using ok1(2) by simp
    next
      case False
      then have nn: "0 \<le> sid" and inv: "s_type (slot ss ?k) = T_INVALID" using sf by auto
      have e: "ss2 = set_slot ?k (\<lambda>s. s\<lparr>s_type := T_RESERVE, s_id := sid, protocol := PROTOCOL_UNKNOWN, udpconnecting := 0, s_fd := -1\<rparr>) (?ss1\<lparr>alloc_id := a\<rparr>)"
        using sf nn by auto
      have sl: "slots_ok ss" using ok by (simp add: server_ok_def)
      note reg = slots_registered [OF sl i]
      have ik: "i \<noteq> ?k" using inv reg(3) by auto
      have "slot_ok ?k (slot ss ?k) (epoll ss ?k) (pipe_for (s_id (slot ss ?k)) ss)" using sl by (simp add: slots_ok_def)
      then have empty: "s_high (slot ss ?k) = []" "s_low (slot ss ?k) = []" "epoll ss ?k = None" using inv by (simp_all add: slot_ok_def)
      have pipe: "pipe_for sid ss = []" using fresh nn fresh_same(1) [of ?ss1 ss] s unfolding fresh_id_def Let_def by simp
      obtain ss3 where n: "new_fd sid fd PROTOCOL_TCP (s_opaque (slot ss2 i)) False ss2 = Some (True, ss3)"
        and s3: "fresh_socket sid (slot ss3 ?k)" "protocol (slot ss3 ?k) = PROTOCOL_TCP" "\<forall>j. j \<noteq> ?k \<longrightarrow> slot ss3 j = slot ss j" "epoll ss3 = epoll ss"
          "ev ss3 = ev ss" "event_index ss3 = event_index ss" "ss_time ss3 = ss_time ss" "soi ss3 = soi ss" "pipe ss3 = pipe ss" "answers ss3 = answers ?ss1" "freed ss3 = freed ss"
        using empty by (simp add: new_fd_def Let_def e fresh_socket_def freed_def set_slot_def)
      let ?ss0 = "stat_read i 1 ss"
      let ?ss4 = "set_type ?k T_PACCEPT (stat_read i 1 ss3)"
      have ok0: "server_ok ?ss0" "balance ?ss0 = balance ss" using stat_read_ok [OF ok reg(2)] by simp_all
      have h: "held (slot ss ?k) = {#}" using inv by (simp add: held_def live_def)
      have s4: "slot ?ss4 ?k = (slot ss3 ?k)\<lparr>s_type := T_PACCEPT\<rparr>" "epoll ?ss4 = epoll ss" "pipe ?ss4 = pipe ss" using s3 ik by (simp_all add: set_type_def)
      have fr: "fresh_socket sid (slot ?ss4 ?k)" using s3(1) s4(1) by simp
      have "held (slot ?ss4 ?k) = {#}" using fr by (simp add: fresh_socket_def held_def owned_def)
      moreover have "slot ?ss4 j = slot ?ss0 j" if "j \<noteq> ?k" for j using s3(3,7) ik that by (simp add: set_type_def)
      ultimately have c: "changed ?k [] {#} ?ss0 ?ss4" using s3 s4 h ik by (simp add: changed_def set_type_def)
      have id: "s_id (slot ?ss4 ?k) = sid" using fr by (simp add: fresh_socket_def)
      have "pipe_for sid ?ss4 = []" using pipe s4(3) by (simp add: pipe_for_def)
      then have "slot_ok ?k (slot ?ss4 ?k) (epoll ?ss4 ?k) (pipe_for (s_id (slot ?ss4 ?k)) ?ss4)"
        unfolding id using fr s4 empty(3) sending_new [of sid] by (auto simp: slot_ok_def fresh_socket_def data_ok_def interest_ok_def has_data_def sends_def)
      from changed_ok [OF ok0(1) _ c this] have "server_ok ?ss4" "balance ?ss4 = balance ?ss0" using ik inv s3(4) by (simp_all add: empty(3))
      moreover have "\<exists>m. report_accept i ss = Some (m, ?ss4)" using r Inr x s False n by (simp add: report_accept_def Let_def)
      ultimately show ?thesis using ok0(2) by auto
    qed
  qed
qed

end
