(* ===== verification/SocketLoop.thy ===== *)
theory SocketLoop
  imports SocketRun
begin

text \<open>
  One pass of the loop of \<^verbatim>\<open>socket_server_poll\<close> keeps the invariant.
\<close>

section \<open>One pass of the loop\<close>

lemma dispatch_ok:
  assumes ok: "server_ok ss" and e: "\<And>i. e_s e = Some i \<Longrightarrow> epoll ss i \<noteq> None \<and> i \<notin> pending ss"
    and n: "0 < event_index ss" "event_index ss \<le> length (ev ss)" and fresh: "fresh_id ss"
  shows "\<exists>p ss'. dispatch_event e ss = Some (p, ss') \<and> server_ok ss' \<and> balance ss' = balance ss"
proof (cases "e_s e")
  case None
  with ok show ?thesis by (simp add: dispatch_event_def)
next
  case (Some i)
  with e have i: "epoll ss i \<noteq> None" "i \<notin> pending ss" by blast+
  have sl: "slots_ok ss" "reads_ok ss" "soi ss = None" using ok by (simp_all add: server_ok_def)
  note reg = slots_registered [OF sl(1) i(1)]
  have here: "slot_here i ss" using sl(1) by (simp add: slots_ok_def slot_here_def)
  let ?t = "s_type (slot ss i)"
  have nr: "?t \<noteq> T_INVALID" "?t \<noteq> T_RESERVE" using reg(1) by (simp_all add: live_def)
  have fin: "\<exists>p ss'. x = Some (p, ss') \<and> server_ok ss' \<and> balance ss' = balance ss" if "\<exists>y. x = Some y \<and> handled i ss y" for x
    using that handled_ok [OF ok _ i n] by (metis prod.collapse)
  consider "?t = T_CONNECTING" | "?t = T_LISTEN" | "?t \<noteq> T_CONNECTING" "?t \<noteq> T_LISTEN" by blast
  then show ?thesis
  proof cases
    case 1
    from handled_map [OF report_connect_served [OF reg(1) here 1]]
    have "\<exists>y. map_option (apfst pass_of) (report_connect i ss) = Some y \<and> handled i ss y" .
    from fin [OF this] show ?thesis using Some 1 by (simp add: dispatch_event_def)
  next
    case 2
    from accept_ok [OF ok i(1) fresh] show ?thesis using Some 2 by (auto simp: dispatch_event_def)
  next
    case 3
    have "dispatch_event e ss = socket_event e i ss" using Some 3 nr by (cases ?t) (simp_all add: dispatch_event_def)
    then show ?thesis using fin [OF socket_event_handled [OF reg(1) here sl(2,3) 3(1) Some]] by simp
  qed
qed

text \<open>The next event is taken off the list.\<close>

lemma next_event:
  assumes ok: "server_ok ss" and n: "event_index ss < length (ev ss)" and fresh: "fresh_id ss"
  shows "\<exists>p ss'. dispatch_event (ev ss ! event_index ss) (ss\<lparr>event_index := event_index ss + 1\<rparr>) = Some (p, ss') \<and> server_ok ss' \<and> balance ss' = balance ss"
proof -
  let ?e = "ev ss ! event_index ss" and ?ss1 = "ss\<lparr>event_index := event_index ss + 1\<rparr>"
  have d: "drop (event_index ss) (ev ss) = ?e # drop (event_index ss + 1) (ev ss)" using n by (simp add: Cons_nth_drop_Suc)
  have ev: "events_ok ss" using ok by (simp add: server_ok_def)
  then have "events_ok ?ss1" unfolding events_ok_def Let_def d by (auto simp: List.map_filter_simps split: option.splits)
  then have ok1: "server_ok ?ss1" using ok by (simp add: server_ok_def slots_ok_def pipe_for_def pipe_ok_def reads_ok_def)
  have b: "balance ?ss1 = balance ss" by (simp add: balance_def in_hand_def freed_def)
  have "epoll ?ss1 i \<noteq> None \<and> i \<notin> pending ?ss1" if "e_s ?e = Some i" for i
    using ev that unfolding events_ok_def Let_def d by (auto simp: pending_def List.map_filter_simps)
  from dispatch_ok [OF ok1 this] n fresh fresh_same(2) [of ?ss1 ss] show ?thesis unfolding b by simp
qed

lemma once_each_slots:
  "set (once_each es) \<subseteq> set es \<and> distinct (map e_s (once_each es))"
proof (induction es rule: once_each.induct)
  case (2 e es)
  then show ?case by (auto 0 3)
qed simp

lemma distinct_filter_Some: "distinct (map f xs) \<Longrightarrow> distinct (List.map_filter f xs)"
  by (induction xs) (auto simp: List.map_filter_simps List.map_filter_def rev_image_eqI split: option.splits)

lemma waited_ok:
  assumes ok: "server_ok ss" and w: "sp_wait ss = (r, ss1)"
  shows "ss1 = ss\<lparr>answers := answers ss1\<rparr>" "a_read (answers ss1) = a_read (answers ss)"
    "r = Inr es \<Longrightarrow> server_ok (ss1\<lparr>ev := es, event_index := 0, checkctrl := True\<rparr>)"
    "server_ok (ss1\<lparr>ev := [], event_index := 0, checkctrl := True\<rparr>)" "balance (ss1\<lparr>ev := es', event_index := n, checkctrl := b\<rparr>) = balance ss"
proof -
  obtain a as where a: "next_answer (Inl EINTR) (a_wait (answers ss)) = (a, as)" by fastforce
  let ?f = "\<lambda>es. map (\<lambda>e. e\<lparr>e_eof := False\<rparr>) (take MAX_EVENT (once_each (filter (reportable ss) es)))"
  have r: "r = map_sum (\<lambda>e. e) ?f a" and s: "ss1 = ss\<lparr>answers := (answers ss)\<lparr>a_wait := as\<rparr>\<rparr>"
    using w by (simp_all add: sp_wait_def a)
  show eq: "ss1 = ss\<lparr>answers := answers ss1\<rparr>" "a_read (answers ss1) = a_read (answers ss)" by (simp_all add: s)
  have base: "slots_ok (ss1\<lparr>ev := es', event_index := n, checkctrl := b\<rparr>)" "pipe_ok (ss1\<lparr>ev := es', event_index := n, checkctrl := b\<rparr>)"
    "reads_ok (ss1\<lparr>ev := es', event_index := n, checkctrl := b\<rparr>)" "soi ss1 = None" for es' n b
    using ok by (simp_all add: s server_ok_def slots_ok_def pipe_for_def pipe_ok_def reads_ok_def)
  show "balance (ss1\<lparr>ev := es', event_index := n, checkctrl := b\<rparr>) = balance ss" by (simp add: s balance_def in_hand_def freed_def)
  show "server_ok (ss1\<lparr>ev := [], event_index := 0, checkctrl := True\<rparr>)" using base by (simp add: server_ok_def events_ok_def List.map_filter_simps)
  assume "r = Inr es"
  then obtain es0 where es: "es = ?f es0" using r by (cases a) auto
  have m: "map e_s es = map e_s (take MAX_EVENT (once_each (filter (reportable ss) es0)))" by (simp add: es comp_def)
  have "distinct (map e_s es)" unfolding m take_map [symmetric] using once_each_slots by (intro distinct_take) blast
  then have d: "distinct (List.map_filter e_s es)" by (rule distinct_filter_Some)
  have "epoll ss i \<noteq> None" if "i \<in> set (List.map_filter e_s es)" for i
  proof -
    from that obtain e where "e \<in> set es" "e_s e = Some i" by (auto simp: List.map_filter_def)
    then have "Some i \<in> set (map e_s es)" by (metis image_eqI list.set_map)
    then have "Some i \<in> set (map e_s (once_each (filter (reportable ss) es0)))" unfolding m by (auto dest: in_set_takeD)
    then have "Some i \<in> e_s ` set (filter (reportable ss) es0)" using once_each_slots [of "filter (reportable ss) es0"] by (metis image_mono list.set_map subsetD)
    then show ?thesis by (auto simp: reportable_def split: option.splits)
  qed
  with d base show "server_ok (ss1\<lparr>ev := es, event_index := 0, checkctrl := True\<rparr>)" by (simp add: server_ok_def events_ok_def s)
qed

lemma check_ok:
  assumes "server_ok ss" shows "server_ok (ss\<lparr>checkctrl := b\<rparr>)" "balance (ss\<lparr>checkctrl := b\<rparr>) = balance ss"
  using assms by (simp_all add: server_ok_def slots_ok_def pipe_for_def pipe_ok_def reads_ok_def events_ok_def balance_def in_hand_def freed_def)

lemma poll_pass_ok:
  assumes ok: "server_ok ss" and fresh: "fresh_id ss"
  shows "\<exists>p mr' ss'. poll_pass mr ss = Some (p, mr', ss') \<and> server_ok ss' \<and> balance ss' = balance ss"
proof (cases "checkctrl ss \<and> pipe ss \<noteq> []")
  case True
  then obtain req reqs where "pipe ss = req # reqs" by (cases "pipe ss") auto
  from command_ok [OF ok this] True show ?thesis by (auto simp: poll_pass_def)
next
  case False
  let ?ss = "ss\<lparr>checkctrl := False\<rparr>"
  have pass: "poll_pass mr ss = poll_events mr ?ss" using False by (auto simp: poll_pass_def)
  note c = check_ok [OF ok, of False]
  have fr: "fresh_id ?ss" using fresh fresh_same(2) [of ?ss ss] by simp
  show ?thesis
  proof (cases "event_index ss < length (ev ss)")
    case True
    then have n: "event_index ?ss < length (ev ?ss)" by simp
    from next_event [OF c(1) n fr] True c(2) show ?thesis unfolding pass by (auto simp: poll_events_def)
  next
    case False
    obtain r ss1 where w: "sp_wait ?ss = (r, ss1)" by fastforce
    note wo = waited_ok [OF c(1) w]
    show ?thesis
    proof (cases r)
      case (Inl e)
      then show ?thesis using False w wo(4,5) c(2) unfolding pass by (auto simp: poll_events_def)
    next
      case (Inr es)
      let ?ss2 = "ss1\<lparr>ev := es, event_index := 0, checkctrl := True\<rparr>"
      have o: "server_ok ?ss2" by (rule wo(3) [OF Inr])
      show ?thesis
      proof (cases es)
        case Nil
        then show ?thesis using False w Inr o wo(5) [where es' = "[]" and n = 0 and b = True] c(2) unfolding pass
          by (intro exI [of _ "Return None"] exI [of _ False] exI [of _ "ss1\<lparr>ev := [], event_index := 0, checkctrl := True\<rparr>"]) (simp add: poll_events_def)
      next
        case (Cons e es')
        have s: "alloc_id ss1 = alloc_id ?ss" "slot ss1 = slot ?ss" "pipe ss1 = pipe ?ss" by (subst wo(1), simp)+
        have "fresh_id ?ss2" using fr fresh_same(2) [of ?ss2 ?ss] s by simp
        with next_event [OF o] Cons obtain p ss' where "dispatch_event (es ! 0) (?ss2\<lparr>event_index := 1\<rparr>) = Some (p, ss')" "server_ok ss'" "balance ss' = balance ?ss2"
          by auto
        then show ?thesis using False w Inr Cons wo(5) [where es' = es and n = 0 and b = True] c(2) unfolding pass
          by (intro exI [of _ p] exI [of _ False] exI [of _ ss']) (simp add: poll_events_def Let_def)
      qed
    qed
  qed
qed

end
