(* ===== verification/SocketCalls.thy ===== *)
theory SocketCalls
  imports SocketLoop
begin

text \<open>
  The functions of \<^verbatim>\<open>socket_server.c\<close> for the other threads keep the invariant, with what they ask of their callers.
\<close>

section \<open>Requests of the other threads\<close>

lemma ok_slot: "server_ok ss \<Longrightarrow> slot_ok i (slot ss i) (epoll ss i) (pipe_for (s_id (slot ss i)) ss)"
  by (simp add: server_ok_def slots_ok_def)

lemma sends_append [simp]: "sends [] = 0" "sends (q @ q') = sends q + sends q'"
  by (simp_all add: sends_def)

lemma pipe_for_append: "pipe ss' = pipe ss @ [r] \<Longrightarrow> pipe_for n ss' = pipe_for n ss @ (if req_id r = Some n then [r] else [])"
  by (simp add: pipe_for_def)

lemma slot_ok_snoc:
  assumes "slot_ok i s w q" "\<not> creates r" "\<not> counted r" "payload_of r \<noteq> None \<longrightarrow> s_type s \<noteq> T_BIND \<and> (\<forall>c\<in>set q. \<not> binds c)"
  shows "slot_ok i s w (q @ [r])"
proof -
  have "reserved q \<Longrightarrow> reserved (q @ [r])" using assms(2-4) by (cases q) (auto simp: reserved_def)
  moreover have "interest_ok s w q \<Longrightarrow> interest_ok s w (q @ [r])" using assms(4) by (auto simp: interest_ok_def)
  ultimately show ?thesis using assms(1,3) by (auto simp: slot_ok_def)
qed

lemma changed_one:
  assumes "server_ok ss" "k < MAX_SOCKET" "changed k [q] y ss ss'" "slot_ok k (slot ss' k) (epoll ss' k) (pipe_for (s_id (slot ss' k)) ss')"
    and "epoll ss k \<noteq> None \<Longrightarrow> epoll ss' k \<noteq> None"
    and "s_type (slot ss k) = T_RESERVE \<Longrightarrow> s_type (slot ss' k) = T_RESERVE \<and> s_id (slot ss' k) = s_id (slot ss k)"
    and "req_id q = Some n" "HASH_ID n = k" "\<And>pl. payload_of q = Some pl \<Longrightarrow> 0 \<le> pl_sz pl"
    and "creates q \<Longrightarrow> s_type (slot ss' k) = T_RESERVE \<and> s_id (slot ss' k) = n"
  shows "server_ok ss' \<and> balance ss' = balance ss + y + given q"
proof -
  have r: "HASH_ID m = k" if "r \<in> set [q]" "req_id r = Some m" for r m using that assms(7,8) by simp
  have pl: "0 \<le> pl_sz pl" if "r \<in> set [q]" "payload_of r = Some pl" for r pl using that assms(9) by simp
  have cr: "s_type (slot ss' k) = T_RESERVE \<and> req_id r = Some (s_id (slot ss' k))" if "r \<in> set [q]" "creates r" for r
    using that assms(7,10) by simp
  from changed_ok [OF assms(1-6) r pl cr] show ?thesis by simp
qed

text \<open>A request without data, with a change of the slot that the invariant does not see.\<close>

lemma request_ok:
  assumes ok: "server_ok ss" and r: "req_id r = Some sid" "\<not> creates r" "\<not> counted r" "\<And>pl. payload_of r = Some pl \<Longrightarrow> 0 \<le> pl_sz pl"
    "payload_of r \<noteq> None \<longrightarrow> s_id (slot ss (HASH_ID sid)) = sid \<longrightarrow> s_type (slot ss (HASH_ID sid)) \<noteq> T_BIND \<and> (\<forall>c\<in>set (pipe_for sid ss). \<not> binds c)"
  shows "server_ok (send_request r ss)" "balance (send_request r ss) = balance ss + given r"
proof -
  let ?k = "HASH_ID sid" and ?n = "s_id (slot ss (HASH_ID sid))"
  have c: "changed ?k [r] {#} ss (send_request r ss)" by (simp add: changed_def send_request_def freed_def)
  have so: "slot_ok ?k (slot ss ?k) (epoll ss ?k) (pipe_for ?n ss)" using ok by (simp add: server_ok_def slots_ok_def)
  have p: "pipe_for ?n (send_request r ss) = pipe_for ?n ss @ (if req_id r = Some ?n then [r] else [])"
    by (rule pipe_for_append) (simp add: send_request_def)
  have "slot_ok ?k (slot ss ?k) (epoll ss ?k) (pipe_for ?n (send_request r ss))"
  proof (cases "?n = sid")
    case True
    then have "payload_of r \<noteq> None \<longrightarrow> s_type (slot ss ?k) \<noteq> T_BIND \<and> (\<forall>c\<in>set (pipe_for ?n ss). \<not> binds c)" using r(5) by simp
    from slot_ok_snoc [OF so r(2,3) this] True show ?thesis unfolding p by (simp add: r(1))
  next
    case False
    then show ?thesis using so unfolding p by (simp add: r(1))
  qed
  then have s: "slot_ok ?k (slot (send_request r ss) ?k) (epoll (send_request r ss) ?k) (pipe_for (s_id (slot (send_request r ss) ?k)) (send_request r ss))"
    by (simp add: send_request_def)
  have k: "slot (send_request r ss) ?k = slot ss ?k" "epoll (send_request r ss) ?k = epoll ss ?k" by (simp_all add: send_request_def)
  have "server_ok (send_request r ss) \<and> balance (send_request r ss) = balance ss + {#} + given r"
    by (rule changed_one [OF ok HASH_ID_less c s _ _ r(1) refl r(4)]) (simp_all add: k r(2))
  then show "server_ok (send_request r ss)" "balance (send_request r ss) = balance ss + given r" by simp_all
qed

lemma exit_ok:
  assumes ok: "server_ok ss"
  shows "server_ok (send_request Req_exit ss)" "balance (send_request Req_exit ss) = balance ss"
proof -
  have "pipe_for n (send_request Req_exit ss) = pipe_for n ss" for n by (simp add: pipe_for_def send_request_def)
  then show "server_ok (send_request Req_exit ss)"
    using ok by (auto simp: server_ok_def slots_ok_def pipe_ok_def reads_ok_def events_ok_def send_request_def Let_def)
  show "balance (send_request Req_exit ss) = balance ss" by (simp add: balance_def in_hand_def freed_def send_request_def given_def)
qed

text \<open>A new id, with the request that creates its socket.\<close>

lemma new_id_ok:
  assumes ok: "server_ok ss" and fresh: "fresh_id ss" and s: "reserve_id ss = (sid, ss1)"
  shows "sid < 0 \<Longrightarrow> server_ok ss1 \<and> balance ss1 = balance ss"
    and "0 \<le> sid \<Longrightarrow> creates r \<Longrightarrow> req_id r = Some sid \<Longrightarrow> server_ok (send_request r ss1) \<and> balance (send_request r ss1) = balance ss"
proof -
  let ?k = "HASH_ID sid"
  let ?new = "\<lambda>s. s\<lparr>s_type := T_RESERVE, s_id := sid, protocol := PROTOCOL_UNKNOWN, udpconnecting := 0, s_fd := -1\<rparr>"
  from s reserve_scan_facts obtain a where sf: "sid = -1 \<and> ss1 = ss\<lparr>alloc_id := a\<rparr> \<or>
      0 \<le> sid \<and> s_type (slot ss ?k) = T_INVALID \<and> ss1 = set_slot ?k ?new (ss\<lparr>alloc_id := a\<rparr>)"
    unfolding reserve_id_def by blast
  {
    assume "sid < 0"
    then have "ss1 = ss\<lparr>alloc_id := a\<rparr>" using sf by auto
    with same_ok [OF ok, of ss1] show "server_ok ss1 \<and> balance ss1 = balance ss" by (simp add: freed_def)
  }
  assume nn: "0 \<le> sid" and r: "creates r" "req_id r = Some sid"
  with sf have inv: "s_type (slot ss ?k) = T_INVALID" and e: "ss1 = set_slot ?k ?new (ss\<lparr>alloc_id := a\<rparr>)" by auto
  have q: "pipe_for sid ss = []" using fresh nn s by (simp add: fresh_id_def Let_def)
  have nc: "\<not> counted r" "payload_of r = None" using r(1) by (cases r; simp)+
  let ?ss' = "send_request r ss1"
  have "slot_ok ?k (slot ss ?k) (epoll ss ?k) (pipe_for (s_id (slot ss ?k)) ss)" using ok by (simp add: server_ok_def slots_ok_def)
  then have em: "s_high (slot ss ?k) = []" "s_low (slot ss ?k) = []" "epoll ss ?k = None" using inv by (simp_all add: slot_ok_def)
  have s': "slot ?ss' ?k = ?new (slot ss ?k)" "epoll ?ss' = epoll ss" "pipe ?ss' = pipe ss @ [r]" "\<And>j. j \<noteq> ?k \<Longrightarrow> slot ?ss' j = slot ss j"
    by (simp_all add: e send_request_def)
  have h: "held (slot ss ?k) = {#}" "held (?new (slot ss ?k)) = {#}" using inv by (simp_all add: held_def live_def)
  have c: "changed ?k [r] {#} ss ?ss'"
    unfolding changed_def s'(1) h using s' by (simp add: e send_request_def freed_def)
  have "pipe_for sid ?ss' = [r]" using q r(2) by (simp add: pipe_for_def s'(3))
  then have so: "slot_ok ?k (slot ?ss' ?k) (epoll ?ss' ?k) (pipe_for (s_id (slot ?ss' ?k)) ?ss')"
    unfolding s'(1,2) using em r(1) by (simp add: slot_ok_def reserved_def)
  have k: "s_type (slot ?ss' ?k) = T_RESERVE" "s_id (slot ?ss' ?k) = sid" by (simp_all add: s'(1))
  have "server_ok ?ss' \<and> balance ?ss' = balance ss + {#} + given r"
    by (rule changed_one [OF ok HASH_ID_less c so _ _ r(2) refl]) (simp_all add: k em(3) inv nc)
  then show "server_ok ?ss' \<and> balance ?ss' = balance ss" using nc by (simp add: given_def)
qed

section \<open>Sending from another thread\<close>

definition may_send :: "int \<Rightarrow> socket_server \<Rightarrow> bool" where
  "may_send sid ss \<longleftrightarrow> invalid_slot sid ss \<or> (let s = slot ss (HASH_ID sid) in
     s_type s \<noteq> T_RESERVE \<and> s_type s \<noteq> T_BIND \<and> (protocol s = PROTOCOL_TCP \<longrightarrow> low_half (sending s) < 65535))"

lemma interest_snoc: "interest_ok s w q \<Longrightarrow> s_type s \<noteq> T_BIND \<Longrightarrow> interest_ok s w (q @ [r])"
  by (simp add: interest_ok_def)

lemma counted_request_ok:
  assumes ok: "server_ok ss" and v: "\<not> invalid_slot sid ss" and m: "may_send sid ss"
    and r: "req_id r = Some sid" "counted r" "\<And>pl. payload_of r = Some pl \<Longrightarrow> 0 \<le> pl_sz pl"
  shows "\<exists>ss1. inc_sending_ref sid ss = Some ss1 \<and> server_ok (send_request r ss1) \<and> balance (send_request r ss1) = balance ss + given r"
proof -
  let ?k = "HASH_ID sid"
  let ?s = "slot ss ?k" and ?q = "pipe_for sid ss"
  have nc: "\<not> creates r" using r(2) by (cases r) simp_all
  have s: "s_id ?s = sid" "live ?s" "s_type ?s \<noteq> T_BIND" "protocol ?s = PROTOCOL_TCP \<longrightarrow> low_half (sending ?s) \<noteq> 65535"
    using v m by (auto simp: invalid_slot_def may_send_def live_def Let_def)
  have "slot_ok ?k ?s (epoll ss ?k) ?q" using ok_slot [OF ok, of ?k] unfolding s(1) .
  then have so: "data_ok ?s" "interest_ok ?s (epoll ss ?k) ?q"
    "protocol ?s = PROTOCOL_TCP \<longrightarrow> sends ?q = low_half (sending ?s) \<and> drop_bit 16 (sending ?s) = ID_TAG16 sid"
    using s(1) unfolding slot_ok_live [OF s(2)] by simp_all
  note interest = interest_snoc [OF so(2) s(3), of r]
  define n where "n = (if protocol ?s = PROTOCOL_TCP then sending ?s + 1 else sending ?s)"
  define ss1 where "ss1 = set_slot ?k (\<lambda>s. s\<lparr>sending := n\<rparr>) ss"
  have "inc_sending_ref sid ss = Some ss1"
  proof (cases "protocol ?s = PROTOCOL_TCP")
    case True
    have "sending ?s AND 0xffff \<noteq> 0xffff" unfolding low_half_max using s(4) True by simp
    with True so(3) show ?thesis by (simp add: inc_sending_ref_def ss1_def n_def Let_def set_slot_def)
  next
    case False
    have "(slot ss)(?k := ?s\<lparr>sending := sending ?s\<rparr>) = slot ss" by (rule fun_upd_idem) simp
    with False show ?thesis by (simp add: inc_sending_ref_def ss1_def n_def Let_def set_slot_def)
  qed
  moreover have "server_ok (send_request r ss1) \<and> balance (send_request r ss1) = balance ss + {#} + given r"
  proof (rule changed_one [OF ok HASH_ID_less _ _ _ _ r(1) refl r(3)])
    let ?ss' = "send_request r ss1"
    have k: "slot ?ss' ?k = ?s\<lparr>sending := n\<rparr>" "epoll ?ss' = epoll ss" "pipe ?ss' = pipe ss @ [r]" by (simp_all add: ss1_def send_request_def)
    show "changed ?k [r] {#} ss ?ss'" by (simp add: changed_def k) (simp add: ss1_def send_request_def freed_def)
    have p: "pipe_for sid ?ss' = ?q @ [r]" using pipe_for_append [OF k(3), of sid] r(1) by simp
    have l: "live (?s\<lparr>sending := n\<rparr>)" using s(2) by simp
    have "protocol ?s = PROTOCOL_TCP \<longrightarrow> sends (?q @ [r]) = low_half n \<and> drop_bit 16 n = ID_TAG16 sid"
      using so(3) s(4) sending_inc [of "sending ?s"] r(2) by (simp add: n_def)
    then show "slot_ok ?k (slot ?ss' ?k) (epoll ?ss' ?k) (pipe_for (s_id (slot ?ss' ?k)) ?ss')"
      using so(1) interest s(1) p unfolding k slot_ok_live [OF l] by simp
  qed (simp_all add: ss1_def send_request_def nc)
  ultimately show ?thesis by simp
qed

lemma free_buffer_ok:
  assumes ok: "server_ok ss" and pl: "0 \<le> pl_sz pl"
  shows "\<exists>ss'. free_buffer pl ss = Some ss' \<and> server_ok ss' \<and> balance ss' = balance ss + {#Free (pl_buffer pl)#}"
proof -
  let ?ss' = "free_func (pl_buffer pl) False ss"
  have "changed 0 [] {#Free (pl_buffer pl)#} ss ?ss'" by (simp add: changed_def free_func_def)
  moreover have "slot_ok 0 (slot ?ss' 0) (epoll ?ss' 0) (pipe_for (s_id (slot ?ss' 0)) ?ss')"
    using ok by (simp add: server_ok_def slots_ok_def pipe_for_def)
  moreover have "0 < MAX_SOCKET" by (simp add: MAX_SOCKET_def)
  ultimately have "server_ok ?ss'" "balance ?ss' = balance ss + {#Free (pl_buffer pl)#} + (\<Sum>r\<leftarrow>[]. given r)"
    using changed_ok [OF ok, of 0 "[]" "{#Free (pl_buffer pl)#}" ?ss'] by simp_all
  then show ?thesis using pl by (simp add: free_buffer_def send_object_init_def)
qed

lemma trylock_ok:
  assumes "server_ok ss" "socket_trylock ss = (b, ss1)"
  shows "server_ok ss1" "balance ss1 = balance ss" "slot ss1 = slot ss" "pipe ss1 = pipe ss" "soi ss1 = None" "epoll ss1 = epoll ss"
proof -
  have e: "\<exists>as. ss1 = ss\<lparr>answers := (answers ss)\<lparr>a_trylock := as\<rparr>\<rparr>" using assms(2) by (auto simp: socket_trylock_def split: prod.splits)
  then show "slot ss1 = slot ss" "pipe ss1 = pipe ss" "soi ss1 = None" "epoll ss1 = epoll ss" using assms(1) by (auto simp: server_ok_def)
  show "server_ok ss1" "balance ss1 = balance ss" using e same_ok [OF assms(1), of ss1] by (auto simp: freed_def)
qed

lemma direct_ok_step:
  assumes ok: "server_ok ss" and pl: "0 \<le> pl_sz pl" and d: "direct_sent (HASH_ID sid) n pl ss ss'"
    and s: "can_direct_write (slot ss (HASH_ID sid)) sid" "protocol (slot ss (HASH_ID sid)) = PROTOCOL_TCP"
  shows "server_ok ss' \<and> balance ss' = balance ss + {#Free (pl_buffer pl)#}"
proof -
  let ?k = "HASH_ID sid"
  let ?s = "slot ss ?k"
  have s: "s_id ?s = sid" "s_type ?s = T_CONNECTED" "dw_buffer ?s = None" "s_high ?s = []" "s_low ?s = []" "live ?s" "protocol ?s = PROTOCOL_TCP"
    using s by (simp_all add: can_direct_write_def nomore_sending_data_def send_buffer_empty_def live_def)
  have so: "slot_ok ?k ?s (epoll ss ?k) (pipe_for (s_id ?s) ss)" using ok by (simp add: server_ok_def slots_ok_def)
  then have io: "interest_ok ?s (epoll ss ?k) (pipe_for sid ss)" "data_ok ?s" "protocol ?s = PROTOCOL_TCP \<longrightarrow> sends (pipe_for sid ss) = low_half (sending ?s) \<and> drop_bit 16 (sending ?s) = ID_TAG16 sid"
    using s(1) unfolding slot_ok_live [OF s(6)] by simp_all
  then have reg: "epoll ss ?k \<noteq> None" using s(2) by (simp add: interest_ok_def)
  from d obtain t where t: "if n = length (pl_bytes pl)
       then slot ss' ?k = ?s\<lparr>stat := t\<rparr> \<and> freed ss' = add_mset (Free (pl_buffer pl)) (freed ss) \<and> epoll ss' ?k = epoll ss ?k
       else slot ss' ?k = ?s\<lparr>stat := t, dw_buffer := Some pl, dw_offset := n\<rparr> \<and> freed ss' = freed ss \<and> epoll ss' ?k = map_option (\<lambda>_. True) (epoll ss ?k)"
    and f: "frame ?k ss ss'" "n \<le> length (pl_bytes pl)" by (auto simp: direct_sent_def)
  have o: "owned (?s\<lparr>stat := t, dw_buffer := Some pl, dw_offset := n\<rparr>) = add_mset (Free (pl_buffer pl)) (owned ?s)"
    using s(3) by (simp add: owned_def)
  have h: "held (?s\<lparr>stat := t, dw_buffer := Some pl, dw_offset := n\<rparr>) = add_mset (Free (pl_buffer pl)) (held ?s)"
    using s(6) o by (simp add: held_def live_def)
  have ch: "changed ?k [] {#Free (pl_buffer pl)#} ss ss'"
    using f t h by (auto simp: changed_def frame_def split: if_splits)
  have p: "pipe_for (s_id ?s) ss' = pipe_for (s_id ?s) ss" using f(1) by (simp add: pipe_for_def frame_def)
  have "slot_ok ?k (slot ss' ?k) (epoll ss' ?k) (pipe_for (s_id (slot ss' ?k)) ss')"
  proof (cases "n = length (pl_bytes pl)")
    case True
    then show ?thesis using t so p by simp
  next
    case False
    let ?s' = "?s\<lparr>stat := t, dw_buffer := Some pl, dw_offset := n\<rparr>"
    have e: "slot ss' ?k = ?s'" "epoll ss' ?k = Some True" using t False reg by auto
    have l: "live ?s'" using s(6) by (simp add: live_def)
    have "data_ok ?s'" using io(2) s pl f(2) by (simp add: data_ok_def)
    moreover have "interest_ok ?s' (Some True) (pipe_for sid ss)" using s(2) by (simp add: interest_ok_def accepts_def)
    ultimately show ?thesis unfolding e slot_ok_live [OF l] using io(3) s(1) p by simp
  qed
  moreover have "epoll ss' ?k \<noteq> None" using t reg by (auto split: if_splits)
  ultimately have "server_ok ss'" "balance ss' = balance ss + {#Free (pl_buffer pl)#} + (\<Sum>r\<leftarrow>[]. given r)"
    using changed_ok [OF ok HASH_ID_less ch] s(2) by simp_all
  then show ?thesis by simp
qed

text \<open>A message, with a direct write when the socket has nothing else to send.\<close>

lemma not_direct_send:
  assumes ok: "server_ok ss" and v: "\<not> invalid_slot sid ss" and m: "may_send sid ss" and pl: "0 \<le> pl_sz pl"
  shows "\<exists>n ss'. map_option finish_send (do { ss \<leftarrow> inc_sending_ref sid ss; Some (Inr (Req_send sid pl), ss) }) = Some (n, ss') \<and>
      server_ok ss' \<and> balance ss' = balance ss + {#Free (pl_buffer pl)#}"
    and "\<exists>n ss'. map_option finish_send (do { ss \<leftarrow> inc_sending_ref sid ss; Some (Inr (Req_send_low sid pl), ss) }) = Some (n, ss') \<and>
      server_ok ss' \<and> balance ss' = balance ss + {#Free (pl_buffer pl)#}"
  using counted_request_ok [OF ok v m, of "Req_send sid pl"] counted_request_ok [OF ok v m, of "Req_send_low sid pl"] pl
  by (auto simp: finish_send_def given_def)

lemma server_send_ok:
  assumes ok: "server_ok ss" and pl: "0 \<le> pl_sz pl" and m: "may_send sid ss"
    and udp: "can_direct_write (slot ss (HASH_ID sid)) sid \<longrightarrow> protocol (slot ss (HASH_ID sid)) = PROTOCOL_TCP"
  shows "\<exists>n ss'. socket_server_send sid pl ss = Some (n, ss') \<and> server_ok ss' \<and> balance ss' = balance ss + {#Free (pl_buffer pl)#}"
proof (cases "invalid_slot sid ss")
  case True
  then show ?thesis using free_buffer_ok [OF ok pl] by (auto simp: socket_server_send_def send_front_def finish_send_def)
next
  case False
  show ?thesis
  proof (cases "can_direct_write (slot ss (HASH_ID sid)) sid")
    case no: False
    then show ?thesis using not_direct_send(1) [OF ok False m pl] False by (simp add: socket_server_send_def send_front_def)
  next
    case True
    obtain b ss1 where b: "socket_trylock ss = (b, ss1)" by fastforce
    note t = trylock_ok [OF ok b]
    have v: "\<not> invalid_slot sid ss1" "may_send sid ss1" using False m by (simp_all add: invalid_slot_def may_send_def t(3))
    show ?thesis
    proof (cases b)
      case unlocked: False
      then show ?thesis using not_direct_send(1) [OF t(1) v pl] False True b t(2) by (simp add: socket_server_send_def send_front_def)
    next
      case locked: True
      have p: "protocol (slot ss1 (HASH_ID sid)) = PROTOCOL_TCP" "can_direct_write (slot ss1 (HASH_ID sid)) sid" using udp True t(3) by simp_all
      from direct_write_sent [OF pl p(1)] obtain n ss' where w: "direct_write sid pl ss1 = Some (0, ss')" "direct_sent (HASH_ID sid) n pl ss1 ss'" by blast
      from direct_ok_step [OF t(1) pl w(2) p(2,1)] w(1) show ?thesis using False True b locked t(2)
        by (simp add: socket_server_send_def send_front_def finish_send_def)
    qed
  qed
qed

lemma send_low_ok:
  assumes ok: "server_ok ss" and pl: "0 \<le> pl_sz pl" and m: "may_send sid ss"
  shows "\<exists>n ss'. socket_server_send_lowpriority sid pl ss = Some (n, ss') \<and> server_ok ss' \<and> balance ss' = balance ss + {#Free (pl_buffer pl)#}"
proof (cases "invalid_slot sid ss")
  case True
  then show ?thesis using free_buffer_ok [OF ok pl] by (auto simp: socket_server_send_lowpriority_def send_low_front_def finish_send_def)
next
  case False
  then show ?thesis using not_direct_send(2) [OF ok False m pl] by (simp add: socket_server_send_lowpriority_def send_low_front_def)
qed

text \<open>A datagram: it is sent at once, or given to the socket thread.\<close>

definition may_send_udp :: "int \<Rightarrow> socket_server \<Rightarrow> bool" where
  "may_send_udp sid ss \<longleftrightarrow> invalid_slot sid ss \<or> s_type (slot ss (HASH_ID sid)) \<noteq> T_BIND \<and> (\<forall>c\<in>set (pipe_for sid ss). \<not> binds c)"

lemma sendto_ok:
  assumes ok: "server_ok ss" and s: "sys_sendto i sa bs ss = (r, ss1)" and i: "i < MAX_SOCKET"
  shows "server_ok ss1" "balance ss1 = balance ss" "server_ok (stat_write i n ss1)" "balance (stat_write i n ss1) = balance ss"
    "slot ss1 = slot ss" "pipe ss1 = pipe ss"
proof -
  obtain as where as: "once_write (length bs) (a_write (answers ss)) = (r, as)"
    using s by (auto simp: sys_sendto_def split: prod.splits)
  have "ss1 = ss\<lparr>answers := (answers ss)\<lparr>a_write := as\<rparr>, calls := calls ss @ (case r of Inl e \<Rightarrow> [] | Inr n \<Rightarrow> [Sendto (s_id (slot ss i)) sa bs])\<rparr>"
    using s as by (auto simp: sys_sendto_def log_call_def split: sum.splits)
  moreover have "filter frees (case r of Inl e \<Rightarrow> [] | Inr n \<Rightarrow> [Sendto (s_id (slot ss i)) sa bs]) = []" by (simp split: sum.split)
  ultimately have e: "\<exists>as cs. ss1 = ss\<lparr>answers := (answers ss)\<lparr>a_write := as\<rparr>, calls := calls ss @ cs\<rparr> \<and> filter frees cs = []" by blast
  then have f: "freed ss1 = freed ss" by (elim exE conjE) (simp add: freed_def)
  show "slot ss1 = slot ss" "pipe ss1 = pipe ss" using e by auto
  show o: "server_ok ss1" "balance ss1 = balance ss" using e f same_ok [OF ok, of ss1] by auto
  let ?ss2 = "stat_write i n ss1"
  have c: "changed i [] {#} ss1 ?ss2" by (simp add: changed_def stat_write_def)
  have "slot_ok i (slot ?ss2 i) (epoll ?ss2 i) (pipe_for (s_id (slot ?ss2 i)) ?ss2)"
    using ok_slot [OF o(1), of i] by (simp add: stat_write_def pipe_for_def)
  from changed_ok [OF o(1) i c this] o(2) show "server_ok ?ss2" "balance ?ss2 = balance ss" by (simp_all add: stat_write_def)
qed

lemma free_ok:
  fixes pl :: payload
  assumes "server_ok ss" "0 \<le> pl_sz pl"
  shows "server_ok (free_func (pl_buffer pl) False ss) \<and> balance (free_func (pl_buffer pl) False ss) = balance ss + {#Free (pl_buffer pl)#}"
  using free_buffer_ok [OF assms] assms(2) by (simp add: free_buffer_def send_object_init_def)

lemma udp_send_ok:
  assumes ok: "server_ok ss" and pl: "0 \<le> pl_sz pl" and m: "may_send_udp sid ss"
  shows "\<exists>n ss'. socket_server_udp_send sid address pl ss = Some (n, ss') \<and> server_ok ss' \<and> balance ss' = balance ss + {#Free (pl_buffer pl)#}"
proof (cases "invalid_slot sid ss \<or> udp_address_size address = None")
  case True
  then have "socket_server_udp_send sid address pl ss = map_option (Pair (-1)) (free_buffer pl ss)" by (auto simp: socket_server_udp_send_def Let_def)
  then show ?thesis using free_buffer_ok [OF ok pl] by auto
next
  case False
  then obtain size where v: "\<not> invalid_slot sid ss" "udp_address_size address = Some size" by auto
  let ?k = "HASH_ID sid"
  let ?r = "Req_send_udp sid pl (take size address)"
  have request: "server_ok (send_request ?r ss1) \<and> balance (send_request ?r ss1) = balance ss + {#Free (pl_buffer pl)#}"
    if "server_ok ss1" "balance ss1 = balance ss" "slot ss1 = slot ss" "pipe ss1 = pipe ss" for ss1
    using request_ok [OF that(1), of ?r sid] m v(1) pl that(2-4) by (simp add: may_send_udp_def given_def pipe_for_def)
  obtain direct ss1 where d: "(if can_direct_write (slot ss ?k) sid then socket_trylock ss else (False, ss)) = (direct, ss1)" by fastforce
  have s1: "server_ok ss1" "balance ss1 = balance ss" "slot ss1 = slot ss" "pipe ss1 = pipe ss"
    using d trylock_ok [OF ok] ok by (auto split: if_splits)
  show ?thesis
  proof (cases direct)
    case no: False
    then show ?thesis using v d request [OF s1] by (simp add: socket_server_udp_send_def Let_def)
  next
    case True
    have init: "send_object_init ss1 pl = Some (pl_buffer pl, pl_bytes pl, False)" using pl by (simp add: send_object_init_def)
    show ?thesis
    proof (cases "udp_socket_address (slot ss1 ?k) address")
      case None
      then show ?thesis using v d True init free_ok [OF s1(1) pl] s1(2) by (simp add: socket_server_udp_send_def Let_def)
    next
      case (Some sa)
      obtain r ss2 where r: "sys_sendto ?k sa (pl_bytes pl) ss1 = (r, ss2)" by fastforce
      note st = sendto_ok [OF s1(1) r HASH_ID_less]
      show ?thesis
      proof (cases r)
        case (Inl e)
        then show ?thesis using v d True init Some r request [of ss2] st s1 by (simp add: socket_server_udp_send_def Let_def)
      next
        case (Inr n)
        then show ?thesis using v d True init Some r free_ok [OF st(3) pl, of n] st(4) s1 by (simp add: socket_server_udp_send_def Let_def)
      qed
    qed
  qed
qed

end
