(* ===== verification/SocketThread.thy ===== *)
theory SocketThread
  imports SocketCalls
begin

text \<open>
  Every run of the socket thread and its callers: what may come in any order, and that no assertion about a socket fails and every
  buffer handed to the server is freed once.
\<close>

section \<open>Runs\<close>

text \<open>
  One pass of the loop of \<^verbatim>\<open>socket_server_poll\<close>, or one call of another thread. The results are left out: the messages of the
  thread are in the state as the calls of the kernel that caused them.
\<close>

datatype action = A_poll
  | A_time u64
  | A_connect u64 string int
  | A_listen "int option" u64
  | A_bind int u64
  | A_udp "(int \<times> bool) option" u64
  | A_send int payload
  | A_send_low int payload
  | A_udp_send int "u8 list" payload
  | A_udp_connect int "sockaddr option"
  | A_close u64 int
  | A_shutdown u64 int
  | A_start u64 int
  | A_nodelay int
  | A_exit

definition act :: "action \<Rightarrow> socket_server \<Rightarrow> socket_server option" where
  "act a ss = (case a of
     A_poll \<Rightarrow> map_option (\<lambda>(p, mr, ss). ss) (poll_pass True ss)
   | A_time t \<Rightarrow> Some (socket_server_updatetime t ss)
   | A_connect opaque addr port \<Rightarrow> Some (snd (socket_server_connect opaque addr port ss))
   | A_listen fd opaque \<Rightarrow> Some (snd (socket_server_listen fd opaque ss))
   | A_bind fd opaque \<Rightarrow> Some (snd (socket_server_bind fd opaque ss))
   | A_udp fd opaque \<Rightarrow> Some (snd (socket_server_udp fd opaque ss))
   | A_send sid pl \<Rightarrow> map_option snd (socket_server_send sid pl ss)
   | A_send_low sid pl \<Rightarrow> map_option snd (socket_server_send_lowpriority sid pl ss)
   | A_udp_send sid address pl \<Rightarrow> map_option snd (socket_server_udp_send sid address pl ss)
   | A_udp_connect sid peer \<Rightarrow> Some (snd (socket_server_udp_connect sid peer ss))
   | A_close opaque sid \<Rightarrow> Some (socket_server_close opaque sid ss)
   | A_shutdown opaque sid \<Rightarrow> Some (socket_server_shutdown opaque sid ss)
   | A_start opaque sid \<Rightarrow> Some (socket_server_start opaque sid ss)
   | A_nodelay sid \<Rightarrow> Some (socket_server_nodelay sid ss)
   | A_exit \<Rightarrow> Some (socket_server_exit ss))"

text \<open>
  What the callers keep to. A new id has no request of an earlier socket in the pipe. Data is plain memory, no registered object. A socket is
  not sent to before the socket thread has created it, nor when it stands for a descriptor of the process (\<^verbatim>\<open>socket_server_bind\<close>); less than
  2^16 - 1 messages for it are on their way. A socket of UDP that could be written to at once is sent to with an address.
\<close>

definition act_ok :: "action \<Rightarrow> socket_server \<Rightarrow> bool" where
  "act_ok a ss = (case a of
     A_poll \<Rightarrow> fresh_id ss
   | A_connect opaque addr port \<Rightarrow> fresh_id ss
   | A_listen fd opaque \<Rightarrow> fresh_id ss
   | A_bind fd opaque \<Rightarrow> fresh_id ss
   | A_udp fd opaque \<Rightarrow> fresh_id ss
   | A_send sid pl \<Rightarrow> 0 \<le> pl_sz pl \<and> may_send sid ss \<and>
       (can_direct_write (slot ss (HASH_ID sid)) sid \<longrightarrow> protocol (slot ss (HASH_ID sid)) = PROTOCOL_TCP)
   | A_send_low sid pl \<Rightarrow> 0 \<le> pl_sz pl \<and> may_send sid ss
   | A_udp_send sid address pl \<Rightarrow> 0 \<le> pl_sz pl \<and> may_send_udp sid ss \<and> address \<noteq> [] \<and> (\<forall>n. udp_address_size address = Some n \<longrightarrow> n \<le> length address)
   | _ \<Rightarrow> True)"

definition handed :: "action \<Rightarrow> os_call multiset" where
  "handed a = (case a of A_send sid pl \<Rightarrow> {#Free (pl_buffer pl)#} | A_send_low sid pl \<Rightarrow> {#Free (pl_buffer pl)#}
     | A_udp_send sid address pl \<Rightarrow> {#Free (pl_buffer pl)#} | _ \<Rightarrow> {#})"

fun run :: "action list \<Rightarrow> socket_server \<Rightarrow> socket_server option" where
  "run [] ss = Some ss"
| "run (a # acts) ss = act a ss \<bind> run acts"

text \<open>Each action is one that its caller may take in the state it finds; whether it succeeds is not asked.\<close>

fun acts_ok :: "action list \<Rightarrow> socket_server \<Rightarrow> bool" where
  "acts_ok [] ss = True"
| "acts_ok (a # acts) ss = (act_ok a ss \<and> (case act a ss of None \<Rightarrow> True | Some ss \<Rightarrow> acts_ok acts ss))"

section \<open>Each action\<close>

lemma data_free_request_ok:
  assumes "server_ok ss" "req_id r = Some sid" "\<not> creates r" "\<not> counted r" "payload_of r = None"
  shows "server_ok (send_request r ss) \<and> balance (send_request r ss) = balance ss"
  using request_ok [OF assms(1-4)] assms(5) by (simp add: given_def)

lemma udp_connect_ok:
  assumes ok: "server_ok ss"
  shows "server_ok (snd (socket_server_udp_connect sid peer ss)) \<and> balance (snd (socket_server_udp_connect sid peer ss)) = balance ss"
proof -
  let ?k = "HASH_ID sid"
  let ?ss1 = "set_slot ?k (\<lambda>s. s\<lparr>udpconnecting := udpconnecting s + 1\<rparr>) ss"
  have f: "slot_ok i (s\<lparr>udpconnecting := u\<rparr>) w q = slot_ok i s w q" "held (s\<lparr>udpconnecting := u\<rparr>) = held s" for i s u w q
    by (simp_all add: slot_ok_def data_ok_def interest_ok_def has_data_def held_def owned_def live_def)
  have c: "changed ?k [] {#} ss ?ss1" by (simp add: changed_def f)
  have "slot_ok ?k (slot ?ss1 ?k) (epoll ?ss1 ?k) (pipe_for (s_id (slot ?ss1 ?k)) ?ss1)"
    using ok_slot [OF ok, of ?k] by (simp add: f pipe_for_def)
  from changed_ok [OF ok HASH_ID_less c this] have o: "server_ok ?ss1" "balance ?ss1 = balance ss" by simp_all
  with ok data_free_request_ok [OF o(1)] show ?thesis
    by (simp add: socket_server_udp_connect_def Let_def split: option.split)
qed

lemma create_id_ok:
  assumes ok: "server_ok ss" and fresh: "fresh_id ss" and s: "reserve_id ss = (sid, ss1)"
    and r: "creates (r sid)" "req_id (r sid) = Some sid"
  shows "server_ok (if sid < 0 then ss1 else send_request (r sid) ss1)" "balance (if sid < 0 then ss1 else send_request (r sid) ss1) = balance ss"
  using new_id_ok [OF ok fresh s] r by (auto simp: not_less)

lemma log_close_ok: "server_ok ss \<Longrightarrow> server_ok (log_call (Close fd) ss) \<and> balance (log_call (Close fd) ss) = balance ss"
  using same_ok [of ss "log_call (Close fd) ss"] by (simp add: freed_def)

lemma act_served:
  assumes ok: "server_ok ss" and a: "act_ok a ss"
  shows "\<exists>ss'. act a ss = Some ss' \<and> server_ok ss' \<and> balance ss' = balance ss + handed a"
proof (cases a)
  case A_poll
  with a poll_pass_ok [OF ok, of True] show ?thesis by (auto simp: act_def act_ok_def handed_def)
next
  case (A_time t)
  have "server_ok (ss\<lparr>ss_time := t\<rparr>) \<and> balance (ss\<lparr>ss_time := t\<rparr>) = balance ss" using same_ok [OF ok, of "ss\<lparr>ss_time := t\<rparr>"] by (simp add: freed_def)
  then show ?thesis using A_time by (simp add: act_def handed_def socket_server_updatetime_def)
next
  case (A_connect opaque addr port)
  obtain sid ss1 where s: "reserve_id ss = (sid, ss1)" by fastforce
  have "fresh_id ss" using a A_connect by (simp add: act_ok_def)
  from create_id_ok [OF ok this s, of "\<lambda>sid. Req_open sid port opaque (c_str addr)"] ok show ?thesis
    using A_connect s by (auto simp: act_def handed_def socket_server_connect_def split: if_splits)
next
  case (A_listen fd opaque)
  obtain sid ss1 where s: "reserve_id ss = (sid, ss1)" by fastforce
  have "fresh_id ss" using a A_listen by (simp add: act_ok_def)
  from create_id_ok [OF ok this s, of "\<lambda>sid. Req_listen sid (the fd) opaque"] ok log_close_ok [of ss1] show ?thesis
    using A_listen s by (cases fd) (auto simp: act_def handed_def socket_server_listen_def split: if_splits)
next
  case (A_bind fd opaque)
  obtain sid ss1 where s: "reserve_id ss = (sid, ss1)" by fastforce
  have "fresh_id ss" using a A_bind by (simp add: act_ok_def)
  from create_id_ok [OF ok this s, of "\<lambda>sid. Req_bind sid fd opaque"] show ?thesis
    using A_bind s by (auto simp: act_def handed_def socket_server_bind_def split: if_splits)
next
  case (A_udp fd opaque)
  obtain sid ss1 where s: "reserve_id ss = (sid, ss1)" by fastforce
  have "fresh_id ss" using a A_udp by (simp add: act_ok_def)
  from create_id_ok [OF ok this s, of "\<lambda>sid. Req_udp sid (fst (the fd)) (snd (the fd)) opaque"] ok log_close_ok [of ss1] show ?thesis
    using A_udp s by (cases fd) (auto simp: act_def handed_def socket_server_udp_def split: if_splits)
next
  case (A_send sid pl)
  with a server_send_ok [OF ok, of pl sid] show ?thesis by (auto simp: act_def act_ok_def handed_def)
next
  case (A_send_low sid pl)
  with a send_low_ok [OF ok, of pl sid] show ?thesis by (auto simp: act_def act_ok_def handed_def)
next
  case (A_udp_send sid address pl)
  with a udp_send_ok [OF ok, of pl sid address] show ?thesis by (auto simp: act_def act_ok_def handed_def)
next
  case (A_udp_connect sid peer)
  with udp_connect_ok [OF ok] show ?thesis by (simp add: act_def handed_def)
next
  case A_exit
  with exit_ok [OF ok] show ?thesis by (simp add: act_def handed_def socket_server_exit_def)
qed (use data_free_request_ok [OF ok] in \<open>simp_all add: act_def handed_def socket_server_close_def socket_server_shutdown_def socket_server_start_def
    socket_server_nodelay_def\<close>)

lemma run_served:
  assumes "server_ok ss" "acts_ok acts ss"
  shows "\<exists>ss'. run acts ss = Some ss' \<and> server_ok ss' \<and> balance ss' = balance ss + (\<Sum>a\<leftarrow>acts. handed a)"
  using assms
proof (induction acts arbitrary: ss)
  case (Cons a acts)
  from act_served [OF Cons(2)] Cons(3) obtain ss1 where a: "act a ss = Some ss1" "server_ok ss1" "balance ss1 = balance ss + handed a" by auto
  from Cons(1) [OF a(2)] Cons(3) a show ?case by (auto simp: add.assoc)
qed simp

lemma server_create_ok:
  assumes "\<forall>r\<in>set (a_read as). \<forall>bs. r = Inr bs \<longrightarrow> length bs < 2 ^ 30"
  shows "server_ok (socket_server_create memory as time)" "balance (socket_server_create memory as time) = {#}"
  using assms by (simp_all add: socket_server_create_def server_ok_def slots_ok_def slot_ok_def pipe_ok_def events_ok_def reads_ok_def pipe_for_def
      sends_def List.map_filter_simps balance_def in_hand_def freed_def held_def live_def)

section \<open>A run\<close>

text \<open>
  For the witnesses: a connection that is there at once. Its first write takes 2 of 3 bytes; the socket thread writes the rest after an
  interrupt, and then the next message. The other side sends a byte and later closes.
\<close>

definition no_socket :: socket where
  "no_socket = \<lparr>s_opaque = 0, s_high = [], s_low = [], wb_size = 0, stat = \<lparr>rtime = 0, wtime = 0, st_read = 0, st_write = 0\<rparr>, sending = 0, s_fd = 0,
     s_id = 0, protocol = 0, s_type = T_INVALID, udpconnecting = 0, warn_size = 0, p_size = 0, p_address = [], dw_offset = 0, dw_buffer = None\<rparr>"

definition script_wait :: "event list" where
  "script_wait = [\<lparr>e_s = Some 1, e_read = True, e_write = True, e_error = False, e_eof = False\<rparr>]"

definition script :: answers where
  "script = \<lparr>a_write = [Inr 2, Inl EINTR, Inr 9, Inl EAGAIN, Inr 9], a_read = [Inr [7], Inl EINTR, Inr []], a_recvfrom = [], a_accept = [], a_sp_add = [],
     a_so_error = [], a_getpeername = [], a_wait = [Inr script_wait, Inr script_wait, Inr script_wait], a_resolve = [Inr [V4 [0, 80] [127, 0, 0, 1]]],
     a_socket = [Inr 5], a_connect = [], a_trylock = [], a_ntop = (\<lambda>sa. None), a_strerror = (\<lambda>e. [])\<rparr>"

definition data1 :: payload where "data1 = \<lparr>pl_buffer = 100, pl_sz = 3, pl_bytes = [1, 2, 3]\<rparr>"
definition data2 :: payload where "data2 = \<lparr>pl_buffer = 200, pl_sz = 2, pl_bytes = [4, 5]\<rparr>"

definition connecting :: "action list" where "connecting = [A_connect 7 ''host'' 80, A_poll]"
definition sending_both :: "action list" where "sending_both = [A_send 1 data1, A_send 1 data2, A_poll, A_poll, A_poll, A_poll, A_poll]"

lemma reserve_next:
  assumes "s_type (slot ss (HASH_ID (sint (alloc_id ss + 1)))) = T_INVALID" "0 \<le> sint (alloc_id ss + 1)"
  shows "reserve_id ss = (sint (alloc_id ss + 1), set_slot (HASH_ID (sint (alloc_id ss + 1)))
    (\<lambda>s. s\<lparr>s_type := T_RESERVE, s_id := sint (alloc_id ss + 1), protocol := PROTOCOL_UNKNOWN, udpconnecting := 0, s_fd := -1\<rparr>) (ss\<lparr>alloc_id := alloc_id ss + 1\<rparr>))"
proof -
  have m: "MAX_SOCKET = Suc (2 ^ 16 - 1)" by (simp add: MAX_SOCKET_def MAX_SOCKET_P_def)
  show ?thesis using assms unfolding reserve_id_def m reserve_scan.simps by (simp add: Let_def not_less)
qed

lemma hash_ids [simp]: "HASH_ID 1 = 1" "HASH_ID 2 = 2"
  by (simp_all add: HASH_ID_def MAX_SOCKET_def MAX_SOCKET_P_def)

lemmas run_defs = script_def script_wait_def no_socket_def data1_def data2_def connecting_def sending_both_def
  act_ok_def act_def fresh_id_def reserve_next poll_pass_def poll_command_def poll_events_def ctrl_cmd_def open_socket_def new_fd_def
  sp_add_def sp_write_def sp_wait_def sp_del_def next_answer_def set_slot_def set_type_def log_call_def pass_of_def socket_server_connect_def send_request_def c_str_def
  socket_server_create_def may_send_def invalid_slot_def can_direct_write_def nomore_sending_data_def send_buffer_empty_def protocol_defs low_half_def
  socket_server_send_def send_front_def finish_send_def socket_trylock_def direct_write_def send_object_init_def sys_write_def once_write_def stat_write_def
  free_func_def inc_sending_ref_def ID_TAG16_def MAX_SOCKET_P_def clear_closed_event_def dec_sending_ref_def send_socket_def append_sendbuffer_def warn_check_def
  wb_list_def set_wb_list_def add_wb_size_def WARNING_SIZE_def dispatch_event_def force_close_def close_event_def socket_event_def forward_message_tcp_def next_size_def MIN_READ_BUFFER_def 
  reportable_def MAX_EVENT_def pipe_for_def text_or_null_def stat_read_def message_of_def again_def c_nat_def send_buffer_def take_direct_def send_buffers_def send_list_def
  list_uncomplete_def is_close_def send_buffer_done_def write_buffer_free_def

section \<open>No assertion fails, and every buffer is freed once\<close>

text \<open>
  (C11) Whatever the kernel answers, and in whatever order the passes of the socket thread and the calls of the other threads come: a new
  server and callers that keep to \<^verbatim>\<open>act_ok\<close> never reach a failing assertion on a socket or its lists, a missing interface for objects, or a count
  below 0, and at every moment the buffers that were freed, and those that a socket or a request in the pipe still has, are exactly those handed to the
  server, each once: none is lost, none freed twice. What \<^verbatim>\<open>act_ok\<close> asks of the callers are rules the code does not enforce; no read gives 2^30 bytes
  or more at once. (The assertions on the pipe, on the count of a lock and on descriptors are about calls that are not modelled.)
\<close>

theorem socket_buffers_freed_once:
  assumes "\<forall>r\<in>set (a_read as). \<forall>bs. r = Inr bs \<longrightarrow> length bs < 2 ^ 30"
    and "acts_ok acts (socket_server_create memory as time)"
  shows "\<exists>ss. run acts (socket_server_create memory as time) = Some ss \<and> freed ss + in_hand ss = (\<Sum>a\<leftarrow>acts. handed a)"
proof -
  from run_served [OF server_create_ok(1) [OF assms(1)] assms(2)] server_create_ok(2) [OF assms(1), of memory time] show ?thesis
    by (auto simp: balance_def)
qed

theorem socket_buffers_freed_once_witness:
  "\<exists>ss. run (connecting @ sending_both @ [A_poll]) (socket_server_create (\<lambda>i. no_socket) script 0) = Some ss \<and>
     freed ss + in_hand ss = {#Free 100, Free 200#}"
proof -
  have "\<forall>r\<in>set (a_read script). \<forall>bs. r = Inr bs \<longrightarrow> length bs < 2 ^ 30" by (simp add: script_def)
  moreover have "acts_ok (connecting @ sending_both @ [A_poll]) (socket_server_create (\<lambda>i. no_socket) script 0)" by (simp add: run_defs)
  moreover have "(\<Sum>a\<leftarrow>connecting @ sending_both @ [A_poll]. handed a) = {#Free 100, Free 200#}"
    by (simp add: connecting_def sending_both_def handed_def data1_def data2_def)
  ultimately show ?thesis using socket_buffers_freed_once [of script "connecting @ sending_both @ [A_poll]"] by simp
qed

end
