(* ===== verification/SocketStream.thy ===== *)
theory SocketStream
  imports SocketThread
begin

text \<open>
  What is written to a connection is what the callers sent to it, in the order of their calls.
\<close>

section \<open>The stream of a connection\<close>

text \<open>The bytes that a socket still has, and those on their way to the socket thread.\<close>

definition unsent :: "socket \<Rightarrow> u8 list" where
  "unsent s = direct_rest s @ bytes (s_high s)"

fun sent_bytes :: "request \<Rightarrow> u8 list" where
  "sent_bytes (Req_send n pl) = pl_bytes pl"
| "sent_bytes _ = []"

definition stream :: "int \<Rightarrow> socket_server \<Rightarrow> u8 list" where
  "stream n ss = written n ss @ unsent (slot ss (HASH_ID n)) @ concat (map sent_bytes (pipe_for n ss))"

definition tcp_open :: "int \<Rightarrow> socket_server \<Rightarrow> bool" where
  "tcp_open n ss \<longleftrightarrow> (let s = slot ss (HASH_ID n) in s_id s = n \<and> protocol s = PROTOCOL_TCP \<and> (s_type s = T_CONNECTING \<or> s_type s = T_CONNECTED))"

text \<open>No message of low priority, which may be overtaken, and no datagram.\<close>

definition plain :: "int \<Rightarrow> socket_server \<Rightarrow> bool" where
  "plain n ss \<longleftrightarrow> s_low (slot ss (HASH_ID n)) = [] \<and> (\<forall>r\<in>set (pipe_for n ss). payload_of r \<noteq> None \<longrightarrow> counted r \<and> (\<exists>pl. r = Req_send n pl))"

section \<open>Operations on the socket itself\<close>

definition kept :: "nat \<Rightarrow> socket_server \<Rightarrow> socket_server \<Rightarrow> bool" where
  "kept i ss ss' \<longleftrightarrow> s_type (slot ss' i) = T_INVALID \<or>
     ((\<forall>n. written n ss' = written n ss) \<and> unsent (slot ss' i) = unsent (slot ss i) \<and> s_low (slot ss' i) = s_low (slot ss i))"

lemma unsent_fields [simp]:
  "unsent (s\<lparr>stat := t\<rparr>) = unsent s" "unsent (s\<lparr>p_size := k\<rparr>) = unsent s" "unsent (s\<lparr>s_type := ty\<rparr>) = unsent s" "unsent (s\<lparr>sending := x\<rparr>) = unsent s"
  "unsent (s\<lparr>s_opaque := p\<rparr>) = unsent s" "unsent (s\<lparr>p_address := a\<rparr>) = unsent s" "unsent (s\<lparr>udpconnecting := u\<rparr>) = unsent s"
  "unsent (s\<lparr>warn_size := w\<rparr>) = unsent s"
  by (simp_all add: unsent_def direct_rest_def split: option.split)

lemma free_buffer_slot: "free_buffer pl ss = Some ss' \<Longrightarrow> slot ss' = slot ss"
  by (auto simp: free_buffer_def Option.bind_eq_Some_conv)

lemma force_close_invalid: "force_close i ss = Some (m, ss') \<Longrightarrow> s_type (slot ss' i) = T_INVALID"
  by (auto simp: force_close_def Let_def free_buffer_slot Option.bind_eq_Some_conv split: if_splits option.splits)

lemma close_error_kept: "close_error i e ss1 = Some (r, ss') \<Longrightarrow> kept i ss ss'"
  by (auto simp: close_error_def kept_def Option.bind_eq_Some_conv dest: force_close_invalid)

lemma close_event_kept: "close_event i ss1 = Some (r, ss') \<Longrightarrow> kept i ss ss'"
  by (auto simp: close_event_def kept_def Option.bind_eq_Some_conv dest: force_close_invalid)

lemma written_stat [simp]: "written n (stat_read i k ss) = written n ss" "written n (stat_write i k ss) = written n ss"
  by (simp_all add: stat_read_def stat_write_def)

lemma forward_tcp_kept: "forward_message_tcp i ss = Some (r, ss') \<Longrightarrow> kept i ss ss'"
  by (auto simp: forward_message_tcp_def Let_def kept_def Option.bind_eq_Some_conv dest: close_error_kept [of i _ _ _ _ ss] close_event_kept [of i _ _ _ ss]
      split: prod.splits sum.splits if_splits)

lemma so_error_same: "so_error ss = (r, ss') \<Longrightarrow> slot ss' = slot ss \<and> (\<forall>n. written n ss' = written n ss)"
  by (auto simp: so_error_def split: prod.splits)

lemma report_connect_kept: "report_connect i ss = Some (r, ss') \<Longrightarrow> kept i ss ss'"
  by (auto simp: report_connect_def Let_def set_type_def kept_def dest!: so_error_same dest: close_error_kept [of i _ _ _ _ ss]
      split: prod.splits sum.splits option.splits if_splits)

lemma send_buffer_kept:
  assumes "tcp_open n ss" "s_low (slot ss (HASH_ID n)) = []" "server_ok ss" "send_buffer (HASH_ID n) ss = Some (r, ss')"
  shows "s_type (slot ss' (HASH_ID n)) = T_INVALID \<or> (written n ss' @ unsent (slot ss' (HASH_ID n)) = written n ss @ unsent (slot ss (HASH_ID n)) \<and>
     s_low (slot ss' (HASH_ID n)) = [])"
proof -
  let ?i = "HASH_ID n"
  have l: "live (slot ss ?i)" "protocol (slot ss ?i) = PROTOCOL_TCP" "s_id (slot ss ?i) = n" using assms(1) by (auto simp: tcp_open_def live_def Let_def)
  have d: "data_ok (slot ss ?i)" using ok_slot [OF assms(3), of ?i] slot_ok_live [OF l(1)] by blast
  have "soi ss = None" using assms(3) by (simp add: server_ok_def)
  from send_buffer_sent [OF l(1) d this] assms(4) have "buffer_sent ?i ss r ss'" by auto
  then show ?thesis using assms(2) l unfolding buffer_sent_def Let_def
    by (elim disjE exE conjE) (auto simp: ended_def going_def unsent_def)
qed

section \<open>Events\<close>

text \<open>The stream of an open connection is the same as before, with \<^verbatim>\<open>x\<close> at its end, unless the connection is closed or half closed.\<close>

definition flows :: "int \<Rightarrow> u8 list \<Rightarrow> socket_server \<Rightarrow> socket_server \<Rightarrow> bool" where
  "flows n x ss ss' \<longleftrightarrow> (tcp_open n ss' \<longrightarrow> stream n ss' = stream n ss @ x \<and> plain n ss')"

lemma flows_same_pipe:
  assumes "pipe ss' = pipe ss" "plain n ss"
    and "tcp_open n ss' \<Longrightarrow> written n ss' @ unsent (slot ss' (HASH_ID n)) = written n ss @ unsent (slot ss (HASH_ID n))"
    and "tcp_open n ss' \<Longrightarrow> s_low (slot ss' (HASH_ID n)) = s_low (slot ss (HASH_ID n))"
  shows "flows n [] ss ss'"
proof -
  have p: "pipe_for n ss' = pipe_for n ss" using assms(1) by (simp add: pipe_for_def)
  show ?thesis unfolding flows_def stream_def plain_def p using assms(2-4) by (auto simp: plain_def)
qed

lemma flows_kept: "kept (HASH_ID n) ss ss' \<Longrightarrow> pipe ss' = pipe ss \<Longrightarrow> plain n ss \<Longrightarrow> flows n [] ss ss'"
  by (rule flows_same_pipe) (auto simp: kept_def tcp_open_def Let_def)

lemma flows_other: "slot ss' (HASH_ID n) = slot ss (HASH_ID n) \<Longrightarrow> written n ss' = written n ss \<Longrightarrow> pipe ss' = pipe ss \<Longrightarrow> plain n ss \<Longrightarrow> flows n [] ss ss'"
  by (rule flows_same_pipe) simp_all

lemma served_other:
  assumes "served j x ss r ss'" "j \<noteq> HASH_ID n" "s_id (slot ss j) \<noteq> n" "plain n ss"
  shows "flows n [] ss ss'"
  using assms by (intro flows_other) (auto simp: served_def frame_def)

lemma again_simps [simp]:
  "slot (again e ss) = slot ss" "written n (again e ss) = written n ss" "pipe (again e ss) = pipe ss"
  by (simp_all add: again_def written_def)

lemma flows_again [simp]: "flows n x ss (again e ss') = flows n x ss ss'"
  by (simp add: flows_def tcp_open_def stream_def plain_def pipe_for_def)

lemma handled_other:
  assumes "handled j ss x" "j \<noteq> HASH_ID n" "s_id (slot ss j) \<noteq> n" "plain n ss"
  shows "flows n [] ss (snd x)"
  using assms unfolding handled_def by (auto dest!: served_other)

lemma flows_closed: "s_type (slot ss' (HASH_ID n)) = T_INVALID \<Longrightarrow> flows n x ss ss'"
  by (simp add: flows_def tcp_open_def Let_def)

lemma flows_refl: "plain n ss \<Longrightarrow> flows n [] ss ss"
  by (rule flows_other) simp_all

lemma served_pipe_same: "served i x ss r ss' \<Longrightarrow> pipe ss' = pipe ss"
  by (simp add: served_def frame_def)

lemma socket_event_flows:
  assumes ok: "server_ok ss" and o: "tcp_open n ss" and pl: "plain n ss"
    and s: "socket_event e (HASH_ID n) ss = Some (p, ss')" and t: "s_type (slot ss (HASH_ID n)) \<noteq> T_CONNECTING"
  shows "flows n [] ss ss'"
proof -
  let ?i = "HASH_ID n"
  have l: "live (slot ss ?i)" "protocol (slot ss ?i) = PROTOCOL_TCP" using o by (auto simp: tcp_open_def live_def Let_def)
  have so: "slot_ok ?i (slot ss ?i) (epoll ss ?i) (pipe_for (s_id (slot ss ?i)) ss)" by (rule ok_slot [OF ok])
  then have here: "slot_here ?i ss" "data_ok (slot ss ?i)" using slot_ok_live [OF l(1)] by (auto simp: slot_here_def)
  have rd: "reads_ok ss" "soi ss = None" using ok by (simp_all add: server_ok_def)
  have low: "s_low (slot ss ?i) = []" using pl by (simp add: plain_def)
  consider (reading) "e_read e" | (writing) "\<not> e_read e" "e_write e" | (failing) "\<not> e_read e" "\<not> e_write e" "e_error e"
    | (ending) "\<not> e_read e" "\<not> e_write e" "\<not> e_error e" "e_eof e" | (nothing) "\<not> e_read e" "\<not> e_write e" "\<not> e_error e" "\<not> e_eof e" by blast
  then show ?thesis
  proof cases
    case reading
    from forward_tcp_served [OF l(1) here(1) rd(1)] obtain r ss1 where f: "forward_message_tcp ?i ss = Some (r, ss1)" "served ?i {#} ss r ss1" by blast
    have "flows n [] ss ss1" by (rule flows_kept [OF forward_tcp_kept [OF f(1)] served_pipe_same [OF f(2)] pl])
    moreover have "ss' = ss1 \<or> (\<exists>e'. ss' = again e' ss1)"
      using s reading l(2) f(1) by (auto simp: socket_event_def Let_def split: option.splits prod.splits event_kind.splits if_splits)
    ultimately show ?thesis by auto
  next
    case writing
    from send_buffer_sent [OF l(1) here(2) rd(2)] obtain r ss1 where b: "send_buffer ?i ss = Some (r, ss1)" "buffer_sent ?i ss r ss1" by blast
    have e: "ss' = ss1" using s writing b(1) by (simp add: socket_event_def)
    have "pipe ss1 = pipe ss" using served_pipe_same [OF buffer_served [OF b(2) l(1) so t]] .
    then show ?thesis unfolding e using send_buffer_kept [OF o low ok b(1)] low pl flows_closed by (elim disjE) (auto intro!: flows_same_pipe)
  next
    case failing
    then obtain r ss1 m where "force_close ?i ss1 = Some (m, ss')" using s
      by (auto simp: socket_event_def Option.bind_eq_Some_conv split: prod.splits)
    from flows_closed [OF force_close_invalid [OF this]] show ?thesis .
  next
    case ending
    then have "s_type (slot ss' ?i) = T_INVALID" using s by (auto simp: socket_event_def close_event_def Option.bind_eq_Some_conv dest: force_close_invalid)
    then show ?thesis by (rule flows_closed)
  next
    case nothing
    then show ?thesis using s flows_refl [OF pl] by (simp add: socket_event_def)
  qed
qed

text \<open>A new connection takes a slot that is free.\<close>

lemma new_fd_other:
  "new_fd sid fd proto p add ss = Some (b, ss') \<Longrightarrow> (\<forall>j. j \<noteq> HASH_ID sid \<longrightarrow> slot ss' j = slot ss j) \<and> (\<forall>n. written n ss' = written n ss) \<and> pipe ss' = pipe ss"
  by (auto simp: new_fd_def Let_def sp_add_def written_def Option.bind_eq_Some_conv split: prod.splits if_splits)

lemma reserve_other:
  assumes "reserve_id ss = (sid, ss')"
  shows "written n ss' = written n ss" "pipe ss' = pipe ss" "s_type (slot ss j) \<noteq> T_INVALID \<Longrightarrow> slot ss' j = slot ss j"
    "0 \<le> sid \<Longrightarrow> s_type (slot ss (HASH_ID sid)) = T_INVALID"
proof -
  from assms reserve_scan_facts obtain a where "(sid = -1 \<and> ss' = ss\<lparr>alloc_id := a\<rparr>) \<or> (0 \<le> sid \<and> s_type (slot ss (HASH_ID sid)) = T_INVALID \<and>
     ss' = set_slot (HASH_ID sid) (\<lambda>s. s\<lparr>s_type := T_RESERVE, s_id := sid, protocol := PROTOCOL_UNKNOWN, udpconnecting := 0, s_fd := -1\<rparr>) (ss\<lparr>alloc_id := a\<rparr>))"
    unfolding reserve_id_def by blast
  then show "written n ss' = written n ss" "pipe ss' = pipe ss" "s_type (slot ss j) \<noteq> T_INVALID \<Longrightarrow> slot ss' j = slot ss j"
    "0 \<le> sid \<Longrightarrow> s_type (slot ss (HASH_ID sid)) = T_INVALID"
    by (auto simp: written_def)
qed

lemma report_accept_other:
  assumes r: "report_accept i ss = Some (r, ss')" and j: "j \<noteq> i" "s_type (slot ss j) \<noteq> T_INVALID"
  shows "slot ss' j = slot ss j \<and> (\<forall>n. written n ss' = written n ss) \<and> pipe ss' = pipe ss"
proof -
  obtain a as where a: "next_answer (Inl EAGAIN) (a_accept (answers ss)) = (a, as)" by fastforce
  let ?ss1 = "ss\<lparr>answers := (answers ss)\<lparr>a_accept := as\<rparr>\<rparr>"
  show ?thesis
  proof (cases a)
    case (Inl e)
    then show ?thesis using r a by (auto simp: report_accept_def Let_def split: if_splits)
  next
    case (Inr x)
    obtain fd sa where x: "x = (fd, sa)" by (cases x)
    obtain sid ss2 where s: "reserve_id ?ss1 = (sid, ss2)" by fastforce
    note ro = reserve_other [OF s]
    have s2: "slot ss2 j = slot ss j" "written n ss2 = written n ss" "pipe ss2 = pipe ss" for n using ro(1-3) j by (simp_all add: written_def)
    show ?thesis
    proof (cases "sid < 0")
      case True
      then have "ss' = log_call (Close fd) ss2" using r a Inr x s by (simp add: report_accept_def Let_def)
      then show ?thesis using s2 by simp
    next
      case False
      then have jk: "j \<noteq> HASH_ID sid" using ro(4) j by auto
      from r a Inr x s False obtain ns ss3 where n: "new_fd sid fd PROTOCOL_TCP (s_opaque (slot ss2 i)) False ss2 = Some (ns, ss3)"
        and e: "ss' = (if ns then set_type (HASH_ID sid) T_PACCEPT (stat_read i 1 ss3) else log_call (Close fd) ss3)"
        by (auto simp: report_accept_def Let_def Option.bind_eq_Some_conv split: if_splits)
      from new_fd_other [OF n] have s3: "slot ss3 j = slot ss2 j" "written n ss3 = written n ss2" "pipe ss3 = pipe ss2" for n using jk by auto
      show ?thesis unfolding e using s2 s3 jk j(1) by (simp add: set_type_def)
    qed
  qed
qed

lemma dispatch_flows:
  assumes ok: "server_ok ss" and o: "tcp_open n ss" and pl: "plain n ss" and e: "\<And>i. e_s e = Some i \<Longrightarrow> epoll ss i \<noteq> None"
    and d: "dispatch_event e ss = Some (p, ss')"
  shows "flows n [] ss ss'"
proof (cases "e_s e")
  case None
  then show ?thesis using d flows_refl [OF pl] by (simp add: dispatch_event_def)
next
  case (Some i)
  have sl: "slots_ok ss" "reads_ok ss" "soi ss = None" using ok by (simp_all add: server_ok_def)
  note reg = slots_registered [OF sl(1) e [OF Some]]
  have here: "slot_here i ss" using ok_slot [OF ok] by (simp add: slot_here_def)
  have idi: "HASH_ID (s_id (slot ss i)) = i" using ok_slot [OF ok, of i] slot_ok_live [OF reg(1)] by blast
  have inv: "s_type (slot ss (HASH_ID n)) \<noteq> T_INVALID" using o by (auto simp: tcp_open_def Let_def)
  let ?t = "s_type (slot ss i)"
  have nr: "?t \<noteq> T_INVALID" "?t \<noteq> T_RESERVE" using reg(1) by (simp_all add: live_def)
  have n: "i \<noteq> HASH_ID n \<Longrightarrow> s_id (slot ss i) \<noteq> n" using idi by auto
  consider "?t = T_CONNECTING" | "?t = T_LISTEN" | "?t \<noteq> T_CONNECTING" "?t \<noteq> T_LISTEN" by blast
  then show ?thesis
  proof cases
    case 1
    from report_connect_served [OF reg(1) here 1] obtain r ss1 where r: "report_connect i ss = Some (r, ss1)" "served i {#} ss r ss1" by blast
    have eq: "ss' = ss1" using d Some 1 r(1) by (simp add: dispatch_event_def)
    show ?thesis unfolding eq
    proof (cases "i = HASH_ID n")
      case True
      show "flows n [] ss ss1"
        by (rule flows_kept) (use report_connect_kept [OF r(1)] True served_pipe_same [OF r(2)] pl in simp_all)
    next
      case False
      show "flows n [] ss ss1" by (rule served_other [OF r(2) False n [OF False] pl])
    qed
  next
    case 2
    then have i: "HASH_ID n \<noteq> i" using o by (auto simp: tcp_open_def Let_def)
    obtain r where "report_accept i ss = Some (r, ss')" using d Some 2 by (auto simp: dispatch_event_def)
    from report_accept_other [OF this i inv] show ?thesis using pl by (intro flows_other) auto
  next
    case 3
    have se: "socket_event e i ss = Some (p, ss')" using d Some 3 nr by (cases ?t) (simp_all add: dispatch_event_def)
    show ?thesis
    proof (cases "i = HASH_ID n")
      case True
      show ?thesis by (rule socket_event_flows [OF ok o pl]) (use se 3 True in simp_all)
    next
      case False
      from socket_event_handled [OF reg(1) here sl(2,3) 3(1) Some] se have "handled i ss (p, ss')" by simp
      from handled_other [OF this False n [OF False] pl] show ?thesis by simp
    qed
  qed
qed

section \<open>Requests\<close>

lemma force_close_written: "force_close i ss = Some (m, ss') \<Longrightarrow> written n ss' = written n ss"
  by (auto simp: force_close_def Let_def free_buffer_def Option.bind_eq_Some_conv split: if_splits option.splits)

lemma sp_add_same: "sp_add i ss = (r, ss') \<Longrightarrow> slot ss' = slot ss \<and> written n ss' = written n ss"
  by (auto simp: sp_add_def Let_def written_def split: prod.splits)

lemma start_kept: "start_socket n p ss = Some (r, ss') \<Longrightarrow> kept (HASH_ID n) ss ss'"
  by (auto simp: start_socket_def Let_def kept_def Option.bind_eq_Some_conv dest: sp_add_same force_close_invalid force_close_written
      split: if_splits prod.splits option.splits)

lemma close_not_open:
  assumes c: "close_socket n b p ss = Some (r, ss')" and v: "\<not> invalid_slot n ss" and l: "live (slot ss (HASH_ID n))" "data_ok (slot ss (HASH_ID n))" "soi ss = None"
  shows "s_type (slot ss' (HASH_ID n)) = T_INVALID \<or> s_type (slot ss' (HASH_ID n)) = T_HALFCLOSE"
proof -
  let ?i = "HASH_ID n"
  obtain r1 ss1 where s: "(if nomore_sending_data (slot ss ?i) then Some (None, ss) else send_buffer ?i ss) = Some (r1, ss1)"
    and e: "(if is_close r1 then Some (r1, ss1) else if b \<or> nomore_sending_data (slot ss1 ?i) then do {
         (m, ss) \<leftarrow> force_close ?i ss1; Some (Some (SOCKET_CLOSE, m\<lparr>sm_id := n, sm_opaque := p\<rparr>), ss) }
       else Some (None, set_type ?i T_HALFCLOSE ss1)) = Some (r, ss')"
    using c v by (auto simp: close_socket_def Let_def Option.bind_eq_Some_conv)
  show ?thesis
  proof (cases "is_close r1")
    case True
    with s have "send_buffer ?i ss = Some (r1, ss1)" by (auto split: if_splits)
    with send_buffer_sent [OF l] have "buffer_sent ?i ss r1 ss1" by auto
    from buffer_sent_is_close [OF this True] e True show ?thesis by (auto simp: ended_def)
  next
    case False
    with e show ?thesis by (auto simp: set_type_def Option.bind_eq_Some_conv dest: force_close_invalid split: if_splits)
  qed
qed

text \<open>A request for another id leaves the socket in its slot alone.\<close>

lemma ctrl_mismatch:
  assumes "req_id req = Some m" "s_id (slot ss (HASH_ID m)) \<noteq> m" "\<not> creates req" "soi ss = None"
    and pl: "\<And>pl. payload_of req = Some pl \<Longrightarrow> 0 \<le> pl_sz pl" and c: "ctrl_cmd req ss = Some (r, ss')"
  shows "(\<forall>n. written n ss' = written n ss) \<and> unsent (slot ss' (HASH_ID m)) = unsent (slot ss (HASH_ID m)) \<and> s_low (slot ss' (HASH_ID m)) = s_low (slot ss (HASH_ID m))"
proof (cases "payload_of req")
  case None
  then show ?thesis using assms(1-3) c
    by (cases req) (auto simp: ctrl_cmd_def start_socket_def close_socket_def set_udp_address_def setopt_socket_def invalid_slot_def Let_def)
next
  case (Some x)
  have s: "\<exists>ss1. dropped (HASH_ID m) x ss ss1 \<and> send_socket m x high address ss = Some (None, ss1)" for high address
    using send_socket_sent [OF pl [OF Some] assms(4), of m high address] assms(2) by (auto simp: Let_def)
  have d: "dec_sending_ref m ss1 = Some ss1" if "dropped (HASH_ID m) x ss ss1" for ss1
    using that assms(2) by (auto simp: dropped_def dec_sending_ref_def Let_def)
  obtain high address where "ctrl_cmd req ss = (do { (r, ss) \<leftarrow> send_socket m x high address ss; ss \<leftarrow> dec_sending_ref m ss; Some (r, ss) }) \<or>
      ctrl_cmd req ss = send_socket m x high address ss"
    using Some assms(1) by (cases req) (auto simp: ctrl_cmd_def)
  with s [of high address] d c obtain ss1 where "dropped (HASH_ID m) x ss ss1" "ss' = ss1" by auto
  then show ?thesis by (auto simp: dropped_def)
qed

lemma stream_pop: "pipe ss = req # reqs \<Longrightarrow> stream n ss = written n ss @ unsent (slot ss (HASH_ID n)) @
    (if req_id req = Some n then sent_bytes req else []) @ concat (map sent_bytes (pipe_for n (ss\<lparr>pipe := reqs\<rparr>)))"
  by (simp add: stream_def pipe_for_pop)

lemma flows_pop:
  assumes "pipe ss = req # reqs" "pipe ss' = reqs" "plain n ss"
    and "tcp_open n ss' \<Longrightarrow> written n ss' @ unsent (slot ss' (HASH_ID n)) = written n ss @ unsent (slot ss (HASH_ID n)) @ (if req_id req = Some n then sent_bytes req else [])"
    and "tcp_open n ss' \<Longrightarrow> s_low (slot ss' (HASH_ID n)) = s_low (slot ss (HASH_ID n))"
  shows "flows n [] ss ss'"
proof -
  have p: "pipe_for n ss' = pipe_for n (ss\<lparr>pipe := reqs\<rparr>)" using assms(2) by (simp add: pipe_for_def)
  have "set (pipe_for n ss') \<subseteq> set (pipe_for n ss)" using pipe_for_pop [OF assms(1), of n] p by auto
  then show ?thesis unfolding flows_def stream_pop [OF assms(1)] using assms(3-5) p by (auto simp: stream_def plain_def simp flip: append_assoc)
qed

lemma flows_clear [simp]: "flows n x ss (clear_result r ss') = flows n x ss ss'"
proof -
  have "written n (clear_result r ss') = written n ss'" by (simp add: written_def)
  then show ?thesis by (simp add: flows_def tcp_open_def stream_def plain_def pipe_for_def)
qed

lemma send_flows:
  assumes o: "tcp_open n ss" and pl: "0 \<le> pl_sz pl" and soi: "soi ss = None" and c: "ctrl_cmd (Req_send n pl) ss = Some (r, ss')"
  shows "written n ss' @ unsent (slot ss' (HASH_ID n)) = written n ss @ unsent (slot ss (HASH_ID n)) @ pl_bytes pl \<and> s_low (slot ss' (HASH_ID n)) = s_low (slot ss (HASH_ID n))"
proof -
  let ?i = "HASH_ID n"
  have s: "s_id (slot ss ?i) = n" "accepts (s_type (slot ss ?i))" "protocol (slot ss ?i) = PROTOCOL_TCP" using o by (auto simp: tcp_open_def accepts_def Let_def)
  from send_socket_sent [OF pl soi, of n True None] s obtain r1 ss1 where r1: "send_socket n pl True None ss = Some (r1, ss1)" "queued ?i True pl ss ss1"
    by (auto simp: Let_def)
  with c have e: "ss' = set_slot ?i (\<lambda>s. s\<lparr>sending := sending s - 1\<rparr>) ss1 \<or> ss' = ss1"
    by (auto simp: ctrl_cmd_def dec_sending_ref_def Let_def Option.bind_eq_Some_conv split: if_splits)
  have "written n ss1 = written n ss" "unsent (slot ss1 ?i) = unsent (slot ss ?i) @ pl_bytes pl" "s_low (slot ss1 ?i) = s_low (slot ss ?i)"
    using r1(2) by (auto simp: queued_def joined_def fresh_buffer_def unsent_def direct_rest_def split: option.splits)
  with e show ?thesis by auto
qed

lemma command_flows:
  assumes ok: "server_ok ss" and o: "tcp_open n ss" and pl: "plain n ss" and c: "poll_command ss = Some (p, ss')"
  shows "flows n [] ss ss'"
proof -
  let ?i = "HASH_ID n"
  from c obtain req reqs where pipe: "pipe ss = req # reqs" by (auto simp: poll_command_def split: list.splits)
  let ?ss0 = "ss\<lparr>pipe := reqs\<rparr>"
  from c pipe obtain r ss1 where cmd: "ctrl_cmd req ?ss0 = Some (r, ss1)" and e: "ss' = clear_result r ss1"
    by (auto simp: poll_command_def clear_result_def Option.bind_eq_Some_conv)
  have slots: "slots_ok ss" and po: "pipe_ok ss" and soi: "soi ?ss0 = None" using ok by (simp_all add: server_ok_def)
  have w0: "written k ?ss0 = written k ss" for k by (simp add: written_def)
  have o0: "tcp_open n ?ss0" using o by (simp add: tcp_open_def)
  have on: "s_id (slot ss ?i) = n" "s_type (slot ss ?i) \<noteq> T_RESERVE" "s_type (slot ss ?i) \<noteq> T_INVALID" using o by (auto simp: tcp_open_def Let_def)
  have "flows n [] ss ss1"
  proof (cases "req_id req")
    case None
    then have "req = Req_exit" by (cases req) simp_all
    then have "ss1 = ?ss0" using cmd by (simp add: ctrl_cmd_def)
    then show ?thesis using None w0 pl by (intro flows_pop [OF pipe]) simp_all
  next
    case (Some m)
    let ?k = "HASH_ID m"
    have plz: "0 \<le> pl_sz x" if "payload_of req = Some x" for x using po pipe that by (simp add: pipe_ok_def)
    have new: "s_type (slot ?ss0 ?k) = T_RESERVE \<and> s_id (slot ?ss0 ?k) = m" if "creates req" using po pipe that Some by (auto simp: pipe_ok_def)
    have sv: "served ?k (given req) ?ss0 r ss1"
      using ctrl_served [OF slots_waiting [OF slots pipe] soi Some refl plz new] cmd by auto
    have p1: "pipe ss1 = reqs" using served_pipe_same [OF sv] by simp
    show ?thesis
    proof (cases "m = n")
      case False
      have "written n ss1 = written n ss \<and> unsent (slot ss1 ?i) = unsent (slot ss ?i) \<and> s_low (slot ss1 ?i) = s_low (slot ss ?i)"
      proof (cases "s_id (slot ?ss0 ?k) = n")
        case True
        then have "\<not> creates req" "s_id (slot ?ss0 ?k) \<noteq> m" using new False by auto
        from ctrl_mismatch [OF Some this(2,1) soi plz cmd] w0 sv show ?thesis by (cases "?i = ?k") (auto simp: served_def frame_def)
      next
        case other: False
        then have "?i \<noteq> ?k" using on(1) by auto
        then show ?thesis using sv other w0 by (auto simp: served_def frame_def)
      qed
      then show ?thesis using Some False by (intro flows_pop [OF pipe p1 pl]) simp_all
    next
      case True
      have nc: "\<not> creates req" using new on(2) True by auto
      have sent: "payload_of req \<noteq> None \<Longrightarrow> \<exists>x. req = Req_send n x" using pl pipe Some True by (auto simp: plain_def pipe_for_def)
      have fin: "flows n [] ss ss1" if "kept ?i ?ss0 ss1" "payload_of req = None"
      proof (rule flows_pop [OF pipe p1 pl])
        have "sent_bytes req = []" using that(2) by (cases req) simp_all
        moreover assume "tcp_open n ss1"
        ultimately show "written n ss1 @ unsent (slot ss1 ?i) = written n ss @ unsent (slot ss ?i) @ (if req_id req = Some n then sent_bytes req else [])"
          "s_low (slot ss1 ?i) = s_low (slot ss ?i)" using that(1) w0 by (auto simp: kept_def tcp_open_def Let_def)
      qed
      have data: "live (slot ?ss0 ?i)" "data_ok (slot ?ss0 ?i)" "\<not> invalid_slot n ?ss0"
        using ok_slot [OF ok, of ?i] slot_ok_live [of "slot ss ?i"] on by (auto simp: live_def invalid_slot_def)
      show ?thesis
      proof (cases req)
        case (Req_start k x)
        then show ?thesis using fin [OF start_kept] cmd Some True by (auto simp: ctrl_cmd_def)
      next
        case (Req_close k b x)
        then have "close_socket n b x ?ss0 = Some (r, ss1)" using cmd Some True by (simp add: ctrl_cmd_def)
        from close_not_open [OF this data(3,1,2) soi] show ?thesis by (auto simp: flows_def tcp_open_def Let_def)
      next
        case (Req_send k x)
        have "ctrl_cmd (Req_send n x) ?ss0 = Some (r, ss1)" "0 \<le> pl_sz x" using cmd Req_send plz Some True by simp_all
        from send_flows [OF o0 this(2) soi this(1)] show ?thesis using Req_send Some True w0 by (intro flows_pop [OF pipe p1 pl]) simp_all
      next
        case (Req_setopt k x y)
        then have "kept ?i ?ss0 ss1" using cmd Some True by (auto simp: ctrl_cmd_def setopt_socket_def kept_def)
        then show ?thesis by (rule fin) (simp add: Req_setopt)
      next
        case (Req_setudp k x)
        then have "kept ?i ?ss0 ss1" using cmd Some True by (auto simp: ctrl_cmd_def set_udp_address_def kept_def Let_def split: if_splits)
        then show ?thesis by (rule fin) (simp add: Req_setudp)
      qed (use nc sent Some in simp_all)
    qed
  qed
  then show ?thesis by (simp add: e)
qed

section \<open>One pass of the loop\<close>

lemma flows_view:
  "slot ss1 = slot ss \<Longrightarrow> pipe ss1 = pipe ss \<Longrightarrow> calls ss1 = calls ss \<Longrightarrow> flows n x ss1 ss' = flows n x ss ss'"
  "slot ss1 = slot ss \<Longrightarrow> pipe ss1 = pipe ss \<Longrightarrow> plain n ss1 = plain n ss"
  "slot ss1 = slot ss \<Longrightarrow> tcp_open n ss1 = tcp_open n ss"
  by (simp_all add: flows_def stream_def plain_def tcp_open_def pipe_for_def written_def)

lemma next_event_flows:
  assumes ok: "server_ok ss" and i: "event_index ss < length (ev ss)" and o: "tcp_open n ss" and pl: "plain n ss"
    and d: "dispatch_event (ev ss ! event_index ss) (ss\<lparr>event_index := event_index ss + 1\<rparr>) = Some (p, ss')"
  shows "flows n [] ss ss'"
proof -
  let ?e = "ev ss ! event_index ss" and ?ss1 = "ss\<lparr>event_index := event_index ss + 1\<rparr>"
  have dr: "drop (event_index ss) (ev ss) = ?e # drop (event_index ss + 1) (ev ss)" using i by (simp add: Cons_nth_drop_Suc)
  have ev: "events_ok ss" using ok by (simp add: server_ok_def)
  then have "events_ok ?ss1" unfolding events_ok_def Let_def dr by (auto simp: List.map_filter_simps split: option.splits)
  then have ok1: "server_ok ?ss1" using ok by (simp add: server_ok_def slots_ok_def pipe_for_def pipe_ok_def reads_ok_def)
  have "epoll ?ss1 k \<noteq> None" if "e_s ?e = Some k" for k
    using ev that unfolding events_ok_def Let_def dr by (auto simp: List.map_filter_simps)
  from dispatch_flows [where n = n, OF ok1 _ _ this d] o pl show ?thesis using flows_view [of ?ss1 ss n] by simp
qed

lemma poll_pass_flows:
  assumes ok: "server_ok ss" and o: "tcp_open n ss" and pl: "plain n ss" and c: "poll_pass mr ss = Some (p, mr', ss')"
  shows "flows n [] ss ss'"
proof (cases "checkctrl ss \<and> pipe ss \<noteq> []")
  case True
  then show ?thesis using command_flows [OF ok o pl] c by (auto simp: poll_pass_def)
next
  case False
  let ?ss = "ss\<lparr>checkctrl := False\<rparr>"
  have pass: "poll_events mr ?ss = Some (p, mr', ss')" using False c by (auto simp: poll_pass_def)
  have ok0: "server_ok ?ss" by (rule check_ok(1) [OF ok])
  have v0: "tcp_open n ?ss" "plain n ?ss" "flows n x ?ss s' = flows n x ss s'" for x s' using o pl flows_view [of ?ss ss n] by simp_all
  show ?thesis
  proof (cases "event_index ss < length (ev ss)")
    case True
    then have i: "event_index ?ss < length (ev ?ss)" by simp
    have "dispatch_event (ev ?ss ! event_index ?ss) (?ss\<lparr>event_index := event_index ?ss + 1\<rparr>) = Some (p, ss')"
      using pass True by (auto simp: poll_events_def Option.bind_eq_Some_conv)
    from next_event_flows [OF ok0 i v0(1,2) this] show ?thesis by (simp add: v0(3))
  next
    case False
    obtain r ss1 where w: "sp_wait ?ss = (r, ss1)" by fastforce
    note wo = waited_ok [OF ok0 w]
    have s: "slot ss1 = slot ?ss" "pipe ss1 = pipe ?ss" "calls ss1 = calls ?ss" by (subst wo(1), simp)+
    have v1: "tcp_open n (ss1\<lparr>ev := es, event_index := k, checkctrl := b\<rparr>)" "plain n (ss1\<lparr>ev := es, event_index := k, checkctrl := b\<rparr>)"
      "flows n x (ss1\<lparr>ev := es, event_index := k, checkctrl := b\<rparr>) s' = flows n x ss s'" for es k b x s'
      using flows_view [of "ss1\<lparr>ev := es, event_index := k, checkctrl := b\<rparr>" ss n] o pl s by simp_all
    have idle: "flows n [] ss (ss1\<lparr>ev := es, event_index := k, checkctrl := b\<rparr>)" for es k b
      using flows_refl [OF v1(2)] v1(3) by blast
    show ?thesis
    proof (cases r)
      case (Inl e)
      then have "ss' = ss1\<lparr>ev := [], event_index := 0, checkctrl := True\<rparr>" using pass False w by (simp add: poll_events_def split: if_splits)
      then show ?thesis using idle by simp
    next
      case (Inr es)
      let ?ss2 = "ss1\<lparr>ev := es, event_index := 0, checkctrl := True\<rparr>"
      have ok2: "server_ok ?ss2" by (rule wo(3) [OF Inr])
      show ?thesis
      proof (cases es)
        case Nil
        then have "ss' = ?ss2" using pass False w Inr by (simp add: poll_events_def)
        then show ?thesis using idle by simp
      next
        case (Cons e es')
        have "dispatch_event (ev ?ss2 ! event_index ?ss2) (?ss2\<lparr>event_index := event_index ?ss2 + 1\<rparr>) = Some (p, ss')"
          using pass False w Inr Cons by (auto simp: poll_events_def Option.bind_eq_Some_conv)
        from next_event_flows [OF ok2 _ v1(1,2) this] Cons show ?thesis by (simp add: v1(3))
      qed
    qed
  qed
qed

section \<open>The calls of the other threads\<close>

lemma flows_request:
  assumes "pipe ss' = pipe ss @ [r]" "plain n ss" "written n ss' = written n ss"
    and "unsent (slot ss' (HASH_ID n)) = unsent (slot ss (HASH_ID n))" "s_low (slot ss' (HASH_ID n)) = s_low (slot ss (HASH_ID n))"
    and "payload_of r \<noteq> None \<longrightarrow> req_id r = Some n \<longrightarrow> (\<exists>pl. r = Req_send n pl)"
  shows "flows n (if req_id r = Some n then sent_bytes r else []) ss ss'"
  using assms(2-6) pipe_for_append [OF assms(1), of n] by (auto simp: flows_def stream_def plain_def)

lemma flows_send_request:
  assumes "plain n ss" "payload_of r = None \<or> req_id r \<noteq> Some n"
  shows "flows n [] ss (send_request r ss)"
proof -
  have e: "(if req_id r = Some n then sent_bytes r else []) = []" using assms(2) by (cases r) auto
  have "flows n (if req_id r = Some n then sent_bytes r else []) ss (send_request r ss)"
    using assms by (intro flows_request) (auto simp: send_request_def written_def)
  then show ?thesis by (simp only: e)
qed

lemma flows_new_id:
  assumes o: "tcp_open n ss" and pl: "plain n ss" and s: "reserve_id ss = (sid, ss1)"
  shows "flows n [] ss ss1" "flows n [] ss (log_call (Close fd) ss1)"
    "0 \<le> sid \<Longrightarrow> req_id r = Some sid \<Longrightarrow> flows n [] ss (send_request r ss1)"
proof -
  note ro = reserve_other [OF s]
  have inv: "s_type (slot ss (HASH_ID n)) \<noteq> T_INVALID" using o by (auto simp: tcp_open_def Let_def)
  have sl: "slot ss1 (HASH_ID n) = slot ss (HASH_ID n)" "slot ss1 (HASH_ID n) = slot ss (HASH_ID n)" by (rule ro(3) [OF inv])+
  show f: "flows n [] ss ss1" using ro(1,2) sl pl by (intro flows_other) simp_all
  show "flows n [] ss (log_call (Close fd) ss1)" using ro(1,2) sl pl by (intro flows_other) simp_all
  assume sid: "0 \<le> sid" "req_id r = Some sid"
  then have ne: "sid \<noteq> n" using ro(4) inv by auto
  have "flows n (if req_id r = Some n then sent_bytes r else []) ss (send_request r ss1)"
    using ro(1,2) sl pl sid ne by (intro flows_request) (simp_all add: send_request_def written_def)
  then show "flows n [] ss (send_request r ss1)" using sid ne by simp
qed

lemma inc_sending_same:
  "inc_sending_ref m ss = Some ss1 \<Longrightarrow> written n ss1 = written n ss \<and> pipe ss1 = pipe ss \<and> unsent (slot ss1 i) = unsent (slot ss i) \<and> s_low (slot ss1 i) = s_low (slot ss i)"
  by (auto simp: inc_sending_ref_def Let_def split: if_splits)

lemma flows_counted:
  assumes pl: "plain n ss" and c: "inc_sending_ref m ss = Some ss1" and r: "req_id r = Some m" "m \<noteq> n \<or> (\<exists>x. r = Req_send n x)"
  shows "flows n (if m = n then sent_bytes r else []) ss (send_request r ss1)"
proof -
  have "flows n (if req_id r = Some n then sent_bytes r else []) ss (send_request r ss1)"
    using inc_sending_same [OF c] pl r by (intro flows_request) (auto simp: send_request_def written_def)
  then show ?thesis by (simp add: r(1))
qed

lemma flows_free: "plain n ss \<Longrightarrow> flows n [] ss (free_func p b ss)"
  by (rule flows_other) (simp_all add: free_func_def)

lemma flows_free_buffer: "plain n ss \<Longrightarrow> 0 \<le> pl_sz pl \<Longrightarrow> free_buffer pl ss = Some ss' \<Longrightarrow> flows n [] ss ss'"
  using flows_free by (auto simp: free_buffer_def Option.bind_eq_Some_conv)

text \<open>A direct write begins a stream that has nothing else to write.\<close>

lemma flows_direct:
  assumes ok: "server_ok ss" and o: "tcp_open n ss" and p: "plain n ss" and pl: "0 \<le> pl_sz pl" and d: "direct_sent (HASH_ID m) k pl ss ss'"
    and c: "can_direct_write (slot ss (HASH_ID m)) m"
  shows "flows n (if m = n then pl_bytes pl else []) ss ss'"
proof -
  let ?i = "HASH_ID n"
  have id: "s_id (slot ss (HASH_ID m)) = m" using c by (simp add: can_direct_write_def)
  have f: "frame (HASH_ID m) ss ss'" "pipe ss' = pipe ss" "written n ss' = written n ss @ (if n = m then take k (pl_bytes pl) else [])" "k \<le> length (pl_bytes pl)"
    using d id by (auto simp: direct_sent_def frame_def)
  show ?thesis
  proof (cases "m = n")
    case False
    then have "?i \<noteq> HASH_ID m" using id o by (auto simp: tcp_open_def Let_def)
    with False f p show ?thesis by (auto simp: frame_def intro!: flows_other)
  next
    case True
    let ?s = "slot ss ?i"
    have s: "s_high ?s = []" "s_low ?s = []" "dw_buffer ?s = None" "low_half (sending ?s) = 0" "live ?s" "s_id ?s = n" "protocol ?s = PROTOCOL_TCP"
      using c True o by (auto simp: can_direct_write_def nomore_sending_data_def send_buffer_empty_def low_half_0 live_def tcp_open_def Let_def)
    have "sends (pipe_for n ss) = 0" using ok_slot [OF ok, of ?i] s(4,6,7) unfolding slot_ok_live [OF s(5)] by simp
    then have "\<forall>r\<in>set (pipe_for n ss). \<not> counted r" by (simp add: sends_def filter_empty_conv)
    then have none: "\<forall>r\<in>set (pipe_for n ss). sent_bytes r = []"
    proof (intro ballI)
      fix r assume "\<forall>r\<in>set (pipe_for n ss). \<not> counted r" "r \<in> set (pipe_for n ss)"
      then show "sent_bytes r = []" by (cases r) auto
    qed
    have u: "unsent (slot ss ?i) = []" "concat (map sent_bytes (pipe_for n ss)) = []" using s(1,3) none by (simp_all add: unsent_def direct_rest_def)
    have "unsent (slot ss' ?i) = drop k (pl_bytes pl) \<and> s_low (slot ss' ?i) = []"
      using d True s(1-3) f(4) unfolding direct_sent_def by (auto simp: unsent_def direct_rest_def split: if_splits)
    moreover have "pipe_for n ss' = pipe_for n ss" using f(2) by (simp add: pipe_for_def)
    ultimately show ?thesis using f(3) True p s(2) by (simp add: flows_def stream_def plain_def u)
  qed
qed

lemma flows_trylock: "socket_trylock ss = (b, ss1) \<Longrightarrow> flows n x ss1 ss' = flows n x ss ss' \<and> tcp_open n ss1 = tcp_open n ss \<and> plain n ss1 = plain n ss"
proof -
  assume "socket_trylock ss = (b, ss1)"
  then have "\<exists>as. ss1 = ss\<lparr>answers := (answers ss)\<lparr>a_trylock := as\<rparr>\<rparr>" by (auto simp: socket_trylock_def split: prod.splits)
  then have "slot ss1 = slot ss" "pipe ss1 = pipe ss" "calls ss1 = calls ss" by auto
  from flows_view(1) [OF this] flows_view(2) [OF this(1,2)] flows_view(3) [OF this(1)] show ?thesis by blast
qed

lemma send_call_flows:
  assumes ok: "server_ok ss" and o: "tcp_open n ss" and p: "plain n ss" and pl: "0 \<le> pl_sz pl"
    and udp: "can_direct_write (slot ss (HASH_ID m)) m \<longrightarrow> protocol (slot ss (HASH_ID m)) = PROTOCOL_TCP"
    and c: "socket_server_send m pl ss = Some (k, ss')"
  shows "flows n (if m = n then pl_bytes pl else []) ss ss'"
proof (cases "invalid_slot m ss")
  case True
  then have "m \<noteq> n" using o by (auto simp: invalid_slot_def tcp_open_def Let_def)
  moreover have "\<exists>ss1. free_buffer pl ss = Some ss1 \<and> ss' = ss1" using c True by (auto simp: socket_server_send_def send_front_def finish_send_def)
  ultimately show ?thesis using flows_free_buffer [OF p pl] by auto
next
  case False
  have queue: "flows n (if m = n then pl_bytes pl else []) ss0 (snd (finish_send x))"
    if "(do { ss \<leftarrow> inc_sending_ref m ss0; Some (Inr (Req_send m pl), ss) }) = Some x" "plain n ss0" for x ss0
  proof -
    from that(1) obtain ss1 where i: "inc_sending_ref m ss0 = Some ss1" "x = (Inr (Req_send m pl), ss1)" by (auto simp: Option.bind_eq_Some_conv)
    have "flows n (if m = n then sent_bytes (Req_send m pl) else []) ss0 (send_request (Req_send m pl) ss1)"
      by (rule flows_counted [OF that(2) i(1)]) auto
    then show ?thesis by (cases "m = n") (simp_all add: i(2) finish_send_def)
  qed
  show ?thesis
  proof (cases "can_direct_write (slot ss (HASH_ID m)) m")
    case no: False
    from c False no obtain x where "(do { ss \<leftarrow> inc_sending_ref m ss; Some (Inr (Req_send m pl), ss) }) = Some x" "ss' = snd (finish_send x)"
      by (auto simp: socket_server_send_def send_front_def)
    with queue p show ?thesis by blast
  next
    case True
    obtain b ss1 where b: "socket_trylock ss = (b, ss1)" by fastforce
    note t = trylock_ok [OF ok b] flows_trylock [OF b, of n]
    show ?thesis
    proof (cases b)
      case unlocked: False
      from c False True b unlocked obtain x where x: "(do { ss \<leftarrow> inc_sending_ref m ss1; Some (Inr (Req_send m pl), ss) }) = Some x" "ss' = snd (finish_send x)"
        by (auto simp: socket_server_send_def send_front_def)
      have "plain n ss1" using t p by blast
      from queue [OF x(1) this] x(2) t show ?thesis by blast
    next
      case locked: True
      have q: "protocol (slot ss1 (HASH_ID m)) = PROTOCOL_TCP" "can_direct_write (slot ss1 (HASH_ID m)) m" using udp True t(3) by simp_all
      from direct_write_sent [OF pl q(1)] obtain j ss2 where w: "direct_write m pl ss1 = Some (0, ss2)" "direct_sent (HASH_ID m) j pl ss1 ss2" by blast
      have e: "ss' = ss2" using c False True b locked w(1) by (simp add: socket_server_send_def send_front_def finish_send_def)
      have v: "tcp_open n ss1" "plain n ss1" using t o p by blast+
      from flows_direct [OF t(1) v pl w(2) q(2)] t show ?thesis unfolding e by blast
    qed
  qed
qed

lemma send_low_call_flows:
  assumes p: "plain n ss" and pl: "0 \<le> pl_sz pl" and m: "m \<noteq> n" and c: "socket_server_send_lowpriority m pl ss = Some (k, ss')"
  shows "flows n [] ss ss'"
proof (cases "invalid_slot m ss")
  case True
  then show ?thesis using c flows_free_buffer [OF p pl] by (auto simp: socket_server_send_lowpriority_def send_low_front_def finish_send_def)
next
  case False
  then obtain ss1 where i: "inc_sending_ref m ss = Some ss1" "ss' = send_request (Req_send_low m pl) ss1"
    using c by (auto simp: socket_server_send_lowpriority_def send_low_front_def finish_send_def Option.bind_eq_Some_conv)
  have "flows n (if m = n then sent_bytes (Req_send_low m pl) else []) ss (send_request (Req_send_low m pl) ss1)"
    by (rule flows_counted [OF p i(1)]) (use m in auto)
  then show ?thesis using m by (simp add: i(2))
qed

lemma stat_write_unsent [simp]:
  "unsent (slot (stat_write k x ss) i) = unsent (slot ss i)" "s_low (slot (stat_write k x ss) i) = s_low (slot ss i)" "pipe (stat_write k x ss) = pipe ss"
  by (simp_all add: stat_write_def)

lemma udp_send_call_flows:
  assumes p: "plain n ss" and pl: "0 \<le> pl_sz pl" and m: "m \<noteq> n" and c: "socket_server_udp_send m address pl ss = Some (k, ss')"
  shows "flows n [] ss ss'"
proof (cases "invalid_slot m ss \<or> udp_address_size address = None")
  case True
  then have "free_buffer pl ss = Some ss'" using c True by (cases "free_buffer pl ss"; cases "invalid_slot m ss") (simp_all add: socket_server_udp_send_def)
  then show ?thesis by (rule flows_free_buffer [OF p pl])
next
  case False
  then obtain size where v: "\<not> invalid_slot m ss" "udp_address_size address = Some size" by auto
  let ?k = "HASH_ID m"
  let ?r = "Req_send_udp m pl (take size address)"
  obtain direct ss1 where d: "(if can_direct_write (slot ss ?k) m then socket_trylock ss else (False, ss)) = (direct, ss1)" by fastforce
  have t: "plain n ss1" "flows n [] ss1 s' = flows n [] ss s'" for s'
    using d flows_trylock [of ss] p by (auto split: if_splits)
  have request: "flows n [] ss1 (send_request ?r ss2)"
    if "written n ss2 = written n ss1" "slot ss2 = slot ss1" "pipe ss2 = pipe ss1" for ss2
  proof -
    have "flows n (if req_id ?r = Some n then sent_bytes ?r else []) ss1 (send_request ?r ss2)"
      using that t(1) m by (intro flows_request) (simp_all add: send_request_def written_def)
    then show ?thesis by (simp only: req_id.simps option.inject m if_False)
  qed
  have "flows n [] ss1 ss'"
  proof (cases direct)
    case no: False
    then have "ss' = send_request ?r ss1" using c v d by (simp add: socket_server_udp_send_def Let_def)
    then show ?thesis using request by simp
  next
    case True
    have init: "send_object_init ss1 pl = Some (pl_buffer pl, pl_bytes pl, False)" using pl by (simp add: send_object_init_def)
    show ?thesis
    proof (cases "udp_socket_address (slot ss1 ?k) address")
      case None
      then have "ss' = free_func (pl_buffer pl) False ss1" using c v d True init by (simp add: socket_server_udp_send_def Let_def)
      then show ?thesis using flows_free [OF t(1)] by simp
    next
      case (Some sa)
      obtain r ss2 where r: "sys_sendto ?k sa (pl_bytes pl) ss1 = (r, ss2)" by fastforce
      note st = sys_sendto_facts [OF r]
      have "ss' = (case r of Inr x \<Rightarrow> free_func (pl_buffer pl) False (stat_write ?k x ss2) | Inl e \<Rightarrow> send_request ?r ss2)"
        using c v d True init Some r by (simp add: socket_server_udp_send_def Let_def split: sum.splits)
      moreover have "flows n [] ss1 (free_func (pl_buffer pl) False (stat_write ?k x ss2))" for x
        using st t(1) by (intro flows_same_pipe) (auto simp: frame_def free_func_def)
      ultimately show ?thesis using request [of ss2] st by (cases r) (auto simp: frame_def)
    qed
  qed
  then show ?thesis by (simp add: t(2))
qed

lemma udp_connect_flows:
  assumes p: "plain n ss"
  shows "flows n [] ss (snd (socket_server_udp_connect m peer ss))"
proof -
  let ?ss1 = "set_slot (HASH_ID m) (\<lambda>s. s\<lparr>udpconnecting := udpconnecting s + 1\<rparr>) ss"
  have f: "flows n [] ss ?ss1" using p by (intro flows_same_pipe) simp_all
  have "flows n [] ss (send_request (Req_setudp m a) ?ss1)" for a
  proof -
    have "flows n (if req_id (Req_setudp m a) = Some n then sent_bytes (Req_setudp m a) else []) ss (send_request (Req_setudp m a) ?ss1)"
      using p by (intro flows_request) (simp_all add: send_request_def written_def)
    then show ?thesis by (simp only: sent_bytes.simps if_cancel)
  qed
  then show ?thesis using f flows_refl [OF p] by (auto simp: socket_server_udp_connect_def Let_def split: option.split)
qed

text \<open>What an action sends to a connection, and the actions that have no place in its stream.\<close>

definition sends_to :: "int \<Rightarrow> action \<Rightarrow> u8 list" where
  "sends_to n a = (case a of A_send m pl \<Rightarrow> if m = n then pl_bytes pl else [] | _ \<Rightarrow> [])"

definition in_order :: "int \<Rightarrow> action \<Rightarrow> bool" where
  "in_order n a \<longleftrightarrow> (case a of A_send_low m pl \<Rightarrow> m \<noteq> n | A_udp_send m address pl \<Rightarrow> m \<noteq> n | _ \<Rightarrow> True)"

lemma act_flows:
  assumes ok: "server_ok ss" and a: "act_ok a ss" and o: "tcp_open n ss" and p: "plain n ss" and i: "in_order n a" and c: "act a ss = Some ss'"
  shows "flows n (sends_to n a) ss ss'"
proof (cases a)
  case A_poll
  then show ?thesis using c poll_pass_flows [OF ok o p] by (auto simp: act_def sends_to_def)
next
  case (A_time t)
  then have "ss' = ss\<lparr>ss_time := t\<rparr>" using c by (simp add: act_def socket_server_updatetime_def)
  then show ?thesis using A_time p by (auto simp: sends_to_def written_def intro!: flows_other)
next
  case (A_connect opaque addr port)
  obtain sid ss1 where s: "reserve_id ss = (sid, ss1)" by fastforce
  note flows_new_id(1,2) [OF o p s] and flows_new_id(3) [OF o p s, of "Req_open sid port opaque (c_str addr)"] flows_refl [OF p]
  then show ?thesis using A_connect s c by (auto simp: act_def sends_to_def socket_server_connect_def not_less split: if_splits)
next
  case (A_listen fd opaque)
  obtain sid ss1 where s: "reserve_id ss = (sid, ss1)" by fastforce
  note flows_new_id(1,2) [OF o p s] and flows_new_id(3) [OF o p s, of "Req_listen sid (the fd) opaque"] flows_refl [OF p]
  then show ?thesis using A_listen s c by (cases fd) (auto simp: act_def sends_to_def socket_server_listen_def not_less split: if_splits)
next
  case (A_bind fd opaque)
  obtain sid ss1 where s: "reserve_id ss = (sid, ss1)" by fastforce
  note flows_new_id(1,2) [OF o p s] and flows_new_id(3) [OF o p s, of "Req_bind sid fd opaque"]
  then show ?thesis using A_bind s c by (auto simp: act_def sends_to_def socket_server_bind_def not_less split: if_splits)
next
  case (A_udp fd opaque)
  obtain sid ss1 where s: "reserve_id ss = (sid, ss1)" by fastforce
  note flows_new_id(1,2) [OF o p s] and flows_new_id(3) [OF o p s, of "Req_udp sid (fst (the fd)) (snd (the fd)) opaque"] flows_refl [OF p]
  then show ?thesis using A_udp s c by (cases fd) (auto simp: act_def sends_to_def socket_server_udp_def not_less split: if_splits)
next
  case (A_send m pl)
  then obtain k where "socket_server_send m pl ss = Some (k, ss')" using c by (auto simp: act_def)
  with A_send a send_call_flows [OF ok o p, of pl m k ss'] show ?thesis by (simp add: act_ok_def sends_to_def)
next
  case (A_send_low m pl)
  then obtain k where "socket_server_send_lowpriority m pl ss = Some (k, ss')" using c by (auto simp: act_def)
  with A_send_low a i send_low_call_flows [OF p, of pl m k ss'] show ?thesis by (simp add: act_ok_def sends_to_def in_order_def)
next
  case (A_udp_send m address pl)
  then obtain k where "socket_server_udp_send m address pl ss = Some (k, ss')" using c by (auto simp: act_def)
  with A_udp_send a i udp_send_call_flows [OF p, of pl m address k ss'] show ?thesis by (simp add: act_ok_def sends_to_def in_order_def)
next
  case (A_udp_connect m peer)
  then show ?thesis using c udp_connect_flows [OF p, of m peer] by (simp add: act_def sends_to_def)
qed (use c flows_send_request [OF p] in \<open>auto simp: act_def sends_to_def socket_server_close_def socket_server_shutdown_def socket_server_start_def
    socket_server_nodelay_def socket_server_exit_def\<close>)

section \<open>Runs\<close>

text \<open>The connection is open in every state of a run.\<close>

fun stays_open :: "int \<Rightarrow> action list \<Rightarrow> socket_server \<Rightarrow> bool" where
  "stays_open n [] ss = tcp_open n ss"
| "stays_open n (a # acts) ss = (tcp_open n ss \<and> (case act a ss of None \<Rightarrow> False | Some ss \<Rightarrow> stays_open n acts ss))"

lemma run_flows:
  assumes "server_ok ss" "acts_ok acts ss" "plain n ss" "stays_open n acts ss" "\<forall>a\<in>set acts. in_order n a"
  shows "\<exists>ss'. run acts ss = Some ss' \<and> server_ok ss' \<and> plain n ss' \<and> stream n ss' = stream n ss @ concat (map (sends_to n) acts)"
  using assms
proof (induction acts arbitrary: ss)
  case (Cons a acts)
  from Cons(3,5) act_served [OF Cons(2), of a] obtain ss1 where a: "act a ss = Some ss1" "server_ok ss1" "acts_ok acts ss1" "stays_open n acts ss1" "tcp_open n ss"
    by (auto split: option.splits)
  have "tcp_open n ss1" using a(4) by (cases acts) simp_all
  moreover have "flows n (sends_to n a) ss ss1" using act_flows [OF Cons(2) _ a(5) Cons(4) _ a(1)] Cons(3,6) by simp
  ultimately have f: "stream n ss1 = stream n ss @ sends_to n a" "plain n ss1" by (simp_all add: flows_def)
  from Cons(1) [OF a(2,3) f(2) a(4)] Cons(6) f(1) a(1) show ?case by auto
qed simp

lemma acts_ok_append: "acts_ok (pre @ acts) ss0 \<Longrightarrow> run pre ss0 = Some ss \<Longrightarrow> acts_ok pre ss0 \<and> acts_ok acts ss"
  by (induction pre arbitrary: ss0) (auto simp: Option.bind_eq_Some_conv)

text \<open>
  (C9) Take any run of a new server, and then any actions during which a TCP connection is open: what is written to the connection, followed by
  what its socket has in its lists and by what is in the pipe for it, is what it was before with the data of the calls of \<^verbatim>\<open>socket_server_send\<close>
  for it at the end, in the order of the calls. So a direct write by the caller, partial writes, interrupts, a buffer left by a direct write and the
  traffic of all other sockets never lose, double or reorder a byte. The kernel answers as it likes; the connection has had no message of low priority
  and no datagram, and gets none.
\<close>

theorem socket_writes_in_order:
  assumes "\<forall>r\<in>set (a_read as). \<forall>bs. r = Inr bs \<longrightarrow> length bs < 2 ^ 30"
    and "acts_ok (pre @ acts) (socket_server_create memory as time)" "run pre (socket_server_create memory as time) = Some ss"
    and "plain n ss" "stays_open n acts ss" "\<forall>a\<in>set acts. in_order n a"
  shows "\<exists>ss'. run acts ss = Some ss' \<and> stream n ss' = stream n ss @ concat (map (sends_to n) acts)"
proof -
  note a = acts_ok_append [OF assms(2,3)]
  have "server_ok ss" using run_served [OF server_create_ok(1) [OF assms(1)]] a assms(3) by fastforce
  from run_flows [OF this _ assms(4-6)] a show ?thesis by blast
qed

theorem socket_writes_in_order_witness:
  "\<exists>ss ss'. run connecting (socket_server_create (\<lambda>i. no_socket) script 0) = Some ss \<and> run sending_both ss = Some ss' \<and>
     stream 1 ss' = stream 1 ss @ [1, 2, 3, 4, 5] \<and> written 1 ss' = [1, 2, 3, 4, 5]"
proof -
  let ?ss0 = "socket_server_create (\<lambda>i. no_socket) script 0"
  have "case run connecting ?ss0 of None \<Rightarrow> False | Some ss \<Rightarrow> plain 1 ss \<and> stays_open 1 sending_both ss \<and>
      (case run sending_both ss of None \<Rightarrow> False | Some ss \<Rightarrow> written 1 ss = [1, 2, 3, 4, 5])"
    by (simp add: run_defs plain_def tcp_open_def written_def)
  then obtain ss where ss: "run connecting ?ss0 = Some ss" "plain 1 ss" "stays_open 1 sending_both ss"
    "run sending_both ss = Some ss' \<Longrightarrow> written 1 ss' = [1, 2, 3, 4, 5]" for ss'
    by (auto split: option.splits)
  have "\<forall>r\<in>set (a_read script). \<forall>bs. r = Inr bs \<longrightarrow> length bs < 2 ^ 30" by (simp add: script_def)
  moreover have "acts_ok (connecting @ sending_both) ?ss0" by (simp add: run_defs)
  moreover have "\<forall>a\<in>set sending_both. in_order 1 a" "concat (map (sends_to 1) sending_both) = [1, 2, 3, 4, 5]"
    by (simp_all add: sending_both_def in_order_def sends_to_def data1_def data2_def)
  ultimately show ?thesis using socket_writes_in_order [of script connecting sending_both "\<lambda>i. no_socket" 0 ss 1] ss by auto
qed

end
