(* ===== verification/Spec2Isabelle.thy ===== *)
theory Spec2Isabelle
  imports Scheduler Locks GateTable Serving HarborWire NetpackWire DiffieHellman TextCodecs SeriSafe ClusterWire SocketStream
begin

text \<open>
  A model of the C core of the game server, the skynet framework under \<^verbatim>\<open>src/server/src/gg/skynet\<close>, and the theorems that make
  it correct. Paths below are relative to that directory.

  \<^bold>\<open>The program.\<close> A node runs many services. A service has a context with a 32-bit handle and a queue of messages;
  worker threads take queues from a global queue, serve a share of each and put it back. A service sends by handle or by
  name, sets timers, and gives text commands to the node. The socket thread turns the kernel's events into messages: to the
  gate service, which cuts the bytes of its clients into frames for the agents, to the Lua gate with its
  packets, and to the harbor service, which joins the nodes into one system. The Lua code calls C libraries to cut packets
  and to encrypt the login.

  \<^bold>\<open>How the code is modelled.\<close> Every function is a HOL function or, where threads interleave inside it, a step
  relation. The monad of the model is the option type: None is a failed \<^verbatim>\<open>assert\<close>, a null pointer dereferenced, an access outside
  an object, a signed overflow, or a loop that never returns; so a theorem that says that a result is
  Some says that none of these happens. Integers have the width of the code: words for unsigned ones, integers with an explicit test
  for signed ones. Objects that the code shares by pointer are in maps from addresses, objects with one owner are
  values; a linked list with one owner is a list. Code outside the model is an argument: what a service does is the record \<^verbatim>\<open>sv\<close> of the node,
  the bytes of the network and the answers of other services are events, and what a service asks of
  the rest is a list of actions in order. A Lua error is the left value of a sum.

  \<^bold>\<open>Theories.\<close>
  \<^item> \<^verbatim>\<open>Prelude\<close>, \<^verbatim>\<open>Ring\<close>, \<^verbatim>\<open>Framing\<close>, \<^verbatim>\<open>Cstring\<close>, \<^verbatim>\<open>Message\<close>: the monad, the contracts that several components share (the locales \<^verbatim>\<open>fifo\<close>,
    \<^verbatim>\<open>bounded_fifo\<close>, \<^verbatim>\<open>stream_decoder\<close>, \<^verbatim>\<open>framing\<close>), circular arrays, streams of packets with their length in front, the string
    functions of the C library, messages.
  \<^item> \<^verbatim>\<open>MessageQueue\<close>, \<^verbatim>\<open>GlobalQueue\<close>, \<^verbatim>\<open>Scheduler\<close>: \<^verbatim>\<open>skynet-src/skynet_mq.c\<close> function by function, the queues as lists,
    and all interleavings of the worker threads as the relation \<^verbatim>\<open>sched_step\<close> with its invariant: a queue is in the hands of at most
    one thread, no queue with a message is forgotten, and every call that a thread is ready for succeeds: no assertion fails.
  \<^item> \<^verbatim>\<open>Locks\<close>: \<^verbatim>\<open>rwlock.h\<close> and \<^verbatim>\<open>spinlock.h\<close> instruction by instruction; mutual exclusion.
  \<^item> \<^verbatim>\<open>Handle\<close>, \<^verbatim>\<open>Registry\<close>: \<^verbatim>\<open>skynet_handle.c\<close>; the table of handles is a finite map, the exact condition under which
    registration fails, the sorted table of names.
  \<^item> \<^verbatim>\<open>Timer\<close>: \<^verbatim>\<open>skynet_timer.c\<close>; the wheel refines a bag of countdowns, every timeout fires at its tick, for all 2^32 values of the
    counter and through its wrap.
  \<^item> \<^verbatim>\<open>Node\<close>, \<^verbatim>\<open>Server\<close>, \<^verbatim>\<open>Dispatch\<close>, \<^verbatim>\<open>Command\<close>: the state of a node and \<^verbatim>\<open>skynet_server.c\<close>, \<^verbatim>\<open>skynet_module.c\<close>, \<^verbatim>\<open>skynet_env.c\<close>,
    \<^verbatim>\<open>skynet_monitor.c\<close>, \<^verbatim>\<open>skynet_harbor.c\<close>, \<^verbatim>\<open>skynet_log.c\<close>, \<^verbatim>\<open>skynet_error.c\<close>; \<^verbatim>\<open>Sending\<close> and \<^verbatim>\<open>Serving\<close> prove what a sender and
    a worker can rely on.
  \<^item> \<^verbatim>\<open>Databuffer\<close>, \<^verbatim>\<open>Hashid\<close>, \<^verbatim>\<open>Gate\<close>, \<^verbatim>\<open>GateFrames\<close>, \<^verbatim>\<open>GateTable\<close>: \<^verbatim>\<open>service-src/databuffer.h\<close>, \<^verbatim>\<open>hashid.h\<close> and
    \<^verbatim>\<open>service_gate.c\<close>; the buffer is a byte string, the index a finite injective map (locale \<^verbatim>\<open>idmap\<close>), the framing is the decoding of the stream
    however it was cut (for the header of 2 bytes), the table of connections is a finite map.
  \<^item> \<^verbatim>\<open>HarborQueue\<close>, \<^verbatim>\<open>Harbor\<close>, \<^verbatim>\<open>HarborWire\<close>: \<^verbatim>\<open>service_harbor.c\<close>; what one harbor sends the other delivers, messages
    held back keep their order, and the two ways in which messages go astray.
  \<^item> \<^verbatim>\<open>Netpack\<close>, \<^verbatim>\<open>NetpackWire\<close>: \<^verbatim>\<open>lualib-src/lua-netpack.c\<close>; packets come back whatever the cuts, every operation keeps the state
    well-formed.
  \<^item> \<^verbatim>\<open>Des\<close>, \<^verbatim>\<open>Crypt\<close>, \<^verbatim>\<open>DiffieHellman\<close>, \<^verbatim>\<open>TextCodecs\<close>: \<^verbatim>\<open>lualib-src/lua-crypt.c\<close>, what the login encrypts with: the DES cipher (decoding undoes
    encoding), the hashes and text codecs (read back as written below 1 GB), and the key exchange (both sides get the same secret).
  \<^item> \<^verbatim>\<open>Seri\<close>, \<^verbatim>\<open>SeriPack\<close>, \<^verbatim>\<open>SeriTrip\<close>, \<^verbatim>\<open>SeriSafe\<close>: \<^verbatim>\<open>lualib-src/lua-seri.c\<close>, the messages of Lua values; the chain of blocks holds the bytes of a
    reference encoding, values come out with the same contents, and on arbitrary bytes the unpacker gives values or an error.
  \<^item> \<^verbatim>\<open>Cluster\<close>, \<^verbatim>\<open>ClusterWire\<close>: \<^verbatim>\<open>lualib-src/lua-cluster.c\<close>, the requests between nodes, and the part of \<^verbatim>\<open>service/clusteragent.lua\<close> that joins
    them; every message is dispatched once and whole however its packages are cut and mixed, and its response comes back.
  \<^item> \<^verbatim>\<open>SocketServer\<close>, \<^verbatim>\<open>SocketOps\<close>, \<^verbatim>\<open>SocketPoll\<close>: \<^verbatim>\<open>skynet-src/socket_server.c\<close> with \<^verbatim>\<open>socket_epoll.h\<close>, the socket thread: the table of sockets,
    what it does with a request, an event and data to send, the loop of \<^verbatim>\<open>socket_server_poll\<close>, and the functions for the other threads. The kernel is a script
    of answers, the calls are logged. \<^verbatim>\<open>SocketInv\<close> to \<^verbatim>\<open>SocketCalls\<close> carry the invariant \<^verbatim>\<open>server_ok\<close> and the balance of buffers through each operation.
    \<^verbatim>\<open>SocketThread\<close>: in every run no assertion about a socket fails and every buffer is freed once; \<^verbatim>\<open>SocketStream\<close>: what is written to
    a connection is what was sent to it, in order.

  \<^bold>\<open>Interfaces.\<close> Each locale is interpreted on the functions of the code: \<^verbatim>\<open>mqf\<close>, \<^verbatim>\<open>hqf\<close>, \<^verbatim>\<open>npf\<close> are the three queues of the program as
  first-in first-out containers, \<^verbatim>\<open>gd\<close> is the gate's framing as a stream decoder, \<^verbatim>\<open>hw\<close> and \<^verbatim>\<open>np\<close> are the
  two length headers, and the index of sockets is an \<^verbatim>\<open>idmap\<close>.

  \<^bold>\<open>Bounds.\<close> Queues are proved for up to 2^30 - 1 messages (\<^verbatim>\<open>mq_limit\<close>, \<^verbatim>\<open>hq_limit\<close>; 2^31 - 2^11 for \<^verbatim>\<open>np_limit\<close>): one more doubling
  of their capacity would overflow an \<^verbatim>\<open>int\<close>. Loops that the code does not bound are \<^verbatim>\<open>partial_function (option)\<close>, and the
  theorems prove that they return; no fuel is used. The hash of a socket number in \<^verbatim>\<open>lua-netpack.c\<close> overflows above
  2^31 - 2^20 (\<^verbatim>\<open>fd_ok\<close>). The rules for the callers of the socket thread are \<^verbatim>\<open>act_ok\<close>: less than 2^16 - 1 sends to a socket are on their way,
  no request of an earlier socket is left for a new id; a read gives less than 2^30 bytes.

  \<^bold>\<open>Not modelled.\<close> Of the socket thread: the steps inside a function of another thread, which is one step here
  (the lock of a socket, the pipe), name resolution and binding (their results are arguments), text on stderr, and \<^verbatim>\<open>skynet_socket.c\<close>, which wraps its messages.
  Process start and threads (\<^verbatim>\<open>skynet_main.c\<close>,
  \<^verbatim>\<open>skynet_start.c\<close>, \<^verbatim>\<open>skynet_daemon.c\<close>) and the allocator (\<^verbatim>\<open>malloc_hook.c\<close>) are system calls; \<^verbatim>\<open>service_snlua.c\<close> and \<^verbatim>\<open>service_logger.c\<close>
  run Lua and write files; the other files of \<^verbatim>\<open>lualib-src\<close> move values between Lua and C, or speak the protocols of
  other systems. The directories named \<^verbatim>\<open>3rd\<close>, and the copies of skynet under \<^verbatim>\<open>src/robot\<close> and \<^verbatim>\<open>src/client\<close>, are vendored. The game
  itself is Lua.
\<close>

end
